(* ===== verification/Granular_Prelude.thy ===== *)
theory Granular_Prelude
  imports Main "HOL-Library.Word"
begin

text \<open>
  Shared ground of the development: the machine integers of the Rust sources, the engine's one
  error type, results and the early return \<open>?\<close>, the integer operations of the standard library
  the sources call (leading zeros, population count, little-endian bytes, rounding-up division),
  and the lemmas on word arrays, byte lists and searches the component theories share.

  A \<open>usize\<close> that is a length, an index or a cursor is a \<open>nat\<close>; a \<open>u64\<close> that the source shifts,
  masks, multiplies or lets wrap is a word of that width. An error carries the fixed part of its
  message: values interpolated by \<open>format!\<close> are left out.
\<close>

unbundle bit_operations_syntax

section \<open>Machine integers, errors and results\<close>

type_synonym u8 = "8 word"
type_synonym u16 = "16 word"
type_synonym u32 = "32 word"
type_synonym u64 = "64 word"
type_synonym u128 = "128 word"
type_synonym i64 = "64 word"
type_synonym bytes = "u8 list"

datatype error =
    Parse string nat
  | Bind string
  | Unsupported string
  | Exec string
  | Storage string
  | Io string
  | Corruption string
  | Version string

type_synonym 'a result = "error + 'a"

definition code :: "error \<Rightarrow> string" where
  "code e = (case e of
     Parse _ _ \<Rightarrow> ''SYNTAX_ERROR''
   | Bind _ \<Rightarrow> ''UNKNOWN_IDENTIFIER''
   | Unsupported _ \<Rightarrow> ''NOT_IMPLEMENTED''
   | Exec _ \<Rightarrow> ''EXECUTION_ERROR''
   | Storage _ \<Rightarrow> ''STORAGE_ERROR''
   | Io _ \<Rightarrow> ''IO_ERROR''
   | Corruption _ \<Rightarrow> ''CHECKSUM_MISMATCH''
   | Version _ \<Rightarrow> ''FORMAT_VERSION'')"

text \<open>The \<open>?\<close> operator: an error returns at once, a value is passed on.\<close>

definition rbind :: "'a result \<Rightarrow> ('a \<Rightarrow> 'b result) \<Rightarrow> 'b result" where
  "rbind m f = (case m of Inl e \<Rightarrow> Inl e | Inr x \<Rightarrow> f x)"

fun rmap :: "('a \<Rightarrow> 'b result) \<Rightarrow> 'a list \<Rightarrow> 'b list result" where
  "rmap f [] = Inr []"
| "rmap f (x # xs) = rbind (f x) (\<lambda>y. rbind (rmap f xs) (\<lambda>ys. Inr (y # ys)))"

named_theorems word_arrays \<open>facts on bits of arrays of words\<close>
named_theorems codec \<open>round-trip laws of the byte codecs\<close>

section \<open>Integer operations of the standard library\<close>

text \<open>Number of significant bits; \<open>w.leading_zeros()\<close> of a 64-bit word is \<open>64 - bit_len\<close>.\<close>

fun bit_len :: "nat \<Rightarrow> nat" where
  "bit_len n = (if n = 0 then 0 else Suc (bit_len (n div 2)))"

definition leading_zeros :: "u64 \<Rightarrow> nat" where
  "leading_zeros w = 64 - bit_len (unat w)"

definition count_ones :: "u64 \<Rightarrow> nat" where
  "count_ones w = length (filter (bit w) [0..<64])"

definition trailing_zeros :: "u64 \<Rightarrow> nat" where
  "trailing_zeros w = (case filter (bit w) [0..<64] of [] \<Rightarrow> 64 | i # _ \<Rightarrow> i)"

definition div_ceil :: "nat \<Rightarrow> nat \<Rightarrow> nat" where
  "div_ceil n d = (n + d - 1) div d"

definition usize_max :: nat where
  "usize_max = 18446744073709551615"

text \<open>\<open>checked_add\<close>, \<open>checked_mul\<close>, \<open>saturating_add\<close> and \<open>saturating_mul\<close> on \<open>usize\<close>.\<close>

definition checked_add :: "nat \<Rightarrow> nat \<Rightarrow> nat option" where
  "checked_add a b = (if a + b \<le> usize_max then Some (a + b) else None)"

definition checked_mul :: "nat \<Rightarrow> nat \<Rightarrow> nat option" where
  "checked_mul a b = (if a * b \<le> usize_max then Some (a * b) else None)"

definition saturating_add :: "nat \<Rightarrow> nat \<Rightarrow> nat" where
  "saturating_add a b = min (a + b) usize_max"

definition saturating_mul :: "nat \<Rightarrow> nat \<Rightarrow> nat" where
  "saturating_mul a b = min (a * b) usize_max"

text \<open>\<open>Vec::resize\<close>: shorten, or extend with a fill value. \<open>slice[a..b]\<close> of a list.\<close>

definition resize :: "'a list \<Rightarrow> nat \<Rightarrow> 'a \<Rightarrow> 'a list" where
  "resize xs n x = take n xs @ replicate (n - length xs) x"

definition slice :: "'a list \<Rightarrow> nat \<Rightarrow> nat \<Rightarrow> 'a list" where
  "slice xs a b = take (b - a) (drop a xs)"

text \<open>\<open>slice.get(a..b)\<close>.\<close>

definition get_range :: "'a list \<Rightarrow> nat \<Rightarrow> nat \<Rightarrow> 'a list option" where
  "get_range xs a b = (if a \<le> b \<and> b \<le> length xs then Some (slice xs a b) else None)"

text \<open>\<open>chunks_exact(n)\<close>: the full chunks; \<open>remainder()\<close> is what is left.\<close>

function chunks_exact :: "nat \<Rightarrow> 'a list \<Rightarrow> 'a list list" where
  "chunks_exact n xs =
     (if n = 0 \<or> length xs < n then [] else take n xs # chunks_exact n (drop n xs))"
  by pat_completeness auto
termination
  by (relation "measure (\<lambda>(n, xs). length xs)") auto

definition chunks_remainder :: "nat \<Rightarrow> 'a list \<Rightarrow> 'a list" where
  "chunks_remainder n xs = drop (length xs div n * n) xs"

text \<open>\<open>to_le_bytes\<close> and \<open>from_le_bytes\<close>.\<close>

definition le_bytes :: "'a::len word \<Rightarrow> bytes" where
  "le_bytes w = map (\<lambda>i. ucast (drop_bit (8 * i) w)) [0..<LENGTH('a) div 8]"

definition le_word :: "bytes \<Rightarrow> 'a::len word" where
  "le_word bs = foldr (\<lambda>b acc. ucast b OR push_bit 8 acc) bs 0"

text \<open>
  \<open>/\<close> and \<open>%\<close> on signed integers round towards zero; signed arithmetic that overflows wraps in a
  release build.
\<close>

definition trunc_div :: "int \<Rightarrow> int \<Rightarrow> int" where
  "trunc_div a b = sgn a * sgn b * (\<bar>a\<bar> div \<bar>b\<bar>)"

definition trunc_rem :: "int \<Rightarrow> int \<Rightarrow> int" where
  "trunc_rem a b = a - b * trunc_div a b"

definition wrap_i64 :: "int \<Rightarrow> int" where
  "wrap_i64 x = (x + 2 ^ 63) mod 2 ^ 64 - 2 ^ 63"

text \<open>\<open>std::cmp::Ordering\<close> and \<open>cmp\<close>.\<close>

datatype ordering = Less | Equal | Greater

definition cmp :: "'a::linorder \<Rightarrow> 'a \<Rightarrow> ordering" where
  "cmp a b = (if a < b then Less else if a = b then Equal else Greater)"

text \<open>\<open>partition_point\<close> of a list whose elements satisfying \<open>p\<close> come first.\<close>

definition partition_point :: "('a \<Rightarrow> bool) \<Rightarrow> 'a list \<Rightarrow> nat" where
  "partition_point p xs = length (takeWhile p xs)"

declare bit_len.simps [simp del] chunks_exact.simps [simp del]

section \<open>Results\<close>

lemma rbind_simps [simp]:
  "rbind (Inl e) f = Inl e"
  "rbind (Inr x) f = f x"
  by (simp_all add: rbind_def)

lemma rbind_eq_Inr [simp]: "rbind m f = Inr y \<longleftrightarrow> (\<exists>x. m = Inr x \<and> f x = Inr y)"
  by (simp add: rbind_def split: sum.split)

lemma rbind_eq_Inl: "rbind m f = Inl e \<longleftrightarrow> m = Inl e \<or> (\<exists>x. m = Inr x \<and> f x = Inl e)"
  by (simp add: rbind_def split: sum.split)

lemma rmap_Inr_iff: "rmap f xs = Inr ys \<longleftrightarrow> list_all2 (\<lambda>x y. f x = Inr y) xs ys"
  by (induction xs arbitrary: ys) (auto simp: list_all2_Cons1)

lemma rmap_total: "(\<And>x. x \<in> set xs \<Longrightarrow> f x = Inr (g x)) \<Longrightarrow> rmap f xs = Inr (map g xs)"
  by (induction xs) auto

section \<open>Significant bits\<close>

lemma bit_len_0 [simp]: "bit_len 0 = 0"
  by (simp add: bit_len.simps)

lemma bit_len_pos [simp]: "0 < n \<Longrightarrow> bit_len n = Suc (bit_len (n div 2))"
  by (subst bit_len.simps) simp

lemma bit_len_eq_0 [simp]: "bit_len n = 0 \<longleftrightarrow> n = 0"
  by (cases "n = 0") simp_all

lemma less_two_power_bit_len: "n < 2 ^ bit_len n"
proof (induction n rule: bit_len.induct)
  case (1 n)
  show ?case
  proof (cases "n = 0")
    case False
    with 1 have "n div 2 < 2 ^ bit_len (n div 2)" by simp
    then have "n < 2 * 2 ^ bit_len (n div 2)" by linarith
    with False show ?thesis by simp
  qed simp
qed

lemma bit_len_le: "n < 2 ^ k \<Longrightarrow> bit_len n \<le> k"
proof (induction n arbitrary: k rule: bit_len.induct)
  case (1 n)
  show ?case
  proof (cases "n = 0")
    case False
    with 1(2) obtain j where k: "k = Suc j" by (cases k) auto
    with 1(2) have "n div 2 < 2 ^ j" by (simp add: less_mult_imp_div_less)
    with 1(1) False have "bit_len (n div 2) \<le> j" by simp
    with False k show ?thesis by simp
  qed simp
qed

lemma bit_len_le_iff: "bit_len n \<le> k \<longleftrightarrow> n < 2 ^ k"
proof
  assume "bit_len n \<le> k"
  then have "(2::nat) ^ bit_len n \<le> 2 ^ k" by simp
  with less_two_power_bit_len [of n] show "n < 2 ^ k" by linarith
qed (rule bit_len_le)

lemma bit_len_word_le [simp]: "bit_len (unat (w :: u64)) \<le> 64"
  using unsigned_less [of w] by (intro bit_len_le) simp

lemma leading_zeros_width: "64 - leading_zeros w = bit_len (unat w)"
  using bit_len_word_le [of w] by (simp add: leading_zeros_def)

lemma div_ceil_le: "0 < d \<Longrightarrow> n \<le> div_ceil n d * d"
proof -
  assume d: "0 < d"
  have "n + d - 1 = (n + d - 1) div d * d + (n + d - 1) mod d" by simp
  moreover have "(n + d - 1) mod d < d" using d by simp
  ultimately show ?thesis using d unfolding div_ceil_def by linarith
qed

lemma less_div_ceil: "0 < d \<Longrightarrow> i < n \<Longrightarrow> i div d < div_ceil n d"
  using div_ceil_le [of d n] by (simp add: less_mult_imp_div_less)

lemma bit_u64_beyond [simp]: "64 \<le> n \<Longrightarrow> \<not> bit (w :: u64) n"
  by (auto dest: bit_imp_le_length)

lemma and_1_eq_1_bit: "w AND 1 = (1 :: u64) \<longleftrightarrow> bit w 0"
  by (metis and_one_eq bit_0 mod2_eq_if one_neq_zero)

lemma bit_width: "unat (d :: u64) < 2 ^ w \<Longrightarrow> bit d k \<Longrightarrow> k < w"
proof (rule ccontr)
  assume "unat d < 2 ^ w" "bit d k" "\<not> k < w"
  then have "unat d < 2 ^ k"
    by (meson less_le_trans not_less one_le_numeral power_increasing)
  then have "\<not> bit (unat d) k" by (simp add: bit_iff_odd)
  with \<open>bit d k\<close> show False by (simp add: bit_unsigned_iff)
qed

lemma unat_less_word:
  shows unat_u8_less: "unat (b :: u8) < 256"
    and unat_u16_less: "unat (h :: u16) < 65536"
    and unat_u32_less: "unat (d :: u32) < 4294967296"
    and unat_u64_less: "unat (w :: u64) < 18446744073709551616"
  using unsigned_less [of b] unsigned_less [of h] unsigned_less [of d] unsigned_less [of w]
  by simp_all

lemma unat_of_nat_u64: "n < 2 ^ 64 \<Longrightarrow> unat (of_nat n :: u64) = n"
  by (simp add: unat_of_nat)

lemma unat_of_nat_u32: "n < 2 ^ 32 \<Longrightarrow> unat (of_nat n :: u32) = n"
  by (simp add: unat_of_nat)

lemma of_nat_u64_less: "m < 2 ^ 64 \<Longrightarrow> n < 2 ^ 64 \<Longrightarrow> (of_nat m :: u64) < of_nat n \<longleftrightarrow> m < n"
  by (simp add: word_less_nat_alt unat_of_nat)

section \<open>Signed arithmetic\<close>

lemma wrap_i64_id: "- (2 ^ 63) \<le> x \<Longrightarrow> x < 2 ^ 63 \<Longrightarrow> wrap_i64 x = x"
  by (simp add: wrap_i64_def)

lemma wrap_i64_bounds: "- (2 ^ 63) \<le> wrap_i64 x" "wrap_i64 x < 2 ^ 63"
  by (simp_all add: wrap_i64_def)

lemma trunc_div_nonneg: "0 \<le> a \<Longrightarrow> 0 < b \<Longrightarrow> trunc_div a b = a div b"
  by (cases "a = 0") (simp_all add: trunc_div_def)

lemma trunc_div_neg: "a < 0 \<Longrightarrow> 0 < b \<Longrightarrow> trunc_div a b = - ((- a) div b)"
  by (simp add: trunc_div_def)

text \<open>The idiom \<open>(if x >= 0 { x } else { x - (k - 1) }) / k\<close> is the division that rounds down.\<close>

lemma trunc_div_floor:
  assumes "0 < k"
  shows "trunc_div (if 0 \<le> x then x else x - (k - 1)) k = x div k"
proof (cases "0 \<le> x")
  case False
  have "(- (x - (k - 1))) div k = - (x div k)"
  proof -
    have "(- x + (k - 1)) div k = - (x div k)"
    proof (rule int_div_pos_eq [where r = "(k - 1) - x mod k"])
      show "- x + (k - 1) = k * - (x div k) + (k - 1 - x mod k)"
        using mult_div_mod_eq [of k x] by (simp add: algebra_simps)
    qed (use assms pos_mod_bound [OF assms, of x] pos_mod_sign [OF assms, of x] in simp_all)
    then show ?thesis by (simp add: algebra_simps)
  qed
  with False assms show ?thesis by (simp add: trunc_div_neg)
qed (simp add: trunc_div_nonneg assms)

lemma int_div_bounds:
  fixes x k :: int
  assumes "0 < k"
  shows "k * (x div k) \<le> x" "x < k * (x div k) + k"
  using pos_mod_sign [OF assms, of x] pos_mod_bound [OF assms, of x] mult_div_mod_eq [of k x] by linarith+

section \<open>Little-endian bytes\<close>

lemma le_word_simps [simp]:
  "le_word [] = 0"
  "le_word (b # bs) = ucast b OR push_bit 8 (le_word bs)"
  by (simp_all add: le_word_def)

lemma bit_le_word:
  "bit (le_word bs :: 'a::len word) i \<longleftrightarrow>
     i < LENGTH('a) \<and> i div 8 < length bs \<and> bit (bs ! (i div 8)) (i mod 8)"
proof (induction bs arbitrary: i)
  case Nil
  then show ?case by simp
next
  case (Cons b bs)
  show ?case
  proof (cases "i < 8")
    case True
    then show ?thesis by (auto simp: bit_simps)
  next
    case False
    then have "i div 8 = Suc ((i - 8) div 8)" "i mod 8 = (i - 8) mod 8"
      by (simp_all add: le_div_geq le_mod_geq)
    with False show ?thesis
      by (auto simp: bit_simps Cons.IH dest: bit_imp_le_length)
  qed
qed

lemma length_le_bytes [simp]: "length (le_bytes (w :: 'a::len word)) = LENGTH('a) div 8"
  by (simp add: le_bytes_def)

lemma le_word_le_bytes [simp]:
  assumes "8 dvd LENGTH('a::len)"
  shows "le_word (le_bytes (w :: 'a word)) = w"
proof (rule bit_word_eqI)
  fix i assume i: "i < LENGTH('a)"
  with assms have "i div 8 < LENGTH('a) div 8"
    by (auto simp: less_mult_imp_div_less mult.commute)
  moreover have "i div 8 * 8 + i mod 8 = i" by simp
  ultimately show "bit (le_word (le_bytes w) :: 'a word) i = bit w i"
    using i by (simp add: bit_le_word le_bytes_def bit_simps mult.commute)
qed

lemma le_bytes_le_word:
  assumes "length bs * 8 = LENGTH('a::len)"
  shows "le_bytes (le_word bs :: 'a word) = bs"
proof (rule nth_equalityI)
  show len: "length (le_bytes (le_word bs :: 'a word)) = length bs"
    using assms by simp
  fix i assume "i < length (le_bytes (le_word bs :: 'a word))"
  with len have i: "i < length bs" by simp
  show "le_bytes (le_word bs :: 'a word) ! i = bs ! i"
  proof (rule bit_word_eqI)
    fix j assume j: "j < LENGTH(8)"
    with i assms have "i * 8 + j < LENGTH('a)" by (simp flip: assms)
    moreover from assms have "LENGTH('a) div 8 = length bs" by (simp flip: assms)
    ultimately show "bit (le_bytes (le_word bs :: 'a word) ! i) j = bit (bs ! i) j"
      using i j by (simp add: le_bytes_def bit_simps bit_le_word mult.commute)
  qed
qed

section \<open>Slices, chunks and partition points\<close>

lemma length_slice [simp]: "length (slice xs a b) = min (b - a) (length xs - a)"
  by (simp add: slice_def)

lemma slice_nth: "i < b - a \<Longrightarrow> a + i < length xs \<Longrightarrow> slice xs a b ! i = xs ! (a + i)"
  by (simp add: slice_def)

lemma slice_append: "a \<le> b \<Longrightarrow> b \<le> c \<Longrightarrow> slice xs a b @ slice xs b c = slice xs a c"
  using take_add [of "b - a" "c - b" "drop a xs"] by (simp add: slice_def)

lemma slice_0 [simp]: "slice xs 0 b = take b xs"
  by (simp add: slice_def)

lemma slice_to_end: "length xs \<le> b \<Longrightarrow> slice xs a b = drop a xs"
  by (simp add: slice_def)

lemma length_resize [simp]: "length (resize xs n x) = n"
  by (simp add: resize_def)

lemma resize_nth: "i < n \<Longrightarrow> resize xs n x ! i = (if i < length xs then xs ! i else x)"
  by (auto simp: resize_def nth_append)

lemma chunks_exact_Nil [simp]: "chunks_exact n [] = []"
  by (subst chunks_exact.simps) auto

lemma chunks_exact_append:
  assumes "0 < n" "length xs = n"
  shows "chunks_exact n (xs @ ys) = xs # chunks_exact n ys"
  using assms by (subst chunks_exact.simps) simp

lemma chunks_exact_concat:
  assumes "0 < n" "\<And>xs. xs \<in> set xss \<Longrightarrow> length xs = n"
  shows "chunks_exact n (concat xss) = xss"
  using assms(2) by (induction xss) (simp_all add: assms(1) chunks_exact_append)

lemma partition_point_le [simp]: "partition_point p xs \<le> length xs"
  by (simp add: partition_point_def length_takeWhile_le)

lemma partition_point_less: "i < partition_point p xs \<Longrightarrow> p (xs ! i)"
  unfolding partition_point_def by (metis nth_mem set_takeWhileD takeWhile_nth)

lemma partition_point_stop: "partition_point p xs < length xs \<Longrightarrow> \<not> p (xs ! partition_point p xs)"
  unfolding partition_point_def by (rule nth_length_takeWhile)

lemma partition_point_sorted_le:
  fixes xs :: "'a::linorder list"
  assumes "sorted xs" "i < length xs"
  shows "i < partition_point (\<lambda>x. x \<le> t) xs \<longleftrightarrow> xs ! i \<le> t"
proof
  assume "xs ! i \<le> t"
  show "i < partition_point (\<lambda>x. x \<le> t) xs"
  proof (rule ccontr)
    assume "\<not> i < partition_point (\<lambda>x. x \<le> t) xs"
    then have le: "partition_point (\<lambda>x. x \<le> t) xs \<le> i" by simp
    with assms have "partition_point (\<lambda>x. x \<le> t) xs < length xs" by simp
    then have "t < xs ! partition_point (\<lambda>x. x \<le> t) xs"
      using partition_point_stop by (meson not_le)
    also have "\<dots> \<le> xs ! i" using assms le by (simp add: sorted_nth_mono)
    finally show False using \<open>xs ! i \<le> t\<close> by simp
  qed
qed (use partition_point_less in auto)

end
