(* ===== verification/Hashing.thy ===== *)
theory Hashing
  imports Granular_Prelude
begin

text \<open>
  The hash primitives of \<^verbatim>\<open>src/common/hash.rs\<close>: the 128-bit fold \<open>mum\<close>, the seeded key hash, the
  multiply-shift range reduction, the byte-string hash and the integer hasher of the engine's
  hash maps. Everything that stores a hash-derived position (bloom blocks, perfect-hash slots and
  buckets) rests on \<open>fastrange_less\<close>.
\<close>

section \<open>Definitions\<close>

definition mum :: "u64 \<Rightarrow> u64 \<Rightarrow> u64" where
  "mum a b = (let r = (ucast a :: u128) * ucast b in ucast r XOR ucast (drop_bit 64 r))"

definition hash_key :: "u64 \<Rightarrow> u64 \<Rightarrow> u64" where
  "hash_key key seed =
     mum (mum (key XOR 0xA0761D6478BD642F) (seed OR 1)) (seed XOR 0xE7037ED1A0B428DB)"

text \<open>The product of a 64-bit hash and a \<open>usize\<close> fits 128 bits, so the shift is a division.\<close>

definition fastrange :: "u64 \<Rightarrow> nat \<Rightarrow> nat" where
  "fastrange h n = (unat h * n) div 2 ^ 64"

definition FP_BITS :: nat where
  "FP_BITS = 6"

definition FP_SEED :: u64 where
  "FP_SEED = 0x243F6A8885A308D3"

definition fp6 :: "u64 \<Rightarrow> u64" where
  "fp6 fph = drop_bit (64 - FP_BITS) fph"

definition splitmix64 :: "u64 \<Rightarrow> u64" where
  "splitmix64 x =
     (let z = x + 0x9E3779B97F4A7C15;
          z = (z XOR drop_bit 30 z) * 0xBF58476D1CE4E5B9;
          z = (z XOR drop_bit 27 z) * 0x94D049BB133111EB
      in z XOR drop_bit 31 z)"

definition hash_tail :: "bytes \<Rightarrow> u64" where
  "hash_tail rem =
     fold (\<lambda>(i, b) tail. tail OR push_bit (i * 8) (ucast b)) (enumerate 0 rem) 0"

definition hash_bytes :: "bytes \<Rightarrow> u64 \<Rightarrow> u64" where
  "hash_bytes bytes seed =
     (let h = seed XOR 0x9E3779B97F4A7C15;
          h = fold (\<lambda>c h. mum (h XOR le_word c) 0xFF51AFD7ED558CCD) (chunks_exact 8 bytes) h;
          rem = chunks_remainder 8 bytes;
          h = (if rem \<noteq> [] then mum (h XOR hash_tail rem) 0xC4CEB9FE1A85EC53 else h)
      in mum (h XOR of_nat (length bytes)) 0x9E3779B97F4A7C15)"

text \<open>\<open>FastHasher\<close>: the state is one word, replaced by every integer write.\<close>

definition write_u64 :: "u64 \<Rightarrow> u64 \<Rightarrow> u64" where
  "write_u64 self x = mum (x XOR 0x2545F4914F6CDD1D) 0x9E3779B97F4A7C15"

definition write_u32 :: "u64 \<Rightarrow> u32 \<Rightarrow> u64" where
  "write_u32 self x = write_u64 self (ucast x)"

definition write_usize :: "u64 \<Rightarrow> nat \<Rightarrow> u64" where
  "write_usize self x = write_u64 self (of_nat x)"

definition write_bytes :: "u64 \<Rightarrow> bytes \<Rightarrow> u64" where
  "write_bytes self bytes = hash_bytes bytes self"

section \<open>Range reduction and fingerprints\<close>

lemma fastrange_less [intro]: "0 < n \<Longrightarrow> fastrange h n < n"
proof -
  assume n: "0 < n"
  have "unat h < 2 ^ 64" using unsigned_less [of h] by simp
  with n have "unat h * n < 2 ^ 64 * n" by simp
  then show ?thesis unfolding fastrange_def by (simp add: less_mult_imp_div_less mult.commute)
qed

lemma fastrange_0 [simp]: "fastrange h 0 = 0"
  by (simp add: fastrange_def)

lemma fastrange_mono: "h \<le> h' \<Longrightarrow> fastrange h n \<le> fastrange h' n"
  by (simp add: fastrange_def div_le_mono word_le_nat_alt)

text \<open>
  The widening product is exact: the shift-right-by-64 of the 128-bit product that the source
  computes is the division of \<open>fastrange\<close>.
\<close>

lemma fastrange_u128:
  assumes "n < 2 ^ 64"
  shows "fastrange h n = unat (drop_bit 64 ((ucast h :: u128) * of_nat n))"
proof -
  have "unat h < 2 ^ 64" using unsigned_less [of h] by simp
  with assms have "unat h * n < 2 ^ 64 * 2 ^ 64" by (intro mult_strict_mono) auto
  moreover have "unat (ucast h :: u128) = unat h"
    using \<open>unat h < 2 ^ 64\<close> by (simp add: unsigned_ucast_eq take_bit_nat_eq_self)
  ultimately have "unat ((ucast h :: u128) * of_nat n) = unat h * n"
    using assms by (simp add: unat_word_ariths unat_of_nat)
  then show ?thesis
    by (simp add: fastrange_def drop_bit_eq_div unat_div)
qed

lemma fp6_bound: "unat (fp6 h) < 64"
proof -
  have "unat h < 64 * 2 ^ 58" using unsigned_less [of h] by simp
  then have "unat h div 2 ^ 58 < 64" by (rule less_mult_imp_div_less)
  then show ?thesis by (simp add: fp6_def FP_BITS_def drop_bit_eq_div unat_div)
qed

end
