(* ===== verification/Lane_Codec.thy ===== *)
theory Lane_Codec
  imports Granular_Prelude
begin

text \<open>
  The lane codec of \<^verbatim>\<open>src/common/lane.rs\<close> and the zigzag transform of \<^verbatim>\<open>src/common/zigzag.rs\<close>:
  how a logical value becomes the \<open>u64\<close> the engine packs, sorts and compares. A signed integer is
  its two's complement word; a \<open>f64\<close> is its IEEE-754 bit pattern, and \<open>f64_lt\<close>, \<open>f64_eq\<close> are the
  comparisons of the language on such patterns. The interface \<open>lane_codec\<close> states what the index
  stack relies on: decoding inverts encoding, and lane order is value order.
\<close>

section \<open>Definitions\<close>

definition zz_enc :: "i64 \<Rightarrow> u64" where
  "zz_enc v = push_bit 1 v XOR signed_drop_bit 63 v"

definition zz_dec :: "u64 \<Rightarrow> i64" where
  "zz_dec z = drop_bit 1 z XOR (- (z AND 1))"

definition SIGN :: u64 where
  "SIGN = push_bit 63 1"

definition i64_to_lane :: "i64 \<Rightarrow> u64" where
  "i64_to_lane v = v XOR SIGN"

definition lane_to_i64 :: "u64 \<Rightarrow> i64" where
  "lane_to_i64 l = l XOR SIGN"

text \<open>A double as its bit pattern: sign bit 63, then 11 exponent and 52 fraction bits.\<close>

type_synonym f64 = "64 word"

definition f64_mag :: "f64 \<Rightarrow> nat" where
  "f64_mag x = unat (x AND NOT SIGN)"

definition f64_is_nan :: "f64 \<Rightarrow> bool" where
  "f64_is_nan x \<longleftrightarrow> f64_mag x > 0x7FF0000000000000"

definition f64_key :: "f64 \<Rightarrow> int" where
  "f64_key x = (if bit x 63 then - int (f64_mag x) else int (f64_mag x))"

definition f64_lt :: "f64 \<Rightarrow> f64 \<Rightarrow> bool" where
  "f64_lt a b \<longleftrightarrow> \<not> f64_is_nan a \<and> \<not> f64_is_nan b \<and> f64_key a < f64_key b"

definition f64_eq :: "f64 \<Rightarrow> f64 \<Rightarrow> bool" where
  "f64_eq a b \<longleftrightarrow> \<not> f64_is_nan a \<and> \<not> f64_is_nan b \<and> f64_key a = f64_key b"

definition NAN_LANE :: u64 where
  "NAN_LANE = - 1"

definition f64_to_lane :: "f64 \<Rightarrow> u64" where
  "f64_to_lane x =
     (if f64_is_nan x then NAN_LANE
      else let b = (if f64_eq x 0 then 0 else x)
           in if b AND SIGN \<noteq> 0 then NOT b else b OR SIGN)"

definition lane_to_f64 :: "u64 \<Rightarrow> f64" where
  "lane_to_f64 l = (if l AND SIGN \<noteq> 0 then l AND NOT SIGN else NOT l)"

text \<open>The total order \<open>Value\<close> gives doubles: \<open>-0.0\<close> is \<open>0.0\<close>, NaN is one value and comes last.\<close>

definition total_cmp_f64 :: "f64 \<Rightarrow> f64 \<Rightarrow> ordering" where
  "total_cmp_f64 a b =
     (if f64_lt a b then Less
      else if f64_lt b a then Greater
      else if f64_eq a b then Equal
      else (case (f64_is_nan a, f64_is_nan b) of
              (True, True) \<Rightarrow> Equal
            | (True, False) \<Rightarrow> Greater
            | _ \<Rightarrow> Less))"

section \<open>The interface of an order-preserving codec\<close>

locale lane_codec =
  fixes enc :: "'a \<Rightarrow> u64"
    and dec :: "u64 \<Rightarrow> 'a"
    and le :: "'a \<Rightarrow> 'a \<Rightarrow> bool"
    and valid :: "'a \<Rightarrow> bool"
  assumes dec_enc: "valid x \<Longrightarrow> dec (enc x) = x"
    and enc_le: "valid x \<Longrightarrow> valid y \<Longrightarrow> enc x \<le> enc y \<longleftrightarrow> le x y"
begin

lemma enc_inj: "valid x \<Longrightarrow> valid y \<Longrightarrow> enc x = enc y \<longleftrightarrow> x = y"
  by (rule iffI) (drule arg_cong [of _ _ dec], simp_all add: dec_enc)

lemma le_total: "valid x \<Longrightarrow> valid y \<Longrightarrow> le x y \<or> le y x"
  using enc_le [of x y] enc_le [of y x] linear [of "enc x" "enc y"] by auto

lemma le_antisym: "valid x \<Longrightarrow> valid y \<Longrightarrow> le x y \<Longrightarrow> le y x \<Longrightarrow> x = y"
  by (simp add: order_antisym enc_le flip: enc_inj)

lemma le_trans: "valid x \<Longrightarrow> valid y \<Longrightarrow> valid z \<Longrightarrow> le x y \<Longrightarrow> le y z \<Longrightarrow> le x z"
  using enc_le [of x y] enc_le [of y z] enc_le [of x z] by auto

lemma sorted_lanes:
  "list_all valid xs \<Longrightarrow> sorted (map enc xs) \<longleftrightarrow> sorted_wrt le xs"
proof (induction xs)
  case (Cons x xs)
  then have "\<And>y. y \<in> set xs \<Longrightarrow> enc x \<le> enc y \<longleftrightarrow> le x y"
    by (simp add: enc_le list_all_iff)
  with Cons show ?case by auto
qed simp

lemma map_dec_enc: "list_all valid xs \<Longrightarrow> map dec (map enc xs) = xs"
  by (induction xs) (simp_all add: dec_enc)

text \<open>A zone map \<open>[min lane, max lane]\<close> bounds every value of the column.\<close>

lemma zone_bounds:
  assumes "list_all valid xs" "x \<in> set xs"
  shows "\<exists>lo \<in> set xs. \<exists>hi \<in> set xs.
    enc lo = Min (enc ` set xs) \<and> enc hi = Max (enc ` set xs) \<and> le lo x \<and> le x hi"
proof -
  from assms have "set xs \<noteq> {}" by auto
  then have "Min (enc ` set xs) \<in> enc ` set xs" "Max (enc ` set xs) \<in> enc ` set xs"
    by simp_all
  then obtain lo hi where lo: "lo \<in> set xs" "enc lo = Min (enc ` set xs)"
    and hi: "hi \<in> set xs" "enc hi = Max (enc ` set xs)" by force
  with assms(2) have "enc lo \<le> enc x" "enc x \<le> enc hi" by auto
  moreover have "valid lo" "valid hi" "valid x" using assms lo hi by (auto simp: list_all_iff)
  ultimately have "le lo x" "le x hi" by (simp_all add: enc_le)
  with lo hi show ?thesis by blast
qed

end

section \<open>Zigzag\<close>

lemma bit_zz_enc: "bit (zz_enc v) i \<longleftrightarrow> i < 64 \<and> ((0 < i \<and> bit v (i - 1)) \<noteq> bit v 63)"
  unfolding zz_enc_def bit_xor_iff bit_push_bit_iff bit_signed_drop_bit_iff
  by (cases i) auto

lemma bit_zz_dec: "bit (zz_dec z) i \<longleftrightarrow> i < 64 \<and> (bit z (Suc i) \<noteq> bit z 0)"
proof -
  have "- (z AND 1) = (if bit z 0 then - 1 else 0)"
    by (simp add: and_one_eq odd_iff_mod_2_eq_one bit_0 flip: even_iff_mod_2_eq_zero)
  then show ?thesis
    unfolding zz_dec_def bit_xor_iff bit_drop_bit_eq
    by (auto dest: bit_imp_le_length)
qed

lemma zz_dec_enc [simp]: "zz_dec (zz_enc v) = v"
proof (rule bit_word_eqI)
  fix i assume "i < LENGTH(64)"
  then show "bit (zz_dec (zz_enc v)) i = bit v i"
    by (cases "i = 63") (auto simp: bit_zz_enc bit_zz_dec)
qed

lemma zz_enc_dec [simp]: "zz_enc (zz_dec z) = z"
proof (rule bit_word_eqI)
  fix i assume "i < LENGTH(64)"
  then show "bit (zz_enc (zz_dec z)) i = bit z i"
    by (cases i) (auto simp: bit_zz_enc bit_zz_dec)
qed

section \<open>Signed integers\<close>

lemma bit_SIGN [simp]: "bit SIGN i \<longleftrightarrow> i = 63"
  unfolding SIGN_def bit_push_bit_iff by auto

lemma take_bit_uint: "take_bit 64 (uint (x :: u64)) = uint x"
proof -
  have "uint (take_bit 64 x) = take_bit 64 (uint x)" by (rule unsigned_take_bit_eq)
  moreover have "take_bit 64 x = x" by (rule bit_word_eqI) (simp add: bit_take_bit_iff)
  ultimately show ?thesis by simp
qed

lemma sint_u64: "sint (x :: u64) = uint x - (if bit x 63 then 2 ^ 64 else 0)"
  by (simp add: sint_uint signed_take_bit_eq_take_bit_minus bit_uint_iff take_bit_uint)

lemma uint_sign_flip: "uint (x XOR SIGN) = sint x + 2 ^ 63"
proof -
  have "uint (x XOR SIGN) = flip_bit 63 (uint x)"
    by (simp add: unsigned_xor_eq SIGN_def flip_bit_eq_xor)
  also have "\<dots> = (if bit x 63 then uint x - 2 ^ 63 else uint x + 2 ^ 63)"
    by (simp add: flip_bit_eq_if set_bit_eq unset_bit_eq bit_uint_iff)
  also have "\<dots> = sint x + 2 ^ 63"
    by (simp add: sint_u64)
  finally show ?thesis .
qed

lemma lane_i64_roundtrip: "lane_to_i64 (i64_to_lane v) = v"
  by (simp add: lane_to_i64_def i64_to_lane_def xor.assoc)

lemma i64_lane_le: "i64_to_lane a \<le> i64_to_lane b \<longleftrightarrow> a <=s b"
  by (simp add: i64_to_lane_def word_le_def uint_sign_flip word_sle_eq)

interpretation i64_codec: lane_codec i64_to_lane lane_to_i64 "\<lambda>a b. a <=s b" "\<lambda>_. True"
  by unfold_locales (simp_all add: lane_i64_roundtrip i64_lane_le)

section \<open>Doubles\<close>

lemma clear_sign: "x AND NOT SIGN = take_bit 63 x"
  by (rule bit_word_eqI) (auto simp: bit_simps)

lemma f64_mag_less: "f64_mag x < 2 ^ 63"
proof -
  have "f64_mag x = take_bit 63 (unat x)"
    by (simp add: f64_mag_def clear_sign unsigned_take_bit_eq)
  then show ?thesis using take_bit_nat_less_exp [of 63 "unat x"] by simp
qed

lemma uint_f64: "uint x = (if bit x 63 then 2 ^ 63 else 0) + int (f64_mag x)"
proof -
  have "int (f64_mag x) = take_bit 63 (uint x)"
    unfolding f64_mag_def clear_sign by (simp only: unsigned_take_bit_eq of_nat_take_bit of_nat_unat)
  moreover have "take_bit 64 (uint x) = push_bit 63 (of_bool (bit x 63)) + take_bit 63 (uint x)"
    using take_bit_Suc_from_most [of 63 "uint x"] by (simp add: bit_uint_iff)
  ultimately have "uint x = push_bit 63 (of_bool (bit x 63)) + int (f64_mag x)"
    by (simp only: take_bit_uint)
  then show ?thesis by (cases "bit x 63") simp_all
qed

lemma f64_mag_0_iff: "f64_mag x = 0 \<longleftrightarrow> x = 0 \<or> x = SIGN"
proof
  assume "f64_mag x = 0"
  then have low: "take_bit 63 x = 0"
    by (simp add: f64_mag_def clear_sign unat_eq_zero)
  have "\<not> bit x i" if "i < 63" for i
  proof -
    have "bit (take_bit 63 x) i = bit x i" using that by (simp add: bit_take_bit_iff)
    then show ?thesis by (simp add: low)
  qed
  then have bits: "i \<noteq> 63 \<Longrightarrow> \<not> bit x i" for i
    by (cases "i < 63") simp_all
  show "x = 0 \<or> x = SIGN"
  proof (cases "bit x 63")
    case True
    with bits have "x = SIGN" by (intro bit_word_eqI) auto
    then show ?thesis ..
  next
    case False
    with bits have "x = 0" by (intro bit_word_eqI) (metis bit_0_eq bot_apply bot_bool_def)
    then show ?thesis ..
  qed
qed (auto simp: f64_mag_def)

lemma sign_test: "x AND SIGN \<noteq> 0 \<longleftrightarrow> bit x 63"
proof -
  have "x AND SIGN = (if bit x 63 then SIGN else 0)"
    by (rule bit_word_eqI) (auto simp: bit_and_iff)
  moreover have "SIGN \<noteq> 0" by (simp add: SIGN_def)
  ultimately show ?thesis by simp
qed

text \<open>The lane of a number, in integers: an affine image of the signed magnitude.\<close>

lemma uint_f64_lane:
  assumes "\<not> f64_is_nan x"
  shows "uint (f64_to_lane x) = 2 ^ 63 + f64_key x - (if f64_key x < 0 then 1 else 0)"
proof -
  define b where "b = (if f64_eq x 0 then 0 else x)"
  have mag0: "f64_mag 0 = 0" by (simp add: f64_mag_def)
  have zero: "f64_eq x 0 \<longleftrightarrow> f64_mag x = 0"
    using assms by (auto simp: f64_eq_def f64_key_def f64_is_nan_def mag0)
  then have key: "f64_key b = f64_key x" "bit b 63 \<longleftrightarrow> f64_key x < 0"
    by (auto simp: b_def f64_key_def mag0)
  have lane: "f64_to_lane x = (if bit b 63 then NOT b else b OR SIGN)"
    using assms by (simp add: f64_to_lane_def b_def sign_test Let_def)
  show ?thesis
  proof (cases "bit b 63")
    case True
    have "uint (NOT b) = 2 ^ 64 - 1 - uint b"
    proof -
      have "uint (NOT b) = take_bit 64 (NOT (uint b))"
        by (simp add: unsigned_not_eq)
      then show ?thesis by (simp add: take_bit_not_eq_mask_diff mask_eq_exp_minus_1 take_bit_uint)
    qed
    with True key show ?thesis by (simp add: lane uint_f64 f64_key_def)
  next
    case False
    then have "b OR SIGN = b XOR SIGN"
      by (intro bit_word_eqI) (auto simp: bit_or_iff bit_xor_iff)
    moreover have "sint b = uint b" using False by (simp add: sint_u64)
    ultimately have "uint (b OR SIGN) = 2 ^ 63 + uint b" by (simp add: uint_sign_flip)
    with False key show ?thesis by (simp add: lane uint_f64 f64_key_def)
  qed
qed

lemma f64_key_bounds:
  "\<not> f64_is_nan x \<Longrightarrow> \<bar>f64_key x\<bar> \<le> 0x7FF0000000000000"
  by (simp add: f64_is_nan_def f64_key_def)

text \<open>
  Lane order is exactly the order \<open>Value\<close> gives doubles, on every pair, zeros of both signs and
  NaNs included.
\<close>

lemma f64_lane_cmp: "cmp (f64_to_lane a) (f64_to_lane b) = total_cmp_f64 a b"
proof -
  have nan: "f64_is_nan x \<Longrightarrow> uint (f64_to_lane x) = 2 ^ 64 - 1" for x
    by (simp add: f64_to_lane_def NAN_LANE_def unsigned_minus_1_eq_mask mask_eq_exp_minus_1)
  note num = uint_f64_lane f64_key_bounds
  show ?thesis
  proof (cases "f64_is_nan a"; cases "f64_is_nan b")
    assume "f64_is_nan a" "f64_is_nan b"
    then show ?thesis
      by (simp add: cmp_def total_cmp_f64_def f64_lt_def f64_eq_def f64_to_lane_def)
  next
    assume "f64_is_nan a" "\<not> f64_is_nan b"
    moreover from this num [of b] nan [of a] have "uint (f64_to_lane b) < uint (f64_to_lane a)"
      by (auto split: if_splits)
    ultimately show ?thesis
      by (auto simp: cmp_def word_less_def total_cmp_f64_def f64_lt_def f64_eq_def)
  next
    assume "\<not> f64_is_nan a" "f64_is_nan b"
    moreover from this num [of a] nan [of b] have "uint (f64_to_lane a) < uint (f64_to_lane b)"
      by (auto split: if_splits)
    ultimately show ?thesis
      by (auto simp: cmp_def word_less_def total_cmp_f64_def f64_lt_def f64_eq_def)
  next
    assume ok: "\<not> f64_is_nan a" "\<not> f64_is_nan b"
    have "f64_to_lane a < f64_to_lane b \<longleftrightarrow> f64_key a < f64_key b"
      and "f64_to_lane b < f64_to_lane a \<longleftrightarrow> f64_key b < f64_key a"
      using num [of a] num [of b] ok by (simp_all add: word_less_def)
    with ok show ?thesis
      by (auto simp: cmp_def total_cmp_f64_def f64_lt_def f64_eq_def)
  qed
qed

lemma lane_f64_roundtrip:
  assumes "\<not> f64_is_nan x" "x \<noteq> SIGN"
  shows "lane_to_f64 (f64_to_lane x) = x"
proof -
  have "f64_mag 0 = 0" by (simp add: f64_mag_def)
  then have "f64_eq x 0 \<Longrightarrow> f64_mag x = 0"
    by (auto simp: f64_eq_def f64_key_def split: if_splits)
  with assms(2) have "f64_eq x 0 \<Longrightarrow> x = 0" by (simp add: f64_mag_0_iff)
  then have "f64_to_lane x = (if bit x 63 then NOT x else x OR SIGN)"
    using assms by (auto simp: f64_to_lane_def sign_test Let_def)
  moreover have "bit x 63 \<Longrightarrow> lane_to_f64 (NOT x) = x"
    by (simp add: lane_to_f64_def sign_test bit_not_iff)
  moreover have "\<not> bit x 63 \<Longrightarrow> lane_to_f64 (x OR SIGN) = x"
  proof -
    assume "\<not> bit x 63"
    then have "(x OR SIGN) AND NOT SIGN = x"
      by (intro bit_word_eqI) (auto simp: bit_simps)
    moreover have "bit (x OR SIGN) 63" by (simp add: bit_or_iff)
    ultimately show ?thesis unfolding lane_to_f64_def sign_test by simp
  qed
  ultimately show ?thesis by simp
qed

text \<open>NaNs of every payload and sign decode from their one lane to a NaN; \<open>-0.0\<close> to \<open>0.0\<close>.\<close>

lemma lane_f64_canonical:
  "f64_is_nan x \<Longrightarrow> f64_is_nan (lane_to_f64 (f64_to_lane x))"
  "lane_to_f64 (f64_to_lane SIGN) = 0"
proof -
  have "lane_to_f64 NAN_LANE = 0x7FFFFFFFFFFFFFFF" and "f64_is_nan 0x7FFFFFFFFFFFFFFF"
    by (simp_all add: lane_to_f64_def NAN_LANE_def SIGN_def f64_is_nan_def f64_mag_def)
  then show "f64_is_nan x \<Longrightarrow> f64_is_nan (lane_to_f64 (f64_to_lane x))"
    by (simp add: f64_to_lane_def)
  have "f64_mag SIGN = 0" "f64_mag 0 = 0" by (simp_all add: f64_mag_0_iff)
  then have "f64_to_lane SIGN = SIGN"
    by (simp add: f64_to_lane_def f64_is_nan_def f64_eq_def f64_key_def)
  then show "lane_to_f64 (f64_to_lane SIGN) = 0" by (simp add: lane_to_f64_def SIGN_def)
qed

definition f64_canonical :: "f64 \<Rightarrow> bool" where
  "f64_canonical x \<longleftrightarrow> \<not> f64_is_nan x \<and> x \<noteq> SIGN"

definition f64_total_le :: "f64 \<Rightarrow> f64 \<Rightarrow> bool" where
  "f64_total_le a b \<longleftrightarrow> total_cmp_f64 a b \<noteq> Greater"

interpretation f64_codec: lane_codec f64_to_lane lane_to_f64 f64_total_le f64_canonical
proof unfold_locales
  fix x y
  show "f64_canonical x \<Longrightarrow> lane_to_f64 (f64_to_lane x) = x"
    by (simp add: f64_canonical_def lane_f64_roundtrip)
  show "f64_to_lane x \<le> f64_to_lane y \<longleftrightarrow> f64_total_le x y"
    by (auto simp: f64_total_le_def cmp_def simp flip: f64_lane_cmp)
qed

end
