(* ===== verification/Bit_Set.thy ===== *)
theory Bit_Set
  imports Granular_Prelude
begin

text \<open>
  The growable bitmap of \<^verbatim>\<open>src/common/bitset.rs\<close>, used for delete masks and null masks. The
  concrete state is the array of 64-bit words; \<open>bits_of\<close> is the set of indices it stands for, and
  every operation is shown to compute the set operation it is named after. The interface
  \<open>index_set\<close> is what the clients (delete masks, null masks) use of it.
\<close>

section \<open>Definitions\<close>

record bitset =
  words :: "u64 list"

definition bitset_new :: bitset where
  "bitset_new = \<lparr>words = []\<rparr>"

definition with_capacity_bits :: "nat \<Rightarrow> bitset" where
  "with_capacity_bits n = \<lparr>words = replicate (div_ceil n 64) 0\<rparr>"

definition all_set :: "nat \<Rightarrow> bitset" where
  "all_set n =
     (let ws = replicate (div_ceil n 64) (- 1); rem = n mod 64
      in \<lparr>words = (if rem \<noteq> 0 then ws[length ws - 1 := push_bit rem 1 - 1] else ws)\<rparr>)"

text \<open>\<open>set\<close> and \<open>clear\<close> also return whether the bit changed.\<close>

definition bitset_set :: "bitset \<Rightarrow> nat \<Rightarrow> bool \<times> bitset" where
  "bitset_set s i =
     (let w = i div 64;
          ws = (if length (words s) \<le> w then resize (words s) (w + 1) 0 else words s);
          m = push_bit (i mod 64) 1;
          fresh = (ws ! w AND m = 0)
      in (fresh, s\<lparr>words := ws[w := ws ! w OR m]\<rparr>))"

definition bitset_clear :: "bitset \<Rightarrow> nat \<Rightarrow> bool \<times> bitset" where
  "bitset_clear s i =
     (let w = i div 64
      in if length (words s) \<le> w then (False, s)
         else let m = push_bit (i mod 64) 1;
                  was = (words s ! w AND m \<noteq> 0)
              in (was, s\<lparr>words := (words s)[w := words s ! w AND NOT m]\<rparr>))"

definition bitset_get :: "bitset \<Rightarrow> nat \<Rightarrow> bool" where
  "bitset_get s i =
     (let w = i div 64
      in w < length (words s) \<and> drop_bit (i mod 64) (words s ! w) AND 1 = 1)"

definition set_to :: "bitset \<Rightarrow> nat \<Rightarrow> bool \<Rightarrow> bitset" where
  "set_to s i v = (if v then snd (bitset_set s i) else snd (bitset_clear s i))"

definition bitset_is_empty :: "bitset \<Rightarrow> bool" where
  "bitset_is_empty s = list_all (\<lambda>w. w = 0) (words s)"

definition bitset_count_ones :: "bitset \<Rightarrow> nat" where
  "bitset_count_ones s = sum_list (map count_ones (words s))"

definition count_ones_upto :: "bitset \<Rightarrow> nat \<Rightarrow> nat" where
  "count_ones_upto s n =
     (let full = min (n div 64) (length (words s));
          c = sum_list (map count_ones (take full (words s)))
      in if full < length (words s) \<and> n mod 64 \<noteq> 0
         then c + count_ones (words s ! full AND (push_bit (n mod 64) 1 - 1))
         else c)"

text \<open>The inner iterator: emit the lowest set bit, clear it by \<open>w &= w - 1\<close>, until \<open>w\<close> is zero.\<close>

function word_ones :: "u64 \<Rightarrow> nat list" where
  "word_ones w = (if w = 0 then [] else trailing_zeros w # word_ones (w AND (w - 1)))"
  by pat_completeness auto
termination
proof (relation "measure unat", goal_cases)
  case (2 w)
  have "w AND (w - 1) \<le> w - 1" by (rule word_and_le1)
  also have "w - 1 < w" using 2 by (simp add: word_less_nat_alt unat_minus_one unat_gt_0)
  finally show ?case by (simp add: word_less_nat_alt)
qed simp

definition iter_ones :: "bitset \<Rightarrow> nat \<Rightarrow> nat list" where
  "iter_ones s n =
     takeWhile (\<lambda>i. i < n)
       (concat (map (\<lambda>wi. map (\<lambda>b. wi * 64 + b) (word_ones (words s ! wi))) [0..<length (words s)]))"

definition union_with :: "bitset \<Rightarrow> bitset \<Rightarrow> bitset" where
  "union_with s t =
     (let ws = (if length (words t) > length (words s) then resize (words s) (length (words t)) 0
                else words s)
      in s\<lparr>words := map2 (\<lambda>a b. a OR b) ws (words t) @ drop (length (words t)) ws\<rparr>)"

definition intersect_with :: "bitset \<Rightarrow> bitset \<Rightarrow> bitset" where
  "intersect_with s t =
     (let ws = take (length (words t)) (words s)
      in s\<lparr>words := map2 (\<lambda>a b. a AND b) ws (words t)\<rparr>)"

definition negate :: "bitset \<Rightarrow> nat \<Rightarrow> bitset" where
  "negate s n =
     (let ws = map NOT (resize (words s) (div_ceil n 64) 0); rem = n mod 64
      in s\<lparr>words := (if rem \<noteq> 0
                     then ws[length ws - 1 := ws ! (length ws - 1) AND (push_bit rem 1 - 1)]
                     else ws)\<rparr>)"

definition from_words :: "u64 list \<Rightarrow> bitset" where
  "from_words ws = \<lparr>words = ws\<rparr>"

definition bitset_bytes :: "bitset \<Rightarrow> nat" where
  "bitset_bytes s = length (words s) * 8"

text \<open>The set of indices a bitmap stands for.\<close>

definition bits_of :: "bitset \<Rightarrow> nat set" where
  "bits_of s = {i. bitset_get s i}"

declare word_ones.simps [simp del]

section \<open>The interface the clients use\<close>

locale index_set =
  fixes empty :: "'s"
    and ins :: "nat \<Rightarrow> 's \<Rightarrow> 's"
    and del :: "nat \<Rightarrow> 's \<Rightarrow> 's"
    and mem :: "'s \<Rightarrow> nat \<Rightarrow> bool"
  assumes mem_empty: "\<not> mem empty i"
    and mem_ins: "mem (ins i s) j \<longleftrightarrow> j = i \<or> mem s j"
    and mem_del: "mem (del i s) j \<longleftrightarrow> j \<noteq> i \<and> mem s j"
begin

lemma mem_fold_ins: "mem (fold ins is s) j \<longleftrightarrow> j \<in> set is \<or> mem s j"
  by (induction "is" arbitrary: s) (auto simp: mem_ins)

lemma mem_fold_del: "mem (fold del is s) j \<longleftrightarrow> j \<notin> set is \<and> mem s j"
  by (induction "is" arbitrary: s) (auto simp: mem_del)

lemma mem_fold_ins_if:
  "mem (fold (\<lambda>i. if P i then ins (f i) else (\<lambda>s. s)) is s) j \<longleftrightarrow>
     (\<exists>i \<in> set is. P i \<and> f i = j) \<or> mem s j"
  by (induction "is" arbitrary: s) (auto simp: mem_ins)

end

section \<open>Single bits\<close>

lemma low_bit_test: "drop_bit k (w :: u64) AND 1 = 1 \<longleftrightarrow> bit w k"
  by (simp add: and_one_eq bit_iff_odd_drop_bit odd_iff_mod_2_eq_one)

lemma bit_single: "bit (2 ^ k :: u64) i \<longleftrightarrow> i = k \<and> k < 64"
  by (auto simp: bit_exp_iff possible_bit_def)

lemma mask_test: "k < 64 \<Longrightarrow> (w :: u64) AND 2 ^ k = 0 \<longleftrightarrow> \<not> bit w k"
proof -
  assume k: "k < 64"
  have "w AND 2 ^ k = (if bit w k then 2 ^ k else 0)"
    by (rule bit_word_eqI) (auto simp: bit_and_iff bit_single)
  moreover have "(2 :: u64) ^ k \<noteq> 0"
    using k bit_single [of k k] by auto
  ultimately show ?thesis by simp
qed

lemma low_mask: "2 ^ k - 1 = (mask k :: u64)"
  by (simp add: mask_eq_exp_minus_1)

lemma bitset_get_iff:
  "bitset_get s i \<longleftrightarrow> i div 64 < length (words s) \<and> bit (words s ! (i div 64)) (i mod 64)"
  by (simp add: bitset_get_def low_bit_test Let_def)

lemma mem_bits_of [simp]: "i \<in> bits_of s \<longleftrightarrow> bitset_get s i"
  by (simp add: bits_of_def)

lemma bits_of_new [simp]: "bits_of bitset_new = {}" "bits_of (with_capacity_bits n) = {}"
  by (auto simp: bitset_get_iff bitset_new_def with_capacity_bits_def)

lemma nat_split_64: "(j :: nat) = i \<longleftrightarrow> j div 64 = i div 64 \<and> j mod 64 = i mod 64"
  by (metis div_mult_mod_eq)

lemma bitset_get_set [simp]: "bitset_get (snd (bitset_set s i)) j \<longleftrightarrow> j = i \<or> bitset_get s j"
proof -
  define ws where "ws = (if length (words s) \<le> i div 64 then resize (words s) (i div 64 + 1) 0
                         else words s)"
  have len: "i div 64 < length ws" by (simp add: ws_def)
  have old: "j div 64 < length ws \<and> bit (ws ! (j div 64)) (j mod 64) \<longleftrightarrow> bitset_get s j" for j
    by (auto simp: ws_def bitset_get_iff resize_nth split: if_splits)
  have "bitset_get (snd (bitset_set s i)) j \<longleftrightarrow>
      j div 64 < length ws \<and>
      bit (if j div 64 = i div 64 then ws ! (i div 64) OR push_bit (i mod 64) 1
           else ws ! (j div 64)) (j mod 64)"
    using len by (auto simp: bitset_set_def bitset_get_iff Let_def nth_list_update ws_def)
  then show ?thesis
    using old [of j] len by (auto simp: bit_or_iff bit_single nat_split_64 [of j i])
qed

lemma fst_bitset_set [simp]: "fst (bitset_set s i) \<longleftrightarrow> \<not> bitset_get s i"
  by (auto simp: bitset_set_def Let_def mask_test bitset_get_iff resize_nth)

lemma bitset_get_clear [simp]: "bitset_get (snd (bitset_clear s i)) j \<longleftrightarrow> j \<noteq> i \<and> bitset_get s j"
  by (auto simp: bitset_clear_def bitset_get_iff Let_def nth_list_update bit_simps bit_single
      nat_split_64 [of j i])

lemma fst_bitset_clear [simp]: "fst (bitset_clear s i) \<longleftrightarrow> bitset_get s i"
  by (auto simp: bitset_clear_def Let_def mask_test bitset_get_iff)

lemma bitset_get_set_to [simp]: "bitset_get (set_to s i v) j \<longleftrightarrow> (if j = i then v else bitset_get s j)"
  by (simp add: set_to_def)

interpretation bitset: index_set bitset_new "\<lambda>i s. snd (bitset_set s i)"
  "\<lambda>i s. snd (bitset_clear s i)" bitset_get
proof unfold_locales
  show "\<not> bitset_get bitset_new i" for i by (simp add: bitset_get_def bitset_new_def)
qed simp_all

section \<open>Whole-set operations\<close>

lemma div_ceil_rem:
  assumes "n mod 64 \<noteq> 0"
  shows "div_ceil n 64 = Suc (n div 64)"
proof -
  have n: "n = n div 64 * 64 + n mod 64" "n mod 64 < 64" by simp_all
  have "0 < n mod 64" using assms by simp
  with n have "64 * (n div 64) + 64 \<le> n + 63" by linarith
  moreover have "n + 63 < 64 * (n div 64) + 128" using n by linarith
  ultimately have "(n + 63) div 64 = Suc (n div 64)" by (intro div_nat_eqI) simp_all
  then show ?thesis by (simp add: div_ceil_def)
qed

lemma div_ceil_exact:
  assumes "n mod 64 = 0"
  shows "div_ceil n 64 = n div 64"
proof -
  have "n = n div 64 * 64" using assms by auto
  then have "64 * (n div 64) \<le> n + 63" "n + 63 < 64 * (n div 64) + 64" by linarith+
  then have "(n + 63) div 64 = n div 64" by (intro div_nat_eqI) simp_all
  then show ?thesis by (simp add: div_ceil_def)
qed

text \<open>An index below \<open>n\<close> lies in a full word, or in the partial last one below the remainder.\<close>

lemma below_split_64:
  "(j :: nat) < n \<longleftrightarrow> j div 64 < n div 64 \<or> j div 64 = n div 64 \<and> j mod 64 < n mod 64"
proof -
  have "j = j div 64 * 64 + j mod 64" "n = n div 64 * 64 + n mod 64"
    "j mod 64 < 64" "n mod 64 < 64" by simp_all
  then show ?thesis by linarith
qed

text \<open>The words of \<open>all_set\<close> and \<open>negate\<close>: a full pattern, masked in the partial last word.\<close>

lemma bits_of_masked:
  assumes "n mod 64 \<noteq> 0" "length ws = Suc (n div 64)"
  shows "bitset_get \<lparr>words = ws[n div 64 := ws ! (n div 64) AND mask (n mod 64)]\<rparr> i
    \<longleftrightarrow> i < n \<and> bit (ws ! (i div 64)) (i mod 64)"
  using assms below_split_64 [of i n]
  by (cases "i div 64 = n div 64") (auto simp: bitset_get_iff bit_and_iff bit_mask_iff less_Suc_eq)

lemma nth_fill: "i \<le> q \<Longrightarrow> replicate (Suc q) a ! i = a"
  by (rule nth_replicate) simp

lemma bits_of_all_set [simp]: "bits_of (all_set n) = {..<n}"
proof (cases "n mod 64 = 0")
  case True
  then show ?thesis
    by (auto simp: all_set_def Let_def bitset_get_iff div_ceil_exact below_split_64 [of _ n])
next
  case False
  define ws :: "u64 list" where "ws = replicate (div_ceil n 64) (- 1)"
  have len: "length ws = Suc (n div 64)" and nth: "i \<le> n div 64 \<Longrightarrow> ws ! i = - 1" for i
    using div_ceil_rem [OF False] by (simp_all add: ws_def nth_fill del: replicate_Suc)
  have "all_set n = \<lparr>words = ws[n div 64 := ws ! (n div 64) AND mask (n mod 64)]\<rparr>"
    using False len nth [of "n div 64"] unfolding all_set_def Let_def ws_def [symmetric]
    by (simp add: low_mask)
  then have get: "bitset_get (all_set n) i \<longleftrightarrow> i < n \<and> bit (ws ! (i div 64)) (i mod 64)" for i
    using bits_of_masked [OF False len] by metis
  have "bit (ws ! (i div 64)) (i mod 64)" if "i < n" for i
    using nth [of "i div 64"] that by (simp add: div_le_mono)
  with get show ?thesis unfolding bits_of_def by blast
qed

lemma bits_of_negate [simp]: "bits_of (negate s n) = {..<n} - bits_of s"
proof -
  define ws where "ws = map NOT (resize (words s) (div_ceil n 64) 0)"
  have len: "length ws = div_ceil n 64"
    and nth: "i < div_ceil n 64 \<Longrightarrow>
      ws ! i = NOT (if i < length (words s) then words s ! i else 0)" for i
    by (simp_all add: ws_def resize_nth)
  have old: "bit (ws ! (i div 64)) (i mod 64) \<longleftrightarrow> \<not> bitset_get s i" if "i < n" for i
    using nth [OF less_div_ceil [of 64 i n]] that by (simp add: bit_not_iff bitset_get_iff)
  show ?thesis
  proof (cases "n mod 64 = 0")
    case True
    then have "negate s n = s\<lparr>words := ws\<rparr>" by (simp add: negate_def ws_def)
    moreover have "i div 64 < div_ceil n 64 \<longleftrightarrow> i < n" for i
      using div_ceil_exact [OF True] below_split_64 [of i n] True by auto
    ultimately have "bitset_get (negate s n) i \<longleftrightarrow> i < n \<and> bit (ws ! (i div 64)) (i mod 64)" for i
      by (simp add: bitset_get_iff len)
    with old show ?thesis unfolding bits_of_def by blast
  next
    case False
    note dc = div_ceil_rem [OF False]
    have "negate s n = \<lparr>words = ws[n div 64 := ws ! (n div 64) AND mask (n mod 64)]\<rparr>"
      using False len dc unfolding negate_def Let_def ws_def [symmetric] by (simp add: low_mask)
    then have "bitset_get (negate s n) i \<longleftrightarrow> i < n \<and> bit (ws ! (i div 64)) (i mod 64)" for i
      using bits_of_masked [OF False, of ws i] len dc by metis
    with old show ?thesis unfolding bits_of_def by blast
  qed
qed

lemma bits_of_union_with [simp]: "bits_of (union_with s t) = bits_of s \<union> bits_of t"
  by (auto simp: union_with_def Let_def bitset_get_iff nth_append resize_nth bit_or_iff
      split: if_splits)

lemma bits_of_intersect_with [simp]: "bits_of (intersect_with s t) = bits_of s \<inter> bits_of t"
  by (auto simp: intersect_with_def Let_def bitset_get_iff bit_and_iff split: if_splits)

lemma bitset_is_empty_iff: "bitset_is_empty s \<longleftrightarrow> bits_of s = {}"
proof -
  have "(\<forall>w < length (words s). words s ! w = 0) \<longleftrightarrow> (\<forall>i. \<not> bitset_get s i)"
  proof (intro iffI allI impI)
    fix w assume none: "\<forall>i. \<not> bitset_get s i" and w: "w < length (words s)"
    show "words s ! w = 0"
    proof (rule bit_word_eqI)
      fix k assume "k < LENGTH(64)"
      then show "bit (words s ! w) k = bit 0 k"
        using none [rule_format, of "w * 64 + k"] w by (simp add: bitset_get_iff)
    qed
  qed (auto simp: bitset_get_iff)
  then show ?thesis by (auto simp: bitset_is_empty_def list_all_length)
qed

section \<open>Counting and iterating\<close>

lemma trailing_zeros_least:
  assumes "w \<noteq> 0"
  shows "bit w (trailing_zeros w)" "trailing_zeros w < 64"
    "\<And>i. i < trailing_zeros w \<Longrightarrow> \<not> bit w i"
    "filter (bit w) [0..<64] = trailing_zeros w # filter (bit w) [Suc (trailing_zeros w)..<64]"
proof -
  obtain t ts where t: "filter (bit w) [0..<64] = t # ts"
  proof (cases "filter (bit w) [0..<64]")
    case Nil
    then have "w = 0" by (intro bit_word_eqI) (auto simp: filter_empty_conv)
    with assms show ?thesis by simp
  qed
  then obtain us vs where split: "[0..<64] = us @ t # vs" "\<forall>u\<in>set us. \<not> bit w u" "bit w t"
    "ts = filter (bit w) vs"
    by (auto simp: filter_eq_Cons_iff)
  have tl: "t = length us" and t64: "t < 64"
    using arg_cong [OF split(1), of "\<lambda>xs. xs ! length us"] arg_cong [OF split(1), of length]
    by (simp_all del: upt_rec_numeral)
  have us: "us = [0..<t]" and vs: "vs = [Suc t..<64]"
    using arg_cong [OF split(1), of "take t"] arg_cong [OF split(1), of "drop (Suc t)"] tl t64
    by (simp_all add: take_upt del: upt_rec_numeral)
  have "trailing_zeros w = t" by (simp add: trailing_zeros_def t)
  with split us vs t64 t show "bit w (trailing_zeros w)" "trailing_zeros w < 64"
    "\<And>i. i < trailing_zeros w \<Longrightarrow> \<not> bit w i"
    "filter (bit w) [0..<64] = trailing_zeros w # filter (bit w) [Suc (trailing_zeros w)..<64]"
    by (auto simp del: upt_rec_numeral)
qed

text \<open>\<open>w & (w - 1)\<close> clears exactly the lowest set bit.\<close>

lemma bit_clear_lowest:
  fixes w :: u64
  assumes "w \<noteq> 0"
  shows "bit (w AND (w - 1)) i \<longleftrightarrow> bit w i \<and> i \<noteq> trailing_zeros w"
proof -
  define t where "t = trailing_zeros w"
  define h where "h = w AND NOT (mask (Suc t))"
  note tz = trailing_zeros_least(1-3) [OF assms, folded t_def]
  have h: "bit h k \<longleftrightarrow> bit w k \<and> t < k" for k
    by (auto simp: h_def bit_and_iff bit_not_iff bit_mask_iff possible_bit_def
        dest: bit_imp_le_length)
  have "w = h OR 2 ^ t"
    by (rule bit_word_eqI) (use tz in \<open>auto simp: h bit_or_iff bit_single intro: linorder_cases\<close>)
  also have "\<dots> = h + 2 ^ t"
    by (rule disjunctive_add [symmetric]) (auto simp: h bit_single)
  finally have "w - 1 = h + mask t" by (simp add: mask_eq_exp_minus_1)
  also have "\<dots> = h OR mask t"
    by (rule disjunctive_add) (auto simp: h bit_mask_iff)
  finally have "bit (w - 1) i \<longleftrightarrow> bit w i \<and> t < i \<or> i < t \<and> i < 64"
    by (auto simp: h bit_or_iff bit_mask_iff possible_bit_def)
  then show ?thesis
    using tz unfolding t_def [symmetric] by (auto simp: bit_and_iff intro: linorder_cases)
qed

lemma word_ones_eq: "word_ones w = filter (bit w) [0..<64]"
proof (induction w rule: word_ones.induct)
  case (1 w)
  show ?case
  proof (cases "w = 0")
    case False
    note tz = trailing_zeros_least [OF False]
    have "[0..<64] = [0..<trailing_zeros w] @ [trailing_zeros w..<64]"
      using tz(2) by (metis less_imp_le upt_add_eq_append le0 add_0 le_add_diff_inverse)
    also have "[trailing_zeros w..<64] = trailing_zeros w # [Suc (trailing_zeros w)..<64]"
      using tz(2) by (rule upt_conv_Cons)
    finally have "filter (bit (w AND (w - 1))) [0..<64] = filter (bit w) [Suc (trailing_zeros w)..<64]"
      by (auto simp: bit_clear_lowest [OF False] filter_empty_conv tz(3) intro!: filter_cong)
    with 1 False tz(4) show ?thesis by (subst word_ones.simps) simp
  qed (simp add: word_ones.simps)
qed

lemma bitset_get_block:
  "wi < length (words s) \<Longrightarrow> b < 64 \<Longrightarrow> bitset_get s (wi * 64 + b) \<longleftrightarrow> bit (words s ! wi) b"
  by (simp add: bitset_get_iff)

lemma ones_of_words:
  "m \<le> length (words s) \<Longrightarrow>
     concat (map (\<lambda>wi. map (\<lambda>b. wi * 64 + b) (word_ones (words s ! wi))) [0..<m])
       = filter (bitset_get s) [0..<m * 64]"
proof (induction m)
  case (Suc m)
  have "[0..<Suc m * 64] = [0..<m * 64] @ map (\<lambda>b. m * 64 + b) [0..<64]"
    using upt_add_eq_append [of 0 "m * 64" 64] map_add_upt [of "m * 64" 64]
    by (simp add: add.commute del: upt_rec_numeral)
  moreover have "filter (bitset_get s) (map (\<lambda>b. m * 64 + b) [0..<64])
      = map (\<lambda>b. m * 64 + b) (filter (bit (words s ! m)) [0..<64])"
    unfolding filter_map using Suc.prems
    by (intro arg_cong [where f = "map _"] filter_cong) (auto simp: bitset_get_block)
  ultimately show ?case using Suc by (simp add: word_ones_eq)
qed simp

lemma takeWhile_less_sorted:
  "sorted xs \<Longrightarrow> takeWhile (\<lambda>i. i < n) xs = filter (\<lambda>i. i < (n :: 'a :: linorder)) xs"
proof (induction xs)
  case (Cons x xs)
  then show ?case by (cases "x < n") (fastforce simp: filter_empty_conv intro!: sym [of _ "[]"])+
qed simp

lemma iter_ones_eq: "iter_ones s n = filter (bitset_get s) [0..<n]"
proof -
  let ?m = "length (words s) * 64"
  have out: "\<not> bitset_get s i" if "?m \<le> i" for i
    using div_le_mono [OF that, of 64] by (simp add: bitset_get_iff)
  have "iter_ones s n = filter (\<lambda>i. i < n) (filter (bitset_get s) [0..<?m])"
    by (simp add: iter_ones_def ones_of_words takeWhile_less_sorted sorted_wrt_filter)
  also have "\<dots> = filter (bitset_get s) [0..<n]"
  proof (rule sorted_distinct_set_unique)
    show "set (filter (\<lambda>i. i < n) (filter (bitset_get s) [0..<?m])) = set (filter (bitset_get s) [0..<n])"
      using out by (auto simp: not_le [symmetric])
  qed (auto simp: sorted_wrt_filter)
  finally show ?thesis .
qed

lemma bitset_count_ones_eq: "bitset_count_ones s = card (bits_of s)"
proof -
  let ?m = "length (words s) * 64"
  have "bitset_count_ones s = length (concat (map (\<lambda>wi. map (\<lambda>b. wi * 64 + b)
      (word_ones (words s ! wi))) [0..<length (words s)]))"
    using map_nth [of "words s"] unfolding bitset_count_ones_def
    by (simp add: count_ones_def [abs_def] word_ones_eq length_concat o_def
        del: upt_rec_numeral) (metis (no_types, lifting) map_map comp_apply map_eq_conv)
  also have "\<dots> = card (set (filter (bitset_get s) [0..<?m]))"
    by (simp add: ones_of_words distinct_card del: set_filter)
  also have "set (filter (bitset_get s) [0..<?m]) = bits_of s"
    by (auto simp: bitset_get_iff less_mult_imp_div_less dest: div_less_iff_less_mult [THEN iffD1, rotated])
  finally show ?thesis .
qed

lemma count_ones_upto_eq: "count_ones_upto s n = card (bits_of s \<inter> {..<n})"
proof -
  let ?f = "min (n div 64) (length (words s))"
  define t where "t = \<lparr>words = take ?f (words s) @
    (if ?f < length (words s) \<and> n mod 64 \<noteq> 0 then [words s ! ?f AND mask (n mod 64)] else [])\<rparr>"
  have cnt: "count_ones_upto s n = bitset_count_ones t"
    by (auto simp: count_ones_upto_def bitset_count_ones_def t_def Let_def low_mask)
  have get: "bitset_get t i \<longleftrightarrow> bitset_get s i \<and> i < n" for i
  proof (cases "i div 64 < ?f")
    case True
    then show ?thesis by (simp add: t_def bitset_get_iff nth_append below_split_64 [of i n] less_Suc_eq)
  next
    case False
    then have "bitset_get t i \<longleftrightarrow> ?f < length (words s) \<and> n mod 64 \<noteq> 0 \<and> i div 64 = ?f
        \<and> bit (words s ! ?f) (i mod 64) \<and> i mod 64 < n mod 64"
      by (auto simp: t_def bitset_get_iff nth_append bit_and_iff bit_mask_iff less_Suc_eq)
    also have "\<dots> \<longleftrightarrow> i div 64 < length (words s) \<and> i div 64 = n div 64 \<and> i mod 64 < n mod 64
        \<and> bit (words s ! (i div 64)) (i mod 64)"
      by (auto simp: min_def)
    finally show ?thesis
      using False by (auto simp: bitset_get_iff below_split_64 [of i n])
  qed
  have "bits_of t = bits_of s \<inter> {..<n}" using get unfolding bits_of_def by blast
  with cnt show ?thesis by (simp add: bitset_count_ones_eq)
qed

end
