(* ===== verification/Bitpack.thy ===== *)
theory Bitpack
  imports Granular_Prelude
begin

text \<open>
  Frame-of-reference bit packing, \<^verbatim>\<open>src/encoding/bitpack.rs\<close>: a chunk of \<open>u64\<close> values is stored as
  a base and fixed-width payloads, in one of three layouts (constant, word-aligned lanes, tight
  straddled). The word array is kept as a list; the raw pointer and its owner are the words and a
  tag. Shown: reading any position of a packed chunk returns the value packed there, in every
  layout, including the reciprocal multiplication that replaces the division; the bulk decoder
  agrees with single reads; and the interpolation search over a sorted chunk finds the lower bound.
\<close>

section \<open>Definitions\<close>

datatype backing = Owned | Borrowed

record packed_u64 =
  p_base :: u64
  p_width :: nat
  per_word :: nat
  recip :: u64
  p_mask :: u64
  p_words :: "u64 list"
  p_backing :: backing

definition own :: "u64 \<Rightarrow> nat \<Rightarrow> nat \<Rightarrow> u64 \<Rightarrow> u64 \<Rightarrow> u64 list \<Rightarrow> packed_u64" where
  "own base width per rc m ws =
     \<lparr>p_base = base, p_width = width, per_word = per, recip = rc, p_mask = m,
      p_words = ws, p_backing = Owned\<rparr>"

definition width_mask :: "nat \<Rightarrow> u64" where
  "width_mask width =
     (if width = 0 then 0 else if width = 64 then - 1 else push_bit width 1 - 1)"

definition lane_recip :: "nat \<Rightarrow> u64" where
  "lane_recip per = (push_bit 32 1 + of_nat per - 1) div of_nat per"

text \<open>\<open>words[wi] |= d << off\<close> of the aligned loop, over the values from index \<open>i\<close> on.\<close>

fun pack_lanes :: "nat \<Rightarrow> nat \<Rightarrow> u64 \<Rightarrow> nat \<Rightarrow> u64 list \<Rightarrow> u64 list \<Rightarrow> u64 list" where
  "pack_lanes per width base i [] ws = ws"
| "pack_lanes per width base i (v # vs) ws =
     pack_lanes per width base (Suc i) vs
       (ws[i div per := ws ! (i div per) OR push_bit (i mod per * width) (v - base)])"

text \<open>The straddled loop: the part of a value beyond its word goes to the next one.\<close>

fun pack_straddled :: "nat \<Rightarrow> u64 \<Rightarrow> nat \<Rightarrow> u64 list \<Rightarrow> u64 list \<Rightarrow> u64 list" where
  "pack_straddled width base pos [] ws = ws"
| "pack_straddled width base pos (v # vs) ws =
     (let d = v - base; wi = pos div 64; off = pos mod 64;
          ws1 = ws[wi := ws ! wi OR push_bit off d];
          ws2 = (if off + width > 64
                 then ws1[wi + 1 := ws1 ! (wi + 1) OR drop_bit (64 - off) d] else ws1)
      in pack_straddled width base (pos + width) vs ws2)"

definition pack_with_base :: "u64 list \<Rightarrow> u64 \<Rightarrow> u64 \<Rightarrow> packed_u64" where
  "pack_with_base vals base rng =
     (let n = length vals; width = 64 - leading_zeros rng; m = width_mask width
      in if width = 0 then own base 0 0 0 m (replicate 2 0)
         else if width \<le> 32
         then let per = 64 div width
              in own base width per (lane_recip per) m
                   (pack_lanes per width base 0 vals (replicate (div_ceil n per + 1) 0))
         else own base width 0 0 m
                (pack_straddled width base 0 vals (replicate (max ((n * width + 63) div 64 + 1) 2) 0)))"

definition pack :: "u64 list \<Rightarrow> packed_u64" where
  "pack vals =
     (if vals = [] then own 0 0 0 0 0 (replicate 2 0)
      else let base = fold min (tl vals) (hd vals);
               rng = fold max (tl vals) (hd vals) - base
           in pack_with_base vals base rng)"

definition from_parts :: "u64 \<Rightarrow> nat \<Rightarrow> u64 list \<Rightarrow> packed_u64" where
  "from_parts base width ws =
     (let m = width_mask width
      in if width = 0 \<or> width > 32 then own base width 0 0 m ws
         else let per = 64 div width in own base width per (lane_recip per) m ws)"

definition from_mapped :: "u64 \<Rightarrow> nat \<Rightarrow> u64 list \<Rightarrow> packed_u64" where
  "from_mapped base width ws =
     (let m = width_mask width;
          (per, rc) = (if width = 0 \<or> width > 32 then (0, 0)
                       else let per = 64 div width in (per, lane_recip per))
      in \<lparr>p_base = base, p_width = width, per_word = per, recip = rc, p_mask = m,
          p_words = ws, p_backing = Borrowed\<rparr>)"

definition is_mapped :: "packed_u64 \<Rightarrow> bool" where
  "is_mapped p = (p_backing p = Borrowed)"

definition packed_clone :: "packed_u64 \<Rightarrow> packed_u64" where
  "packed_clone p = from_parts (p_base p) (p_width p) (p_words p)"

definition packed_eq :: "packed_u64 \<Rightarrow> packed_u64 \<Rightarrow> bool" where
  "packed_eq p q = (p_base p = p_base q \<and> p_width p = p_width q \<and> p_words p = p_words q)"

text \<open>The straddled read: a pair of words as one \<open>u128\<close>, shifted and masked.\<close>

definition straddled_at :: "packed_u64 \<Rightarrow> nat \<Rightarrow> u64" where
  "straddled_at p pos =
     (let wi = pos div 64; off = pos mod 64;
          pair = (ucast (p_words p ! wi) OR push_bit 64 (ucast (p_words p ! (wi + 1))) :: u128)
      in p_base p + (ucast (drop_bit off pair) AND p_mask p))"

definition lane_at :: "packed_u64 \<Rightarrow> nat \<Rightarrow> nat \<Rightarrow> u64" where
  "lane_at p q r = p_base p + (drop_bit (r * p_width p) (p_words p ! q) AND p_mask p)"

definition packed_get :: "packed_u64 \<Rightarrow> nat \<Rightarrow> u64" where
  "packed_get p i =
     (let per = per_word p
      in if per \<noteq> 0
         then let q = unat (drop_bit 32 (of_nat i * recip p)); r = i - q * per in lane_at p q r
         else if p_width p = 0 then p_base p
         else straddled_at p (i * p_width p))"

definition unpack_words :: "packed_u64 \<Rightarrow> nat \<Rightarrow> nat \<Rightarrow> nat \<Rightarrow> u64 list" where
  "unpack_words p per first_word nwords =
     concat (map (\<lambda>wi. map (\<lambda>l. lane_at p (first_word + wi) l) [0..<per]) [0..<nwords])"

text \<open>The two loops around the whole words: up to a word boundary, and the rest.\<close>

function unpack_head :: "packed_u64 \<Rightarrow> nat \<Rightarrow> nat \<Rightarrow> u64 list" where
  "unpack_head p i e =
     (if i < e \<and> i mod per_word p \<noteq> 0
      then lane_at p (i div per_word p) (i mod per_word p) # unpack_head p (i + 1) e else [])"
  by pat_completeness auto
termination by (relation "measure (\<lambda>(p, i, e). e - i)") auto

function unpack_tail :: "packed_u64 \<Rightarrow> nat \<Rightarrow> nat \<Rightarrow> u64 list" where
  "unpack_tail p i e =
     (if i < e
      then lane_at p (i div per_word p) (i mod per_word p) # unpack_tail p (i + 1) e else [])"
  by pat_completeness auto
termination by (relation "measure (\<lambda>(p, i, e). e - i)") auto

fun unpack_straddled :: "packed_u64 \<Rightarrow> nat \<Rightarrow> nat \<Rightarrow> u64 list" where
  "unpack_straddled p pos 0 = []"
| "unpack_straddled p pos (Suc n) = straddled_at p pos # unpack_straddled p (pos + p_width p) n"

text \<open>What \<open>unpack_range\<close> writes into \<open>out[..e-s]\<close>.\<close>

definition unpack_range :: "packed_u64 \<Rightarrow> nat \<Rightarrow> nat \<Rightarrow> u64 list" where
  "unpack_range p s e =
     (let per = per_word p
      in if per \<noteq> 0
         then let head = unpack_head p s e; i = s + length head; nwords = (e - i) div per;
                  body = (if nwords > 0 then unpack_words p per (i div per) nwords else []);
                  i' = i + nwords * per
              in head @ body @ unpack_tail p i' e
         else if p_width p = 0 then replicate (e - s) (p_base p)
         else unpack_straddled p (s * p_width p) (e - s))"

definition value_ceiling :: "packed_u64 \<Rightarrow> u64" where
  "value_ceiling p = p_base p + p_mask p"

definition packed_bytes :: "packed_u64 \<Rightarrow> nat" where
  "packed_bytes p = (case p_backing p of Owned \<Rightarrow> length (p_words p) * 8 + 32 | Borrowed \<Rightarrow> 32)"

text \<open>One round of the interpolation search picks a probe; the interval then shrinks around it.\<close>

definition clamp :: "nat \<Rightarrow> nat \<Rightarrow> nat \<Rightarrow> nat" where
  "clamp x lo hi = (if x < lo then lo else if x > hi then hi else x)"

definition probe :: "packed_u64 \<Rightarrow> nat \<Rightarrow> nat \<Rightarrow> u64 \<Rightarrow> nat" where
  "probe p lo hi target =
     (let mid = (if hi - lo > 8
                 then let klo = unat (packed_get p lo); khi = unat (packed_get p (hi - 1))
                      in if khi > klo
                         then let t = clamp (unat target) klo khi
                              in lo + (t - klo) * (hi - lo - 1) div (khi - klo)
                         else lo + (hi - lo) div 2
                 else lo + (hi - lo) div 2)
      in clamp mid lo (hi - 1))"

lemma clamp_bounds: "lo \<le> hi \<Longrightarrow> lo \<le> clamp x lo hi" "lo \<le> hi \<Longrightarrow> clamp x lo hi \<le> hi"
  by (auto simp: clamp_def)

lemma probe_bounds:
  assumes "lo < hi"
  shows "lo \<le> probe p lo hi t" "probe p lo hi t < hi"
proof -
  obtain mid where "probe p lo hi t = clamp mid lo (hi - 1)" unfolding probe_def Let_def by blast
  moreover have "lo \<le> hi - 1" using assms by simp
  ultimately show "lo \<le> probe p lo hi t" "probe p lo hi t < hi"
    using clamp_bounds [of lo "hi - 1" mid] assms by linarith+
qed

function lower_bound_loop :: "packed_u64 \<Rightarrow> u64 \<Rightarrow> nat \<Rightarrow> nat \<Rightarrow> nat" where
  "lower_bound_loop p target lo hi =
     (if lo < hi
      then let mid = probe p lo hi target
           in if packed_get p mid < target then lower_bound_loop p target (mid + 1) hi
              else lower_bound_loop p target lo mid
      else lo)"
  by pat_completeness auto
termination
proof (relation "measure (\<lambda>(p, t, lo, hi). hi - lo)", goal_cases)
  case (2 p t lo hi)
  with probe_bounds [of lo hi p t] show ?case by (simp add: le_imp_less_Suc)
next
  case (3 p t lo hi)
  with probe_bounds [of lo hi p t] show ?case by simp
qed simp

definition packed_lower_bound :: "packed_u64 \<Rightarrow> nat \<Rightarrow> u64 \<Rightarrow> nat" where
  "packed_lower_bound p len target = lower_bound_loop p target 0 len"

declare unpack_head.simps [simp del] unpack_tail.simps [simp del] lower_bound_loop.simps [simp del]

section \<open>Arrays of words as bit strings\<close>

definition abit :: "u64 list \<Rightarrow> nat \<Rightarrow> bool" where
  "abit ws k \<longleftrightarrow> bit (ws ! (k div 64)) (k mod 64)"

text \<open>Bits of the array after a value has been or-ed in at a bit position.\<close>

definition written :: "u64 list \<Rightarrow> nat \<Rightarrow> nat \<Rightarrow> u64 \<Rightarrow> u64 list \<Rightarrow> bool" where
  "written ws pos width d ws' \<longleftrightarrow> length ws' = length ws \<and>
     (\<forall>k < 64 * length ws. abit ws' k \<longleftrightarrow>
        abit ws k \<or> pos \<le> k \<and> k < pos + width \<and> bit d (k - pos))"

lemma written_or:
  assumes "unat d < 2 ^ width" "pos mod 64 + width \<le> 64" "pos div 64 < length ws"
  shows "written ws pos width d (ws[pos div 64 := ws ! (pos div 64) OR push_bit (pos mod 64) d])"
  unfolding written_def
proof (intro conjI allI impI)
  fix k assume k: "k < 64 * length ws"
  have p: "pos = pos div 64 * 64 + pos mod 64" and k': "k = k div 64 * 64 + k mod 64"
    "k mod 64 < 64" by simp_all
  show "abit (ws[pos div 64 := ws ! (pos div 64) OR push_bit (pos mod 64) d]) k \<longleftrightarrow>
      abit ws k \<or> pos \<le> k \<and> k < pos + width \<and> bit d (k - pos)"
  proof (cases "k div 64 = pos div 64")
    case True
    with p k' have "pos \<le> k \<longleftrightarrow> pos mod 64 \<le> k mod 64" "k - pos = k mod 64 - pos mod 64"
      "k < pos + width \<longleftrightarrow> k mod 64 < pos mod 64 + width"
      by linarith+
    moreover have "bit d (k mod 64 - pos mod 64) \<Longrightarrow> k mod 64 - pos mod 64 < width"
      using bit_width assms(1) by blast
    ultimately show ?thesis
      using True assms(3) by (auto simp: abit_def bit_or_iff bit_push_bit_iff)
  next
    case False
    moreover have "\<not> (pos \<le> k \<and> k < pos + width)"
      using False p k' assms(2) by linarith
    ultimately show ?thesis by (auto simp: abit_def)
  qed
qed simp

lemma written_straddled:
  assumes "unat d < 2 ^ width" "width \<le> 64" "64 < pos mod 64 + width"
    "Suc (pos div 64) < length ws"
  defines "ws1 \<equiv> ws[pos div 64 := ws ! (pos div 64) OR push_bit (pos mod 64) d]"
  shows "written ws pos width d
    (ws1[pos div 64 + 1 := ws1 ! (pos div 64 + 1) OR drop_bit (64 - pos mod 64) d])"
  unfolding written_def
proof (intro conjI allI impI)
  fix k assume k: "k < 64 * length ws"
  let ?ws2 = "ws1[pos div 64 + 1 := ws1 ! (pos div 64 + 1) OR drop_bit (64 - pos mod 64) d]"
  have p: "pos = pos div 64 * 64 + pos mod 64" and k': "k = k div 64 * 64 + k mod 64"
    "k mod 64 < 64" "pos mod 64 < 64" by simp_all
  have d: "bit d j \<Longrightarrow> j < width" for j using bit_width assms(1) by blast
  consider "k div 64 = pos div 64" | "k div 64 = pos div 64 + 1"
    | "k div 64 \<noteq> pos div 64" "k div 64 \<noteq> pos div 64 + 1" by blast
  then show "abit ?ws2 k \<longleftrightarrow> abit ws k \<or> pos \<le> k \<and> k < pos + width \<and> bit d (k - pos)"
  proof cases
    case 1
    with p k' assms(3) have "pos \<le> k \<longleftrightarrow> pos mod 64 \<le> k mod 64"
      "k - pos = k mod 64 - pos mod 64" "k < pos + width" by linarith+
    then show ?thesis
      using 1 assms(4) by (auto simp: abit_def ws1_def bit_or_iff bit_push_bit_iff)
  next
    case 2
    with p k' have "pos \<le> k" "k - pos = 64 - pos mod 64 + k mod 64" by linarith+
    moreover from this have "bit d (k - pos) \<Longrightarrow> k < pos + width" using d [of "k - pos"] by linarith
    ultimately show ?thesis
      using 2 assms(4) by (auto simp: abit_def ws1_def bit_or_iff bit_drop_bit_eq)
  next
    case 3
    moreover have "\<not> (pos \<le> k \<and> k < pos + width)"
      using 3 p k' assms(2) by linarith
    ultimately show ?thesis by (auto simp: abit_def ws1_def)
  qed
qed (simp add: ws1_def)

text \<open>
  A run of writes at increasing, non-overlapping positions: \<open>pos i\<close> is where value \<open>i\<close> starts.
\<close>

definition filled :: "(nat \<Rightarrow> nat) \<Rightarrow> nat \<Rightarrow> u64 list \<Rightarrow> nat \<Rightarrow> u64 list \<Rightarrow> u64 list \<Rightarrow> bool" where
  "filled pos width ds i ws ws' \<longleftrightarrow> length ws' = length ws \<and>
     (\<forall>k < 64 * length ws. abit ws' k \<longleftrightarrow>
        abit ws k \<or> (\<exists>j < length ds. pos (i + j) \<le> k \<and> k < pos (i + j) + width
                        \<and> bit (ds ! j) (k - pos (i + j))))"

lemma filled_Nil: "filled pos width [] i ws ws"
  by (simp add: filled_def)

lemma filled_Cons:
  assumes "written ws (pos i) width d ws1" "filled pos width ds (Suc i) ws1 ws'"
  shows "filled pos width (d # ds) i ws ws'"
proof -
  let ?hit = "\<lambda>k j d. pos j \<le> k \<and> k < pos j + width \<and> bit d (k - pos j)"
  have "(\<exists>j < length (d # ds). ?hit k (i + j) ((d # ds) ! j)) \<longleftrightarrow>
      ?hit k i d \<or> (\<exists>j < length ds. ?hit k (Suc i + j) (ds ! j))" for k
    by (auto simp: less_Suc_eq_0_disj)
  then show ?thesis using assms unfolding filled_def written_def by auto
qed

lemma filled_read:
  assumes "filled pos width ds 0 (replicate n 0) ws" "i < length ds" "b < width"
    and mono: "\<And>j. pos j + width \<le> pos (Suc j)"
    and "pos i + b < 64 * n"
  shows "abit ws (pos i + b) \<longleftrightarrow> bit (ds ! i) b"
proof -
  have step: "j < j' \<Longrightarrow> pos j + width \<le> pos j'" for j j'
  proof (induction j')
    case (Suc m)
    then show ?case using mono [of m] by (cases "j = m") auto
  qed simp
  have only: "pos j \<le> pos i + b \<Longrightarrow> pos i + b < pos j + width \<Longrightarrow> j = i" for j
    using step [of i j] step [of j i] assms(3) by (cases i j rule: linorder_cases) auto
  have "\<not> abit (replicate n 0) (pos i + b)"
    using assms(5) by (simp add: abit_def less_mult_imp_div_less)
  then have "abit ws (pos i + b) \<longleftrightarrow> (\<exists>j < length ds. pos j \<le> pos i + b \<and> pos i + b < pos j + width
      \<and> bit (ds ! j) (pos i + b - pos j))"
    using assms(1,5) unfolding filled_def by simp
  also have "\<dots> \<longleftrightarrow> bit (ds ! i) b"
    using only assms(2,3) by (metis add_diff_cancel_left' le_add1 nat_add_left_cancel_less)
  finally show ?thesis .
qed

lemma length_filled: "filled pos width ds i ws ws' \<Longrightarrow> length ws' = length ws"
  by (simp add: filled_def)

section \<open>What the two packing loops write\<close>

definition lane_pos :: "nat \<Rightarrow> nat \<Rightarrow> nat \<Rightarrow> nat" where
  "lane_pos per width i = i div per * 64 + i mod per * width"

lemma lane_fits:
  fixes per width i :: nat
  assumes "0 < per" and le: "per * width \<le> 64"
  shows "i mod per * width + width \<le> 64"
proof -
  have "Suc (i mod per) * width \<le> per * width"
    using assms(1) by (intro mult_le_mono1) (simp add: Suc_leI)
  with le show ?thesis by simp
qed

lemma lane_pos_split:
  assumes "0 < per" "per * width \<le> 64" "0 < width"
  shows "lane_pos per width i div 64 = i div per" "lane_pos per width i mod 64 = i mod per * width"
  using lane_fits [OF assms(1,2), of i] assms(3) by (simp_all add: lane_pos_def)

lemma lane_pos_mono:
  assumes "0 < per" "per * width \<le> 64"
  shows "lane_pos per width i + width \<le> lane_pos per width (Suc i)"
proof (cases "Suc (i mod per) = per")
  case True
  then have "Suc i mod per = 0" "Suc i div per = Suc (i div per)"
    by (simp_all add: mod_Suc div_Suc)
  then show ?thesis using lane_fits [OF assms, of i] by (simp add: lane_pos_def)
next
  case False
  then have "Suc i mod per = Suc (i mod per)" "Suc i div per = i div per"
    by (simp_all add: mod_Suc div_Suc)
  then show ?thesis by (simp add: lane_pos_def)
qed

lemma pack_lanes_filled:
  assumes "0 < per" "per * width \<le> 64" "0 < width"
    and "\<And>v. v \<in> set vs \<Longrightarrow> unat (v - base) < 2 ^ width"
    and "\<And>j. j < length vs \<Longrightarrow> (i + j) div per < length ws"
  shows "filled (lane_pos per width) width (map (\<lambda>v. v - base) vs) i ws
    (pack_lanes per width base i vs ws)"
  using assms(4,5)
proof (induction vs arbitrary: i ws)
  case (Cons v vs)
  let ?ws1 = "ws[i div per := ws ! (i div per) OR push_bit (i mod per * width) (v - base)]"
  have "written ws (lane_pos per width i) width (v - base) ?ws1"
    using written_or [of "v - base" width "lane_pos per width i" ws] Cons.prems(1) [of v]
      Cons.prems(2) [of 0] lane_fits [OF assms(1,2), of i]
    by (simp add: lane_pos_split assms)
  moreover have "filled (lane_pos per width) width (map (\<lambda>v. v - base) vs) (Suc i) ?ws1
      (pack_lanes per width base (Suc i) vs ?ws1)"
  proof (rule Cons.IH)
    fix j assume "j < length vs"
    then show "(Suc i + j) div per < length ?ws1" using Cons.prems(2) [of "Suc j"] by simp
  qed (use Cons.prems(1) in simp)
  ultimately show ?case using filled_Cons by simp
qed (simp add: filled_Nil)

lemma pack_straddled_filled:
  assumes "width \<le> 64" "0 < width"
    and "\<And>v. v \<in> set vs \<Longrightarrow> unat (v - base) < 2 ^ width"
    and "(i + length vs) * width + 64 \<le> 64 * length ws"
  shows "filled (\<lambda>i. i * width) width (map (\<lambda>v. v - base) vs) i ws
    (pack_straddled width base (i * width) vs ws)"
  using assms(3,4)
proof (induction vs arbitrary: i ws)
  case (Cons v vs)
  let ?d = "v - base" and ?pos = "i * width"
  define ws1 where "ws1 = ws[?pos div 64 := ws ! (?pos div 64) OR push_bit (?pos mod 64) ?d]"
  define ws2 where "ws2 = (if ?pos mod 64 + width > 64
    then ws1[?pos div 64 + 1 := ws1 ! (?pos div 64 + 1) OR drop_bit (64 - ?pos mod 64) ?d] else ws1)"
  have "i * width + width + 64 \<le> 64 * length ws"
    using Cons.prems(2) by (simp add: algebra_simps)
  moreover have "?pos div 64 * 64 \<le> ?pos" by simp
  ultimately have len: "?pos div 64 < length ws" "Suc (?pos div 64) < length ws"
    using assms(2) by linarith+
  have "written ws ?pos width ?d ws2"
    using written_or [of ?d width ?pos ws] written_straddled [of ?d width ?pos ws] len
      Cons.prems(1) [of v] assms(1) by (auto simp: ws2_def ws1_def)
  moreover have "filled (\<lambda>i. i * width) width (map (\<lambda>v. v - base) vs) (Suc i) ws2
      (pack_straddled width base (Suc i * width) vs ws2)"
    by (rule Cons.IH) (use Cons.prems in \<open>simp_all add: ws2_def ws1_def\<close>)
  moreover have "pack_straddled width base ?pos (v # vs) ws
      = pack_straddled width base (Suc i * width) vs ws2"
    unfolding ws1_def ws2_def by (simp add: Let_def add.commute)
  ultimately show ?case
    using filled_Cons [of ws "\<lambda>i. i * width" i width ?d ws2] by (simp del: pack_straddled.simps)
qed (simp add: filled_Nil)

section \<open>Reading back\<close>

text \<open>The reciprocal multiplication is the division, for the indices a chunk can have.\<close>

lemma recip_division:
  assumes "0 < per" "per \<le> 64" "i < 2 ^ 26"
  shows "unat (drop_bit 32 (of_nat i * lane_recip per)) = i div per"
proof -
  define rc where "rc = (2 ^ 32 + per - 1) div per"
  have small: "unat (of_nat k :: u64) = k" if "k < 2 ^ 64" for k
    using that by (simp add: unat_of_nat)
  have "lane_recip per = of_nat (2 ^ 32 + per - 1) div of_nat per"
    using assms(1) by (simp add: lane_recip_def of_nat_diff)
  moreover have "2 ^ 32 + per - 1 < 2 ^ 64" "per < 2 ^ 64" using assms(2) by simp_all
  ultimately have rc: "unat (lane_recip per) = rc"
    unfolding rc_def by (simp only: unat_div small)
  have m: "rc * per + (2 ^ 32 + per - 1) mod per = 2 ^ 32 + per - 1"
    unfolding rc_def by (rule div_mult_mod_eq)
  moreover have "(2 ^ 32 + per - 1) mod per < per" using assms(1) by simp
  ultimately obtain e where e: "rc * per = 2 ^ 32 + e" "e < per"
    using assms(1) by (intro that [of "per - 1 - (2 ^ 32 + per - 1) mod per"]) linarith+
  have prod: "i * rc * per = i * 2 ^ 32 + i * e" using e(1) by (simp add: algebra_simps)
  have "i * e \<le> i * 63" "i * 63 < 2 ^ 32" using e(2) assms(2,3) by simp_all
  then have ie: "i * e < 2 ^ 32" by linarith
  have i: "i div per * per \<le> i" "i < i div per * per + per"
    using assms(1) dividend_less_div_times [of per i] by simp_all
  have "2 ^ 32 * (i div per) * per \<le> i * rc * per"
    using i(1) unfolding prod by (simp add: trans_le_add1)
  then have lo: "2 ^ 32 * (i div per) \<le> i * rc" using assms(1) by simp
  have "i * 2 ^ 32 + i * e < (i + 1) * 2 ^ 32" using ie by simp
  also have "\<dots> \<le> (i div per * per + per) * 2 ^ 32" using i(2) by (intro mult_le_mono1) simp
  finally have "i * rc * per < 2 ^ 32 * Suc (i div per) * per"
    unfolding prod by (simp add: algebra_simps)
  then have hi: "i * rc < 2 ^ 32 * Suc (i div per)" by simp
  have "i div per \<le> i" by simp
  then have "2 ^ 32 * Suc (i div per) \<le> 2 ^ 32 * 2 ^ 26" using assms(3) by (intro mult_le_mono2 Suc_leI) (rule le_less_trans)
  with hi have "i * rc < 2 ^ 32 * 2 ^ 26" by (rule less_le_trans)
  then have "i * rc < 2 ^ 64" by simp
  moreover have "lane_recip per = of_nat rc" unfolding rc [symmetric] by simp
  ultimately have "unat (of_nat i * lane_recip per) = i * rc"
    using small [of "i * rc"] by simp
  moreover have "unat (drop_bit 32 w) = unat w div 2 ^ 32" for w :: u64
    by (subst unat_drop_bit_eq) (rule drop_bit_eq_div)
  ultimately show ?thesis using div_nat_eqI [OF lo hi] by (simp only:)
qed

text \<open>The payload mask and the width of a range.\<close>

lemma bit_width_mask: "width \<le> 64 \<Longrightarrow> bit (width_mask width) k \<longleftrightarrow> k < width"
  by (auto simp: width_mask_def mask_eq_exp_minus_1 [symmetric] bit_mask_iff
      dest: bit_imp_le_length)

lemma range_width: "unat rng < 2 ^ (64 - leading_zeros rng)"
  by (simp add: leading_zeros_width less_two_power_bit_len)

lemma range_width_le: "64 - leading_zeros rng \<le> 64"
  by simp

lemma fold_min_max:
  fixes x :: "'a::linorder"
  shows "fold min xs x = Min (insert x (set xs))" "fold max xs x = Max (insert x (set xs))"
  by (simp_all add: Min.set_eq_fold [symmetric] Max.set_eq_fold [symmetric])

text \<open>Every offset fits the width chosen from the largest one.\<close>

lemma offset_width:
  assumes "v \<in> set vals" "\<And>v. v \<in> set vals \<Longrightarrow> base \<le> v \<and> v - base \<le> rng"
  shows "unat (v - base) < 2 ^ (64 - leading_zeros rng)"
  using assms(2) [OF assms(1)] range_width [of rng]
  by (meson le_less_trans word_le_nat_alt)

lemma field_eqI:
  fixes d :: u64
  assumes "width \<le> 64" "unat d < 2 ^ width" "\<And>b. b < width \<Longrightarrow> bit w b \<longleftrightarrow> bit d b"
  shows "w AND width_mask width = d"
proof (rule bit_word_eqI)
  fix b
  show "bit (w AND width_mask width) b \<longleftrightarrow> bit d b"
    using assms(3) [of b] bit_width [OF assms(2), of b] assms(1)
    by (auto simp: bit_and_iff bit_width_mask)
qed

definition lanes_ok :: "nat \<Rightarrow> nat \<Rightarrow> bool" where
  "lanes_ok per width \<longleftrightarrow> 0 < width \<and> width \<le> 32 \<and> per = 64 div width"

lemma lanes_okD:
  assumes "lanes_ok per width"
  shows "0 < per" "per \<le> 64" "per * width \<le> 64" "0 < width" "width \<le> 64"
proof -
  from assms have w: "0 < width" "width \<le> 32" and per: "per = 64 div width"
    by (simp_all add: lanes_ok_def)
  then show "0 < per" "per \<le> 64" by (simp_all add: div_greater_zero_iff)
  show "per * width \<le> 64" "0 < width" "width \<le> 64" using w unfolding per by simp_all
qed

lemma block_64:
  assumes "(a :: nat) mod 64 + b < 64"
  shows "(a + b) div 64 = a div 64" "(a + b) mod 64 = a mod 64 + b"
proof -
  define q r where "q = a div 64" and "r = a mod 64"
  have "a + b = q * 64 + (r + b)" by (simp add: q_def r_def)
  moreover have "r + b < 64" using assms by (simp add: r_def)
  ultimately show "(a + b) div 64 = a div 64" "(a + b) mod 64 = a mod 64 + b"
    by (simp_all add: add.assoc flip: q_def r_def)
qed

lemma block_64_carry:
  assumes "64 \<le> (a :: nat) mod 64 + b" "b \<le> 64"
  shows "(a + b) div 64 = a div 64 + 1" "(a + b) mod 64 = a mod 64 + b - 64"
proof -
  define q r where "q = a div 64" and "r = a mod 64"
  have r: "r < 64" "64 \<le> r + b" using assms by (simp_all add: r_def)
  then have "a + b = (q + 1) * 64 + (r + b - 64)" "r + b - 64 < 64"
    using assms(2) by (simp_all add: q_def r_def)
  then show "(a + b) div 64 = a div 64 + 1" "(a + b) mod 64 = a mod 64 + b - 64"
    unfolding q_def [symmetric] r_def [symmetric] by (metis div_mult_self3 div_less add.right_neutral
      zero_neq_numeral) (metis \<open>a + b = _\<close> \<open>r + b - 64 < 64\<close> mod_less mod_mult_self3)
qed

text \<open>One read of the aligned and of the straddled layout.\<close>

lemma lane_at_read:
  assumes ok: "lanes_ok (per_word p) (p_width p)" and m: "p_mask p = width_mask (p_width p)"
    and small: "\<And>d. d \<in> set ds \<Longrightarrow> unat d < 2 ^ p_width p"
    and fill: "filled (lane_pos (per_word p) (p_width p)) (p_width p) ds 0 (replicate n 0) (p_words p)"
    and i: "i < length ds" "i div per_word p < n"
  shows "lane_at p (i div per_word p) (i mod per_word p) = p_base p + ds ! i"
proof -
  let ?per = "per_word p" and ?w = "p_width p"
  note ok = lanes_okD [OF ok]
  have "drop_bit (i mod ?per * ?w) (p_words p ! (i div ?per)) AND p_mask p = ds ! i"
    unfolding m
  proof (rule field_eqI)
    fix b assume b: "b < ?w"
    note fit = lane_fits [OF ok(1,3), of i] and sp = lane_pos_split [OF ok(1,3,4), of i]
    have "Suc (i div ?per) * 64 \<le> n * 64" using i(2) by (intro mult_le_mono1) simp
    then have "lane_pos ?per ?w i + b < 64 * n" using fit b unfolding lane_pos_def by simp
    from filled_read [OF fill i(1) b lane_pos_mono [OF ok(1,3)] this]
    have "abit (p_words p) (lane_pos ?per ?w i + b) \<longleftrightarrow> bit (ds ! i) b" .
    moreover have "(lane_pos ?per ?w i + b) div 64 = i div ?per"
      "(lane_pos ?per ?w i + b) mod 64 = i mod ?per * ?w + b"
      using block_64 [of "lane_pos ?per ?w i" b] fit b by (simp_all add: sp)
    ultimately show "bit (drop_bit (i mod ?per * ?w) (p_words p ! (i div ?per))) b \<longleftrightarrow> bit (ds ! i) b"
      by (simp add: abit_def bit_drop_bit_eq)
  qed (use ok small i in auto)
  then show ?thesis by (simp add: lane_at_def)
qed

lemma straddled_at_read:
  assumes "p_width p \<le> 64" "0 < p_width p" and m: "p_mask p = width_mask (p_width p)"
    and small: "\<And>d. d \<in> set ds \<Longrightarrow> unat d < 2 ^ p_width p"
    and fill: "filled (\<lambda>i. i * p_width p) (p_width p) ds 0 (replicate n 0) (p_words p)"
    and i: "i < length ds" "length ds * p_width p + 64 \<le> 64 * n"
  shows "straddled_at p (i * p_width p) = p_base p + ds ! i"
proof -
  let ?w = "p_width p" and ?pos = "i * p_width p"
  let ?pair = "ucast (p_words p ! (?pos div 64)) OR
    push_bit 64 (ucast (p_words p ! (?pos div 64 + 1))) :: u128"
  have "ucast (drop_bit (?pos mod 64) ?pair) AND p_mask p = ds ! i"
    unfolding m
  proof (rule field_eqI)
    fix b assume b: "b < ?w"
    have "Suc i * ?w \<le> length ds * ?w" using i(1) by (intro mult_le_mono1) simp
    with i(2) b have lt: "?pos + b < 64 * n" by simp
    have "bit (ucast (drop_bit (?pos mod 64) ?pair) :: u64) b \<longleftrightarrow>
        (if ?pos mod 64 + b < 64 then bit (p_words p ! (?pos div 64)) (?pos mod 64 + b)
         else bit (p_words p ! (?pos div 64 + 1)) (?pos mod 64 + b - 64))"
      using b assms(1) by (auto simp: bit_unsigned_iff bit_drop_bit_eq bit_or_iff bit_push_bit_iff)
    also have "\<dots> \<longleftrightarrow> abit (p_words p) (?pos + b)"
      using block_64 [of ?pos b] block_64_carry [of ?pos b] b assms(1)
      by (auto simp: abit_def)
    finally have "bit (ucast (drop_bit (?pos mod 64) ?pair) :: u64) b \<longleftrightarrow> abit (p_words p) (?pos + b)" .
    with filled_read [OF fill i(1) b _ lt] show
      "bit (ucast (drop_bit (?pos mod 64) ?pair) :: u64) b \<longleftrightarrow> bit (ds ! i) b" by simp
  qed (use assms in auto)
  then show ?thesis by (simp add: straddled_at_def Let_def)
qed

section \<open>Chunks and what they hold\<close>

text \<open>
  \<open>holds p vals\<close>: the packed chunk \<open>p\<close> is a layout of \<open>vals\<close> that the readers accept: the fields
  derived from the width are as the constructors derive them, and the words carry the offsets.
\<close>

definition holds :: "packed_u64 \<Rightarrow> u64 list \<Rightarrow> bool" where
  "holds p vals \<longleftrightarrow> p_mask p = width_mask (p_width p) \<and> p_width p \<le> 64 \<and>
     (\<forall>v \<in> set vals. p_base p \<le> v \<and> unat (v - p_base p) < 2 ^ p_width p) \<and>
     (if p_width p = 0 then per_word p = 0
      else if p_width p \<le> 32
      then per_word p = 64 div p_width p \<and> recip p = lane_recip (per_word p) \<and>
        (\<exists>n. length vals \<le> n * per_word p \<and>
           filled (lane_pos (per_word p) (p_width p)) (p_width p) (map (\<lambda>v. v - p_base p) vals) 0
             (replicate n 0) (p_words p))
      else per_word p = 0 \<and>
        (\<exists>n. length vals * p_width p + 64 \<le> 64 * n \<and>
           filled (\<lambda>i. i * p_width p) (p_width p) (map (\<lambda>v. v - p_base p) vals) 0
             (replicate n 0) (p_words p)))"

lemma holds_lanes:
  assumes "holds p vals" "per_word p \<noteq> 0" "i < length vals"
  shows "lane_at p (i div per_word p) (i mod per_word p) = vals ! i"
proof -
  from assms have w: "0 < p_width p" "p_width p \<le> 32" "per_word p = 64 div p_width p"
    by (auto simp: holds_def split: if_splits)
  with assms(1) obtain n where n: "length vals \<le> n * per_word p"
    "filled (lane_pos (per_word p) (p_width p)) (p_width p) (map (\<lambda>v. v - p_base p) vals) 0
       (replicate n 0) (p_words p)"
    by (auto simp: holds_def)
  have "i div per_word p < n" using n(1) assms(3) by (simp add: less_mult_imp_div_less)
  then show ?thesis
    using lane_at_read [of p "map (\<lambda>v. v - p_base p) vals" n i] w n(2) assms(1,3)
    by (auto simp: holds_def lanes_ok_def)
qed

lemma holds_straddled:
  assumes "holds p vals" "per_word p = 0" "p_width p \<noteq> 0" "i < length vals"
  shows "straddled_at p (i * p_width p) = vals ! i"
proof -
  from assms have w: "32 < p_width p" "p_width p \<le> 64"
    by (auto simp: holds_def div_greater_zero_iff split: if_splits)
  with assms(1) obtain n where "length vals * p_width p + 64 \<le> 64 * n"
    "filled (\<lambda>i. i * p_width p) (p_width p) (map (\<lambda>v. v - p_base p) vals) 0
       (replicate n 0) (p_words p)"
    by (auto simp: holds_def)
  then show ?thesis
    using straddled_at_read [of p "map (\<lambda>v. v - p_base p) vals" n i] w assms(1,4)
    by (auto simp: holds_def)
qed

lemma holds_constant:
  assumes "holds p vals" "p_width p = 0" "i < length vals"
  shows "p_base p = vals ! i"
proof -
  from assms have "unat (vals ! i - p_base p) < 1" by (simp add: holds_def)
  then show ?thesis by (simp add: unat_eq_0)
qed

lemma holds_get:
  assumes "holds p vals" "i < length vals" "i < 2 ^ 26"
  shows "packed_get p i = vals ! i"
proof (cases "per_word p = 0")
  case True
  with assms show ?thesis
    by (simp add: packed_get_def holds_constant holds_straddled)
next
  case False
  with assms(1) have "lanes_ok (per_word p) (p_width p)" "recip p = lane_recip (per_word p)"
    by (auto simp: holds_def lanes_ok_def split: if_splits)
  with assms(3) have q: "unat (drop_bit 32 (of_nat i * recip p)) = i div per_word p"
    using recip_division lanes_okD by metis
  show ?thesis
    using False holds_lanes [OF assms(1) False assms(2)] unfolding packed_get_def q Let_def
    by (simp add: minus_div_mult_eq_mod)
qed

text \<open>The packer produces such a chunk, and so does reassembling it from its stored parts.\<close>

lemma holds_pack_with_base:
  assumes "\<And>v. v \<in> set vals \<Longrightarrow> base \<le> v \<and> v - base \<le> rng"
  shows "holds (pack_with_base vals base rng) vals"
proof -
  let ?w = "64 - leading_zeros rng"
  note small = offset_width [OF _ assms]
  consider "?w = 0" | "0 < ?w" "?w \<le> 32" | "32 < ?w" by linarith
  then show ?thesis
  proof cases
    case 1
    then show ?thesis
      using small assms by (simp add: pack_with_base_def holds_def own_def Let_def)
  next
    case 2
    let ?per = "64 div ?w"
    have ok: "lanes_ok ?per ?w" using 2 by (simp add: lanes_ok_def)
    have "filled (lane_pos ?per ?w) ?w (map (\<lambda>v. v - base) vals) 0
      (replicate (div_ceil (length vals) ?per + 1) 0)
      (pack_lanes ?per ?w base 0 vals (replicate (div_ceil (length vals) ?per + 1) 0))"
      by (rule pack_lanes_filled)
        (use lanes_okD [OF ok] small less_div_ceil in \<open>auto simp: less_SucI\<close>)
    moreover have "length vals \<le> (div_ceil (length vals) ?per + 1) * ?per"
      using div_ceil_le [of ?per "length vals"] lanes_okD(1) [OF ok] by simp
    ultimately show ?thesis
      using 2 small assms unfolding holds_def pack_with_base_def own_def Let_def
      by (auto intro!: exI [of _ "div_ceil (length vals) ?per + 1"])
  next
    case 3
    let ?n = "max ((length vals * ?w + 63) div 64 + 1) 2"
    have "length vals * ?w + 63 < (length vals * ?w + 63) div 64 * 64 + 64"
      using dividend_less_div_times [of 64] by simp
    moreover have "(length vals * ?w + 63) div 64 + 1 \<le> ?n" by simp
    ultimately have n: "length vals * ?w + 64 \<le> 64 * ?n" by linarith
    have "filled (\<lambda>i. i * ?w) ?w (map (\<lambda>v. v - base) vals) 0 (replicate ?n 0)
      (pack_straddled ?w base 0 vals (replicate ?n 0))"
      using pack_straddled_filled [of ?w vals base 0 "replicate ?n 0"] 3 small n by simp
    then show ?thesis
      using 3 small assms n unfolding holds_def pack_with_base_def own_def Let_def
      by (auto intro!: exI [of _ ?n])
  qed
qed

lemma holds_pack: "holds (pack vals) vals"
proof (cases vals)
  case Nil
  then show ?thesis by (simp add: pack_def holds_def own_def width_mask_def)
next
  case (Cons x xs)
  let ?mn = "fold min xs x" and ?mx = "fold max xs x"
  have "?mn \<le> v \<and> v - ?mn \<le> ?mx - ?mn" if "v \<in> set vals" for v
  proof -
    from that Cons have "?mn \<le> v" "v \<le> ?mx" by (auto simp: fold_min_max)
    then show ?thesis by (simp add: word_le_nat_alt unat_sub)
  qed
  then have "holds (pack_with_base vals ?mn (?mx - ?mn)) vals" by (rule holds_pack_with_base)
  with Cons show ?thesis by (simp add: pack_def Let_def)
qed

lemma holds_from_parts:
  assumes "holds p vals"
  shows "holds (from_parts (p_base p) (p_width p) (p_words p)) vals"
    "holds (from_mapped (p_base p) (p_width p) (p_words p)) vals"
  using assms by (auto simp: holds_def from_parts_def from_mapped_def own_def Let_def
      split: if_splits)

section \<open>Bulk decoding agrees with single reads\<close>

lemma unpack_head_eq:
  "\<exists>k. unpack_head p i e = map (\<lambda>j. lane_at p (j div per_word p) (j mod per_word p)) [i..<k]
     \<and> i \<le> k \<and> (k = i \<or> k \<le> e) \<and> (k < e \<longrightarrow> k mod per_word p = 0)"
proof (induction p i e rule: unpack_head.induct)
  case (1 p i e)
  show ?case
  proof (cases "i < e \<and> i mod per_word p \<noteq> 0")
    case True
    obtain k where "unpack_head p (i + 1) e
        = map (\<lambda>j. lane_at p (j div per_word p) (j mod per_word p)) [i + 1..<k]"
      "i + 1 \<le> k" "k = i + 1 \<or> k \<le> e" "k < e \<longrightarrow> k mod per_word p = 0"
      using 1 [OF True] by (elim exE conjE)
    moreover from this True have "unpack_head p i e
        = map (\<lambda>j. lane_at p (j div per_word p) (j mod per_word p)) [i..<k]"
      by (subst unpack_head.simps) (simp add: upt_conv_Cons [of i k])
    ultimately show ?thesis using True by (intro exI [of _ k]) auto
  next
    case False
    then show ?thesis by (intro exI [of _ i]) (auto simp: unpack_head.simps [of p i e])
  qed
qed

lemma unpack_tail_eq:
  "unpack_tail p i e = map (\<lambda>j. lane_at p (j div per_word p) (j mod per_word p)) [i..<e]"
  by (induction p i e rule: unpack_tail.induct)
    (subst unpack_tail.simps, auto simp: upt_conv_Cons)

lemma unpack_words_eq:
  assumes "0 < per"
  shows "unpack_words p per fw n = map (\<lambda>j. lane_at p (j div per) (j mod per)) [fw * per..<(fw + n) * per]"
proof (induction n)
  case (Suc n)
  have "[fw * per..<(fw + Suc n) * per] = [fw * per..<(fw + n) * per] @ map (\<lambda>l. (fw + n) * per + l) [0..<per]"
    using upt_add_eq_append [of "fw * per" "(fw + n) * per" per]
      map_add_upt [of "(fw + n) * per" per] by (simp add: algebra_simps)
  moreover have "map (\<lambda>j. lane_at p (j div per) (j mod per)) (map (\<lambda>l. (fw + n) * per + l) [0..<per])
      = map (lane_at p (fw + n)) [0..<per]"
    by (auto simp: mult.commute)
  ultimately show ?case
    using Suc by (simp add: unpack_words_def del: map_map)
qed (simp add: unpack_words_def)

lemma unpack_straddled_eq:
  "unpack_straddled p (i * p_width p) n = map (\<lambda>j. straddled_at p (j * p_width p)) [i..<i + n]"
proof (induction n arbitrary: i)
  case (Suc n)
  have "[i..<i + Suc n] = i # [Suc i..<Suc i + n]" by (simp add: upt_conv_Cons del: upt_Suc)
  with Suc [of "Suc i"] show ?case
    by (simp add: add.commute [of _ "p_width p"] del: upt_Suc)
qed simp

lemma unpack_lanes_eq:
  assumes "per_word p \<noteq> 0" "s \<le> e"
  shows "unpack_range p s e = map (\<lambda>j. lane_at p (j div per_word p) (j mod per_word p)) [s..<e]"
proof -
  let ?per = "per_word p" and ?f = "\<lambda>j. lane_at p (j div per_word p) (j mod per_word p)"
  obtain k where k: "unpack_head p s e = map ?f [s..<k]" "s \<le> k" "k = s \<or> k \<le> e"
    "k < e \<longrightarrow> k mod ?per = 0" using unpack_head_eq [of p s e] by (elim exE conjE)
  have ke: "k \<le> e" using k(3) assms(2) by (elim disjE) simp_all
  have i: "s + length (unpack_head p s e) = k" using k(1,2) by simp
  define n where "n = (e - k) div ?per"
  have body: "(if n > 0 then unpack_words p ?per (k div ?per) n else []) = map ?f [k..<k + n * ?per]"
  proof (cases "n > 0")
    case True
    then have "k < e" unfolding n_def by (rule contrapos_pp) simp
    with k(4) have "k div ?per * ?per = k" by auto
    then show ?thesis
      using True assms(1) unpack_words_eq [of ?per p "k div ?per" n] by (simp add: add_mult_distrib)
  qed simp
  have "k + n * ?per \<le> e" using ke div_times_less_eq_dividend [of "e - k" ?per] unfolding n_def by linarith
  then have "[s..<e] = [s..<k] @ [k..<k + n * ?per] @ [k + n * ?per..<e]"
    using k(2) ke by (metis le_add1 le_add_diff_inverse upt_add_eq_append)
  then show ?thesis
    using assms(1) body unfolding unpack_range_def Let_def i n_def [symmetric]
    by (simp add: k(1) unpack_tail_eq)
qed

lemma holds_unpack_range:
  assumes "holds p vals" "s \<le> e" "e \<le> length vals"
  shows "unpack_range p s e = slice vals s e"
proof -
  have sl: "slice vals s e = map ((!) vals) [s..<e]"
    using assms(2,3) by (simp add: list_eq_iff_nth_eq slice_nth)
  consider "per_word p \<noteq> 0" | "per_word p = 0" "p_width p = 0" | "per_word p = 0" "p_width p \<noteq> 0"
    by blast
  then show ?thesis
  proof cases
    case 1
    then show ?thesis
      using assms holds_lanes [OF assms(1) 1] unfolding sl by (simp add: unpack_lanes_eq)
  next
    case 2
    then show ?thesis
      using assms holds_constant [OF assms(1) 2(2)] unfolding sl
      by (auto simp: unpack_range_def list_eq_iff_nth_eq)
  next
    case 3
    then show ?thesis
      using assms holds_straddled [OF assms(1) 3] unfolding sl
      by (simp add: unpack_range_def unpack_straddled_eq)
  qed
qed

section \<open>The interpolation search\<close>

text \<open>
  The loop keeps \<open>lo\<close> and \<open>hi\<close> around the boundary whatever probe it picks, so only the
  comparison matters for correctness and only \<open>probe_bounds\<close> for termination.
\<close>

lemma lower_bound_loop_correct:
  assumes sorted: "\<And>i j. i \<le> j \<Longrightarrow> j < len \<Longrightarrow> packed_get p i \<le> packed_get p j"
    and "lo \<le> hi" "hi \<le> len"
    and "\<And>i. i < lo \<Longrightarrow> packed_get p i < t"
    and "\<And>i. hi \<le> i \<Longrightarrow> i < len \<Longrightarrow> t \<le> packed_get p i"
  shows "lower_bound_loop p t lo hi \<le> len \<and>
    (\<forall>i < len. i < lower_bound_loop p t lo hi \<longleftrightarrow> packed_get p i < t)"
  using assms
proof (induction p t lo hi rule: lower_bound_loop.induct)
  case (1 p t lo hi)
  show ?case
  proof (cases "lo < hi")
    case False
    with 1(4) have "lower_bound_loop p t lo hi = lo" "hi = lo" by (simp_all add: lower_bound_loop.simps)
    with 1(5-7) show ?thesis by (auto simp: not_less [symmetric])
  next
    case True
    define mid where "mid = probe p lo hi t"
    note mid = probe_bounds [OF True, of p t, folded mid_def]
    show ?thesis
    proof (cases "packed_get p mid < t")
      case less: True
      have "packed_get p i < t" if "i < mid + 1" for i
        using 1(3) [of i mid] that less mid(2) 1(5) by (simp add: le_less_trans)
      then show ?thesis
        using 1(1) [OF True mid_def less 1(3)] 1(5,7) mid less True
        by (subst (1 2) lower_bound_loop.simps) (simp add: mid_def [symmetric])
    next
      case ge: False
      have "t \<le> packed_get p i" if "mid \<le> i" "i < len" for i
        using 1(3) [OF that] ge by simp
      then show ?thesis
        using 1(2) [OF True mid_def ge 1(3)] 1(5,6) mid ge True
        by (subst (1 2) lower_bound_loop.simps) (simp add: mid_def [symmetric])
    qed
  qed
qed

section \<open>The interface the columns use\<close>

text \<open>
  A client stores a list once and reads it by index, in bulk, or by searching it when it is sorted.
\<close>

locale packed_array =
  fixes enc :: "u64 list \<Rightarrow> 'p"
    and at :: "'p \<Rightarrow> nat \<Rightarrow> u64"
    and range_of :: "'p \<Rightarrow> nat \<Rightarrow> nat \<Rightarrow> u64 list"
    and lb :: "'p \<Rightarrow> nat \<Rightarrow> u64 \<Rightarrow> nat"
    and cap :: nat
  assumes at_enc: "length xs \<le> cap \<Longrightarrow> i < length xs \<Longrightarrow> at (enc xs) i = xs ! i"
    and range_enc: "s \<le> e \<Longrightarrow> e \<le> length xs \<Longrightarrow> range_of (enc xs) s e = slice xs s e"
    and lb_at: "(\<And>i j. i \<le> j \<Longrightarrow> j < n \<Longrightarrow> at p i \<le> at p j) \<Longrightarrow> lb p n t \<le> n"
      "(\<And>i j. i \<le> j \<Longrightarrow> j < n \<Longrightarrow> at p i \<le> at p j) \<Longrightarrow> i < n \<Longrightarrow> i < lb p n t \<longleftrightarrow> at p i < t"
begin

lemma decode_all: "range_of (enc xs) 0 (length xs) = xs"
  by (simp add: range_enc)

lemma map_at: "length xs \<le> cap \<Longrightarrow> map (at (enc xs)) [0..<length xs] = xs"
  by (rule nth_equalityI) (simp_all add: at_enc)

lemma lb_sorted:
  assumes "sorted xs" "length xs \<le> cap"
  shows "lb (enc xs) (length xs) t = length (filter (\<lambda>x. x < t) xs)"
proof -
  let ?n = "lb (enc xs) (length xs) t"
  have mono: "i \<le> j \<Longrightarrow> j < length xs \<Longrightarrow> at (enc xs) i \<le> at (enc xs) j" for i j
    using assms by (simp add: at_enc sorted_nth_mono)
  have n: "?n \<le> length xs" using lb_at(1) [OF mono] .
  have cut: "i < ?n \<longleftrightarrow> xs ! i < t" if "i < length xs" for i
    using lb_at(2) [OF mono that, of t] that assms(2) by (simp add: at_enc)
  have "length (filter (\<lambda>x. x < t) xs) = card {i. i < length xs \<and> xs ! i < t}"
    by (rule length_filter_conv_card)
  also have "{i. i < length xs \<and> xs ! i < t} = {..<?n}"
    using n by (auto simp: cut [symmetric] cong: conj_cong)
  finally show ?thesis by simp
qed

text \<open>A key that occurs is found exactly where the search stops.\<close>

lemma lb_finds:
  assumes "sorted xs" "length xs \<le> cap" "t \<in> set xs"
  shows "lb (enc xs) (length xs) t < length xs" "xs ! lb (enc xs) (length xs) t = t"
proof -
  let ?n = "lb (enc xs) (length xs) t"
  have mono: "i \<le> j \<Longrightarrow> j < length xs \<Longrightarrow> at (enc xs) i \<le> at (enc xs) j" for i j
    using assms by (simp add: at_enc sorted_nth_mono)
  obtain k where k: "k < length xs" "xs ! k = t" using assms(3) by (auto simp: in_set_conv_nth)
  have "\<not> k < ?n" using lb_at(2) [OF mono k(1), of t] k assms(2) by (simp add: at_enc)
  then show n: "?n < length xs" using k(1) by simp
  have "\<not> xs ! ?n < t" using lb_at(2) [OF mono n, of t] n assms(2) by (simp add: at_enc)
  moreover have "xs ! ?n \<le> xs ! k" using \<open>\<not> k < ?n\<close> k(1) assms(1) by (simp add: sorted_nth_mono)
  ultimately show "xs ! ?n = t" using k(2) by simp
qed

end

interpretation bitpack: packed_array pack packed_get unpack_range packed_lower_bound "2 ^ 26"
proof unfold_locales
  fix xs :: "u64 list" and i :: nat
  assume "length xs \<le> 2 ^ 26" "i < length xs"
  then show "packed_get (pack xs) i = xs ! i" by (simp add: holds_get holds_pack)
next
  fix s e :: nat and xs :: "u64 list"
  assume "s \<le> e" "e \<le> length xs"
  then show "unpack_range (pack xs) s e = slice xs s e" by (rule holds_unpack_range [OF holds_pack])
next
  fix p n t i
  assume "\<And>i j. i \<le> j \<Longrightarrow> j < n \<Longrightarrow> packed_get p i \<le> packed_get p j"
  from lower_bound_loop_correct [of n p 0 n t, OF this]
  have *: "packed_lower_bound p n t \<le> n \<and>
      (\<forall>i < n. i < packed_lower_bound p n t \<longleftrightarrow> packed_get p i < t)"
    by (simp add: packed_lower_bound_def)
  then show "packed_lower_bound p n t \<le> n" by simp
  show "i < packed_lower_bound p n t \<longleftrightarrow> packed_get p i < t" if "i < n" using * that by simp
qed

section \<open>Properties\<close>

text \<open>C20: Reading position \<open>i\<close> of a packed chunk returns the value packed there, whichever layout the
  packer chose (constant, word-aligned lanes, straddled), also after the chunk has been rebuilt from
  the base, width and words stored on disk, owned or mapped. The bound is the one under which the
  reciprocal multiplication of \<open>get\<close> is an exact division.\<close>

theorem pack_get_roundtrip:
  assumes "length vals \<le> 2 ^ 26" "i < length vals"
  shows "packed_get (pack vals) i = vals ! i
    \<and> packed_get (packed_clone (pack vals)) i = vals ! i
    \<and> packed_get (from_mapped (p_base (pack vals)) (p_width (pack vals)) (p_words (pack vals))) i
      = vals ! i"
  using assms holds_pack [of vals] holds_from_parts [OF holds_pack]
  by (simp_all add: holds_get packed_clone_def)

theorem pack_get_roundtrip_witness:
  "packed_get (pack [7, 2 ^ 63, 12]) 1 = 2 ^ 63"
  using pack_get_roundtrip [of "[7, 2 ^ 63, 12]" 1] by simp

text \<open>The bulk decoder, with its word-at-a-time middle part, writes exactly what single reads of
  the same positions return.\<close>

theorem unpack_range_is_get:
  assumes "s \<le> e" "e \<le> length vals" "length vals \<le> 2 ^ 26"
  shows "unpack_range (pack vals) s e = map (packed_get (pack vals)) [s..<e]"
proof -
  have "unpack_range (pack vals) s e = slice vals s e" by (rule bitpack.range_enc [OF assms(1,2)])
  also have "\<dots> = map (packed_get (pack vals)) [s..<e]"
    using assms by (intro nth_equalityI) (simp_all add: slice_nth bitpack.at_enc)
  finally show ?thesis .
qed

theorem unpack_range_is_get_witness:
  "unpack_range (pack [4, 9, 1, 30]) 1 3 = map (packed_get (pack [4, 9, 1, 30])) [1..<3]"
  using unpack_range_is_get [of 1 3 "[4, 9, 1, 30]"] by simp

text \<open>C21: The interpolation search over a sorted packed chunk terminates and returns the number of
  values below the target: the lower bound, whatever positions it probes.\<close>

theorem packed_lower_bound_correct:
  assumes "sorted vals" "length vals \<le> 2 ^ 26"
  shows "packed_lower_bound (pack vals) (length vals) t = length (filter (\<lambda>v. v < t) vals)"
  using assms by (rule bitpack.lb_sorted)

theorem packed_lower_bound_correct_witness:
  "packed_lower_bound (pack [2, 4, 9]) (length [2, 4, 9 :: u64]) 5 = Suc (Suc 0)"
  using packed_lower_bound_correct [of "[2, 4, 9]" 5] by simp

text \<open>C27: The zone-map ceiling derived from the base and the mask bounds every value of the chunk as long
  as the base plus the mask does not wrap; at the top of the \<open>u64\<close> range it wraps, and the bound
  of the chunk \<open>[2^64 - 3, 2^64 - 1]\<close> comes out as 0, below both of its values.\<close>

theorem value_ceiling_bounds:
  "(v \<in> set vals \<longrightarrow> unat (p_base (pack vals)) + unat (p_mask (pack vals)) < 2 ^ 64 \<longrightarrow>
      p_base (pack vals) \<le> v \<and> v \<le> value_ceiling (pack vals))
    \<and> value_ceiling (pack [- 3, - 1]) = 0"
proof (intro conjI [of "_ \<longrightarrow> _"] impI)
  let ?p = "pack vals"
  assume v: "v \<in> set vals" and nowrap: "unat (p_base ?p) + unat (p_mask ?p) < 2 ^ 64"
  have h: "p_base ?p \<le> v" "unat (v - p_base ?p) < 2 ^ p_width ?p" "p_mask ?p = width_mask (p_width ?p)"
    "p_width ?p \<le> 64"
    using holds_pack [of vals] v by (auto simp: holds_def)
  have "(v - p_base ?p) AND p_mask ?p = v - p_base ?p"
    unfolding h(3) using h by (intro field_eqI) simp_all
  then have "v - p_base ?p \<le> p_mask ?p" by (metis word_and_le1)
  then have "unat v - unat (p_base ?p) \<le> unat (p_mask ?p)"
    using h(1) by (simp add: word_le_nat_alt unat_sub)
  then show "p_base ?p \<le> v \<and> v \<le> value_ceiling ?p"
    using h(1) nowrap by (simp add: value_ceiling_def word_le_nat_alt unat_word_ariths)
next
  show "value_ceiling (pack [- 3, - 1]) = 0"
    by (simp add: pack_def pack_with_base_def value_ceiling_def own_def Let_def leading_zeros_def
        width_mask_def)
qed

theorem value_ceiling_bounds_witness:
  "p_base (pack [5, 6]) \<le> 6 \<and> 6 \<le> value_ceiling (pack [5, 6])"
  using value_ceiling_bounds [of 6 "[5, 6]"]
  by (simp add: pack_def pack_with_base_def own_def Let_def leading_zeros_def width_mask_def)

end
