(* ===== verification/Utf8.thy ===== *)
theory Utf8
  imports Granular_Prelude
begin

text \<open>
  The two checks of Rust's \<open>str\<close> that the engine relies on when it reads text from disk:
  \<open>std::str::from_utf8\<close> (well-formed byte sequences, no surrogates, no overlong forms, nothing above
  U+10FFFF) and \<open>str::is_char_boundary\<close>. Cutting well-formed text at a character boundary leaves
  well-formed text on both sides, which is what makes the unchecked slices of the string dictionary
  sound.
\<close>

definition cont :: "u8 \<Rightarrow> bool" where
  "cont b \<longleftrightarrow> 128 \<le> b \<and> b \<le> 191"

text \<open>The ranges allowed for the second byte after a lead byte of three or four bytes.\<close>

definition second3 :: "u8 \<Rightarrow> u8 \<Rightarrow> bool" where
  "second3 b c \<longleftrightarrow> (if b = 224 then 160 \<le> c \<and> c \<le> 191 else if b = 237 then 128 \<le> c \<and> c \<le> 159 else cont c)"

definition second4 :: "u8 \<Rightarrow> u8 \<Rightarrow> bool" where
  "second4 b c \<longleftrightarrow> (if b = 240 then 144 \<le> c \<and> c \<le> 191 else if b = 244 then 128 \<le> c \<and> c \<le> 143 else cont c)"

text \<open>Number of bytes of the first character, 0 when it is malformed.\<close>

fun char_len :: "bytes \<Rightarrow> nat" where
  "char_len [] = 0"
| "char_len (b # bs) =
     (if b < 128 then 1
      else if 194 \<le> b \<and> b \<le> 223 then (case bs of c # _ \<Rightarrow> if cont c then 2 else 0 | _ \<Rightarrow> 0)
      else if 224 \<le> b \<and> b \<le> 239
      then (case bs of c # d # _ \<Rightarrow> if second3 b c \<and> cont d then 3 else 0 | _ \<Rightarrow> 0)
      else if 240 \<le> b \<and> b \<le> 244
      then (case bs of c # d # e # _ \<Rightarrow> if second4 b c \<and> cont d \<and> cont e then 4 else 0 | _ \<Rightarrow> 0)
      else 0)"

function utf8_valid :: "bytes \<Rightarrow> bool" where
  "utf8_valid bs =
     (if bs = [] then True else if char_len bs = 0 then False else utf8_valid (drop (char_len bs) bs))"
  by pat_completeness auto
termination by (relation "measure length") auto

definition from_utf8 :: "bytes \<Rightarrow> bytes result" where
  "from_utf8 bs = (if utf8_valid bs then Inr bs else Inl (Corruption ''invalid utf-8''))"

definition is_char_boundary :: "bytes \<Rightarrow> nat \<Rightarrow> bool" where
  "is_char_boundary bs i =
     (if i = 0 \<or> i = length bs then True else i < length bs \<and> \<not> cont (bs ! i))"

declare utf8_valid.simps [simp del]

lemma second_cont: "second3 b c \<Longrightarrow> cont c" "second4 b c \<Longrightarrow> cont c"
  by (auto simp: second3_def second4_def cont_def word_le_nat_alt split: if_splits)

lemma char_len_cases:
  assumes "char_len bs \<noteq> 0"
  shows "(char_len bs = 1 \<and> (\<exists>b r. bs = b # r)) \<or>
    (char_len bs = 2 \<and> (\<exists>b c r. bs = b # c # r \<and> cont c)) \<or>
    (char_len bs = 3 \<and> (\<exists>b c d r. bs = b # c # d # r \<and> cont c \<and> cont d)) \<or>
    (char_len bs = 4 \<and> (\<exists>b c d e r. bs = b # c # d # e # r \<and> cont c \<and> cont d \<and> cont e))"
  using assms by (cases bs) (auto split: if_splits list.splits dest: second_cont)

lemma char_len_le: "char_len bs \<le> length bs"
  using char_len_cases [of bs] by (cases "char_len bs = 0") auto

lemma char_len_cont:
  assumes "0 < k" "k < char_len bs"
  shows "cont (bs ! k)"
proof -
  have k: "k = 1 \<or> k = 2 \<or> k = 3 \<or> 4 \<le> k" using assms(1) by linarith
  show ?thesis using char_len_cases [of bs] assms k by auto
qed

lemma char_len_prefix:
  assumes "char_len bs \<noteq> 0" "char_len bs \<le> i"
  shows "char_len (take i bs) = char_len bs"
proof -
  obtain b r where bs: "bs = b # r" using assms(1) by (cases bs) auto
  obtain j where i: "i = Suc j" using assms by (cases i) auto
  show ?thesis
    using assms unfolding bs i
    by (cases r; cases "tl r"; cases "tl (tl r)"; cases j; cases "j - 1"; cases "j - 2")
      (auto split: if_splits list.splits)
qed

lemma boundary_le: "is_char_boundary bs i \<Longrightarrow> i \<le> length bs"
  by (auto simp: is_char_boundary_def split: if_splits)

lemma boundary_drop:
  assumes "is_char_boundary bs i" "a \<le> i"
  shows "is_char_boundary (drop a bs) (i - a)"
  using assms boundary_le [OF assms(1)] by (auto simp: is_char_boundary_def split: if_splits)

lemma utf8_valid_step: "bs \<noteq> [] \<Longrightarrow> utf8_valid bs \<longleftrightarrow> char_len bs \<noteq> 0 \<and> utf8_valid (drop (char_len bs) bs)"
  by (subst utf8_valid.simps) simp

lemma utf8_valid_cut:
  "utf8_valid bs \<Longrightarrow> is_char_boundary bs i \<Longrightarrow> utf8_valid (take i bs) \<and> utf8_valid (drop i bs)"
proof (induction bs arbitrary: i rule: utf8_valid.induct)
  case (1 bs)
  let ?n = "char_len bs"
  show ?case
  proof (cases "bs = [] \<or> i = 0")
    case True
    with 1(2) show ?thesis by (auto simp: utf8_valid.simps [of "[]"])
  next
    case False
    with 1(2) have n: "?n \<noteq> 0" "utf8_valid (drop ?n bs)" by (simp_all add: utf8_valid_step)
    have ni: "?n \<le> i"
    proof (rule ccontr)
      assume "\<not> ?n \<le> i"
      with False have "cont (bs ! i)" "i < length bs" using char_len_cont [of i bs] char_len_le [of bs] by auto
      with 1(3) False show False by (auto simp: is_char_boundary_def)
    qed
    have "is_char_boundary (drop ?n bs) (i - ?n)"
      using 1(3) ni by (rule boundary_drop)
    from 1(1) [OF _ _ n(2) this] False n
    have "utf8_valid (take (i - ?n) (drop ?n bs))" "utf8_valid (drop (i - ?n) (drop ?n bs))" by auto
    moreover have "take i bs \<noteq> []" using False by simp
    ultimately show ?thesis
      using ni n char_len_prefix [OF n(1) ni] by (simp add: utf8_valid_step drop_take)
  qed
qed

lemma utf8_valid_slice:
  assumes "utf8_valid bs" "is_char_boundary bs a" "is_char_boundary bs b" "a \<le> b"
  shows "utf8_valid (slice bs a b)"
proof -
  have "utf8_valid (drop a bs)" using utf8_valid_cut [OF assms(1,2)] by simp
  moreover have "is_char_boundary (drop a bs) (b - a)"
    using assms(3,4) by (rule boundary_drop)
  ultimately show ?thesis using utf8_valid_cut by (simp add: slice_def)
qed

end
