(* ===== verification/Lz4.thy ===== *)
theory Lz4
  imports Granular_Prelude
begin

text \<open>
  The LZ4 block codec, \<^verbatim>\<open>src/encoding/lz4.rs\<close>: the greedy single-table compressor and the decoder
  that treats its input as hostile. The output buffer of the decoder is a list that is overwritten
  in place; cursors are indices. Shown: the compressor terminates and a block it returns is smaller
  than its input and decodes to it; the decoder terminates on every input, keeps the size of its
  buffer, never produces more than 255 bytes per input byte, and so the size check of \<open>decompress\<close>
  never refuses a block the decoder would accept.
\<close>

section \<open>Definitions\<close>

abbreviation (input) MIN_MATCH :: nat where "MIN_MATCH \<equiv> 4"
abbreviation (input) LAST_LITERALS :: nat where "LAST_LITERALS \<equiv> 5"
abbreviation (input) MF_LIMIT :: nat where "MF_LIMIT \<equiv> 12"
abbreviation (input) MIN_INPUT :: nat where "MIN_INPUT \<equiv> 13"
abbreviation (input) MAX_DISTANCE :: nat where "MAX_DISTANCE \<equiv> 65535"
abbreviation (input) EXTRA :: nat where "EXTRA \<equiv> 15"
abbreviation (input) MAX_INPUT_SIZE :: nat where "MAX_INPUT_SIZE \<equiv> 2113929216"
abbreviation (input) HASH_MUL :: u32 where "HASH_MUL \<equiv> 2654435761"
abbreviation (input) HASH_LOG_MAX :: nat where "HASH_LOG_MAX \<equiv> 16"
abbreviation (input) HASH_LOG_MIN :: nat where "HASH_LOG_MIN \<equiv> 10"
abbreviation (input) RESEED_DEPTH :: nat where "RESEED_DEPTH \<equiv> 2"

definition max_compressed_len :: "nat \<Rightarrow> nat" where
  "max_compressed_len n = saturating_add (saturating_add n (n div 255)) 16"

definition read_u32 :: "bytes \<Rightarrow> nat \<Rightarrow> u32" where
  "read_u32 src at = le_word [src ! at, src ! (at + 1), src ! (at + 2), src ! (at + 3)]"

definition hash4 :: "u32 \<Rightarrow> nat \<Rightarrow> nat" where
  "hash4 seq shift = unat (drop_bit shift (seq * HASH_MUL))"

definition hash_log :: "nat \<Rightarrow> nat" where
  "hash_log n = max HASH_LOG_MIN (min (bit_len n) HASH_LOG_MAX)"

definition extra_bytes :: "nat \<Rightarrow> nat" where
  "extra_bytes len = (if len < EXTRA then 0 else (len - EXTRA) div 255 + 1)"

function push_extra :: "bytes \<Rightarrow> nat \<Rightarrow> bytes" where
  "push_extra dst rem =
     (if rem \<ge> 255 then push_extra (dst @ [255]) (rem - 255) else dst @ [of_nat rem])"
  by pat_completeness auto
termination by (relation "measure snd") auto

definition emit_sequence :: "bytes \<Rightarrow> bytes \<Rightarrow> u16 \<Rightarrow> nat \<Rightarrow> bytes" where
  "emit_sequence dst literals offset mlen =
     (let ll = length literals; ml_code = mlen - MIN_MATCH;
          token = push_bit 4 (of_nat (min ll EXTRA)) OR of_nat (min ml_code EXTRA);
          dst = dst @ [token];
          dst = (if ll \<ge> EXTRA then push_extra dst (ll - EXTRA) else dst);
          dst = dst @ literals @ le_bytes offset
      in if ml_code \<ge> EXTRA then push_extra dst (ml_code - EXTRA) else dst)"

text \<open>Forward and backward extension of a match.\<close>

function extend_fwd :: "bytes \<Rightarrow> nat \<Rightarrow> nat \<Rightarrow> nat \<Rightarrow> nat \<Rightarrow> nat" where
  "extend_fwd src match_limit cand ip fwd =
     (if ip + fwd < match_limit \<and> src ! (cand + fwd) = src ! (ip + fwd)
      then extend_fwd src match_limit cand ip (fwd + 1) else fwd)"
  by pat_completeness auto
termination by (relation "measure (\<lambda>(src, lim, cand, ip, fwd). lim - (ip + fwd))") auto

function extend_back :: "bytes \<Rightarrow> nat \<Rightarrow> nat \<Rightarrow> nat \<Rightarrow> nat \<Rightarrow> nat" where
  "extend_back src anchor cand ip back =
     (if ip - back > anchor \<and> cand > back \<and> src ! (ip - back - 1) = src ! (cand - back - 1)
      then extend_back src anchor cand ip (back + 1) else back)"
  by pat_completeness auto
termination by (relation "measure (\<lambda>(src, anchor, cand, ip, back). cand - back)") auto

record cstate =
  c_table :: "u32 list"
  c_dst :: bytes
  c_anchor :: nat
  c_ip :: nat

text \<open>
  A verified candidate is extended both ways and emitted; \<open>None\<close> is the early return when the output
  has outgrown the input. Then the table is seeded just behind the cursor.
\<close>

definition take_match :: "bytes \<Rightarrow> nat \<Rightarrow> cstate \<Rightarrow> nat \<Rightarrow> cstate option" where
  "take_match src shift s cand =
     (let fwd = extend_fwd src (length src - LAST_LITERALS) cand (c_ip s) MIN_MATCH;
          back = extend_back src (c_anchor s) cand (c_ip s) 0;
          start = c_ip s - back;
          d = emit_sequence (c_dst s) (slice src (c_anchor s) start) (of_nat (c_ip s - cand)) (fwd + back);
          ip' = c_ip s + fwd
      in if length d \<ge> length src then None
         else let seed_depth = min (fwd + back) RESEED_DEPTH;
                  t = fold (\<lambda>d t. if ip' \<ge> d
                         then let p = ip' - d in t[hash4 (read_u32 src p) shift := of_nat (p + 1)]
                         else t) [2..<seed_depth + 1] (c_table s)
              in Some \<lparr>c_table = t, c_dst = d, c_anchor = ip', c_ip = ip'\<rparr>)"

text \<open>One round of the search loop.\<close>

definition compress_step :: "bytes \<Rightarrow> nat \<Rightarrow> cstate \<Rightarrow> cstate option" where
  "compress_step src shift s =
     (let seq = read_u32 src (c_ip s);
          h = hash4 seq shift;
          entry = c_table s ! h;
          s = s\<lparr>c_table := (c_table s)[h := of_nat (c_ip s + 1)]\<rparr>
      in if entry = 0 then Some (s\<lparr>c_ip := c_ip s + 1\<rparr>)
         else let cand = unat entry - 1
              in if c_ip s - cand > MAX_DISTANCE \<or> read_u32 src cand \<noteq> seq
                 then Some (s\<lparr>c_ip := c_ip s + 1\<rparr>)
                 else take_match src shift s cand)"

declare push_extra.simps [simp del] extend_fwd.simps [simp del] extend_back.simps [simp del]

lemma extend_fwd_ge: "fwd \<le> extend_fwd src lim cand ip fwd"
  by (induction src lim cand ip fwd rule: extend_fwd.induct) (subst extend_fwd.simps, auto)

lemma take_match_ip: "take_match src shift s cand = Some s' \<Longrightarrow> c_ip s < c_ip s'"
  using extend_fwd_ge [of 4 src "length src - LAST_LITERALS" cand "c_ip s"]
  by (auto simp: take_match_def Let_def split: if_splits)

lemma compress_step_ip: "compress_step src shift s = Some s' \<Longrightarrow> c_ip s < c_ip s'"
  by (auto simp: compress_step_def Let_def split: if_splits dest: take_match_ip)

function compress_loop :: "bytes \<Rightarrow> nat \<Rightarrow> cstate \<Rightarrow> cstate option" where
  "compress_loop src shift s =
     (if c_ip s < length src - MF_LIMIT
      then case compress_step src shift s of
             None \<Rightarrow> None
           | Some s' \<Rightarrow> compress_loop src shift s'
      else Some s)"
  by pat_completeness auto
termination
  by (relation "measure (\<lambda>(src, shift, s). length src - c_ip s)")
    (use compress_step_ip in \<open>fastforce intro: diff_less_mono2\<close>)+

definition compress :: "bytes \<Rightarrow> bytes option" where
  "compress src =
     (let n = length src
      in if n < MIN_INPUT \<or> n > MAX_INPUT_SIZE then None
         else let log = hash_log n; shift = 32 - log
              in case compress_loop src shift
                   \<lparr>c_table = replicate (2 ^ log) 0, c_dst = [], c_anchor = 0, c_ip = 0\<rparr> of
                   None \<Rightarrow> None
                 | Some s \<Rightarrow>
                     let lit = n - c_anchor s
                     in if length (c_dst s) + 1 + extra_bytes lit + lit \<ge> n then None
                        else let token = push_bit 4 (of_nat (min lit EXTRA));
                                 d = c_dst s @ [token];
                                 d = (if lit \<ge> EXTRA then push_extra d (lit - EXTRA) else d)
                             in Some (d @ drop (c_anchor s) src))"

definition corrupt :: "string \<Rightarrow> 'a result" where
  "corrupt what = Inl (Corruption (''lz4: '' @ what))"

definition expansion_ceiling :: "nat \<Rightarrow> nat" where
  "expansion_ceiling src_len = saturating_add (saturating_mul src_len 255) 16"

text \<open>\<open>read_extra_len\<close>: the total and the advanced cursor.\<close>

function extra_loop :: "bytes \<Rightarrow> nat \<Rightarrow> nat \<Rightarrow> nat \<Rightarrow> (nat \<times> nat) result" where
  "extra_loop src ip budget acc =
     (if ip < length src
      then let b = src ! ip; ip = ip + 1
           in case checked_add acc (unat b) of
                None \<Rightarrow> corrupt ''length overflow''
              | Some acc \<Rightarrow>
                  if acc > budget then corrupt ''length exceeds remaining output''
                  else if b \<noteq> 255 then Inr (acc, ip)
                  else extra_loop src ip budget acc
      else corrupt ''truncated length'')"
  by pat_completeness auto
termination by (relation "measure (\<lambda>(src, ip, budget, acc). length src - ip)") auto

definition read_extra_len :: "bytes \<Rightarrow> nat \<Rightarrow> nat \<Rightarrow> (nat \<times> nat) result" where
  "read_extra_len src ip budget = extra_loop src ip budget 0"

text \<open>A length field: the nibble of the token, extended by continuation bytes when it is 15.\<close>

definition read_len :: "bytes \<Rightarrow> nat \<Rightarrow> nat \<Rightarrow> nat \<Rightarrow> (nat \<times> nat) result" where
  "read_len src nibble ip budget =
     (if nibble = EXTRA
      then rbind (read_extra_len src ip budget) (\<lambda>(t, ip). Inr (nibble + t, ip))
      else Inr (nibble, ip))"

definition put_range :: "'a list \<Rightarrow> nat \<Rightarrow> 'a list \<Rightarrow> 'a list" where
  "put_range xs a ys = take a xs @ ys @ drop (a + length ys) xs"

text \<open>The literal run of one sequence: input cursor, output cursor and buffer after it.\<close>

definition literal_step :: "bytes \<Rightarrow> u8 \<Rightarrow> nat \<Rightarrow> nat \<Rightarrow> bytes \<Rightarrow> (nat \<times> nat \<times> bytes) result" where
  "literal_step src token ip op out =
     rbind (read_len src (unat (drop_bit 4 token)) ip (length out - op))
           (\<lambda>(ll, ip).
              if ll \<noteq> 0
              then case checked_add ip ll of
                     None \<Rightarrow> corrupt ''literal length overflow''
                   | Some src_end \<Rightarrow>
                   (case get_range src ip src_end of
                      None \<Rightarrow> corrupt ''literal run past end of input''
                    | Some lits \<Rightarrow>
                    (case checked_add op ll of
                       None \<Rightarrow> corrupt ''literal length overflow''
                     | Some out_end \<Rightarrow>
                     (case get_range out op out_end of
                        None \<Rightarrow> corrupt ''literal run past end of output''
                      | Some _ \<Rightarrow> Inr (src_end, out_end, put_range out op lits))))
              else Inr (ip, op, out))"

definition copy_match :: "bytes \<Rightarrow> nat \<Rightarrow> nat \<Rightarrow> nat \<Rightarrow> bytes" where
  "copy_match out from op ml =
     (if op - from \<ge> ml then put_range out op (slice out from (from + ml))
      else fold (\<lambda>k out. out[op + k := out ! (from + k)]) [0..<ml] out)"

definition match_step :: "bytes \<Rightarrow> u8 \<Rightarrow> nat \<Rightarrow> nat \<Rightarrow> bytes \<Rightarrow> (nat \<times> nat \<times> bytes) result" where
  "match_step src token ip op out =
     (case checked_add ip 2 of
        None \<Rightarrow> corrupt ''offset overflow''
      | Some off_end \<Rightarrow>
      (case get_range src ip off_end of
         None \<Rightarrow> corrupt ''truncated match offset''
       | Some off_bytes \<Rightarrow>
         let offset = unat (le_word off_bytes :: u16); ip = off_end
         in if offset = 0 then corrupt ''zero match offset''
            else if offset > op then corrupt ''match offset points before start of output''
            else rbind (read_len src (unat (token AND 15)) ip (length out - op))
                      (\<lambda>(ml, ip).
                         let ml = ml + MIN_MATCH
                         in case checked_add op ml of
                              None \<Rightarrow> corrupt ''match length overflow''
                            | Some out_end \<Rightarrow>
                                if out_end > length out then corrupt ''match runs past end of output''
                                else Inr (ip, out_end, copy_match out (op - offset) op ml))))"

declare extra_loop.simps [simp del] compress_loop.simps [simp del]

lemma extra_loop_ip: "extra_loop src ip budget acc = Inr (t, ip') \<Longrightarrow> ip < ip' \<and> ip' \<le> length src"
proof (induction src ip budget acc rule: extra_loop.induct)
  case (1 src ip budget acc)
  from 1(2) show ?case
    by (subst (asm) extra_loop.simps)
      (auto simp: Let_def corrupt_def split: if_splits option.splits dest!: 1(1) [rotated -1])
qed

lemma literal_step_ip: "literal_step src token ip op out = Inr (ip', op', out') \<Longrightarrow> ip \<le> ip'"
  by (auto simp: literal_step_def Let_def corrupt_def read_len_def read_extra_len_def checked_add_def get_range_def
      split: if_splits option.splits dest!: extra_loop_ip)

lemma match_step_ip: "match_step src token ip op out = Inr (ip', op', out') \<Longrightarrow> ip < ip'"
  by (auto simp: match_step_def Let_def corrupt_def read_len_def read_extra_len_def checked_add_def get_range_def
      split: if_splits option.splits dest!: extra_loop_ip)

function decompress_loop :: "bytes \<Rightarrow> nat \<Rightarrow> nat \<Rightarrow> bytes \<Rightarrow> bytes result" where
  "decompress_loop src ip op out =
     (if ip < length src
      then let token = src ! ip
           in case literal_step src token (ip + 1) op out of
                Inl e \<Rightarrow> Inl e
              | Inr (ip, op, out) \<Rightarrow>
                  if ip = length src
                  then if op \<noteq> length out then corrupt ''decoded length does not match expected length''
                       else Inr out
                  else case match_step src token ip op out of
                         Inl e \<Rightarrow> Inl e
                       | Inr (ip, op, out) \<Rightarrow> decompress_loop src ip op out
      else corrupt ''stream ends after a match'')"
  by pat_completeness auto
termination
  by (relation "measure (\<lambda>(src, ip, op, out). length src - ip)")
    (auto dest!: literal_step_ip match_step_ip)

definition decompress_into :: "bytes \<Rightarrow> bytes \<Rightarrow> bytes result" where
  "decompress_into src out =
     (if src = [] then (if out = [] then Inr out else corrupt ''empty input, non-empty output'')
      else decompress_loop src 0 0 out)"

definition decompress :: "bytes \<Rightarrow> nat \<Rightarrow> bytes result" where
  "decompress src expect_len =
     (if expect_len > expansion_ceiling (length src)
      then corrupt ''expected length exceeds what the input can produce''
      else decompress_into src (replicate expect_len 0))"

declare decompress_loop.simps [simp del]

section \<open>Length codes\<close>

definition extra_code :: "nat \<Rightarrow> bytes" where
  "extra_code rem = replicate (rem div 255) 255 @ [of_nat (rem mod 255)]"

lemma push_extra_eq: "push_extra d rem = d @ extra_code rem"
proof (induction d rem rule: push_extra.induct)
  case (1 d rem)
  show ?case
  proof (cases "rem \<ge> 255")
    case True
    then have "rem div 255 = Suc ((rem - 255) div 255)" "rem mod 255 = (rem - 255) mod 255"
      by (simp_all add: le_div_geq le_mod_geq)
    with 1 True show ?thesis by (subst push_extra.simps) (simp add: extra_code_def)
  qed (simp add: push_extra.simps extra_code_def)
qed

lemma length_extra_code: "length (extra_code rem) = rem div 255 + 1"
  by (simp add: extra_code_def)

lemma extra_loop_code:
  assumes "acc + rem \<le> budget" "budget \<le> usize_max"
  shows "extra_loop (pre @ extra_code rem @ rest) (length pre) budget acc
    = Inr (acc + rem, length pre + length (extra_code rem))"
  using assms(1)
proof (induction "rem div 255" arbitrary: rem pre acc)
  case 0
  then have "rem < 255" by (simp add: div_eq_0_iff)
  moreover from this have "unat (of_nat rem :: u8) = rem" by (simp add: unat_of_nat)
  moreover have "unat (255 :: u8) = 255" by simp
  moreover from calculation have "(of_nat rem :: u8) \<noteq> 255" by (metis less_irrefl)
  ultimately show ?case
    using 0(2) assms(2) by (subst extra_loop.simps)
      (simp add: extra_code_def nth_append Let_def checked_add_def)
next
  case (Suc k)
  then have ge: "255 \<le> rem" by (metis Suc_neq_Zero div_less not_le)
  define r where "r = rem - 255"
  have "k = r div 255" "extra_code rem = 255 # extra_code r"
    using Suc(2) ge by (simp_all add: r_def extra_code_def le_div_geq le_mod_geq)
  moreover have "acc + 255 + r \<le> budget" using Suc(3) ge by (simp add: r_def)
  ultimately show ?case
    using Suc(1) [of r "acc + 255" "pre @ [255]"] Suc(3) ge assms(2)
    by (subst extra_loop.simps)
      (simp add: nth_append Let_def checked_add_def r_def)
qed

text \<open>The two nibbles of a token.\<close>

lemma token_nibbles:
  assumes "a < 16" "b < 16"
  shows "unat (drop_bit 4 (push_bit 4 (of_nat a) OR of_nat b :: u8)) = a"
    and "unat ((push_bit 4 (of_nat a) OR of_nat b :: u8) AND 15) = b"
proof -
  have small: "bit (of_nat c :: u8) k \<Longrightarrow> k < 4" if "c < 16" for c k
  proof -
    have "take_bit 4 c = c" using that by (simp add: take_bit_nat_eq_self)
    then have "(of_nat c :: u8) = take_bit 4 (of_nat c)" by (metis of_nat_take_bit)
    then show "bit (of_nat c :: u8) k \<Longrightarrow> k < 4" by (metis bit_take_bit_iff)
  qed
  have n: "unat (of_nat c :: u8) = c" if "c < 16" for c using that by (simp add: unat_of_nat)
  have "drop_bit 4 (push_bit 4 (of_nat a) OR of_nat b :: u8) = of_nat a"
    by (rule bit_word_eqI) (use small assms in
      \<open>auto simp: bit_drop_bit_eq bit_or_iff bit_push_bit_iff dest: small [OF assms(1)] small [OF assms(2)]\<close>)
  with n assms(1) show "unat (drop_bit 4 (push_bit 4 (of_nat a) OR of_nat b :: u8)) = a" by simp
  have "(push_bit 4 (of_nat a) OR of_nat b :: u8) AND mask 4 = of_nat b"
    by (rule bit_word_eqI) (auto simp: bit_and_iff bit_or_iff bit_push_bit_iff bit_mask_iff
        dest: small [OF assms(2)])
  moreover have "(mask 4 :: u8) = 15" by (simp add: mask_eq_exp_minus_1)
  ultimately have "(push_bit 4 (of_nat a) OR of_nat b :: u8) AND 15 = of_nat b" by (simp only:)
  with n assms(2) show "unat ((push_bit 4 (of_nat a) OR of_nat b :: u8) AND 15) = b" by simp
qed

section \<open>Overwriting the buffer\<close>

lemma length_put_range [simp]: "a + length ys \<le> length xs \<Longrightarrow> length (put_range xs a ys) = length xs"
  by (simp add: put_range_def)

lemma take_put_range: "a + length ys \<le> length xs \<Longrightarrow> take (a + length ys) (put_range xs a ys) = take a xs @ ys"
  by (simp add: put_range_def)

lemma put_range_Nil [simp]: "put_range xs a [] = xs"
  by (simp add: put_range_def)

text \<open>The forward byte copy and the block move agree: every copied byte equals the one it came from,
  in the buffer as it is afterwards.\<close>

lemma copy_loop:
  assumes "op + ml \<le> length out" "from < op"
  shows "length (fold (\<lambda>k out. out[op + k := out ! (from + k)]) [0..<ml] out) = length out \<and>
    take op (fold (\<lambda>k out. out[op + k := out ! (from + k)]) [0..<ml] out) = take op out \<and>
    (\<forall>k < ml. fold (\<lambda>k out. out[op + k := out ! (from + k)]) [0..<ml] out ! (op + k)
        = fold (\<lambda>k out. out[op + k := out ! (from + k)]) [0..<ml] out ! (from + k))"
  using assms(1)
proof (induction ml)
  case (Suc ml)
  then show ?case using assms(2) by (auto simp: nth_list_update less_Suc_eq)
qed simp

lemma copy_match_spec:
  assumes "op + ml \<le> length out" "from < op"
  defines "out' \<equiv> copy_match out from op ml"
  shows "length out' = length out" "take op out' = take op out"
    "\<And>k. k < ml \<Longrightarrow> out' ! (op + k) = out' ! (from + k)"
proof -
  have "length out' = length out \<and> take op out' = take op out \<and>
    (\<forall>k < ml. out' ! (op + k) = out' ! (from + k))"
  proof (cases "op - from \<ge> ml")
    case True
    then have "out' = put_range out op (slice out from (from + ml))" by (simp add: out'_def copy_match_def)
    with True assms(1,2) show ?thesis
      by (auto simp: put_range_def nth_append slice_nth)
  next
    case False
    with copy_loop [OF assms(1,2)] show ?thesis by (simp add: out'_def copy_match_def)
  qed
  then show "length out' = length out" "take op out' = take op out"
    "\<And>k. k < ml \<Longrightarrow> out' ! (op + k) = out' ! (from + k)" by auto
qed

text \<open>A match that is one in the original text reproduces it.\<close>

lemma copy_match_text:
  assumes "op + ml \<le> length out" "from < op" "op + ml \<le> length orig"
    and "take op out = take op orig"
    and "\<And>k. k < ml \<Longrightarrow> orig ! (op + k) = orig ! (from + k)"
  shows "take (op + ml) (copy_match out from op ml) = take (op + ml) orig"
proof (rule nth_equalityI)
  note spec = copy_match_spec [OF assms(1,2)]
  show "length (take (op + ml) (copy_match out from op ml)) = length (take (op + ml) orig)"
    using assms(1,3) spec(1) by simp
  fix i assume "i < length (take (op + ml) (copy_match out from op ml))"
  then have "i < op + ml" by simp
  then have "copy_match out from op ml ! i = orig ! i"
  proof (induction i rule: less_induct)
    case (less i)
    show ?case
    proof (cases "i < op")
      case True
      then show ?thesis using spec(2) assms(4) by (metis nth_take)
    next
      case False
      define k where "k = i - op"
      have "k < ml" "i = op + k" "from + k < i" using False less(2) assms(2) by (simp_all add: k_def)
      then show ?thesis using spec(3) [of k] less(1) [of "from + k"] less(2) assms(5) [of k] by simp
    qed
  qed
  with \<open>i < op + ml\<close> show "take (op + ml) (copy_match out from op ml) ! i = take (op + ml) orig ! i"
    by simp
qed

section \<open>One sequence through the decoder\<close>

definition len_code :: "nat \<Rightarrow> bytes" where
  "len_code len = (if len \<ge> EXTRA then extra_code (len - EXTRA) else [])"

definition seq_token :: "nat \<Rightarrow> nat \<Rightarrow> u8" where
  "seq_token ll mc = push_bit 4 (of_nat (min ll EXTRA)) OR of_nat (min mc EXTRA)"

definition seq_bytes :: "bytes \<Rightarrow> u16 \<Rightarrow> nat \<Rightarrow> bytes" where
  "seq_bytes lits offset mlen = [seq_token (length lits) (mlen - MIN_MATCH)] @ len_code (length lits) @ lits
     @ le_bytes offset @ len_code (mlen - MIN_MATCH)"

lemma emit_sequence_eq: "emit_sequence d lits offset mlen = d @ seq_bytes lits offset mlen"
  by (simp add: emit_sequence_def Let_def push_extra_eq seq_bytes_def seq_token_def len_code_def)

lemma nibble_len:
  assumes "ll \<le> budget" "budget \<le> usize_max"
  shows "read_len (pre @ len_code ll @ rest) (min ll EXTRA) (length pre) budget
    = Inr (ll, length pre + length (len_code ll))"
proof (cases "ll \<ge> EXTRA")
  case True
  then show ?thesis
    using extra_loop_code [of 0 "ll - EXTRA" budget pre rest] assms
    by (simp add: read_len_def read_extra_len_def len_code_def)
qed (simp add: read_len_def len_code_def)

lemma literal_step_run:
  fixes tok :: u8
  assumes "unat (drop_bit 4 tok) = min (length lits) EXTRA"
    and src: "src = pre @ len_code (length lits) @ lits @ rest"
    and "op + length lits \<le> length out" "length out \<le> usize_max" "length src \<le> usize_max"
  shows "literal_step src tok (length pre) op out
    = Inr (length pre + length (len_code (length lits)) + length lits, op + length lits, put_range out op lits)"
proof -
  let ?ip = "length pre + length (len_code (length lits))"
  have "get_range src ?ip (?ip + length lits) = Some lits"
    unfolding src by (simp add: get_range_def slice_def)
  moreover have "get_range out op (op + length lits) = Some (slice out op (op + length lits))"
    using assms(3) by (simp add: get_range_def)
  moreover have "checked_add ?ip (length lits) = Some (?ip + length lits)"
    using assms(5) unfolding src by (simp add: checked_add_def)
  moreover have "checked_add op (length lits) = Some (op + length lits)"
    using assms(3,4) by (simp add: checked_add_def)
  moreover have "length lits \<le> length out - op" "length out - op \<le> usize_max" using assms(3,4) by linarith+
  note nibble_len [OF this, of pre "lits @ rest", folded src]
  ultimately show ?thesis
    unfolding literal_step_def Let_def assms(1) by simp
qed

lemma match_step_run:
  fixes tok :: u8 and offset :: u16
  assumes "unat (tok AND 15) = min (mlen - MIN_MATCH) EXTRA"
    and src: "src = pre @ le_bytes offset @ len_code (mlen - MIN_MATCH) @ rest"
    and "MIN_MATCH \<le> mlen" "0 < unat offset" "unat offset \<le> op"
    and "op + mlen \<le> length out" "length out \<le> usize_max" "length src \<le> usize_max"
  shows "match_step src tok (length pre) op out
    = Inr (length pre + 2 + length (len_code (mlen - MIN_MATCH)), op + mlen,
           copy_match out (op - unat offset) op mlen)"
proof -
  have len2: "length (le_bytes offset) = 2" by simp
  have "get_range src (length pre) (length pre + 2) = Some (le_bytes offset)"
    unfolding src by (simp add: get_range_def slice_def)
  moreover have "checked_add (length pre) 2 = Some (length pre + 2)"
    using assms(8) unfolding src by (simp add: checked_add_def)
  moreover have "(le_word (le_bytes offset) :: u16) = offset" by (rule le_word_le_bytes) simp
  moreover have "checked_add op mlen = Some (op + mlen)"
    using assms(6,7) by (simp add: checked_add_def)
  moreover have b: "mlen - MIN_MATCH \<le> length out - op" "length out - op \<le> usize_max"
    using assms(6,7) by linarith+
  have "src = (pre @ le_bytes offset) @ len_code (mlen - MIN_MATCH) @ rest" by (simp add: src)
  note nib = nibble_len [OF b, of "pre @ le_bytes offset" rest, folded this, unfolded length_append len2]
  ultimately show ?thesis
    using assms(3-6) unfolding match_step_def Let_def assms(1) by (simp add: nib)
qed

lemma decompress_seq:
  assumes src: "src = pre @ seq_bytes lits offset mlen @ rest"
    and "MIN_MATCH \<le> mlen" "0 < unat offset" "unat offset \<le> op + length lits"
    and "op + length lits + mlen \<le> length out" "length out \<le> usize_max" "length src \<le> usize_max"
  shows "decompress_loop src (length pre) op out
    = decompress_loop src (length pre + length (seq_bytes lits offset mlen)) (op + length lits + mlen)
        (copy_match (put_range out op lits) (op + length lits - unat offset) (op + length lits) mlen)"
proof -
  let ?tok = "seq_token (length lits) (mlen - MIN_MATCH)"
  note nib = token_nibbles [of "min (length lits) EXTRA" "min (mlen - MIN_MATCH) EXTRA", folded seq_token_def]
  have tok: "unat (drop_bit 4 ?tok) = min (length lits) EXTRA" "unat (?tok AND 15) = min (mlen - MIN_MATCH) EXTRA"
    using nib by simp_all
  let ?pre1 = "pre @ [?tok]"
  let ?pre2 = "?pre1 @ len_code (length lits) @ lits"
  have s1: "src = ?pre1 @ len_code (length lits) @ lits @ (le_bytes offset @ len_code (mlen - MIN_MATCH) @ rest)"
    and s2: "src = ?pre2 @ le_bytes offset @ len_code (mlen - MIN_MATCH) @ rest"
    by (simp_all add: src seq_bytes_def)
  have l: "literal_step src ?tok (length ?pre1) op out = Inr (length ?pre2, op + length lits, put_range out op lits)"
    using literal_step_run [OF tok(1) s1] assms(5-7) by simp
  have m: "match_step src ?tok (length ?pre2) (op + length lits) (put_range out op lits)
      = Inr (length pre + length (seq_bytes lits offset mlen), op + length lits + mlen,
          copy_match (put_range out op lits) (op + length lits - unat offset) (op + length lits) mlen)"
    using match_step_run [OF tok(2) s2, of "op + length lits" "put_range out op lits"] assms
    by (simp add: seq_bytes_def)
  have "length pre < length src" "src ! length pre = ?tok" "length ?pre2 \<noteq> length src"
    by (simp add: s2, simp add: s1 nth_append, simp add: s2)
  with l m show ?thesis by (subst decompress_loop.simps) simp
qed

lemma decompress_last:
  assumes src: "src = pre @ [push_bit 4 (of_nat (min (length lits) EXTRA))] @ len_code (length lits) @ lits"
    and "op + length lits = length out" "length out \<le> usize_max" "length src \<le> usize_max"
  shows "decompress_loop src (length pre) op out = Inr (take op out @ lits)"
proof -
  let ?tok = "push_bit 4 (of_nat (min (length lits) EXTRA)) :: u8"
  have tok: "unat (drop_bit 4 ?tok) = min (length lits) EXTRA"
    using token_nibbles(1) [of "min (length lits) EXTRA" 0] by simp
  have "src = (pre @ [?tok]) @ len_code (length lits) @ lits @ []" by (simp add: src)
  from literal_step_run [OF tok this, of op out] assms(2-4)
  have "literal_step src ?tok (length pre + 1) op out = Inr (length src, length out, take op out @ lits)"
    by (simp add: src put_range_def)
  moreover have "length pre < length src" "src ! length pre = ?tok" by (simp_all add: src nth_append)
  moreover have "length (take op out @ lits) = length out" using assms(2) by simp
  ultimately show ?thesis by (subst decompress_loop.simps) simp
qed

section \<open>What an accepted block can produce\<close>

lemma extra_loop_bound:
  "extra_loop src ip budget acc = Inr (t, ip') \<Longrightarrow> t \<le> acc + 255 * (ip' - ip)"
proof (induction src ip budget acc rule: extra_loop.induct)
  case (1 src ip budget acc)
  have b: "unat (src ! ip) \<le> 255" using unat_u8_less [of "src ! ip"] by simp
  from 1(2) consider "ip < length src" "t = acc + unat (src ! ip)" "ip' = ip + 1"
    | "ip < length src" "checked_add acc (unat (src ! ip)) = Some (acc + unat (src ! ip))"
      "\<not> budget < acc + unat (src ! ip)" "src ! ip = 255"
      "extra_loop src (ip + 1) budget (acc + unat (src ! ip)) = Inr (t, ip')"
    by (subst (asm) extra_loop.simps)
      (auto simp: Let_def corrupt_def checked_add_def split: if_splits option.splits)
  then show ?case
  proof cases
    case 2
    from 1(1) [OF 2(1) refl refl 2(2,3) _ 2(5)] 2(4)
    have "t \<le> acc + unat (src ! ip) + 255 * (ip' - (ip + 1))" by simp
    moreover have "ip + 1 < ip'" using extra_loop_ip [OF 2(5)] by simp
    ultimately show ?thesis using b by linarith
  qed (use b in simp)
qed

lemma read_len_bound:
  assumes "read_len src nib ip budget = Inr (n, ip')" "nib \<le> 15"
  shows "n \<le> 15 + 255 * (ip' - ip)" "ip \<le> ip'"
  using assms by (auto simp: read_len_def read_extra_len_def split: if_splits
      dest: extra_loop_bound extra_loop_ip)

lemma literal_step_bound:
  assumes "literal_step src token ip op out = Inr (ip', op', out')" "op \<le> length out" "ip \<le> length src"
  shows "length out' = length out" "op' \<le> length out" "op' \<le> op + (ip' - ip)" "ip \<le> ip'" "ip' \<le> length src"
proof -
  have nib: "unat (drop_bit 4 token) \<le> 15"
    unfolding unat_drop_bit_eq using unat_u8_less [of token] by (simp add: drop_bit_nat_def)
  from assms(1) obtain ll ip1 where len: "read_len src (unat (drop_bit 4 token)) ip (length out - op) = Inr (ll, ip1)"
    and st: "(if ll \<noteq> 0 then ip' = ip1 + ll \<and> ip' \<le> length src \<and> op' = op + ll \<and> op' \<le> length out
             \<and> out' = put_range out op (slice src ip1 ip') else ip' = ip1 \<and> op' = op \<and> out' = out)"
    unfolding literal_step_def
    by (auto simp: corrupt_def checked_add_def get_range_def split: if_splits option.splits)
  note b = read_len_bound [OF len nib]
  have "ip1 \<le> length src"
    using len assms(3) by (auto simp: read_len_def read_extra_len_def split: if_splits dest: extra_loop_ip)
  with st b assms show "length out' = length out" "op' \<le> length out" "op' \<le> op + (ip' - ip)" "ip \<le> ip'"
    "ip' \<le> length src"
    by (auto split: if_splits)
qed

lemma length_copy_match [simp]:
  "op + ml \<le> length out \<Longrightarrow> from < op \<Longrightarrow> length (copy_match out from op ml) = length out"
  by (rule copy_match_spec(1))

lemma match_step_bound:
  assumes "match_step src token ip op out = Inr (ip', op', out')"
  shows "length out' = length out" "op' \<le> length out" "op' \<le> op + 255 * (ip' - ip)" "ip < ip'" "ip' \<le> length src"
proof -
  have "token AND 15 \<le> 15" by (rule word_and_le1)
  then have nib: "unat (token AND 15) \<le> 15" by (simp add: word_le_nat_alt)
  from assms obtain ml ip1 off where rl: "read_len src (unat (token AND 15)) (ip + 2) (length out - op) = Inr (ml, ip1)"
    and st: "ip' = ip1" "op' = op + (ml + 4)" "op' \<le> length out" "0 < off" "off \<le> op" "ip + 2 \<le> length src"
      "out' = copy_match out (op - off) op (ml + 4)"
    unfolding match_step_def
    by (auto simp: corrupt_def Let_def checked_add_def get_range_def split: if_splits option.splits)
  note b = read_len_bound [OF rl nib]
  have "ip1 \<le> length src"
    using rl st(6) by (auto simp: read_len_def read_extra_len_def split: if_splits dest: extra_loop_ip)
  with st b show "length out' = length out" "op' \<le> length out" "op' \<le> op + 255 * (ip' - ip)" "ip < ip'"
    "ip' \<le> length src" by auto
qed

lemma decompress_loop_bound:
  assumes "decompress_loop src ip op out = Inr out'" "op \<le> length out" "ip \<le> length src"
  shows "length out' = length out \<and> length out \<le> op + 255 * (length src - ip)"
  using assms
proof (induction src ip op out rule: decompress_loop.induct)
  case (1 src ip op out)
  from 1(2) obtain ip1 op1 out1 where ip: "ip < length src"
    and l: "literal_step src (src ! ip) (ip + 1) op out = Inr (ip1, op1, out1)"
    and c: "if ip1 = length src then op1 = length out1 \<and> out' = out1
      else case match_step src (src ! ip) ip1 op1 out1 of Inl e \<Rightarrow> False
         | Inr (ip2, op2, out2) \<Rightarrow> decompress_loop src ip2 op2 out2 = Inr out'"
    unfolding decompress_loop.simps [of src ip op out]
    by (auto simp: Let_def corrupt_def split: if_splits sum.splits prod.splits)
  have "ip + 1 \<le> length src" using ip by simp
  note lb = literal_step_bound [OF l 1(3) this]
  show ?case
  proof (cases "ip1 = length src")
    case True
    with c lb ip show ?thesis by auto
  next
    case False
    with c obtain ip2 op2 out2 where m: "match_step src (src ! ip) ip1 op1 out1 = Inr (ip2, op2, out2)"
      and rec: "decompress_loop src ip2 op2 out2 = Inr out'"
      by (auto split: sum.splits prod.splits)
    note mb = match_step_bound [OF m]
    have "length out' = length out2 \<and> length out2 \<le> op2 + 255 * (length src - ip2)"
      using 1(1) [OF ip refl l refl refl False m refl refl rec] mb by simp
    with lb mb ip show ?thesis by auto
  qed
qed

lemma decompress_into_bound:
  assumes "decompress_into src out = Inr out'"
  shows "length out' = length out \<and> length out \<le> 255 * length src"
  using assms decompress_loop_bound [of src 0 0 out out']
  by (auto simp: decompress_into_def corrupt_def split: if_splits)

section \<open>The compressor\<close>

lemma extend_fwd_spec:
  assumes "\<forall>k < fwd. src ! (cand + k) = src ! (ip + k)" "ip + fwd \<le> lim"
  shows "ip + extend_fwd src lim cand ip fwd \<le> lim \<and>
    (\<forall>k < extend_fwd src lim cand ip fwd. src ! (cand + k) = src ! (ip + k))"
  using assms
proof (induction src lim cand ip fwd rule: extend_fwd.induct)
  case (1 src lim cand ip fwd)
  then show ?case
    by (subst (1 2) extend_fwd.simps) (auto simp: less_Suc_eq)
qed

lemma extend_back_spec:
  assumes "\<forall>k < n. src ! (ip - k - 1) = src ! (cand - k - 1)" "anchor + n \<le> ip" "n \<le> cand"
  shows "anchor + extend_back src anchor cand ip n \<le> ip \<and> extend_back src anchor cand ip n \<le> cand \<and>
    (\<forall>k < extend_back src anchor cand ip n. src ! (ip - k - 1) = src ! (cand - k - 1))"
  using assms
proof (induction src anchor cand ip n rule: extend_back.induct)
  case (1 src anchor cand ip n)
  then show ?case
    by (subst (1 2 3) extend_back.simps) (auto simp: less_Suc_eq)
qed

lemma read_u32_eq:
  assumes "read_u32 src a = read_u32 src b" "k < 4"
  shows "src ! (a + k) = src ! (b + k)"
proof -
  let ?f = "\<lambda>at. [src ! at, src ! (at + 1), src ! (at + 2), src ! (at + 3)]"
  have "?f a = ?f b"
    using assms(1) le_bytes_le_word [of "?f a", where ?'a = 32] le_bytes_le_word [of "?f b", where ?'a = 32]
    unfolding read_u32_def by simp
  moreover have "k = 0 \<or> k = 1 \<or> k = 2 \<or> k = 3" using assms(2) by linarith
  ultimately show ?thesis by auto
qed

text \<open>A match found at \<open>ip\<close> and extended both ways is a match of the text, at its start.\<close>

lemma extended_match:
  fixes src :: bytes
  assumes "\<And>k. k < fwd \<Longrightarrow> src ! (cand + k) = src ! (ip + k)"
    and "\<And>k. k < back \<Longrightarrow> src ! (ip - k - 1) = src ! (cand - k - 1)"
    and "back \<le> cand" "cand < ip" "k < fwd + back"
  shows "src ! (ip - back + k) = src ! (ip - back - (ip - cand) + k)"
proof (cases "k < back")
  case True
  define j where "j = back - k - 1"
  have "j < back" "ip - j - 1 = ip - back + k" "cand - j - 1 = ip - back - (ip - cand) + k"
    using True assms(3,4) by (simp_all add: j_def)
  with assms(2) [of j] show ?thesis by simp
next
  case False
  define j where "j = k - back"
  have "j < fwd" "ip + j = ip - back + k" "cand + j = ip - back - (ip - cand) + k"
    using False assms(3-5) by (simp_all add: j_def)
  with assms(1) [of j] show ?thesis by simp
qed

lemma hash4_less: "log \<le> 32 \<Longrightarrow> hash4 seq (32 - log) < 2 ^ log"
proof -
  assume l: "log \<le> 32"
  have "unat (seq * HASH_MUL) < 2 ^ log * 2 ^ (32 - log)"
    using l unat_u32_less [of "seq * HASH_MUL"] by (simp flip: power_add)
  then show ?thesis
    unfolding hash4_def unat_drop_bit_eq drop_bit_nat_def by (simp add: less_mult_imp_div_less)
qed

lemma hash_log_bounds: "10 \<le> hash_log n" "hash_log n \<le> 16"
  by (auto simp: hash_log_def)

lemma seq_expansion: "length lits + mlen \<le> 255 * length (seq_bytes lits offset mlen)"
proof -
  have "mlen \<le> 19 + 255 * length (len_code (mlen - MIN_MATCH))"
  proof (cases "mlen - MIN_MATCH \<ge> EXTRA")
    case True
    have "mlen - 19 < 255 * ((mlen - 19) div 255 + 1)"
      using dividend_less_div_times [of 255 "mlen - 19"] by simp
    with True show ?thesis by (simp add: len_code_def length_extra_code)
  qed simp
  then show ?thesis by (simp add: seq_bytes_def)
qed

text \<open>
  The loop invariant: every table entry is a position already passed, and a decoder that has read
  the output so far, with any bytes behind it, has produced the text up to the anchor.
\<close>

definition decodes_to :: "bytes \<Rightarrow> nat \<Rightarrow> bytes \<Rightarrow> bool" where
  "decodes_to d m orig \<longleftrightarrow> m \<le> length orig \<and> m \<le> 255 * length d \<and>
     (\<forall>rest out. length out = length orig \<longrightarrow> length (d @ rest) \<le> usize_max \<longrightarrow>
        (\<exists>out'. length out' = length orig \<and> take m out' = take m orig \<and>
           decompress_loop (d @ rest) 0 0 out = decompress_loop (d @ rest) (length d) m out'))"

definition search_inv :: "bytes \<Rightarrow> nat \<Rightarrow> cstate \<Rightarrow> bool" where
  "search_inv src log s \<longleftrightarrow> length (c_table s) = 2 ^ log \<and> (\<forall>e \<in> set (c_table s). unat e \<le> c_ip s) \<and>
     c_anchor s \<le> c_ip s \<and> c_ip s \<le> length src \<and> decodes_to (c_dst s) (c_anchor s) src"

lemma decodes_to_Nil: "decodes_to [] 0 orig"
  by (auto simp: decodes_to_def)

lemma decodes_to_sequence:
  assumes "decodes_to d m orig" "m \<le> start" "start + mlen \<le> length orig" "MIN_MATCH \<le> mlen"
    and off: "0 < off" "off \<le> start" "off \<le> MAX_DISTANCE"
    and match: "\<And>k. k < mlen \<Longrightarrow> orig ! (start + k) = orig ! (start - off + k)"
    and "length orig \<le> usize_max"
  shows "decodes_to (emit_sequence d (slice orig m start) (of_nat off) mlen) (start + mlen) orig"
proof -
  let ?lits = "slice orig m start" and ?d = "emit_sequence d (slice orig m start) (of_nat off) mlen"
  have u: "unat (of_nat off :: u16) = off" using off(3) by (simp add: unat_of_nat)
  have ll: "length ?lits = start - m" using assms(3) by simp
  have "m \<le> 255 * length d" using assms(1) by (simp add: decodes_to_def)
  then have exp: "start + mlen \<le> 255 * length ?d"
    using assms(2) seq_expansion [of ?lits mlen "of_nat off"]
    unfolding emit_sequence_eq length_append ll distrib_left by linarith
  have "\<exists>out'. length out' = length orig \<and> take (start + mlen) out' = take (start + mlen) orig \<and>
      decompress_loop (?d @ rest) 0 0 out = decompress_loop (?d @ rest) (length ?d) (start + mlen) out'"
    if out: "length out = length orig" and small: "length (?d @ rest) \<le> usize_max" for rest out
  proof -
    let ?sq = "seq_bytes ?lits (of_nat off) mlen"
    have d: "?d @ rest = d @ ?sq @ rest" by (simp add: emit_sequence_eq)
    obtain out1 where o1: "length out1 = length orig" "take m out1 = take m orig"
      "decompress_loop (d @ ?sq @ rest) 0 0 out = decompress_loop (d @ ?sq @ rest) (length d) m out1"
      using assms(1) out small unfolding decodes_to_def d by blast
    let ?o2 = "put_range out1 m ?lits"
    have o2: "length ?o2 = length orig" "take start ?o2 = take start orig"
      using o1 assms(2,3) ll slice_append [of 0 m start orig] take_put_range [of m ?lits out1] by simp_all
    let ?o3 = "copy_match ?o2 (start - off) start mlen"
    have "take (start + mlen) ?o3 = take (start + mlen) orig"
      using o2 assms(3) off match by (intro copy_match_text) simp_all
    moreover have "length ?o3 = length orig" using o2 assms(3) off by simp
    moreover have "decompress_loop (d @ ?sq @ rest) (length d) m out1
        = decompress_loop (d @ ?sq @ rest) (length d + length ?sq) (start + mlen) ?o3"
      using decompress_seq [of "d @ ?sq @ rest" d ?lits "of_nat off" mlen rest m out1] assms o1(1) ll u small d
      by simp
    ultimately show ?thesis using o1(3) unfolding d by (intro exI [of _ ?o3]) (simp add: emit_sequence_eq)
  qed
  with exp assms(3) show ?thesis unfolding decodes_to_def by blast
qed

lemma fold_seed_table:
  assumes "\<And>d t. P t \<Longrightarrow> d \<in> set ds \<Longrightarrow> P (f d t)" "P t"
  shows "P (fold f ds t)"
  using assms by (induction ds arbitrary: t) auto

lemma set_update_le: "\<forall>e \<in> set t. unat e \<le> m \<Longrightarrow> unat x \<le> m \<Longrightarrow> \<forall>e \<in> set (t[h := x]). unat (e :: u32) \<le> m"
  using set_update_subset_insert [of t h x] by auto

lemma unat_pos32: "p < MAX_INPUT_SIZE \<Longrightarrow> unat (of_nat (p + 1) :: u32) = p + 1"
  by (simp add: unat_of_nat del: of_nat_add of_nat_Suc Suc_eq_plus1)

lemma take_match_inv:
  assumes inv: "search_inv src log s" and log: "log \<le> 32" and n: "length src \<le> MAX_INPUT_SIZE"
    and ip: "c_ip s < length src - MF_LIMIT"
    and cand: "cand < c_ip s" "c_ip s - cand \<le> MAX_DISTANCE" "read_u32 src cand = read_u32 src (c_ip s)"
    and t: "length t = 2 ^ log" "\<forall>e \<in> set t. unat e \<le> c_ip s + 1"
    and step: "take_match src (32 - log) (s\<lparr>c_table := t\<rparr>) cand = Some s'"
  shows "search_inv src log s'"
proof -
  define fwd where "fwd = extend_fwd src (length src - LAST_LITERALS) cand (c_ip s) MIN_MATCH"
  define bk where "bk = extend_back src (c_anchor s) cand (c_ip s) 0"
  have f: "c_ip s + fwd \<le> length src - LAST_LITERALS \<and> (\<forall>k < fwd. src ! (cand + k) = src ! (c_ip s + k))"
    unfolding fwd_def using ip read_u32_eq [OF cand(3)] by (intro extend_fwd_spec) auto
  have b: "c_anchor s + bk \<le> c_ip s \<and> bk \<le> cand \<and> (\<forall>k < bk. src ! (c_ip s - k - 1) = src ! (cand - k - 1))"
    unfolding bk_def by (rule extend_back_spec) (use inv in \<open>simp_all add: search_inv_def\<close>)
  have fwd4: "MIN_MATCH \<le> fwd" unfolding fwd_def by (rule extend_fwd_ge)
  let ?d = "emit_sequence (c_dst s) (slice src (c_anchor s) (c_ip s - bk)) (of_nat (c_ip s - cand)) (fwd + bk)"
  have dec: "decodes_to ?d (c_ip s - bk + (fwd + bk)) src"
  proof (rule decodes_to_sequence)
    show "src ! (c_ip s - bk + k) = src ! (c_ip s - bk - (c_ip s - cand) + k)" if "k < fwd + bk" for k
      using extended_match [of fwd src cand "c_ip s" bk k] f b cand that by blast
  qed (use inv b f cand fwd4 n in \<open>auto simp: search_inv_def usize_max_def\<close>)
  have ip': "c_ip s - bk + (fwd + bk) = c_ip s + fwd" using b by simp
  define P where "P t \<longleftrightarrow> length t = 2 ^ log \<and> (\<forall>e \<in> set t. unat (e :: u32) \<le> c_ip s + fwd)" for t
  define g where "g d t = (if c_ip s + fwd \<ge> d
      then let p = c_ip s + fwd - d in t[hash4 (read_u32 src p) (32 - log) := of_nat (p + 1)] else t)"
    for d and t :: "u32 list"
  have "P (fold g [2..<min (fwd + bk) RESEED_DEPTH + 1] t)"
  proof (rule fold_seed_table)
    show "P t" using t fwd4 by (auto simp: P_def)
    fix d t assume P: "P t" and "d \<in> set [2..<min (fwd + bk) RESEED_DEPTH + 1]"
    then have d: "2 \<le> d" by simp
    show "P (g d t)"
    proof (cases "c_ip s + fwd \<ge> d")
      case True
      have "c_ip s + fwd - d < MAX_INPUT_SIZE" using f n d ip by linarith
      from unat_pos32 [OF this] have "unat (of_nat (c_ip s + fwd - d + 1) :: u32) \<le> c_ip s + fwd"
        using d True by linarith
      from set_update_le [OF _ this, of t] P True show ?thesis unfolding P_def g_def Let_def by simp
    qed (use P in \<open>simp add: g_def\<close>)
  qed
  moreover have "s' = \<lparr>c_table = fold g [2..<min (fwd + bk) RESEED_DEPTH + 1] t, c_dst = ?d,
      c_anchor = c_ip s + fwd, c_ip = c_ip s + fwd\<rparr>"
    using step unfolding take_match_def g_def Let_def
    by (simp add: fwd_def [symmetric] bk_def [symmetric] split: if_splits)
  moreover have "c_ip s + fwd \<le> length src" using f by linarith
  ultimately show ?thesis using dec ip' by (simp add: search_inv_def P_def)
qed

lemma compress_step_inv:
  assumes inv: "search_inv src log s" and log: "log \<le> 32" and n: "length src \<le> MAX_INPUT_SIZE"
    and ip: "c_ip s < length src - MF_LIMIT" and step: "compress_step src (32 - log) s = Some s'"
  shows "search_inv src log s'"
proof -
  define h where "h = hash4 (read_u32 src (c_ip s)) (32 - log)"
  define t where "t = (c_table s)[h := of_nat (c_ip s + 1)]"
  define e where "e = c_table s ! h"
  have h: "h < 2 ^ log" unfolding h_def by (rule hash4_less [OF log])
  have pos: "unat (of_nat (c_ip s + 1) :: u32) = c_ip s + 1" by (rule unat_pos32) (use ip n in linarith)
  have "\<forall>x \<in> set (c_table s). unat x \<le> c_ip s + 1" using inv by (auto simp: search_inv_def intro: le_SucI)
  from set_update_le [OF this, of "of_nat (c_ip s + 1)" h]
  have t: "length t = 2 ^ log" "\<forall>x \<in> set t. unat x \<le> c_ip s + 1"
    unfolding pos t_def using inv by (simp_all add: search_inv_def)
  have "e \<in> set (c_table s)" using h inv by (auto simp: e_def search_inv_def)
  then have e: "unat e \<le> c_ip s" using inv by (auto simp: search_inv_def)
  consider "s' = s\<lparr>c_table := t, c_ip := c_ip s + 1\<rparr>"
    | "e \<noteq> 0" "c_ip s - (unat e - 1) \<le> MAX_DISTANCE" "read_u32 src (unat e - 1) = read_u32 src (c_ip s)"
      "take_match src (32 - log) (s\<lparr>c_table := t\<rparr>) (unat e - 1) = Some s'"
    using step unfolding compress_step_def Let_def h_def [symmetric] e_def [symmetric] t_def [symmetric]
    by (auto split: if_splits)
  then show ?thesis
  proof cases
    case 1
    then show ?thesis using inv t ip by (auto simp: search_inv_def)
  next
    case 2
    have "unat e - 1 < c_ip s" using 2(1) e by (auto simp: unat_eq_0 [symmetric] simp del: unat_eq_0)
    then show ?thesis using take_match_inv [OF inv log n ip _ 2(2,3) t 2(4)] by simp
  qed
qed

lemma compress_loop_inv:
  assumes "search_inv src log s" "log \<le> 32" "length src \<le> MAX_INPUT_SIZE"
    "compress_loop src (32 - log) s = Some s'"
  shows "search_inv src log s'"
  using assms
proof (induction src "32 - log" s rule: compress_loop.induct)
  case (1 src s)
  from 1(5) show ?case
    unfolding compress_loop.simps [of src "32 - log" s]
    using 1(1-4) compress_step_inv [OF 1(2-4)] by (auto split: if_splits option.splits)
qed

lemma compress_correct:
  assumes Some: "compress src = Some c"
  shows "length c < length src" "length src \<le> expansion_ceiling (length c)"
    "decompress_into c (replicate (length src) 0) = Inr src"
proof -
  let ?log = "hash_log (length src)"
  let ?s0 = "\<lparr>c_table = replicate (2 ^ ?log) 0, c_dst = [], c_anchor = 0, c_ip = 0\<rparr>"
  from Some obtain s where n: "MIN_INPUT \<le> length src" "length src \<le> MAX_INPUT_SIZE"
    and loop: "compress_loop src (32 - ?log) ?s0 = Some s"
    and len: "length (c_dst s) + 1 + extra_bytes (length src - c_anchor s) + (length src - c_anchor s) < length src"
    and c: "c = c_dst s @ [push_bit 4 (of_nat (min (length src - c_anchor s) EXTRA))]
        @ len_code (length src - c_anchor s) @ drop (c_anchor s) src"
    by (auto simp: compress_def Let_def push_extra_eq len_code_def split: if_splits option.splits)
  have "search_inv src ?log ?s0" by (simp add: search_inv_def decodes_to_Nil)
  from compress_loop_inv [OF this _ n(2) loop] have inv: "search_inv src ?log s"
    using hash_log_bounds(2) [of "length src"] by simp
  define m where "m = c_anchor s"
  define lits where "lits = drop m src"
  have m: "m \<le> length src" "length lits = length src - m" and dec: "decodes_to (c_dst s) m src"
    using inv by (auto simp: search_inv_def m_def lits_def)
  have c': "c = c_dst s @ [push_bit 4 (of_nat (min (length lits) EXTRA))] @ len_code (length lits) @ lits"
    by (simp add: c m(2) m_def lits_def)
  have "length (len_code (length lits)) = extra_bytes (length lits)"
    by (simp add: len_code_def extra_bytes_def length_extra_code)
  then have small: "length c < length src" using len by (simp add: c' m(2) m_def)
  have "m \<le> 255 * length (c_dst s)" using dec by (simp add: decodes_to_def)
  then have "length src \<le> 255 * length c" using m by (simp add: c')
  then have ceil: "length src \<le> expansion_ceiling (length c)"
    using n(2) by (simp add: expansion_ceiling_def saturating_add_def saturating_mul_def usize_max_def)
  have "length (c_dst s @ drop (length (c_dst s)) c) \<le> usize_max" using small n(2) by (simp add: c' usize_max_def)
  with dec obtain out' where o: "length out' = length src" "take m out' = take m src"
    "decompress_loop (c_dst s @ drop (length (c_dst s)) c) 0 0 (replicate (length src) 0)
       = decompress_loop (c_dst s @ drop (length (c_dst s)) c) (length (c_dst s)) m out'"
    unfolding decodes_to_def by (metis length_replicate)
  have "c_dst s @ drop (length (c_dst s)) c = c" by (simp add: c')
  then have "decompress_loop c 0 0 (replicate (length src) 0) = decompress_loop c (length (c_dst s)) m out'"
    using o(3) by simp
  also have "\<dots> = Inr (take m out' @ lits)"
    using decompress_last [OF c', of m out'] m o(1) small n(2) by (simp add: usize_max_def)
  also have "take m out' @ lits = src" using o(2) by (simp add: lits_def)
  finally show "decompress_into c (replicate (length src) 0) = Inr src"
    by (simp add: decompress_into_def c')
  show "length c < length src" "length src \<le> expansion_ceiling (length c)" by (rule small, rule ceil)
qed

lemma compress_input_size: "compress src = Some c \<Longrightarrow> length src \<le> MAX_INPUT_SIZE"
  by (auto simp: compress_def Let_def split: if_splits)

text \<open>A run of 32 zero bytes compresses to one literal, one match of 26 bytes and five literals.\<close>

lemma read_u32_zeros: "k + 3 < n \<Longrightarrow> read_u32 (replicate n 0) k = 0"
  by (simp add: read_u32_def)

lemma hash4_0 [simp]: "hash4 0 s = 0"
  by (simp add: hash4_def)

lemma compress_zeros:
  "compress (replicate 32 0) = Some [31, 0, 1, 0, 7, 80, 0, 0, 0, 0, 0]"
proof -
  let ?src = "replicate 32 0 :: bytes" and ?t = "replicate 1024 0 :: u32 list"
  have 1: "compress_step ?src 22 \<lparr>c_table = ?t, c_dst = [], c_anchor = 0, c_ip = 0\<rparr>
      = Some \<lparr>c_table = ?t[0 := 1], c_dst = [], c_anchor = 0, c_ip = 1\<rparr>"
    by (simp add: compress_step_def Let_def read_u32_zeros del: replicate.simps)
  have "take_match ?src 22 \<lparr>c_table = ?t[0 := 2], c_dst = [], c_anchor = 0, c_ip = 1\<rparr> 0
      = Some \<lparr>c_table = ?t[0 := 26], c_dst = [31, 0, 1, 0, 7], c_anchor = 27, c_ip = 27\<rparr>"
    by (simp add: take_match_def Let_def read_u32_zeros extend_fwd.simps extend_back.simps emit_sequence_eq
        seq_bytes_def len_code_def extra_code_def le_bytes_def seq_token_def upt_rec del: replicate.simps) simp
  then have 2: "compress_step ?src 22 \<lparr>c_table = ?t[0 := 1], c_dst = [], c_anchor = 0, c_ip = Suc 0\<rparr>
      = Some \<lparr>c_table = ?t[0 := 26], c_dst = [31, 0, 1, 0, 7], c_anchor = 27, c_ip = 27\<rparr>"
    by (simp add: compress_step_def Let_def read_u32_zeros del: replicate.simps)
  have "replicate 5 0 = [0, 0, 0, 0, 0 :: u8]" by (simp add: numeral_eq_Suc)
  then show ?thesis
    by (simp add: compress_def hash_log_def compress_loop.simps 1 2 extra_bytes_def Let_def del: replicate.simps)
qed
section \<open>Properties\<close>

text \<open>C8: A block the compressor returns is strictly smaller than the input and decompresses to exactly
  the input, for every input; otherwise the compressor returns nothing. The search loop and both
  extension loops terminate.\<close>

theorem compress_roundtrip:
  "case compress src of
     None \<Rightarrow> True
   | Some c \<Rightarrow> length c < length src \<and> decompress c (length src) = Inr src"
  using compress_correct [of src] by (auto simp: decompress_def split: option.split)

theorem compress_roundtrip_witness:
  "decompress [31, 0, 1, 0, 7, 80, 0, 0, 0, 0, 0] 32 = Inr (replicate 32 0)"
  using compress_roundtrip [of "replicate 32 0"] by (simp add: compress_zeros)

text \<open>The size check made before the output is allocated never refuses a decodable block: whatever the
  decoder accepts into a buffer of \<open>n\<close> bytes, \<open>decompress\<close> accepts with expected length \<open>n\<close>. An
  accepted block fills its buffer exactly and expands by at most 255.\<close>

theorem decompress_check_complete:
  assumes "decompress_into src (replicate n 0) = Inr out" "n \<le> usize_max"
  shows "decompress src n = Inr out \<and> length out = n \<and> n \<le> 255 * length src"
proof -
  have b: "length out = n" "n \<le> 255 * length src" using decompress_into_bound [OF assms(1)] by simp_all
  then have "n \<le> expansion_ceiling (length src)"
    using assms(2) by (simp add: expansion_ceiling_def saturating_add_def saturating_mul_def)
  with b assms(1) show ?thesis by (simp add: decompress_def)
qed

theorem decompress_check_complete_witness:
  "decompress [16, 7] 1 = Inr [7]"
proof -
  have "decompress_into [16, 7] (replicate 1 0) = Inr [7]"
    by (simp add: decompress_into_def decompress_loop.simps literal_step_def read_len_def checked_add_def
        get_range_def put_range_def slice_def usize_max_def)
  from decompress_check_complete [OF this] show ?thesis by (simp add: usize_max_def)
qed

end
