(* ===== verification/Format.thy ===== *)
theory Format
  imports Granular_Prelude Hashing Lane_Codec Lz4 Utf8
begin

text \<open>
  The byte-level substrate of the files, \<^verbatim>\<open>src/persist/format.rs\<close>: the append-only writer, the
  bounds-checked reader, canonical varints, word arrays with their codec, checksummed frames, headers
  and footers. A writer is its buffer; a reader is a buffer and a cursor, and every read returns the
  value with the advanced reader, or the error. The target is little-endian, so reinterpreting bytes
  as words is \<open>to_u64_vec\<close>. The interface \<open>byte_codec\<close> is the round-trip contract: reading behind
  anything that was written before returns the value written and stops right after it.
\<close>

section \<open>Constants and the checksum\<close>

definition MAGIC :: bytes where
  "MAGIC = [71, 82, 65, 78, 85, 76, 82, 0]"

definition FORMAT_VERSION :: u32 where "FORMAT_VERSION = 4"
definition MIN_READ_VERSION :: u32 where "MIN_READ_VERSION = 4"

abbreviation (input) FOOTER_LEN :: nat where "FOOTER_LEN \<equiv> 28"
abbreviation (input) CHECKSUM_SEED :: u64 where "CHECKSUM_SEED \<equiv> 0x9AE16A3B2F90404F"
abbreviation (input) VARINT_MAX_LEN :: nat where "VARINT_MAX_LEN \<equiv> 10"
abbreviation (input) CODEC_NONE :: u8 where "CODEC_NONE \<equiv> 0"
abbreviation (input) CODEC_LZ4 :: u8 where "CODEC_LZ4 \<equiv> 1"
abbreviation (input) CODEC_MIN_SAVING :: nat where "CODEC_MIN_SAVING \<equiv> 8"

definition checksum :: "bytes \<Rightarrow> u64" where
  "checksum bs = mum (hash_bytes bs CHECKSUM_SEED XOR 0x2545F4914F6CDD1D) 0xD6E8FEB86659FD93"

section \<open>Writer\<close>

definition w_u8 :: "bytes \<Rightarrow> u8 \<Rightarrow> bytes" where "w_u8 w v = w @ [v]"
definition w_u16 :: "bytes \<Rightarrow> u16 \<Rightarrow> bytes" where "w_u16 w v = w @ le_bytes v"
definition w_u32 :: "bytes \<Rightarrow> u32 \<Rightarrow> bytes" where "w_u32 w v = w @ le_bytes v"
definition w_u64 :: "bytes \<Rightarrow> u64 \<Rightarrow> bytes" where "w_u64 w v = w @ le_bytes v"
definition w_raw :: "bytes \<Rightarrow> bytes \<Rightarrow> bytes" where "w_raw w bs = w @ bs"

function w_varint :: "bytes \<Rightarrow> u64 \<Rightarrow> bytes" where
  "w_varint w v =
     (if 0x80 \<le> v then w_varint (w @ [ucast v OR 0x80]) (drop_bit 7 v) else w @ [ucast v])"
  by pat_completeness auto
termination
proof (relation "measure (unat \<circ> snd)", goal_cases)
  case (2 w v)
  have "unat (drop_bit 7 v) = unat v div 2 ^ 7" by (subst unat_drop_bit_eq) (rule drop_bit_eq_div)
  moreover have "0 < unat v" using 2 by (simp add: word_le_nat_alt)
  ultimately show ?case by simp
qed simp

definition w_svarint :: "bytes \<Rightarrow> i64 \<Rightarrow> bytes" where "w_svarint w v = w_varint w (zz_enc v)"

definition w_bytes :: "bytes \<Rightarrow> bytes \<Rightarrow> bytes" where
  "w_bytes w bs = w_varint w (of_nat (length bs)) @ bs"

definition w_str :: "bytes \<Rightarrow> bytes \<Rightarrow> bytes" where "w_str w s = w_bytes w s"

text \<open>\<open>display\<close>: the fragments of a rendering go to a 96-byte stack buffer until one does not fit.\<close>

record display_sink =
  sink_buf :: bytes
  sink_spill :: bytes

definition write_frag :: "display_sink \<Rightarrow> bytes \<Rightarrow> display_sink" where
  "write_frag k s =
     (if sink_spill k \<noteq> [] then k\<lparr>sink_spill := sink_spill k @ s\<rparr>
      else if length (sink_buf k) + length s \<le> 96 then k\<lparr>sink_buf := sink_buf k @ s\<rparr>
      else k\<lparr>sink_spill := sink_buf k @ s\<rparr>)"

definition w_display :: "bytes \<Rightarrow> bytes list \<Rightarrow> bytes" where
  "w_display w frags =
     (let k = foldl write_frag \<lparr>sink_buf = [], sink_spill = []\<rparr> frags
      in if sink_spill k = [] then w_bytes w (sink_buf k) else w_bytes w (sink_spill k))"

definition w_words :: "bytes \<Rightarrow> u64 list \<Rightarrow> bytes" where
  "w_words w v = foldl w_u64 w v"

definition w_u64_slice :: "bytes \<Rightarrow> u64 list \<Rightarrow> bytes" where
  "w_u64_slice w v = w_words (w_varint w (of_nat (length v))) v"

definition w_u32_slice :: "bytes \<Rightarrow> u32 list \<Rightarrow> bytes" where
  "w_u32_slice w v = foldl w_u32 (w_varint w (of_nat (length v))) v"

definition w_align :: "bytes \<Rightarrow> nat \<Rightarrow> bytes" where
  "w_align w n =
     (if n \<le> 1 then w
      else let r = length w mod n in if r \<noteq> 0 then resize w (length w + (n - r)) 0 else w)"

definition w_u64_words :: "bytes \<Rightarrow> u64 list \<Rightarrow> bytes" where
  "w_u64_words w v = w_words (w_align (w_u8 (w_varint w (of_nat (length v))) CODEC_NONE) 8) v"

definition w_u64_words_coded :: "bytes \<Rightarrow> u64 list \<Rightarrow> bytes" where
  "w_u64_words_coded w v =
     (let w = w_varint w (of_nat (length v)); raw = concat (map le_bytes v)
      in case compress raw of
           Some c \<Rightarrow>
             if length c + length raw div CODEC_MIN_SAVING \<le> length raw
             then w_bytes (w_u8 w CODEC_LZ4) c
             else w_raw (w_align (w_u8 w CODEC_NONE) 8) raw
         | None \<Rightarrow> w_raw (w_align (w_u8 w CODEC_NONE) 8) raw)"

definition patch :: "bytes \<Rightarrow> nat \<Rightarrow> bytes \<Rightarrow> bytes result" where
  "patch w at le =
     (case checked_add at (length le) of
        None \<Rightarrow> Inl (Corruption ''patch offset overflow'')
      | Some end' \<Rightarrow>
          if get_range w at end' = None then Inl (Corruption ''patch is past end of buffer'')
          else Inr (put_range w at le))"

definition patch_u32 :: "bytes \<Rightarrow> nat \<Rightarrow> u32 \<Rightarrow> bytes result" where "patch_u32 w at v = patch w at (le_bytes v)"
definition patch_u64 :: "bytes \<Rightarrow> nat \<Rightarrow> u64 \<Rightarrow> bytes result" where "patch_u64 w at v = patch w at (le_bytes v)"

section \<open>Reader\<close>

record reader =
  buf :: bytes
  pos :: nat

type_synonym 'a read = "('a \<times> reader) result"

definition reader_new :: "bytes \<Rightarrow> reader" where "reader_new b = \<lparr>buf = b, pos = 0\<rparr>"

definition remaining :: "reader \<Rightarrow> nat" where "remaining r = length (buf r) - pos r"

definition r_take :: "reader \<Rightarrow> nat \<Rightarrow> bytes read" where
  "r_take r n =
     (case checked_add (pos r) n of
        None \<Rightarrow> Inl (Corruption ''read length overflows address space'')
      | Some end' \<Rightarrow>
        (case get_range (buf r) (pos r) end' of
           None \<Rightarrow> Inl (Corruption ''unexpected end of buffer'')
         | Some s \<Rightarrow> Inr (s, r\<lparr>pos := end'\<rparr>)))"

definition r_u8 :: "reader \<Rightarrow> u8 read" where
  "r_u8 r = rbind (r_take r 1) (\<lambda>(b, r). case b of x # _ \<Rightarrow> Inr (x, r) | [] \<Rightarrow> Inl (Corruption ''short read''))"

definition r_word :: "reader \<Rightarrow> nat \<Rightarrow> string \<Rightarrow> 'a::len word read" where
  "r_word r n msg =
     rbind (r_take r n) (\<lambda>(b, r). if length b = n then Inr (le_word b, r) else Inl (Corruption msg))"

definition r_u16 :: "reader \<Rightarrow> u16 read" where "r_u16 r = r_word r 2 ''short u16''"
definition r_u32 :: "reader \<Rightarrow> u32 read" where "r_u32 r = r_word r 4 ''short u32''"
definition r_u64 :: "reader \<Rightarrow> u64 read" where "r_u64 r = r_word r 8 ''short u64''"

lemma r_take_Inr: "r_take r n = Inr (s, r') \<longleftrightarrow>
    pos r + n \<le> usize_max \<and> pos r + n \<le> length (buf r) \<and> s = slice (buf r) (pos r) (pos r + n) \<and> r' = r\<lparr>pos := pos r + n\<rparr>"
  by (auto simp: r_take_def checked_add_def get_range_def split: option.splits if_splits)

lemma r_u8_Inr: "r_u8 r = Inr (b, r') \<longleftrightarrow>
    pos r + 1 \<le> usize_max \<and> pos r < length (buf r) \<and> b = buf r ! pos r \<and> r' = r\<lparr>pos := pos r + 1\<rparr>"
  by (auto simp: r_u8_def r_take_Inr slice_def take_Suc_conv_app_nth hd_drop_conv_nth split: list.splits)

function varint_loop :: "reader \<Rightarrow> u64 \<Rightarrow> nat \<Rightarrow> u64 read" where
  "varint_loop r out shift =
     (case r_u8 r of
        Inl e \<Rightarrow> Inl e
      | Inr (b, r) \<Rightarrow>
          if shift = (VARINT_MAX_LEN - 1) * 7
          then (if b = 1 then Inr (out OR push_bit 63 1, r)
                else if b = 0 then Inl (Corruption ''non-canonical varint: overlong encoding'')
                else Inl (Corruption ''varint overflows u64''))
          else let out = out OR push_bit shift (ucast (b AND 0x7F))
               in if b AND 0x80 = 0
                  then if shift > 0 \<and> b = 0 then Inl (Corruption ''non-canonical varint: trailing zero group'')
                       else Inr (out, r)
                  else varint_loop r out (shift + 7))"
  by pat_completeness auto
termination by (relation "measure (\<lambda>(r, out, shift). length (buf r) - pos r)") (auto simp: r_u8_Inr)

definition r_varint :: "reader \<Rightarrow> u64 read" where "r_varint r = varint_loop r 0 0"

definition r_svarint :: "reader \<Rightarrow> i64 read" where
  "r_svarint r = rbind (r_varint r) (\<lambda>(v, r). Inr (zz_dec v, r))"

definition r_bytes :: "reader \<Rightarrow> bytes read" where
  "r_bytes r =
     rbind (r_varint r) (\<lambda>(n, r).
       if n > of_nat (remaining r) then Inl (Corruption ''blob claims more bytes than remain'')
       else r_take r (unat n))"

definition r_str :: "reader \<Rightarrow> bytes read" where
  "r_str r = rbind (r_bytes r) (\<lambda>(b, r). rbind (from_utf8 b) (\<lambda>s. Inr (s, r)))"

definition checked_count :: "reader \<Rightarrow> nat \<Rightarrow> nat read" where
  "checked_count r elem_size =
     rbind (r_varint r) (\<lambda>(n, r).
       case checked_mul (unat n) elem_size of
         None \<Rightarrow> Inl (Corruption ''element count overflows a byte length'')
       | Some need \<Rightarrow> if need > remaining r then Inl (Corruption ''slice needs more bytes than remain'')
                      else Inr (unat n, r))"

definition to_u64_vec :: "bytes \<Rightarrow> u64 list" where
  "to_u64_vec b = map le_word (chunks_exact 8 b)"

definition r_u64_slice :: "reader \<Rightarrow> u64 list read" where
  "r_u64_slice r =
     rbind (checked_count r 8) (\<lambda>(n, r).
       rbind (r_take r (n * 8)) (\<lambda>(raw, r).
         rbind (rmap (\<lambda>c. if length c = 8 then Inr (le_word c) else Inl (Corruption ''short u64 word''))
                  (chunks_exact 8 raw)) (\<lambda>v. Inr (v, r))))"

definition r_u32_slice :: "reader \<Rightarrow> u32 list read" where
  "r_u32_slice r =
     rbind (checked_count r 4) (\<lambda>(n, r).
       rbind (r_take r (n * 4)) (\<lambda>(raw, r).
         rbind (rmap (\<lambda>c. if length c = 4 then Inr (le_word c) else Inl (Corruption ''short u32 word''))
                  (chunks_exact 4 raw)) (\<lambda>v. Inr (v, r))))"

definition seek :: "reader \<Rightarrow> nat \<Rightarrow> reader result" where
  "seek r p = (if p > length (buf r) then Inl (Corruption ''seek past end of buffer'') else Inr (r\<lparr>pos := p\<rparr>))"

definition skip :: "reader \<Rightarrow> nat \<Rightarrow> reader result" where
  "skip r n = rbind (r_take r n) (\<lambda>(_, r). Inr r)"

definition r_align :: "reader \<Rightarrow> nat \<Rightarrow> reader result" where
  "r_align r n =
     (if n \<le> 1 then Inr r
      else let k = pos r mod n in if k = 0 then Inr r else skip r (n - k))"

definition rest :: "reader \<Rightarrow> bytes" where "rest r = drop (pos r) (buf r)"

datatype words_view = Raw bytes | OwnedWords "u64 list"

definition words_len :: "words_view \<Rightarrow> nat" where
  "words_len v = (case v of Raw b \<Rightarrow> length b div 8 | OwnedWords ws \<Rightarrow> length ws)"

definition into_vec :: "words_view \<Rightarrow> u64 list" where
  "into_vec v = (case v of Raw b \<Rightarrow> to_u64_vec b | OwnedWords ws \<Rightarrow> ws)"

definition r_u64_words_coded :: "reader \<Rightarrow> words_view read" where
  "r_u64_words_coded r =
     rbind (r_varint r) (\<lambda>(n, r).
       case checked_mul (unat n) 8 of
         None \<Rightarrow> Inl (Corruption ''word count overflows a byte length'')
       | Some nbytes \<Rightarrow>
         rbind (r_u8 r) (\<lambda>(tag, r).
           if tag = CODEC_NONE
           then rbind (r_align r 8) (\<lambda>r. rbind (r_take r nbytes) (\<lambda>(b, r). Inr (Raw b, r)))
           else if tag = CODEC_LZ4
           then rbind (r_bytes r) (\<lambda>(block, r).
                  if nbytes > expansion_ceiling (length block)
                  then Inl (Corruption ''compressed array claims more words than its block can expand to'')
                  else rbind (decompress_into block (replicate nbytes 0))
                         (\<lambda>out. Inr (OwnedWords (to_u64_vec out), r)))
           else Inl (Corruption ''unknown word codec'')))"

section \<open>Frames, headers and footers\<close>

definition write_framed :: "bytes \<Rightarrow> bytes \<Rightarrow> bytes" where
  "write_framed w body = w_raw (w_u64 (w_varint w (of_nat (length body))) (checksum body)) body"

definition write_framed_aligned :: "bytes \<Rightarrow> bytes \<Rightarrow> bytes" where
  "write_framed_aligned w body =
     w_raw (w_align (w_u64 (w_varint w (of_nat (length body))) (checksum body)) 8) body"

definition finish_frame :: "reader \<Rightarrow> u64 \<Rightarrow> u64 \<Rightarrow> bytes read" where
  "finish_frame r len want =
     (if len > of_nat (remaining r) then Inl (Corruption ''framed section claims more bytes than remain'')
      else rbind (r_take r (unat len)) (\<lambda>(body, r).
             if checksum body \<noteq> want then Inl (Corruption ''checksum mismatch'') else Inr (body, r)))"

definition next_multiple_of :: "nat \<Rightarrow> nat \<Rightarrow> nat" where
  "next_multiple_of n k = div_ceil n k * k"

definition read_framed :: "reader \<Rightarrow> bytes read" where
  "read_framed r = rbind (r_varint r) (\<lambda>(len, r). rbind (r_u64 r) (\<lambda>(want, r). finish_frame r len want))"

definition read_framed_aligned :: "reader \<Rightarrow> bytes read" where
  "read_framed_aligned r =
     rbind (r_varint r) (\<lambda>(len, r). rbind (r_u64 r) (\<lambda>(want, r).
       rbind (r_take r (next_multiple_of (pos r) 8 - pos r)) (\<lambda>(pad, r).
         if list_ex (\<lambda>b. b \<noteq> 0) pad then Inl (Corruption ''frame alignment padding is not zero'')
         else finish_frame r len want)))"

datatype artifact = Database | Archive

definition version_skew :: "u32 \<Rightarrow> artifact \<Rightarrow> error" where
  "version_skew found what =
     Version (if found > FORMAT_VERSION
       then (case what of Database \<Rightarrow> ''this database'' | Archive \<Rightarrow> ''this archive'')
              @ '' was written by a newer on-disk format version: upgrade''
       else (case what of Database \<Rightarrow> ''this database'' | Archive \<Rightarrow> ''this archive'')
              @ '' was written by an older on-disk format version. ''
              @ (case what of Database \<Rightarrow> ''The data directory must be recreated with this build''
                 | Archive \<Rightarrow> ''The archive is intact: take a fresh backup with this one''))"

definition write_header :: "bytes \<Rightarrow> bytes" where
  "write_header w = w_u32 (w_raw w MAGIC) FORMAT_VERSION"

definition read_header_of :: "reader \<Rightarrow> artifact \<Rightarrow> u32 read" where
  "read_header_of r what =
     rbind (r_take r (length MAGIC)) (\<lambda>(m, r).
       if m \<noteq> MAGIC then Inl (Corruption ''bad magic'')
       else rbind (r_u32 r) (\<lambda>(v, r).
              if v < MIN_READ_VERSION \<or> v > FORMAT_VERSION then Inl (version_skew v what) else Inr (v, r)))"

definition read_header :: "reader \<Rightarrow> u32 read" where "read_header r = read_header_of r Database"

definition write_footer :: "bytes \<Rightarrow> u64 \<Rightarrow> bytes" where
  "write_footer w meta_offset =
     (let start = length w;
          w = w_u32 (w_u64 w meta_offset) FORMAT_VERSION;
          ck = checksum (drop start w)
      in w_raw (w_u64 w ck) MAGIC)"

definition read_footer_of :: "bytes \<Rightarrow> artifact \<Rightarrow> u64 result" where
  "read_footer_of b what =
     (if length b < FOOTER_LEN then Inl (Corruption ''file is shorter than the footer'')
      else rbind (seek (reader_new b) (length b - FOOTER_LEN)) (\<lambda>r.
        let start = pos r
        in rbind (r_u64 r) (\<lambda>(off, r). rbind (r_u32 r) (\<lambda>(ver, r). rbind (r_u64 r) (\<lambda>(want, r).
             rbind (r_take r (length MAGIC)) (\<lambda>(m, r).
               if m \<noteq> MAGIC then Inl (Corruption ''missing trailing magic: file is truncated or not a part'')
               else case get_range b start (start + 12) of
                      None \<Rightarrow> Inl (Corruption ''footer body out of range'')
                    | Some covered \<Rightarrow>
                        if checksum covered \<noteq> want then Inl (Corruption ''footer checksum mismatch'')
                        else if ver < MIN_READ_VERSION \<or> ver > FORMAT_VERSION then Inl (version_skew ver what)
                        else if off > of_nat (length b - FOOTER_LEN)
                        then Inl (Corruption ''metadata offset points past the footer'')
                        else Inr off))))))"

definition read_footer :: "bytes \<Rightarrow> u64 result" where "read_footer b = read_footer_of b Database"

declare w_varint.simps [simp del] varint_loop.simps [simp del]

section \<open>The round-trip contract\<close>

abbreviation behind :: "bytes \<Rightarrow> bytes \<Rightarrow> reader" where
  "behind w b \<equiv> \<lparr>buf = b, pos = length w\<rparr>"

locale byte_codec =
  fixes wr :: "bytes \<Rightarrow> 'a \<Rightarrow> bytes"
    and rd :: "reader \<Rightarrow> 'a read"
    and ok :: "'a \<Rightarrow> bool"
  assumes wr_extends: "\<exists>e. wr w x = w @ e"
    and rd_wr: "ok x \<Longrightarrow> length (wr w x @ z) \<le> usize_max \<Longrightarrow>
      rd (behind w (wr w x @ z)) = Inr (x, behind (wr w x) (wr w x @ z))"
begin

text \<open>A run of values reads back as the run, whatever follows.\<close>

fun rd_n :: "nat \<Rightarrow> reader \<Rightarrow> 'a list read" where
  "rd_n 0 r = Inr ([], r)"
| "rd_n (Suc n) r = rbind (rd r) (\<lambda>(x, r). rbind (rd_n n r) (\<lambda>(xs, r). Inr (x # xs, r)))"

lemma wr_all_extends: "\<exists>e. foldl wr w xs = w @ e"
proof (induction xs arbitrary: w)
  case (Cons x xs)
  then show ?case using wr_extends [of w x] by (metis append.assoc foldl_Cons)
qed simp

lemma rd_n_wr_all:
  assumes "\<forall>x \<in> set xs. ok x" "length (foldl wr w xs @ z) \<le> usize_max"
  shows "rd_n (length xs) (behind w (foldl wr w xs @ z)) = Inr (xs, behind (foldl wr w xs) (foldl wr w xs @ z))"
  using assms
proof (induction xs arbitrary: w)
  case (Cons x xs)
  obtain e where e: "foldl wr (wr w x) xs = wr w x @ e" using wr_all_extends by blast
  have "rd (behind w (foldl wr w (x # xs) @ z)) = Inr (x, behind (wr w x) (foldl wr w (x # xs) @ z))"
    using rd_wr [of x w "e @ z"] Cons.prems by (simp add: e)
  moreover have "rd_n (length xs) (behind (wr w x) (foldl wr (wr w x) xs @ z))
      = Inr (xs, behind (foldl wr (wr w x) xs) (foldl wr (wr w x) xs @ z))"
    using Cons.IH [of "wr w x"] Cons.prems by simp
  ultimately show ?case by simp
qed simp

text \<open>No encoding is a prefix of another: the value can be told from the bytes.\<close>

lemma prefix_free:
  assumes "wr w x @ z = wr w y @ z'" "ok x" "ok y" "length (wr w x @ z) \<le> usize_max"
  shows "x = y" "z = z'"
proof -
  have "Inr (x, behind (wr w x) (wr w x @ z)) = (Inr (y, behind (wr w y) (wr w x @ z)) :: 'a read)"
    using rd_wr [OF assms(2,4)] rd_wr [of y w z'] assms by simp
  then show "x = y" by simp
  with assms(1) show "z = z'" by simp
qed

end

section \<open>Fixed-width values and blobs\<close>

lemma take_run:
  "length (w @ s @ z) \<le> usize_max \<Longrightarrow> r_take (behind w (w @ s @ z)) (length s) = Inr (s, behind (w @ s) (w @ s @ z))"
  by (simp add: r_take_Inr slice_def)

lemma r_word_run:
  assumes "length (w @ le_bytes v @ z) \<le> usize_max" "8 dvd LENGTH('a::len)" "n = LENGTH('a) div 8"
  shows "r_word (behind w (w @ le_bytes (v :: 'a word) @ z)) n m
    = Inr (v, behind (w @ le_bytes v) (w @ le_bytes v @ z))"
  using take_run [OF assms(1)] assms(2,3) by (simp add: r_word_def)

lemma r_u8_run:
  "length (w @ [x] @ z) \<le> usize_max \<Longrightarrow> r_u8 (behind w (w @ [x] @ z)) = Inr (x, behind (w @ [x]) (w @ [x] @ z))"
  using take_run [of w "[x]" z] by (simp add: r_u8_def)

interpretation u8_codec: byte_codec w_u8 r_u8 "\<lambda>_. True"
proof unfold_locales
  show "r_u8 (behind w (w_u8 w x @ z)) = Inr (x, behind (w_u8 w x) (w_u8 w x @ z))"
    if "length (w_u8 w x @ z) \<le> usize_max" for x w z
    using that r_u8_run [of w x z] by (simp add: w_u8_def)
qed (simp add: w_u8_def)

interpretation u16_codec: byte_codec w_u16 r_u16 "\<lambda>_. True"
proof unfold_locales
  show "r_u16 (behind w (w_u16 w x @ z)) = Inr (x, behind (w_u16 w x) (w_u16 w x @ z))"
    if "length (w_u16 w x @ z) \<le> usize_max" for x w z
    using that unfolding w_u16_def r_u16_def append_assoc by (rule r_word_run) simp_all
qed (simp add: w_u16_def)

interpretation u32_codec: byte_codec w_u32 r_u32 "\<lambda>_. True"
proof unfold_locales
  show "r_u32 (behind w (w_u32 w x @ z)) = Inr (x, behind (w_u32 w x) (w_u32 w x @ z))"
    if "length (w_u32 w x @ z) \<le> usize_max" for x w z
    using that unfolding w_u32_def r_u32_def append_assoc by (rule r_word_run) simp_all
qed (simp add: w_u32_def)

interpretation u64_codec: byte_codec w_u64 r_u64 "\<lambda>_. True"
proof unfold_locales
  show "r_u64 (behind w (w_u64 w x @ z)) = Inr (x, behind (w_u64 w x) (w_u64 w x @ z))"
    if "length (w_u64 w x @ z) \<le> usize_max" for x w z
    using that unfolding w_u64_def r_u64_def append_assoc by (rule r_word_run) simp_all
qed (simp add: w_u64_def)

section \<open>Canonical varints\<close>

abbreviation varint_bytes :: "u64 \<Rightarrow> bytes" where "varint_bytes v \<equiv> w_varint [] v"

lemma unat_drop_7: "unat (drop_bit 7 (v :: u64)) = unat v div 128"
  using unat_drop_bit_eq [of 7 v] drop_bit_eq_div [of 7 "unat v"] by simp

lemma w_varint_eq: "w_varint w v = w @ varint_bytes v"
proof (induction v arbitrary: w rule: measure_induct_rule [of unat])
  case (less v)
  show ?case
  proof (cases "0x80 \<le> v")
    case True
    then have "unat (drop_bit 7 v) < unat v" unfolding unat_drop_7 by (simp add: word_le_nat_alt)
    from less.IH [OF this, of "w @ [ucast v OR 0x80]"] less.IH [OF this, of "[ucast v OR 0x80]"] True
    show ?thesis using w_varint.simps [of w v] w_varint.simps [of "[]" v] by simp
  next
    case False
    then show ?thesis using w_varint.simps [of w v] w_varint.simps [of "[]" v] by simp
  qed
qed

lemma varint_bytes_small: "v < 0x80 \<Longrightarrow> varint_bytes v = [ucast v]"
  using w_varint.simps [of "[]" v] by (simp add: not_le [symmetric])

lemma varint_bytes_big: "0x80 \<le> v \<Longrightarrow> varint_bytes v = (ucast v OR 0x80) # varint_bytes (drop_bit 7 v)"
  using w_varint.simps [of "[]" v] w_varint_eq [of "[ucast v OR 0x80]" "drop_bit 7 v"] by simp

text \<open>The seven payload bits and the continuation bit of a group.\<close>

lemma bit_128: "bit (0x80 :: u8) k \<longleftrightarrow> k = 7"
proof -
  have "bit (2 ^ 7 :: u8) k \<longleftrightarrow> k = 7" by (subst bit_exp_iff) (auto simp: possible_bit_def)
  moreover have "(2 ^ 7 :: u8) = 0x80" by simp
  ultimately show ?thesis by (simp only:)
qed

lemma group_bits:
  fixes b :: u8
  shows "b AND 0x7F = take_bit 7 b" "b AND 0x80 = 0 \<longleftrightarrow> \<not> bit b 7"
proof -
  show "b AND 0x7F = take_bit 7 b"
    by (simp add: take_bit_eq_mask mask_eq_exp_minus_1)
  have "b AND 0x80 = (if bit b 7 then 0x80 else 0)"
  proof (rule bit_word_eqI)
    show "bit (b AND 0x80) n = bit (if bit b 7 then 0x80 else 0 :: u8) n" for n
      by (cases "n = 7") (simp_all only: bit_and_iff bit_128 if_distrib if_distribR bit_0_eq bot_apply
          bot_bool_def simp_thms if_True if_False split: if_split)
  qed
  then show "b AND 0x80 = 0 \<longleftrightarrow> \<not> bit b 7" by simp
qed

lemma group_payload:
  "ucast (take_bit 7 (ucast (v :: u64) OR 0x80 :: u8)) = take_bit 7 v"
  "ucast (take_bit 7 (ucast (v :: u64) :: u8)) = take_bit 7 v"
  by (rule bit_word_eqI, auto simp: bit_simps bit_128)+

lemma bit_ucast_small:
  assumes "(v :: u64) < 0x80"
  shows "\<not> bit (ucast v :: u8) 7" "ucast (take_bit 7 (ucast v :: u8)) = v"
proof -
  have "unat v < 2 ^ 7" using assms by (simp add: word_less_nat_alt)
  then have k: "bit v k \<Longrightarrow> k < 7" for k by (rule bit_width)
  then show "\<not> bit (ucast v :: u8) 7" "ucast (take_bit 7 (ucast v :: u8)) = v"
    by (fastforce simp: bit_unsigned_iff bit_take_bit_iff intro!: bit_word_eqI)+
qed

lemma regroup: "(out OR push_bit s (take_bit 7 v)) OR push_bit (s + 7) (drop_bit 7 v) = out OR push_bit s (v :: u64)"
proof (rule bit_word_eqI)
  fix n
  have "s + 7 \<le> n \<Longrightarrow> 7 + (n - (s + 7)) = n - s" by simp
  then show "bit ((out OR push_bit s (take_bit 7 v)) OR push_bit (s + 7) (drop_bit 7 v)) n = bit (out OR push_bit s v) n"
    by (cases "s + 7 \<le> n") (auto simp: bit_or_iff bit_push_bit_iff bit_take_bit_iff bit_drop_bit_eq)
qed

lemma varint_loop_run:
  assumes "s \<le> 63" "7 dvd s" "unat v < 2 ^ (64 - s)" "s = 0 \<or> v \<noteq> 0"
    and "length (w @ varint_bytes v @ z) \<le> usize_max"
  shows "varint_loop (behind w (w @ varint_bytes v @ z)) out s
    = Inr (out OR push_bit s v, behind (w @ varint_bytes v) (w @ varint_bytes v @ z))"
  using assms
proof (induction v arbitrary: w out s rule: measure_induct_rule [of unat])
  case (less v)
  show ?case
  proof (cases "s = 63")
    case True
    with less.prems have "unat v = 1" by (simp add: unat_eq_0 [symmetric] del: unat_eq_0)
    then have "v = 1" by (metis unat_1 word_unat_eq_iff)
    with True less.prems(5) show ?thesis
      by (subst varint_loop.simps) (simp add: varint_bytes_small r_u8_def r_take_def checked_add_def get_range_def slice_def)
  next
    case False
    with less.prems(1,2) have s: "s + 7 \<le> 63" by (auto elim!: dvdE)
    show ?thesis
    proof (cases "0x80 \<le> v")
      case small: False
      then have v: "v < 0x80" by simp
      have "r_u8 (behind w (w @ [ucast v] @ z)) = Inr (ucast v, behind (w @ [ucast v]) (w @ [ucast v] @ z))"
        using less.prems(5) by (intro r_u8_run) (simp add: varint_bytes_small [OF v])
      moreover have "ucast v = (0 :: u8) \<Longrightarrow> v = 0" using bit_ucast_small(2) [OF v] by simp
      ultimately show ?thesis
        using False less.prems(4) bit_ucast_small [OF v] unfolding varint_bytes_small [OF v]
        by (subst varint_loop.simps) (auto simp: group_bits)
    next
      case True
      define v' where "v' = drop_bit 7 v"
      let ?b = "ucast v OR 0x80 :: u8" and ?w = "w @ [ucast v OR 0x80]"
      have v': "unat v' = unat v div 128" by (simp only: v'_def unat_drop_7)
      have lt: "unat v' < unat v" "v' \<noteq> 0" using True v' by (auto simp: word_le_nat_alt)
      have enc: "w @ varint_bytes v @ z = ?w @ varint_bytes v' @ z" by (simp add: varint_bytes_big [OF True] v'_def)
      have "r_u8 (behind w (w @ [?b] @ varint_bytes v' @ z)) = Inr (?b, behind ?w (w @ [?b] @ varint_bytes v' @ z))"
        using less.prems(5) unfolding enc by (intro r_u8_run) simp
      moreover have "bit ?b 7" by (simp only: bit_or_iff bit_128 simp_thms)
      moreover have "64 - s = (64 - (s + 7)) + 7" using s by simp
      then have "(2 :: nat) ^ (64 - s) = 2 ^ (64 - (s + 7)) * 128" by (simp only: power_add) simp
      then have "unat v' < 2 ^ (64 - (s + 7))" using less.prems(3) v' by (simp add: less_mult_imp_div_less)
      then have "varint_loop (behind ?w (?w @ varint_bytes v' @ z)) (out OR push_bit s (take_bit 7 v)) (s + 7)
          = Inr (out OR push_bit s v, behind (?w @ varint_bytes v') (?w @ varint_bytes v' @ z))"
        using less.IH [OF lt(1), of "s + 7" ?w "out OR push_bit s (take_bit 7 v)"] s less.prems(2,5) lt(2)
          regroup [of out s v] unfolding enc by (simp add: v'_def [symmetric])
      ultimately show ?thesis
        using False unfolding enc
        by (subst varint_loop.simps) (simp add: group_bits group_payload varint_bytes_big [OF True] v'_def [symmetric])
    qed
  qed
qed

interpretation varint_codec: byte_codec w_varint r_varint "\<lambda>_. True"
proof unfold_locales
  show "\<exists>e. w_varint w x = w @ e" for w x using w_varint_eq by blast
  show "r_varint (behind w (w_varint w x @ z)) = Inr (x, behind (w_varint w x) (w_varint w x @ z))"
    if "length (w_varint w x @ z) \<le> usize_max" for x w z
    using that varint_loop_run [of 0 x w z 0] unat_u64_less [of x]
    unfolding r_varint_def w_varint_eq [of w x] append_assoc by simp
qed

interpretation svarint_codec: byte_codec w_svarint r_svarint "\<lambda>_. True"
proof unfold_locales
  show "\<exists>e. w_svarint w x = w @ e" for w x unfolding w_svarint_def by (rule varint_codec.wr_extends)
  show "r_svarint (behind w (w_svarint w x @ z)) = Inr (x, behind (w_svarint w x) (w_svarint w x @ z))"
    if "length (w_svarint w x @ z) \<le> usize_max" for x w z
    using varint_codec.rd_wr [of w "zz_enc x" z] that by (simp add: r_svarint_def w_svarint_def zz_dec_enc)
qed

text \<open>Whatever the reader accepts is the one encoding of the value it returns.\<close>

lemma regroup_byte:
  fixes b :: u8 and v :: u64
  assumes "bit b 7" "v \<noteq> 0" "unat v < 2 ^ 57"
  defines "u \<equiv> ucast (take_bit 7 b) OR push_bit 7 v"
  shows "0x80 \<le> u" "ucast u OR 0x80 = b" "drop_bit 7 u = v"
proof -
  have vb: "bit v k \<Longrightarrow> k < 57" for k using assms(3) by (rule bit_width)
  show d: "drop_bit 7 u = v"
    by (rule bit_word_eqI) (auto simp: u_def bit_drop_bit_eq bit_or_iff bit_unsigned_iff bit_take_bit_iff
        bit_push_bit_iff dest: vb)
  show "0x80 \<le> u"
  proof (rule ccontr)
    assume "\<not> 0x80 \<le> u"
    then have "unat u < 128" by (simp add: word_le_nat_alt)
    then have "unat (drop_bit 7 u) = 0" unfolding unat_drop_7 by simp
    with d assms(2) show False by (simp add: unat_eq_0)
  qed
  show "ucast u OR 0x80 = b"
  proof (rule bit_word_eqI)
    fix n :: nat assume "n < LENGTH(8)"
    then have "n < 7 \<or> n = 7" by auto
    then show "bit (ucast u OR 0x80 :: u8) n = bit b n"
      using assms(1) by (elim disjE)
        (simp_all add: bit_or_iff bit_128 u_def bit_unsigned_iff bit_take_bit_iff bit_push_bit_iff
          del: bit_numeral_word_iff)
  qed
qed

lemma varint_loop_canonical:
  assumes "varint_loop r out s = Inr (v, r')" "7 dvd s" "s \<le> 63"
  shows "\<exists>u. v = out OR push_bit s u \<and> unat u < 2 ^ (64 - s) \<and> (s = 0 \<or> u \<noteq> 0) \<and> buf r' = buf r \<and>
    pos r' = pos r + length (varint_bytes u) \<and> pos r' \<le> length (buf r) \<and>
    slice (buf r) (pos r) (pos r') = varint_bytes u"
  using assms
proof (induction r out s rule: varint_loop.induct)
  case (1 r out s)
  from 1(2) obtain b r1 where b: "r_u8 r = Inr (b, r1)"
    by (subst (asm) varint_loop.simps) (auto split: sum.splits)
  then have b': "b = buf r ! pos r" "pos r < length (buf r)" "r1 = r\<lparr>pos := pos r + 1\<rparr>"
    by (simp_all add: r_u8_Inr)
  have one: "slice (buf r) (pos r) (pos r + 1) = [b]"
    using b' by (simp add: slice_def take_Suc_conv_app_nth)
  show ?case
  proof (cases "s = 63")
    case True
    with 1(2) b have "b = 1" "v = out OR push_bit 63 1" "r' = r1"
      by (subst (asm) varint_loop.simps, simp split: if_splits)+
    with True b' one show ?thesis
      by (intro exI [of _ 1]) (simp add: varint_bytes_small)
  next
    case False
    with 1(3,4) have s: "s + 7 \<le> 63" by (auto elim!: dvdE)
    show ?thesis
    proof (cases "bit b 7")
      case False
      with 1(2) b \<open>s \<noteq> 63\<close> have v: "v = out OR push_bit s (ucast (take_bit 7 b))" "r' = r1" "s = 0 \<or> b \<noteq> 0"
        by (subst (asm) varint_loop.simps, simp add: group_bits split: if_splits)+
      have tb: "take_bit 7 b = b"
        by (rule bit_word_eqI) (use False in \<open>auto simp: bit_take_bit_iff less_Suc_eq numeral_eq_Suc\<close>)
      have "unat (take_bit 7 b) < 2 ^ 7" unfolding unsigned_take_bit_eq by (rule take_bit_nat_less_exp)
      then have "unat (ucast b :: u64) < 128" unfolding tb by (simp add: unsigned_ucast_eq take_bit_nat_eq_self)
      moreover have "ucast (ucast b :: u64) = b"
        by (rule bit_word_eqI) (simp add: bit_unsigned_iff)
      ultimately have small: "(ucast b :: u64) < 0x80" "ucast (ucast b :: u64) = b" "unat (ucast b :: u64) < 128"
        by (simp_all add: word_less_nat_alt)
      have "(2 :: nat) ^ 7 \<le> 2 ^ (64 - s)" using s by (intro power_increasing) simp_all
      then have "unat (ucast b :: u64) < 2 ^ (64 - s)" using small(3) by simp
      moreover have "ucast b = (0 :: u64) \<Longrightarrow> b = 0" using small(2) by simp
      ultimately show ?thesis
        using v b' one varint_bytes_small [OF small(1)] unfolding tb small(2)
        by (intro exI [of _ "ucast b"]) auto
    next
      case True
      define out1 where "out1 = out OR push_bit s (ucast (take_bit 7 b))"
      have rec: "varint_loop r1 out1 (s + 7) = Inr (v, r')"
        using 1(2) b True \<open>s \<noteq> 63\<close> by (subst (asm) varint_loop.simps) (simp add: group_bits out1_def)
      have "\<exists>u. v = out1 OR push_bit (s + 7) u \<and> unat u < 2 ^ (64 - (s + 7)) \<and> (s + 7 = 0 \<or> u \<noteq> 0) \<and> buf r' = buf r1 \<and>
          pos r' = pos r1 + length (varint_bytes u) \<and> pos r' \<le> length (buf r1) \<and>
          slice (buf r1) (pos r1) (pos r') = varint_bytes u"
        by (rule 1(1) [OF b refl _ out1_def [folded group_bits(1)]])
          (use True rec 1(3) s \<open>s \<noteq> 63\<close> in \<open>simp_all add: group_bits\<close>)
      then obtain u where u: "v = out1 OR push_bit (s + 7) u" "unat u < 2 ^ (64 - (s + 7))" "u \<noteq> 0" "buf r' = buf r"
        "pos r' = pos r + 1 + length (varint_bytes u)" "pos r' \<le> length (buf r)"
        "slice (buf r) (pos r + 1) (pos r') = varint_bytes u" by (auto simp: b')
      define x where "x = ucast (take_bit 7 b) OR push_bit 7 u"
      have "(2 :: nat) ^ (64 - (s + 7)) \<le> 2 ^ 57" by (intro power_increasing) simp_all
      then have "unat u < 2 ^ 57" using u(2) by linarith
      note x = regroup_byte [OF True u(3) this, folded x_def]
      have enc: "varint_bytes x = b # varint_bytes u" using varint_bytes_big [OF x(1)] by (simp add: x(2,3))
      have "64 - s = (64 - (s + 7)) + 7" using s by simp
      then have p: "(2 :: nat) ^ (64 - s) = 2 ^ (64 - (s + 7)) * 128" by (simp only: power_add) simp
      have "unat x div 128 < 2 ^ (64 - (s + 7))" using u(2) unat_drop_7 [of x] by (simp only: x(3))
      then have "unat x < 2 ^ (64 - s)" unfolding p by (simp add: div_less_iff_less_mult)
      moreover have "v = out OR push_bit s x"
        unfolding u(1) out1_def x_def push_bit_or push_bit_push_bit by (simp add: or.assoc)
      moreover have "slice (buf r) (pos r) (pos r') = varint_bytes x"
        using slice_append [of "pos r" "pos r + 1" "pos r'" "buf r"] one u(5,7) by (simp add: enc)
      moreover have "x \<noteq> 0" using x(1) by auto
      ultimately show ?thesis using u(4-6) by (intro exI [of _ x]) (simp add: enc)
    qed
  qed
qed

lemma r_varint_canonical:
  assumes "r_varint r = Inr (v, r')"
  shows "buf r' = buf r" "slice (buf r) (pos r) (pos r') = varint_bytes v"
    "pos r' = pos r + length (varint_bytes v)" "pos r' \<le> length (buf r)"
  using varint_loop_canonical [of r 0 0 v r'] assms by (auto simp: r_varint_def)

section \<open>Blobs, strings and slices\<close>

interpretation bytes_codec: byte_codec w_bytes r_bytes "\<lambda>_. True"
proof unfold_locales
  show "\<exists>e. w_bytes w x = w @ e" for w x unfolding w_bytes_def w_varint_eq [of w] by simp
  show "r_bytes (behind w (w_bytes w x @ z)) = Inr (x, behind (w_bytes w x) (w_bytes w x @ z))"
    if len: "length (w_bytes w x @ z) \<le> usize_max" for x w z
  proof -
    let ?n = "of_nat (length x) :: u64"
    have small: "length x < 2 ^ 64" "length x + length z < 2 ^ 64"
      using len by (simp_all add: w_bytes_def usize_max_def)
    then have n: "unat ?n = length x" by (simp add: unat_of_nat)
    have "r_varint (behind w (w_varint w ?n @ x @ z)) = Inr (?n, behind (w_varint w ?n) (w_varint w ?n @ x @ z))"
      using varint_codec.rd_wr [of w ?n "x @ z"] len by (simp add: w_bytes_def)
    moreover have "\<not> ?n > of_nat (length x + length z)"
      using small by (simp add: not_less word_le_nat_alt unat_of_nat del: of_nat_add)
    moreover have "r_take (behind (w_varint w ?n) (w_varint w ?n @ x @ z)) (length x)
        = Inr (x, behind (w_varint w ?n @ x) (w_varint w ?n @ x @ z))"
      using len by (intro take_run) (simp add: w_bytes_def)
    ultimately show ?thesis by (simp add: r_bytes_def w_bytes_def remaining_def n)
  qed
qed

interpretation str_codec: byte_codec w_str r_str utf8_valid
proof unfold_locales
  show "\<exists>e. w_str w x = w @ e" for w x unfolding w_str_def by (rule bytes_codec.wr_extends)
  show "r_str (behind w (w_str w x @ z)) = Inr (x, behind (w_str w x) (w_str w x @ z))"
    if "utf8_valid x" "length (w_str w x @ z) \<le> usize_max" for x w z
    using bytes_codec.rd_wr [of w x z] that by (simp add: r_str_def w_str_def from_utf8_def)
qed

text \<open>\<open>display\<close> writes the concatenation of its fragments, spilled or not.\<close>

lemma write_frag_inv:
  "(if sink_spill k = [] then sink_buf k else sink_spill k) @ s
     = (let k' = write_frag k s in if sink_spill k' = [] then sink_buf k' else sink_spill k')"
  by (auto simp: write_frag_def Let_def)

lemma w_display_eq: "w_display w frags = w_bytes w (concat frags)"
proof -
  have "(let k' = foldl write_frag k frags in if sink_spill k' = [] then sink_buf k' else sink_spill k')
      = (if sink_spill k = [] then sink_buf k else sink_spill k) @ concat frags" for k
  proof (induction frags arbitrary: k)
    case (Cons s frags)
    then show ?case using write_frag_inv [of k s] by (simp add: Let_def)
  qed (simp add: Let_def)
  from this [of "\<lparr>sink_buf = [], sink_spill = []\<rparr>"] show ?thesis
    by (auto simp: w_display_def Let_def split: if_splits)
qed

lemma foldl_append: "foldl (\<lambda>w x. w @ f x) w xs = w @ concat (map f xs)"
  by (induction xs arbitrary: w) auto

lemma w_words_eq: "w_words w v = w @ concat (map le_bytes v)"
  unfolding w_words_def w_u64_def [abs_def] by (rule foldl_append)

lemma chunks_words:
  assumes "8 dvd LENGTH('a::len)" "n = LENGTH('a) div 8" "0 < n"
  shows "chunks_exact n (concat (map le_bytes (v :: 'a word list))) = map le_bytes v"
  using assms by (intro chunks_exact_concat) auto

lemma to_u64_vec_words [simp]: "to_u64_vec (concat (map le_bytes v)) = v"
  using chunks_words [of 8 v] by (simp add: to_u64_vec_def o_def)

lemma length_concat_words: "length (concat (map le_bytes (v :: 'a::len word list))) = length v * (LENGTH('a) div 8)"
  by (induction v) simp_all

text \<open>Reading back a counted array of fixed-width words.\<close>

lemma checked_count_run:
  assumes "length (w_varint w (of_nat n) @ body) \<le> usize_max" "n * k \<le> length body" "0 < k"
  shows "checked_count (behind w (w_varint w (of_nat n) @ body)) k
    = Inr (n, behind (w_varint w (of_nat n)) (w_varint w (of_nat n) @ body))"
proof -
  have "n \<le> n * k" using assms(3) by simp
  moreover have "n * k \<le> usize_max" using assms(1,2) by simp
  ultimately have "n \<le> usize_max" by (rule le_trans)
  then have "n < 2 ^ 64" by (simp add: usize_max_def)
  then have "unat (of_nat n :: u64) = n" by (simp add: unat_of_nat)
  with varint_codec.rd_wr [of w "of_nat n" body] assms \<open>n * k \<le> usize_max\<close> show ?thesis
    by (simp add: checked_count_def checked_mul_def remaining_def)
qed

lemma word_slice_run:
  fixes v :: "'a::len word list"
  assumes w8: "8 dvd LENGTH('a)" "k = LENGTH('a) div 8" "0 < k"
    and len: "length (w_varint w (of_nat (length v)) @ concat (map le_bytes v) @ z) \<le> usize_max"
  defines "b \<equiv> w_varint w (of_nat (length v)) @ concat (map le_bytes v)"
  shows "rbind (checked_count (behind w (b @ z)) k) (\<lambda>(n, r).
       rbind (r_take r (n * k)) (\<lambda>(raw, r).
         rbind (rmap (\<lambda>c. if length c = k then Inr (le_word c) else Inl (Corruption m)) (chunks_exact k raw))
           (\<lambda>v. Inr (v, r)))) = Inr (v, behind b (b @ z))"
proof -
  have lc: "length (concat (map le_bytes v)) = length v * k" by (simp add: length_concat_words w8(2))
  have "checked_count (behind w (b @ z)) k = Inr (length v, behind (w_varint w (of_nat (length v))) (b @ z))"
    using checked_count_run [of w "length v" "concat (map le_bytes v) @ z" k] len lc w8(3)
    by (simp add: b_def)
  moreover have "r_take (behind (w_varint w (of_nat (length v))) (b @ z)) (length v * k)
      = Inr (concat (map le_bytes v), behind b (b @ z))"
    using take_run [of "w_varint w (of_nat (length v))" "concat (map le_bytes v)" z] len lc by (simp add: b_def)
  moreover have "rmap (\<lambda>c. if length c = k then Inr (le_word c) else Inl (Corruption m)) (map le_bytes v) = Inr v"
    using w8 by (induction v) auto
  moreover have "chunks_exact k (concat (map le_bytes v)) = map le_bytes v" by (rule chunks_words [OF w8])
  ultimately show ?thesis by simp
qed

interpretation u64s_codec: byte_codec w_u64_slice r_u64_slice "\<lambda>_. True"
proof unfold_locales
  have eq: "w_u64_slice w v = w_varint w (of_nat (length v)) @ concat (map le_bytes v)" for w v
    by (simp add: w_u64_slice_def w_words_eq)
  show "\<exists>e. w_u64_slice w x = w @ e" for w x unfolding eq w_varint_eq [of w] by simp
  show "r_u64_slice (behind w (w_u64_slice w x @ z)) = Inr (x, behind (w_u64_slice w x) (w_u64_slice w x @ z))"
    if "length (w_u64_slice w x @ z) \<le> usize_max" for x w z
    using that unfolding eq r_u64_slice_def append_assoc [symmetric] by (intro word_slice_run) simp_all
qed

interpretation u32s_codec: byte_codec w_u32_slice r_u32_slice "\<lambda>_. True"
proof unfold_locales
  have eq: "w_u32_slice w v = w_varint w (of_nat (length v)) @ concat (map le_bytes v)" for w v
    by (simp add: w_u32_slice_def w_u32_def [abs_def] foldl_append)
  show "\<exists>e. w_u32_slice w x = w @ e" for w x unfolding eq w_varint_eq [of w] by simp
  show "r_u32_slice (behind w (w_u32_slice w x @ z)) = Inr (x, behind (w_u32_slice w x) (w_u32_slice w x @ z))"
    if "length (w_u32_slice w x @ z) \<le> usize_max" for x w z
    using that unfolding eq r_u32_slice_def append_assoc [symmetric] by (intro word_slice_run) simp_all
qed

section \<open>Alignment, coded word arrays and frames\<close>

definition pad_len :: "nat \<Rightarrow> nat" where
  "pad_len n = (if n mod 8 = 0 then 0 else 8 - n mod 8)"

lemma w_align_eq: "w_align w 8 = w @ replicate (pad_len (length w)) 0"
  by (simp add: w_align_def pad_len_def resize_def)

lemma r_align_run:
  assumes "length (w_align w 8 @ z) \<le> usize_max"
  shows "r_align (behind w (w_align w 8 @ z)) 8 = Inr (behind (w_align w 8) (w_align w 8 @ z))"
  using take_run [of w "replicate (pad_len (length w)) 0" z] assms unfolding w_align_eq
  by (auto simp: r_align_def skip_def pad_len_def Let_def split: if_splits)

lemma next_multiple_pad: "next_multiple_of n 8 - n = pad_len n"
proof -
  define q m where "q = n div 8" and "m = n mod 8"
  have n: "n = q * 8 + m" "m < 8" by (simp_all add: q_def m_def)
  have "div_ceil n 8 = (if m = 0 then q else q + 1)"
    unfolding div_ceil_def using n by (intro div_nat_eqI) auto
  then show ?thesis using n unfolding next_multiple_of_def pad_len_def m_def [symmetric] by auto
qed

definition r_words :: "reader \<Rightarrow> u64 list read" where
  "r_words r = rbind (r_u64_words_coded r) (\<lambda>(v, r). Inr (into_vec v, r))"

text \<open>The count and the codec tag in front of a word array.\<close>

lemma r_words_head:
  assumes "length (w_varint w (of_nat n) @ [tag] @ body) \<le> usize_max" "n * 8 \<le> usize_max"
  shows "r_words (behind w (w_varint w (of_nat n) @ [tag] @ body)) =
    rbind (let r = behind (w_varint w (of_nat n) @ [tag]) (w_varint w (of_nat n) @ [tag] @ body) in
           if tag = CODEC_NONE
           then rbind (r_align r 8) (\<lambda>r. rbind (r_take r (n * 8)) (\<lambda>(b, r). Inr (Raw b, r)))
           else if tag = CODEC_LZ4
           then rbind (r_bytes r) (\<lambda>(block, r).
                  if n * 8 > expansion_ceiling (length block)
                  then Inl (Corruption ''compressed array claims more words than its block can expand to'')
                  else rbind (decompress_into block (replicate (n * 8) 0))
                         (\<lambda>out. Inr (OwnedWords (to_u64_vec out), r)))
           else Inl (Corruption ''unknown word codec'')) (\<lambda>(v, r). Inr (into_vec v, r))"
proof -
  have "n < 2 ^ 64" using assms(2) by (simp add: usize_max_def)
  then have n: "unat (of_nat n :: u64) = n" by (simp add: unat_of_nat)
  have "r_varint (behind w (w_varint w (of_nat n) @ [tag] @ body))
      = Inr (of_nat n, behind (w_varint w (of_nat n)) (w_varint w (of_nat n) @ [tag] @ body))"
    using varint_codec.rd_wr [of w "of_nat n" "[tag] @ body"] assms(1) by simp
  moreover have "r_u8 (behind (w_varint w (of_nat n)) (w_varint w (of_nat n) @ [tag] @ body))
      = Inr (tag, behind (w_varint w (of_nat n) @ [tag]) (w_varint w (of_nat n) @ [tag] @ body))"
    using assms(1) by (intro r_u8_run) simp
  moreover have "checked_mul n 8 = Some (n * 8)" using assms(2) by (simp add: checked_mul_def)
  ultimately show ?thesis unfolding r_words_def r_u64_words_coded_def Let_def by (simp add: n)
qed

lemma r_words_raw:
  assumes "length (w_u64_words w v @ z) \<le> usize_max"
  shows "r_words (behind w (w_u64_words w v @ z)) = Inr (v, behind (w_u64_words w v) (w_u64_words w v @ z))"
proof -
  let ?w1 = "w_varint w (of_nat (length v))" and ?raw = "concat (map le_bytes v) :: bytes"
  have lr: "length ?raw = length v * 8" by (simp add: length_concat_words)
  have W: "w_u64_words w v = w_align (?w1 @ [0]) 8 @ ?raw" by (simp add: w_u64_words_def w_u8_def w_words_eq)
  then obtain e where e: "w_u64_words w v @ z = ?w1 @ [0] @ e @ ?raw @ z" "w_align (?w1 @ [0]) 8 = ?w1 @ [0] @ e"
    by (simp add: w_align_eq)
  have al: "r_align (behind (?w1 @ [0]) (w_u64_words w v @ z)) 8
      = Inr (behind (w_align (?w1 @ [0]) 8) (w_u64_words w v @ z))"
    using r_align_run [of "?w1 @ [0]" "?raw @ z"] assms by (simp add: W)
  have tk: "r_take (behind (w_align (?w1 @ [0]) 8) (w_u64_words w v @ z)) (length v * 8)
      = Inr (?raw, behind (w_u64_words w v) (w_u64_words w v @ z))"
    using take_run [of "w_align (?w1 @ [0]) 8" ?raw z] assms lr by (simp add: W)
  have "length v * 8 \<le> usize_max" using assms lr by (simp add: W)
  from r_words_head [of w "length v" 0 "e @ ?raw @ z", folded e(1), OF assms this] al tk
  show ?thesis by (simp add: into_vec_def)
qed

lemma r_words_lz4:
  assumes c: "compress (concat (map le_bytes v)) = Some c"
    and len: "length (w_bytes (w_varint w (of_nat (length v)) @ [1]) c @ z) \<le> usize_max"
  shows "r_words (behind w (w_bytes (w_varint w (of_nat (length v)) @ [1]) c @ z))
    = Inr (v, behind (w_bytes (w_varint w (of_nat (length v)) @ [1]) c) (w_bytes (w_varint w (of_nat (length v)) @ [1]) c @ z))"
proof -
  let ?w1 = "w_varint w (of_nat (length v))" and ?raw = "concat (map le_bytes v) :: bytes"
  let ?W = "w_bytes (?w1 @ [1]) c"
  have lr: "length ?raw = length v * 8" by (simp add: length_concat_words)
  obtain e where e: "?W @ z = ?w1 @ [1] @ e @ z" using bytes_codec.wr_extends [of "?w1 @ [1]" c] by force
  have "r_bytes (behind (?w1 @ [1]) (?W @ z)) = Inr (c, behind ?W (?W @ z))" using len by (rule bytes_codec.rd_wr [OF TrueI])
  moreover have "length v * 8 \<le> usize_max" using compress_input_size [OF c] lr by (simp add: usize_max_def)
  note r_words_head [of w "length v" 1 "e @ z", folded e, OF len this]
  moreover have "\<not> expansion_ceiling (length c) < length v * 8"
    "decompress_into c (replicate (length v * 8) 0) = Inr ?raw"
    using compress_correct(2,3) [OF c] unfolding lr by simp_all
  ultimately show ?thesis by (simp add: into_vec_def)
qed

interpretation words_codec: byte_codec w_u64_words_coded r_words "\<lambda>_. True"
proof unfold_locales
  have cases: "w_u64_words_coded w v = w_u64_words w v \<or> (\<exists>c. compress (concat (map le_bytes v)) = Some c \<and>
      w_u64_words_coded w v = w_bytes (w_varint w (of_nat (length v)) @ [1]) c)" for w v
    by (auto simp: w_u64_words_coded_def w_u64_words_def w_words_eq w_raw_def w_u8_def Let_def split: option.splits)
  show "\<exists>e. w_u64_words_coded w x = w @ e" for w x
    using cases [of w x] by (auto simp: w_u64_words_def w_words_eq w_align_eq w_u8_def w_bytes_def
        w_varint_eq [of w] w_varint_eq [of "_ @ _"])
  show "r_words (behind w (w_u64_words_coded w v @ z)) = Inr (v, behind (w_u64_words_coded w v) (w_u64_words_coded w v @ z))"
    if len: "length (w_u64_words_coded w v @ z) \<le> usize_max" for v w z
    using cases [of w v] len r_words_raw [of w v z] r_words_lz4 [of v _ w z] by auto
qed

lemma finish_frame_run:
  assumes "length (w @ body @ z) \<le> usize_max"
  shows "finish_frame (behind w (w @ body @ z)) (of_nat (length body)) (checksum body)
    = Inr (body, behind (w @ body) (w @ body @ z))"
proof -
  have small: "length body < 2 ^ 64" "length body + length z < 2 ^ 64" using assms by (simp_all add: usize_max_def)
  then have "unat (of_nat (length body) :: u64) = length body" by (simp add: unat_of_nat)
  moreover have "\<not> (of_nat (length body + length z) :: u64) < of_nat (length body)"
    using small by (simp add: not_less word_le_nat_alt unat_of_nat del: of_nat_add)
  ultimately show ?thesis using take_run [OF assms] by (simp add: finish_frame_def remaining_def)
qed

interpretation frame_codec: byte_codec write_framed read_framed "\<lambda>_. True"
proof unfold_locales
  show "\<exists>e. write_framed w x = w @ e" for w x by (simp add: write_framed_def w_raw_def w_u64_def w_varint_eq [of w])
  show "read_framed (behind w (write_framed w x @ z)) = Inr (x, behind (write_framed w x) (write_framed w x @ z))"
    if len: "length (write_framed w x @ z) \<le> usize_max" for x w z
  proof -
    let ?w1 = "w_varint w (of_nat (length x))" and ?W = "write_framed w x"
    have W: "?W @ z = ?w1 @ le_bytes (checksum x) @ x @ z" by (simp add: write_framed_def w_raw_def w_u64_def)
    have "r_varint (behind w (?W @ z)) = Inr (of_nat (length x), behind ?w1 (?W @ z))"
      using varint_codec.rd_wr [of w "of_nat (length x)" "le_bytes (checksum x) @ x @ z"] len unfolding W by simp
    moreover have "r_u64 (behind ?w1 (?W @ z)) = Inr (checksum x, behind (?w1 @ le_bytes (checksum x)) (?W @ z))"
      using u64_codec.rd_wr [of ?w1 "checksum x" "x @ z"] len unfolding W by (simp add: w_u64_def)
    moreover have "finish_frame (behind (?w1 @ le_bytes (checksum x)) (?W @ z)) (of_nat (length x)) (checksum x)
        = Inr (x, behind ?W (?W @ z))"
      using finish_frame_run [of "?w1 @ le_bytes (checksum x)" x z] len unfolding W
      by (simp add: write_framed_def w_raw_def w_u64_def)
    ultimately show ?thesis by (simp add: read_framed_def)
  qed
qed

interpretation aligned_frame_codec: byte_codec write_framed_aligned read_framed_aligned "\<lambda>_. True"
proof unfold_locales
  show "\<exists>e. write_framed_aligned w x = w @ e" for w x
    by (simp add: write_framed_aligned_def w_raw_def w_u64_def w_align_eq w_varint_eq [of w])
  show "read_framed_aligned (behind w (write_framed_aligned w x @ z))
      = Inr (x, behind (write_framed_aligned w x) (write_framed_aligned w x @ z))"
    if len: "length (write_framed_aligned w x @ z) \<le> usize_max" for x w z
  proof -
    let ?w1 = "w_varint w (of_nat (length x))" and ?W = "write_framed_aligned w x"
    let ?w2 = "w_varint w (of_nat (length x)) @ le_bytes (checksum x)"
    let ?p = "replicate (pad_len (length ?w2)) 0 :: bytes"
    have W: "?W @ z = ?w2 @ ?p @ x @ z" by (simp add: write_framed_aligned_def w_raw_def w_u64_def w_align_eq)
    have "r_varint (behind w (?W @ z)) = Inr (of_nat (length x), behind ?w1 (?W @ z))"
      using varint_codec.rd_wr [of w "of_nat (length x)" "le_bytes (checksum x) @ ?p @ x @ z"] len unfolding W by simp
    moreover have "r_u64 (behind ?w1 (?W @ z)) = Inr (checksum x, behind ?w2 (?W @ z))"
      using u64_codec.rd_wr [of ?w1 "checksum x" "?p @ x @ z"] len unfolding W by (simp add: w_u64_def)
    moreover have "r_take (behind ?w2 (?W @ z)) (pad_len (length ?w2)) = Inr (?p, behind (?w2 @ ?p) (?W @ z))"
      using take_run [of ?w2 ?p "x @ z"] len unfolding W by simp
    moreover have "\<not> list_ex (\<lambda>b. b \<noteq> 0) ?p" by (simp add: list_ex_iff)
    moreover have "finish_frame (behind (?w2 @ ?p) (?W @ z)) (of_nat (length x)) (checksum x)
        = Inr (x, behind ?W (?W @ z))"
      using finish_frame_run [of "?w2 @ ?p" x z] len unfolding W
      by (simp add: write_framed_aligned_def w_raw_def w_u64_def w_align_eq)
    ultimately show ?thesis unfolding read_framed_aligned_def by (simp add: next_multiple_pad)
  qed
qed

section \<open>Headers and footers\<close>

lemma length_MAGIC [simp]: "length MAGIC = 8"
  by (simp add: MAGIC_def)

lemma read_header_run:
  assumes "length (w @ MAGIC @ le_bytes v @ z) \<le> usize_max"
  shows "read_header_of (behind w (w @ MAGIC @ le_bytes v @ z)) what =
    (if v = FORMAT_VERSION then Inr (v, behind (w @ MAGIC @ le_bytes v) (w @ MAGIC @ le_bytes v @ z))
     else Inl (version_skew v what))"
proof -
  have "r_take (behind w (w @ MAGIC @ le_bytes v @ z)) 8 = Inr (MAGIC, behind (w @ MAGIC) (w @ MAGIC @ le_bytes v @ z))"
    using take_run [of w MAGIC "le_bytes v @ z"] assms by simp
  moreover have "r_u32 (behind (w @ MAGIC) (w @ MAGIC @ le_bytes v @ z))
      = Inr (v, behind (w @ MAGIC @ le_bytes v) (w @ MAGIC @ le_bytes v @ z))"
    using u32_codec.rd_wr [of "w @ MAGIC" v z] assms by (simp add: w_u32_def)
  ultimately show ?thesis
    by (auto simp: read_header_of_def FORMAT_VERSION_def MIN_READ_VERSION_def)
qed

text \<open>A file whose last 28 bytes are a footer with version \<open>ver\<close>.\<close>

definition footer_bytes :: "u64 \<Rightarrow> u32 \<Rightarrow> bytes" where
  "footer_bytes off ver = le_bytes off @ le_bytes ver @ le_bytes (checksum (le_bytes off @ le_bytes ver)) @ MAGIC"

lemma write_footer_eq: "write_footer w off = w @ footer_bytes off FORMAT_VERSION"
  by (simp add: write_footer_def footer_bytes_def w_raw_def w_u64_def w_u32_def Let_def)

lemma read_footer_run:
  assumes "length (w @ footer_bytes off ver) \<le> usize_max"
  shows "read_footer_of (w @ footer_bytes off ver) what =
    (if ver \<noteq> FORMAT_VERSION then Inl (version_skew ver what)
     else if unat off > length w then Inl (Corruption ''metadata offset points past the footer'')
     else Inr off)"
proof -
  let ?b = "w @ footer_bytes off ver" and ?ck = "checksum (le_bytes off @ le_bytes ver)"
  have b: "?b = w @ le_bytes off @ le_bytes ver @ le_bytes ?ck @ MAGIC" by (simp add: footer_bytes_def)
  have len: "length ?b = length w + 28" by (simp add: b)
  have 1: "seek (reader_new ?b) (length w) = Inr (behind w ?b)"
    by (simp add: seek_def reader_new_def)
  have 2: "r_u64 (behind w ?b) = Inr (off, behind (w @ le_bytes off) ?b)"
    using u64_codec.rd_wr [of w off "le_bytes ver @ le_bytes ?ck @ MAGIC"] assms unfolding b by (simp add: w_u64_def)
  have 3: "r_u32 (behind (w @ le_bytes off) ?b) = Inr (ver, behind (w @ le_bytes off @ le_bytes ver) ?b)"
    using u32_codec.rd_wr [of "w @ le_bytes off" ver "le_bytes ?ck @ MAGIC"] assms unfolding b by (simp add: w_u32_def)
  have 4: "r_u64 (behind (w @ le_bytes off @ le_bytes ver) ?b)
      = Inr (?ck, behind (w @ le_bytes off @ le_bytes ver @ le_bytes ?ck) ?b)"
    using u64_codec.rd_wr [of "w @ le_bytes off @ le_bytes ver" ?ck MAGIC] assms unfolding b by (simp add: w_u64_def)
  have 5: "r_take (behind (w @ le_bytes off @ le_bytes ver @ le_bytes ?ck) ?b) 8 = Inr (MAGIC, behind ?b ?b)"
    using take_run [of "w @ le_bytes off @ le_bytes ver @ le_bytes ?ck" MAGIC "[]"] assms unfolding b by simp
  have 6: "get_range ?b (length w) (length w + 12) = Some (le_bytes off @ le_bytes ver)"
    by (simp add: b get_range_def slice_def)
  have 7: "of_nat (length w) < off \<longleftrightarrow> length w < unat off"
    using assms by (simp add: word_less_nat_alt unat_of_nat b usize_max_def)
  have 8: "\<not> length ?b < FOOTER_LEN" "length ?b - FOOTER_LEN = length w" by (simp_all only: len)
  show ?thesis
    unfolding read_footer_of_def
    by (simp only: 1 2 3 4 5 6 8 7 if_False rbind_simps Let_def prod.case reader.select_convs length_MAGIC
        option.case simp_thms) (auto simp: FORMAT_VERSION_def MIN_READ_VERSION_def)
qed

section \<open>Properties\<close>

text \<open>Varints are a bijection: the reader accepts a byte string as the value \<open>v\<close> exactly when it is the one
  encoding the writer gives to \<open>v\<close>; overlong and overflowing forms are refused, and the cursor stops
  right behind the encoding.\<close>

theorem varint_canonical:
  assumes "length (buf r) \<le> usize_max" "pos r \<le> length (buf r)"
  shows "r_varint r = Inr (v, r') \<longleftrightarrow>
    r' = r\<lparr>pos := pos r + length (w_varint [] v)\<rparr> \<and> pos r' \<le> length (buf r) \<and>
    slice (buf r) (pos r) (pos r') = w_varint [] v"
proof
  assume "r_varint r = Inr (v, r')"
  from r_varint_canonical [OF this] show "r' = r\<lparr>pos := pos r + length (w_varint [] v)\<rparr> \<and>
      pos r' \<le> length (buf r) \<and> slice (buf r) (pos r) (pos r') = w_varint [] v" by simp
next
  let ?w = "take (pos r) (buf r)" and ?z = "drop (pos r + length (w_varint [] v)) (buf r)"
  assume a: "r' = r\<lparr>pos := pos r + length (w_varint [] v)\<rparr> \<and> pos r' \<le> length (buf r) \<and>
    slice (buf r) (pos r) (pos r') = w_varint [] v"
  then have "?w @ w_varint [] v = take (pos r + length (w_varint [] v)) (buf r)"
    using slice_append [of 0 "pos r" "pos r + length (w_varint [] v)" "buf r"] by auto
  then have b: "buf r = ?w @ w_varint [] v @ ?z" by (metis append_assoc append_take_drop_id)
  have "r = behind ?w (w_varint ?w v @ ?z)" "r' = behind (w_varint ?w v) (w_varint ?w v @ ?z)"
    using b a assms(2) by (simp_all add: w_varint_eq [of ?w])
  with varint_codec.rd_wr [of ?w v ?z] b assms(1) show "r_varint r = Inr (v, r')"
    by (metis w_varint_eq append_assoc)
qed

theorem varint_canonical_witness:
  "r_varint \<lparr>buf = [0xAC, 0x02, 9], pos = 0\<rparr> = Inr (300, \<lparr>buf = [0xAC, 0x02, 9], pos = 2\<rparr>)"
  using varint_canonical [of "\<lparr>buf = [0xAC, 0x02, 9], pos = 0\<rparr>" 300 "\<lparr>buf = [0xAC, 0x02, 9], pos = 2\<rparr>"]
  by (simp add: w_varint.simps usize_max_def)



text \<open>C25: A framed section reads back as its body, with or without alignment padding; in the aligned form the
  body starts at a multiple of 8 in the file. And whatever a frame reader returns lies inside the
  buffer and has the checksum stored in front of it, on any input.\<close>

theorem frame_sound:
  assumes "length (write_framed w body @ z) \<le> usize_max" "length (write_framed_aligned w body @ z) \<le> usize_max"
  shows "read_framed (behind w (write_framed w body @ z)) = Inr (body, behind (write_framed w body) (write_framed w body @ z))
    \<and> read_framed_aligned (behind w (write_framed_aligned w body @ z))
        = Inr (body, behind (write_framed_aligned w body) (write_framed_aligned w body @ z))
    \<and> (length (write_framed_aligned w body) - length body) mod 8 = 0
    \<and> (read_framed r = Inr (b, r') \<longrightarrow> pos r' \<le> length (buf r) \<and> length b \<le> pos r'
        \<and> b = slice (buf r) (pos r' - length b) (pos r')
        \<and> checksum b = le_word (slice (buf r) (pos r' - length b - 8) (pos r' - length b)))"
proof (intro conjI impI)
  show "read_framed (behind w (write_framed w body @ z)) = Inr (body, behind (write_framed w body) (write_framed w body @ z))"
    using assms(1) by (rule frame_codec.rd_wr [OF TrueI])
  show "read_framed_aligned (behind w (write_framed_aligned w body @ z))
        = Inr (body, behind (write_framed_aligned w body) (write_framed_aligned w body @ z))"
    using assms(2) by (rule aligned_frame_codec.rd_wr [OF TrueI])
  have "(n + pad_len n) mod 8 = 0" for n
  proof (cases "n mod 8 = 0")
    case False
    define q m where "q = n div 8" and "m = n mod 8"
    have "n = 8 * q + m" "m < 8" by (simp_all add: q_def m_def)
    then have "n + (8 - m) = 8 * (q + 1)" by simp
    then have "n + (8 - n mod 8) = 8 * (n div 8 + 1)" by (simp only: q_def m_def)
    with False show ?thesis by (simp only: pad_len_def if_False mod_mult_self1_is_0)
  qed (simp add: pad_len_def)
  then show "(length (write_framed_aligned w body) - length body) mod 8 = 0"
    by (simp add: write_framed_aligned_def w_raw_def w_align_eq)
next
  assume "read_framed r = Inr (b, r')"
  then obtain len r1 want r2 where 1: "r_varint r = Inr (len, r1)" "r_u64 r1 = Inr (want, r2)" "finish_frame r2 len want = Inr (b, r')"
    by (auto simp: read_framed_def)
  have 2: "pos r1 + 8 \<le> length (buf r1)" "want = le_word (slice (buf r1) (pos r1) (pos r1 + 8))" "r2 = r1\<lparr>pos := pos r1 + 8\<rparr>"
    using 1(2) by (auto simp: r_u64_def r_word_def r_take_Inr split: if_splits)
  have 3: "pos r2 + unat len \<le> length (buf r2)" "b = slice (buf r2) (pos r2) (pos r2 + unat len)"
    "r' = r2\<lparr>pos := pos r2 + unat len\<rparr>" "checksum b = want"
    using 1(3) by (auto simp: finish_frame_def r_take_Inr split: if_splits)
  have "buf r1 = buf r" using r_varint_canonical(1) [OF 1(1)] .
  with 2 3 show "pos r' \<le> length (buf r)" "length b \<le> pos r'" "b = slice (buf r) (pos r' - length b) (pos r')"
    "checksum b = le_word (slice (buf r) (pos r' - length b - 8) (pos r' - length b))" by auto
qed

theorem frame_sound_witness:
  "read_framed (behind [] (write_framed [] [5])) = Inr ([5], behind (write_framed [] [5]) (write_framed [] [5]))"
  using frame_sound [of "[]" "[5]" "[]" "behind [] []" "[]" "behind [] []"]
  by (simp add: write_framed_def write_framed_aligned_def w_raw_def w_u64_def w_varint.simps w_align_eq pad_len_def
      usize_max_def)

text \<open>A header or footer written by this build is accepted and the footer returns the metadata offset; a
  footer or header that is intact but carries another format version is refused with a version error,
  never with a corruption error; an offset past the footer is corruption.\<close>

theorem footer_roundtrip:
  assumes "length (w @ MAGIC @ le_bytes v @ z) \<le> usize_max" "length (write_footer w off) \<le> usize_max"
  shows "read_header (behind w (write_header w @ z)) = Inr (FORMAT_VERSION, behind (write_header w) (write_header w @ z))
    \<and> (v \<noteq> FORMAT_VERSION \<longrightarrow>
        read_header_of (behind w (w @ MAGIC @ le_bytes v @ z)) what = Inl (version_skew v what)
        \<and> read_footer_of (w @ footer_bytes off v) what = Inl (version_skew v what)
        \<and> code (version_skew v what) = ''FORMAT_VERSION'')
    \<and> (if unat off \<le> length w then read_footer (write_footer w off) = Inr off
       else \<exists>m. read_footer (write_footer w off) = Inl (Corruption m))"
proof -
  have len: "length (w @ footer_bytes off v) \<le> usize_max" using assms(2) by (simp add: write_footer_eq footer_bytes_def)
  have "read_header (behind w (write_header w @ z)) = Inr (FORMAT_VERSION, behind (write_header w) (write_header w @ z))"
    using read_header_run [of w FORMAT_VERSION z Database] assms(1)
    by (simp add: read_header_def write_header_def w_u32_def w_raw_def)
  moreover have "if unat off \<le> length w then read_footer (write_footer w off) = Inr off
       else \<exists>m. read_footer (write_footer w off) = Inl (Corruption m)"
    using read_footer_run [of w off FORMAT_VERSION Database] assms(2) by (simp add: read_footer_def write_footer_eq)
  ultimately show ?thesis
    using read_header_run [OF assms(1), of what] read_footer_run [OF len, of what]
    by (simp add: code_def version_skew_def)
qed

theorem footer_roundtrip_witness:
  "read_footer (write_footer [9] 1) = Inr 1"
  using footer_roundtrip [of "[9]" 3 "[]" 1 Database]
  by (simp add: write_footer_eq footer_bytes_def usize_max_def)

end
