(* ===== verification/String_Dict.thy ===== *)
theory String_Dict
  imports Granular_Prelude Utf8 "HOL-Library.List_Lexorder"
begin

text \<open>
  The order-preserving string dictionary of a granule, \<^verbatim>\<open>src/encoding/dict.rs\<close>: the distinct strings
  once, sorted, in one blob with an array of \<open>u32\<close> offsets; a row keeps a code. Strings are byte lists
  under the lexicographic order of Rust's \<open>str\<close>. A panic of the unchecked code (an index past the
  end) is \<open>None\<close>. Shown: codes decode to the strings they encode and compare like them, both binary
  searches terminate and are right, and a dictionary accepted from disk only hands out well-formed
  UTF-8.
\<close>

section \<open>Definitions\<close>

record string_dict =
  blob :: bytes
  offsets :: "u32 list"

definition dict_empty :: string_dict where
  "dict_empty = \<lparr>blob = [], offsets = [0]\<rparr>"

definition push_entry :: "string_dict \<Rightarrow> bytes \<Rightarrow> string_dict" where
  "push_entry d s =
     (let b = blob d @ s in d\<lparr>blob := b, offsets := offsets d @ [of_nat (length b)]\<rparr>)"

definition from_sorted :: "bytes list \<Rightarrow> string_dict" where
  "from_sorted sorted_unique = foldl push_entry \<lparr>blob = [], offsets = [0]\<rparr> sorted_unique"

fun monotonic :: "u32 list \<Rightarrow> bool" where
  "monotonic (a # b # r) \<longleftrightarrow> \<not> b < a \<and> monotonic (b # r)"
| "monotonic _ \<longleftrightarrow> True"

definition validate :: "string_dict \<Rightarrow> unit result" where
  "validate d =
     (if offsets d = [] then Inl (Corruption ''string dictionary has no offset array'')
      else if unat (last (offsets d)) \<noteq> length (blob d)
      then Inl (Corruption ''string dictionary offsets do not cover the blob'')
      else if \<not> monotonic (offsets d) then Inl (Corruption ''string dictionary offsets not monotonic'')
      else rbind (from_utf8 (blob d)) (\<lambda>s.
             if list_ex (\<lambda>off. \<not> is_char_boundary s (unat off)) (offsets d)
             then Inl (Corruption ''string dictionary offset splits a UTF-8 codepoint'')
             else Inr ()))"

definition dict_from_parts :: "bytes \<Rightarrow> u32 list \<Rightarrow> string_dict result" where
  "dict_from_parts b offs =
     (let d = \<lparr>blob = b, offsets = offs\<rparr> in rbind (validate d) (\<lambda>_. Inr d))"

definition dict_len :: "string_dict \<Rightarrow> nat" where
  "dict_len d = length (offsets d) - 1"

definition dict_is_empty :: "string_dict \<Rightarrow> bool" where
  "dict_is_empty d \<longleftrightarrow> dict_len d = 0"

text \<open>\<open>i + 1\<close> is a \<open>usize\<close> addition and wraps at the top code; the two indexings and the slice panic
  out of range.\<close>

definition dict_get :: "string_dict \<Rightarrow> u64 \<Rightarrow> bytes option" where
  "dict_get d c =
     (let i = unat c; j = unat (c + 1)
      in if j \<ge> length (offsets d) then Some []
         else if i < length (offsets d)
         then get_range (blob d) (unat (offsets d ! i)) (unat (offsets d ! j))
         else None)"

function lookup_loop :: "string_dict \<Rightarrow> bytes \<Rightarrow> nat \<Rightarrow> nat \<Rightarrow> u64 option option" where
  "lookup_loop d s lo hi =
     (if lo < hi
      then let mid = lo + (hi - lo) div 2
           in case dict_get d (of_nat mid) of
                None \<Rightarrow> None
              | Some t \<Rightarrow>
                  (case cmp t s of
                     Less \<Rightarrow> lookup_loop d s (mid + 1) hi
                   | Greater \<Rightarrow> lookup_loop d s lo mid
                   | Equal \<Rightarrow> Some (Some (of_nat mid)))
      else Some None)"
  by pat_completeness auto
termination by (relation "measure (\<lambda>(d, s, lo, hi). hi - lo)") auto

definition lookup :: "string_dict \<Rightarrow> bytes \<Rightarrow> u64 option option" where
  "lookup d s = lookup_loop d s 0 (dict_len d)"

function dict_lower_bound_loop :: "string_dict \<Rightarrow> bytes \<Rightarrow> nat \<Rightarrow> nat \<Rightarrow> u64 option" where
  "dict_lower_bound_loop d s lo hi =
     (if lo < hi
      then let mid = lo + (hi - lo) div 2
           in case dict_get d (of_nat mid) of
                None \<Rightarrow> None
              | Some t \<Rightarrow> if t < s then dict_lower_bound_loop d s (mid + 1) hi
                           else dict_lower_bound_loop d s lo mid
      else Some (of_nat lo))"
  by pat_completeness auto
termination by (relation "measure (\<lambda>(d, s, lo, hi). hi - lo)") auto

definition dict_lower_bound :: "string_dict \<Rightarrow> bytes \<Rightarrow> u64 option" where
  "dict_lower_bound d s = dict_lower_bound_loop d s 0 (dict_len d)"

definition dict_bytes :: "string_dict \<Rightarrow> nat" where
  "dict_bytes d = length (blob d) + length (offsets d) * 4"

text \<open>\<open>encode\<close>: the distinct strings sorted, and for every row the index of its string there.\<close>

definition index_of :: "'a list \<Rightarrow> 'a \<Rightarrow> nat" where
  "index_of xs x = length (takeWhile (\<lambda>y. y \<noteq> x) xs)"

definition encode :: "bytes list \<Rightarrow> string_dict \<times> u64 list" where
  "encode rows =
     (let uniq = sort (remdups rows)
      in (from_sorted uniq, map (\<lambda>v. of_nat (index_of uniq v)) rows))"

declare lookup_loop.simps [simp del] dict_lower_bound_loop.simps [simp del]

section \<open>The strings a dictionary holds\<close>

definition entries :: "string_dict \<Rightarrow> bytes list" where
  "entries d = map (\<lambda>i. slice (blob d) (unat (offsets d ! i)) (unat (offsets d ! Suc i))) [0..<dict_len d]"

definition dict_wf :: "string_dict \<Rightarrow> bool" where
  "dict_wf d \<longleftrightarrow> offsets d \<noteq> [] \<and> unat (last (offsets d)) = length (blob d) \<and> monotonic (offsets d) \<and>
     length (offsets d) < 2 ^ 64"

lemma length_entries [simp]: "length (entries d) = dict_len d"
  by (simp add: entries_def)

lemma monotonic_sorted: "monotonic xs \<longleftrightarrow> sorted xs"
  by (induction xs rule: monotonic.induct) (auto simp: not_less intro: order_trans)

lemma dict_get_entry:
  assumes "dict_wf d" "i < dict_len d"
  shows "dict_get d (of_nat i) = Some (entries d ! i)"
proof -
  have n: "Suc i < length (offsets d)" "i < 2 ^ 64" "Suc i < 2 ^ 64" using assms by (auto simp: dict_wf_def dict_len_def)
  have "(of_nat i + 1 :: u64) = of_nat (Suc i)" by (simp add: add.commute)
  then have u: "unat (of_nat i :: u64) = i" "unat (of_nat i + 1 :: u64) = Suc i"
    using unat_of_nat_u64 [OF n(2)] unat_of_nat_u64 [OF n(3)] by (simp_all only:)
  have s: "sorted (offsets d)" and l: "unat (last (offsets d)) = length (blob d)"
    using assms(1) by (auto simp: dict_wf_def monotonic_sorted)
  have "offsets d ! i \<le> offsets d ! Suc i" using s n(1) by (simp add: sorted_nth_mono)
  moreover have "offsets d ! Suc i \<le> last (offsets d)"
    using s n(1) by (cases "offsets d = []") (simp_all add: last_conv_nth sorted_nth_mono)
  ultimately have "get_range (blob d) (unat (offsets d ! i)) (unat (offsets d ! Suc i)) = Some (entries d ! i)"
    using l assms(2) by (simp add: get_range_def entries_def word_le_nat_alt)
  with n u show ?thesis by (simp add: dict_get_def Let_def)
qed

lemma push_entry_wf:
  assumes "dict_wf d" "length (blob d) + length s < 2 ^ 32" "length (offsets d) < 2 ^ 64 - 1"
  shows "dict_wf (push_entry d s)" "entries (push_entry d s) = entries d @ [s]"
proof -
  let ?d = "push_entry d s" and ?n = "length (blob d) + length s"
  have ne: "offsets d \<noteq> []" and last: "unat (last (offsets d)) = length (blob d)" and srt: "sorted (offsets d)"
    using assms(1) by (auto simp: dict_wf_def monotonic_sorted)
  have u: "unat (of_nat ?n :: u32) = ?n" using assms(2) by (rule unat_of_nat_u32)
  have le: "x \<le> last (offsets d)" if "x \<in> set (offsets d)" for x
    using that srt ne by (auto simp: in_set_conv_nth last_conv_nth sorted_nth_mono)
  have top: "x \<le> of_nat ?n" if "x \<in> set (offsets d)" for x
    using le [OF that] last u by (simp add: word_le_nat_alt del: of_nat_add)
  have offs: "offsets ?d = offsets d @ [of_nat ?n]" "blob ?d = blob d @ s" by (simp_all add: push_entry_def Let_def)
  show "dict_wf ?d"
    using srt top u assms(3) by (simp add: dict_wf_def monotonic_sorted offs sorted_append del: of_nat_add)
  have bound: "unat (offsets d ! i) \<le> length (blob d)" if "i < length (offsets d)" for i
    using le [of "offsets d ! i"] that last by (simp add: word_le_nat_alt)
  have "entries ?d ! i = (entries d @ [s]) ! i" if i: "i < Suc (dict_len d)" for i
  proof (cases "i < dict_len d")
    case True
    then have "Suc i < length (offsets d)" by (simp add: dict_len_def)
    with True bound [of "Suc i"] show ?thesis
      by (simp add: entries_def offs nth_append dict_len_def slice_def)
  next
    case False
    then have "i = dict_len d" using i by simp
    moreover from this ne have "offsets d ! i = last (offsets d)" "Suc i = length (offsets d)"
      by (simp_all add: last_conv_nth dict_len_def)
    ultimately show ?thesis
      using ne last u by (simp add: entries_def offs nth_append dict_len_def slice_def del: of_nat_add)
  qed
  moreover have "dict_len ?d = Suc (dict_len d)" using ne by (simp add: dict_len_def offs)
  ultimately show "entries ?d = entries d @ [s]" by (intro nth_equalityI) simp_all
qed

lemma from_sorted_wf:
  assumes "sum_list (map length ss) < 2 ^ 32" "length ss < 2 ^ 64 - 2"
  shows "dict_wf (from_sorted ss)" "entries (from_sorted ss) = ss"
proof -
  have "dict_wf (foldl push_entry d ss) \<and> entries (foldl push_entry d ss) = entries d @ ss"
    if "dict_wf d" "length (blob d) + sum_list (map length ss) < 2 ^ 32" "length (offsets d) + length ss < 2 ^ 64 - 1" for d
    using that
  proof (induction ss arbitrary: d)
    case (Cons s ss)
    have p: "dict_wf (push_entry d s)" "entries (push_entry d s) = entries d @ [s]"
      using push_entry_wf [of d s] Cons.prems by simp_all
    have "length (blob (push_entry d s)) = length (blob d) + length s"
      "length (offsets (push_entry d s)) = Suc (length (offsets d))" by (simp_all add: push_entry_def Let_def)
    with Cons.IH [of "push_entry d s"] Cons.prems p show ?case by simp
  qed simp
  from this [of "\<lparr>blob = [], offsets = [0]\<rparr>"] assms
  have "dict_wf (from_sorted ss) \<and> entries (from_sorted ss) = ss"
    by (simp add: from_sorted_def dict_wf_def entries_def dict_len_def)
  then show "dict_wf (from_sorted ss)" "entries (from_sorted ss) = ss" by simp_all
qed

section \<open>Searching\<close>

lemma index_of_mem: "x \<in> set xs \<Longrightarrow> index_of xs x < length xs \<and> xs ! index_of xs x = x"
proof (induction xs)
  case (Cons y ys)
  then show ?case by (cases "y = x") (auto simp: index_of_def)
qed simp

lemma index_of_nth: "distinct xs \<Longrightarrow> i < length xs \<Longrightarrow> index_of xs (xs ! i) = i"
  using index_of_mem [of "xs ! i" xs] by (auto simp: nth_eq_iff_index_eq)

lemma index_of_less:
  fixes xs :: "'a::linorder list"
  assumes "sorted_wrt (<) xs" "x \<in> set xs" "y \<in> set xs"
  shows "index_of xs x < index_of xs y \<longleftrightarrow> x < y"
proof -
  note ix = index_of_mem [OF assms(2)] and iy = index_of_mem [OF assms(3)]
  have mono: "xs ! i < xs ! j" if "i < j" "j < length xs" for i j
    using that assms(1) by (simp add: sorted_wrt_nth_less)
  show ?thesis
  proof (cases "index_of xs x" "index_of xs y" rule: linorder_cases)
    case less
    with mono [OF less] ix iy show ?thesis by simp
  next
    case equal
    with ix iy have "x = y" by metis
    with equal show ?thesis by simp
  next
    case greater
    with mono [OF greater] ix iy show ?thesis by simp
  qed
qed

lemma sorted_distinct_strict: "sorted_wrt (<) xs \<longleftrightarrow> sorted xs \<and> distinct (xs :: 'a::linorder list)"
  by (rule strict_sorted_iff)

lemma lookup_loop_correct:
  assumes "dict_wf d" "sorted_wrt (<) (entries d)" "hi \<le> dict_len d"
    and "\<forall>i < lo. i < dict_len d \<longrightarrow> entries d ! i < s"
    and "\<forall>i. hi \<le> i \<longrightarrow> i < dict_len d \<longrightarrow> s < entries d ! i"
  shows "lookup_loop d s lo hi = Some (if s \<in> set (entries d) then Some (of_nat (index_of (entries d) s)) else None)"
  using assms
proof (induction d s lo hi rule: lookup_loop.induct)
  case (1 d s lo hi)
  show ?case
  proof (cases "lo < hi")
    case False
    have "entries d ! i \<noteq> s" if "i < dict_len d" for i
      using 1(6) [rule_format, of i] 1(7) [rule_format, of i] that False by (cases "i < lo") auto
    then have "s \<notin> set (entries d)" by (auto simp: in_set_conv_nth)
    with False show ?thesis by (simp add: lookup_loop.simps [of d s lo hi])
  next
    case True
    define mid where "mid = lo + (hi - lo) div 2"
    have m: "lo \<le> mid" "mid < hi" "mid < dict_len d" using True 1(5) by (auto simp: mid_def)
    have get: "dict_get d (of_nat mid) = Some (entries d ! mid)" using dict_get_entry [OF 1(3) m(3)] .
    have mono: "entries d ! i < entries d ! j" if "i < j" "j < dict_len d" for i j
      using 1(4) that by (simp add: sorted_wrt_nth_less)
    have unf: "lookup_loop d s lo hi = (case cmp (entries d ! mid) s of Less \<Rightarrow> lookup_loop d s (mid + 1) hi
        | Greater \<Rightarrow> lookup_loop d s lo mid | Equal \<Rightarrow> Some (Some (of_nat mid)))"
      using True get by (subst lookup_loop.simps) (simp add: mid_def [symmetric])
    consider "entries d ! mid < s" | "entries d ! mid = s" | "s < entries d ! mid" by (rule linorder_cases)
    then show ?thesis
    proof cases
      case lt: 1
      have "\<forall>i < mid + 1. i < dict_len d \<longrightarrow> entries d ! i < s"
        using mono [of _ mid] m(3) lt by (auto simp: less_Suc_eq intro: less_trans)
      with 1(1) [OF True mid_def get] 1(3-7) lt unf show ?thesis by (simp add: cmp_def)
    next
      case 2
      have "distinct (entries d)" using 1(4) by (simp add: sorted_distinct_strict)
      from index_of_nth [OF this, of mid] m(3) 2 have "index_of (entries d) s = mid" "s \<in> set (entries d)"
        by (auto simp: in_set_conv_nth)
      with unf 2 show ?thesis by (simp add: cmp_def)
    next
      case 3
      have "\<forall>i. mid \<le> i \<longrightarrow> i < dict_len d \<longrightarrow> s < entries d ! i"
        using mono [of mid] 3 by (auto simp: le_less intro: less_trans)
      with 1(2) [OF True mid_def get] 1(3-7) m 3 less_not_sym [OF 3] less_imp_neq [OF 3] unf
      show ?thesis by (simp add: cmp_def)
    qed
  qed
qed

lemma dict_lower_bound_loop_correct:
  assumes "dict_wf d" "sorted_wrt (<) (entries d)" "lo \<le> hi" "hi \<le> dict_len d"
    and "\<forall>i < lo. i < dict_len d \<longrightarrow> entries d ! i < s"
    and "\<forall>i. hi \<le> i \<longrightarrow> i < dict_len d \<longrightarrow> s \<le> entries d ! i"
  shows "dict_lower_bound_loop d s lo hi = Some (of_nat (card {i. i < dict_len d \<and> entries d ! i < s}))"
  using assms
proof (induction d s lo hi rule: dict_lower_bound_loop.induct)
  case (1 d s lo hi)
  show ?case
  proof (cases "lo < hi")
    case False
    with 1(5) have "hi = lo" by simp
    with 1(6-8) have "{i. i < dict_len d \<and> entries d ! i < s} = {..<lo}" by (auto simp: not_less [symmetric])
    with False show ?thesis by (simp add: dict_lower_bound_loop.simps [of d s lo hi])
  next
    case True
    define mid where "mid = lo + (hi - lo) div 2"
    have m: "lo \<le> mid" "mid < hi" "mid < dict_len d" using True 1(6) by (auto simp: mid_def)
    have get: "dict_get d (of_nat mid) = Some (entries d ! mid)" using dict_get_entry [OF 1(3) m(3)] .
    have mono: "entries d ! i < entries d ! j" if "i < j" "j < dict_len d" for i j
      using 1(4) that by (simp add: sorted_wrt_nth_less)
    have unf: "dict_lower_bound_loop d s lo hi = (if entries d ! mid < s then dict_lower_bound_loop d s (mid + 1) hi
        else dict_lower_bound_loop d s lo mid)"
      using True get by (subst dict_lower_bound_loop.simps) (simp add: mid_def [symmetric])
    show ?thesis
    proof (cases "entries d ! mid < s")
      case less: True
      have "\<forall>i < mid + 1. i < dict_len d \<longrightarrow> entries d ! i < s"
        using mono [of _ mid] m(3) less by (auto simp: less_Suc_eq intro: less_trans)
      with 1(1) [OF True mid_def get less] 1(3-8) m less unf show ?thesis by simp
    next
      case ge: False
      have "\<forall>i. mid \<le> i \<longrightarrow> i < dict_len d \<longrightarrow> s \<le> entries d ! i"
        using mono [of mid] ge by (auto simp: le_less not_less intro: less_trans)
      with 1(2) [OF True mid_def get ge] 1(3-8) m ge unf show ?thesis by simp
    qed
  qed
qed

section \<open>The encoder\<close>

lemma sort_remdups_strict: "sorted_wrt (<) (sort (remdups (xs :: 'a::linorder list)))"
  by (simp add: sorted_distinct_strict)

lemma sum_length_remdups:
  fixes rows :: "bytes list"
  shows "sum_list (map length (sort (remdups rows))) \<le> sum_list (map length rows)"
proof -
  have "sum_list (map length (sort (remdups rows))) = sum_list (map length (remdups rows))"
    by (simp add: sum_list_distinct_conv_sum_set)
  also have "\<dots> \<le> sum_list (map length rows)" by (induction rows) auto
  finally show ?thesis .
qed

text \<open>The dictionary of a granule: what fits in the \<open>u32\<close> offsets.\<close>

definition encodable :: "bytes list \<Rightarrow> bool" where
  "encodable rows \<longleftrightarrow> sum_list (map length rows) < 2 ^ 32 \<and> length rows < 2 ^ 63"

lemma encode_dict:
  assumes "encodable rows"
  defines "d \<equiv> fst (encode rows)"
  shows "dict_wf d" "entries d = sort (remdups rows)" "sorted_wrt (<) (entries d)" "dict_len d < 2 ^ 64"
proof -
  let ?u = "sort (remdups rows)"
  have l: "length (remdups rows) < 2 ^ 63"
    using assms(1) length_remdups_leq [of rows] unfolding encodable_def by linarith
  then have "sum_list (map length ?u) < 2 ^ 32" "length ?u < 2 ^ 64 - 2"
    using assms(1) sum_length_remdups [of rows] by (simp_all add: encodable_def)
  from from_sorted_wf [OF this] show "dict_wf d" "entries d = ?u" by (simp_all add: d_def encode_def Let_def)
  then show "sorted_wrt (<) (entries d)" "dict_len d < 2 ^ 64"
    using sort_remdups_strict by (auto simp: dict_wf_def dict_len_def)
qed

lemma encode_code:
  assumes "i < length rows"
  shows "snd (encode rows) ! i = of_nat (index_of (sort (remdups rows)) (rows ! i))"
  using assms by (simp add: encode_def Let_def)

lemma index_bound: "encodable rows \<Longrightarrow> v \<in> set rows \<Longrightarrow> index_of (sort (remdups rows)) v < 2 ^ 64"
proof -
  assume a: "encodable rows" "v \<in> set rows"
  then have "index_of (sort (remdups rows)) v < length (sort (remdups rows))"
    using index_of_mem [of v "sort (remdups rows)"] by simp
  also have "\<dots> \<le> length rows" by (simp add: length_remdups_leq)
  also have "\<dots> < 2 ^ 64" using a(1) by (simp add: encodable_def)
  finally show ?thesis .
qed

lemma encode_codes:
  assumes "encodable rows" "i < length rows" "j < length rows"
  shows "dict_get (fst (encode rows)) (snd (encode rows) ! i) = Some (rows ! i)
    \<and> (snd (encode rows) ! i < snd (encode rows) ! j \<longleftrightarrow> rows ! i < rows ! j)
    \<and> (snd (encode rows) ! i = snd (encode rows) ! j \<longleftrightarrow> rows ! i = rows ! j)"
proof -
  let ?u = "sort (remdups rows)" and ?d = "fst (encode rows)"
  note d = encode_dict [OF assms(1)]
  have mem: "rows ! i \<in> set ?u" "rows ! j \<in> set ?u" using assms by simp_all
  note im = index_of_mem [OF mem(1)] and jm = index_of_mem [OF mem(2)]
  note bi = index_bound [OF assms(1), of "rows ! i"] and bj = index_bound [OF assms(1), of "rows ! j"]
  have "index_of ?u (rows ! i) < dict_len ?d" using im d(2) length_entries [of ?d] by simp
  from dict_get_entry [OF d(1) this] im
  have "dict_get ?d (snd (encode rows) ! i) = Some (rows ! i)" by (simp add: encode_code assms d(2))
  moreover have "snd (encode rows) ! i < snd (encode rows) ! j \<longleftrightarrow> rows ! i < rows ! j"
    using bi bj assms index_of_less [OF sort_remdups_strict mem] by (simp add: encode_code of_nat_u64_less)
  moreover have "snd (encode rows) ! j < snd (encode rows) ! i \<longleftrightarrow> rows ! j < rows ! i"
    using bi bj assms index_of_less [OF sort_remdups_strict mem(2,1)] by (simp add: encode_code of_nat_u64_less)
  ultimately show ?thesis by (metis not_less_iff_gr_or_eq)
qed

lemma encode_search:
  assumes "encodable rows"
  shows "lookup (fst (encode rows)) s
      = Some (if s \<in> set rows then Some (of_nat (index_of (sort (remdups rows)) s)) else None)
    \<and> dict_lower_bound (fst (encode rows)) s = Some (of_nat (card {t \<in> set rows. t < s}))"
proof
  let ?d = "fst (encode rows)" and ?u = "sort (remdups rows)"
  note d = encode_dict [OF assms]
  show "lookup ?d s = Some (if s \<in> set rows then Some (of_nat (index_of ?u s)) else None)"
    using lookup_loop_correct [OF d(1,3), of "dict_len ?d" 0 s] by (simp add: lookup_def d(2))
  have len: "dict_len ?d = length ?u" using d(2) length_entries [of ?d] by simp
  have "card {i. i < dict_len ?d \<and> entries ?d ! i < s} = length (filter (\<lambda>t. t < s) ?u)"
    by (simp add: d(2) len length_filter_conv_card)
  also have "\<dots> = card (set (filter (\<lambda>t. t < s) ?u))" by (rule distinct_card [symmetric]) simp
  also have "set (filter (\<lambda>t. t < s) ?u) = {t \<in> set rows. t < s}" by auto
  finally show "dict_lower_bound ?d s = Some (of_nat (card {t \<in> set rows. t < s}))"
    using dict_lower_bound_loop_correct [OF d(1,3), of 0 "dict_len ?d" s] by (simp add: dict_lower_bound_def)
qed

section \<open>Properties\<close>

text \<open>C23: Dictionary encoding is lossless and order preserving: the code of every row decodes to that row's
  string, and codes compare exactly like the strings they stand for, so equality and range predicates
  may run on codes. The strings of a granule must fit the \<open>u32\<close> offsets.\<close>

theorem encode_order_preserving:
  assumes "encodable rows" "i < length rows" "j < length rows"
  shows "dict_get (fst (encode rows)) (snd (encode rows) ! i) = Some (rows ! i)
    \<and> (snd (encode rows) ! i < snd (encode rows) ! j \<longleftrightarrow> rows ! i < rows ! j)
    \<and> (snd (encode rows) ! i = snd (encode rows) ! j \<longleftrightarrow> rows ! i = rows ! j)"
  using assms by (rule encode_codes)

theorem encode_order_preserving_witness:
  "dict_get (fst (encode [[98], [97], [98]])) (snd (encode [[98], [97], [98]]) ! 0) = Some [98]"
  using encode_order_preserving [of "[[98], [97], [98]]" 0 1] by (simp add: encodable_def)

text \<open>Both searches over an encoded dictionary terminate without a panic: the exact lookup finds the code
  of a string that occurs and nothing otherwise, and the lower bound is the number of distinct strings
  below the one asked for.\<close>

theorem dict_search_correct:
  assumes "encodable rows"
  shows "lookup (fst (encode rows)) s
      = Some (if s \<in> set rows then Some (of_nat (index_of (sort (remdups rows)) s)) else None)
    \<and> dict_lower_bound (fst (encode rows)) s = Some (of_nat (card {t \<in> set rows. t < s}))"
  using assms by (rule encode_search)

theorem dict_search_correct_witness:
  "lookup (fst (encode [[98], [97]])) [99] = Some None"
  using dict_search_correct [of "[[98], [97]]" "[99]"] by (simp add: encodable_def)

text \<open>C26: A dictionary read from disk is accepted only when every string it can hand out without a check is
  well-formed UTF-8: for each code the slice is in range and lies between character boundaries. The
  one code that is not answered is \<open>u64::MAX\<close>, where \<open>code + 1\<close> wraps and the index is out of range.\<close>

theorem dict_from_parts_sound:
  assumes "dict_from_parts b offs = Inr d" "length offs < 2 ^ 64"
  shows "(case dict_get d c of Some t \<Rightarrow> utf8_valid t | None \<Rightarrow> c = - 1) \<and> (c = - 1 \<longrightarrow> dict_get d c = None)"
proof -
  have d: "d = \<lparr>blob = b, offsets = offs\<rparr>" "offs \<noteq> []" "unat (last offs) = length b" "sorted offs" "utf8_valid b"
    "\<forall>x \<in> set offs. is_char_boundary b (unat x)"
    using assms(1) by (auto simp: dict_from_parts_def validate_def Let_def from_utf8_def monotonic_sorted list_ex_iff
        split: if_splits)
  show ?thesis
  proof (cases "c = - 1")
    case True
    have "\<not> unat (- 1 :: u64) < length offs" using assms(2) by (simp add: unsigned_minus_1_eq_mask mask_eq_exp_minus_1)
    with True d show ?thesis by (simp add: dict_get_def)
  next
    case False
    then have "1 + c \<noteq> 0" by (metis add.commute add_eq_0_iff)
    then have up: "unat (c + 1) = unat c + 1" using unatSuc [of c] by (simp add: add.commute)
    show ?thesis
    proof (cases "unat c + 1 < length offs")
      case True
      have "offs ! unat c \<le> offs ! (unat c + 1)" using d(4) True by (simp add: sorted_nth_mono)
      moreover have "offs ! (unat c + 1) \<le> last offs" using d(2,4) True by (simp add: last_conv_nth sorted_nth_mono)
      ultimately have "dict_get d c = Some (slice b (unat (offs ! unat c)) (unat (offs ! (unat c + 1))))"
        using True d up by (simp add: dict_get_def get_range_def word_le_nat_alt Let_def)
      moreover have "utf8_valid (slice b (unat (offs ! unat c)) (unat (offs ! (unat c + 1))))"
        using d True \<open>offs ! unat c \<le> _\<close> by (intro utf8_valid_slice) (simp_all add: word_le_nat_alt)
      ultimately show ?thesis using False by simp
    next
      case no: False
      then show ?thesis using False d up by (simp add: dict_get_def utf8_valid.simps)
    qed
  qed
qed

theorem dict_from_parts_sound_witness:
  "dict_get \<lparr>blob = [195, 169, 97], offsets = [0, 2, 3]\<rparr> (- 1) = None"
  using dict_from_parts_sound [of "[195, 169, 97]" "[0, 2, 3]" "\<lparr>blob = [195, 169, 97], offsets = [0, 2, 3]\<rparr>" "- 1"]
  by (simp add: dict_from_parts_def validate_def Let_def from_utf8_def utf8_valid.simps cont_def is_char_boundary_def)

end
