(* ===== verification/Counting_Sort.thy ===== *)
theory Counting_Sort
  imports Granular_Prelude "HOL-Library.Multiset"
begin

text \<open>
  Counting into buckets and placing items bucket by bucket: the loop that the radix sort and the
  perfect-hash construction share, with its invariant. The buckets start where the items of all
  smaller buckets end, and the placed array is the stable sort by bucket number.
\<close>

section \<open>Buckets\<close>

text \<open>Where the bucket of digit \<open>d\<close> starts.\<close>

definition bucket :: "('a \<Rightarrow> nat) \<Rightarrow> 'a list \<Rightarrow> nat \<Rightarrow> 'a list" where
  "bucket f xs d = filter (\<lambda>x. f x = d) xs"

definition start :: "('a \<Rightarrow> nat) \<Rightarrow> 'a list \<Rightarrow> nat \<Rightarrow> nat" where
  "start f xs d = length (concat (map (bucket f xs) [0..<d]))"

lemma start_Suc: "start f xs (Suc d) = start f xs d + length (bucket f xs d)"
  by (simp add: start_def)

lemma start_mono: "d \<le> e \<Longrightarrow> start f xs d \<le> start f xs e"
  by (induction e rule: dec_induct) (simp_all add: start_Suc)

text \<open>A sorted list that keeps every class of equal keys in order is the stable sort.\<close>

lemma stable_unique:
  assumes "sorted (map f ys)" "\<And>k. filter (\<lambda>x. f x = k) ys = filter (\<lambda>x. f x = k) xs"
  shows "ys = sort_key f xs"
proof -
  have "count (mset ys) x = count (mset xs) x" for x
  proof -
    have part: "filter ((=) x) (filter (\<lambda>y. f y = f x) zs) = filter ((=) x) zs" for zs
      unfolding filter_filter by (rule filter_cong [OF refl]) auto
    have "filter ((=) x) ys = filter ((=) x) (filter (\<lambda>y. f y = f x) ys)" by (rule part [symmetric])
    also have "\<dots> = filter ((=) x) (filter (\<lambda>y. f y = f x) xs)" by (simp only: assms(2))
    also have "\<dots> = filter ((=) x) xs" by (rule part)
    finally show ?thesis by (simp only: count_mset count_list_eq_length_filter)
  qed
  then have "mset ys = mset xs" by (rule multiset_eqI)
  moreover have "filter (\<lambda>x. f k = f x) ys = filter (\<lambda>x. f k = f x) xs" for k
    using assms(2) [of "f k"] by (simp add: eq_commute [of "f k"])
  ultimately show ?thesis using properties_for_sort_key [of ys xs f] assms(1) by simp
qed

lemma filter_bucket: "filter (\<lambda>x. f x = k) (bucket f xs d) = (if k = d then bucket f xs d else [])"
  by (auto simp: bucket_def filter_empty_conv filter_id_conv)

lemma bucket_sort:
  assumes "\<And>x. x \<in> set xs \<Longrightarrow> f x < m"
  shows "concat (map (bucket f xs) [0..<m]) = sort_key f xs"
proof (rule stable_unique)
  show "sorted (map f (concat (map (bucket f xs) [0..<m])))"
  proof (induction m)
    case (Suc m)
    have "sorted (map f (bucket f xs m))" by (induction xs) (auto simp: bucket_def)
    with Suc show ?case by (auto simp: sorted_append bucket_def)
  qed simp
  fix k
  have "filter (\<lambda>x. f x = k) (concat (map (bucket f xs) [0..<n])) = (if k < n then bucket f xs k else [])" for n
    by (induction n) (auto simp: filter_bucket)
  moreover have "\<not> k < m \<Longrightarrow> filter (\<lambda>x. f x = k) xs = []" using assms by (auto simp: filter_empty_conv)
  ultimately show "filter (\<lambda>x. f x = k) (concat (map (bucket f xs) [0..<m])) = filter (\<lambda>x. f x = k) xs"
    by (simp add: bucket_def)
qed

section \<open>Placing\<close>

text \<open>
  The scatter loop: after some items, the slot range of every bucket holds the items seen so far that
  belong to it, in order, and its counter points behind them.
\<close>

fun place :: "('a \<Rightarrow> nat) \<Rightarrow> 'a list \<Rightarrow> nat list \<Rightarrow> 'a list \<Rightarrow> 'a list" where
  "place f [] counts out = out"
| "place f (r # rs) counts out =
     (let d = f r; at = counts ! d in place f rs (counts[d := at + 1]) (out[at := r]))"

lemma start_all:
  assumes "\<And>x. x \<in> set xs \<Longrightarrow> f x < m"
  shows "start f xs m = length xs"
  using bucket_sort [of xs f m] assms by (simp add: start_def)

lemma slice_update:
  "i < length xs \<Longrightarrow> \<not> (a \<le> i \<and> i < b) \<Longrightarrow> slice (xs[i := x]) a b = slice xs a b"
  by (rule nth_equalityI) (auto simp: slice_nth nth_list_update)

lemma slice_extend:
  "a \<le> i \<Longrightarrow> i < length xs \<Longrightarrow> slice (xs[i := x]) a (Suc i) = slice xs a i @ [x]"
  by (rule nth_equalityI) (auto simp: slice_nth nth_append nth_list_update)

lemma place_inv:
  fixes all :: "'a list"
  assumes fm: "\<And>x. x \<in> set all \<Longrightarrow> f x < m"
    and "all = seen @ rs" "m \<le> length counts" "length out = length all"
    and "\<And>d. d < m \<Longrightarrow> counts ! d = start f all d + length (bucket f seen d)"
    and "\<And>d. d < m \<Longrightarrow> slice out (start f all d) (counts ! d) = bucket f seen d"
  shows "length (place f rs counts out) = length all \<and>
    (\<forall>d < m. slice (place f rs counts out) (start f all d) (start f all (Suc d)) = bucket f all d)"
  using assms(2-6)
proof (induction rs arbitrary: seen counts out)
  case Nil
  then show ?case by (simp add: start_Suc)
next
  case (Cons r rs)
  let ?d = "f r"
  define at where "at = counts ! ?d"
  have fr: "f r = ?d" "?d < m" using fm [of r] Cons.prems(1) by simp_all
  have snoc: "bucket f (seen @ [r]) d = (if d = ?d then bucket f seen d @ [r] else bucket f seen d)" for d
    using fr by (simp add: bucket_def)
  have "length (bucket f seen ?d) < length (bucket f all ?d)"
    using Cons.prems(1) fr by (simp add: bucket_def)
  then have at: "start f all ?d \<le> at" "at < start f all (Suc ?d)"
    using Cons.prems(4) [OF fr(2)] by (simp_all add: at_def start_Suc)
  have "start f all (Suc ?d) \<le> start f all m" using fr(2) by (intro start_mono) simp
  also have "\<dots> = length all" by (rule start_all) (rule fm)
  finally have lt: "at < length out" using at(2) Cons.prems(3) by simp
  have le: "counts ! d \<le> start f all (Suc d)" if "d < m" for d
    using Cons.prems(1) Cons.prems(4) [OF that] by (simp add: start_Suc bucket_def)
  have "place f (r # rs) counts out
      = place f rs (counts[?d := at + 1]) (out[at := r])" by (simp add: at_def Let_def)
  moreover have "length (place f rs (counts[?d := at + 1]) (out[at := r])) = length all \<and>
    (\<forall>d < m. slice (place f rs (counts[?d := at + 1]) (out[at := r])) (start f all d) (start f all (Suc d))
       = bucket f all d)"
  proof (rule Cons.IH)
    show "all = (seen @ [r]) @ rs" using Cons.prems(1) by simp
    fix d assume d: "d < m"
    show "counts[?d := at + 1] ! d = start f all d + length (bucket f (seen @ [r]) d)"
      using d Cons.prems(2) Cons.prems(4) [OF d] fr(2) by (simp add: snoc nth_list_update at_def)
    show "slice (out[at := r]) (start f all d) (counts[?d := at + 1] ! d) = bucket f (seen @ [r]) d"
    proof (cases "d = ?d")
      case True
      then show ?thesis
        using slice_extend [OF at(1) lt] Cons.prems(2) Cons.prems(5) [OF fr(2)] fr(2) by (simp add: snoc at_def)
    next
      case False
      have "\<not> (start f all d \<le> at \<and> at < counts ! d)"
        using False at le [OF d] start_mono [of "Suc d" ?d f all] start_mono [of "Suc ?d" d f all]
        by (cases d ?d rule: linorder_cases) auto
      with lt Cons.prems(5) [OF d] False show ?thesis by (simp add: slice_update snoc)
    qed
  qed (use Cons.prems in simp_all)
  ultimately show ?case by simp
qed

lemma concat_slices:
  assumes "\<And>d. d < m \<Longrightarrow> slice out (st d) (st (Suc d)) = b d" "\<And>d. st d \<le> st (Suc d)" "st 0 = 0"
  shows "take (st m) out = concat (map b [0..<m])"
  using assms(1)
proof (induction m)
  case (Suc m)
  then show ?case using slice_append [of 0 "st m" "st (Suc m)" out] assms(2) [of m] by simp
qed (simp add: assms(3))

text \<open>With the counters at the bucket starts, every bucket ends up in its range.\<close>

lemma place_buckets:
  assumes fm: "\<And>x. x \<in> set xs \<Longrightarrow> f x < m" and "m \<le> length counts" "length out = length xs"
    and "\<And>d. d < m \<Longrightarrow> counts ! d = start f xs d"
  shows "length (place f xs counts out) = length xs"
    and "d < m \<Longrightarrow> slice (place f xs counts out) (start f xs d) (start f xs (Suc d)) = bucket f xs d"
  using place_inv [of xs f m "[]" xs counts out] assms by (simp_all add: bucket_def slice_def)

lemma place_sorts:
  assumes fm: "\<And>x. x \<in> set xs \<Longrightarrow> f x < m" and "m \<le> length counts" "length out = length xs"
    and "\<And>d. d < m \<Longrightarrow> counts ! d = start f xs d"
  shows "place f xs counts out = sort_key f xs"
proof -
  let ?out = "place f xs counts out"
  have "start f xs m = length xs" using fm by (rule start_all)
  then have "?out = take (start f xs m) ?out" using place_buckets(1) [OF assms] by simp
  also have "\<dots> = concat (map (bucket f xs) [0..<m])"
    by (rule concat_slices) (use place_buckets(2) [OF assms] in \<open>auto simp: start_Suc start_def\<close>)
  also have "\<dots> = sort_key f xs" using fm by (rule bucket_sort)
  finally show ?thesis .
qed

end
