(* ===== verification/Radix_Sort.thy ===== *)
theory Radix_Sort
  imports Counting_Sort "HOL-Library.List_Lexorder"
begin

text \<open>
  The LSD radix sort of \<^verbatim>\<open>src/sort.rs\<close>: four counting passes of 16 bits over parallel key and row-id
  arrays, and the multi-column sort that runs it once per column. The counters are \<open>u32\<close> in the
  source and count at most the rows, whose ids are \<open>u32\<close>; they are natural numbers here. Shown: each
  pass is a stable counting sort, the whole sort is the stable sort by key, and the composite sort is
  the stable sort by the lexicographic order of the key vectors.
\<close>

section \<open>Definitions\<close>

type_synonym keyed_row = "u64 \<times> u32"

definition digit :: "nat \<Rightarrow> u64 \<Rightarrow> nat" where
  "digit shift k = unat (drop_bit shift k AND 0xFFFF)"

fun count_digits :: "nat \<Rightarrow> u64 list \<Rightarrow> nat list \<Rightarrow> nat list" where
  "count_digits shift [] counts = counts"
| "count_digits shift (k # ks) counts =
     count_digits shift ks (counts[digit shift k := counts ! digit shift k + 1])"

text \<open>The running sum that turns counts into start positions.\<close>

fun prefix_sums :: "nat \<Rightarrow> nat list \<Rightarrow> nat list" where
  "prefix_sums acc [] = []"
| "prefix_sums acc (t # ts) = acc # prefix_sums (acc + t) ts"

fun scatter :: "nat \<Rightarrow> keyed_row list \<Rightarrow> nat list \<Rightarrow> u64 list \<Rightarrow> u32 list \<Rightarrow> u64 list \<times> u32 list" where
  "scatter shift [] counts kbuf ibuf = (kbuf, ibuf)"
| "scatter shift ((k, v) # r) counts kbuf ibuf =
     (let d = digit shift k; at = counts ! d
      in scatter shift r (counts[d := at + 1]) (kbuf[at := k]) (ibuf[at := v]))"

text \<open>One pass: keys, ids and the two buffers they are swapped with.\<close>

definition radix_pass :: "u64 list \<times> u32 list \<times> u64 list \<times> u32 list \<Rightarrow> nat \<Rightarrow>
    u64 list \<times> u32 list \<times> u64 list \<times> u32 list" where
  "radix_pass s pass =
     (let (keys, idx, kbuf, ibuf) = s; shift = pass * 16
      in if list_all (\<lambda>k. digit shift k = digit shift (keys ! 0)) keys then s
         else let counts = prefix_sums 0 (count_digits shift keys (replicate 65536 0));
                  (kbuf, ibuf) = scatter shift (zip keys idx) counts kbuf ibuf
              in (kbuf, ibuf, keys, idx))"

definition radix_sort_soa :: "u64 list \<Rightarrow> u32 list \<Rightarrow> u64 list \<times> u32 list" where
  "radix_sort_soa keys idx =
     (let n = length keys
      in if n < 128
         then let order = sort_key (\<lambda>i. keys ! i) [0..<n]
              in (map (\<lambda>i. keys ! i) order, map (\<lambda>i. idx ! i) order)
         else let (keys, idx, _, _) = foldl radix_pass (keys, idx, replicate n 0, replicate n 0) [0, 1, 2, 3]
              in (keys, idx))"

definition radix_sort :: "keyed_row list \<Rightarrow> keyed_row list" where
  "radix_sort rows =
     (if length rows < 128 then sort_key fst rows
      else let (keys, idx) = radix_sort_soa (map fst rows) (map snd rows)
           in map (\<lambda>i. (keys ! i, idx ! i)) [0..<length rows])"

text \<open>One column of the composite sort; the columns are taken from the last to the first.\<close>

definition composite_pass :: "(u64 list \<times> u32) list \<Rightarrow> nat \<Rightarrow> (u64 list \<times> u32) list" where
  "composite_pass rows c =
     (let keyed = map (\<lambda>i. (fst (rows ! i) ! c, of_nat i)) [0..<length rows]
      in map (\<lambda>r. rows ! unat (snd r)) (radix_sort keyed))"

definition radix_sort_composite :: "(u64 list \<times> u32) list \<Rightarrow> nat \<Rightarrow> (u64 list \<times> u32) list" where
  "radix_sort_composite rows ncols =
     (if length rows < 2 \<or> ncols = 0 then rows else foldl composite_pass rows (rev [0..<ncols]))"

section \<open>Counting\<close>

lemma digit_less: "digit shift k < 65536"
proof -
  have "drop_bit shift k AND 0xFFFF \<le> 0xFFFF" by (rule word_and_le1)
  then show ?thesis by (simp add: digit_def word_le_nat_alt)
qed

lemma count_digits_nth:
  assumes "length c = 65536" "d < 65536"
  shows "count_digits shift ks c ! d = c ! d + length (filter (\<lambda>k. digit shift k = d) ks)"
  using assms
proof (induction ks arbitrary: c)
  case (Cons k ks)
  then show ?case using digit_less [of shift k] by (simp add: nth_list_update)
qed simp

lemma length_count_digits [simp]: "length (count_digits shift ks c) = length c"
  by (induction ks arbitrary: c) simp_all

lemma length_prefix_sums [simp]: "length (prefix_sums s c) = length c"
  by (induction c arbitrary: s) simp_all

lemma prefix_sums_nth: "d < length c \<Longrightarrow> prefix_sums s c ! d = s + sum_list (take d c)"
proof (induction c arbitrary: s d)
  case (Cons t ts)
  then show ?case by (cases d) simp_all
qed simp

section \<open>One pass\<close>

lemma scatter_eq:
  assumes "length kbuf = length ibuf"
  shows "scatter shift rs counts kbuf ibuf
    = (let out = place (\<lambda>r. digit shift (fst r)) rs counts (zip kbuf ibuf) in (map fst out, map snd out))"
  using assms
proof (induction rs arbitrary: counts kbuf ibuf)
  case (Cons r rs)
  obtain k v where r: "r = (k, v)" by (cases r)
  have "zip (kbuf[i := k]) (ibuf[i := v]) = (zip kbuf ibuf)[i := (k, v)]" for i
    by (simp add: update_zip)
  with Cons show ?case by (simp add: r Let_def)
qed simp

text \<open>A counting pass is the stable sort by its digit, whatever the buffers held.\<close>

lemma scatter_sorts:
  assumes "length keys = length idx" "length kbuf = length keys" "length ibuf = length keys"
  shows "scatter shift (zip keys idx) (prefix_sums 0 (count_digits shift keys (replicate 65536 0))) kbuf ibuf
    = (let out = sort_key (\<lambda>r. digit shift (fst r)) (zip keys idx) in (map fst out, map snd out))"
proof -
  let ?all = "zip keys idx" and ?f = "\<lambda>r :: keyed_row. digit shift (fst r)"
  let ?c = "count_digits shift keys (replicate 65536 0)"
  have cnt: "?c ! d = length (bucket ?f ?all d)" if "d < 65536" for d
  proof -
    have "map fst (filter (\<lambda>r. digit shift (fst r) = d) ?all) = filter (\<lambda>k. digit shift k = d) (map fst ?all)"
      by (simp add: filter_map o_def)
    then have "length (filter (\<lambda>k. digit shift k = d) keys) = length (bucket ?f ?all d)"
      using assms(1) by (metis bucket_def length_map map_fst_zip)
    with that show ?thesis by (simp add: count_digits_nth)
  qed
  have st: "prefix_sums 0 ?c ! d = start ?f ?all d" if "d < 65536" for d
  proof -
    have "take d ?c = map (\<lambda>i. length (bucket ?f ?all i)) [0..<d]"
      using that cnt by (intro nth_equalityI) simp_all
    with that show ?thesis by (simp add: prefix_sums_nth start_def length_concat o_def)
  qed
  have "place ?f ?all (prefix_sums 0 ?c) (zip kbuf ibuf) = sort_key ?f ?all"
    by (rule place_sorts [where m = 65536]) (use assms st in \<open>simp_all add: digit_less\<close>)
  then show ?thesis using scatter_eq [of kbuf ibuf] assms by simp
qed

section \<open>Composing stable sorts\<close>

lemma sort_key_compose:
  fixes f :: "'a \<Rightarrow> 'b::linorder" and g :: "'a \<Rightarrow> 'c::linorder" and h :: "'a \<Rightarrow> 'd::linorder"
  assumes "\<And>x y. x \<in> set xs \<Longrightarrow> y \<in> set xs \<Longrightarrow> h x \<le> h y \<longleftrightarrow> f x < f y \<or> f x = f y \<and> g x \<le> g y"
  shows "sort_key f (sort_key g xs) = sort_key h xs"
proof (rule stable_unique)
  let ?r = "sort_key f (sort_key g xs)"
  have heq: "h x = h y \<longleftrightarrow> f x = f y \<and> g x = g y" if "x \<in> set xs" "y \<in> set xs" for x y
    using assms [OF that] assms [OF that(2,1)] by (metis order.eq_iff less_irrefl order.asym)
  show "sorted (map h ?r)"
    unfolding sorted_iff_nth_mono_less length_map
  proof (intro allI impI)
    fix i j assume ij: "i < j" "j < length ?r"
    have mem: "?r ! i \<in> set xs" "?r ! j \<in> set xs" using ij nth_mem [of _ ?r] by auto
    have "f (?r ! i) \<le> f (?r ! j)"
      using sorted_sort_key [of f "sort_key g xs"] ij by (auto simp: sorted_iff_nth_mono_less)
    moreover have "g (?r ! i) \<le> g (?r ! j)" if eq: "f (?r ! i) = f (?r ! j)"
    proof -
      let ?P = "\<lambda>x. f x = f (?r ! i)"
      have "sorted (map g (filter ?P (sort_key g xs)))" by (rule sorted_filter) simp
      then have "sorted (map g (filter ?P ?r))" by (simp add: sort_key_stable)
      moreover have "filter ?P ?r = filter ?P (take i ?r) @ ?r ! i # filter ?P (drop (Suc i) ?r)"
        using ij id_take_nth_drop [of i ?r] by (metis (mono_tags, lifting) filter.simps(2) filter_append less_trans)
      moreover have "?r ! j \<in> set (filter ?P (drop (Suc i) ?r))"
        using ij eq by (auto simp: in_set_conv_nth intro!: exI [of _ "j - Suc i"])
      ultimately show ?thesis by (auto simp: sorted_append)
    qed
    ultimately show "map h ?r ! i \<le> map h ?r ! j" using ij assms [OF mem] by (auto simp: le_less)
  qed
  fix k
  show "filter (\<lambda>x. h x = k) ?r = filter (\<lambda>x. h x = k) xs"
  proof (cases "\<exists>x \<in> set xs. h x = k")
    case True
    then obtain x where x: "x \<in> set xs" "h x = k" by blast
    have split: "filter (\<lambda>y. h y = k) zs = filter (\<lambda>y. g y = g x) (filter (\<lambda>y. f y = f x) zs)"
      if "set zs = set xs" for zs
      unfolding filter_filter using heq [OF _ x(1)] x(2) that by (intro filter_cong) auto
    have "filter (\<lambda>y. h y = k) ?r = filter (\<lambda>y. g y = g x) (filter (\<lambda>y. f y = f x) (sort_key g xs))"
      by (subst split) (simp_all add: sort_key_stable)
    also have "\<dots> = filter (\<lambda>y. f y = f x) (filter (\<lambda>y. g y = g x) (sort_key g xs))"
      by (simp add: conj_commute)
    also have "\<dots> = filter (\<lambda>y. f y = f x) (filter (\<lambda>y. g y = g x) xs)" by (simp only: sort_key_stable)
    also have "\<dots> = filter (\<lambda>y. h y = k) xs" by (subst split) (simp_all add: conj_commute)
    finally show ?thesis .
  next
    case False
    then have "filter (\<lambda>x. h x = k) xs = []" "filter (\<lambda>x. h x = k) ?r = []" by (auto simp: filter_empty_conv)
    then show ?thesis by simp
  qed
qed

definition low_key :: "nat \<Rightarrow> u64 \<Rightarrow> nat" where
  "low_key p k = unat k mod 2 ^ (p * 16)"

lemma digit_eq: "digit (p * 16) k = unat k div 2 ^ (p * 16) mod 65536"
proof -
  have "(0xFFFF :: u64) = mask 16" by (simp add: mask_eq_exp_minus_1)
  then have "digit (p * 16) k = unat (take_bit 16 (drop_bit (p * 16) k))" by (simp only: digit_def take_bit_eq_mask)
  also have "\<dots> = take_bit 16 (drop_bit (p * 16) (unat k))" by (simp only: unsigned_take_bit_eq unat_drop_bit_eq)
  finally show ?thesis by (simp add: take_bit_eq_mod drop_bit_eq_div)
qed

lemma low_key_Suc: "low_key (Suc p) k = digit (p * 16) k * 2 ^ (p * 16) + low_key p k"
proof -
  have "(2 :: nat) ^ (Suc p * 16) = 2 ^ (p * 16) * 65536" by (simp add: power_add)
  then show ?thesis unfolding low_key_def digit_eq by (simp add: mod_mult2_eq mult.commute)
qed

lemma low_key_le:
  "low_key (Suc p) k \<le> low_key (Suc p) l \<longleftrightarrow>
    digit (p * 16) k < digit (p * 16) l \<or> digit (p * 16) k = digit (p * 16) l \<and> low_key p k \<le> low_key p l"
proof -
  let ?m = "(2 :: nat) ^ (p * 16)"
  have b: "low_key p k < ?m" "low_key p l < ?m" by (simp_all add: low_key_def)
  have less: "a * ?m + x < c * ?m + y" if "a < c" "x < ?m" for a c x y
  proof -
    have "a * ?m + x < Suc a * ?m" using that by simp
    also have "\<dots> \<le> c * ?m" using that by (intro mult_le_mono1) simp
    finally show ?thesis by simp
  qed
  show ?thesis
    unfolding low_key_Suc
    using less [of "digit (p * 16) k" "digit (p * 16) l" "low_key p k" "low_key p l"]
      less [of "digit (p * 16) l" "digit (p * 16) k" "low_key p l" "low_key p k"] b
    by (cases "digit (p * 16) k" "digit (p * 16) l" rule: linorder_cases) (auto simp: not_le [symmetric] dest: less_imp_le)
qed

lemma sort_key_const: "\<forall>x \<in> set xs. f x = c \<Longrightarrow> sort_key f xs = xs"
  by (rule sym, rule stable_unique) (induction xs, auto)

lemma sort_key_order_cong:
  fixes f :: "'a \<Rightarrow> 'b::linorder" and h :: "'a \<Rightarrow> 'd::linorder"
  assumes "\<And>x y. x \<in> set xs \<Longrightarrow> y \<in> set xs \<Longrightarrow> h x \<le> h y \<longleftrightarrow> f x \<le> f y"
  shows "sort_key h xs = sort_key f xs"
proof -
  have "sort_key f (sort_key (\<lambda>_. 0 :: nat) xs) = sort_key h xs"
  proof (rule sort_key_compose)
    fix x y assume "x \<in> set xs" "y \<in> set xs"
    then have "h x \<le> h y \<longleftrightarrow> f x \<le> f y" by (rule assms)
    then show "h x \<le> h y \<longleftrightarrow> f x < f y \<or> f x = f y \<and> (0 :: nat) \<le> 0" by (simp add: order_le_less [of "f x"])
  qed
  then show ?thesis by (simp add: sort_key_const [where c = 0])
qed

text \<open>The state after \<open>p\<close> passes, over rows \<open>rs\<close>: sorted stably by the low \<open>16 p\<close> bits.\<close>

definition pass_inv :: "nat \<Rightarrow> keyed_row list \<Rightarrow> u64 list \<times> u32 list \<times> u64 list \<times> u32 list \<Rightarrow> bool" where
  "pass_inv p rs s \<longleftrightarrow> (case s of (keys, idx, kbuf, ibuf) \<Rightarrow>
     length keys = length rs \<and> length idx = length rs \<and> length kbuf = length rs \<and> length ibuf = length rs \<and>
     zip keys idx = sort_key (\<lambda>r. low_key p (fst r)) rs)"

lemma radix_pass_inv:
  assumes "pass_inv p rs s" "rs \<noteq> []"
  shows "pass_inv (Suc p) rs (radix_pass s p)"
proof -
  obtain keys idx kbuf ibuf where s: "s = (keys, idx, kbuf, ibuf)" by (cases s)
  let ?f = "\<lambda>r :: keyed_row. digit (p * 16) (fst r)" and ?z = "zip keys idx"
  have len: "length keys = length rs" "length idx = length rs" "length kbuf = length rs" "length ibuf = length rs"
    and z: "?z = sort_key (\<lambda>r. low_key p (fst r)) rs" using assms(1) by (simp_all add: pass_inv_def s)
  have step: "sort_key ?f ?z = sort_key (\<lambda>r. low_key (Suc p) (fst r)) rs"
    unfolding z by (rule sort_key_compose) (rule low_key_le)
  show ?thesis
  proof (cases "list_all (\<lambda>k. digit (p * 16) k = digit (p * 16) (keys ! 0)) keys")
    case True
    then have "\<forall>r \<in> set ?z. ?f r = digit (p * 16) (keys ! 0)" by (auto simp: list_all_iff dest: set_zip_leftD)
    then have "sort_key ?f ?z = ?z" by (rule sort_key_const)
    with True step len show ?thesis by (simp add: pass_inv_def s radix_pass_def)
  next
    case False
    let ?out = "sort_key ?f ?z"
    have "scatter (p * 16) ?z (prefix_sums 0 (count_digits (p * 16) keys (replicate 65536 0))) kbuf ibuf
        = (map fst ?out, map snd ?out)"
      using scatter_sorts [of keys idx kbuf ibuf "p * 16"] len by (simp add: Let_def)
    moreover have "zip (map fst ?out) (map snd ?out) = ?out" by (rule zip_map_fst_snd)
    ultimately show ?thesis using False step len by (simp add: pass_inv_def s radix_pass_def)
  qed
qed

section \<open>The interface the part builder uses\<close>

lemma sort_key_map: "sort_key f (map g xs) = map g (sort_key (\<lambda>x. f (g x)) xs)"
proof (induction xs)
  case (Cons x xs)
  have "insort_key f (g x) (map g ys) = map g (insort_key (\<lambda>x. f (g x)) x ys)" for ys
    by (induction ys) simp_all
  with Cons show ?case by simp
qed simp

text \<open>A stable sorter of \<open>(key, row id)\<close> pairs, and what its clients build from it.\<close>

locale stable_sorter =
  fixes srt :: "keyed_row list \<Rightarrow> keyed_row list"
  assumes sorted_srt: "sorted (map fst (srt rs))"
    and stable_srt: "filter (\<lambda>r. fst r = k) (srt rs) = filter (\<lambda>r. fst r = k) rs"
begin

lemma srt_eq: "srt rs = sort_key fst rs"
  using sorted_srt stable_srt by (rule stable_unique)

text \<open>Sorting row ids by a key and gathering the rows is sorting the rows by that key.\<close>

lemma gather_sorted:
  assumes "length rows < 2 ^ 32"
  shows "map (\<lambda>r. rows ! unat (snd r)) (srt (map (\<lambda>i. (key (rows ! i), of_nat i)) [0..<length rows]))
    = sort_key key rows"
proof -
  let ?n = "length rows"
  have "srt (map (\<lambda>i. (key (rows ! i), of_nat i)) [0..<?n])
      = map (\<lambda>i. (key (rows ! i), of_nat i)) (sort_key (\<lambda>i. key (rows ! i)) [0..<?n])"
    by (simp add: srt_eq sort_key_map)
  then have "map (\<lambda>r. rows ! unat (snd r)) (srt (map (\<lambda>i. (key (rows ! i), of_nat i)) [0..<?n]))
      = map (\<lambda>i. rows ! unat (of_nat i :: u32)) (sort_key (\<lambda>i. key (rows ! i)) [0..<?n])" by simp
  also have "\<dots> = map ((!) rows) (sort_key (\<lambda>i. key (rows ! i)) [0..<?n])"
    using assms by (intro map_cong) (simp_all add: unat_of_nat_u32)
  also have "\<dots> = sort_key key (map ((!) rows) [0..<?n])" by (simp add: sort_key_map)
  finally show ?thesis by (simp add: map_nth)
qed

end

lemma radix_sort_soa_eq:
  assumes "length keys = length idx" "128 \<le> length keys"
  shows "(case radix_sort_soa keys idx of (k, i) \<Rightarrow> length k = length keys \<and> length i = length keys \<and>
     zip k i = sort_key fst (zip keys idx))"
proof -
  let ?rs = "zip keys idx" and ?s = "(keys, idx, replicate (length keys) 0, replicate (length keys) 0)"
  have ne: "?rs \<noteq> []" and len: "length ?rs = length keys" using assms by auto
  have "sort_key (\<lambda>r. low_key 0 (fst r)) ?rs = ?rs" by (rule sort_key_const [where c = 0]) (simp add: low_key_def)
  then have "pass_inv 0 ?rs ?s" using len assms(1) by (simp add: pass_inv_def)
  from radix_pass_inv [OF this ne] have "pass_inv 1 ?rs (radix_pass ?s 0)" by simp
  from radix_pass_inv [OF this ne] have "pass_inv 2 ?rs (radix_pass (radix_pass ?s 0) 1)" by (simp add: numeral_2_eq_2)
  from radix_pass_inv [OF this ne] have "pass_inv 3 ?rs (radix_pass (radix_pass (radix_pass ?s 0) 1) 2)"
    by (simp add: numeral_3_eq_3)
  from radix_pass_inv [OF this ne] have inv: "pass_inv 4 ?rs (foldl radix_pass ?s [0, 1, 2, 3])" by simp
  have "low_key 4 k = unat k" for k using unat_u64_less [of k] by (simp add: low_key_def)
  then have "sort_key (\<lambda>r. low_key 4 (fst r)) ?rs = sort_key fst ?rs"
    by (intro sort_key_order_cong) (simp add: word_le_nat_alt)
  with inv len assms(2) show ?thesis
    by (auto simp: radix_sort_soa_def pass_inv_def Let_def split: prod.splits)
qed

lemma radix_sort_eq: "radix_sort rows = sort_key fst rows"
proof (cases "length rows < 128")
  case False
  obtain k i where ki: "radix_sort_soa (map fst rows) (map snd rows) = (k, i)" by fastforce
  have "length k = length rows" "length i = length rows" "zip k i = sort_key fst rows"
    using radix_sort_soa_eq [of "map fst rows" "map snd rows"] False ki by (simp_all add: zip_map_fst_snd)
  moreover have "map (\<lambda>j. (k ! j, i ! j)) [0..<length rows] = zip k i"
    using calculation(1,2) by (intro nth_equalityI) (simp_all only: length_map length_upt length_zip nth_map nth_upt nth_zip, simp_all)
  ultimately show ?thesis using False ki by (simp add: radix_sort_def)
qed (simp add: radix_sort_def)

interpretation radix: stable_sorter radix_sort
  by unfold_locales (simp_all add: radix_sort_eq sort_key_stable)

lemma composite_pass_eq:
  "length rows < 2 ^ 32 \<Longrightarrow> composite_pass rows c = sort_key (\<lambda>r. fst r ! c) rows"
  using radix.gather_sorted [of rows "\<lambda>r. fst r ! c"] by (simp add: composite_pass_def Let_def)

lemma composite_passes:
  assumes "length rows < 2 ^ 32" "c \<le> n"
  shows "foldl composite_pass rows (rev [c..<n]) = sort_key (\<lambda>r. map ((!) (fst r)) [c..<n]) rows"
  using assms(2)
proof (induction rule: inc_induct)
  case base
  show ?case by (simp add: sort_key_const [where c = "[]"])
next
  case (step c)
  have up: "[c..<n] = c # [Suc c..<n]" using step.hyps by (simp add: upt_conv_Cons)
  have "foldl composite_pass rows (rev [c..<n])
      = composite_pass (sort_key (\<lambda>r. map ((!) (fst r)) [Suc c..<n]) rows) c"
    unfolding up using step.IH by simp
  also have "\<dots> = sort_key (\<lambda>r. fst r ! c) (sort_key (\<lambda>r. map ((!) (fst r)) [Suc c..<n]) rows)"
    using assms(1) by (intro composite_pass_eq) simp
  also have "\<dots> = sort_key (\<lambda>r. map ((!) (fst r)) [c..<n]) rows"
    unfolding up by (rule sort_key_compose) simp
  finally show ?case .
qed

section \<open>Properties\<close>


text \<open>The multi-column sort, least significant column first, orders rows by the lexicographic order of their
  first \<open>ncols\<close> key components and is stable: it equals the stable sort by the key vector.\<close>

theorem radix_sort_composite_lex:
  assumes "length rows < 2 ^ 32" "\<forall>r \<in> set rows. ncols \<le> length (fst r)"
  shows "radix_sort_composite rows ncols = sort_key (\<lambda>r. take ncols (fst r)) rows"
proof -
  have t: "map ((!) (fst r)) [0..<ncols] = take ncols (fst r)" if "r \<in> set rows" for r
    using assms(2) that by (intro nth_equalityI) auto
  have "sort_key (\<lambda>r. map ((!) (fst r)) [0..<ncols]) rows = sort_key (\<lambda>r. take ncols (fst r)) rows"
    by (intro sort_key_order_cong) (simp add: t)
  moreover have "sort_key f rows = rows" if "length rows < 2" for f :: "u64 list \<times> u32 \<Rightarrow> u64 list"
    using that by (cases rows) auto
  ultimately show ?thesis
    using composite_passes [OF assms(1), of 0 ncols]
    by (auto simp: radix_sort_composite_def sort_key_const [where c = "[]"])
qed

theorem radix_sort_composite_lex_witness:
  "radix_sort_composite [([2, 1], 0), ([1, 9], 1), ([2, 0], 2)] 2 = [([1, 9], 1), ([2, 0], 2), ([2, 1], 0)]"
  using radix_sort_composite_lex [of "[([2, 1], 0), ([1, 9], 1), ([2, 0], 2)]" 2] by simp

end
