(* ===== verification/Part_Filter.thy ===== *)
theory Part_Filter
  imports Hashing
begin

text \<open>
  The split-block bloom filter of a part, \<^verbatim>\<open>src/index/filter.rs\<close>: eight words per block, one bit set
  in each word per key, the block chosen by range reduction. Shown: a key that was inserted is always
  reported, whatever is inserted before and after it, and also after a trip through the flat word
  view the part writer stores.
\<close>

section \<open>Definitions\<close>

abbreviation (input) SEG_FILTER_BITS_PER_KEY :: nat where
  "SEG_FILTER_BITS_PER_KEY \<equiv> 6"

definition FILTER_SALTS :: "u64 list" where
  "FILTER_SALTS =
     [0x47B6137B44974D91, 0x8824AD5BA2B7289D, 0x705495C72DF1424B, 0x9EFC49475C6BFB31,
      0x5C6BFB31705495C7, 0x2DF1424B9EFC4947, 0x44974D918824AD5B, 0xA2B7289D47B6137B]"

record part_filter =
  blocks :: "u64 list list"

definition filter_new :: "nat \<Rightarrow> part_filter" where
  "filter_new n =
     (let nblocks = max ((n * SEG_FILTER_BITS_PER_KEY + 511) div 512) 1
      in \<lparr>blocks = replicate nblocks (replicate 8 0)\<rparr>)"

text \<open>\<open>h.wrapping_mul(FILTER_SALTS[i]) >> 58\<close>: the bit of word \<open>i\<close> that stands for \<open>h\<close>.\<close>

definition salt_bit :: "u64 \<Rightarrow> nat \<Rightarrow> nat" where
  "salt_bit h i = unat (drop_bit 58 (h * FILTER_SALTS ! i))"

definition insert_hash :: "part_filter \<Rightarrow> u64 \<Rightarrow> part_filter" where
  "insert_hash f h =
     (let nb = length (blocks f); b = fastrange h nb;
          blk = fold (\<lambda>i blk. blk[i := blk ! i OR push_bit (salt_bit h i) 1]) [0..<8] (blocks f ! b)
      in f\<lparr>blocks := (blocks f)[b := blk]\<rparr>)"

definition filter_insert :: "part_filter \<Rightarrow> u64 \<Rightarrow> part_filter" where
  "filter_insert f key = insert_hash f (hash_key key FP_SEED)"

definition contains_hash :: "part_filter \<Rightarrow> u64 \<Rightarrow> bool" where
  "contains_hash f h =
     (let blk = blocks f ! fastrange h (length (blocks f));
          ok = fold (\<lambda>i ok. ok AND drop_bit (salt_bit h i) (blk ! i)) [0..<8] 1
      in ok AND 1 = 1)"

definition filter_contains :: "part_filter \<Rightarrow> u64 \<Rightarrow> bool" where
  "filter_contains f key = contains_hash f (hash_key key FP_SEED)"

definition as_words :: "part_filter \<Rightarrow> u64 list" where
  "as_words f = concat (blocks f)"

definition filter_from_words :: "u64 list \<Rightarrow> part_filter" where
  "filter_from_words ws =
     (let nblocks = length ws div 8;
          bs = replicate (max nblocks 1) (replicate 8 0)
      in \<lparr>blocks = fold (\<lambda>(bi, chunk) bs. bs[bi := chunk]) (enumerate 0 (chunks_exact 8 ws)) bs\<rparr>)"

definition filter_bytes :: "part_filter \<Rightarrow> nat" where
  "filter_bytes f = length (blocks f) * 64"

text \<open>At least one block, every block of eight words.\<close>

definition filter_wf :: "part_filter \<Rightarrow> bool" where
  "filter_wf f \<longleftrightarrow> blocks f \<noteq> [] \<and> list_all (\<lambda>b. length b = 8) (blocks f)"

section \<open>The contract of an approximate membership filter\<close>

text \<open>
  What a reader that skips parts relies on: an insertion makes its key visible and hides none. False
  positives are allowed, false negatives are not.
\<close>

locale membership_filter =
  fixes wf :: "'f \<Rightarrow> bool"
    and ins :: "'f \<Rightarrow> 'k \<Rightarrow> 'f"
    and mem :: "'f \<Rightarrow> 'k \<Rightarrow> bool"
  assumes wf_ins: "wf f \<Longrightarrow> wf (ins f k)"
    and mem_ins: "wf f \<Longrightarrow> mem (ins f k) k"
    and mem_mono: "wf f \<Longrightarrow> mem f k' \<Longrightarrow> mem (ins f k) k'"
begin

lemma wf_foldl: "wf f \<Longrightarrow> wf (foldl ins f ks)"
  by (induction ks arbitrary: f) (simp_all add: wf_ins)

lemma mem_foldl_old: "wf f \<Longrightarrow> mem f k \<Longrightarrow> mem (foldl ins f ks) k"
  by (induction ks arbitrary: f) (simp_all add: wf_ins mem_mono)

lemma no_false_negative: "wf f \<Longrightarrow> k \<in> set ks \<Longrightarrow> mem (foldl ins f ks) k"
proof (induction ks arbitrary: f)
  case (Cons a ks)
  then show ?case by (cases "k = a") (auto simp: wf_ins mem_ins mem_foldl_old)
qed simp

end

section \<open>The filter as bits\<close>

lemma salt_bit_less: "salt_bit h i < 64"
proof -
  let ?x = "h * FILTER_SALTS ! i"
  have "unat ?x < 64 * 2 ^ 58" using unsigned_less [of ?x] by simp
  then have "unat ?x div 2 ^ 58 < 64" by (rule less_mult_imp_div_less)
  then show ?thesis unfolding salt_bit_def by (subst unat_drop_bit_eq) (simp only: drop_bit_eq_div)
qed

lemma fold_and_bit0:
  "bit (fold (\<lambda>i ok. ok AND g i) is (acc :: u64)) 0 \<longleftrightarrow> bit acc 0 \<and> (\<forall>i \<in> set is. bit (g i) 0)"
  by (induction "is" arbitrary: acc) (auto simp: bit_and_iff)

lemma contains_hash_iff:
  "contains_hash f h \<longleftrightarrow>
     (\<forall>i<8. bit (blocks f ! fastrange h (length (blocks f)) ! i) (salt_bit h i))"
  unfolding contains_hash_def Let_def and_1_eq_1_bit fold_and_bit0
  by (auto simp: bit_drop_bit_eq)

lemma nth_fold_or:
  assumes "distinct is" "\<forall>i \<in> set is. i < length b" "j < length b"
  shows "fold (\<lambda>i b. b[i := b ! i OR g i]) is (b :: u64 list) ! j =
    (if j \<in> set is then b ! j OR g j else b ! j)"
  using assms
proof (induction "is" arbitrary: b)
  case (Cons i "is")
  then show ?case by (cases "i = j") auto
qed simp

lemma length_fold_or: "length (fold (\<lambda>i b. b[i := b ! i OR g i]) is (b :: u64 list)) = length b"
  by (induction "is" arbitrary: b) simp_all

lemma blocks_insert_hash:
  assumes "filter_wf f" "b < length (blocks f)" "i < 8"
  shows "blocks (insert_hash f h) ! b ! i = (blocks f ! b ! i OR
    (if b = fastrange h (length (blocks f)) then push_bit (salt_bit h i) 1 else 0))"
proof -
  have "length (blocks f ! b) = 8" using assms by (simp add: filter_wf_def list_all_length)
  with assms show ?thesis
    by (cases "b = fastrange h (length (blocks f))")
      (simp_all add: insert_hash_def Let_def nth_fold_or)
qed

lemma length_blocks_insert_hash [simp]: "length (blocks (insert_hash f h)) = length (blocks f)"
  by (simp add: insert_hash_def Let_def)

lemma filter_wf_insert_hash: "filter_wf f \<Longrightarrow> filter_wf (insert_hash f h)"
  unfolding filter_wf_def list_all_length
  by (auto simp: insert_hash_def Let_def nth_list_update length_fold_or fastrange_less)

lemma fastrange_block: "filter_wf f \<Longrightarrow> fastrange h (length (blocks f)) < length (blocks f)"
  by (rule fastrange_less) (simp add: filter_wf_def)

interpretation bloom_hash: membership_filter filter_wf insert_hash contains_hash
proof
  fix f :: part_filter and h
  assume wf: "filter_wf f"
  then show "filter_wf (insert_hash f h)" by (rule filter_wf_insert_hash)
  show "contains_hash (insert_hash f h) h"
    by (auto simp: contains_hash_iff blocks_insert_hash wf fastrange_block bit_simps salt_bit_less)
  fix h' assume "contains_hash f h'"
  then show "contains_hash (insert_hash f h) h'"
    by (auto simp: contains_hash_iff blocks_insert_hash wf fastrange_block bit_or_iff)
qed

interpretation bloom: membership_filter filter_wf filter_insert filter_contains
  unfolding filter_insert_def filter_contains_def
  by unfold_locales (simp_all add: bloom_hash.wf_ins bloom_hash.mem_ins bloom_hash.mem_mono)

lemma filter_wf_new [simp]: "filter_wf (filter_new n)"
  by (simp add: filter_wf_def filter_new_def list_all_length)

section \<open>The flat view\<close>

lemma fold_update_enumerate:
  "length bs = k + length cs + m \<Longrightarrow>
     fold (\<lambda>(bi, c) bs. bs[bi := c]) (enumerate k cs) bs = take k bs @ cs @ drop (k + length cs) bs"
proof (induction cs arbitrary: k bs)
  case (Cons c cs)
  have "take (Suc k) (bs[k := c]) = take k bs @ [c]"
    using Cons.prems by (simp add: take_Suc_conv_app_nth)
  then show ?case using Cons.IH [of "bs[k := c]" "Suc k"] Cons.prems by simp
qed simp

lemma length_concat_const: "\<forall>b \<in> set bs. length b = k \<Longrightarrow> length (concat bs) = length bs * k"
  by (induction bs) auto

lemma filter_words_roundtrip: "filter_wf f \<Longrightarrow> filter_from_words (as_words f) = f"
proof -
  assume wf: "filter_wf f"
  have len: "\<forall>b \<in> set (blocks f). length b = 8" and ne: "0 < length (blocks f)"
    using wf by (auto simp: filter_wf_def list_all_iff)
  have c: "chunks_exact 8 (concat (blocks f)) = blocks f"
    using len by (intro chunks_exact_concat) auto
  have l: "length (concat (blocks f)) div 8 = length (blocks f)"
    using length_concat_const [OF len] by simp
  have mx: "max (length (blocks f)) 1 = length (blocks f)" using ne by linarith
  have "fold (\<lambda>(bi, c) bs. bs[bi := c]) (enumerate 0 (blocks f))
      (replicate (max (length (blocks f)) 1) (replicate 8 0)) = blocks f"
    unfolding mx by (subst fold_update_enumerate [where m = 0]) simp_all
  then show ?thesis by (simp add: filter_from_words_def as_words_def c l Let_def)
qed

section \<open>Properties\<close>

text \<open>The bloom filter of a part has no false negatives: after any sequence of insertions into a
  fresh filter of any capacity, every inserted key is reported, also by the filter rebuilt from the
  words the part writer stores.\<close>

theorem filter_no_false_negative:
  assumes "k \<in> set ks"
  shows "filter_contains (foldl filter_insert (filter_new n) ks) k
    \<and> filter_contains (filter_from_words (as_words (foldl filter_insert (filter_new n) ks))) k"
  using bloom.no_false_negative [OF filter_wf_new assms] bloom.wf_foldl [OF filter_wf_new]
  by (simp add: filter_words_roundtrip)

theorem filter_no_false_negative_witness:
  "filter_contains (foldl filter_insert (filter_new 3) [5, 70, 12]) 70"
  using filter_no_false_negative [of 70 "[5, 70, 12]" 3] by simp

end
