(* ===== verification/Mph.thy ===== *)
theory Mph
  imports Hashing Bitpack Counting_Sort
begin

text \<open>
  The CHD minimal perfect hash over a granule's keys, \<^verbatim>\<open>src/index/mph.rs\<close>. Bucket numbers, slots and
  seeds are \<open>u32\<close> in the source and bounded by the number of keys or by a million; they are natural
  numbers here, which is exact below \<open>2 ^ 32\<close> keys. A construction that runs out of global seeds
  panics in the source and is \<open>None\<close> here. Ties between buckets of one size are ordered as a stable
  sort orders them; the proofs use only that the order is a permutation. Shown: whatever the
  construction returns maps its keys one to one onto the slots, every key (also a foreign one) lands
  in range, and the stored parts give the same function back.
\<close>

section \<open>Definitions\<close>

abbreviation (input) MPH_BUCKET_AVG :: nat where
  "MPH_BUCKET_AVG \<equiv> 4"

record mph =
  mph_seeds :: packed_u64
  mph_nb :: nat
  mph_gs :: u64
  mph_n :: nat

text \<open>Counting the buckets, turning the counts into bounds, and sorting the keys into them.\<close>

fun count_bids :: "nat list \<Rightarrow> nat list \<Rightarrow> nat list" where
  "count_bids [] cs = cs"
| "count_bids (b # bs) cs = count_bids bs (cs[b + 1 := cs ! (b + 1) + 1])"

definition bounds_of :: "nat \<Rightarrow> nat list \<Rightarrow> nat list" where
  "bounds_of nb cs = fold (\<lambda>i cs. cs[i + 1 := cs ! (i + 1) + cs ! i]) [0..<nb] cs"

fun fill_flat :: "(nat \<times> u64) list \<Rightarrow> nat list \<Rightarrow> u64 list \<Rightarrow> u64 list" where
  "fill_flat [] cursor flat = flat"
| "fill_flat ((b, k) # r) cursor flat =
     fill_flat r (cursor[b := cursor ! b + 1]) (flat[cursor ! b := k])"

definition is_occupied :: "u64 list \<Rightarrow> nat \<Rightarrow> bool" where
  "is_occupied occ p = (drop_bit (p mod 64) (occ ! (p div 64)) AND 1 = 1)"

definition occupy :: "u64 list \<Rightarrow> nat \<Rightarrow> u64 list" where
  "occupy occ p = occ[p div 64 := occ ! (p div 64) OR push_bit (p mod 64) 1]"

text \<open>
  One bucket under one seed: every key placed, a clash (the next seed is tried), or a bucket beyond
  the scratch array (the next global seed is tried).
\<close>

datatype placement = Placed "nat list" | Clash | Oversized

fun place_bucket :: "nat \<Rightarrow> u64 \<Rightarrow> u64 list \<Rightarrow> u64 list \<Rightarrow> nat list \<Rightarrow> placement" where
  "place_bucket n s occ [] placed = Placed placed"
| "place_bucket n s occ (k # ks) placed =
     (let p = fastrange (hash_key k s) n
      in if is_occupied occ p \<or> p \<in> set placed then Clash
         else if length placed = 64 then Oversized
         else place_bucket n s occ ks (placed @ [p]))"

definition seed_of :: "u64 \<Rightarrow> nat \<Rightarrow> u64" where
  "seed_of gs d = gs XOR push_bit 32 (of_nat d)"

text \<open>The search over displacement seeds; \<open>None\<close> moves on to the next global seed.\<close>

function find_seed :: "nat \<Rightarrow> u64 \<Rightarrow> u64 list \<Rightarrow> u64 list \<Rightarrow> nat \<Rightarrow> (nat \<times> nat list) option" where
  "find_seed n gs occ bkt d =
     (if d > 1000000 then None
      else case place_bucket n (seed_of gs d) occ bkt [] of
             Placed ps \<Rightarrow> Some (d, ps)
           | Clash \<Rightarrow> find_seed n gs occ bkt (d + 1)
           | Oversized \<Rightarrow> None)"
  by pat_completeness auto
termination by (relation "measure (\<lambda>(n, gs, occ, bkt, d). 1000001 - d)") auto

fun place_all :: "nat \<Rightarrow> u64 \<Rightarrow> nat list \<Rightarrow> u64 list \<Rightarrow> nat list \<Rightarrow> u64 list \<Rightarrow> nat list \<Rightarrow> nat list option" where
  "place_all n gs bnds flat [] occ seeds = Some seeds"
| "place_all n gs bnds flat (bi # order) occ seeds =
     (let lo = bnds ! bi; hi = bnds ! (bi + 1)
      in if lo = hi then place_all n gs bnds flat order occ seeds
         else case find_seed n gs occ (slice flat lo hi) 1 of
                None \<Rightarrow> None
              | Some (d, ps) \<Rightarrow>
                  place_all n gs bnds flat order (fold (\<lambda>p occ. occupy occ p) ps occ) (seeds[bi := d]))"

text \<open>One global attempt.\<close>

definition global_seed :: "nat \<Rightarrow> u64" where
  "global_seed attempt = of_nat attempt * 0x9E3779B97F4A7C15 XOR 0x517CC1B7"

definition build_attempt :: "u64 list \<Rightarrow> nat \<Rightarrow> u64 \<Rightarrow> nat list option" where
  "build_attempt keys nb gs =
     (let n = length keys;
          bids = map (\<lambda>k. fastrange (hash_key k gs) nb) keys;
          bnds = bounds_of nb (count_bids bids (replicate (nb + 1) 0));
          flat = fill_flat (zip bids keys) bnds (replicate n 0);
          order = sort_key (\<lambda>b. - int (bnds ! (b + 1) - bnds ! b)) [0..<nb]
      in place_all n gs bnds flat order (replicate (div_ceil n 64) 0) (replicate nb 0))"

function try_global :: "u64 list \<Rightarrow> nat \<Rightarrow> nat \<Rightarrow> mph option" where
  "try_global keys nb attempt =
     (if attempt \<ge> 256 then None
      else case build_attempt keys nb (global_seed attempt) of
             Some seeds \<Rightarrow> Some \<lparr>mph_seeds = pack (map of_nat seeds), mph_nb = nb,
                                mph_gs = global_seed attempt, mph_n = length keys\<rparr>
           | None \<Rightarrow> try_global keys nb (attempt + 1))"
  by pat_completeness auto
termination by (relation "measure (\<lambda>(keys, nb, attempt). 256 - attempt)") auto

definition mph_build :: "u64 list \<Rightarrow> mph option" where
  "mph_build keys =
     (let n = length keys
      in if n = 0 then Some \<lparr>mph_seeds = pack [], mph_nb = 1, mph_gs = 0, mph_n = 0\<rparr>
         else try_global keys (div_ceil n MPH_BUCKET_AVG) 0)"

definition mph_lookup :: "mph \<Rightarrow> u64 \<Rightarrow> nat" where
  "mph_lookup m key =
     (let d = packed_get (mph_seeds m) (fastrange (hash_key key (mph_gs m)) (mph_nb m))
      in fastrange (hash_key key (mph_gs m XOR push_bit 32 d)) (mph_n m))"

definition mph_to_parts :: "mph \<Rightarrow> u64 \<times> nat \<times> nat \<times> u64 \<times> nat \<times> u64 list" where
  "mph_to_parts m = (mph_gs m, mph_nb m, mph_n m, p_base (mph_seeds m), p_width (mph_seeds m), p_words (mph_seeds m))"

definition mph_from_parts :: "u64 \<Rightarrow> nat \<Rightarrow> nat \<Rightarrow> u64 \<Rightarrow> nat \<Rightarrow> u64 list \<Rightarrow> mph result" where
  "mph_from_parts gs nb n seed_base seed_width seed_words =
     (if nb = 0 then Inl (Corruption ''mph bucket count is zero'')
      else Inr \<lparr>mph_seeds = from_parts seed_base seed_width seed_words, mph_nb = nb, mph_gs = gs, mph_n = n\<rparr>)"

definition mph_len :: "mph \<Rightarrow> nat" where
  "mph_len m = mph_n m"

definition mph_is_empty :: "mph \<Rightarrow> bool" where
  "mph_is_empty m = (mph_n m = 0)"

definition mph_bytes :: "mph \<Rightarrow> nat" where
  "mph_bytes m = packed_bytes (mph_seeds m)"

declare find_seed.simps [simp del] try_global.simps [simp del]

section \<open>Buckets\<close>

lemma length_count_bids [simp]: "length (count_bids bs cs) = length cs"
  by (induction bs arbitrary: cs) simp_all

lemma count_bids_nth:
  assumes "d < length cs" "\<forall>b \<in> set bs. b + 1 < length cs"
  shows "count_bids bs cs ! d = cs ! d + length (filter (\<lambda>b. b + 1 = d) bs)"
  using assms by (induction bs arbitrary: cs) (auto simp: nth_list_update)

lemma bounds_of_nth:
  assumes "nb < length cs" "d \<le> nb"
  shows "bounds_of nb cs ! d = sum_list (take (Suc d) cs) \<and> length (bounds_of nb cs) = length cs"
    and "\<And>j. nb < j \<Longrightarrow> j < length cs \<Longrightarrow> bounds_of nb cs ! j = cs ! j"
proof -
  have "(\<forall>d \<le> nb. bounds_of nb cs ! d = sum_list (take (Suc d) cs)) \<and> length (bounds_of nb cs) = length cs
    \<and> (\<forall>j. nb < j \<longrightarrow> j < length cs \<longrightarrow> bounds_of nb cs ! j = cs ! j)"
    using assms(1)
  proof (induction nb)
    case 0
    then show ?case by (cases cs) (simp_all add: bounds_of_def)
  next
    case (Suc nb)
    let ?b = "bounds_of nb cs"
    have IH: "\<forall>d \<le> nb. ?b ! d = sum_list (take (Suc d) cs)" "length ?b = length cs"
      "\<forall>j. nb < j \<longrightarrow> j < length cs \<longrightarrow> ?b ! j = cs ! j" using Suc by auto
    have eq: "bounds_of (Suc nb) cs = ?b[Suc nb := cs ! Suc nb + sum_list (take (Suc nb) cs)]"
      using IH Suc.prems by (simp add: bounds_of_def)
    have "sum_list (take (Suc (Suc nb)) cs) = sum_list (take (Suc nb) cs) + cs ! Suc nb"
      using Suc.prems by (simp add: take_Suc_conv_app_nth)
    then show ?case using IH Suc.prems by (auto simp: eq nth_list_update le_Suc_eq)
  qed
  then show "bounds_of nb cs ! d = sum_list (take (Suc d) cs) \<and> length (bounds_of nb cs) = length cs"
    "\<And>j. nb < j \<Longrightarrow> j < length cs \<Longrightarrow> bounds_of nb cs ! j = cs ! j" using assms(2) by auto
qed

text \<open>The bounds are the starts of the buckets, and the flat array holds each bucket in its range.\<close>

lemma bounds_start:
  assumes "\<And>k. k \<in> set keys \<Longrightarrow> f k < nb" "d \<le> nb"
  shows "bounds_of nb (count_bids (map f keys) (replicate (nb + 1) 0)) ! d = start f keys d"
proof -
  let ?c = "count_bids (map f keys) (replicate (nb + 1) 0)"
  have cnt: "?c ! j = (if j = 0 then 0 else length (bucket f keys (j - 1)))" if "j \<le> nb" for j
    using that assms(1)
    by (subst count_bids_nth) (cases j, auto simp: filter_map o_def bucket_def)+
  have "take (Suc d) ?c = 0 # map (\<lambda>i. length (bucket f keys i)) [0..<d]"
    using assms(2) cnt by (intro nth_equalityI) (auto simp: nth_Cons split: nat.split)
  then show ?thesis
    using bounds_of_nth(1) [of nb ?c d] assms(2) by (simp add: start_def length_concat o_def)
qed

lemma fill_flat_place: "fill_flat (zip (map f ks) ks) cur flat = place f ks cur flat"
  by (induction ks arbitrary: cur flat) (simp_all add: Let_def)

section \<open>Placing the buckets\<close>

definition slot :: "nat \<Rightarrow> u64 \<Rightarrow> nat \<Rightarrow> u64 \<Rightarrow> nat" where
  "slot n gs d k = fastrange (hash_key k (seed_of gs d)) n"

lemma is_occupied_iff: "is_occupied occ p \<longleftrightarrow> bit (occ ! (p div 64)) (p mod 64)"
  by (simp add: is_occupied_def and_1_eq_1_bit bit_drop_bit_eq)

lemma is_occupied_occupy:
  assumes "q div 64 < length occ"
  shows "is_occupied (occupy occ q) p \<longleftrightarrow> p = q \<or> is_occupied occ p"
proof (cases "p div 64 = q div 64")
  case True
  then have "p mod 64 = q mod 64 \<longleftrightarrow> p = q" by (metis div_mult_mod_eq)
  with True assms show ?thesis by (auto simp: is_occupied_iff occupy_def bit_simps)
next
  case False
  then show ?thesis by (auto simp: is_occupied_iff occupy_def)
qed

lemma length_occupy [simp]: "length (occupy occ p) = length occ"
  by (simp add: occupy_def)

lemma length_occupy_all [simp]: "length (fold (\<lambda>p occ. occupy occ p) ps occ) = length occ"
  by (induction ps arbitrary: occ) simp_all

lemma is_occupied_occupy_all:
  assumes "\<forall>q \<in> set ps. q div 64 < length occ"
  shows "is_occupied (fold (\<lambda>p occ. occupy occ p) ps occ) p \<longleftrightarrow> p \<in> set ps \<or> is_occupied occ p"
  using assms
proof (induction ps arbitrary: occ)
  case (Cons q ps)
  then show ?case by (auto simp: is_occupied_occupy)
qed simp

lemma place_bucket_Placed:
  assumes "place_bucket n s occ ks placed = Placed ps" "distinct placed"
  shows "ps = placed @ map (\<lambda>k. fastrange (hash_key k s) n) ks \<and> distinct ps \<and>
    (\<forall>k \<in> set ks. \<not> is_occupied occ (fastrange (hash_key k s) n))"
  using assms
proof (induction ks arbitrary: placed)
  case (Cons k ks)
  let ?p = "fastrange (hash_key k s) n"
  from Cons.prems have st: "place_bucket n s occ ks (placed @ [?p]) = Placed ps"
    and free: "\<not> is_occupied occ ?p" "?p \<notin> set placed" by (simp_all add: Let_def split: if_splits)
  have "distinct (placed @ [?p])" using Cons.prems(2) free by simp
  note ih = Cons.IH [OF st this]
  have "ps = placed @ map (\<lambda>k. fastrange (hash_key k s) n) (k # ks)" using ih by simp
  moreover have "\<forall>j \<in> set (k # ks). \<not> is_occupied occ (fastrange (hash_key j s) n)"
    using ih free unfolding list.set(2) ball_simps by blast
  ultimately show ?case using ih by blast
qed simp

lemma find_seed_Some:
  assumes "find_seed n gs occ bkt d = Some (d', ps)"
  shows "d' \<le> 1000000 \<and> place_bucket n (seed_of gs d') occ bkt [] = Placed ps"
  using assms
proof (induction n gs occ bkt d rule: find_seed.induct)
  case (1 n gs occ bkt d)
  from 1(2) show ?case
    by (subst (asm) find_seed.simps)
      (auto split: if_splits placement.splits dest: 1(1) [rotated])
qed

text \<open>What the placed buckets \<open>bs\<close> occupy under the seeds chosen so far.\<close>

definition slots_of :: "nat \<Rightarrow> u64 \<Rightarrow> (nat \<Rightarrow> u64 list) \<Rightarrow> nat list \<Rightarrow> nat list \<Rightarrow> nat list" where
  "slots_of n gs B seeds bs = concat (map (\<lambda>b. map (slot n gs (seeds ! b)) (B b)) bs)"

lemma slots_of_update: "b \<notin> set bs \<Longrightarrow> slots_of n gs B (seeds[b := d]) bs = slots_of n gs B seeds bs"
  unfolding slots_of_def by (intro arg_cong [where f = concat] map_cong refl) (metis nth_list_update_neq)

lemma slots_of_less: "0 < n \<Longrightarrow> p \<in> set (slots_of n gs B seeds bs) \<Longrightarrow> p < n"
  by (auto simp: slots_of_def slot_def)

lemma place_all_distinct:
  fixes flat :: "u64 list" and bnds :: "nat list"
  defines "B \<equiv> \<lambda>b. slice flat (bnds ! b) (bnds ! (b + 1))"
  assumes "place_all n gs bnds flat order occ seeds = Some seeds'" "0 < n" "length occ = div_ceil n 64"
    and "distinct (bs @ order)" "\<forall>b \<in> set order. b < length seeds" "\<forall>d \<in> set seeds. d \<le> 1000000"
    and "distinct (slots_of n gs B seeds bs)" "\<forall>p < n. is_occupied occ p \<longleftrightarrow> p \<in> set (slots_of n gs B seeds bs)"
  shows "distinct (slots_of n gs B seeds' (bs @ order)) \<and> length seeds' = length seeds \<and> (\<forall>d \<in> set seeds'. d \<le> 1000000)"
  using assms(2-)
proof (induction order arbitrary: occ seeds bs)
  case (Cons bi order)
  note prems = Cons.prems
  show ?case
  proof (cases "bnds ! bi = bnds ! (bi + 1)")
    case True
    then have "B bi = []" by (simp add: B_def slice_def)
    then have "slots_of n gs B seeds (bs @ [bi]) = slots_of n gs B seeds bs" for seeds
      by (simp add: slots_of_def)
    with Cons.IH [of occ seeds "bs @ [bi]"] prems True show ?thesis by simp
  next
    case False
    with prems(1) obtain d ps where fs: "find_seed n gs occ (B bi) 1 = Some (d, ps)"
      and rest: "place_all n gs bnds flat order (fold (\<lambda>p occ. occupy occ p) ps occ) (seeds[bi := d]) = Some seeds'"
      by (auto simp: Let_def B_def split: option.splits)
    have d: "d \<le> 1000000" "ps = map (slot n gs d) (B bi)" "distinct ps"
      and free: "\<forall>p \<in> set ps. \<not> is_occupied occ p"
      using find_seed_Some [OF fs] place_bucket_Placed [of n "seed_of gs d" occ "B bi" "[]" ps]
      by (auto simp: slot_def fun_eq_iff)
    have psn: "\<forall>p \<in> set ps. p < n" using prems(2) by (auto simp: d slot_def)
    then have fits: "\<forall>q \<in> set ps. q div 64 < length occ" using prems(3) by (simp add: less_div_ceil)
    let ?S = "slots_of n gs B seeds bs"
    have new: "slots_of n gs B (seeds[bi := d]) (bs @ [bi]) = ?S @ ps"
      using prems(4,5) slots_of_update [of bi bs] by (simp add: slots_of_def d)
    have dj: "set ?S \<inter> set ps = {}" using free psn prems(8) by auto
    have "set (seeds[bi := d]) \<subseteq> insert d (set seeds)" by (rule set_update_subset_insert)
    then have "\<forall>x \<in> set (seeds[bi := d]). x \<le> 1000000" using prems(6) d(1) by auto
    with Cons.IH [of "fold (\<lambda>p occ. occupy occ p) ps occ" "seeds[bi := d]" "bs @ [bi]", OF rest]
    show ?thesis
      using prems dj d(3) by (auto simp: new is_occupied_occupy_all [OF fits])
  qed
qed simp

section \<open>The constructed function\<close>

lemma mset_concat_perm: "mset xs = mset ys \<Longrightarrow> mset (concat (map f xs)) = mset (concat (map f ys))"
  by (metis mset_concat mset_map map_map sum_mset_sum_list)

text \<open>The slot a seed table gives a key, and that a successful attempt makes it injective.\<close>

definition chosen :: "nat \<Rightarrow> nat \<Rightarrow> u64 \<Rightarrow> nat list \<Rightarrow> u64 \<Rightarrow> nat" where
  "chosen n nb gs seeds k = slot n gs (seeds ! fastrange (hash_key k gs) nb) k"

lemma build_attempt_Some:
  assumes "build_attempt keys nb gs = Some seeds" "keys \<noteq> []" "0 < nb"
  shows "distinct (map (chosen (length keys) nb gs seeds) keys) \<and> length seeds = nb \<and> (\<forall>d \<in> set seeds. d \<le> 1000000)"
proof -
  let ?n = "length keys" and ?f = "\<lambda>k. fastrange (hash_key k gs) nb"
  let ?bnds = "bounds_of nb (count_bids (map ?f keys) (replicate (nb + 1) 0))"
  let ?flat = "fill_flat (zip (map ?f keys) keys) ?bnds (replicate ?n 0)"
  let ?order = "sort_key (\<lambda>b. - int (?bnds ! (b + 1) - ?bnds ! b)) [0..<nb]"
  let ?B = "\<lambda>b. slice ?flat (?bnds ! b) (?bnds ! (b + 1))"
  have f: "?f k < nb" for k using assms(3) by (rule fastrange_less)
  have bs: "?bnds ! d = start ?f keys d" if "d \<le> nb" for d using that by (intro bounds_start f)
  have lb: "nb \<le> length ?bnds" using bounds_of_nth(1) [of nb "count_bids (map ?f keys) (replicate (nb + 1) 0)" 0] by simp
  have B: "?B b = bucket ?f keys b" if "b < nb" for b
    using that place_buckets(2) [of keys ?f nb ?bnds "replicate ?n 0" b, OF f lb] bs
    by (simp add: fill_flat_place)
  have ord: "distinct ?order" "set ?order = {0..<nb}" by (simp_all add: distinct_sort)
  have r: "distinct (slots_of ?n gs ?B seeds ([] @ ?order)) \<and> length seeds = length (replicate nb (0 :: nat)) \<and> (\<forall>d \<in> set seeds. d \<le> 1000000)"
  proof (rule place_all_distinct [where occ = "replicate (div_ceil ?n 64) 0"])
    show "place_all ?n gs ?bnds ?flat ?order (replicate (div_ceil ?n 64) 0) (replicate nb 0) = Some seeds"
      using assms(1) by (simp add: build_attempt_def Let_def)
    show "\<forall>p < ?n. is_occupied (replicate (div_ceil ?n 64) 0) p \<longleftrightarrow> p \<in> set (slots_of ?n gs ?B (replicate nb 0) [])"
      by (simp add: is_occupied_iff slots_of_def less_div_ceil)
  qed (use assms(2) ord in \<open>auto simp: slots_of_def\<close>)
  have "slots_of ?n gs ?B seeds ?order = map (chosen ?n nb gs seeds) (concat (map (bucket ?f keys) ?order))"
    unfolding slots_of_def map_concat map_map o_def
    by (intro arg_cong [where f = concat] map_cong refl)
      (use ord B in \<open>auto simp: bucket_def chosen_def\<close>)
  moreover have "mset (concat (map (bucket ?f keys) ?order)) = mset (concat (map (bucket ?f keys) [0..<nb]))"
    by (rule mset_concat_perm) simp
  moreover have "concat (map (bucket ?f keys) [0..<nb]) = sort_key ?f keys" using f by (intro bucket_sort)
  ultimately have "mset (slots_of ?n gs ?B seeds ?order) = mset (map (chosen ?n nb gs seeds) keys)" by simp
  then have "distinct (slots_of ?n gs ?B seeds ?order) \<longleftrightarrow> distinct (map (chosen ?n nb gs seeds) keys)"
    by (rule mset_eq_imp_distinct_iff)
  with r show ?thesis by simp
qed

text \<open>What a built table is: the packed seeds and the injectivity they were chosen for.\<close>

lemma mph_build_Some:
  assumes "mph_build keys = Some m" "keys \<noteq> []"
  obtains seeds where "mph_seeds m = pack (map of_nat seeds)" "length seeds = mph_nb m" "0 < mph_nb m"
    "mph_nb m \<le> length keys" "mph_n m = length keys" "\<forall>d \<in> set seeds. d \<le> 1000000"
    "distinct (map (chosen (length keys) (mph_nb m) (mph_gs m) seeds) keys)"
proof -
  let ?nb = "div_ceil (length keys) 4"
  have nb: "0 < ?nb" "?nb \<le> length keys" using assms(2) by (cases keys; simp add: div_ceil_def)+
  have "try_global keys ?nb a = Some m \<Longrightarrow> \<exists>seeds gs. build_attempt keys ?nb gs = Some seeds \<and>
      m = \<lparr>mph_seeds = pack (map of_nat seeds), mph_nb = ?nb, mph_gs = gs, mph_n = length keys\<rparr>" for a
  proof (induction keys ?nb a rule: try_global.induct)
    case (1 keys a)
    from 1(2) show ?case
      by (subst (asm) try_global.simps) (auto split: if_splits option.splits dest: 1(1) [rotated])
  qed
  then obtain seeds gs where b: "build_attempt keys ?nb gs = Some seeds"
    and m: "m = \<lparr>mph_seeds = pack (map of_nat seeds), mph_nb = ?nb, mph_gs = gs, mph_n = length keys\<rparr>"
    using assms unfolding mph_build_def Let_def by (metis length_0_conv)
  show thesis using that [of seeds] build_attempt_Some [OF b assms(2) nb(1)] nb by (simp add: m)
qed

lemma mph_lookup_chosen:
  assumes "holds (mph_seeds m) (map of_nat seeds)" "length seeds = mph_nb m" "0 < mph_nb m"
    and "length seeds \<le> 2 ^ 26"
  shows "mph_lookup m k = chosen (mph_n m) (mph_nb m) (mph_gs m) seeds k"
proof -
  have "fastrange (hash_key k (mph_gs m)) (mph_nb m) < length seeds" using assms(2,3) by auto
  then have "packed_get (mph_seeds m) (fastrange (hash_key k (mph_gs m)) (mph_nb m))
      = of_nat (seeds ! fastrange (hash_key k (mph_gs m)) (mph_nb m))"
    using holds_get [OF assms(1)] assms(4) by simp
  then show ?thesis by (simp add: mph_lookup_def chosen_def slot_def seed_of_def Let_def)
qed

text \<open>The table and the one rebuilt from its stored parts compute the same injection.\<close>

lemma mph_build_lookup:
  assumes "mph_build keys = Some m" "keys \<noteq> []" "length keys \<le> 2 ^ 26"
  shows "distinct (map (mph_lookup m) keys)" "mph_n m = length keys"
    and "\<exists>m'. (case mph_to_parts m of (gs, nb, n, b, w, ws) \<Rightarrow> mph_from_parts gs nb n b w ws) = Inr m'
      \<and> (\<forall>k. mph_lookup m' k = mph_lookup m k)"
proof -
  obtain seeds where seeds: "mph_seeds m = pack (map of_nat seeds)" "length seeds = mph_nb m" "0 < mph_nb m"
    "mph_nb m \<le> length keys" "mph_n m = length keys"
    and d: "distinct (map (chosen (length keys) (mph_nb m) (mph_gs m) seeds) keys)"
    using mph_build_Some [OF assms(1,2)] .
  have h: "holds (mph_seeds m) (map of_nat seeds)" unfolding seeds(1) by (rule holds_pack)
  have len: "length seeds \<le> 2 ^ 26" using seeds assms(3) by simp
  note look = mph_lookup_chosen [OF h seeds(2,3) len]
  have "map (mph_lookup m) keys = map (chosen (length keys) (mph_nb m) (mph_gs m) seeds) keys"
    by (simp add: look seeds(5))
  then show "distinct (map (mph_lookup m) keys)" using d by (simp only:)
  show "mph_n m = length keys" by (rule seeds)
  let ?m = "m\<lparr>mph_seeds := from_parts (p_base (mph_seeds m)) (p_width (mph_seeds m)) (p_words (mph_seeds m))\<rparr>"
  have "holds (mph_seeds ?m) (map of_nat seeds)" using holds_from_parts [OF h] by simp
  then have "mph_lookup ?m k = mph_lookup m k" for k
    using mph_lookup_chosen [of ?m seeds k] seeds len look by simp
  then show "\<exists>m'. (case mph_to_parts m of (gs, nb, n, b, w, ws) \<Rightarrow> mph_from_parts gs nb n b w ws) = Inr m'
      \<and> (\<forall>k. mph_lookup m' k = mph_lookup m k)"
    using seeds(3) by (intro exI [of _ ?m]) (simp add: mph_to_parts_def mph_from_parts_def)
qed

lemma mph_lookup_less: "0 < mph_n m \<Longrightarrow> mph_lookup m k < mph_n m"
  by (auto simp: mph_lookup_def Let_def)

text \<open>A table that the construction finds at its first attempt.\<close>

lemma mph_example: "\<exists>m. mph_build [10, 500] = Some m"
proof -
  have "build_attempt [10, 500] 1 (global_seed 0) = Some [2]"
    by (simp add: build_attempt_def bounds_of_def global_seed_def find_seed.simps seed_of_def hash_key_def
        mum_def fastrange_def is_occupied_def occupy_def div_ceil_def slice_def Let_def)
  then show ?thesis by (simp add: mph_build_def div_ceil_def try_global.simps)
qed

section \<open>Properties\<close>

text \<open>C28: The table the construction returns is a minimal perfect hash: it maps the keys it was built from one to
  one onto the slots \<open>0, \<dots>, n - 1\<close>, sends every other key into the same range, and the table reassembled
  from its stored parts is the same function.\<close>

theorem mph_perfect:
  assumes "mph_build keys = Some m" "keys \<noteq> []" "length keys \<le> 2 ^ 26"
  shows "bij_betw (mph_lookup m) (set keys) {0..<length keys} \<and> distinct keys
    \<and> (\<forall>k. mph_lookup m k < length keys)
    \<and> (\<exists>m'. (case mph_to_parts m of (gs, nb, n, b, w, ws) \<Rightarrow> mph_from_parts gs nb n b w ws) = Inr m'
         \<and> (\<forall>k. mph_lookup m' k = mph_lookup m k))"
proof -
  note l = mph_build_lookup [OF assms]
  have rng: "mph_lookup m k < length keys" for k using mph_lookup_less [of m k] assms(2) l(2) by simp
  have inj: "inj_on (mph_lookup m) (set keys)" and d: "distinct keys" using l(1) by (auto simp: distinct_map)
  have "card (mph_lookup m ` set keys) = length keys" using card_image [OF inj] distinct_card [OF d] by simp
  then have "mph_lookup m ` set keys = {0..<length keys}" using rng by (intro card_subset_eq) auto
  with inj d rng l(3) show ?thesis unfolding bij_betw_def by blast
qed

theorem mph_perfect_witness:
  "\<exists>m. mph_build [10, 500] = Some m \<and> bij_betw (mph_lookup m) {10, 500} {0..<2}"
proof -
  obtain m where m: "mph_build [10, 500] = Some m" using mph_example by blast
  from mph_perfect [OF this] m show ?thesis by (simp flip: numeral_2_eq_2)
qed

end
