(* ===== verification/Text.thy ===== *)
theory Text
  imports Granular_Prelude
begin

text \<open>
  The operations on strings the sources take from the standard library: a \<open>str\<close> is its UTF-8 bytes.
  Trimming, splitting at an ASCII byte, ASCII case folding, and the decimal spelling of integers
  (\<open>to_string\<close>, padded formatting, \<open>parse\<close>) with its round trips.
\<close>

section \<open>Definitions\<close>

definition ascii :: "string \<Rightarrow> bytes" where
  "ascii s = map of_char s"

text \<open>\<open>char::is_whitespace\<close> (the property White\_Space), as the UTF-8 sequences it accepts.\<close>

definition ws_seqs :: "bytes list" where
  "ws_seqs = map (\<lambda>b. [b]) [9, 10, 11, 12, 13, 32] @ [[0xC2, 0x85], [0xC2, 0xA0], [0xE1, 0x9A, 0x80]]
     @ map (\<lambda>b. [0xE2, 0x80, b])
         [0x80, 0x81, 0x82, 0x83, 0x84, 0x85, 0x86, 0x87, 0x88, 0x89, 0x8A, 0xA8, 0xA9, 0xAF]
     @ [[0xE2, 0x81, 0x9F], [0xE3, 0x80, 0x80]]"

definition ws_prefix :: "bytes list \<Rightarrow> bytes \<Rightarrow> nat" where
  "ws_prefix seqs s = (case filter (\<lambda>w. take (length w) s = w) seqs of [] \<Rightarrow> 0 | w # _ \<Rightarrow> length w)"

function strip :: "bytes list \<Rightarrow> bytes \<Rightarrow> bytes" where
  "strip seqs s =
     (if ws_prefix seqs s = 0 \<or> s = [] then s else strip seqs (drop (ws_prefix seqs s) s))"
  by pat_completeness auto
termination by (relation "measure (\<lambda>(seqs, s). length s)") auto

definition trim :: "bytes \<Rightarrow> bytes" where
  "trim s = rev (strip (map rev ws_seqs) (rev (strip ws_seqs s)))"

text \<open>\<open>split(c)\<close> for an ASCII separator, \<open>find(c)\<close>, \<open>trim_matches(c)\<close>.\<close>

fun split_on :: "u8 \<Rightarrow> bytes \<Rightarrow> bytes list" where
  "split_on c [] = [[]]"
| "split_on c (b # s) =
     (if b = c then [] # split_on c s
      else case split_on c s of [] \<Rightarrow> [[b]] | p # ps \<Rightarrow> (b # p) # ps)"

definition find_byte :: "u8 \<Rightarrow> bytes \<Rightarrow> nat option" where
  "find_byte c s = (if c \<in> set s then Some (length (takeWhile (\<lambda>b. b \<noteq> c) s)) else None)"

definition trim_matches :: "u8 \<Rightarrow> bytes \<Rightarrow> bytes" where
  "trim_matches c s = rev (dropWhile (\<lambda>b. b = c) (rev (dropWhile (\<lambda>b. b = c) s)))"

definition trim_end_matches :: "u8 \<Rightarrow> bytes \<Rightarrow> bytes" where
  "trim_end_matches c s = rev (dropWhile (\<lambda>b. b = c) (rev s))"

definition to_ascii_lowercase :: "bytes \<Rightarrow> bytes" where
  "to_ascii_lowercase s = map (\<lambda>b. if 65 \<le> b \<and> b \<le> 90 then b + 32 else b) s"

definition eq_ignore_ascii_case :: "bytes \<Rightarrow> bytes \<Rightarrow> bool" where
  "eq_ignore_ascii_case a b \<longleftrightarrow> to_ascii_lowercase a = to_ascii_lowercase b"

text \<open>Decimal spelling of integers, and the formatting \<open>{:0w$}\<close> that pads with zeros.\<close>

definition digit_byte :: "nat \<Rightarrow> u8" where
  "digit_byte d = of_nat (48 + d)"

fun show_nat :: "nat \<Rightarrow> bytes" where
  "show_nat n = (if n < 10 then [digit_byte n] else show_nat (n div 10) @ [digit_byte (n mod 10)])"

definition show_int :: "int \<Rightarrow> bytes" where
  "show_int i = (if i < 0 then 45 # show_nat (nat (- i)) else show_nat (nat i))"

definition pad_nat :: "nat \<Rightarrow> nat \<Rightarrow> bytes" where
  "pad_nat w n = (let s = show_nat n in replicate (w - length s) 48 @ s)"

text \<open>A sign counts towards the width and comes before the padding.\<close>

definition pad_int :: "nat \<Rightarrow> int \<Rightarrow> bytes" where
  "pad_int w i = (if i < 0 then 45 # pad_nat (w - 1) (nat (- i)) else pad_nat w (nat i))"

definition is_digit :: "u8 \<Rightarrow> bool" where
  "is_digit b \<longleftrightarrow> 48 \<le> b \<and> b \<le> 57"

fun digits_val :: "nat \<Rightarrow> bytes \<Rightarrow> nat option" where
  "digits_val acc [] = Some acc"
| "digits_val acc (b # s) = (if is_digit b then digits_val (acc * 10 + (unat b - 48)) s else None)"

text \<open>\<open>parse\<close> of an unsigned and of a signed integer type with the given bounds.\<close>

definition parse_uint :: "nat \<Rightarrow> bytes \<Rightarrow> nat option" where
  "parse_uint hi s =
     (let ds = (if s \<noteq> [] \<and> hd s = 43 then tl s else s)
      in if ds = [] then None
         else case digits_val 0 ds of None \<Rightarrow> None | Some n \<Rightarrow> if n \<le> hi then Some n else None)"

definition parse_int :: "int \<Rightarrow> int \<Rightarrow> bytes \<Rightarrow> int option" where
  "parse_int lo hi s =
     (let neg = (s \<noteq> [] \<and> hd s = 45);
          ds = (if s \<noteq> [] \<and> (hd s = 43 \<or> hd s = 45) then tl s else s)
      in if ds = [] then None
         else case digits_val 0 ds of
                None \<Rightarrow> None
              | Some n \<Rightarrow> let i = (if neg then - int n else int n)
                          in if lo \<le> i \<and> i \<le> hi then Some i else None)"

declare show_nat.simps [simp del] strip.simps [simp del]

section \<open>Decimal digits\<close>

lemma unat_digit_byte [simp]: "d < 10 \<Longrightarrow> unat (digit_byte d) = 48 + d"
  unfolding digit_byte_def by (subst unat_of_nat) simp

lemma is_digit_byte [simp]: "d < 10 \<Longrightarrow> is_digit (digit_byte d)"
  by (simp add: is_digit_def word_le_nat_alt)

lemma show_nat_ne [simp]: "show_nat n \<noteq> []"
  by (subst show_nat.simps) auto

lemma show_nat_digits: "b \<in> set (show_nat n) \<Longrightarrow> is_digit b"
  by (induction n rule: show_nat.induct) (subst (asm) (2) show_nat.simps, auto split: if_splits)

lemma digits_val_append:
  "digits_val acc (s @ t) = (case digits_val acc s of None \<Rightarrow> None | Some n \<Rightarrow> digits_val n t)"
  by (induction s arbitrary: acc) simp_all

lemma digits_val_zeros: "digits_val 0 (replicate k 48 @ s) = digits_val 0 s"
  by (induction k) (simp_all add: is_digit_def)

lemma digits_val_show: "digits_val 0 (show_nat n) = Some n"
proof (induction n rule: show_nat.induct)
  case (1 n)
  then show ?case by (subst show_nat.simps) (simp add: digits_val_append)
qed

lemma digits_val_pad: "digits_val 0 (pad_nat w n) = Some n"
  by (simp add: pad_nat_def Let_def digits_val_zeros digits_val_show)

lemma pad_nat_digits: "b \<in> set (pad_nat w n) \<Longrightarrow> is_digit b"
  unfolding pad_nat_def Let_def using show_nat_digits [of b n] by (auto simp: is_digit_def [of 48])

lemma pad_nat_ne [simp]: "pad_nat w n \<noteq> []"
  by (simp add: pad_nat_def Let_def)

lemma digits_val_acc:
  "digits_val acc s = map_option (\<lambda>n. acc * 10 ^ length s + n) (digits_val 0 s)"
proof (induction s arbitrary: acc)
  case (Cons b s)
  show ?case
  proof (cases "is_digit b")
    case True
    then show ?thesis
      using Cons.IH [of "acc * 10 + (unat b - 48)"] Cons.IH [of "unat b - 48"]
      by (cases "digits_val 0 s") (simp_all add: algebra_simps)
  qed simp
qed simp

lemma digits_val_Some: "\<forall>b \<in> set s. is_digit b \<Longrightarrow> \<exists>n. digits_val acc s = Some n"
  by (induction s arbitrary: acc) auto

lemma length_show_nat: "n < 10 ^ k \<Longrightarrow> 0 < k \<Longrightarrow> length (show_nat n) \<le> k"
proof (induction n arbitrary: k rule: show_nat.induct)
  case (1 n)
  show ?case
  proof (cases "n < 10")
    case True
    then show ?thesis using 1(3) by (subst show_nat.simps) simp
  next
    case False
    then have "k \<noteq> 1" "k \<noteq> 0" using 1(2,3) by auto
    then obtain j where k: "k = Suc j" "0 < j" by (cases k) auto
    have "n div 10 < 10 ^ j" using 1(2) by (simp add: k less_mult_imp_div_less)
    then show ?thesis using 1(1) [OF False, of j] k False by (subst show_nat.simps) simp
  qed
qed

lemma length_pad_nat: "n < 10 ^ w \<Longrightarrow> 0 < w \<Longrightarrow> length (pad_nat w n) = w"
  using length_show_nat [of n w] by (simp add: pad_nat_def Let_def)

lemma digits_no_sign: "s \<noteq> [] \<Longrightarrow> \<forall>b \<in> set s. is_digit b \<Longrightarrow> hd s \<noteq> 43 \<and> hd s \<noteq> 45"
  by (cases s) (auto simp: is_digit_def)

lemma parse_uint_digits:
  assumes "s \<noteq> []" "\<forall>b \<in> set s. is_digit b" "digits_val 0 s = Some n" "n \<le> hi"
  shows "parse_uint hi s = Some n"
  using assms digits_no_sign [of s] by (simp add: parse_uint_def)

lemma parse_int_digits:
  assumes "s \<noteq> []" "\<forall>b \<in> set s. is_digit b" "digits_val 0 s = Some n" "lo \<le> int n" "int n \<le> hi"
  shows "parse_int lo hi s = Some (int n)"
  using assms digits_no_sign [of s] by (simp add: parse_int_def)

lemma parse_uint_show: "n \<le> hi \<Longrightarrow> parse_uint hi (show_nat n) = Some n"
  by (rule parse_uint_digits) (auto simp: digits_val_show show_nat_digits)

lemma parse_int_show:
  assumes "lo \<le> i" "i \<le> hi"
  shows "parse_int lo hi (show_int i) = Some i"
proof (cases "i < 0")
  case True
  then show ?thesis using assms by (simp add: show_int_def parse_int_def digits_val_show)
next
  case False
  then show ?thesis
    using assms parse_int_digits [of "show_nat (nat i)" "nat i" lo hi]
    by (auto simp: show_int_def digits_val_show show_nat_digits)
qed

lemma parse_int_pad:
  assumes "lo \<le> i" "i \<le> hi"
  shows "parse_int lo hi (pad_int w i) = Some i"
proof (cases "i < 0")
  case True
  then show ?thesis using assms by (simp add: pad_int_def parse_int_def digits_val_pad)
next
  case False
  then show ?thesis
    using assms parse_int_digits [of "pad_nat w (nat i)" "nat i" lo hi]
    by (auto simp: pad_int_def digits_val_pad pad_nat_digits)
qed

lemma parse_uint_pad: "n \<le> hi \<Longrightarrow> parse_uint hi (pad_nat w n) = Some n"
  by (rule parse_uint_digits) (auto simp: digits_val_pad pad_nat_digits)

section \<open>Trimming and splitting\<close>

text \<open>A byte that neither starts nor ends a white-space sequence stops the trimming.\<close>

definition solid :: "u8 \<Rightarrow> bool" where
  "solid b \<longleftrightarrow> 33 \<le> b \<and> b \<le> 126"

lemma ws_seqs_not_solid: "list_all (\<lambda>w. w \<noteq> [] \<and> \<not> solid (hd w) \<and> \<not> solid (hd (rev w))) ws_seqs"
  by (simp add: ws_seqs_def solid_def)

lemma ws_prefix_stop:
  assumes "\<forall>w \<in> set seqs. w \<noteq> [] \<and> \<not> solid (hd w)" "solid (hd s)"
  shows "ws_prefix seqs s = 0"
proof -
  have "take (length w) s \<noteq> w" if "w \<in> set seqs" for w
    using that assms by (metis hd_take length_greater_0_conv)
  then have "filter (\<lambda>w. take (length w) s = w) seqs = []" by (simp add: filter_empty_conv)
  then show ?thesis by (simp add: ws_prefix_def)
qed

lemma ws_prefix_solid:
  assumes "solid (hd s)"
  shows "ws_prefix ws_seqs s = 0" "ws_prefix (map rev ws_seqs) s = 0"
  using assms ws_seqs_not_solid by (auto intro!: ws_prefix_stop simp: list_all_iff)

lemma strip_solid:
  assumes "s \<noteq> []" "solid (hd s)"
  shows "strip ws_seqs s = s" "strip (map rev ws_seqs) s = s"
  using ws_prefix_solid [OF assms(2)] by (subst strip.simps; simp)+

lemma strip_Nil [simp]: "strip seqs [] = []"
  by (simp add: strip.simps)

lemma trim_solid: "s \<noteq> [] \<Longrightarrow> solid (hd s) \<Longrightarrow> solid (last s) \<Longrightarrow> trim s = s"
  by (simp add: trim_def strip_solid hd_rev)

lemma trim_Nil [simp]: "trim [] = []"
  by (simp add: trim_def)

lemma trim_end_matches_last: "s \<noteq> [] \<Longrightarrow> last s \<noteq> c \<Longrightarrow> trim_end_matches c s = s"
  by (cases s rule: rev_cases) (simp_all add: trim_end_matches_def)

lemma digit_solid: "is_digit b \<Longrightarrow> solid b"
  by (simp add: is_digit_def solid_def word_le_nat_alt)

lemma trim_all_solid: "\<forall>b \<in> set s. solid b \<Longrightarrow> trim s = s"
  by (cases "s = []") (simp_all add: trim_solid)

lemma split_on_free: "c \<notin> set s \<Longrightarrow> split_on c s = [s]"
  by (induction s) auto

lemma split_on_append: "c \<notin> set s \<Longrightarrow> split_on c (s @ c # t) = s # split_on c t"
  by (induction s) auto

lemma find_byte_append: "c \<notin> set s \<Longrightarrow> find_byte c (s @ c # t) = Some (length s)"
  by (induction s) (auto simp: find_byte_def)

lemma find_byte_None: "find_byte c s = None \<longleftrightarrow> c \<notin> set s"
  by (simp add: find_byte_def)

end
