(* ===== verification/Data_Types.thy ===== *)
theory Data_Types
  imports Text
begin

text \<open>
  SQL types and the four physical kinds they collapse to, \<^verbatim>\<open>src/types/datatype.rs\<close>: the queries on a
  type, the promotion table of binary arithmetic, the type-name parser and the printer. The scale of a
  decimal (\<open>u8\<close>) and the length of a fixed string (\<open>u32\<close>) are natural numbers; \<open>type_ok\<close> says what the
  parser lets through. Shown: the catalog round trip (a printed type parses back to itself, and
  whatever parses is printed in the form in force), and the laws of the promotion table.
\<close>

section \<open>Definitions\<close>

datatype physical_type = U64 | I64 | F64 | Str

datatype data_type =
    UInt8 | UInt16 | UInt32 | UInt64
  | Int8 | Int16 | Int32 | Int64
  | Float32 | Float64
  | Bool | String | FixedString nat
  | Date | DateTime
  | Decimal64 nat
  | Nullable data_type
  | LowCardinality data_type

abbreviation (input) MAX_DECIMAL_PRECISION :: nat where
  "MAX_DECIMAL_PRECISION \<equiv> 18"

fun physical :: "data_type \<Rightarrow> physical_type" where
  "physical UInt8 = U64" | "physical UInt16 = U64" | "physical UInt32 = U64" | "physical UInt64 = U64"
| "physical Bool = U64" | "physical Date = U64" | "physical DateTime = U64"
| "physical Int8 = I64" | "physical Int16 = I64" | "physical Int32 = I64" | "physical Int64 = I64"
| "physical (Decimal64 _) = I64"
| "physical Float32 = F64" | "physical Float64 = F64"
| "physical String = Str" | "physical (FixedString _) = Str"
| "physical (Nullable inner) = physical inner"
| "physical (LowCardinality inner) = physical inner"

fun base :: "data_type \<Rightarrow> data_type" where
  "base (Nullable i) = base i"
| "base (LowCardinality i) = base i"
| "base other = other"

fun is_nullable :: "data_type \<Rightarrow> bool" where
  "is_nullable (Nullable _) = True"
| "is_nullable (LowCardinality i) = is_nullable i"
| "is_nullable _ = False"

definition to_nullable :: "data_type \<Rightarrow> data_type" where
  "to_nullable t = (if is_nullable t then t else Nullable t)"

fun strip_nullable :: "data_type \<Rightarrow> data_type" where
  "strip_nullable (Nullable i) = strip_nullable i"
| "strip_nullable (LowCardinality i) = LowCardinality (strip_nullable i)"
| "strip_nullable other = other"

definition is_numeric :: "data_type \<Rightarrow> bool" where
  "is_numeric t \<longleftrightarrow> physical (base t) \<in> {U64, I64, F64} \<and> base t \<notin> {Date, DateTime}"

definition is_decimal :: "data_type \<Rightarrow> bool" where
  "is_decimal t = (case base t of Decimal64 _ \<Rightarrow> True | _ \<Rightarrow> False)"

definition is_integer :: "data_type \<Rightarrow> bool" where
  "is_integer t \<longleftrightarrow> physical (base t) \<in> {U64, I64} \<and> base t \<notin> {Date, DateTime, Bool} \<and>
     \<not> (case base t of Decimal64 _ \<Rightarrow> True | _ \<Rightarrow> False)"

definition decimal_scale :: "data_type \<Rightarrow> nat option" where
  "decimal_scale t = (case base t of Decimal64 s \<Rightarrow> Some s | _ \<Rightarrow> None)"

definition is_float :: "data_type \<Rightarrow> bool" where
  "is_float t \<longleftrightarrow> physical (base t) = F64"

definition is_string :: "data_type \<Rightarrow> bool" where
  "is_string t \<longleftrightarrow> physical (base t) = Str"

definition is_temporal :: "data_type \<Rightarrow> bool" where
  "is_temporal t \<longleftrightarrow> base t \<in> {Date, DateTime}"

definition int_bounds :: "data_type \<Rightarrow> (int \<times> int) option" where
  "int_bounds t = (case base t of
     UInt8 \<Rightarrow> Some (0, 2 ^ 8 - 1)
   | UInt16 \<Rightarrow> Some (0, 2 ^ 16 - 1)
   | UInt32 \<Rightarrow> Some (0, 2 ^ 32 - 1)
   | UInt64 \<Rightarrow> Some (0, 2 ^ 64 - 1)
   | Int8 \<Rightarrow> Some (- (2 ^ 7), 2 ^ 7 - 1)
   | Int16 \<Rightarrow> Some (- (2 ^ 15), 2 ^ 15 - 1)
   | Int32 \<Rightarrow> Some (- (2 ^ 31), 2 ^ 31 - 1)
   | Int64 \<Rightarrow> Some (- (2 ^ 63), 2 ^ 63 - 1)
   | Bool \<Rightarrow> Some (0, 1)
   | Date \<Rightarrow> Some (0, 2 ^ 32 - 1)
   | DateTime \<Rightarrow> Some (- (2 ^ 63), 2 ^ 63 - 1)
   | _ \<Rightarrow> None)"

text \<open>
  The arms of the promotion table in their order; an or-pattern with a guard tries both readings. The
  wildcard names the base types in the error message only.
\<close>

definition fixed_len :: "data_type \<Rightarrow> nat option" where
  "fixed_len t = (case t of FixedString n \<Rightarrow> Some n | _ \<Rightarrow> None)"

definition promote_string :: "data_type \<Rightarrow> data_type \<Rightarrow> data_type option" where
  "promote_string x y =
     (if (x = String \<and> fixed_len y \<noteq> None) \<or> (fixed_len x \<noteq> None \<and> y = String) then Some String
      else case (fixed_len x, fixed_len y) of
             (Some m, Some n) \<Rightarrow> Some (FixedString (max m n))
           | _ \<Rightarrow> None)"

definition promote_integral :: "data_type \<Rightarrow> data_type \<Rightarrow> data_type option" where
  "promote_integral x y =
     (if is_integer x \<and> is_integer y
      then Some (if physical x = I64 \<or> physical y = I64 then Int64 else UInt64)
      else if (x = Date \<and> is_integer y) \<or> (y = Date \<and> is_integer x) then Some Date
      else if (x = DateTime \<and> is_integer y) \<or> (y = DateTime \<and> is_integer x) then Some DateTime
      else if x = Bool \<and> is_integer y then Some y
      else if y = Bool \<and> is_integer x then Some x
      else promote_string x y)"

definition promote_base :: "data_type \<Rightarrow> data_type \<Rightarrow> data_type option" where
  "promote_base x y =
     (if x = Bool \<and> y = Bool then Some Int64
      else if x = y then Some x
      else if (x = Float64 \<and> is_numeric y) \<or> (y = Float64 \<and> is_numeric x) then Some Float64
      else if (x = Float32 \<and> is_numeric y) \<or> (y = Float32 \<and> is_numeric x) then Some Float64
      else case (decimal_scale x, decimal_scale y) of
        (Some s, Some s') \<Rightarrow> Some (Decimal64 (max s s'))
      | (Some s, None) \<Rightarrow> if is_integer y \<or> y = Bool then Some (Decimal64 s) else None
      | (None, Some s) \<Rightarrow> if is_integer x \<or> x = Bool then Some (Decimal64 s) else None
      | (None, None) \<Rightarrow> promote_integral x y)"

definition promote :: "data_type \<Rightarrow> data_type \<Rightarrow> data_type result" where
  "promote a b =
     (let nullable = is_nullable a \<or> is_nullable b
      in case promote_base (base a) (base b) of
           None \<Rightarrow> Inl (Bind ''no common type'')
         | Some out \<Rightarrow> Inr (if nullable then to_nullable out else out))"

section \<open>Parsing and printing\<close>

abbreviation (input) LOWER_CAP :: nat where
  "LOWER_CAP \<equiv> 16"

definition lower :: "bytes \<Rightarrow> bytes option" where
  "lower s = (if length s > LOWER_CAP then None else Some (to_ascii_lowercase s))"

definition lower_or_empty :: "bytes \<Rightarrow> bytes" where
  "lower_or_empty s = (case lower s of None \<Rightarrow> [] | Some l \<Rightarrow> l)"

definition is_utc :: "bytes \<Rightarrow> bool" where
  "is_utc z =
     (let z = trim_matches 39 (trim z)
      in list_ex (\<lambda>u. eq_ignore_ascii_case z (ascii u))
           [''utc'', ''etc/utc'', ''gmt'', ''etc/gmt'', ''z'', ''zulu'', ''universal'', ''uct''])"

definition too_wide :: "nat \<Rightarrow> error" where
  "too_wide digits = Unsupported ''more significant digits than an i64 lane holds''"

definition datetime_args :: "bytes \<Rightarrow> bool \<Rightarrow> data_type result" where
  "datetime_args arg is64 =
     (let parts = split_on 44 arg;
          first = trim (hd parts);
          second = (case tl parts of [] \<Rightarrow> None | p # _ \<Rightarrow> Some (trim p))
      in if length parts > 2 then Inl (Bind ''takes at most two arguments'')
         else rbind
           (if is64
            then case parse_uint (2 ^ 32 - 1) first of
                   Some p \<Rightarrow> if p = 0 then Inr second
                     else Inl (Unsupported ''DateTime here is a count of whole seconds'')
                 | None \<Rightarrow> Inl (Bind ''expected a precision'')
            else if second \<noteq> None then Inl (Bind ''takes only a timezone'')
            else Inr (if first = [] then None else Some first))
           (\<lambda>tz. case tz of
              None \<Rightarrow> Inr DateTime
            | Some z \<Rightarrow> if is_utc z then Inr DateTime
                        else Inl (Unsupported ''this engine ships no timezone table'')))"

definition parse_num :: "bytes \<Rightarrow> nat result" where
  "parse_num s = (case parse_uint (2 ^ 32 - 1) s of Some n \<Rightarrow> Inr n | None \<Rightarrow> Inl (Bind ''expected a number''))"

definition parse_decimal :: "bytes \<Rightarrow> nat option \<Rightarrow> data_type result" where
  "parse_decimal arg implied =
     (let parts = split_on 44 arg;
          first = trim (hd parts);
          second = (case tl parts of [] \<Rightarrow> None | p # _ \<Rightarrow> Some (trim p))
      in if length parts > 2 then Inl (Bind ''takes at most two arguments'')
         else rbind
           (case (implied, second) of
              (Some _, Some _) \<Rightarrow> Inl (Bind ''names its precision already; it takes only a scale'')
            | (Some p, None) \<Rightarrow> rbind (parse_num first) (\<lambda>s. Inr (p, s))
            | (None, None) \<Rightarrow> rbind (parse_num first) (\<lambda>p. Inr (p, 0))
            | (None, Some s) \<Rightarrow> rbind (parse_num first) (\<lambda>p. rbind (parse_num s) (\<lambda>s. Inr (p, s))))
           (\<lambda>(prec, scale).
              if prec = 0 \<or> prec > MAX_DECIMAL_PRECISION then Inl (too_wide (max prec 1))
              else if scale > prec then Inl (Bind ''scale exceeds precision'')
              else Inr (Decimal64 scale)))"

text \<open>The plain names, and the parameterized heads that take no nested type.\<close>

definition plain_names :: "(string \<times> data_type) list" where
  "plain_names =
     [(''uint8'', UInt8), (''uint16'', UInt16), (''uint32'', UInt32), (''uint64'', UInt64),
      (''int8'', Int8), (''tinyint'', Int8), (''int16'', Int16), (''smallint'', Int16),
      (''int32'', Int32), (''int'', Int32), (''integer'', Int32), (''int64'', Int64), (''bigint'', Int64),
      (''float32'', Float32), (''float'', Float32), (''real'', Float32), (''float64'', Float64),
      (''double'', Float64), (''bool'', Bool), (''boolean'', Bool), (''string'', String), (''text'', String),
      (''varchar'', String), (''date'', Date), (''datetime'', DateTime), (''timestamp'', DateTime)]"

definition parse_plain :: "bytes \<Rightarrow> data_type result" where
  "parse_plain l =
     (if l = ascii ''date32'' then Inl (Unsupported ''`Date32` spans 1900-2299'')
      else case map_of (map (\<lambda>(n, t). (ascii n, t)) plain_names) l of
             Some t \<Rightarrow> Inr t
           | None \<Rightarrow> Inl (Bind ''unknown type''))"

definition parse_flat :: "bytes \<Rightarrow> bytes \<Rightarrow> data_type result" where
  "parse_flat head arg =
     (if head = ascii ''fixedstring''
      then case parse_uint (2 ^ 32 - 1) arg of
             Some n \<Rightarrow> Inr (FixedString n)
           | None \<Rightarrow> Inl (Bind ''FixedString length must be an integer'')
      else if head = ascii ''datetime'' then datetime_args arg False
      else if head = ascii ''datetime64'' then datetime_args arg True
      else if head \<in> {ascii ''decimal'', ascii ''numeric'', ascii ''dec''} then parse_decimal arg None
      else if head = ascii ''decimal32'' then parse_decimal arg (Some 9)
      else if head = ascii ''decimal64'' then parse_decimal arg (Some 18)
      else if head = ascii ''decimal128'' then Inl (too_wide 38)
      else if head = ascii ''decimal256'' then Inl (too_wide 76)
      else Inl (Bind ''unknown type''))"

lemma length_strip: "length (strip seqs s) \<le> length s"
  by (induction seqs s rule: strip.induct)
    (subst strip.simps, auto intro: order_trans [OF _ diff_le_self])

lemma length_trim: "length (trim s) \<le> length s"
  unfolding trim_def by (metis length_rev length_strip order_trans)

lemma arg_shorter: "trim s \<noteq> [] \<Longrightarrow> length (trim (slice (trim s) a (length (trim s) - Suc 0))) < length s"
proof -
  assume ne: "trim s \<noteq> []"
  have "length (trim (slice (trim s) a (length (trim s) - Suc 0))) \<le> length (trim s) - 1"
    by (rule order_trans [OF length_trim]) simp
  also have "\<dots> < length s" using ne length_trim [of s] by (cases "trim s") auto
  finally show ?thesis .
qed

function parse_type :: "bytes \<Rightarrow> data_type result" where
  "parse_type name =
     (let t = trim name
      in case find_byte 40 t of
           Some op \<Rightarrow>
             if t = [] \<or> last t \<noteq> 41 then Inl (Bind ''malformed type'')
             else let head = lower_or_empty (trim (take op t));
                      arg = trim (slice t (op + 1) (length t - 1))
                  in if head = ascii ''nullable'' then rbind (parse_type arg) (\<lambda>i. Inr (Nullable i))
                     else if head = ascii ''lowcardinality''
                     then rbind (parse_type arg) (\<lambda>i. Inr (LowCardinality i))
                     else parse_flat head arg
         | None \<Rightarrow> parse_plain (lower_or_empty t))"
  by pat_completeness auto
termination by (relation "measure length") (auto simp: arg_shorter)

declare parse_type.simps [simp del]

fun show_type :: "data_type \<Rightarrow> bytes" where
  "show_type UInt8 = ascii ''UInt8''"
| "show_type UInt16 = ascii ''UInt16''"
| "show_type UInt32 = ascii ''UInt32''"
| "show_type UInt64 = ascii ''UInt64''"
| "show_type Int8 = ascii ''Int8''"
| "show_type Int16 = ascii ''Int16''"
| "show_type Int32 = ascii ''Int32''"
| "show_type Int64 = ascii ''Int64''"
| "show_type Float32 = ascii ''Float32''"
| "show_type Float64 = ascii ''Float64''"
| "show_type Bool = ascii ''Bool''"
| "show_type String = ascii ''String''"
| "show_type (FixedString n) = ascii ''FixedString'' @ 40 # show_nat n @ [41]"
| "show_type Date = ascii ''Date''"
| "show_type DateTime = ascii ''DateTime''"
| "show_type (Decimal64 s) = ascii ''Decimal64'' @ 40 # show_nat s @ [41]"
| "show_type (Nullable i) = ascii ''Nullable'' @ 40 # show_type i @ [41]"
| "show_type (LowCardinality i) = ascii ''LowCardinality'' @ 40 # show_type i @ [41]"

text \<open>What a type of the catalog satisfies.\<close>

fun type_ok :: "data_type \<Rightarrow> bool" where
  "type_ok (FixedString n) \<longleftrightarrow> n < 2 ^ 32"
| "type_ok (Decimal64 s) \<longleftrightarrow> s \<le> MAX_DECIMAL_PRECISION"
| "type_ok (Nullable i) \<longleftrightarrow> type_ok i"
| "type_ok (LowCardinality i) \<longleftrightarrow> type_ok i"
| "type_ok _ \<longleftrightarrow> True"

section \<open>The catalog round trip\<close>

lemma solid_ascii: "list_all (\<lambda>c. solid (of_char c)) s \<Longrightarrow> \<forall>b \<in> set (ascii s). solid b"
  by (auto simp: ascii_def list_all_iff)

lemma show_type_solid: "\<forall>b \<in> set (show_type t). solid b"
proof (induction t)
  case (FixedString n)
  then show ?case by (auto simp: ascii_def solid_def [of 40] solid_def [of 41] dest: digit_solid show_nat_digits) (simp_all add: solid_def)
next
  case (Decimal64 n)
  then show ?case by (auto simp: ascii_def dest: digit_solid show_nat_digits) (simp_all add: solid_def)
qed (auto simp: ascii_def solid_def)

lemma show_type_ne: "show_type t \<noteq> []"
  by (cases t) (simp_all add: ascii_def)

text \<open>A parenthesized type is taken apart where it was put together.\<close>

lemma parse_type_call:
  assumes "\<forall>b \<in> set h. solid b" "40 \<notin> set h" "h \<noteq> []" "length h \<le> 16" "\<forall>b \<in> set a. solid b"
  shows "parse_type (h @ 40 # a @ [41]) =
    (let head = to_ascii_lowercase h
     in if head = ascii ''nullable'' then rbind (parse_type a) (\<lambda>i. Inr (Nullable i))
        else if head = ascii ''lowcardinality'' then rbind (parse_type a) (\<lambda>i. Inr (LowCardinality i))
        else parse_flat head a)"
proof -
  let ?t = "h @ 40 # a @ [41]"
  have "\<forall>b \<in> set ?t. solid b" using assms by (auto simp: solid_def)
  then have t: "trim ?t = ?t" by (rule trim_all_solid)
  have f: "find_byte 40 ?t = Some (length h)" using assms(2) by (rule find_byte_append)
  have "slice ?t (length h + 1) (length ?t - 1) = a" by (simp add: slice_def)
  then have "trim (slice ?t (length h + 1) (length ?t - 1)) = a" using assms(5) by (simp add: trim_all_solid)
  moreover have "trim (take (length h) ?t) = h" using assms(1) by (simp add: trim_all_solid)
  ultimately show ?thesis
    using assms(4) by (subst parse_type.simps) (simp add: t f lower_or_empty_def lower_def)
qed

lemma parse_type_plain:
  assumes "\<forall>b \<in> set s. solid b" "40 \<notin> set s" "length s \<le> 16"
  shows "parse_type s = parse_plain (to_ascii_lowercase s)"
  using assms
  by (subst parse_type.simps) (simp add: trim_all_solid find_byte_None [THEN iffD2] lower_or_empty_def lower_def)

lemma parse_call_ascii:
  assumes "list_all (\<lambda>c. solid (of_char c) \<and> of_char c \<noteq> (40 :: u8)) h" "h \<noteq> []" "length h \<le> 16"
    and "\<forall>b \<in> set a. solid b"
  shows "parse_type (ascii h @ 40 # a @ [41]) =
    (let head = to_ascii_lowercase (ascii h)
     in if head = ascii ''nullable'' then rbind (parse_type a) (\<lambda>i. Inr (Nullable i))
        else if head = ascii ''lowcardinality'' then rbind (parse_type a) (\<lambda>i. Inr (LowCardinality i))
        else parse_flat head a)"
  using assms by (intro parse_type_call) (auto simp: ascii_def list_all_iff)

lemma comma_free_show: "44 \<notin> set (show_nat n)"
  using show_nat_digits [of 44 n] by (auto simp: is_digit_def)

lemma show_nat_solid: "\<forall>b \<in> set (show_nat n). solid b"
  by (auto dest: show_nat_digits digit_solid)

lemma parse_decimal64_show:
  assumes "n \<le> 18"
  shows "parse_decimal (show_nat n) (Some 18) = Inr (Decimal64 n)"
proof -
  have "parse_uint (2 ^ 32 - 1) (show_nat n) = Some n" using assms by (intro parse_uint_show) simp
  then have "parse_num (show_nat n) = Inr n" by (simp add: parse_num_def)
  then show ?thesis
    using assms by (simp add: parse_decimal_def split_on_free [OF comma_free_show] trim_all_solid [OF show_nat_solid])
qed

lemma parse_show: "type_ok t \<Longrightarrow> parse_type (show_type t) = Inr t"
proof (induction t)
  case (FixedString n)
  then have "parse_uint (2 ^ 32 - 1) (show_nat n) = Some n" by (intro parse_uint_show) simp
  then show ?case
    using parse_call_ascii [of "''FixedString''", OF _ _ _ show_nat_solid [of n]]
    by (simp add: ascii_def solid_def to_ascii_lowercase_def parse_flat_def)
next
  case (Decimal64 n)
  then show ?case
    using parse_call_ascii [of "''Decimal64''", OF _ _ _ show_nat_solid [of n]] parse_decimal64_show [of n]
    by (simp add: ascii_def solid_def to_ascii_lowercase_def parse_flat_def)
next
  case (Nullable t)
  then show ?case
    using parse_call_ascii [of "''Nullable''", OF _ _ _ show_type_solid [of t]]
    by (simp add: ascii_def solid_def to_ascii_lowercase_def)
next
  case (LowCardinality t)
  then show ?case
    using parse_call_ascii [of "''LowCardinality''", OF _ _ _ show_type_solid [of t]]
    by (simp add: ascii_def solid_def to_ascii_lowercase_def)
qed (simp_all add: parse_type_plain ascii_def solid_def to_ascii_lowercase_def parse_plain_def plain_names_def)

text \<open>Whatever the parser accepts is a type of the catalog.\<close>

lemma parse_plain_ok: "parse_plain l = Inr t \<Longrightarrow> type_ok t"
  by (auto simp: parse_plain_def plain_names_def split: if_splits option.splits)

lemma parse_decimal_ok: "parse_decimal a i = Inr t \<Longrightarrow> type_ok t"
  by (auto simp: parse_decimal_def Let_def split: if_splits prod.splits)

lemma datetime_args_ok: "datetime_args a i = Inr t \<Longrightarrow> type_ok t"
  by (auto simp: datetime_args_def Let_def split: if_splits option.splits)

lemma parse_uint_le: "parse_uint hi s = Some n \<Longrightarrow> n \<le> hi"
  by (auto simp: parse_uint_def Let_def split: if_splits option.splits)

lemma parse_flat_ok: "parse_flat h a = Inr t \<Longrightarrow> type_ok t"
  by (auto simp: parse_flat_def parse_decimal_ok datetime_args_ok split: if_splits option.splits dest!: parse_uint_le)

lemma parse_type_ok: "parse_type s = Inr t \<Longrightarrow> type_ok t"
proof (induction s arbitrary: t rule: parse_type.induct)
  case (1 s)
  show ?case
  proof (cases "find_byte 40 (trim s)")
    case None
    with 1(3) show ?thesis by (subst (asm) parse_type.simps) (simp add: parse_plain_ok)
  next
    case (Some op)
    let ?h = "lower_or_empty (trim (take op (trim s)))" and ?a = "trim (slice (trim s) (op + 1) (length (trim s) - 1))"
    from 1(3) Some have c: "\<not> (trim s = [] \<or> last (trim s) \<noteq> 41)"
      by (subst (asm) parse_type.simps) (auto simp: Let_def split: if_splits)
    note IH1 = 1(1) [OF refl Some c refl refl] and IH2 = 1(2) [OF refl Some c refl refl]
    have r: "parse_type s = (if ?h = ascii ''nullable'' then rbind (parse_type ?a) (\<lambda>i. Inr (Nullable i))
        else if ?h = ascii ''lowcardinality'' then rbind (parse_type ?a) (\<lambda>i. Inr (LowCardinality i))
        else parse_flat ?h ?a)"
      using c by (subst parse_type.simps) (simp add: Some Let_def)
    show ?thesis
    proof (cases "?h = ascii ''nullable''")
      case True
      with 1(3) obtain i where "parse_type ?a = Inr i" "t = Nullable i" by (auto simp: r)
      with IH1 [OF True] show ?thesis by simp
    next
      case F: False
      show ?thesis
      proof (cases "?h = ascii ''lowcardinality''")
        case True
        with F 1(3) obtain i where "parse_type ?a = Inr i" "t = LowCardinality i" by (auto simp: r)
        with IH2 [OF F True] show ?thesis by simp
      next
        case False
        with F 1(3) have "parse_flat ?h ?a = Inr t" by (simp only: r if_False)
        then show ?thesis by (rule parse_flat_ok)
      qed
    qed
  qed
qed

section \<open>Promotion\<close>

lemma is_integer_Bool [simp]: "\<not> is_integer Bool"
  by (simp add: is_integer_def)

lemma promote_string_comm: "promote_string x y = promote_string y x"
  unfolding promote_string_def by (auto simp: max.commute split: option.split)

lemma promote_integral_comm: "promote_integral x y = promote_integral y x"
  unfolding promote_integral_def promote_string_comm [of x y]
  by (cases "is_integer x"; cases "is_integer y") auto

lemma promote_base_comm: "promote_base x y = promote_base y x"
proof (cases "x = y")
  case False
  let ?d = "\<lambda>x y. case (decimal_scale x, decimal_scale y) of
        (Some s, Some s') \<Rightarrow> Some (Decimal64 (max s s'))
      | (Some s, None) \<Rightarrow> if is_integer y \<or> y = Bool then Some (Decimal64 s) else None
      | (None, Some s) \<Rightarrow> if is_integer x \<or> x = Bool then Some (Decimal64 s) else None
      | (None, None) \<Rightarrow> promote_integral x y"
  have d: "?d x y = ?d y x"
    by (cases "decimal_scale x"; cases "decimal_scale y") (simp_all add: max.commute promote_integral_comm)
  let ?g = "\<lambda>x y f. (x = f \<and> is_numeric y) \<or> (y = f \<and> is_numeric x)"
  have g: "?g x y f \<longleftrightarrow> ?g y x f" for f by blast
  have e: "x \<noteq> y" "y \<noteq> x" "\<not> (x = Bool \<and> y = Bool)" "\<not> (y = Bool \<and> x = Bool)" using False by auto
  have "promote_base x y = (if ?g x y Float64 then Some Float64 else if ?g x y Float32 then Some Float64 else ?d x y)"
    unfolding promote_base_def by (simp only: e if_False)
  also have "\<dots> = (if ?g y x Float64 then Some Float64 else if ?g y x Float32 then Some Float64 else ?d y x)"
    by (intro if_cong g refl d)
  also have "\<dots> = promote_base y x" unfolding promote_base_def by (simp only: e if_False)
  finally show ?thesis .
qed simp

lemma base_base [simp]: "base (base t) = base t"
  by (induction t) simp_all

lemma base_not_nullable [simp]: "\<not> is_nullable (base t)"
  by (induction t) simp_all

lemma promote_string_cases: "promote_string x y = Some t \<Longrightarrow> t = String \<or> (\<exists>n. t = FixedString n)"
  by (auto simp: promote_string_def split: if_splits option.splits)

lemma promote_integral_cases:
  "promote_integral x y = Some t \<Longrightarrow> t \<in> {x, y, Int64, UInt64, Date, DateTime, String} \<or> (\<exists>n. t = FixedString n)"
  by (auto simp: promote_integral_def split: if_splits dest!: promote_string_cases)

lemma promote_base_cases:
  "promote_base x y = Some t \<Longrightarrow>
     t \<in> {x, y, Int64, UInt64, Float64, Date, DateTime, String} \<or> (\<exists>n. t = Decimal64 n \<or> t = FixedString n)"
  by (auto simp: promote_base_def split: if_splits option.splits dest!: promote_integral_cases)

lemma promote_base_not_nullable:
  "promote_base (base a) (base b) = Some t \<Longrightarrow> \<not> is_nullable t"
  by (drule promote_base_cases) auto

lemma physical_base [simp]: "physical (base t) = physical t"
  by (induction t) simp_all

lemma decimal_scale_Some: "decimal_scale t = Some s \<longleftrightarrow> base t = Decimal64 s"
  by (simp add: decimal_scale_def split: data_type.split)

section \<open>Properties\<close>

text \<open>The catalog round trip of types: every type whose parameters are in range parses back from its printed form,
  and whatever a type text parses to is in range, so printing and parsing it again gives the same type.\<close>

theorem type_roundtrip:
  "(type_ok t \<longrightarrow> parse_type (show_type t) = Inr t) \<and>
   (parse_type s = Inr t \<longrightarrow> parse_type (show_type t) = Inr t)"
  using parse_show [of t] parse_type_ok [of s t] by blast

theorem type_roundtrip_witness:
  "parse_type (show_type (Nullable (Decimal64 4))) = Inr (Nullable (Decimal64 4))"
  using type_roundtrip [of "Nullable (Decimal64 4)" "[]"] by simp

text \<open>The promotion table is symmetric, its result is nullable exactly when an operand is, and two decimals meet at
  the wider scale.\<close>

theorem promote_laws:
  "promote a b = promote b a \<and>
   (promote a b = Inr t \<longrightarrow> (is_nullable t \<longleftrightarrow> is_nullable a \<or> is_nullable b)) \<and>
   (base a = Decimal64 x \<and> base b = Decimal64 y \<and> promote a b = Inr t \<longrightarrow> base t = Decimal64 (max x y))"
proof -
  have "promote a b = promote b a" by (simp add: promote_def promote_base_comm disj_commute)
  moreover have "is_nullable t \<longleftrightarrow> is_nullable a \<or> is_nullable b" if "promote a b = Inr t"
    using that promote_base_not_nullable [of a b]
    by (auto simp: promote_def Let_def to_nullable_def split: option.splits if_splits)
  moreover have "base t = Decimal64 (max x y)" if "base a = Decimal64 x \<and> base b = Decimal64 y \<and> promote a b = Inr t"
    using that by (auto simp: promote_def promote_base_def decimal_scale_def Let_def to_nullable_def split: if_splits)
  ultimately show ?thesis by blast
qed

theorem promote_laws_witness:
  "promote (Nullable (Decimal64 2)) (Decimal64 5) = promote (Decimal64 5) (Nullable (Decimal64 2))"
  using promote_laws [of "Nullable (Decimal64 2)" "Decimal64 5" "Nullable (Decimal64 5)" 2 5] by blast

end
