(* ===== verification/Calendar.thy ===== *)
theory Calendar
  imports Text
begin

text \<open>
  Calendar arithmetic and its text form, \<^verbatim>\<open>src/types/value.rs\<close>: the day count of a civil date and back,
  the formatting of dates and timestamps, and their parsers. \<open>i64\<close> values are integers; the operations
  that can leave the range wrap as a release build does. Shown: the two conversions are inverse to each
  other on the dates that exist, what is printed parses back, and only existing dates are accepted, up
  to the years whose day count overflows.
\<close>

section \<open>Definitions\<close>

definition civil_from_days :: "int \<Rightarrow> int \<times> int \<times> int" where
  "civil_from_days z =
     (let z = z + 719468;
          era = trunc_div (if z \<ge> 0 then z else z - 146096) 146097;
          doe = z - era * 146097;
          yoe = (doe - doe div 1460 + doe div 36524 - doe div 146096) div 365;
          y = yoe + era * 400;
          doy = doe - (365 * yoe + yoe div 4 - yoe div 100);
          mp = (5 * doy + 2) div 153;
          d = doy - (153 * mp + 2) div 5 + 1;
          m = (if mp < 10 then mp + 3 else mp - 9)
      in (if m \<le> 2 then y + 1 else y, m, d))"

definition days_from_civil :: "int \<Rightarrow> int \<Rightarrow> int \<Rightarrow> int" where
  "days_from_civil y m d =
     (let y = (if m \<le> 2 then wrap_i64 (y - 1) else y);
          era = trunc_div (if y \<ge> 0 then y else wrap_i64 (y - 399)) 400;
          yoe = y - era * 400;
          mp = (if m > 2 then m - 3 else m + 9);
          doy = (153 * mp + 2) div 5 + d - 1;
          doe = yoe * 365 + yoe div 4 - yoe div 100 + doy
      in wrap_i64 (era * 146097 + doe - 719468))"

definition days_in_month :: "int \<Rightarrow> int \<Rightarrow> int" where
  "days_in_month y m =
     (let (ny, nm) = (if m = 12 then (y + 1, 1) else (y, m + 1))
      in days_from_civil ny nm 1 - days_from_civil y m 1)"

definition fmt_date :: "nat \<Rightarrow> bytes" where
  "fmt_date days =
     (let (y, m, d) = civil_from_days (int days)
      in pad_int 4 y @ 45 # pad_int 2 m @ 45 # pad_int 2 d)"

definition fmt_datetime :: "int \<Rightarrow> bytes" where
  "fmt_datetime secs =
     (let days = secs div 86400; r = secs mod 86400;
          (y, m, d) = civil_from_days days;
          (hh, mm, ss) = (r div 3600, (r mod 3600) div 60, r mod 60)
      in pad_int 4 y @ 45 # pad_int 2 m @ 45 # pad_int 2 d @ 32 #
         pad_int 2 hh @ 58 # pad_int 2 mm @ 58 # pad_int 2 ss)"

text \<open>\<open>parse::<i64>\<close> and \<open>parse::<u32>\<close>, with the error of the field they read.\<close>

definition parse_i64 :: "string \<Rightarrow> bytes \<Rightarrow> int result" where
  "parse_i64 msg s = (case parse_int (- (2 ^ 63)) (2 ^ 63 - 1) s of Some i \<Rightarrow> Inr i | None \<Rightarrow> Inl (Exec msg))"

definition parse_u32 :: "string \<Rightarrow> bytes \<Rightarrow> int result" where
  "parse_u32 msg s = (case parse_uint (2 ^ 32 - 1) s of Some n \<Rightarrow> Inr (int n) | None \<Rightarrow> Inl (Exec msg))"

definition parse_civil_days :: "bytes \<Rightarrow> int result" where
  "parse_civil_days s =
     (case split_on 45 (trim s) of
        [p0, p1, p2] \<Rightarrow>
          rbind (parse_i64 ''bad year'' p0) (\<lambda>y.
          rbind (parse_u32 ''bad month'' p1) (\<lambda>m.
          rbind (parse_u32 ''bad day'' p2) (\<lambda>d.
            if \<not> (1 \<le> m \<and> m \<le> 12) \<or> d = 0 \<or> (d > 28 \<and> d > days_in_month y m)
            then Inl (Exec ''not a valid date'')
            else Inr (days_from_civil y m d))))
      | _ \<Rightarrow> Inl (Exec ''cannot parse as Date''))"

definition parse_date :: "bytes \<Rightarrow> nat result" where
  "parse_date s =
     rbind (parse_civil_days s) (\<lambda>days.
       if days < 0 \<or> days > 2 ^ 32 - 1 then Inl (Exec ''out of Date range'') else Inr (nat days))"

text \<open>\<open>split_once([' ', 'T'])\<close>: what precedes the first blank or \<open>T\<close>, and what follows it.\<close>

definition split_time :: "bytes \<Rightarrow> bytes \<times> bytes" where
  "split_time t =
     (let d = takeWhile (\<lambda>b. b \<noteq> 32 \<and> b \<noteq> 84) t
      in if length d < length t then (d, drop (length d + 1) t) else (t, ascii ''00:00:00''))"

text \<open>The fields of the time, with what one unit is worth and its largest value.\<close>

fun add_hms :: "int \<Rightarrow> (int \<times> int) list \<Rightarrow> bytes list \<Rightarrow> int result" where
  "add_hms secs ((mult, mx) # units) (p # ps) =
     rbind (parse_i64 ''bad time'' (hd (split_on 46 p))) (\<lambda>v.
       if \<not> (0 \<le> v \<and> v \<le> mx) then Inl (Exec ''bad time'')
       else add_hms (secs + v * mult) units ps)"
| "add_hms secs units ps = Inr secs"

definition parse_datetime :: "bytes \<Rightarrow> int result" where
  "parse_datetime s =
     (let t = trim s; (dpart, tpart) = split_time t
      in rbind (parse_civil_days dpart) (\<lambda>days.
           let hms = split_on 58 (trim_end_matches 90 (trim tpart))
           in if hms = [] \<or> length hms > 3 then Inl (Exec ''cannot parse as DateTime'')
              else rbind (add_hms 0 [(3600, 23), (60, 59), (1, 59)] hms) (\<lambda>secs.
                Inr (wrap_i64 (days * 86400 + secs)))))"

section \<open>The four-hundred-year cycle\<close>

text \<open>
  The day of the cycle determines the year of the cycle, although the source estimates it with the
  divisors 1460, 36524 and 146096 instead of searching.
\<close>

lemma yoe_bounds:
  fixes doe :: int
  assumes "0 \<le> doe" "doe \<le> 146096"
  defines "y \<equiv> (doe - doe div 1460 + doe div 36524 - doe div 146096) div 365"
  shows "0 \<le> y" "y \<le> 399" "365 * y + y div 4 - y div 100 \<le> doe"
    "doe < 365 * (y + 1) + (y + 1) div 4 - (y + 1) div 100 + (y + 1) div 400"
proof -
  define a where "a = doe div 1460"
  define b where "b = doe div 36524"
  define c where "c = doe div 146096"
  define v where "v = y div 100"
  define u where "u = y div 4"
  have a: "1460 * a \<le> doe" "doe < 1460 * a + 1460" unfolding a_def by (rule int_div_bounds, simp)+
  have b: "36524 * b \<le> doe" "doe < 36524 * b + 36524" unfolding b_def by (rule int_div_bounds, simp)+
  have c: "146096 * c \<le> doe" "doe < 146096 * c + 146096" unfolding c_def by (rule int_div_bounds, simp)+
  have yy: "y = (doe - a + b - c) div 365" by (simp add: y_def a_def b_def c_def)
  have y: "365 * y \<le> doe - a + b - c" "doe - a + b - c < 365 * y + 365" unfolding yy by (rule int_div_bounds, simp)+
  have v: "100 * v \<le> y" "y < 100 * v + 100" unfolding v_def by (rule int_div_bounds, simp)+
  have u: "4 * u \<le> y" "y < 4 * u + 4" unfolding u_def by (rule int_div_bounds, simp)+
  have "0 \<le> b" "b \<le> 4" "0 \<le> c" "c \<le> 1" using b c assms(1,2) by linarith+
  then have bs: "b = 0 \<or> b = 1 \<or> b = 2 \<or> b = 3 \<or> b = 4" and "c = 0 \<or> c = 1" by presburger+
  moreover have "c = 1 \<longleftrightarrow> b = 4" using b c assms(2) \<open>0 \<le> c\<close> \<open>c \<le> 1\<close> by auto
  ultimately have b_cases: "b = 0 \<and> c = 0 \<or> b = 1 \<and> c = 0 \<or> b = 2 \<and> c = 0 \<or> b = 3 \<and> c = 0 \<or> b = 4 \<and> c = 1"
    by auto
  show y0: "0 \<le> y" using b_cases a y assms(1) by (elim disjE conjE) linarith+
  show y399: "y \<le> 399" using b_cases a y(1) assms(2) by (elim disjE conjE) linarith+
  have "0 \<le> v" "v \<le> 3" using v y0 y399 by linarith+
  then have vs: "v = 0 \<or> v = 1 \<or> v = 2 \<or> v = 3" by presburger
  have "v \<le> b - c" using b_cases a b(2) v(1) y(1) assms(2) by (elim disjE conjE) linarith+
  moreover have "b - c \<le> v" using b_cases a b(1) v(2) y(2) by (elim disjE conjE) linarith+
  ultimately have vb: "v = b - c" by simp
  have "u \<le> a"
  proof (rule ccontr)
    assume "\<not> u \<le> a"
    then have "a + 1 \<le> u" by simp
    then show False using b_cases a b(1) assms(1) u(1) y(1) by (elim disjE conjE) linarith+
  qed
  then have "365 * y + u - v \<le> doe" using y(1) vb by linarith
  then show "365 * y + y div 4 - y div 100 \<le> doe" unfolding u_def v_def .
  define u' where "u' = (y + 1) div 4"
  define v' where "v' = (y + 1) div 100"
  define w' where "w' = (y + 1) div 400"
  have v': "100 * v' \<le> y + 1" "y + 1 < 100 * v' + 100" unfolding v'_def by (rule int_div_bounds, simp)+
  have u': "4 * u' \<le> y + 1" "y + 1 < 4 * u' + 4" unfolding u'_def by (rule int_div_bounds, simp)+
  have w': "400 * w' \<le> y + 1" "y + 1 < 400 * w' + 400" unfolding w'_def by (rule int_div_bounds, simp)+
  have "doe < 365 * (y + 1) + u' - v' + w'"
  proof (cases "y + 1 = 100 * (v + 1) \<and> v < 3")
    case True
    then have e: "y = 100 * v + 99" and "v < 3" by auto
    then have "v' = v + 1" using v' by linarith
    moreover have "w' = 0" using e \<open>v < 3\<close> w' y0 by linarith
    moreover have "u' = 25 * v + 25" using e u' by linarith
    moreover have "b = v" using \<open>v < 3\<close> vb b_cases by (elim disjE conjE) linarith+
    ultimately show ?thesis using b e by simp
  next
    case False
    have wb: "0 \<le> w'" "w' \<le> 1" using w' y0 y399 by linarith+
    have "v' = v \<or> v' = v + 1" using v v' by linarith
    then have vw: "v' - w' = v"
    proof
      assume e: "v' = v"
      have "w' \<noteq> 1"
      proof
        assume "w' = 1"
        then show False using e v'(2) w'(1) \<open>v \<le> 3\<close> by linarith
      qed
      with e wb show ?thesis by simp
    next
      assume e: "v' = v + 1"
      then have "y + 1 = 100 * (v + 1)" using v v' by simp
      then have "y = 399" "v = 3" using False \<open>v \<le> 3\<close> by auto
      with e w' wb show ?thesis by simp
    qed
    have "a \<le> u'"
    proof (rule ccontr)
      assume "\<not> a \<le> u'"
      then have "u' + 1 \<le> a" by simp
      moreover have "u' \<le> 100" using u' y399 by linarith
      ultimately show False using a u' y vb vs by linarith
    qed
    moreover have "365 * (y + 1) = 365 * y + 365" by simp
    ultimately show ?thesis using y vb vw by linarith
  qed
  then show "doe < 365 * (y + 1) + (y + 1) div 4 - (y + 1) div 100 + (y + 1) div 400"
    unfolding u'_def v'_def w'_def .
qed

text \<open>Days before the first of March of year \<open>y\<close>, in closed form.\<close>

definition march_days :: "int \<Rightarrow> int" where
  "march_days y = 365 * y + y div 4 - y div 100 + y div 400"

lemma march_days_split:
  assumes "0 \<le> yoe" "yoe < 400"
  shows "march_days (yoe + era * 400) = era * 146097 + (365 * yoe + yoe div 4 - yoe div 100)"
proof -
  have "(yoe + era * 400) div 4 = yoe div 4 + era * 100"
    using div_mult_self3 [of 4 yoe "era * 100"] by simp
  moreover have "(yoe + era * 400) div 100 = yoe div 100 + era * 4"
    using div_mult_self3 [of 100 yoe "era * 4"] by simp
  moreover have "(yoe + era * 400) div 400 = era" using assms by simp
  ultimately show ?thesis by (simp add: march_days_def)
qed

lemma march_days_step: "march_days y + 365 \<le> march_days (y + 1)" "march_days (y + 1) \<le> march_days y + 366"
proof -
  define a where "a = y div 4" define b where "b = y div 100" define c where "c = y div 400"
  define a' where "a' = (y + 1) div 4" define b' where "b' = (y + 1) div 100" define c' where "c' = (y + 1) div 400"
  have cb: "c = b div 4" "c' = b' div 4" unfolding c_def b_def c'_def b'_def by (simp_all add: div_mult2_eq [symmetric] zdiv_zmult2_eq [symmetric])
  have ba: "b = a div 25" "b' = a' div 25" unfolding b_def a_def b'_def a'_def by (simp_all add: zdiv_zmult2_eq [symmetric])
  note bnd = int_div_bounds [of 4 y, simplified, folded a_def] int_div_bounds [of 4 "y + 1", simplified, folded a'_def]
    int_div_bounds [of 25 a, simplified, folded ba(1)] int_div_bounds [of 25 a', simplified, folded ba(2)]
    int_div_bounds [of 4 b, simplified, folded cb(1)] int_div_bounds [of 4 b', simplified, folded cb(2)]
  have "a' = a \<or> a' = a + 1" using bnd by linarith
  then have "a' - b' + c' = a - b + c \<or> a' - b' + c' = a - b + c + 1"
  proof
    assume "a' = a"
    then show ?thesis using ba cb by simp
  next
    assume a: "a' = a + 1"
    have "b' = b \<or> b' = b + 1" using bnd a by linarith
    then show ?thesis
    proof
      assume "b' = b"
      then show ?thesis using a cb by simp
    next
      assume b: "b' = b + 1"
      have "c' = c \<or> c' = c + 1" using bnd b by linarith
      then show ?thesis using a b by auto
    qed
  qed
  then show "march_days y + 365 \<le> march_days (y + 1)" "march_days (y + 1) \<le> march_days y + 366"
    unfolding march_days_def a_def b_def c_def a'_def b'_def c'_def by auto
qed

lemma march_days_mono: "x \<le> y \<Longrightarrow> march_days x \<le> march_days y"
proof (induction y rule: int_ge_induct)
  case (step i)
  then show ?case using march_days_step(1) [of i] by linarith
qed simp

lemma march_days_pos: "0 \<le> y \<Longrightarrow> 365 * y \<le> march_days y \<and> march_days y \<le> 366 * y"
proof (induction y rule: int_ge_induct)
  case (step i)
  then show ?case using march_days_step [of i] by simp
qed (simp add: march_days_def)

lemma march_days_neg: "y \<le> 0 \<Longrightarrow> 366 * y \<le> march_days y \<and> march_days y \<le> 365 * y"
proof (induction y rule: int_le_induct)
  case (step i)
  then show ?case using march_days_step [of "i - 1"] by simp
qed (simp add: march_days_def)

lemma march_days_unique:
  assumes "march_days x \<le> z" "z < march_days (x + 1)" "march_days y \<le> z" "z < march_days (y + 1)"
  shows "x = y"
  using assms march_days_mono [of "x + 1" y] march_days_mono [of "y + 1" x] by (cases x y rule: linorder_cases) auto

section \<open>Months from March on\<close>

definition month_start :: "int \<Rightarrow> int" where
  "month_start mp = (153 * mp + 2) div 5"

lemma month_of_day:
  assumes "0 \<le> doy" "doy \<le> 365"
  defines "mp \<equiv> (5 * doy + 2) div 153"
  shows "0 \<le> mp" "mp \<le> 11" "month_start mp \<le> doy" "doy < month_start (mp + 1)"
proof -
  note m = int_div_bounds [of 153 "5 * doy + 2", simplified, folded mp_def]
  note q = int_div_bounds [of 5 "153 * mp + 2", simplified, folded month_start_def]
  note q' = int_div_bounds [of 5 "153 * (mp + 1) + 2", simplified, folded month_start_def]
  show "0 \<le> mp" "mp \<le> 11" using m assms(1,2) by linarith+
  show "month_start mp \<le> doy" using m q by linarith
  show "doy < month_start (mp + 1)" using m q' unfolding month_start_def by (simp add: algebra_simps)
qed

lemma month_of_start:
  assumes "month_start mp \<le> doy" "doy < month_start (mp + 1)"
  shows "(5 * doy + 2) div 153 = mp"
proof -
  note q = int_div_bounds [of 5 "153 * mp + 2", simplified, folded month_start_def]
  have q': "5 * month_start (mp + 1) \<le> 153 * mp + 155" "153 * mp + 155 < 5 * month_start (mp + 1) + 5"
    using int_div_bounds [of 5 "153 * (mp + 1) + 2"] by (simp_all add: month_start_def algebra_simps)
  show ?thesis by (rule int_div_pos_eq [where r = "5 * doy + 2 - 153 * mp"]) (use assms q q' in simp_all)
qed

text \<open>The year and month counted from March, and the length of the month there.\<close>

definition march_year :: "int \<Rightarrow> int \<Rightarrow> int" where
  "march_year y m = (if m \<le> 2 then y - 1 else y)"

definition march_month :: "int \<Rightarrow> int" where
  "march_month m = (if m > 2 then m - 3 else m + 9)"

section \<open>Both directions\<close>

lemma civil_from_days_march:
  obtains yr doy where "z + 719468 = march_days yr + doy" "0 \<le> doy" "march_days yr + doy < march_days (yr + 1)"
    and "civil_from_days z = (let mp = (5 * doy + 2) div 153
           in (if mp < 10 then yr else yr + 1, if mp < 10 then mp + 3 else mp - 9, doy - month_start mp + 1))"
proof -
  define era where "era = (z + 719468) div 146097"
  define doe where "doe = (z + 719468) mod 146097"
  define yoe where "yoe = (doe - doe div 1460 + doe div 36524 - doe div 146096) div 365"
  define doy where "doy = doe - (365 * yoe + yoe div 4 - yoe div 100)"
  define yr where "yr = yoe + era * 400"
  have z: "z + 719468 = era * 146097 + doe" by (simp add: era_def doe_def)
  have doe: "0 \<le> doe" "doe \<le> 146096" by (simp_all add: doe_def)
  note yb = yoe_bounds [OF doe, folded yoe_def]
  have start: "march_days yr = era * 146097 + (365 * yoe + yoe div 4 - yoe div 100)"
    unfolding yr_def using yb(1,2) by (intro march_days_split) simp_all
  have nxt: "march_days (yr + 1) = era * 146097 + (365 * (yoe + 1) + (yoe + 1) div 4 - (yoe + 1) div 100 + (yoe + 1) div 400)"
  proof (cases "yoe = 399")
    case True
    then have "yr + 1 = 0 + (era + 1) * 400" by (simp add: yr_def)
    then show ?thesis using march_days_split [of 0 "era + 1"] True by (simp add: add.commute)
  next
    case False
    have q: "(yoe + 1) div 400 = 0" using yb(1,2) False by simp
    have e: "yr + 1 = (yoe + 1) + era * 400" by (simp add: yr_def)
    show ?thesis unfolding e q using march_days_split [of "yoe + 1" era] yb(1,2) False by simp
  qed
  have era': "trunc_div (if z + 719468 \<ge> 0 then z + 719468 else z + 719468 - 146096) 146097 = era"
    using trunc_div_floor [of 146097 "z + 719468"] unfolding era_def by (cases "0 \<le> z + 719468") simp_all
  have doe': "z + 719468 - era * 146097 = doe" using z by simp
  have doy: "0 \<le> doy" using yb(3) by (simp add: doy_def)
  have lt: "march_days yr + doy < march_days (yr + 1)" using yb(4) start nxt by (simp add: doy_def)
  have "doy \<le> 365" using lt march_days_step(2) [of yr] by simp
  note mo = month_of_day [OF doy this]
  have "civil_from_days z = (let mp = (5 * doy + 2) div 153
           in (if mp < 10 then yr else yr + 1, if mp < 10 then mp + 3 else mp - 9, doy - month_start mp + 1))"
    unfolding civil_from_days_def Let_def era' doe'
    using mo by (simp add: yoe_def [symmetric] doy_def [symmetric] yr_def [symmetric] month_start_def)
  moreover have "z + 719468 = march_days yr + doy" using z start by (simp add: doy_def)
  ultimately show thesis using that doy lt by blast
qed

lemma days_from_civil_march:
  assumes "\<bar>y\<bar> \<le> 2 ^ 50" "1 \<le> m" "m \<le> 12" "0 \<le> d" "d \<le> 2 ^ 32"
  shows "days_from_civil y m d = march_days (march_year y m) + month_start (march_month m) + d - 1 - 719468"
proof -
  let ?y = "march_year y m"
  define era where "era = ?y div 400"
  define yoe where "yoe = ?y mod 400"
  have yb: "\<bar>?y\<bar> \<le> 2 ^ 50 + 1" using assms(1) by (auto simp: march_year_def)
  have w: "(if m \<le> 2 then wrap_i64 (y - 1) else y) = ?y"
    using assms(1) by (auto simp: march_year_def wrap_i64_id)
  have "(if ?y \<ge> 0 then ?y else wrap_i64 (?y - 399)) = (if 0 \<le> ?y then ?y else ?y - (400 - 1))"
    using yb by (auto simp: wrap_i64_id)
  then have era: "trunc_div (if ?y \<ge> 0 then ?y else wrap_i64 (?y - 399)) 400 = era"
    unfolding era_def by (simp only: trunc_div_floor zero_less_numeral)
  have yoe: "?y - era * 400 = yoe" "0 \<le> yoe" "yoe < 400" "?y = yoe + era * 400"
    by (simp_all add: yoe_def era_def minus_div_mult_eq_mod)
  have "march_days ?y = era * 146097 + (365 * yoe + yoe div 4 - yoe div 100)"
    unfolding yoe(4) by (rule march_days_split) (use yoe in simp_all)
  then have sum: "era * 146097 + (yoe * 365 + yoe div 4 - yoe div 100 + (month_start (march_month m) + d - 1)) - 719468
      = march_days ?y + month_start (march_month m) + d - 1 - 719468" by simp
  have "\<bar>march_days ?y\<bar> \<le> 366 * (2 ^ 50 + 1)"
    using march_days_pos [of ?y] march_days_neg [of ?y] yb by (cases "0 \<le> ?y") auto
  moreover have "0 \<le> march_month m" "march_month m \<le> 11" using assms(2,3) by (auto simp: march_month_def)
  then have "0 \<le> month_start (march_month m)" "month_start (march_month m) \<le> 337"
    using int_div_bounds [of 5 "153 * march_month m + 2"] by (auto simp: month_start_def)
  ultimately have "wrap_i64 (march_days ?y + month_start (march_month m) + d - 1 - 719468)
      = march_days ?y + month_start (march_month m) + d - 1 - 719468"
    using assms(4,5) by (intro wrap_i64_id) auto
  then show ?thesis
    unfolding days_from_civil_def Let_def w era yoe(1) march_month_def [symmetric] month_start_def [symmetric]
    by (simp only: sum)
qed

lemma days_in_month_march:
  assumes "\<bar>y\<bar> < 2 ^ 50" "1 \<le> m" "m \<le> 12"
  shows "days_in_month y m =
    (if m = 2 then march_days y - march_days (y - 1) - 337
     else month_start (march_month m + 1) - month_start (march_month m))"
proof -
  have "\<bar>y + 1\<bar> \<le> 2 ^ 50" "\<bar>y\<bar> \<le> 2 ^ 50" using assms(1) by auto
  then show ?thesis
    using assms(2,3) days_from_civil_march [of y m 1] days_from_civil_march [of y "m + 1" 1]
      days_from_civil_march [of "y + 1" 1 1]
    by (auto simp: days_in_month_def march_year_def march_month_def month_start_def)
qed

definition valid_date :: "int \<Rightarrow> int \<Rightarrow> int \<Rightarrow> bool" where
  "valid_date y m d \<longleftrightarrow> 1 \<le> m \<and> m \<le> 12 \<and> 1 \<le> d \<and> d \<le> days_in_month y m"

lemma month_length: "month_start (mp + 1) - month_start mp \<le> 31"
  using int_div_bounds [of 5 "153 * mp + 2"] int_div_bounds [of 5 "153 * (mp + 1) + 2"]
  by (simp add: month_start_def algebra_simps)

lemma month_start_11: "month_start 11 = 337" "month_start 12 = 367"
  by (simp_all add: month_start_def)

lemma civil_from_days_valid:
  assumes "\<bar>z\<bar> \<le> 2 ^ 50" "civil_from_days z = (y, m, d)"
  shows "valid_date y m d" "days_from_civil y m d = z" "\<bar>y\<bar> < 2 ^ 50" "d \<le> 31" "- 719528 \<le> z \<longleftrightarrow> 0 \<le> y"
proof -
  obtain yr doy where z: "z + 719468 = march_days yr + doy" and doy: "0 \<le> doy"
    and lt: "march_days yr + doy < march_days (yr + 1)"
    and civ: "civil_from_days z = (let mp = (5 * doy + 2) div 153
           in (if mp < 10 then yr else yr + 1, if mp < 10 then mp + 3 else mp - 9, doy - month_start mp + 1))"
    by (rule civil_from_days_march)
  define mp where "mp = (5 * doy + 2) div 153"
  have "doy \<le> 365" using lt march_days_step(2) [of yr] by simp
  note mo = month_of_day [OF doy this, folded mp_def]
  have y: "y = (if mp < 10 then yr else yr + 1)" and m: "m = (if mp < 10 then mp + 3 else mp - 9)"
    and d: "d = doy - month_start mp + 1"
    using assms(2) civ by (simp_all add: mp_def [symmetric])
  have my: "march_year y m = yr" "march_month m = mp" and mb: "1 \<le> m" "m \<le> 12"
    using mo(1,2) by (auto simp: y m march_year_def march_month_def)
  have yr: "\<bar>yr\<bar> < 2 ^ 49"
    using march_days_pos [of yr] march_days_neg [of "yr + 1"] z doy lt assms(1) by (cases "0 \<le> yr") auto
  then show yb: "\<bar>y\<bar> < 2 ^ 50" by (auto simp: y)
  show d31: "d \<le> 31" using mo(4) month_length [of mp] by (simp add: d)
  have d1: "1 \<le> d" using mo(3) by (simp add: d)
  show "days_from_civil y m d = z"
    using days_from_civil_march [of y m d] yb mb d1 d31 z by (simp add: my d)
  have "d \<le> days_in_month y m"
  proof (cases "m = 2")
    case True
    then have "mp = 11" "yr = y - 1" using mo(1,2) by (auto simp: m y split: if_splits)
    then show ?thesis
      using days_in_month_march [OF yb mb] True lt by (simp add: d month_start_11)
  next
    case False
    then show ?thesis using days_in_month_march [OF yb mb] mo(4) by (simp add: my d)
  qed
  then show "valid_date y m d" using mb d1 by (simp add: valid_date_def)
  have mp10: "mp < 10 \<longleftrightarrow> doy < 306"
    using int_div_bounds [of 153 "5 * doy + 2"] by (auto simp: mp_def)
  have m1: "march_days (- 1) = - 366" "march_days 0 = 0" by (simp_all add: march_days_def)
  consider "0 \<le> yr" | "yr = - 1" | "yr + 1 \<le> - 1" by linarith
  then show "- 719528 \<le> z \<longleftrightarrow> 0 \<le> y"
  proof cases
    case 1
    then show ?thesis using march_days_mono [of 0 yr] m1 z doy by (simp add: y)
  next
    case 2
    then show ?thesis using mp10 m1 z by (auto simp: y)
  next
    case 3
    then show ?thesis using march_days_mono [of "yr + 1" "- 1"] m1 z lt by (auto simp: y)
  qed
qed

lemma civil_from_days_from_civil:
  assumes "valid_date y m d" "\<bar>y\<bar> < 2 ^ 50"
  shows "civil_from_days (days_from_civil y m d) = (y, m, d)"
proof -
  let ?y = "march_year y m" and ?mp = "march_month m"
  have mb: "1 \<le> m" "m \<le> 12" "1 \<le> d" "d \<le> days_in_month y m" using assms(1) by (auto simp: valid_date_def)
  have mp: "0 \<le> ?mp" "?mp \<le> 11" using mb by (auto simp: march_month_def)
  have year: "month_start ?mp + d - 1 < march_days (?y + 1) - march_days ?y"
    and mon: "month_start ?mp + d - 1 < month_start (?mp + 1)"
  proof -
    have "month_start (?mp + 1) \<le> 337" if "?mp \<noteq> 11"
      using that mp int_div_bounds [of 5 "153 * (?mp + 1) + 2"] by (simp add: month_start_def algebra_simps)
    then show "month_start ?mp + d - 1 < march_days (?y + 1) - march_days ?y"
      "month_start ?mp + d - 1 < month_start (?mp + 1)"
      using days_in_month_march [OF assms(2) mb(1,2)] mb march_days_step [of ?y]
      by (cases "m = 2"; auto simp: march_month_def march_year_def month_start_11 split: if_splits)+
  qed
  have d31: "d \<le> 2 ^ 32" using mon month_length [of ?mp] by simp
  let ?z = "days_from_civil y m d" and ?doy = "month_start ?mp + d - 1"
  have z: "?z + 719468 = march_days ?y + ?doy"
    using days_from_civil_march [of y m d] assms(2) mb d31 by simp
  obtain yr doy where r: "?z + 719468 = march_days yr + doy" "0 \<le> doy" "march_days yr + doy < march_days (yr + 1)"
    and civ: "civil_from_days ?z = (let mp = (5 * doy + 2) div 153
           in (if mp < 10 then yr else yr + 1, if mp < 10 then mp + 3 else mp - 9, doy - month_start mp + 1))"
    by (rule civil_from_days_march)
  have ms0: "0 \<le> month_start ?mp" using mp by (simp add: month_start_def)
  have "yr = ?y"
    by (rule march_days_unique [where z = "?z + 719468"]) (use r z year ms0 mb in auto)
  moreover from this have "doy = ?doy" using r z by simp
  moreover have "(5 * ?doy + 2) div 153 = ?mp" by (rule month_of_start) (use mon mb in auto)
  ultimately show ?thesis using civ mb by (auto simp: march_year_def march_month_def)
qed

section \<open>Text forms\<close>

lemma pad_int_nonneg: "0 \<le> i \<Longrightarrow> pad_int w i = pad_nat w (nat i)"
  by (simp add: pad_int_def)

lemma pad_nat_free: "\<not> is_digit c \<Longrightarrow> c \<notin> set (pad_nat w n)"
  using pad_nat_digits by blast

lemma sep_not_digit: "\<not> is_digit 45" "\<not> is_digit 58" "\<not> is_digit 46" "\<not> is_digit 32" "\<not> is_digit 84" "\<not> is_digit 90"
  by (simp_all add: is_digit_def)

lemma pad_nat_solid: "\<forall>b \<in> set (pad_nat w n). solid b"
  using pad_nat_digits digit_solid by blast

definition date_text :: "int \<Rightarrow> int \<Rightarrow> int \<Rightarrow> bytes" where
  "date_text y m d = pad_int 4 y @ 45 # pad_int 2 m @ 45 # pad_int 2 d"

lemma date_text_solid: "0 \<le> y \<Longrightarrow> 0 \<le> m \<Longrightarrow> 0 \<le> d \<Longrightarrow> \<forall>b \<in> set (date_text y m d). solid b"
  using pad_nat_solid by (auto simp: date_text_def pad_int_nonneg solid_def [of 45])

lemma parse_civil_days_text:
  assumes "valid_date y m d" "0 \<le> y" "y < 2 ^ 50" "d \<le> 31"
  shows "parse_civil_days (date_text y m d) = Inr (days_from_civil y m d)"
proof -
  have b: "1 \<le> m" "m \<le> 12" "1 \<le> d" "d \<le> days_in_month y m" using assms(1) by (auto simp: valid_date_def)
  let ?ps = "[pad_nat 4 (nat y), pad_nat 2 (nat m), pad_nat 2 (nat d)]"
  have t: "trim (date_text y m d) = date_text y m d"
    using assms b by (intro trim_all_solid date_text_solid) auto
  have sp: "split_on 45 (date_text y m d) = ?ps"
    using assms b
    by (simp add: date_text_def pad_int_nonneg split_on_append split_on_free pad_nat_free sep_not_digit)
  have "parse_i64 ''bad year'' (pad_nat 4 (nat y)) = Inr y"
    using parse_int_pad [of "- (2 ^ 63)" y "2 ^ 63 - 1" 4] assms(2,3) by (simp add: parse_i64_def pad_int_nonneg)
  moreover have "parse_u32 e (pad_nat 2 (nat i)) = Inr i" if "0 \<le> i" "i \<le> 31" for e i
    using parse_uint_pad [of "nat i" "2 ^ 32 - 1" 2] that by (simp add: parse_u32_def)
  ultimately show ?thesis using b assms(4) by (simp add: parse_civil_days_def t sp)
qed

lemma parse_civil_days_fields:
  assumes "\<forall>b \<in> set s. solid b" "split_on 45 s = [p0, p1, p2]" "parse_int (- (2 ^ 63)) (2 ^ 63 - 1) p0 = Some y"
    and "parse_uint (2 ^ 32 - 1) p1 = Some m" "parse_uint (2 ^ 32 - 1) p2 = Some d" "1 \<le> m" "m \<le> 12" "1 \<le> d" "d \<le> 28"
  shows "parse_civil_days s = Inr (days_from_civil y (int m) (int d))"
  using assms by (simp add: parse_civil_days_def trim_all_solid parse_i64_def parse_u32_def)

lemma fmt_date_text: "fmt_date n = (case civil_from_days (int n) of (y, m, d) \<Rightarrow> date_text y m d)"
  by (simp add: fmt_date_def date_text_def)

lemma split_time_text:
  assumes "32 \<notin> set s" "84 \<notin> set s"
  shows "split_time (s @ 32 # t) = (s, t)"
proof -
  have "takeWhile (\<lambda>b. b \<noteq> 32 \<and> b \<noteq> 84) (s @ 32 # t) = s"
    using assms by (simp add: takeWhile_append)
      (metis (mono_tags, lifting) takeWhile_eq_all_conv)
  then show ?thesis by (simp add: split_time_def)
qed

definition time_text :: "int \<Rightarrow> bytes" where
  "time_text r = pad_int 2 (r div 3600) @ 58 # pad_int 2 ((r mod 3600) div 60) @ 58 # pad_int 2 (r mod 60)"

lemma time_fields:
  fixes r :: int
  assumes "0 \<le> r" "r < 86400"
  shows "0 \<le> r div 3600" "r div 3600 \<le> 23" "0 \<le> (r mod 3600) div 60" "(r mod 3600) div 60 \<le> 59"
    "0 \<le> r mod 60" "r mod 60 \<le> 59" "r div 3600 * 3600 + (r mod 3600) div 60 * 60 + r mod 60 = r"
proof -
  have "r mod 60 = (r mod 3600) mod 60" by (simp add: mod_mod_cancel)
  then show "r div 3600 * 3600 + (r mod 3600) div 60 * 60 + r mod 60 = r"
    using div_mult_mod_eq [of "r mod 3600" 60] div_mult_mod_eq [of r 3600] by linarith
  show "0 \<le> r div 3600" "0 \<le> (r mod 3600) div 60" "0 \<le> r mod 60" "r mod 60 \<le> 59"
    using assms pos_mod_bound [of 60 r] by (simp_all add: pos_imp_zdiv_nonneg_iff)
  show "r div 3600 \<le> 23" using int_div_bounds [of 3600 r] assms by simp
  show "(r mod 3600) div 60 \<le> 59"
    using int_div_bounds [of 60 "r mod 3600"] pos_mod_bound [of 3600 r] by simp
qed

lemma add_hms_text:
  assumes "0 \<le> r" "r < 86400"
  shows "add_hms 0 [(3600, 23), (60, 59), (1, 59)] (split_on 58 (trim_end_matches 90 (trim (time_text r)))) = Inr r"
    and "length (split_on 58 (trim_end_matches 90 (trim (time_text r)))) = 3"
proof -
  note f = time_fields [OF assms]
  let ?ps = "[pad_nat 2 (nat (r div 3600)), pad_nat 2 (nat ((r mod 3600) div 60)), pad_nat 2 (nat (r mod 60))]"
  have tt: "time_text r = ?ps ! 0 @ 58 # ?ps ! 1 @ 58 # ?ps ! 2"
    using f by (simp add: time_text_def pad_int_nonneg)
  have "\<forall>b \<in> set (time_text r). solid b" unfolding tt using pad_nat_solid by (auto simp: solid_def [of 58])
  then have t: "trim (time_text r) = time_text r" by (rule trim_all_solid)
  have "last (time_text r) = last (?ps ! 2)" unfolding tt by simp
  also have "\<dots> \<in> set (?ps ! 2)" by simp
  finally have "last (time_text r) \<noteq> 90" using pad_nat_free [of 90] sep_not_digit by auto
  moreover have "time_text r \<noteq> []" unfolding tt by simp
  ultimately have e: "trim_end_matches 90 (time_text r) = time_text r"
    by (simp add: trim_end_matches_last)
  have sp: "split_on 58 (time_text r) = ?ps"
    unfolding tt by (simp add: split_on_append split_on_free pad_nat_free sep_not_digit)
  have "parse_i64 e (hd (split_on 46 (pad_nat 2 (nat i)))) = Inr i" if "0 \<le> i" "i \<le> 59" for e i
    using parse_int_pad [of "- (2 ^ 63)" i "2 ^ 63 - 1" 2] that
    by (simp add: parse_i64_def pad_int_nonneg split_on_free pad_nat_free sep_not_digit)
  then show "add_hms 0 [(3600, 23), (60, 59), (1, 59)] (split_on 58 (trim_end_matches 90 (trim (time_text r)))) = Inr r"
    using f by (simp add: t e sp)
  show "length (split_on 58 (trim_end_matches 90 (trim (time_text r)))) = 3" by (simp add: t e sp)
qed

lemma parse_datetime_text:
  assumes "- 62167219200 \<le> secs" "secs < 2 ^ 63"
  shows "parse_datetime (fmt_datetime secs) = Inr secs"
proof -
  define days where "days = secs div 86400"
  define r where "r = secs mod 86400"
  obtain y m d where civ: "civil_from_days days = (y, m, d)" by (cases "civil_from_days days")
  have r: "0 \<le> r" "r < 86400" by (simp_all add: r_def)
  note db = int_div_bounds [of 86400 secs, folded days_def]
  have days: "- 719528 \<le> days" "\<bar>days\<bar> \<le> 2 ^ 50" using db assms by auto
  note v = civil_from_days_valid [OF days(2) civ]
  have y: "0 \<le> y" "y < 2 ^ 50" using v(3,5) days(1) by auto
  have md: "0 \<le> m" "0 \<le> d" using v(1) by (auto simp: valid_date_def)
  have ft: "fmt_datetime secs = date_text y m d @ 32 # time_text r"
    by (simp add: fmt_datetime_def date_text_def time_text_def civ days_def [symmetric] r_def [symmetric])
  have solid: "\<forall>b \<in> set (date_text y m d). solid b" by (rule date_text_solid [OF y(1) md])
  have free: "32 \<notin> set (date_text y m d)" "84 \<notin> set (date_text y m d)"
    using y md by (auto simp: date_text_def pad_int_nonneg pad_nat_free sep_not_digit)
  have ends: "date_text y m d \<noteq> []" "time_text r \<noteq> []" "last (time_text r) \<in> set (pad_nat 2 (nat (r mod 60)))"
    using r by (auto simp: date_text_def time_text_def pad_int_nonneg)
  have "trim (fmt_datetime secs) = fmt_datetime secs"
    unfolding ft using solid ends pad_nat_solid [of 2 "nat (r mod 60)"] by (intro trim_solid) auto
  moreover have "days * 86400 + r = secs" by (simp add: days_def r_def)
  ultimately show ?thesis
    using parse_civil_days_text [OF v(1) y v(4)] v(2) add_hms_text [OF r] assms wrap_i64_id [of secs]
    by (auto simp: parse_datetime_def split_time_text [OF free] ft Let_def)
qed

lemma parse_date_text:
  assumes "n < 2 ^ 32"
  shows "parse_date (fmt_date n) = Inr n"
proof -
  obtain y m d where civ: "civil_from_days (int n) = (y, m, d)" by (cases "civil_from_days (int n)")
  have "\<bar>int n\<bar> \<le> 2 ^ 50" using assms by simp
  note v = civil_from_days_valid [OF this civ]
  have "parse_civil_days (fmt_date n) = Inr (int n)"
    using parse_civil_days_text [OF v(1) _ _ v(4)] v(2,3,5) by (simp add: fmt_date_text civ)
  with assms show ?thesis by (simp add: parse_date_def)
qed

section \<open>Properties\<close>

text \<open>The two calendar conversions are inverse to each other: every day count has a date that exists and that counts
  back to it, and every existing date of a year below \<open>2 ^ 50\<close> in magnitude is the date of its day count.\<close>

theorem civil_bijection:
  "(\<bar>z\<bar> \<le> 2 ^ 50 \<longrightarrow> (case civil_from_days z of (y, m, d) \<Rightarrow> valid_date y m d \<and> days_from_civil y m d = z)) \<and>
   (valid_date y m d \<and> \<bar>y\<bar> < 2 ^ 50 \<longrightarrow> civil_from_days (days_from_civil y m d) = (y, m, d))"
  using civil_from_days_valid(1,2) [of z] civil_from_days_from_civil [of y m d] by (auto split: prod.split)

theorem civil_bijection_witness:
  "(case civil_from_days 19782 of (y, m, d) \<Rightarrow> valid_date y m d \<and> days_from_civil y m d = 19782)
   \<and> civil_from_days (days_from_civil 2024 2 29) = (2024, 2, 29)"
proof
  show "case civil_from_days 19782 of (y, m, d) \<Rightarrow> valid_date y m d \<and> days_from_civil y m d = 19782"
    using civil_bijection [of 19782 1 1 1] by simp
  have "valid_date 2024 2 29" by code_simp
  then show "civil_from_days (days_from_civil 2024 2 29) = (2024, 2, 29)"
    using civil_bijection [of 0 2024 2 29] by simp
qed

text \<open>A printed date parses back to the day it was printed from, for the whole range of the type, and a printed
  timestamp parses back to the second from year 0 on.\<close>

theorem date_text_roundtrip:
  "(n < 2 ^ 32 \<longrightarrow> parse_date (fmt_date n) = Inr n) \<and>
   (- 62167219200 \<le> secs \<and> secs < 2 ^ 63 \<longrightarrow> parse_datetime (fmt_datetime secs) = Inr secs)"
  using parse_date_text [of n] parse_datetime_text [of secs] by blast

theorem date_text_roundtrip_witness:
  "parse_date (fmt_date 19782) = Inr 19782 \<and> parse_datetime (fmt_datetime (- 1)) = Inr (- 1)"
  using date_text_roundtrip [of 19782 "- 1"] by simp

text \<open>C32: A date text is accepted only as an existing date: of a year below \<open>2 ^ 50\<close> in magnitude, the accepted day
  count is the date the text spells. A year past the range of the day count is not refused: its count wraps
  around and, as the last conjunct shows, can land inside the type's range.\<close>

theorem parse_civil_days_sound:
  "(parse_civil_days s = Inr z \<longrightarrow>
     (\<exists>p0 p1 p2 y m d. split_on 45 (trim s) = [p0, p1, p2] \<and> parse_int (- (2 ^ 63)) (2 ^ 63 - 1) p0 = Some y
        \<and> parse_uint (2 ^ 32 - 1) p1 = Some m \<and> parse_uint (2 ^ 32 - 1) p2 = Some d
        \<and> (\<bar>y\<bar> < 2 ^ 50 \<longrightarrow> civil_from_days z = (y, int m, int d)))) \<and>
   parse_date (ascii ''50505469855535080-01-01'') = Inr 313"
proof
  have len28: "28 \<le> days_in_month y m" if "\<bar>y\<bar> < 2 ^ 50" "1 \<le> m" "m \<le> 12" for y m
  proof -
    have "30 \<le> month_start (mp + 1) - month_start mp" for mp
      using int_div_bounds [of 5 "153 * mp + 2"] int_div_bounds [of 5 "153 * (mp + 1) + 2"]
      by (simp add: month_start_def algebra_simps)
    from this [of "march_month m"] show ?thesis
      using days_in_month_march [OF that] march_days_step(1) [of "y - 1"] by (auto split: if_splits)
  qed
  show "parse_civil_days s = Inr z \<longrightarrow>
     (\<exists>p0 p1 p2 y m d. split_on 45 (trim s) = [p0, p1, p2] \<and> parse_int (- (2 ^ 63)) (2 ^ 63 - 1) p0 = Some y
        \<and> parse_uint (2 ^ 32 - 1) p1 = Some m \<and> parse_uint (2 ^ 32 - 1) p2 = Some d
        \<and> (\<bar>y\<bar> < 2 ^ 50 \<longrightarrow> civil_from_days z = (y, int m, int d)))"
  proof
    assume "parse_civil_days s = Inr z"
    then obtain p0 p1 p2 y m d where sp: "split_on 45 (trim s) = [p0, p1, p2]"
      and ps: "parse_int (- (2 ^ 63)) (2 ^ 63 - 1) p0 = Some y" "parse_uint (2 ^ 32 - 1) p1 = Some m"
        "parse_uint (2 ^ 32 - 1) p2 = Some d"
      and ok: "1 \<le> int m" "int m \<le> 12" "int d \<noteq> 0" "int d > 28 \<longrightarrow> int d \<le> days_in_month y (int m)"
      and z: "z = days_from_civil y (int m) (int d)"
      by (auto simp: parse_civil_days_def parse_i64_def parse_u32_def split: list.splits option.splits if_splits)
    have "civil_from_days z = (y, int m, int d)" if "\<bar>y\<bar> < 2 ^ 50"
      unfolding z using ok len28 [OF that ok(1,2)] that
      by (intro civil_from_days_from_civil) (auto simp: valid_date_def)
    with sp ps show "\<exists>p0 p1 p2 y m d. split_on 45 (trim s) = [p0, p1, p2]
        \<and> parse_int (- (2 ^ 63)) (2 ^ 63 - 1) p0 = Some y
        \<and> parse_uint (2 ^ 32 - 1) p1 = Some m \<and> parse_uint (2 ^ 32 - 1) p2 = Some d
        \<and> (\<bar>y\<bar> < 2 ^ 50 \<longrightarrow> civil_from_days z = (y, int m, int d))" by blast
  qed
  have "parse_civil_days (ascii ''50505469855535080-01-01'') = Inr (days_from_civil 50505469855535080 (int 1) (int 1))"
    by (rule parse_civil_days_fields [where ?p0.0 = "ascii ''50505469855535080''" and ?p1.0 = "[48, 49]" and ?p2.0 = "[48, 49]"])
      (simp_all add: ascii_def solid_def parse_int_def parse_uint_def is_digit_def)
  moreover have "days_from_civil 50505469855535080 1 1 = 313" by code_simp
  ultimately show "parse_date (ascii ''50505469855535080-01-01'') = Inr 313" by (simp add: parse_date_def)
qed

theorem parse_civil_days_sound_witness:
  "\<exists>y m d. civil_from_days 366 = (y, m, d) \<and> parse_civil_days (ascii ''1971-01-02'') = Inr 366"
proof -
  have "parse_civil_days (ascii ''1971-01-02'') = Inr (days_from_civil 1971 (int 1) (int 2))"
    by (rule parse_civil_days_fields [where ?p0.0 = "ascii ''1971''" and ?p1.0 = "[48, 49]" and ?p2.0 = "[48, 50]"])
      (simp_all add: ascii_def solid_def parse_int_def parse_uint_def is_digit_def)
  moreover have "days_from_civil 1971 1 2 = 366" by code_simp
  ultimately have "parse_civil_days (ascii ''1971-01-02'') = Inr 366" by simp
  then show ?thesis using parse_civil_days_sound [of "ascii ''1971-01-02''" 366] by (metis prod_cases3)
qed

end
