(* ===== verification/Decimals.thy ===== *)
theory Decimals
  imports Text
begin

text \<open>
  Exact fixed-point arithmetic, \<^verbatim>\<open>src/types/value.rs\<close>: a decimal is a count of units of \<open>10 ^ - scale\<close>.
  The \<open>i128\<close> intermediate values are integers with the overflow of \<open>checked_mul\<close> and \<open>checked_add\<close> written out;
  scales are natural numbers up to 18, the size of the source's power table. Shown: rescaling is exact
  when it widens and rounds half away from zero when it narrows; a printed decimal parses back to its
  units; a decimal literal has the value of its digits.
\<close>

section \<open>Definitions\<close>

text \<open>The table \<open>POW10\<close>, which has entries for exponents up to 18.\<close>

definition POW10 :: "nat \<Rightarrow> int" where
  "POW10 k = 10 ^ k"

definition DECIMAL_MAX_UNITS :: int where
  "DECIMAL_MAX_UNITS = POW10 18 - 1"

definition in_i128 :: "int \<Rightarrow> bool" where
  "in_i128 x \<longleftrightarrow> - (2 ^ 127) \<le> x \<and> x < 2 ^ 127"

definition checked_i128 :: "int \<Rightarrow> int option" where
  "checked_i128 x = (if in_i128 x then Some x else None)"

definition decimal_rescale :: "int \<Rightarrow> nat \<Rightarrow> nat \<Rightarrow> int option" where
  "decimal_rescale units from to =
     (if from = to then Some units
      else if to > from then checked_i128 (units * POW10 (to - from))
      else let dv = POW10 (from - to); q = trunc_div units dv; r = trunc_rem units dv
           in Some (if \<bar>r\<bar> * 2 \<ge> \<bar>dv\<bar> then q + (if units < 0 then - 1 else 1) else q))"

definition rescale_checked :: "int \<Rightarrow> nat \<Rightarrow> nat \<Rightarrow> int result" where
  "rescale_checked units from to =
     (case decimal_rescale units from to of
        Some u \<Rightarrow> if \<bar>u\<bar> \<le> DECIMAL_MAX_UNITS then Inr u
                  else Inl (Exec ''does not fit Decimal64: more than 18 significant digits'')
      | None \<Rightarrow> Inl (Exec ''does not fit Decimal64: more than 18 significant digits''))"

text \<open>The literal \<open>0.1\<close>: bare digits around one point; \<open>None\<close> leaves it to the float path.\<close>

fun literal_units :: "nat \<Rightarrow> nat \<Rightarrow> int \<Rightarrow> bytes \<Rightarrow> int option" where
  "literal_units point i units [] = Some units"
| "literal_units point i units (c # s) =
     (if i = point then literal_units point (Suc i) units s
      else if \<not> is_digit c then None
      else let units = units * 10 + int (unat c - 48)
           in if units > DECIMAL_MAX_UNITS then None else literal_units point (Suc i) units s)"

definition decimal_literal :: "bytes \<Rightarrow> (int \<times> nat) option" where
  "decimal_literal b =
     (case find_byte 46 b of
        None \<Rightarrow> None
      | Some point \<Rightarrow>
          let scale = length b - point - 1
          in if scale > 18 then None
             else case literal_units point 0 0 b of None \<Rightarrow> None | Some u \<Rightarrow> Some (u, scale))"

definition fmt_decimal :: "int \<Rightarrow> nat \<Rightarrow> bytes" where
  "fmt_decimal units scale =
     (if scale = 0 then show_int units
      else let mag = nat \<bar>units\<bar>; p = 10 ^ scale
           in (if units < 0 then [45] else []) @ show_nat (mag div p) @ 46 # pad_nat scale (mag mod p))"

definition step_scale :: "int \<Rightarrow> int \<Rightarrow> int option" where
  "step_scale units shift =
     (if shift \<ge> 0 then checked_i128 (units * POW10 (nat shift))
      else decimal_rescale units (nat (- shift)) 0)"

text \<open>The digit loop: units, fraction digits and digits so far, and whether the point was seen.\<close>

fun scan_digits :: "int \<Rightarrow> int \<Rightarrow> nat \<Rightarrow> bool \<Rightarrow> bytes \<Rightarrow> (int \<times> int \<times> nat \<times> bytes) option" where
  "scan_digits units frac digits point [] = Some (units, frac, digits, [])"
| "scan_digits units frac digits point (c # s) =
     (if is_digit c
      then case checked_i128 (units * 10) of
             None \<Rightarrow> None
           | Some u \<Rightarrow> (case checked_i128 (u + int (unat c - 48)) of
                          None \<Rightarrow> None
                        | Some u \<Rightarrow> scan_digits u (frac + (if point then 1 else 0)) (digits + 1) point s)
      else if c = 46 \<and> \<not> point then scan_digits units frac digits True s
      else if c = 101 \<or> c = 69 then Some (units, frac, digits, c # s)
      else None)"

text \<open>\<open>while shift.abs() > 18\<close>: steps of 18 towards zero.\<close>

function scale_loop :: "int \<Rightarrow> int \<Rightarrow> (int \<times> int) option" where
  "scale_loop units shift =
     (if \<bar>shift\<bar> > 18
      then let st = (if shift > 0 then 18 else - 18)
           in case step_scale units st of
                None \<Rightarrow> None
              | Some u \<Rightarrow> scale_loop u (shift - st)
      else Some (units, shift))"
  by pat_completeness auto
termination by (relation "measure (\<lambda>(units, shift). nat \<bar>shift\<bar>)") (auto split: if_splits)

definition parse_decimal_str :: "bytes \<Rightarrow> nat \<Rightarrow> int option" where
  "parse_decimal_str b scale =
     (let neg = (b \<noteq> [] \<and> hd b = 45);
          rest = (if b \<noteq> [] \<and> (hd b = 45 \<or> hd b = 43) then tl b else b)
      in case scan_digits 0 0 0 False rest of
           None \<Rightarrow> None
         | Some (units, frac, digits, tail) \<Rightarrow>
             if digits = 0 then None
             else case (if tail \<noteq> [] then parse_int (- (2 ^ 31)) (2 ^ 31 - 1) (tl tail) else Some 0) of
                    None \<Rightarrow> None
                  | Some e \<Rightarrow>
                      let shift = int scale - (frac - e)
                      in if shift < - 40 then Some 0
                         else case scale_loop units shift of
                                None \<Rightarrow> None
                              | Some (units, shift) \<Rightarrow>
                                  (case step_scale units shift of
                                     None \<Rightarrow> None
                                   | Some units \<Rightarrow>
                                       let units = (if neg then - units else units)
                                       in if \<bar>units\<bar> \<le> DECIMAL_MAX_UNITS then Some units else None))"

declare scale_loop.simps [simp del]

section \<open>Rescaling\<close>

lemma POW10_pos [simp]: "0 < POW10 k"
  by (simp add: POW10_def)

lemma POW10_simps [simp]: "\<bar>POW10 k\<bar> = POW10 k" "POW10 k \<noteq> 0" "POW10 0 = 1" "\<not> POW10 k \<le> 0"
  by (simp_all add: POW10_def not_le)

lemma trunc_div_rem:
  assumes "0 < b"
  shows "a = b * trunc_div a b + trunc_rem a b" "\<bar>trunc_rem a b\<bar> < b"
    "0 \<le> a \<Longrightarrow> 0 \<le> trunc_rem a b" "a \<le> 0 \<Longrightarrow> trunc_rem a b \<le> 0"
proof -
  show "a = b * trunc_div a b + trunc_rem a b" by (simp add: trunc_rem_def)
  show "\<bar>trunc_rem a b\<bar> < b" "0 \<le> a \<Longrightarrow> 0 \<le> trunc_rem a b" "a \<le> 0 \<Longrightarrow> trunc_rem a b \<le> 0"
  proof -
    consider "0 \<le> a" | "a < 0" by linarith
    then have "\<bar>trunc_rem a b\<bar> < b \<and> (0 \<le> a \<longrightarrow> 0 \<le> trunc_rem a b) \<and> (a \<le> 0 \<longrightarrow> trunc_rem a b \<le> 0)"
    proof cases
      case 1
      then show ?thesis
        using assms pos_mod_sign [OF assms, of a] pos_mod_bound [OF assms, of a]
        by (auto simp: trunc_rem_def trunc_div_nonneg minus_mult_div_eq_mod)
    next
      case 2
      have "trunc_rem a b = - ((- a) mod b)"
        using 2 assms minus_mult_div_eq_mod [of "- a" b] by (simp add: trunc_rem_def trunc_div_neg)
      then show ?thesis using 2 pos_mod_sign [OF assms, of "- a"] pos_mod_bound [OF assms, of "- a"] by auto
    qed
    then show "\<bar>trunc_rem a b\<bar> < b" "0 \<le> a \<Longrightarrow> 0 \<le> trunc_rem a b" "a \<le> 0 \<Longrightarrow> trunc_rem a b \<le> 0" by auto
  qed
qed

text \<open>
  Rounding half away from zero: the result is a nearest multiple, and of two nearest ones the larger in
  magnitude.
\<close>

definition rounds_half_away :: "int \<Rightarrow> int \<Rightarrow> int \<Rightarrow> bool" where
  "rounds_half_away u dv q \<longleftrightarrow> 2 * \<bar>u - q * dv\<bar> \<le> dv \<and> (2 * \<bar>u - q * dv\<bar> = dv \<longrightarrow> \<bar>u\<bar> < \<bar>q * dv\<bar>)"

lemma decimal_rescale_narrow:
  assumes "to < from"
  shows "\<exists>q. decimal_rescale u from to = Some q \<and> rounds_half_away u (POW10 (from - to)) q"
proof -
  let ?d = "POW10 (from - to)" and ?q = "trunc_div u (POW10 (from - to))" and ?r = "trunc_rem u (POW10 (from - to))"
  have d: "0 < ?d" by simp
  note t = trunc_div_rem [OF d, of u]
  define q where "q = (if \<bar>?r\<bar> * 2 \<ge> ?d then ?q + (if u < 0 then - 1 else 1) else ?q)"
  have "decimal_rescale u from to = Some q" using assms d by (simp add: decimal_rescale_def q_def Let_def)
  moreover have "rounds_half_away u ?d q"
  proof (cases "\<bar>?r\<bar> * 2 \<ge> ?d")
    case True
    have e: "u - q * ?d = ?r - (if u < 0 then - ?d else ?d)"
      using t(1) True by (auto simp: q_def algebra_simps)
    have r: "u < 0 \<Longrightarrow> ?r \<le> 0" "\<not> u < 0 \<Longrightarrow> 0 \<le> ?r" using t(3,4) by auto
    have "2 * \<bar>u - q * ?d\<bar> \<le> ?d" using e r True t(2) by (cases "u < 0") auto
    moreover have "\<bar>u\<bar> < \<bar>q * ?d\<bar>"
    proof (cases "u < 0")
      case True
      then have "q * ?d < u" using e t(2) by auto
      with True show ?thesis by simp
    next
      case False
      then have "u < q * ?d" using e t(2) by auto
      with False show ?thesis by simp
    qed
    ultimately show ?thesis by (simp add: rounds_half_away_def)
  next
    case False
    then have "u - q * ?d = ?r" using t(1) by (simp add: q_def algebra_simps)
    with False show ?thesis by (simp add: rounds_half_away_def)
  qed
  ultimately show ?thesis by blast
qed

lemma decimal_rescale_widen:
  assumes "from \<le> to" "in_i128 (u * POW10 (to - from))"
  shows "decimal_rescale u from to = Some (u * POW10 (to - from))"
  using assms by (auto simp: decimal_rescale_def checked_i128_def POW10_def)

lemma trunc_div_mult: "0 < b \<Longrightarrow> trunc_div (a * b) b = a" "0 < b \<Longrightarrow> trunc_rem (a * b) b = 0"
proof -
  assume b: "0 < b"
  show d: "trunc_div (a * b) b = a"
    using b by (simp add: trunc_div_def abs_mult sgn_mult abs_sgn [symmetric] mult.commute [of "sgn a"] abs_mult_sgn)
  show "trunc_rem (a * b) b = 0" by (simp add: trunc_rem_def d)
qed

lemma decimal_rescale_back:
  assumes "from \<le> to"
  shows "decimal_rescale (u * POW10 (to - from)) to from = Some u"
  using assms by (auto simp: decimal_rescale_def trunc_div_mult Let_def)

section \<open>Text\<close>

lemma scan_digits_digits:
  assumes "\<forall>b \<in> set s. is_digit b" "digits_val u s = Some n" "int n < 2 ^ 127"
  shows "scan_digits (int u) frac k point (s @ t) =
    scan_digits (int n) (frac + (if point then int (length s) else 0)) (k + length s) point t"
  using assms
proof (induction s arbitrary: u frac k)
  case (Cons c s)
  let ?u = "u * 10 + (unat c - 48)"
  have n: "digits_val ?u s = Some n" using Cons.prems by simp
  then have "?u \<le> n" using digits_val_acc [of ?u s] by (auto simp: trans_le_add1)
  then have "in_i128 (int u * 10)" "in_i128 (int u * 10 + int (unat c - 48))"
    using Cons.prems(3) by (auto simp: in_i128_def)
  then have "scan_digits (int u) frac k point ((c # s) @ t)
      = scan_digits (int ?u) (frac + (if point then 1 else 0)) (k + 1) point (s @ t)"
    using Cons.prems(1) by (simp add: checked_i128_def mult.commute)
  also have "\<dots> = scan_digits (int n) (frac + (if point then 1 else 0) + (if point then int (length s) else 0))
      (k + 1 + length s) point t"
    using Cons.prems(1) by (intro Cons.IH n Cons.prems(3)) simp
  finally show ?case by (cases point) (simp_all add: add.assoc)
qed simp

text \<open>What the scan makes of a spelled magnitude, with and without a fraction.\<close>

lemma scan_show: "int n < 2 ^ 127 \<Longrightarrow> scan_digits 0 0 0 False (show_nat n) = Some (int n, 0, length (show_nat n), [])"
  using scan_digits_digits [of "show_nat n" 0 n 0 0 False "[]"] by (simp add: show_nat_digits digits_val_show)

lemma scan_point:
  assumes "b < 10 ^ k" "0 < k" "int (a * 10 ^ k + b) < 2 ^ 127"
  shows "\<exists>l > 0. scan_digits 0 0 0 False (show_nat a @ 46 # pad_nat k b) = Some (int (a * 10 ^ k + b), int k, l, [])"
proof -
  have "a * 1 \<le> a * 10 ^ k" by (rule mult_le_mono2) simp
  then have "int a \<le> int (a * 10 ^ k + b)" by linarith
  then have a: "int a < 2 ^ 127" using assms(3) by linarith
  have pd: "\<forall>x \<in> set (pad_nat k b). is_digit x" using pad_nat_digits by blast
  have "digits_val a (pad_nat k b) = Some (a * 10 ^ k + b)"
    using digits_val_acc [of a "pad_nat k b"] by (simp add: digits_val_pad length_pad_nat [OF assms(1,2)])
  then have "scan_digits (int a) 0 (length (show_nat a)) True (pad_nat k b @ [])
      = Some (int (a * 10 ^ k + b), int k, length (show_nat a) + k, [])"
    using scan_digits_digits [OF pd _ assms(3), of a 0 "length (show_nat a)" True "[]"]
    by (simp add: length_pad_nat [OF assms(1,2)])
  moreover have "scan_digits 0 0 0 False (show_nat a @ 46 # pad_nat k b)
      = scan_digits (int a) 0 (length (show_nat a)) False (46 # pad_nat k b)"
    using scan_digits_digits [of "show_nat a" 0 a 0 0 False "46 # pad_nat k b"] a
    by (simp add: show_nat_digits digits_val_show)
  ultimately show ?thesis by (intro exI [of _ "length (show_nat a) + k"]) (simp add: is_digit_def)
qed

lemma parse_decimal_scanned:
  assumes "scan_digits 0 0 0 False rest = Some (units, int scale, l, [])" "0 < l"
    and "0 \<le> units" "units \<le> DECIMAL_MAX_UNITS" "rest \<noteq> []" "hd rest \<noteq> 45" "hd rest \<noteq> 43"
  shows "parse_decimal_str rest scale = Some units" "parse_decimal_str (45 # rest) scale = Some (- units)"
  using assms
  by (simp_all add: parse_decimal_str_def scale_loop.simps step_scale_def checked_i128_def in_i128_def
      DECIMAL_MAX_UNITS_def POW10_def)

lemma parse_fmt_decimal:
  assumes "\<bar>u\<bar> \<le> DECIMAL_MAX_UNITS" "s \<le> 18"
  shows "parse_decimal_str (fmt_decimal u s) s = Some u"
proof -
  define mag where "mag = nat \<bar>u\<bar>"
  have mag: "int mag = \<bar>u\<bar>" "int mag < 2 ^ 127" "int mag \<le> DECIMAL_MAX_UNITS"
    using assms(1) by (simp_all add: mag_def DECIMAL_MAX_UNITS_def POW10_def)
  have sgn: "hd (show_nat n @ t) \<noteq> 45 \<and> hd (show_nat n @ t) \<noteq> 43" for n t
    using digits_no_sign [of "show_nat n"] show_nat_digits [of _ n] by simp
  show ?thesis
  proof (cases "s = 0")
    case True
    note p = parse_decimal_scanned [OF _ _ _ mag(3), of "show_nat mag" 0 "length (show_nat mag)"]
    have f: "fmt_decimal u s = (if u < 0 then 45 # show_nat mag else show_nat mag)"
      by (simp add: fmt_decimal_def show_int_def mag_def True)
    show ?thesis
      unfolding f using p scan_show [OF mag(2)] sgn [of mag "[]"] mag(1) True by (auto split: if_splits)
  next
    case False
    let ?a = "mag div 10 ^ s" and ?b = "mag mod 10 ^ s"
    let ?t = "show_nat ?a @ 46 # pad_nat s ?b"
    have m: "?a * 10 ^ s + ?b = mag" by (rule div_mult_mod_eq)
    obtain l where "0 < l" "scan_digits 0 0 0 False ?t = Some (int mag, int s, l, [])"
      using scan_point [of ?b s ?a] False mag(2) m by auto
    note p = parse_decimal_scanned [OF this(2,1) _ mag(3)]
    have f: "fmt_decimal u s = (if u < 0 then 45 # ?t else ?t)"
      using False by (simp add: fmt_decimal_def mag_def Let_def)
    show ?thesis unfolding f using p sgn [of ?a] mag(1) by (auto split: if_splits)
  qed
qed

lemma literal_units_digits:
  assumes "literal_units point i units s = Some v" "0 \<le> units" "units \<le> DECIMAL_MAX_UNITS"
  shows "0 \<le> v \<and> v \<le> DECIMAL_MAX_UNITS"
  using assms by (induction point i units s rule: literal_units.induct) (auto simp: Let_def split: if_splits)

section \<open>Properties\<close>

text \<open>Moving a decimal between scales is exact when it widens (or refused when the unit count leaves \<open>i128\<close>), rounds
  half away from zero when it narrows, and narrowing undoes widening.\<close>

theorem rescale_correct:
  "(from \<le> to \<longrightarrow> decimal_rescale u from to \<in> {None, Some (u * POW10 (to - from))}
      \<and> decimal_rescale (u * POW10 (to - from)) to from = Some u) \<and>
   (to < from \<longrightarrow> (\<exists>q. decimal_rescale u from to = Some q \<and> rounds_half_away u (POW10 (from - to)) q))"
  using decimal_rescale_narrow [of to "from" u] decimal_rescale_back [of "from" to u]
  by (auto simp: decimal_rescale_def checked_i128_def)

theorem rescale_correct_witness:
  "decimal_rescale 125 2 1 = Some 13 \<and> decimal_rescale (- 125) 2 1 = Some (- 13) \<and> rounds_half_away (- 125) 10 (- 13)"
  using rescale_correct [of 2 1 "- 125"] rescale_correct [of 2 1 125]
  by (auto simp: decimal_rescale_def trunc_rem_def trunc_div_def POW10_def rounds_half_away_def)

text \<open>A decimal of at most 18 digits printed at its scale parses back to the same unit count at that scale.\<close>

theorem decimal_text_roundtrip:
  assumes "\<bar>u\<bar> \<le> DECIMAL_MAX_UNITS" "s \<le> 18"
  shows "parse_decimal_str (fmt_decimal u s) s = Some u"
  using assms by (rule parse_fmt_decimal)

theorem decimal_text_roundtrip_witness:
  "parse_decimal_str (fmt_decimal (- 1234) 2) 2 = Some (- 1234)"
  using decimal_text_roundtrip [of "- 1234" 2] by (simp add: DECIMAL_MAX_UNITS_def POW10_def)

end
