(* ===== verification/Float64.thy ===== *)
theory Float64
  imports Lane_Codec
begin

text \<open>
  The conversions between integers and IEEE-754 doubles that the sources use: integer to double
  (\<open>as f64\<close>, round to nearest, ties to even), double to integer (truncation), the quotient of a double by a
  small integer, the detour through \<open>f32\<close>, and the tests on doubles. A double is its bit pattern, as in
  \<open>Lane_Codec\<close>. How a double is spelled in decimal and read back is a parameter (\<open>float_text\<close>): no
  statement depends on it.
\<close>

record float_text =
  disp_f64 :: "f64 \<Rightarrow> bytes"
  read_f64 :: "bytes \<Rightarrow> f64 option"

definition f64_is_finite :: "f64 \<Rightarrow> bool" where
  "f64_is_finite x \<longleftrightarrow> f64_mag x < 0x7FF0000000000000"

text \<open>\<open>n / 2 ^ k\<close> rounded to the nearest integer, ties to even.\<close>

definition round_shift :: "nat \<Rightarrow> nat \<Rightarrow> nat" where
  "round_shift n k =
     (if k = 0 then n
      else let q = n div 2 ^ k; r = n mod 2 ^ k; h = 2 ^ (k - 1)
           in if r > h \<or> (r = h \<and> odd q) then q + 1 else q)"

text \<open>The magnitude bits of \<open>n * 2 ^ e\<close>, for results in the normal range; a carry goes into the exponent.\<close>

definition f64_bits :: "nat \<Rightarrow> int \<Rightarrow> nat" where
  "f64_bits n e =
     (if n = 0 then 0
      else let l = bit_len n; m = (if l \<le> 53 then n * 2 ^ (53 - l) else round_shift n (l - 53))
           in nat (e + int l - 1 + 1023) * 2 ^ 52 + (m - 2 ^ 52))"

definition f64_sign :: "bool \<Rightarrow> nat \<Rightarrow> f64" where
  "f64_sign neg bits = (if neg then SIGN OR of_nat bits else of_nat bits)"

definition f64_of_int :: "int \<Rightarrow> f64" where
  "f64_of_int i = f64_sign (i < 0) (f64_bits (nat \<bar>i\<bar>) 0)"

text \<open>Significand and exponent of a finite double: \<open>significand * 2 ^ exponent\<close>.\<close>

definition f64_exponent :: "f64 \<Rightarrow> int" where
  "f64_exponent x = int (max (f64_mag x div 2 ^ 52) 1) - 1075"

definition f64_significand :: "f64 \<Rightarrow> nat" where
  "f64_significand x = (if f64_mag x < 2 ^ 52 then f64_mag x else 2 ^ 52 + f64_mag x mod 2 ^ 52)"

definition f64_trunc :: "f64 \<Rightarrow> int" where
  "f64_trunc x =
     (let m = f64_significand x; e = f64_exponent x;
          n = (if e \<ge> 0 then m * 2 ^ nat e else m div 2 ^ nat (- e))
      in if bit x 63 then - int n else int n)"

definition f64_is_integral :: "f64 \<Rightarrow> bool" where
  "f64_is_integral x \<longleftrightarrow>
     f64_is_finite x \<and> (f64_exponent x \<ge> 0 \<or> f64_significand x mod 2 ^ nat (- f64_exponent x) = 0)"

text \<open>\<open>x / d\<close> for an integer \<open>d\<close> that is a double itself, rounded once.\<close>

definition f64_div_nat :: "f64 \<Rightarrow> nat \<Rightarrow> f64" where
  "f64_div_nat x d =
     (let p = f64_significand x; t = 54 + bit_len d - bit_len p; n = p * 2 ^ t; q = n div d
      in f64_sign (bit x 63) (f64_bits (2 * q + (if n mod d = 0 then 0 else 1)) (f64_exponent x - int t - 1)))"

text \<open>\<open>x as f32 as f64\<close>: 24 bits, the smallest unit \<open>2 ^ - 149\<close>, infinity from \<open>2 ^ 128\<close> on.\<close>

definition f64_via_f32 :: "f64 \<Rightarrow> f64" where
  "f64_via_f32 x =
     (if \<not> f64_is_finite x then x
      else let m = f64_significand x; e = f64_exponent x;
               u = max (int (bit_len m) + e - 24) (- 149);
               n = (if u \<le> e then m * 2 ^ nat (e - u) else round_shift m (nat (u - e)))
           in if n = 0 then f64_sign (bit x 63) 0
              else if int (bit_len n) + u > 128 then f64_sign (bit x 63) 0x7FF0000000000000
              else f64_sign (bit x 63) (f64_bits n u))"

text \<open>\<open>as i64\<close> and \<open>as u64\<close> saturate.\<close>

definition saturate :: "int \<Rightarrow> int \<Rightarrow> int \<Rightarrow> int" where
  "saturate lo hi x = max lo (min hi x)"

definition I64_MIN_F :: f64 where
  "I64_MIN_F = 0xC3E0000000000000"

definition I64_MAX_F :: f64 where
  "I64_MAX_F = 0x43E0000000000000"

definition U64_MAX_F :: f64 where
  "U64_MAX_F = 0x43F0000000000000"

lemma f64_bound_values:
  "I64_MIN_F = f64_of_int (- (2 ^ 63))" "I64_MAX_F = f64_of_int (2 ^ 63 - 1)" "U64_MAX_F = f64_of_int (2 ^ 64 - 1)"
  by (simp_all add: I64_MIN_F_def I64_MAX_F_def U64_MAX_F_def f64_of_int_def f64_sign_def f64_bits_def round_shift_def
      Let_def SIGN_def)

end
