(* ===== verification/Cell_Value.thy ===== *)
theory Cell_Value
  imports Data_Types Calendar Decimals Float64 "HOL-Library.List_Lexorder"
begin

text \<open>
  Scalar values, \<^verbatim>\<open>src/types/value.rs\<close>: literals, result cells, group keys. The variants carry machine
  words (\<open>i64\<close> read through \<open>sint\<close>), a string its UTF-8 bytes, a decimal its unit count and scale. What is
  modelled: the conversions to a lane and back to an integer or double, the casts to a column type, the
  ordering, the hash and the rendering. Shown: a cast yields only values that fit the column, lane order
  is value order on them, the ordering is antisymmetric, and where hash and equality part.
\<close>

section \<open>Definitions\<close>

datatype cell =
    VNull
  | VBool bool
  | VUInt u64
  | VInt i64
  | VFloat f64
  | VStr bytes
  | VDate u32
  | VDateTime i64
  | VDecimal i64 nat

definition of_bool_int :: "bool \<Rightarrow> int" where
  "of_bool_int b = (if b then 1 else 0)"

definition decimal_value :: "int \<Rightarrow> nat \<Rightarrow> cell result" where
  "decimal_value units scale = rbind (rescale_checked units scale scale) (\<lambda>u. Inr (VDecimal (of_int u) scale))"

definition literal_value :: "bytes \<Rightarrow> cell option" where
  "literal_value b = map_option (\<lambda>(u, s). VDecimal (of_int u) s) (decimal_literal b)"

definition decimal_parts :: "cell \<Rightarrow> (i64 \<times> nat) option" where
  "decimal_parts v = (case v of VDecimal u s \<Rightarrow> Some (u, s) | _ \<Rightarrow> None)"

definition is_null :: "cell \<Rightarrow> bool" where
  "is_null v = (case v of VNull \<Rightarrow> True | _ \<Rightarrow> False)"

definition data_type_of :: "cell \<Rightarrow> data_type" where
  "data_type_of v = (case v of
     VNull \<Rightarrow> Nullable Int64
   | VBool _ \<Rightarrow> Bool
   | VUInt _ \<Rightarrow> UInt64
   | VInt _ \<Rightarrow> Int64
   | VFloat _ \<Rightarrow> Float64
   | VStr _ \<Rightarrow> String
   | VDate _ \<Rightarrow> Date
   | VDateTime _ \<Rightarrow> DateTime
   | VDecimal _ s \<Rightarrow> Decimal64 s)"

definition value_physical :: "cell \<Rightarrow> physical_type option" where
  "value_physical v = (case v of
     VNull \<Rightarrow> None
   | VBool _ \<Rightarrow> Some U64 | VUInt _ \<Rightarrow> Some U64 | VDate _ \<Rightarrow> Some U64
   | VInt _ \<Rightarrow> Some I64 | VDateTime _ \<Rightarrow> Some I64 | VDecimal _ _ \<Rightarrow> Some I64
   | VFloat _ \<Rightarrow> Some F64
   | VStr _ \<Rightarrow> Some Str)"

definition as_i64 :: "cell \<Rightarrow> i64 option" where
  "as_i64 v = (case v of
     VBool b \<Rightarrow> Some (if b then 1 else 0)
   | VUInt u \<Rightarrow> if uint u > 2 ^ 63 - 1 then None else Some u
   | VInt i \<Rightarrow> Some i
   | VDecimal i _ \<Rightarrow> Some i
   | VFloat f \<Rightarrow>
       if f64_is_finite f \<and> \<not> f64_lt f I64_MIN_F \<and> \<not> f64_lt I64_MAX_F f
       then Some (of_int (saturate (- (2 ^ 63)) (2 ^ 63 - 1) (f64_trunc f))) else None
   | VDate d \<Rightarrow> Some (ucast d)
   | VDateTime t \<Rightarrow> Some t
   | _ \<Rightarrow> None)"

definition as_u64 :: "cell \<Rightarrow> u64 option" where
  "as_u64 v = (case v of
     VBool b \<Rightarrow> Some (if b then 1 else 0)
   | VUInt u \<Rightarrow> Some u
   | VInt i \<Rightarrow> if sint i < 0 then None else Some i
   | VDecimal i _ \<Rightarrow> if sint i < 0 then None else Some i
   | VDate d \<Rightarrow> Some (ucast d)
   | VDateTime t \<Rightarrow> if sint t < 0 then None else Some t
   | VFloat f \<Rightarrow>
       if f64_is_finite f \<and> \<not> f64_lt f 0 \<and> \<not> f64_lt U64_MAX_F f
       then Some (of_int (saturate 0 (2 ^ 64 - 1) (f64_trunc f))) else None
   | _ \<Rightarrow> None)"

definition as_f64 :: "cell \<Rightarrow> f64 option" where
  "as_f64 v = (case v of
     VBool b \<Rightarrow> Some (f64_of_int (of_bool_int b))
   | VUInt u \<Rightarrow> Some (f64_of_int (uint u))
   | VInt i \<Rightarrow> Some (f64_of_int (sint i))
   | VFloat f \<Rightarrow> Some f
   | VDate d \<Rightarrow> Some (f64_of_int (uint d))
   | VDateTime t \<Rightarrow> Some (f64_of_int (sint t))
   | VDecimal u s \<Rightarrow> Some (f64_div_nat (f64_of_int (sint u)) (10 ^ s))
   | _ \<Rightarrow> None)"

definition as_str :: "cell \<Rightarrow> bytes option" where
  "as_str v = (case v of VStr s \<Rightarrow> Some s | _ \<Rightarrow> None)"

definition truthy :: "cell \<Rightarrow> bool" where
  "truthy v = (case v of
     VNull \<Rightarrow> False
   | VBool b \<Rightarrow> b
   | VUInt u \<Rightarrow> u \<noteq> 0
   | VInt i \<Rightarrow> i \<noteq> 0
   | VFloat f \<Rightarrow> \<not> f64_eq f 0
   | VStr s \<Rightarrow> s \<noteq> []
   | VDate d \<Rightarrow> d \<noteq> 0
   | VDateTime t \<Rightarrow> t \<noteq> 0
   | VDecimal u _ \<Rightarrow> u \<noteq> 0)"

definition zero_value :: "data_type \<Rightarrow> cell" where
  "zero_value t = (case physical (base t) of
     Str \<Rightarrow> VStr []
   | F64 \<Rightarrow> VFloat 0
   | I64 \<Rightarrow> (case base t of Decimal64 s \<Rightarrow> VDecimal 0 s | _ \<Rightarrow> VInt 0)
   | U64 \<Rightarrow> (case base t of
        Bool \<Rightarrow> VBool False
      | Date \<Rightarrow> VDate 0
      | DateTime \<Rightarrow> VDateTime 0
      | _ \<Rightarrow> VUInt 0))"

section \<open>Rendering\<close>

text \<open>An integral double below \<open>10 ^ 15\<close> prints with \<open>{:.0}\<close>: its digits, and the sign of a negative zero.\<close>

definition fmt_float :: "float_text \<Rightarrow> f64 \<Rightarrow> bytes" where
  "fmt_float ft f =
     (if f64_is_nan f then ascii ''nan''
      else if \<not> f64_is_finite f then (if f64_lt 0 f then ascii ''inf'' else ascii ''-inf'')
      else if f64_is_integral f \<and> \<bar>f64_trunc f\<bar> < 10 ^ 15
      then (if bit f 63 then [45] else []) @ show_nat (nat \<bar>f64_trunc f\<bar>)
      else disp_f64 ft f)"

definition render_plain :: "float_text \<Rightarrow> cell \<Rightarrow> bytes" where
  "render_plain ft v = (case v of
     VNull \<Rightarrow> []
   | VBool b \<Rightarrow> ascii (if b then ''true'' else ''false'')
   | VUInt u \<Rightarrow> show_nat (unat u)
   | VInt i \<Rightarrow> show_int (sint i)
   | VFloat f \<Rightarrow> fmt_float ft f
   | VStr s \<Rightarrow> s
   | VDate d \<Rightarrow> fmt_date (unat d)
   | VDateTime t \<Rightarrow> fmt_datetime (sint t)
   | VDecimal u s \<Rightarrow> fmt_decimal (sint u) s)"

text \<open>\<open>Display\<close>: strings quoted, quotes doubled.\<close>

definition show_value :: "float_text \<Rightarrow> cell \<Rightarrow> bytes" where
  "show_value ft v = (case v of
     VNull \<Rightarrow> ascii ''NULL''
   | VStr s \<Rightarrow> 39 # concat (map (\<lambda>b. if b = 39 then [39, 39] else [b]) s) @ [39]
   | other \<Rightarrow> render_plain ft other)"

definition variant :: "cell \<Rightarrow> string" where
  "variant v = (case v of
     VNull \<Rightarrow> ''Null''
   | VBool _ \<Rightarrow> ''Bool''
   | VUInt _ \<Rightarrow> ''UInt''
   | VInt _ \<Rightarrow> ''Int''
   | VFloat _ \<Rightarrow> ''Float''
   | VStr _ \<Rightarrow> ''Str''
   | VDate _ \<Rightarrow> ''Date''
   | VDateTime _ \<Rightarrow> ''DateTime''
   | VDecimal _ _ \<Rightarrow> ''Decimal'')"

definition same_variant :: "cell \<Rightarrow> cell \<Rightarrow> bool" where
  "same_variant a b \<longleftrightarrow> variant a = variant b"

section \<open>Casts and lanes\<close>

text \<open>The integer reading shared by the decimal and integer targets: \<open>as_i64\<close>, or else \<open>as_u64\<close>.\<close>

definition as_integer :: "cell \<Rightarrow> int option" where
  "as_integer v = (case as_i64 v of Some i \<Rightarrow> Some (sint i) | None \<Rightarrow> map_option uint (as_u64 v))"

definition to_decimal_units :: "float_text \<Rightarrow> cell \<Rightarrow> nat \<Rightarrow> i64 result" where
  "to_decimal_units ft v scale = (case v of
     VDecimal u s \<Rightarrow> rbind (rescale_checked (sint u) s scale) (\<lambda>u. Inr (of_int u))
   | VFloat f \<Rightarrow>
       if \<not> f64_is_finite f then Inl (Exec ''cannot store in Decimal64'')
       else (case parse_decimal_str (disp_f64 ft f) scale of
               Some u \<Rightarrow> Inr (of_int u) | None \<Rightarrow> Inl (Exec ''cannot store in Decimal64''))
   | VStr s \<Rightarrow>
       (case parse_decimal_str (trim s) scale of
          Some u \<Rightarrow> Inr (of_int u) | None \<Rightarrow> Inl (Exec ''cannot cast to Decimal64''))
   | VNull \<Rightarrow> Inl (Exec ''cannot store NULL in a Decimal64'')
   | other \<Rightarrow>
       (case as_integer other of
          None \<Rightarrow> Inl (Exec ''cannot cast to Decimal64'')
        | Some n \<Rightarrow> rbind (rescale_checked n 0 scale) (\<lambda>u. Inr (of_int u))))"

definition cast_float :: "float_text \<Rightarrow> cell \<Rightarrow> f64 result" where
  "cast_float ft v = (case v of
     VFloat f \<Rightarrow> Inr f
   | VStr s \<Rightarrow> (case read_f64 ft (trim s) of Some f \<Rightarrow> Inr f | None \<Rightarrow> Inl (Exec ''cannot cast''))
   | _ \<Rightarrow> (case as_f64 v of Some f \<Rightarrow> Inr f | None \<Rightarrow> Inl (Exec ''cannot cast'')))"

definition cast_integer :: "cell \<Rightarrow> int result" where
  "cast_integer v = (case v of
     VFloat f \<Rightarrow> if \<not> f64_is_finite f then Inl (Exec ''cannot cast'')
                 else Inr (saturate (- (2 ^ 127)) (2 ^ 127 - 1) (f64_trunc f))
   | VDecimal u s \<Rightarrow> Inr (trunc_div (sint u) (POW10 s))
   | VStr s \<Rightarrow> (case parse_int (- (2 ^ 127)) (2 ^ 127 - 1) (trim s) of
                  Some n \<Rightarrow> Inr n | None \<Rightarrow> Inl (Exec ''cannot cast''))
   | other \<Rightarrow> (case as_integer other of Some n \<Rightarrow> Inr n | None \<Rightarrow> Inl (Exec ''cannot cast'')))"

text \<open>The variant an in-range integer becomes in a column of base type \<open>t\<close>.\<close>

definition integer_value :: "data_type \<Rightarrow> int \<Rightarrow> cell" where
  "integer_value t n = (case t of
     Bool \<Rightarrow> VBool (n \<noteq> 0)
   | Date \<Rightarrow> VDate (of_int n)
   | DateTime \<Rightarrow> VDateTime (of_int n)
   | _ \<Rightarrow> if physical t = I64 then VInt (of_int n) else VUInt (of_int n))"

definition cast_to :: "float_text \<Rightarrow> cell \<Rightarrow> data_type \<Rightarrow> cell result" where
  "cast_to ft v ty =
     (if is_null v
      then if is_nullable ty then Inr VNull else Inl (Exec ''cannot store NULL in non-nullable'')
      else case decimal_scale ty of
        Some s \<Rightarrow> rbind (to_decimal_units ft v s) (\<lambda>u. Inr (VDecimal u s))
      | None \<Rightarrow> (case physical (base ty) of
          Str \<Rightarrow> Inr (VStr (render_plain ft v))
        | F64 \<Rightarrow> rbind (cast_float ft v) (\<lambda>f. Inr (VFloat (if base ty = Float32 then f64_via_f32 f else f)))
        | _ \<Rightarrow> rbind (cast_integer v) (\<lambda>n.
            case int_bounds (base ty) of
              Some (lo, hi) \<Rightarrow> if n < lo \<or> n > hi then Inl (Exec ''value out of range'')
                                else Inr (integer_value (base ty) n)
            | None \<Rightarrow> Inr (integer_value (base ty) n))))"

definition to_lane_phys :: "float_text \<Rightarrow> cell \<Rightarrow> physical_type \<Rightarrow> data_type \<Rightarrow> u64 result" where
  "to_lane_phys ft v phys ty = (case (decimal_parts v, decimal_scale ty, phys) of
     (_, Some s, _) \<Rightarrow> rbind (to_decimal_units ft v s) (\<lambda>u. Inr (i64_to_lane u))
   | (Some (u, s), None, U64) \<Rightarrow>
       let p = POW10 s; n = trunc_div (sint u) p
       in if n * p \<noteq> sint u then Inl (Exec ''is not a valid'')
          else if n < 0 then Inl (Exec ''is not a valid'') else Inr (of_int n)
   | (Some (u, s), None, I64) \<Rightarrow>
       let p = POW10 s; n = trunc_div (sint u) p
       in if n * p \<noteq> sint u then Inl (Exec ''is not a valid'') else Inr (i64_to_lane (of_int n))
   | (_, _, U64) \<Rightarrow> (case as_u64 v of Some u \<Rightarrow> Inr u | None \<Rightarrow> Inl (Exec ''is not a valid''))
   | (_, _, I64) \<Rightarrow> (case as_i64 v of Some i \<Rightarrow> Inr (i64_to_lane i) | None \<Rightarrow> Inl (Exec ''is not a valid''))
   | (_, _, F64) \<Rightarrow> (case as_f64 v of Some f \<Rightarrow> Inr (f64_to_lane f) | None \<Rightarrow> Inl (Exec ''is not a valid''))
   | (_, _, Str) \<Rightarrow> Inl (Exec ''string values are lane-encoded via a dictionary''))"

definition to_lane :: "float_text \<Rightarrow> cell \<Rightarrow> data_type \<Rightarrow> u64 result" where
  "to_lane ft v ty = to_lane_phys ft v (physical (base ty)) ty"

section \<open>Ordering and hash\<close>

definition rank :: "cell \<Rightarrow> nat" where
  "rank v = (case v of
     VNull \<Rightarrow> 0
   | VDate _ \<Rightarrow> 2
   | VDateTime _ \<Rightarrow> 3
   | VStr _ \<Rightarrow> 4
   | _ \<Rightarrow> 1)"

definition is_vfloat :: "cell \<Rightarrow> bool" where
  "is_vfloat v = (case v of VFloat _ \<Rightarrow> True | _ \<Rightarrow> False)"

text \<open>\<open>as_i64().filter(|_| !matches!(v, Float(_)))\<close>: the exactly comparable integers.\<close>

definition exact_i64 :: "cell \<Rightarrow> i64 option" where
  "exact_i64 v = (if is_vfloat v then None else as_i64 v)"

definition f64_NAN :: f64 where
  "f64_NAN = 0x7FF8000000000000"

definition float_or_nan :: "cell \<Rightarrow> f64" where
  "float_or_nan v = (case as_f64 v of Some f \<Rightarrow> f | None \<Rightarrow> f64_NAN)"

definition exact_parts :: "cell \<Rightarrow> (int \<times> nat) option" where
  "exact_parts v = (case decimal_parts v of
     Some (u, s) \<Rightarrow> Some (sint u, s)
   | None \<Rightarrow> map_option (\<lambda>i. (sint i, 0)) (exact_i64 v))"

definition cmp_decimal :: "cell \<Rightarrow> cell \<Rightarrow> ordering" where
  "cmp_decimal a b = (case exact_parts a of
     None \<Rightarrow> total_cmp_f64 (float_or_nan a) (float_or_nan b)
   | Some (au, asc) \<Rightarrow> (case exact_parts b of
       None \<Rightarrow> total_cmp_f64 (float_or_nan a) (float_or_nan b)
     | Some (bu, bsc) \<Rightarrow>
         let hi = max asc bsc in cmp (au * POW10 (hi - asc)) (bu * POW10 (hi - bsc))))"

definition is_vdecimal :: "cell \<Rightarrow> bool" where
  "is_vdecimal v = (case v of VDecimal _ _ \<Rightarrow> True | _ \<Rightarrow> False)"

text \<open>The arm shared by the numeric family, and the whole match.\<close>

definition cmp_numeric :: "cell \<Rightarrow> cell \<Rightarrow> ordering" where
  "cmp_numeric a b = (case (exact_i64 a, exact_i64 b) of
     (Some x, Some y) \<Rightarrow> cmp (sint x) (sint y)
   | _ \<Rightarrow> (case (as_f64 a, as_f64 b) of
       (Some x, Some y) \<Rightarrow> total_cmp_f64 x y
     | _ \<Rightarrow> cmp (rank a) (rank b)))"

definition cmp_value :: "cell \<Rightarrow> cell \<Rightarrow> ordering" where
  "cmp_value a b = (case (a, b) of
     (VNull, VNull) \<Rightarrow> Equal
   | (VStr x, VStr y) \<Rightarrow> cmp x y
   | _ \<Rightarrow>
     if (is_vdecimal a \<or> is_vdecimal b) \<and> 1 \<le> rank a \<and> rank a \<le> 3 \<and> 1 \<le> rank b \<and> rank b \<le> 3
     then cmp_decimal a b
     else if rank a = rank b \<or> (rank a \<le> 3 \<and> rank b \<le> 3)
     then if rank a = 0 \<or> rank b = 0 then cmp (rank a) (rank b) else cmp_numeric a b
     else cmp (rank a) (rank b))"

definition value_eq :: "cell \<Rightarrow> cell \<Rightarrow> bool" where
  "value_eq a b \<longleftrightarrow> cmp_value a b = Equal"

definition eq_exact :: "cell \<Rightarrow> cell \<Rightarrow> bool" where
  "eq_exact a b \<longleftrightarrow> same_variant a b \<and> value_eq a b"

text \<open>What \<open>Hash\<close> feeds the hasher.\<close>

datatype hash_input = HByte u8 | HI64 i64 | HU64 u64 | HStr bytes

definition hash_value :: "cell \<Rightarrow> hash_input list" where
  "hash_value v = (case v of
     VNull \<Rightarrow> [HByte 0]
   | VStr s \<Rightarrow> [HByte 1, HStr s]
   | VDecimal u s \<Rightarrow>
       if trunc_rem (sint u) (POW10 s) = 0
       then [HByte 2, HByte 0, HI64 (of_int (trunc_div (sint u) (POW10 s)))]
       else [HByte 2, HByte 1, HU64 (case as_f64 v of Some f \<Rightarrow> f | None \<Rightarrow> 0)]
   | _ \<Rightarrow>
       let f = (case as_f64 v of Some f \<Rightarrow> f | None \<Rightarrow> 0);
           integral = f64_is_integral f \<and> \<not> f64_lt f I64_MIN_F \<and> \<not> f64_lt I64_MAX_F f
       in case (if integral then as_i64 v else None) of
            Some i \<Rightarrow> [HByte 2, HByte 0, HI64 i]
          | None \<Rightarrow> [HByte 2, HByte 1, HU64 (if f64_eq f 0 then 0 else if f64_is_nan f then f64_NAN else f)])"

section \<open>Casts yield what fits\<close>

text \<open>The values a column of type \<open>ty\<close> holds: the variant of its base type, in its range.\<close>

definition in_bounds :: "data_type \<Rightarrow> int \<Rightarrow> bool" where
  "in_bounds t n = (case int_bounds t of Some (lo, hi) \<Rightarrow> lo \<le> n \<and> n \<le> hi | None \<Rightarrow> True)"

definition fits :: "data_type \<Rightarrow> cell \<Rightarrow> bool" where
  "fits ty v = (case v of
     VNull \<Rightarrow> is_nullable ty
   | VBool _ \<Rightarrow> base ty = Bool
   | VDate _ \<Rightarrow> base ty = Date
   | VDateTime _ \<Rightarrow> base ty = DateTime
   | VDecimal u s \<Rightarrow> base ty = Decimal64 s \<and> \<bar>sint u\<bar> \<le> DECIMAL_MAX_UNITS
   | VFloat _ \<Rightarrow> physical ty = F64
   | VStr _ \<Rightarrow> physical ty = Str
   | VInt i \<Rightarrow> physical ty = I64 \<and> is_integer ty \<and> in_bounds ty (sint i)
   | VUInt u \<Rightarrow> physical ty = U64 \<and> is_integer ty \<and> in_bounds ty (uint u))"

lemma sint_of_int_i64: "- (2 ^ 63) \<le> n \<Longrightarrow> n < 2 ^ 63 \<Longrightarrow> sint (of_int n :: i64) = n"
  by (simp add: sint_sbintrunc' signed_take_bit_int_eq_self)

lemma sint_units: "\<bar>u\<bar> \<le> DECIMAL_MAX_UNITS \<Longrightarrow> sint (of_int u :: i64) = u"
  by (rule sint_of_int_i64) (auto simp: DECIMAL_MAX_UNITS_def POW10_def)

lemma rescale_checked_bound: "rescale_checked u a b = Inr w \<Longrightarrow> \<bar>w\<bar> \<le> DECIMAL_MAX_UNITS"
  by (auto simp: rescale_checked_def split: option.splits if_splits)

lemma parse_decimal_str_bound: "parse_decimal_str s k = Some w \<Longrightarrow> \<bar>w\<bar> \<le> DECIMAL_MAX_UNITS"
  by (auto simp: parse_decimal_str_def Let_def DECIMAL_MAX_UNITS_def POW10_def split: option.splits if_splits)

lemma to_decimal_units_bound:
  "to_decimal_units ft v s = Inr u \<Longrightarrow> \<bar>sint u\<bar> \<le> DECIMAL_MAX_UNITS"
  by (auto simp: to_decimal_units_def sint_units split: cell.splits if_splits option.splits
      dest: rescale_checked_bound parse_decimal_str_bound)

lemma base_idem_cases: "base t \<noteq> Nullable i" "base t \<noteq> LowCardinality i"
  by (induction t) auto

lemma integer_value_fits:
  assumes "physical ty \<in> {U64, I64}" "decimal_scale ty = None" "int_bounds (base ty) = Some (lo, hi)" "lo \<le> n" "n \<le> hi"
  shows "fits ty (integer_value (base ty) n)"
proof -
  have "physical (base ty) = physical ty" "int_bounds ty = int_bounds (base ty)" by (simp_all add: int_bounds_def)
  then show ?thesis
    using assms base_idem_cases [of ty]
    by (cases "base ty")
      (auto simp: fits_def integer_value_def in_bounds_def is_integer_def decimal_scale_def int_bounds_def
        sint_of_int_i64 unsigned_of_int take_bit_int_eq_self)
qed

lemma int_bounds_Some:
  "physical ty \<in> {U64, I64} \<Longrightarrow> decimal_scale ty = None \<Longrightarrow> \<exists>lo hi. int_bounds (base ty) = Some (lo, hi)"
  using physical_base [of ty] base_idem_cases [of ty]
  by (cases "base ty") (auto simp: decimal_scale_def int_bounds_def simp del: physical_base)

lemma cast_to_fits: "cast_to ft v ty = Inr w \<Longrightarrow> fits ty w"
proof -
  assume c: "cast_to ft v ty = Inr w"
  show "fits ty w"
  proof (cases "is_null v")
    case True
    with c show ?thesis by (auto simp: cast_to_def fits_def split: if_splits)
  next
    case nn: False
    show ?thesis
    proof (cases "decimal_scale ty")
      case (Some s)
      with c nn show ?thesis
        by (auto simp: cast_to_def fits_def decimal_scale_Some dest: to_decimal_units_bound)
    next
      case None
      consider (flt) "physical ty = F64" | (str) "physical ty = Str" | (int) "physical ty \<in> {U64, I64}"
        by (cases "physical ty") auto
      then show ?thesis
      proof cases
        case flt
        with c nn None show ?thesis by (auto simp: cast_to_def fits_def)
      next
        case str
        with c nn None show ?thesis by (auto simp: cast_to_def fits_def)
      next
        case int
        obtain lo hi where b: "int_bounds (base ty) = Some (lo, hi)" using int_bounds_Some [OF int None] by blast
        obtain n where "w = integer_value (base ty) n" "lo \<le> n" "n \<le> hi"
          using c nn None int b by (auto simp: cast_to_def split: if_splits)
        then show ?thesis using integer_value_fits [OF int None b] by simp
      qed
    qed
  qed
qed

section \<open>Lane order is value order\<close>

lemma rescale_same: "\<bar>u\<bar> \<le> DECIMAL_MAX_UNITS \<Longrightarrow> rescale_checked u s s = Inr u"
  by (simp add: rescale_checked_def decimal_rescale_def)

lemma cmp_sint_lane: "cmp (i64_to_lane a) (i64_to_lane b) = cmp (sint a) (sint b)"
  using i64_lane_le [of a b] i64_lane_le [of b a]
  by (auto simp: cmp_def word_sle_eq less_le)

lemma cmp_uint: "cmp (a :: u64) b = cmp (uint a) (uint b)"
  by (simp add: cmp_def word_less_def word_uint_eq_iff)

lemma sint_nonneg: "uint (w :: u64) \<le> 2 ^ 63 - 1 \<Longrightarrow> sint w = uint w"
  using sint_u64 [of w] uint_f64 [of w] by (auto split: if_splits)

lemma uint_of_sint: "0 \<le> sint (w :: i64) \<Longrightarrow> uint w = sint w"
  using sint_u64 [of w] uint_lt2p [of w] by (auto split: if_splits)

text \<open>
  The values with an exact place in the lane order: no NULL, unsigned integers in the range of \<open>i64\<close>,
  timestamps from the epoch on.
\<close>

definition lane_comparable :: "cell \<Rightarrow> bool" where
  "lane_comparable v = (case v of
     VNull \<Rightarrow> False
   | VUInt u \<Rightarrow> uint u \<le> 2 ^ 63 - 1
   | VDateTime t \<Rightarrow> 0 \<le> sint t
   | _ \<Rightarrow> True)"

lemma cmp_bool: "cmp (sint (if a then 1 else 0 :: i64)) (sint (if b then 1 else 0 :: i64)) =
    cmp (if a then 1 else 0 :: u64) (if b then 1 else 0)"
  by (simp add: cmp_def)

lemma sint_date: "sint (ucast (d :: u32) :: i64) = uint d"
proof -
  have lt: "uint d < 2 ^ 32" using uint_lt2p [of d] by simp
  then have "take_bit 64 (uint d) = uint d" by (intro take_bit_int_eq_self) simp_all
  then have "uint (ucast d :: i64) = uint d" by (simp add: unsigned_ucast_eq)
  with lt show ?thesis using sint_nonneg [of "ucast d"] by simp
qed

text \<open>The lane of a value that fits its column, by variant.\<close>

lemma to_lane_fits:
  assumes "fits ty v" "lane_comparable v" "physical ty \<noteq> Str"
  shows "to_lane ft v ty = Inr (case v of
     VBool b \<Rightarrow> (if b then 1 else 0)
   | VUInt u \<Rightarrow> u
   | VInt i \<Rightarrow> i64_to_lane i
   | VFloat f \<Rightarrow> f64_to_lane f
   | VDate d \<Rightarrow> ucast d
   | VDateTime t \<Rightarrow> t
   | VDecimal u _ \<Rightarrow> i64_to_lane u
   | _ \<Rightarrow> 0)"
proof -
  have ph: "physical (base ty) = physical ty" by simp
  have nd: "decimal_scale ty = None" if "\<And>s. base ty \<noteq> Decimal64 s"
    using that by (simp add: decimal_scale_def split: data_type.split)
  have int: "decimal_scale ty = None" if "is_integer ty"
    using that by (auto simp: decimal_scale_def is_integer_def split: data_type.splits)
  have fl: "decimal_scale ty = None" if "physical ty = F64"
    using that ph by (auto simp: decimal_scale_def simp del: physical_base split: data_type.splits)
  show ?thesis
  proof (cases v)
    case (VDecimal u s)
    with assms(1) have "decimal_scale ty = Some s" "\<bar>sint u\<bar> \<le> DECIMAL_MAX_UNITS"
      by (simp_all add: fits_def decimal_scale_Some)
    then show ?thesis
      by (simp add: VDecimal to_lane_def to_lane_phys_def decimal_parts_def to_decimal_units_def rescale_same)
  next
    case (VBool b)
    with assms(1) have "base ty = Bool" by (simp add: fits_def)
    with nd show ?thesis using ph by (auto simp: VBool to_lane_def to_lane_phys_def decimal_parts_def as_u64_def)
  next
    case (VDate d)
    with assms(1) have "base ty = Date" by (simp add: fits_def)
    with nd show ?thesis using ph by (auto simp: VDate to_lane_def to_lane_phys_def decimal_parts_def as_u64_def)
  next
    case (VDateTime t)
    with assms(1) have "base ty = DateTime" by (simp add: fits_def)
    with nd show ?thesis using ph assms(2)
      by (auto simp: VDateTime to_lane_def to_lane_phys_def decimal_parts_def as_u64_def lane_comparable_def)
  qed (use assms int fl in \<open>auto simp: fits_def lane_comparable_def to_lane_def to_lane_phys_def decimal_parts_def
        as_u64_def as_i64_def as_f64_def\<close>)
qed

lemma lane_cmp_value:
  assumes "fits ty v" "fits ty w" "lane_comparable v" "lane_comparable w" "physical ty \<noteq> Str"
  shows "\<exists>a b. to_lane ft v ty = Inr a \<and> to_lane ft w ty = Inr b \<and> cmp a b = cmp_value v w"
proof -
  note lv = to_lane_fits [OF assms(1,3,5), of ft] and lw = to_lane_fits [OF assms(2,4,5), of ft]
  note defs = cmp_value_def cmp_numeric_def exact_i64_def is_vfloat_def as_i64_def as_f64_def rank_def is_vdecimal_def
  note ph' = physical_base [of ty, symmetric]
  show ?thesis
  proof (cases v)
    case v: (VDecimal u s)
    with assms obtain x where w: "w = VDecimal x s"
      by (cases w) (auto simp: fits_def lane_comparable_def is_integer_def ph' simp del: physical_base)
    show ?thesis using lv lw cmp_sint_lane [of u x]
      by (simp add: v w cmp_value_def is_vdecimal_def rank_def cmp_decimal_def exact_parts_def decimal_parts_def)
  next
    case v: (VBool b)
    with assms obtain x where w: "w = VBool x"
      by (cases w) (auto simp: fits_def lane_comparable_def is_integer_def ph' simp del: physical_base)
    show ?thesis using lv lw cmp_bool [of b x] by (simp add: v w defs)
  next
    case v: (VDate d)
    with assms obtain x where w: "w = VDate x"
      by (cases w) (auto simp: fits_def lane_comparable_def is_integer_def ph' simp del: physical_base)
    have "uint (ucast y :: u64) = uint y" for y :: u32 using sint_date [of y] uint_of_sint [of "ucast y"] by simp
    then have "cmp (ucast d :: u64) (ucast x) = cmp (uint d) (uint x)" by (simp add: cmp_uint)
    then show ?thesis using lv lw by (simp add: v w defs sint_date)
  next
    case v: (VDateTime t)
    with assms obtain x where w: "w = VDateTime x"
      by (cases w) (auto simp: fits_def lane_comparable_def is_integer_def ph' simp del: physical_base)
    have "cmp t x = cmp (sint t) (sint x)"
      using assms(3,4) uint_of_sint [of t] uint_of_sint [of x] by (simp add: v w lane_comparable_def cmp_uint)
    then show ?thesis using lv lw by (simp add: v w defs)
  next
    case v: (VUInt a)
    with assms obtain x where w: "w = VUInt x"
      by (cases w) (auto simp: fits_def lane_comparable_def is_integer_def ph' simp del: physical_base)
    have b: "uint a \<le> 2 ^ 63 - 1" "uint x \<le> 2 ^ 63 - 1" using assms(3,4) by (simp_all add: v w lane_comparable_def)
    have "cmp a x = cmp (sint a) (sint x)" using sint_nonneg [OF b(1)] sint_nonneg [OF b(2)] by (simp add: cmp_uint)
    then show ?thesis using lv lw b by (simp add: v w defs)
  next
    case v: (VInt a)
    with assms obtain x where w: "w = VInt x"
      by (cases w) (auto simp: fits_def lane_comparable_def is_integer_def ph' simp del: physical_base)
    show ?thesis using lv lw cmp_sint_lane [of a x] by (simp add: v w defs)
  next
    case v: (VFloat a)
    with assms obtain x where w: "w = VFloat x"
      by (cases w) (auto simp: fits_def lane_comparable_def is_integer_def ph' simp del: physical_base)
    show ?thesis using lv lw f64_lane_cmp [of a x] by (simp add: v w defs)
  next
    case (VStr s)
    then show ?thesis using assms(1,5) by (simp add: fits_def)
  next
    case VNull
    then show ?thesis using assms(3) by (simp add: lane_comparable_def)
  qed
qed

section \<open>The ordering\<close>

fun flip :: "ordering \<Rightarrow> ordering" where
  "flip Less = Greater" | "flip Equal = Equal" | "flip Greater = Less"

lemma flip_cmp [simp]: "flip (cmp a b) = cmp b a"
  by (auto simp: cmp_def)

lemma flip_total_cmp_f64 [simp]: "flip (total_cmp_f64 a b) = total_cmp_f64 b a"
  by (simp flip: f64_lane_cmp)

lemma flip_cmp_decimal [simp]: "flip (cmp_decimal a b) = cmp_decimal b a"
  unfolding cmp_decimal_def
  by (cases "exact_parts a"; cases "exact_parts b") (auto simp: Let_def max.commute)

lemma flip_cmp_numeric [simp]: "flip (cmp_numeric a b) = cmp_numeric b a"
  unfolding cmp_numeric_def
  by (cases "exact_i64 a"; cases "exact_i64 b"; cases "as_f64 a"; cases "as_f64 b") simp_all

lemma flip_cmp_value: "flip (cmp_value a b) = cmp_value b a"
proof -
  let ?d = "\<lambda>a b. if (is_vdecimal a \<or> is_vdecimal b) \<and> 1 \<le> rank a \<and> rank a \<le> 3 \<and> 1 \<le> rank b \<and> rank b \<le> 3
     then cmp_decimal a b
     else if rank a = rank b \<or> (rank a \<le> 3 \<and> rank b \<le> 3)
     then if rank a = 0 \<or> rank b = 0 then cmp (rank a) (rank b) else cmp_numeric a b
     else cmp (rank a) (rank b)"
  have d: "flip (?d a b) = ?d b a" by (auto simp: disj_commute)
  have c: "cmp_value a b = (if a = VNull \<and> b = VNull then Equal
      else case (as_str a, as_str b) of (Some x, Some y) \<Rightarrow> cmp x y | _ \<Rightarrow> ?d a b)" for a b
    unfolding cmp_value_def as_str_def by (cases a; cases b) simp_all
  show ?thesis
    unfolding c [of a b] c [of b a] using d by (cases "as_str a"; cases "as_str b") auto
qed

text \<open>A comparison that only looks at ranks puts NULL first and strings last.\<close>

lemma cmp_value_null: "cmp_value VNull v = (if v = VNull then Equal else Less)"
  by (cases v) (simp_all add: cmp_value_def rank_def is_vdecimal_def cmp_def)

section \<open>Integers as doubles\<close>

lemma round_shift_bounds:
  assumes "0 < k"
  shows "n div 2 ^ k \<le> round_shift n k" "round_shift n k \<le> n div 2 ^ k + 1"
  using assms by (auto simp: round_shift_def Let_def)

text \<open>The significand before encoding, between \<open>2 ^ 52\<close> and \<open>2 ^ 53\<close>.\<close>

definition norm53 :: "nat \<Rightarrow> nat" where
  "norm53 n = (let l = bit_len n in if l \<le> 53 then n * 2 ^ (53 - l) else round_shift n (l - 53))"

lemma bit_len_lower: "0 < n \<Longrightarrow> 2 ^ (bit_len n - 1) \<le> n"
proof (induction n rule: bit_len.induct)
  case (1 n)
  show ?case
  proof (cases "n = 1")
    case False
    with 1(2) have n2: "0 < n div 2" by simp
    then have "2 ^ (bit_len (n div 2) - 1) \<le> n div 2" using 1(1) 1(2) by simp
    moreover have "0 < bit_len (n div 2)" using n2 by (metis bit_len_eq_0 neq0_conv)
    ultimately have "2 ^ (bit_len (n div 2) - 1) \<le> n div 2" "0 < bit_len (n div 2)" by auto
    then have "2 * 2 ^ (bit_len (n div 2) - 1) \<le> n" by linarith
    then show ?thesis using 1(2) \<open>0 < bit_len (n div 2)\<close> by (cases "bit_len (n div 2)") simp_all
  qed simp
qed

lemma norm53_bounds:
  assumes "0 < n"
  shows "2 ^ 52 \<le> norm53 n" "norm53 n \<le> 2 ^ 53"
proof -
  let ?l = "bit_len n"
  have l: "2 ^ (?l - 1) \<le> n" "n < 2 ^ ?l" "0 < ?l"
    using bit_len_lower [OF assms] less_two_power_bit_len [of n] assms by (auto intro!: Nat.gr0I)
  have "2 ^ 52 \<le> norm53 n \<and> norm53 n \<le> 2 ^ 53"
  proof (cases "?l \<le> 53")
    case True
    have "2 ^ (?l - 1) * 2 ^ (53 - ?l) \<le> n * 2 ^ (53 - ?l)" "n * 2 ^ (53 - ?l) \<le> 2 ^ ?l * 2 ^ (53 - ?l)"
      using l by (intro mult_le_mono1; simp)+
    moreover have "(2 :: nat) ^ (?l - 1) * 2 ^ (53 - ?l) = 2 ^ 52" "(2 :: nat) ^ ?l * 2 ^ (53 - ?l) = 2 ^ 53"
      using True l(3) by (simp_all flip: power_add)
    ultimately show ?thesis using True by (simp only: norm53_def Let_def if_True)
  next
    case False
    then have k: "0 < ?l - 53" by simp
    have "?l - 1 = 52 + (?l - 53)" "?l = 53 + (?l - 53)" using False by simp_all
    then have "(2 :: nat) ^ (?l - 1) = 2 ^ 52 * 2 ^ (?l - 53)" "(2 :: nat) ^ ?l = 2 ^ 53 * 2 ^ (?l - 53)"
      by (metis power_add)+
    then have "2 ^ 52 \<le> n div 2 ^ (?l - 53)" "n div 2 ^ (?l - 53) < 2 ^ 53"
      using l(1,2) by (simp_all add: less_eq_div_iff_mult_less_eq less_mult_imp_div_less del: bit_len_pos)
    then show ?thesis using round_shift_bounds [OF k, of n] False by (simp add: norm53_def)
  qed
  then show "2 ^ 52 \<le> norm53 n" "norm53 n \<le> 2 ^ 53" by auto
qed

lemma f64_bits_norm: "0 < n \<Longrightarrow> f64_bits n 0 = (bit_len n + 1022) * 2 ^ 52 + (norm53 n - 2 ^ 52)"
proof -
  assume "0 < n"
  then have "0 < bit_len n" by (auto intro!: Nat.gr0I)
  then have "nat (0 + int (bit_len n) - 1 + 1023) = bit_len n + 1022" by simp
  with \<open>0 < n\<close> show ?thesis by (simp add: f64_bits_def norm53_def Let_def)
qed

text \<open>An \<open>i64\<close> converted to a double is integral and between the bounds the hash tests.\<close>

lemma f64_bits_i64:
  assumes "n \<le> 2 ^ 63"
  shows "f64_bits n 0 \<le> 0x43E0000000000000"
proof (cases "n = 0")
  case False
  have "n < 2 ^ 64" using assms by simp
  then have l: "bit_len n \<le> 64" by (rule bit_len_le)
  show ?thesis
  proof (cases "bit_len n = 64")
    case True
    then have "2 ^ 63 \<le> n" using bit_len_lower [of n] False by simp
    then have "n = 2 ^ 63" using assms by simp
    then show ?thesis by (simp add: f64_bits_def round_shift_def)
  next
    case ne: False
    then have "(bit_len n + 1023) * 2 ^ 52 \<le> 1086 * (2 ^ 52 :: nat)" using l by (intro mult_le_mono1) simp
    then show ?thesis
      using norm53_bounds [of n] False ne f64_bits_norm [of n] by (simp add: algebra_simps)
  qed
qed (simp add: f64_bits_def)

lemma f64_sign_mag:
  assumes "b < 2 ^ 63"
  shows "f64_mag (f64_sign neg b) = b" "bit (f64_sign neg b) 63 \<longleftrightarrow> neg"
proof -
  have u: "unat (of_nat b :: f64) = b" using assms by (intro unat_of_nat_u64) simp
  have nb: "\<not> bit (of_nat b :: f64) 63"
    using bit_width [of "of_nat b" 63 63] u assms by auto
  have "f64_sign neg b AND NOT SIGN = of_nat b"
    by (rule bit_word_eqI) (use nb in \<open>auto simp: f64_sign_def bit_simps less_Suc_eq\<close>)
  then show "f64_mag (f64_sign neg b) = b" by (simp add: f64_mag_def u)
  show "bit (f64_sign neg b) 63 \<longleftrightarrow> neg" using nb by (simp add: f64_sign_def bit_or_iff)
qed

lemma f64_bits_integral:
  assumes "0 < n" "f64_mag x = f64_bits n 0"
  shows "f64_exponent x \<ge> 0 \<or> f64_significand x mod 2 ^ nat (- f64_exponent x) = 0"
proof -
  let ?l = "bit_len n"
  have mag: "f64_mag x = (?l + 1022) * 2 ^ 52 + (norm53 n - 2 ^ 52)" using assms by (simp add: f64_bits_norm)
  have nb: "2 ^ 52 \<le> norm53 n" "norm53 n \<le> 2 ^ 53" by (rule norm53_bounds [OF assms(1)])+
  have g: "(a * m + r) div m = a \<and> (a * m + r) mod m = r" if "r < m" for a m r :: nat using that by simp
  show ?thesis
  proof (cases "?l \<le> 53 \<and> norm53 n < 2 ^ 53")
    case True
    then have "norm53 n - 2 ^ 52 < 2 ^ 52" using nb by (simp add: less_diff_conv2)
    then have d: "f64_mag x div 2 ^ 52 = ?l + 1022" "f64_mag x mod 2 ^ 52 = norm53 n - 2 ^ 52"
      using g [of "norm53 n - 2 ^ 52" "2 ^ 52" "?l + 1022"] by (simp_all only: mag)
    have "\<not> f64_mag x < 2 ^ 52" using mag by simp
    then have sig: "f64_significand x = norm53 n" using d nb by (simp add: f64_significand_def)
    have e: "f64_exponent x = int ?l - 53" using d by (simp add: f64_exponent_def)
    have "norm53 n = n * 2 ^ (53 - ?l)" using True by (simp add: norm53_def)
    moreover have "nat (- f64_exponent x) = 53 - ?l" using e True by simp
    ultimately show ?thesis using sig by simp
  next
    case False
    have "?l + 1023 \<le> f64_mag x div 2 ^ 52 \<or> 54 \<le> ?l"
    proof (cases "54 \<le> ?l")
      case c: False
      with False nb have "norm53 n = 2 ^ 53" by simp
      then show ?thesis using mag by simp
    qed simp
    moreover have "?l + 1022 \<le> f64_mag x div 2 ^ 52" using mag by simp
    moreover have "?l + 1023 \<le> f64_mag x div 2 ^ 52 \<Longrightarrow> ?l \<le> 53 \<Longrightarrow> ?l = 53"
    proof -
      assume h: "?l + 1023 \<le> f64_mag x div 2 ^ 52" "?l \<le> 53"
      have "norm53 n = 2 ^ 53" using h False nb by auto
      moreover have "norm53 n = n * 2 ^ (53 - ?l)" using h by (simp add: norm53_def)
      moreover have "n * 2 ^ (53 - ?l) < 2 ^ ?l * 2 ^ (53 - ?l)" using less_two_power_bit_len [of n] by simp
      moreover have "(2 :: nat) ^ ?l * 2 ^ (53 - ?l) = 2 ^ 53" using h by (simp flip: power_add)
      ultimately show "?l = 53" by simp
    qed
    ultimately have "1075 \<le> f64_mag x div 2 ^ 52" by linarith
    then show ?thesis by (simp add: f64_exponent_def)
  qed
qed

lemma f64_of_i64:
  assumes "- (2 ^ 63) \<le> i" "i < 2 ^ 63"
  defines "f \<equiv> f64_of_int i"
  shows "f64_is_integral f" "\<not> f64_lt f I64_MIN_F" "\<not> f64_lt I64_MAX_F f"
proof -
  let ?b = "f64_bits (nat \<bar>i\<bar>) 0"
  have b: "?b \<le> 0x43E0000000000000" using assms(1,2) by (intro f64_bits_i64) auto
  have mag: "f64_mag f = ?b" and neg: "bit f 63 \<longleftrightarrow> i < 0"
    unfolding f_def f64_of_int_def using b by (subst f64_sign_mag; simp)+
  have fin: "f64_is_finite f" using mag b by (simp add: f64_is_finite_def)
  moreover have "f64_exponent f \<ge> 0 \<or> f64_significand f mod 2 ^ nat (- f64_exponent f) = 0"
  proof (cases "i = 0")
    case True
    then have "f64_mag f = 0" using mag by (simp add: f64_bits_def)
    then show ?thesis by (simp add: f64_significand_def)
  next
    case False
    then show ?thesis using f64_bits_integral [of "nat \<bar>i\<bar>" f] mag by simp
  qed
  ultimately show "f64_is_integral f" by (simp add: f64_is_integral_def)
  have k: "f64_key I64_MIN_F = - 0x43E0000000000000" "f64_key I64_MAX_F = 0x43E0000000000000"
    by (simp_all add: f64_key_def I64_MIN_F_def I64_MAX_F_def f64_mag_def SIGN_def)
  show "\<not> f64_lt f I64_MIN_F" "\<not> f64_lt I64_MAX_F f"
    using b mag by (auto simp: f64_lt_def k f64_key_def [of f])
qed

lemma hash_exact:
  assumes "exact_i64 v = Some i" "\<not> is_vdecimal v"
  shows "hash_value v = [HByte 2, HByte 0, HI64 i]"
proof -
  have f: "as_f64 v = Some (f64_of_int (sint i))" "as_i64 v = Some i"
    using assms
    by (auto simp: exact_i64_def is_vfloat_def is_vdecimal_def as_i64_def as_f64_def of_bool_int_def sint_date sint_nonneg
        split: cell.splits if_splits)
  have "- (2 ^ 63) \<le> sint i" "sint i < 2 ^ 63" using sint_lt [of i] sint_ge [of i] by simp_all
  note r = f64_of_i64 [OF this]
  show ?thesis
    using assms f r by (cases v) (simp_all add: hash_value_def exact_i64_def is_vfloat_def is_vdecimal_def as_i64_def Let_def)
qed

lemma value_eq_exact:
  assumes "exact_i64 v = Some i" "exact_i64 w = Some j" "\<not> is_vdecimal v" "\<not> is_vdecimal w"
  shows "value_eq v w \<longleftrightarrow> i = j"
proof -
  have "cmp_value v w = cmp (sint i) (sint j)"
    using assms
    by (cases v; cases w)
      (simp_all add: cmp_value_def cmp_numeric_def rank_def is_vdecimal_def exact_i64_def is_vfloat_def as_i64_def)
  then show ?thesis by (auto simp: value_eq_def cmp_def split: if_splits dest: signed_word_eqI)
qed

section \<open>Properties\<close>





text \<open>The ordering of values is antisymmetric (swapping the operands swaps the answer) and reflexive, NULL comes
  first; but it is not exact on unsigned integers past the signed range: two different ones compare equal.\<close>

theorem value_order_laws:
  "cmp_value b a = flip (cmp_value a b) \<and> cmp_value a a = Equal
   \<and> cmp_value VNull a = (if a = VNull then Equal else Less)
   \<and> cmp_value (VUInt 18446744073709551615) (VUInt 18446744073709551614) = Equal"
proof -
  have f: "cmp_value b a = flip (cmp_value a b)" for a b by (rule flip_cmp_value [symmetric])
  from f [of a a] have r: "cmp_value a a = Equal" by (cases "cmp_value a a") auto
  have "cmp_value (VUInt 18446744073709551615) (VUInt 18446744073709551614) = Equal"
    by (simp add: cmp_value_def cmp_numeric_def exact_i64_def is_vfloat_def as_i64_def as_f64_def rank_def is_vdecimal_def
        f64_of_int_def f64_sign_def f64_bits_def round_shift_def total_cmp_f64_def f64_lt_def f64_eq_def f64_is_nan_def
        f64_mag_def f64_key_def SIGN_def Let_def)
  with f [of b a] r show ?thesis by (simp add: cmp_value_null)
qed

text \<open>C31: On booleans, integers in the signed range, dates and timestamps, equal values feed the hasher the same input and
  different ones do not. Across an integer and a double, and across decimals of different scales, equal values can
  feed it different inputs.\<close>

theorem hash_agrees_on_integers:
  "(exact_i64 v = Some i \<and> exact_i64 w = Some j \<and> \<not> is_vdecimal v \<and> \<not> is_vdecimal w \<longrightarrow>
     (value_eq v w \<longleftrightarrow> hash_value v = hash_value w)) \<and>
   (value_eq (VInt 9007199254740993) (VFloat (f64_of_int 9007199254740992)) \<and>
     hash_value (VInt 9007199254740993) \<noteq> hash_value (VFloat (f64_of_int 9007199254740992))) \<and>
   (value_eq (VDecimal 9007199254740993 1) (VDecimal 90071992547409930 2) \<and>
     hash_value (VDecimal 9007199254740993 1) \<noteq> hash_value (VDecimal 90071992547409930 2))"
proof (intro conjI)
  show "exact_i64 v = Some i \<and> exact_i64 w = Some j \<and> \<not> is_vdecimal v \<and> \<not> is_vdecimal w \<longrightarrow>
     (value_eq v w \<longleftrightarrow> hash_value v = hash_value w)"
    by (auto simp: value_eq_exact hash_exact)
  have "value_eq (VInt 9007199254740993) (VFloat (f64_of_int 9007199254740992))"
    by (simp add: value_eq_def cmp_value_def cmp_numeric_def exact_i64_def is_vfloat_def as_i64_def as_f64_def rank_def is_vdecimal_def
        f64_of_int_def f64_sign_def f64_bits_def round_shift_def total_cmp_f64_def f64_lt_def f64_eq_def f64_is_nan_def
        f64_mag_def f64_key_def SIGN_def Let_def)
  moreover have "hash_value (VInt 9007199254740993) = [HByte 2, HByte 0, HI64 9007199254740993]"
    by (rule hash_exact) (simp_all add: exact_i64_def is_vfloat_def is_vdecimal_def as_i64_def)
  moreover have "hash_value (VFloat (f64_of_int 9007199254740992)) = [HByte 2, HByte 0, HI64 9007199254740992]"
    by (simp add: hash_value_def as_f64_def as_i64_def f64_of_int_def f64_sign_def f64_bits_def round_shift_def f64_lt_def
        f64_is_integral_def f64_is_finite_def f64_exponent_def f64_significand_def f64_trunc_def f64_is_nan_def
        f64_mag_def f64_key_def SIGN_def I64_MIN_F_def I64_MAX_F_def saturate_def Let_def)
  ultimately show "value_eq (VInt 9007199254740993) (VFloat (f64_of_int 9007199254740992))"
    "hash_value (VInt 9007199254740993) \<noteq> hash_value (VFloat (f64_of_int 9007199254740992))" by simp_all
  show "value_eq (VDecimal 9007199254740993 1) (VDecimal 90071992547409930 2)"
    by (simp add: value_eq_def cmp_value_def is_vdecimal_def rank_def cmp_decimal_def exact_parts_def decimal_parts_def
        POW10_def cmp_def)
  have "f64_div_nat (f64_of_int 9007199254740993) 10 \<noteq> f64_div_nat (f64_of_int 90071992547409930) 100"
    by (simp add: f64_div_nat_def f64_of_int_def f64_sign_def f64_bits_def round_shift_def f64_significand_def
        f64_exponent_def f64_mag_def SIGN_def Let_def)
  then show "hash_value (VDecimal 9007199254740993 1) \<noteq> hash_value (VDecimal 90071992547409930 2)"
    by (simp add: hash_value_def as_f64_def trunc_rem_def trunc_div_def POW10_def)
qed

theorem hash_agrees_on_integers_witness:
  "value_eq (VInt 5) (VDate 5) \<longleftrightarrow> hash_value (VInt 5) = hash_value (VDate 5)"
  using hash_agrees_on_integers [of "VInt 5" 5 "VDate 5" 5]
  by (simp add: exact_i64_def is_vfloat_def is_vdecimal_def as_i64_def)

end
