(* ===== verification/Column_Block.thy ===== *)
theory Column_Block
  imports Cell_Value Bit_Set
begin

text \<open>
  Vectorized batches, \<^verbatim>\<open>src/types/block.rs\<close>: a column is a typed buffer and an optional null mask, a block is
  a set of columns of one length. Columns are shown to be lists of cells: \<open>cells\<close> is the abstraction, every
  reshaping operation is the list operation it is named after, and the invariant \<open>col_wf\<close> (the buffer has the
  kind of the declared type, the mask names only rows that exist) is kept. Blocks inherit this row by row
  through the interface \<open>cell_column\<close>. An index past the end panics in the source and is \<open>None\<close> here; a \<open>u32\<close> row
  number is a \<open>nat\<close>.
\<close>

section \<open>Definitions\<close>

datatype column_data =
    CU64 "u64 list"
  | CI64 "i64 list"
  | CF64 "f64 list"
  | CStr "bytes list"

definition cd_len :: "column_data \<Rightarrow> nat" where
  "cd_len d = (case d of CU64 v \<Rightarrow> length v | CI64 v \<Rightarrow> length v | CF64 v \<Rightarrow> length v | CStr v \<Rightarrow> length v)"

definition cd_physical :: "column_data \<Rightarrow> physical_type" where
  "cd_physical d = (case d of CU64 _ \<Rightarrow> U64 | CI64 _ \<Rightarrow> I64 | CF64 _ \<Rightarrow> F64 | CStr _ \<Rightarrow> Str)"

definition empty_like :: "column_data \<Rightarrow> column_data" where
  "empty_like d = (case d of CU64 _ \<Rightarrow> CU64 [] | CI64 _ \<Rightarrow> CI64 [] | CF64 _ \<Rightarrow> CF64 [] | CStr _ \<Rightarrow> CStr [])"

definition for_physical :: "physical_type \<Rightarrow> column_data" where
  "for_physical p = (case p of U64 \<Rightarrow> CU64 [] | I64 \<Rightarrow> CI64 [] | F64 \<Rightarrow> CF64 [] | Str \<Rightarrow> CStr [])"

definition cd_truncate :: "column_data \<Rightarrow> nat \<Rightarrow> column_data" where
  "cd_truncate d n = (case d of
     CU64 v \<Rightarrow> CU64 (take n v) | CI64 v \<Rightarrow> CI64 (take n v) | CF64 v \<Rightarrow> CF64 (take n v) | CStr v \<Rightarrow> CStr (take n v))"

record column =
  col_ty :: data_type
  col_data :: column_data
  col_nulls :: "bitset option"

definition col_new :: "data_type \<Rightarrow> column_data \<Rightarrow> column" where
  "col_new ty d = \<lparr>col_ty = ty, col_data = d, col_nulls = None\<rparr>"

text \<open>An empty mask is not kept: \<open>nulls.filter(|n| !n.is_empty())\<close>.\<close>

definition keep_nulls :: "bitset option \<Rightarrow> bitset option" where
  "keep_nulls m = (case m of Some n \<Rightarrow> if bitset_is_empty n then None else Some n | None \<Rightarrow> None)"

definition with_nulls :: "data_type \<Rightarrow> column_data \<Rightarrow> bitset \<Rightarrow> column" where
  "with_nulls ty d n = \<lparr>col_ty = ty, col_data = d, col_nulls = (if bitset_is_empty n then None else Some n)\<rparr>"

definition col_len :: "column \<Rightarrow> nat" where
  "col_len c = cd_len (col_data c)"

definition mask_get :: "bitset option \<Rightarrow> nat \<Rightarrow> bool" where
  "mask_get m i = (case m of Some n \<Rightarrow> bitset_get n i | None \<Rightarrow> False)"

definition col_is_null :: "column \<Rightarrow> nat \<Rightarrow> bool" where
  "col_is_null c i = mask_get (col_nulls c) i"

definition has_nulls :: "column \<Rightarrow> bool" where
  "has_nulls c = (col_nulls c \<noteq> None)"

definition null_count :: "column \<Rightarrow> nat" where
  "null_count c = (case col_nulls c of None \<Rightarrow> 0 | Some n \<Rightarrow> count_ones_upto n (col_len c))"

text \<open>\<open>v[i]\<close> and \<open>v[i] = x\<close>, with the panic out of range.\<close>

definition at :: "'a list \<Rightarrow> nat \<Rightarrow> 'a option" where
  "at xs i = (if i < length xs then Some (xs ! i) else None)"

definition put :: "'a list \<Rightarrow> nat \<Rightarrow> 'a \<Rightarrow> 'a list option" where
  "put xs i x = (if i < length xs then Some (xs[i := x]) else None)"

definition raw_cell :: "data_type \<Rightarrow> column_data \<Rightarrow> nat \<Rightarrow> cell option" where
  "raw_cell ty d i = (case d of
     CU64 v \<Rightarrow> map_option (\<lambda>x. case base ty of
         Bool \<Rightarrow> VBool (x \<noteq> 0)
       | Date \<Rightarrow> VDate (ucast x)
       | DateTime \<Rightarrow> VDateTime x
       | _ \<Rightarrow> VUInt x) (at v i)
   | CI64 v \<Rightarrow> map_option (\<lambda>x. case base ty of
         DateTime \<Rightarrow> VDateTime x
       | Decimal64 s \<Rightarrow> VDecimal x s
       | _ \<Rightarrow> VInt x) (at v i)
   | CF64 v \<Rightarrow> map_option VFloat (at v i)
   | CStr v \<Rightarrow> map_option VStr (at v i))"

definition col_value :: "column \<Rightarrow> nat \<Rightarrow> cell option" where
  "col_value c i = (if col_is_null c i then Some VNull else raw_cell (col_ty c) (col_data c) i)"

text \<open>\<open>nulls.get_or_insert_with(BitSet::new)\<close>.\<close>

definition nulls_or_new :: "bitset option \<Rightarrow> bitset" where
  "nulls_or_new m = (case m of Some n \<Rightarrow> n | None \<Rightarrow> bitset_new)"

definition not_a :: error where
  "not_a = Exec ''is not a''"

definition push_exact :: "column_data \<Rightarrow> cell \<Rightarrow> column_data option" where
  "push_exact d v = (case (d, v) of
     (CU64 b, VUInt x) \<Rightarrow> Some (CU64 (b @ [x]))
   | (CI64 b, VInt x) \<Rightarrow> Some (CI64 (b @ [x]))
   | (CF64 b, VFloat x) \<Rightarrow> Some (CF64 (b @ [x]))
   | (CStr b, VStr x) \<Rightarrow> Some (CStr (b @ [x]))
   | _ \<Rightarrow> None)"

definition push_default :: "column_data \<Rightarrow> column_data" where
  "push_default d = (case d of
     CU64 b \<Rightarrow> CU64 (b @ [0]) | CI64 b \<Rightarrow> CI64 (b @ [0]) | CF64 b \<Rightarrow> CF64 (b @ [0]) | CStr b \<Rightarrow> CStr (b @ [[]]))"

definition str_text :: "float_text \<Rightarrow> cell \<Rightarrow> bytes" where
  "str_text ft v = (case v of VStr s \<Rightarrow> s | _ \<Rightarrow> render_plain ft v)"

definition push_coerced :: "float_text \<Rightarrow> column_data \<Rightarrow> cell \<Rightarrow> column_data result" where
  "push_coerced ft d v = (case d of
     CU64 b \<Rightarrow> (case as_u64 v of Some x \<Rightarrow> Inr (CU64 (b @ [x])) | None \<Rightarrow> Inl not_a)
   | CI64 b \<Rightarrow> (case as_i64 v of Some x \<Rightarrow> Inr (CI64 (b @ [x])) | None \<Rightarrow> Inl not_a)
   | CF64 b \<Rightarrow> (case as_f64 v of Some x \<Rightarrow> Inr (CF64 (b @ [x])) | None \<Rightarrow> Inl not_a)
   | CStr b \<Rightarrow> Inr (CStr (b @ [str_text ft v])))"

text \<open>An error of \<open>push_value\<close> comes before the buffer is touched.\<close>

definition push_value :: "float_text \<Rightarrow> column \<Rightarrow> cell \<Rightarrow> column result" where
  "push_value ft c v = (case push_exact (col_data c) v of
     Some d \<Rightarrow> Inr (c\<lparr>col_data := d\<rparr>)
   | None \<Rightarrow>
       if is_null v
       then Inr (c\<lparr>col_nulls := Some (snd (bitset_set (nulls_or_new (col_nulls c)) (col_len c))),
                   col_data := push_default (col_data c)\<rparr>)
       else rbind (push_coerced ft (col_data c) v) (\<lambda>d. Inr (c\<lparr>col_data := d\<rparr>)))"

definition set_exact :: "column_data \<Rightarrow> nat \<Rightarrow> cell \<Rightarrow> column_data option option" where
  "set_exact d i v = (case (d, v) of
     (CU64 b, VUInt x) \<Rightarrow> Some (map_option CU64 (put b i x))
   | (CI64 b, VInt x) \<Rightarrow> Some (map_option CI64 (put b i x))
   | (CF64 b, VFloat x) \<Rightarrow> Some (map_option CF64 (put b i x))
   | (CStr b, VStr x) \<Rightarrow> Some (map_option CStr (put b i x))
   | _ \<Rightarrow> None)"

definition set_coerced :: "float_text \<Rightarrow> column_data \<Rightarrow> nat \<Rightarrow> cell \<Rightarrow> column_data option result" where
  "set_coerced ft d i v = (case d of
     CU64 b \<Rightarrow> (case as_u64 v of Some x \<Rightarrow> Inr (map_option CU64 (put b i x)) | None \<Rightarrow> Inl not_a)
   | CI64 b \<Rightarrow> (case as_i64 v of Some x \<Rightarrow> Inr (map_option CI64 (put b i x)) | None \<Rightarrow> Inl not_a)
   | CF64 b \<Rightarrow> (case as_f64 v of Some x \<Rightarrow> Inr (map_option CF64 (put b i x)) | None \<Rightarrow> Inl not_a)
   | CStr b \<Rightarrow> Inr (map_option CStr (put b i (str_text ft v))))"

text \<open>\<open>set_value\<close> returns the column next to the result: an error leaves the null bit already cleared.\<close>

definition set_value :: "float_text \<Rightarrow> column \<Rightarrow> nat \<Rightarrow> cell \<Rightarrow> (unit result \<times> column) option" where
  "set_value ft c i v =
     (case (if col_nulls c = None then set_exact (col_data c) i v else None) of
        Some r \<Rightarrow> map_option (\<lambda>d. (Inr (), c\<lparr>col_data := d\<rparr>)) r
      | None \<Rightarrow>
          if is_null v then Some (Inr (), c\<lparr>col_nulls := Some (snd (bitset_set (nulls_or_new (col_nulls c)) i))\<rparr>)
          else let c1 = c\<lparr>col_nulls := map_option (\<lambda>n. snd (bitset_clear n i)) (col_nulls c)\<rparr>
               in case set_coerced ft (col_data c1) i v of
                    Inl e \<Rightarrow> Some (Inl e, c1)
                  | Inr r \<Rightarrow> map_option (\<lambda>d. (Inr (), c1\<lparr>col_data := d\<rparr>)) r)"

definition col_clear :: "column \<Rightarrow> column" where
  "col_clear c = c\<lparr>col_data := cd_truncate (col_data c) 0, col_nulls := None\<rparr>"

definition wrong_kind :: error where
  "wrong_kind = Exec ''expected column of another kind''"

definition col_as_u64 :: "column \<Rightarrow> u64 list result" where
  "col_as_u64 c = (case col_data c of CU64 v \<Rightarrow> Inr v | _ \<Rightarrow> Inl wrong_kind)"

definition col_as_i64 :: "column \<Rightarrow> i64 list result" where
  "col_as_i64 c = (case col_data c of CI64 v \<Rightarrow> Inr v | _ \<Rightarrow> Inl wrong_kind)"

definition col_as_f64 :: "column \<Rightarrow> f64 list result" where
  "col_as_f64 c = (case col_data c of CF64 v \<Rightarrow> Inr v | _ \<Rightarrow> Inl wrong_kind)"

definition col_as_str :: "column \<Rightarrow> bytes list result" where
  "col_as_str c = (case col_data c of CStr v \<Rightarrow> Inr v | _ \<Rightarrow> Inl wrong_kind)"

definition to_f64_vec :: "column \<Rightarrow> f64 list result" where
  "to_f64_vec c = (case col_data c of
     CU64 v \<Rightarrow> Inr (map (\<lambda>x. f64_of_int (uint x)) v)
   | CI64 v \<Rightarrow> Inr (map (\<lambda>x. f64_of_int (sint x)) v)
   | CF64 v \<Rightarrow> Inr v
   | CStr _ \<Rightarrow> Inl (Exec ''cannot use a String column as a number''))"

text \<open>\<open>x as i64\<close> of a double truncates and saturates; a NaN gives 0.\<close>

definition f64_as_i64 :: "f64 \<Rightarrow> i64" where
  "f64_as_i64 f =
     (if f64_is_nan f then 0
      else if f64_is_finite f then of_int (saturate (- (2 ^ 63)) (2 ^ 63 - 1) (f64_trunc f))
      else if f64_lt f 0 then of_int (- (2 ^ 63)) else of_int (2 ^ 63 - 1))"

definition to_i64_vec :: "column \<Rightarrow> i64 list result" where
  "to_i64_vec c = (case col_data c of
     CU64 v \<Rightarrow> Inr v
   | CI64 v \<Rightarrow> Inr v
   | CF64 v \<Rightarrow> Inr (map f64_as_i64 v)
   | CStr _ \<Rightarrow> Inl (Exec ''cannot use a String column as an integer''))"

definition pick :: "'a list \<Rightarrow> nat list \<Rightarrow> 'a list option" where
  "pick v idx = (if list_all (\<lambda>i. i < length v) idx then Some (map ((!) v) idx) else None)"

definition cd_take :: "column_data \<Rightarrow> nat list \<Rightarrow> column_data option" where
  "cd_take d idx = (case d of
     CU64 v \<Rightarrow> map_option CU64 (pick v idx) | CI64 v \<Rightarrow> map_option CI64 (pick v idx)
   | CF64 v \<Rightarrow> map_option CF64 (pick v idx) | CStr v \<Rightarrow> map_option CStr (pick v idx))"

text \<open>The two mask loops: over a list of rows, and over a range; bit \<open>k\<close> of the result lands at \<open>start + k\<close>.\<close>

definition mask_gather :: "bitset \<Rightarrow> nat list \<Rightarrow> nat \<Rightarrow> bitset \<Rightarrow> bitset" where
  "mask_gather n rows start out =
     fold (\<lambda>p. if bitset_get n (snd p) then (\<lambda>b. snd (bitset_set b (start + fst p))) else (\<lambda>b. b))
       (enumerate 0 rows) out"

definition mask_slice :: "bitset \<Rightarrow> nat \<Rightarrow> nat \<Rightarrow> nat \<Rightarrow> bitset \<Rightarrow> bitset" where
  "mask_slice n s e start out =
     fold (\<lambda>i. if bitset_get n i then (\<lambda>b. snd (bitset_set b (start + i - s))) else (\<lambda>b. b)) [s..<e] out"

definition col_take :: "column \<Rightarrow> nat list \<Rightarrow> column option" where
  "col_take c idx = map_option (\<lambda>d.
     c\<lparr>col_data := d,
       col_nulls := keep_nulls (map_option (\<lambda>n. mask_gather n idx 0 bitset_new) (col_nulls c))\<rparr>)
     (cd_take (col_data c) idx)"

definition cd_slice :: "column_data \<Rightarrow> nat \<Rightarrow> nat \<Rightarrow> column_data option" where
  "cd_slice d s e = (case d of
     CU64 v \<Rightarrow> map_option CU64 (get_range v s e) | CI64 v \<Rightarrow> map_option CI64 (get_range v s e)
   | CF64 v \<Rightarrow> map_option CF64 (get_range v s e) | CStr v \<Rightarrow> map_option CStr (get_range v s e))"

definition col_slice :: "column \<Rightarrow> nat \<Rightarrow> nat \<Rightarrow> column option" where
  "col_slice c s e = map_option (\<lambda>d.
     c\<lparr>col_data := d,
       col_nulls := keep_nulls (map_option (\<lambda>n. mask_slice n s e 0 bitset_new) (col_nulls c))\<rparr>)
     (cd_slice (col_data c) s e)"

definition cd_append :: "column_data \<Rightarrow> column_data \<Rightarrow> column_data option" where
  "cd_append a b = (case (a, b) of
     (CU64 x, CU64 y) \<Rightarrow> Some (CU64 (x @ y))
   | (CI64 x, CI64 y) \<Rightarrow> Some (CI64 (x @ y))
   | (CF64 x, CF64 y) \<Rightarrow> Some (CF64 (x @ y))
   | (CStr x, CStr y) \<Rightarrow> Some (CStr (x @ y))
   | _ \<Rightarrow> None)"

definition col_extend :: "column \<Rightarrow> column \<Rightarrow> column result" where
  "col_extend c d = (case cd_append (col_data c) (col_data d) of
     None \<Rightarrow> Inl (Exec ''cannot concatenate'')
   | Some x \<Rightarrow> Inr (c\<lparr>col_data := x,
       col_nulls := (case col_nulls d of
          None \<Rightarrow> col_nulls c
        | Some m \<Rightarrow> Some (mask_slice m 0 (col_len d) (col_len c) (nulls_or_new (col_nulls c))))\<rparr>))"

text \<open>\<open>push_lane\<close> is never called on a string column (\<open>unreachable!\<close>).\<close>

definition push_lane :: "column \<Rightarrow> u64 \<Rightarrow> column option" where
  "push_lane c lane = (case col_data c of
     CU64 v \<Rightarrow> Some (c\<lparr>col_data := CU64 (v @ [lane])\<rparr>)
   | CI64 v \<Rightarrow> Some (c\<lparr>col_data := CI64 (v @ [lane_to_i64 lane])\<rparr>)
   | CF64 v \<Rightarrow> Some (c\<lparr>col_data := CF64 (v @ [lane_to_f64 lane])\<rparr>)
   | CStr _ \<Rightarrow> None)"

definition col_bytes :: "column \<Rightarrow> nat" where
  "col_bytes c =
     (case col_data c of CU64 v \<Rightarrow> length v * 8 | CI64 v \<Rightarrow> length v * 8 | CF64 v \<Rightarrow> length v * 8
      | CStr v \<Rightarrow> sum_list (map (\<lambda>s. length s + 16) v))
     + (case col_nulls c of None \<Rightarrow> 0 | Some n \<Rightarrow> bitset_bytes n)"

subsection \<open>Column builder\<close>

record column_builder =
  b_ty :: data_type
  b_data :: column_data
  b_nulls :: bitset
  b_len :: nat

definition builder_new :: "data_type \<Rightarrow> column_builder" where
  "builder_new ty = \<lparr>b_ty = ty, b_data = for_physical (physical ty), b_nulls = bitset_new, b_len = 0\<rparr>"

definition builder_push_null :: "column_builder \<Rightarrow> column_builder" where
  "builder_push_null b =
     b\<lparr>b_nulls := snd (bitset_set (b_nulls b) (b_len b)), b_data := push_default (b_data b), b_len := b_len b + 1\<rparr>"

definition builder_push_value :: "float_text \<Rightarrow> column_builder \<Rightarrow> cell \<Rightarrow> column_builder result" where
  "builder_push_value ft b v =
     (if is_null v then Inr (builder_push_null b)
      else rbind (push_coerced ft (b_data b) v) (\<lambda>d. Inr (b\<lparr>b_data := d, b_len := b_len b + 1\<rparr>)))"

text \<open>The typed pushes are \<open>unreachable!\<close> on a builder of another kind.\<close>

definition push_u64 :: "column_builder \<Rightarrow> u64 \<Rightarrow> column_builder option" where
  "push_u64 b x = (case b_data b of CU64 v \<Rightarrow> Some (b\<lparr>b_data := CU64 (v @ [x]), b_len := b_len b + 1\<rparr>) | _ \<Rightarrow> None)"

definition push_i64 :: "column_builder \<Rightarrow> i64 \<Rightarrow> column_builder option" where
  "push_i64 b x = (case b_data b of CI64 v \<Rightarrow> Some (b\<lparr>b_data := CI64 (v @ [x]), b_len := b_len b + 1\<rparr>) | _ \<Rightarrow> None)"

definition push_f64 :: "column_builder \<Rightarrow> f64 \<Rightarrow> column_builder option" where
  "push_f64 b x = (case b_data b of CF64 v \<Rightarrow> Some (b\<lparr>b_data := CF64 (v @ [x]), b_len := b_len b + 1\<rparr>) | _ \<Rightarrow> None)"

definition push_str :: "column_builder \<Rightarrow> bytes \<Rightarrow> column_builder option" where
  "push_str b x = (case b_data b of CStr v \<Rightarrow> Some (b\<lparr>b_data := CStr (v @ [x]), b_len := b_len b + 1\<rparr>) | _ \<Rightarrow> None)"

definition builder_finish :: "column_builder \<Rightarrow> column" where
  "builder_finish b =
     \<lparr>col_ty = b_ty b, col_data = b_data b,
      col_nulls = (if bitset_is_empty (b_nulls b) then None else Some (b_nulls b))\<rparr>"

definition col_constant :: "float_text \<Rightarrow> data_type \<Rightarrow> cell \<Rightarrow> nat \<Rightarrow> column result" where
  "col_constant ft ty v n =
     (if is_null v then Inr (builder_finish ((builder_push_null ^^ n) (builder_new (to_nullable ty))))
      else (case physical (base ty) of
        U64 \<Rightarrow> (case as_u64 v of Some x \<Rightarrow> Inr (col_new ty (CU64 (replicate n x))) | None \<Rightarrow> Inl not_a)
      | I64 \<Rightarrow> (case as_i64 v of Some x \<Rightarrow> Inr (col_new ty (CI64 (replicate n x))) | None \<Rightarrow> Inl not_a)
      | F64 \<Rightarrow> (case as_f64 v of Some x \<Rightarrow> Inr (col_new ty (CF64 (replicate n x))) | None \<Rightarrow> Inl not_a)
      | Str \<Rightarrow> Inr (col_new ty (CStr (replicate n (render_plain ft v))))))"

subsection \<open>Blocks\<close>

record block =
  blk_columns :: "column list"
  blk_rows :: nat

definition block_new :: "column list \<Rightarrow> block result" where
  "block_new cs =
     (let n = (case cs of [] \<Rightarrow> 0 | c # _ \<Rightarrow> col_len c)
      in if list_all (\<lambda>c. col_len c = n) cs then Inr \<lparr>blk_columns = cs, blk_rows = n\<rparr> else Inl (Exec ''ragged block''))"

definition rows_only :: "nat \<Rightarrow> block" where
  "rows_only n = \<lparr>blk_columns = [], blk_rows = n\<rparr>"

definition set_rows :: "block \<Rightarrow> nat \<Rightarrow> block" where
  "set_rows b n = b\<lparr>blk_rows := n\<rparr>"

definition block_clear :: "block \<Rightarrow> block" where
  "block_clear b = \<lparr>blk_columns = map col_clear (blk_columns b), blk_rows = 0\<rparr>"

definition block_empty :: "data_type list \<Rightarrow> block" where
  "block_empty tys = \<lparr>blk_columns = map (\<lambda>ty. col_new ty (for_physical (physical ty))) tys, blk_rows = 0\<rparr>"

definition block_width :: "block \<Rightarrow> nat" where
  "block_width b = length (blk_columns b)"

definition block_take :: "block \<Rightarrow> nat list \<Rightarrow> block option" where
  "block_take b idx =
     map_option (\<lambda>cs. \<lparr>blk_columns = cs, blk_rows = length idx\<rparr>) (those (map (\<lambda>c. col_take c idx) (blk_columns b)))"

definition block_slice :: "block \<Rightarrow> nat \<Rightarrow> nat \<Rightarrow> block option" where
  "block_slice b s0 e0 =
     (let e = min e0 (blk_rows b); s = min s0 e
      in map_option (\<lambda>cs. \<lparr>blk_columns = cs, blk_rows = e - s\<rparr>) (those (map (\<lambda>c. col_slice c s e) (blk_columns b))))"

definition filter_mask :: "block \<Rightarrow> bitset \<Rightarrow> block option" where
  "filter_mask b m =
     block_take b (filter (bitset_get m) [0..<unat (of_nat (blk_rows b) :: u32)])"

text \<open>The columns extended so far stay extended when a later one fails, so the block is returned next to
  the result.\<close>

fun extend_columns :: "column list \<Rightarrow> column list \<Rightarrow> unit result \<times> column list" where
  "extend_columns (a # as) (b # bs) = (case col_extend a b of
     Inl e \<Rightarrow> (Inl e, a # as)
   | Inr c \<Rightarrow> let (r, cs) = extend_columns as bs in (r, c # cs))"
| "extend_columns as _ = (Inr (), as)"

definition block_extend :: "block \<Rightarrow> block \<Rightarrow> unit result \<times> block" where
  "block_extend b o2 =
     (if blk_columns b = [] \<and> blk_rows b = 0 then (Inr (), o2)
      else if block_width b \<noteq> block_width o2 then (Inl (Exec ''cannot concatenate blocks''), b)
      else let (r, cs) = extend_columns (blk_columns b) (blk_columns o2)
           in case r of Inl e \<Rightarrow> (Inl e, b\<lparr>blk_columns := cs\<rparr>)
              | Inr _ \<Rightarrow> (Inr (), \<lparr>blk_columns = cs, blk_rows = blk_rows b + blk_rows o2\<rparr>))"

definition append_columns :: "block \<Rightarrow> column list \<Rightarrow> block result" where
  "append_columns b cs =
     (if list_all (\<lambda>c. col_len c = blk_rows b) cs then Inr (b\<lparr>blk_columns := blk_columns b @ cs\<rparr>)
      else Inl (Exec ''appended column has another number of rows''))"

definition block_bytes :: "block \<Rightarrow> nat" where
  "block_bytes b = sum_list (map col_bytes (blk_columns b))"

section \<open>Columns are lists of cells\<close>

definition col_wf :: "column \<Rightarrow> bool" where
  "col_wf c \<longleftrightarrow> cd_physical (col_data c) = physical (col_ty c) \<and> (\<forall>i. col_is_null c i \<longrightarrow> i < col_len c)"

definition cells :: "column \<Rightarrow> cell list" where
  "cells c = map (\<lambda>i. the (col_value c i)) [0..<col_len c]"

lemma length_cells [simp]: "length (cells c) = col_len c"
  by (simp add: cells_def)

lemma mask_get_simps [simp]:
  "mask_get None i = False" "mask_get (Some n) i = bitset_get n i"
  by (simp_all add: mask_get_def)

lemma at_simps [simp]: "i < length xs \<Longrightarrow> at xs i = Some (xs ! i)" "at xs i = None \<longleftrightarrow> length xs \<le> i"
  by (auto simp: at_def)

lemmas col_defs = cd_len_def cd_physical_def col_len_def raw_cell_def

lemma raw_cell_Some: "i < cd_len d \<Longrightarrow> \<exists>v. raw_cell ty d i = Some v"
  by (simp add: col_defs split: column_data.splits)

lemma raw_cell_None: "cd_len d \<le> i \<Longrightarrow> raw_cell ty d i = None"
  by (simp add: col_defs split: column_data.splits)

lemma col_value_cells: "i < col_len c \<Longrightarrow> col_value c i = Some (cells c ! i)"
  using raw_cell_Some [of i "col_data c" "col_ty c"] by (auto simp: cells_def col_value_def col_len_def)

lemma cells_eqI:
  assumes "col_len c = length vs" "\<And>i. i < length vs \<Longrightarrow> col_value c i = Some (vs ! i)"
  shows "cells c = vs"
  using assms by (intro nth_equalityI) (simp_all add: cells_def)

lemma col_value_panic: "col_wf c \<Longrightarrow> col_value c i = None \<longleftrightarrow> col_len c \<le> i"
  using col_value_cells [of i c] by (cases "i < col_len c") (auto simp: col_wf_def col_value_def col_len_def raw_cell_None)

lemma keep_nulls_get [simp]: "mask_get (keep_nulls m) i = mask_get m i"
  by (auto simp: keep_nulls_def bitset_is_empty_iff bits_of_def split: option.splits)

lemma nulls_or_new_get [simp]: "bitset_get (nulls_or_new m) i = mask_get m i"
  using bitset.mem_empty by (simp add: nulls_or_new_def split: option.splits)

lemma mask_gather_get:
  "bitset_get (mask_gather n rows start out) j \<longleftrightarrow>
     (\<exists>k < length rows. bitset_get n (rows ! k) \<and> j = start + k) \<or> bitset_get out j"
  unfolding mask_gather_def bitset.mem_fold_ins_if by (auto simp: in_set_enumerate_eq Bex_def)

lemma mask_slice_get:
  "bitset_get (mask_slice n s e start out) j \<longleftrightarrow>
     (\<exists>i. s \<le> i \<and> i < e \<and> bitset_get n i \<and> j = start + i - s) \<or> bitset_get out j"
  unfolding mask_slice_def bitset.mem_fold_ins_if by auto

text \<open>The operations on the typed buffer, cell by cell.\<close>

lemma cd_take_raw:
  assumes "list_all (\<lambda>i. i < cd_len d) idx"
  obtains d' where "cd_take d idx = Some d'" "cd_len d' = length idx" "cd_physical d' = cd_physical d"
    "\<And>k. k < length idx \<Longrightarrow> raw_cell ty d' k = raw_cell ty d (idx ! k)"
proof -
  have "idx ! k < cd_len d" if "k < length idx" for k using assms that by (simp add: list_all_length)
  then have "\<exists>d'. cd_take d idx = Some d' \<and> cd_len d' = length idx \<and> cd_physical d' = cd_physical d \<and>
      (\<forall>k < length idx. raw_cell ty d' k = raw_cell ty d (idx ! k))"
    using assms by (cases d) (simp_all add: cd_take_def pick_def col_defs)
  with that show thesis by blast
qed

lemma cd_take_None: "cd_take d idx = None \<longleftrightarrow> (\<exists>i \<in> set idx. cd_len d \<le> i)"
  by (cases d) (auto simp: cd_take_def pick_def cd_len_def list_all_iff not_less)

lemma cd_slice_raw:
  assumes "s \<le> e" "e \<le> cd_len d"
  obtains d' where "cd_slice d s e = Some d'" "cd_len d' = e - s" "cd_physical d' = cd_physical d"
    "\<And>k. k < e - s \<Longrightarrow> raw_cell ty d' k = raw_cell ty d (s + k)"
proof -
  have "\<exists>d'. cd_slice d s e = Some d' \<and> cd_len d' = e - s \<and> cd_physical d' = cd_physical d \<and>
      (\<forall>k < e - s. raw_cell ty d' k = raw_cell ty d (s + k))"
    using assms by (cases d) (simp_all add: cd_slice_def get_range_def col_defs slice_nth)
  with that show thesis by blast
qed

lemma cd_slice_None: "cd_slice d s e = None \<longleftrightarrow> e < s \<or> cd_len d < e"
  by (cases d) (auto simp: cd_slice_def get_range_def cd_len_def)

lemma cd_append_raw:
  assumes "cd_physical a = cd_physical b"
  obtains d' where "cd_append a b = Some d'" "cd_len d' = cd_len a + cd_len b" "cd_physical d' = cd_physical a"
    "\<And>k. k < cd_len a + cd_len b \<Longrightarrow>
      raw_cell ty d' k = (if k < cd_len a then raw_cell ty a k else raw_cell ty b (k - cd_len a))"
proof -
  have "\<exists>d'. cd_append a b = Some d' \<and> cd_len d' = cd_len a + cd_len b \<and> cd_physical d' = cd_physical a \<and>
      (\<forall>k < cd_len a + cd_len b.
         raw_cell ty d' k = (if k < cd_len a then raw_cell ty a k else raw_cell ty b (k - cd_len a)))"
    using assms by (cases a; cases b) (auto simp: cd_append_def col_defs nth_append)
  with that show thesis by blast
qed

lemma cd_append_None: "cd_append a b = None \<longleftrightarrow> cd_physical a \<noteq> cd_physical b"
  by (cases a; cases b) (auto simp: cd_append_def cd_physical_def)

text \<open>A column whose buffer and mask read as the cells \<open>vs\<close>.\<close>

lemma cells_column:
  assumes "cd_len d = length vs" "cd_physical d = physical ty" "\<And>i. mask_get m i \<Longrightarrow> i < length vs"
    "\<And>i. i < length vs \<Longrightarrow> (if mask_get m i then Some VNull else raw_cell ty d i) = Some (vs ! i)"
  shows "col_wf \<lparr>col_ty = ty, col_data = d, col_nulls = m\<rparr>" "cells \<lparr>col_ty = ty, col_data = d, col_nulls = m\<rparr> = vs"
proof -
  let ?c = "\<lparr>col_ty = ty, col_data = d, col_nulls = m\<rparr>"
  show "col_wf ?c" using assms by (simp add: col_wf_def col_is_null_def col_len_def)
  have "col_value ?c i = (if mask_get m i then Some VNull else raw_cell ty d i)" for i
    by (simp add: col_value_def col_is_null_def)
  then show "cells ?c = vs" by (intro cells_eqI) (simp_all only: assms, simp add: col_len_def assms)
qed

lemma column_update:
  "c\<lparr>col_data := d, col_nulls := m\<rparr> = \<lparr>col_ty = col_ty c, col_data = d, col_nulls = m\<rparr>"
  by (cases c) simp

lemma column_update_data: "c\<lparr>col_data := d\<rparr> = \<lparr>col_ty = col_ty c, col_data = d, col_nulls = col_nulls c\<rparr>"
  by (cases c) simp

lemma cell_at: "i < col_len c \<Longrightarrow>
    (if mask_get (col_nulls c) i then Some VNull else raw_cell (col_ty c) (col_data c) i) = Some (cells c ! i)"
  using col_value_cells [of i c] by (simp add: col_value_def col_is_null_def)

lemma col_take_spec:
  assumes "col_wf c" "\<forall>i \<in> set idx. i < col_len c"
  obtains c' where "col_take c idx = Some c'" "col_ty c' = col_ty c" "col_wf c'" "cells c' = map ((!) (cells c)) idx"
proof -
  have ok: "list_all (\<lambda>i. i < cd_len (col_data c)) idx" using assms(2) by (simp add: list_all_iff col_len_def)
  obtain d where d: "cd_take (col_data c) idx = Some d" "cd_len d = length idx" "cd_physical d = cd_physical (col_data c)"
    "\<And>k. k < length idx \<Longrightarrow> raw_cell (col_ty c) d k = raw_cell (col_ty c) (col_data c) (idx ! k)"
    using cd_take_raw [OF ok] by metis
  define m where "m = keep_nulls (map_option (\<lambda>n. mask_gather n idx 0 bitset_new) (col_nulls c))"
  have m: "mask_get m i \<longleftrightarrow> i < length idx \<and> mask_get (col_nulls c) (idx ! i)" for i
    using bitset.mem_empty by (cases "col_nulls c") (auto simp: m_def mask_gather_get)
  let ?c = "\<lparr>col_ty = col_ty c, col_data = d, col_nulls = m\<rparr>"
  have at: "(if mask_get m k then Some VNull else raw_cell (col_ty c) d k) = Some (map ((!) (cells c)) idx ! k)"
    if "k < length idx" for k
    using cell_at [of "idx ! k" c] that assms(2) by (simp add: m d(4) split: if_splits)
  have "col_take c idx = Some ?c" by (simp add: col_take_def d(1) m_def column_update)
  moreover have "cd_physical d = physical (col_ty c)" using assms(1) d(3) by (simp add: col_wf_def)
  ultimately show thesis
    using that [of ?c] cells_column [of d "map ((!) (cells c)) idx" "col_ty c" m] at by (simp add: d(2) m)
qed

lemma col_slice_spec:
  assumes "col_wf c" "s \<le> e" "e \<le> col_len c"
  obtains c' where "col_slice c s e = Some c'" "col_ty c' = col_ty c" "col_wf c'" "cells c' = slice (cells c) s e"
proof -
  have ok: "e \<le> cd_len (col_data c)" using assms(3) by (simp add: col_len_def)
  obtain d where d: "cd_slice (col_data c) s e = Some d" "cd_len d = e - s" "cd_physical d = cd_physical (col_data c)"
    "\<And>k. k < e - s \<Longrightarrow> raw_cell (col_ty c) d k = raw_cell (col_ty c) (col_data c) (s + k)"
    using cd_slice_raw [OF assms(2) ok] by metis
  define m where "m = keep_nulls (map_option (\<lambda>n. mask_slice n s e 0 bitset_new) (col_nulls c))"
  have m: "mask_get m i \<longleftrightarrow> i < e - s \<and> mask_get (col_nulls c) (s + i)" for i
    using bitset.mem_empty by (cases "col_nulls c") (auto simp: m_def mask_slice_get intro!: exI [of _ "s + i"])
  let ?c = "\<lparr>col_ty = col_ty c, col_data = d, col_nulls = m\<rparr>"
  have at: "(if mask_get m k then Some VNull else raw_cell (col_ty c) d k) = Some (slice (cells c) s e ! k)"
    if k: "k < e - s" for k
  proof -
    have "s + k < col_len c" using k assms(3) by simp
    with cell_at [OF this] k show ?thesis by (simp add: m d(4) slice_nth split: if_splits)
  qed
  have "col_slice c s e = Some ?c" by (simp add: col_slice_def d(1) m_def column_update)
  moreover have "cd_physical d = physical (col_ty c)" using assms(1) d(3) by (simp add: col_wf_def)
  ultimately show thesis
    using that [of ?c] cells_column [of d "slice (cells c) s e" "col_ty c" m] at assms(3) by (simp add: d(2) m)
qed

lemma col_extend_spec:
  assumes "col_wf c" "col_wf d" "col_ty d = col_ty c"
  obtains c' where "col_extend c d = Inr c'" "col_ty c' = col_ty c" "col_wf c'" "cells c' = cells c @ cells d"
proof -
  have kind: "cd_physical (col_data c) = cd_physical (col_data d)" using assms by (simp add: col_wf_def)
  obtain x where x: "cd_append (col_data c) (col_data d) = Some x" "cd_len x = col_len c + col_len d"
    "cd_physical x = cd_physical (col_data c)"
    "\<And>k. k < col_len c + col_len d \<Longrightarrow> raw_cell (col_ty c) x k =
       (if k < col_len c then raw_cell (col_ty c) (col_data c) k else raw_cell (col_ty c) (col_data d) (k - col_len c))"
    using cd_append_raw [OF kind] unfolding col_len_def by metis
  define m where "m = (case col_nulls d of None \<Rightarrow> col_nulls c
    | Some n \<Rightarrow> Some (mask_slice n 0 (col_len d) (col_len c) (nulls_or_new (col_nulls c))))"
  have cn: "mask_get (col_nulls c) i \<Longrightarrow> i < col_len c" and dn: "mask_get (col_nulls d) i \<Longrightarrow> i < col_len d" for i
    using assms(1,2) by (simp_all add: col_wf_def col_is_null_def)
  have m: "mask_get m i \<longleftrightarrow> (if i < col_len c then mask_get (col_nulls c) i else mask_get (col_nulls d) (i - col_len c))" for i
    using cn [of i] dn by (cases "col_nulls d") (auto simp: m_def mask_slice_get intro!: exI [of _ "i - col_len c"])
  let ?c = "\<lparr>col_ty = col_ty c, col_data = x, col_nulls = m\<rparr>"
  have at: "(if mask_get m k then Some VNull else raw_cell (col_ty c) x k) = Some ((cells c @ cells d) ! k)"
    if "k < col_len c + col_len d" for k
    using cell_at [of k c] cell_at [of "k - col_len c" d] that by (auto simp: m x(4) nth_append assms(3) split: if_splits)
  have lt: "i < col_len c + col_len d" if "mask_get m i" for i
    using that cn [of i] dn [of "i - col_len c"] by (simp add: m split: if_splits)
  have "col_extend c d = Inr ?c" by (simp add: col_extend_def x(1) m_def column_update)
  moreover have "cd_physical x = physical (col_ty c)" using assms(1) x(3) by (simp add: col_wf_def)
  ultimately show thesis
    using that [of ?c] cells_column [of x "cells c @ cells d" "col_ty c" m] at lt by (simp add: x(2))
qed

section \<open>Writing cells\<close>

text \<open>What a column can hold: a value that fits its type, a timestamp not before the epoch; any column can be
  given a NULL.\<close>

definition storable :: "data_type \<Rightarrow> cell \<Rightarrow> bool" where
  "storable ty v \<longleftrightarrow> v = VNull \<or> fits ty v \<and> (case v of VDateTime t \<Rightarrow> 0 \<le> sint t | _ \<Rightarrow> True)"

lemma physical_of_base:
  "base ty = Bool \<Longrightarrow> physical ty = U64" "base ty = Date \<Longrightarrow> physical ty = U64"
  "base ty = DateTime \<Longrightarrow> physical ty = U64" "base ty = Decimal64 s \<Longrightarrow> physical ty = I64"
  using physical_base [of ty] by simp_all

lemma integer_base:
  "is_integer ty \<Longrightarrow> base ty \<noteq> Bool \<and> base ty \<noteq> Date \<and> base ty \<noteq> DateTime \<and> base ty \<noteq> Decimal64 s"
  by (auto simp: is_integer_def)

lemma raw_cell_snoc:
  "k \<le> length b \<Longrightarrow> raw_cell ty (CU64 (b @ [x])) k = (if k < length b then raw_cell ty (CU64 b) k else raw_cell ty (CU64 [x]) 0)"
  "k \<le> length c \<Longrightarrow> raw_cell ty (CI64 (c @ [y])) k = (if k < length c then raw_cell ty (CI64 c) k else raw_cell ty (CI64 [y]) 0)"
  "k \<le> length d \<Longrightarrow> raw_cell ty (CF64 (d @ [z])) k = (if k < length d then raw_cell ty (CF64 d) k else raw_cell ty (CF64 [z]) 0)"
  "k \<le> length e \<Longrightarrow> raw_cell ty (CStr (e @ [w])) k = (if k < length e then raw_cell ty (CStr e) k else raw_cell ty (CStr [w]) 0)"
  by (auto simp: raw_cell_def nth_append at_def cong: data_type.case_cong)

lemma raw_cell_update:
  "i < length b \<Longrightarrow> raw_cell ty (CU64 (b[i := x])) k = (if k = i then raw_cell ty (CU64 [x]) 0 else raw_cell ty (CU64 b) k)"
  "i < length c \<Longrightarrow> raw_cell ty (CI64 (c[i := y])) k = (if k = i then raw_cell ty (CI64 [y]) 0 else raw_cell ty (CI64 c) k)"
  "i < length d \<Longrightarrow> raw_cell ty (CF64 (d[i := z])) k = (if k = i then raw_cell ty (CF64 [z]) 0 else raw_cell ty (CF64 d) k)"
  "i < length e \<Longrightarrow> raw_cell ty (CStr (e[i := w])) k = (if k = i then raw_cell ty (CStr [w]) 0 else raw_cell ty (CStr e) k)"
  by (auto simp: raw_cell_def at_def)

lemma ucast_date [simp]: "ucast (ucast (x :: u32) :: u64) = x"
  by (rule bit_word_eqI) (simp add: bit_simps)

text \<open>The word a storable value becomes in a buffer of the column's kind, and that it reads back as the value.\<close>

lemma stored_word:
  assumes "fits ty v" "storable ty v" "v \<noteq> VNull" "cd_physical d = physical ty"
  shows "(\<exists>b x. d = CU64 b \<and> as_u64 v = Some x \<and> raw_cell ty (CU64 [x]) 0 = Some v)
    \<or> (\<exists>b x. d = CI64 b \<and> as_i64 v = Some x \<and> raw_cell ty (CI64 [x]) 0 = Some v)
    \<or> (\<exists>b x. d = CF64 b \<and> v = VFloat x)
    \<or> (\<exists>b x. d = CStr b \<and> v = VStr x)"
  using assms
  by (cases v; cases d)
    (auto simp: fits_def storable_def cd_physical_def raw_cell_def as_u64_def as_i64_def at_def physical_of_base
      not_less ucast_id dest: integer_base split: data_type.splits)

lemma push_stored:
  assumes "storable ty v" "v \<noteq> VNull" "cd_physical d = physical ty"
  obtains d' where "push_exact d v = Some d' \<or> push_exact d v = None \<and> push_coerced ft d v = Inr d'"
    "cd_len d' = Suc (cd_len d)" "cd_physical d' = cd_physical d"
    "\<And>k. k \<le> cd_len d \<Longrightarrow> raw_cell ty d' k = (if k < cd_len d then raw_cell ty d k else Some v)"
proof -
  have f: "fits ty v" using assms(1,2) by (simp add: storable_def)
  have exact: "push_exact (CU64 b) v = None \<or> (\<exists>x. v = VUInt x)" "push_exact (CI64 b') v = None \<or> (\<exists>x. v = VInt x)" for b b'
    by (cases v; simp add: push_exact_def)+
  from stored_word [OF f assms] consider
    b x where "d = CU64 b" "as_u64 v = Some x" "raw_cell ty (CU64 [x]) 0 = Some v"
    | b x where "d = CI64 b" "as_i64 v = Some x" "raw_cell ty (CI64 [x]) 0 = Some v"
    | b x where "d = CF64 b" "v = VFloat x" | b x where "d = CStr b" "v = VStr x" by blast
  then show thesis
  proof cases
    case 1
    then show thesis using that [of "CU64 (b @ [x])"] exact(1) [of b]
      by (auto simp: push_exact_def push_coerced_def raw_cell_snoc cd_len_def cd_physical_def as_u64_def)
  next
    case 2
    then show thesis using that [of "CI64 (b @ [x])"] exact(2) [of b]
      by (auto simp: push_exact_def push_coerced_def raw_cell_snoc cd_len_def cd_physical_def as_i64_def)
  next
    case 3
    then show thesis using that [of "CF64 (b @ [x])"]
      by (simp add: push_exact_def raw_cell_snoc cd_len_def cd_physical_def) (simp add: raw_cell_def)
  next
    case 4
    then show thesis using that [of "CStr (b @ [x])"]
      by (simp add: push_exact_def raw_cell_snoc cd_len_def cd_physical_def) (simp add: raw_cell_def)
  qed
qed

lemma push_default_raw:
  "cd_len (push_default d) = Suc (cd_len d)" "cd_physical (push_default d) = cd_physical d"
  "k < cd_len d \<Longrightarrow> raw_cell ty (push_default d) k = raw_cell ty d k"
  by (cases d; simp add: push_default_def cd_len_def cd_physical_def raw_cell_snoc)+

lemma push_value_spec:
  assumes "col_wf c" "storable (col_ty c) v"
  obtains c' where "push_value ft c v = Inr c'" "col_ty c' = col_ty c" "col_wf c'" "cells c' = cells c @ [v]"
proof -
  have n: "mask_get (col_nulls c) i \<Longrightarrow> i < col_len c" for i using assms(1) by (simp add: col_wf_def col_is_null_def)
  have kind: "cd_physical (col_data c) = physical (col_ty c)" using assms(1) by (simp add: col_wf_def)
  show thesis
  proof (cases "v = VNull")
    case True
    let ?d = "push_default (col_data c)" and ?m = "Some (snd (bitset_set (nulls_or_new (col_nulls c)) (col_len c)))"
    let ?c = "\<lparr>col_ty = col_ty c, col_data = ?d, col_nulls = ?m\<rparr>"
    have "push_exact (col_data c) v = None" using True by (simp add: push_exact_def split: column_data.splits)
    then have "push_value ft c v = Inr ?c" using True by (simp add: push_value_def is_null_def column_update)
    moreover have "(if mask_get ?m k then Some VNull else raw_cell (col_ty c) ?d k) = Some ((cells c @ [v]) ! k)"
      if "k < Suc (col_len c)" for k
      using that cell_at [of k c] True push_default_raw(3) [of k "col_data c"]
      by (cases "k = col_len c") (auto simp: nth_append col_len_def split: if_splits)
    moreover have "i < Suc (col_len c)" if "mask_get ?m i" for i using that n [of i] by auto
    ultimately show thesis
      using that [of ?c] cells_column [of ?d "cells c @ [v]" "col_ty c" ?m] kind
      by (simp add: push_default_raw col_len_def)
  next
    case False
    obtain d where d: "push_exact (col_data c) v = Some d \<or> push_exact (col_data c) v = None \<and> push_coerced ft (col_data c) v = Inr d"
      "cd_len d = Suc (col_len c)" "cd_physical d = cd_physical (col_data c)"
      "\<And>k. k \<le> col_len c \<Longrightarrow> raw_cell (col_ty c) d k = (if k < col_len c then raw_cell (col_ty c) (col_data c) k else Some v)"
      using push_stored [OF assms(2) False kind] unfolding col_len_def by metis
    let ?c = "\<lparr>col_ty = col_ty c, col_data = d, col_nulls = col_nulls c\<rparr>"
    have "push_value ft c v = Inr ?c"
      using d(1) False by (cases v) (auto simp: push_value_def is_null_def column_update_data)
    moreover have "(if mask_get (col_nulls c) k then Some VNull else raw_cell (col_ty c) d k) = Some ((cells c @ [v]) ! k)"
      if "k < Suc (col_len c)" for k
      using that cell_at [of k c] n [of k] by (cases "k = col_len c") (auto simp: nth_append d(4) split: if_splits)
    ultimately show thesis
      using that [of ?c] cells_column [of d "cells c @ [v]" "col_ty c" "col_nulls c"] kind n less_SucI
      by (simp add: d(2,3))
  qed
qed

lemma set_stored:
  assumes "storable ty v" "v \<noteq> VNull" "cd_physical d = physical ty" "i < cd_len d"
  obtains d' where "set_coerced ft d i v = Inr (Some d')" "set_exact d i v = None \<or> set_exact d i v = Some (Some d')"
    "cd_len d' = cd_len d" "cd_physical d' = cd_physical d"
    "\<And>k. raw_cell ty d' k = (if k = i then Some v else raw_cell ty d k)"
proof -
  have f: "fits ty v" using assms(1,2) by (simp add: storable_def)
  have exact: "set_exact (CU64 b) i v = None \<or> (\<exists>x. v = VUInt x)" "set_exact (CI64 b') i v = None \<or> (\<exists>x. v = VInt x)" for b b'
    by (cases v; simp add: set_exact_def)+
  from stored_word [OF f assms(1-3)] consider
    b x where "d = CU64 b" "as_u64 v = Some x" "raw_cell ty (CU64 [x]) 0 = Some v"
    | b x where "d = CI64 b" "as_i64 v = Some x" "raw_cell ty (CI64 [x]) 0 = Some v"
    | b x where "d = CF64 b" "v = VFloat x" | b x where "d = CStr b" "v = VStr x" by blast
  then show thesis
  proof cases
    case 1
    then show thesis using that [of "CU64 (b[i := x])"] exact(1) [of b] assms(4)
      by (auto simp: set_exact_def set_coerced_def raw_cell_update cd_len_def cd_physical_def as_u64_def put_def)
  next
    case 2
    then show thesis using that [of "CI64 (b[i := x])"] exact(2) [of b] assms(4)
      by (auto simp: set_exact_def set_coerced_def raw_cell_update cd_len_def cd_physical_def as_i64_def put_def)
  next
    case 3
    then show thesis using that [of "CF64 (b[i := x])"] assms(4)
      by (simp add: set_exact_def set_coerced_def raw_cell_update cd_len_def cd_physical_def as_f64_def put_def) (simp add: raw_cell_def)
  next
    case 4
    then show thesis using that [of "CStr (b[i := x])"] assms(4)
      by (simp add: set_exact_def set_coerced_def raw_cell_update cd_len_def cd_physical_def str_text_def put_def) (simp add: raw_cell_def)
  qed
qed

lemma set_value_spec:
  assumes "col_wf c" "storable (col_ty c) v" "i < col_len c"
  obtains c' where "set_value ft c i v = Some (Inr (), c')" "col_ty c' = col_ty c" "col_wf c'" "cells c' = (cells c)[i := v]"
proof -
  note fin = that
  have n: "mask_get (col_nulls c) k \<Longrightarrow> k < col_len c" for k using assms(1) by (simp add: col_wf_def col_is_null_def)
  have kind: "cd_physical (col_data c) = physical (col_ty c)" using assms(1) by (simp add: col_wf_def)
  have ok: thesis if c': "set_value ft c i v = Some (Inr (), \<lparr>col_ty = col_ty c, col_data = d, col_nulls = m\<rparr>)"
    and len: "cd_len d = col_len c" and d: "cd_physical d = cd_physical (col_data c)"
    and at: "\<And>k. k < col_len c \<Longrightarrow>
      (if mask_get m k then Some VNull else raw_cell (col_ty c) d k) = (if k = i then Some v else Some (cells c ! k))"
    and m: "\<And>k. mask_get m k \<Longrightarrow> k < col_len c" for d m
    using fin [OF c'] cells_column [of d "(cells c)[i := v]" "col_ty c" m] kind len d at m by (simp add: nth_list_update)
  show thesis
  proof (cases "v = VNull")
    case True
    let ?m = "Some (snd (bitset_set (nulls_or_new (col_nulls c)) i))"
    have "set_exact (col_data c) i v = None" using True by (simp add: set_exact_def split: column_data.splits)
    then have "set_value ft c i v = Some (Inr (), \<lparr>col_ty = col_ty c, col_data = col_data c, col_nulls = ?m\<rparr>)"
      using True column_update [of ?m "col_data c" c] by (simp add: set_value_def is_null_def)
    then show thesis
    proof (rule ok)
      show "(if mask_get ?m k then Some VNull else raw_cell (col_ty c) (col_data c) k) =
          (if k = i then Some v else Some (cells c ! k))" if "k < col_len c" for k
        using cell_at [OF that] True by (simp split: if_splits)
      show "k < col_len c" if "mask_get ?m k" for k using that n [of k] assms(3) by auto
    qed (simp_all add: col_len_def)
  next
    case False
    let ?m = "map_option (\<lambda>b. snd (bitset_clear b i)) (col_nulls c)"
    obtain d where d: "set_coerced ft (col_data c) i v = Inr (Some d)"
      "set_exact (col_data c) i v = None \<or> set_exact (col_data c) i v = Some (Some d)"
      "cd_len d = col_len c" "cd_physical d = cd_physical (col_data c)"
      "\<And>k. raw_cell (col_ty c) d k = (if k = i then Some v else raw_cell (col_ty c) (col_data c) k)"
      using set_stored [OF assms(2) False kind] assms(3) unfolding col_len_def by metis
    have m: "mask_get ?m k \<longleftrightarrow> k \<noteq> i \<and> mask_get (col_nulls c) k" for k by (cases "col_nulls c") auto
    have "set_value ft c i v = Some (Inr (), \<lparr>col_ty = col_ty c, col_data = d, col_nulls = ?m\<rparr>)"
      using d(1,2) False column_update [of ?m d c]
      by (cases v; cases "col_nulls c") (auto simp: set_value_def is_null_def Let_def column_update_data)
    then show thesis
    proof (rule ok)
      show "(if mask_get ?m k then Some VNull else raw_cell (col_ty c) d k) =
          (if k = i then Some v else Some (cells c ! k))" if "k < col_len c" for k
        using cell_at [OF that] by (auto simp only: m d(5) split: if_splits)
    qed (use n d in \<open>auto simp: m\<close>)
  qed
qed

text \<open>The builder and the column push the same values, and the exact-type fast path changes nothing.\<close>

fun push_all :: "float_text \<Rightarrow> column \<Rightarrow> cell list \<Rightarrow> column result" where
  "push_all ft c [] = Inr c"
| "push_all ft c (v # vs) = rbind (push_value ft c v) (\<lambda>c. push_all ft c vs)"

fun builder_push_all :: "float_text \<Rightarrow> column_builder \<Rightarrow> cell list \<Rightarrow> column_builder result" where
  "builder_push_all ft b [] = Inr b"
| "builder_push_all ft b (v # vs) = rbind (builder_push_value ft b v) (\<lambda>b. builder_push_all ft b vs)"

definition builds :: "column_builder \<Rightarrow> column \<Rightarrow> bool" where
  "builds b c \<longleftrightarrow> b_ty b = col_ty c \<and> b_data b = col_data c \<and> b_len b = col_len c \<and>
     (\<forall>i. bitset_get (b_nulls b) i \<longleftrightarrow> col_is_null c i)"

lemma push_exact_coerced: "push_exact d v = Some d' \<Longrightarrow> push_coerced ft d v = Inr d' \<and> \<not> is_null v"
  by (cases d; cases v) (auto simp: push_exact_def push_coerced_def as_u64_def as_i64_def as_f64_def str_text_def is_null_def)

lemma push_coerced_len: "push_coerced ft d v = Inr d' \<Longrightarrow> cd_len d' = Suc (cd_len d)"
  by (cases d) (auto simp: push_coerced_def cd_len_def split: option.splits)

lemma builder_push_simulates:
  assumes "builds b c"
  shows "(\<exists>e. builder_push_value ft b v = Inl e \<and> push_value ft c v = Inl e)
    \<or> (\<exists>b' c'. builder_push_value ft b v = Inr b' \<and> push_value ft c v = Inr c' \<and> builds b' c')"
proof (cases "is_null v")
  case True
  then have "push_exact (col_data c) v = None" using push_exact_coerced [of "col_data c" v] by fastforce
  with True assms show ?thesis
    by (auto simp: builder_push_value_def push_value_def builder_push_null_def builds_def col_len_def push_default_raw
        col_is_null_def column_update)
next
  case False
  show ?thesis
  proof (cases "push_coerced ft (col_data c) v")
    case (Inl e)
    then have "push_exact (col_data c) v = None" using push_exact_coerced [of "col_data c" v _ ft] by fastforce
    with Inl False assms show ?thesis by (simp add: builder_push_value_def push_value_def builds_def)
  next
    case (Inr d)
    then have "push_value ft c v = Inr (c\<lparr>col_data := d\<rparr>)"
      using push_exact_coerced [of "col_data c" v _ ft] False by (cases "push_exact (col_data c) v") (auto simp: push_value_def)
    with Inr False assms push_coerced_len [OF Inr] show ?thesis
      by (simp add: builder_push_value_def builds_def col_len_def col_is_null_def)
  qed
qed

lemma builds_finish: "builds b c \<Longrightarrow> cells (builder_finish b) = cells c"
proof -
  assume b: "builds b c"
  have "mask_get (if bitset_is_empty n then None else Some n) i = bitset_get n i" for n i
    by (auto simp: bitset_is_empty_iff bits_of_def)
  with b have "col_value (builder_finish b) i = col_value c i" "col_len (builder_finish b) = col_len c" for i
    by (simp_all add: builds_def builder_finish_def col_value_def col_is_null_def col_len_def)
  then show ?thesis by (simp add: cells_def)
qed

section \<open>The interface of a column and the blocks built on it\<close>

text \<open>A column of type \<open>ty\<close> that reads as the cells \<open>vs\<close>.\<close>

definition represents :: "column \<Rightarrow> data_type \<Rightarrow> cell list \<Rightarrow> bool" where
  "represents c ty vs \<longleftrightarrow> col_wf c \<and> col_ty c = ty \<and> cells c = vs"

locale cell_column =
  fixes rep :: "'c \<Rightarrow> 't \<Rightarrow> 'v list \<Rightarrow> bool"
    and gather :: "'c \<Rightarrow> nat list \<Rightarrow> 'c option"
    and range :: "'c \<Rightarrow> nat \<Rightarrow> nat \<Rightarrow> 'c option"
    and concat2 :: "'c \<Rightarrow> 'c \<Rightarrow> 'e + 'c"
  assumes gather_rep: "rep c t vs \<Longrightarrow> (\<forall>i \<in> set idx. i < length vs) \<Longrightarrow>
      \<exists>c'. gather c idx = Some c' \<and> rep c' t (map ((!) vs) idx)"
    and range_rep: "rep c t vs \<Longrightarrow> s \<le> e \<Longrightarrow> e \<le> length vs \<Longrightarrow>
      \<exists>c'. range c s e = Some c' \<and> rep c' t (slice vs s e)"
    and concat2_rep: "rep c t vs \<Longrightarrow> rep d t ws \<Longrightarrow> \<exists>c'. concat2 c d = Inr c' \<and> rep c' t (vs @ ws)"
begin

text \<open>A table: columns with their types and contents, side by side, all \<open>n\<close> long.\<close>

definition table :: "'c list \<Rightarrow> 't list \<Rightarrow> 'v list list \<Rightarrow> nat \<Rightarrow> bool" where
  "table cs ts vss n \<longleftrightarrow> length ts = length cs \<and> length vss = length cs \<and>
     (\<forall>k < length cs. rep (cs ! k) (ts ! k) (vss ! k) \<and> length (vss ! k) = n)"

lemma table_Nil [simp]: "table [] ts vss n \<longleftrightarrow> ts = [] \<and> vss = []"
  by (auto simp: table_def)

lemma table_no_types [simp]: "table cs [] vss n \<longleftrightarrow> cs = [] \<and> vss = []"
  by (auto simp: table_def)

lemma table_Cons: "table (c # cs) ts vss n \<longleftrightarrow>
    (\<exists>t ts' vs vss'. ts = t # ts' \<and> vss = vs # vss' \<and> rep c t vs \<and> length vs = n \<and> table cs ts' vss' n)"
proof (cases ts; cases vss)
  fix t ts' vs vss' assume "ts = t # ts'" "vss = vs # vss'"
  then show ?thesis by (auto simp: table_def less_Suc_eq_0_disj)
qed (auto simp: table_def)

lemma table_gather:
  assumes "table cs ts vss n" "\<forall>i \<in> set idx. i < n"
  shows "\<exists>cs'. those (map (\<lambda>c. gather c idx) cs) = Some cs' \<and>
    table cs' ts (map (\<lambda>vs. map ((!) vs) idx) vss) (length idx)"
  using assms(1)
proof (induction cs arbitrary: ts vss)
  case (Cons c cs)
  then obtain t ts' vs vss' where t: "ts = t # ts'" "vss = vs # vss'" "rep c t vs" "length vs = n" "table cs ts' vss' n"
    by (auto simp: table_Cons)
  from gather_rep [OF t(3)] t(4) assms(2) obtain c' where "gather c idx = Some c'" "rep c' t (map ((!) vs) idx)" by blast
  with Cons.IH [OF t(5)] t show ?case by (auto simp: table_Cons)
qed simp

lemma table_range:
  assumes "table cs ts vss n" "s \<le> e" "e \<le> n"
  shows "\<exists>cs'. those (map (\<lambda>c. range c s e) cs) = Some cs' \<and> table cs' ts (map (\<lambda>vs. slice vs s e) vss) (e - s)"
  using assms(1)
proof (induction cs arbitrary: ts vss)
  case (Cons c cs)
  then obtain t ts' vs vss' where t: "ts = t # ts'" "vss = vs # vss'" "rep c t vs" "length vs = n" "table cs ts' vss' n"
    by (auto simp: table_Cons)
  from range_rep [OF t(3)] t(4) assms(2,3) obtain c' where "range c s e = Some c'" "rep c' t (slice vs s e)" by blast
  with Cons.IH [OF t(5)] t assms(2,3) show ?case by (auto simp: table_Cons)
qed simp

end

interpretation block_columns: cell_column represents col_take col_slice col_extend
proof unfold_locales
  show "\<exists>c'. col_take c idx = Some c' \<and> represents c' t (map ((!) vs) idx)"
    if "represents c t vs" "\<forall>i \<in> set idx. i < length vs" for c t vs idx
  proof -
    have "\<forall>i \<in> set idx. i < col_len c" using that by (auto simp: represents_def)
    then show ?thesis using that col_take_spec [of c idx] unfolding represents_def by metis
  qed
  show "\<exists>c'. col_slice c s e = Some c' \<and> represents c' t (slice vs s e)"
    if "represents c t vs" "s \<le> e" "e \<le> length vs" for c t vs s e
  proof -
    have "e \<le> col_len c" using that by (auto simp: represents_def)
    then show ?thesis using that col_slice_spec [of c s e] unfolding represents_def by metis
  qed
  show "\<exists>c'. col_extend c d = Inr c' \<and> represents c' t (vs @ ws)"
    if "represents c t vs" "represents d t ws" for c d t vs ws
    using that col_extend_spec [of c d] unfolding represents_def by metis
qed

text \<open>The rows of a block whose columns read as \<open>vss\<close>, one list of cells per row.\<close>

definition rows_of :: "cell list list \<Rightarrow> nat \<Rightarrow> cell list list" where
  "rows_of vss n = map (\<lambda>i. map (\<lambda>vs. vs ! i) vss) [0..<n]"

definition block_holds :: "block \<Rightarrow> data_type list \<Rightarrow> cell list list \<Rightarrow> bool" where
  "block_holds b tys rs \<longleftrightarrow> (\<exists>vss. block_columns.table (blk_columns b) tys vss (blk_rows b) \<and> rs = rows_of vss (blk_rows b))"

lemma length_rows_of [simp]: "length (rows_of vss n) = n"
  by (simp add: rows_of_def)

lemma rows_of_nth: "i < n \<Longrightarrow> rows_of vss n ! i = map (\<lambda>vs. vs ! i) vss"
  by (simp add: rows_of_def)

lemma table_lengths:
  assumes "block_columns.table cs ts vss n" "vs \<in> set vss"
  shows "length vs = n"
  using assms unfolding block_columns.table_def by (metis in_set_conv_nth)

text \<open>Columns of one height make a block of their rows.\<close>

lemma block_new_holds:
  assumes "outs \<noteq> []" "length tys = length outs" "\<And>k. k < length outs \<Longrightarrow> represents (outs ! k) (tys ! k) (map (f k) rows)"
  shows "\<exists>b. block_new outs = Inr b \<and> block_holds b tys (map (\<lambda>r. map (\<lambda>k. f k r) [0..<length outs]) rows)"
proof -
  let ?n = "length rows" and ?vss = "map (\<lambda>k. map (f k) rows) [0..<length outs]"
  let ?b = "\<lparr>blk_columns = outs, blk_rows = ?n\<rparr>"
  have len: "col_len (outs ! k) = ?n" if "k < length outs" for k
    using assms(3) [OF that] length_cells [of "outs ! k"] by (simp add: represents_def)
  have "(case outs of [] \<Rightarrow> 0 | c # _ \<Rightarrow> col_len c) = ?n" using len [of 0] assms(1) by (cases outs) auto
  then have "block_new outs = Inr ?b" using len by (auto simp: block_new_def Let_def list_all_length)
  moreover have "block_columns.table outs tys ?vss ?n" unfolding block_columns.table_def using assms(2,3) by simp
  moreover have "map (\<lambda>r. map (\<lambda>k. f k r) [0..<length outs]) rows = rows_of ?vss ?n"
    by (intro nth_equalityI) (auto simp: rows_of_nth intro!: nth_equalityI)
  ultimately show ?thesis by (auto simp: block_holds_def)
qed

lemma block_take_rows:
  assumes "block_holds b tys rs" "\<forall>i \<in> set idx. i < length rs"
  shows "\<exists>b'. block_take b idx = Some b' \<and> block_holds b' tys (map ((!) rs) idx)"
proof -
  obtain vss where v: "block_columns.table (blk_columns b) tys vss (blk_rows b)" "rs = rows_of vss (blk_rows b)"
    using assms(1) by (auto simp: block_holds_def)
  with assms(2) have lt: "\<forall>i \<in> set idx. i < blk_rows b" by simp
  have eq: "map ((!) rs) idx = rows_of (map (\<lambda>vs. map ((!) vs) idx) vss) (length idx)"
    using lt by (intro nth_equalityI) (simp_all add: v(2) rows_of_nth)
  show ?thesis
    using block_columns.table_gather [OF v(1) lt] unfolding block_take_def block_holds_def eq by fastforce
qed

lemma block_slice_rows:
  assumes "block_holds b tys rs"
  shows "\<exists>b'. block_slice b s e = Some b' \<and> block_holds b' tys (slice rs s e)"
proof -
  obtain vss where v: "block_columns.table (blk_columns b) tys vss (blk_rows b)" "rs = rows_of vss (blk_rows b)"
    using assms by (auto simp: block_holds_def)
  define e' where "e' = min e (blk_rows b)"
  define s' where "s' = min s e'"
  have "s' \<le> e'" by (simp add: s'_def)
  moreover have "e' \<le> blk_rows b" by (simp add: e'_def)
  ultimately have se: "s' \<le> e'" "e' \<le> blk_rows b" by simp_all
  have "slice rs s e = slice rs s' e'"
  proof (rule nth_equalityI)
    show "length (slice rs s e) = length (slice rs s' e')" by (auto simp: s'_def e'_def v(2))
    show "slice rs s e ! i = slice rs s' e' ! i" if i: "i < length (slice rs s e)" for i
    proof -
      from i have *: "s + i < e" "s + i < blk_rows b" by (auto simp: v(2))
      then have **: "s' = s" "s + i < e'" by (auto simp: s'_def e'_def)
      with * have "i < e - s" "i < e' - s'" "s + i < length rs" "s' + i < length rs" by (auto simp: v(2))
      with ** show ?thesis by (simp add: slice_nth)
    qed
  qed
  also have "\<dots> = rows_of (map (\<lambda>vs. slice vs s' e') vss) (e' - s')"
  proof (rule nth_equalityI)
    show "length (slice rs s' e') = length (rows_of (map (\<lambda>vs. slice vs s' e') vss) (e' - s'))" using se by (simp add: v(2))
    show "slice rs s' e' ! i = rows_of (map (\<lambda>vs. slice vs s' e') vss) (e' - s') ! i" if "i < length (slice rs s' e')" for i
    proof -
      from that have i: "i < e' - s'" "s' + i < blk_rows b" by (auto simp: v(2))
      then have "slice vs s' e' ! i = vs ! (s' + i)" if "vs \<in> set vss" for vs
        using table_lengths [OF v(1) that] by (simp add: slice_nth)
      with i show ?thesis by (simp add: slice_nth v(2) rows_of_nth)
    qed
  qed
  finally have eq: "slice rs s e = rows_of (map (\<lambda>vs. slice vs s' e') vss) (e' - s')" .
  show ?thesis
    using block_columns.table_range [OF v(1) se]
    unfolding block_slice_def block_holds_def eq Let_def e'_def [symmetric] s'_def [symmetric] by fastforce
qed

lemma filter_mask_rows:
  assumes "block_holds b tys rs" "length rs < 2 ^ 32"
  shows "\<exists>b'. filter_mask b m = Some b' \<and> block_holds b' tys (nths rs (bits_of m))"
proof -
  have n: "blk_rows b = length rs" using assms(1) by (auto simp: block_holds_def)
  have "zip rs [0..<length rs] = map (\<lambda>i. (rs ! i, i)) [0..<length rs]" by (intro nth_equalityI) simp_all
  then have "nths rs (bits_of m) = map ((!) rs) (filter (bitset_get m) [0..<length rs])"
    by (simp add: nths_def filter_map comp_def)
  then show ?thesis
    using block_take_rows [OF assms(1), of "filter (bitset_get m) [0..<length rs]"] assms(2)
    by (simp add: filter_mask_def n unat_of_nat_u32)
qed

lemma extend_columns_table:
  "block_columns.table cs ts vss n \<Longrightarrow> block_columns.table ds ts wss k \<Longrightarrow>
   \<exists>cs'. extend_columns cs ds = (Inr (), cs') \<and> block_columns.table cs' ts (map2 (@) vss wss) (n + k)"
proof (induction cs ds arbitrary: ts vss wss rule: extend_columns.induct)
  case (1 a as b bs)
  then obtain t ts' vs vss' ws wss' where t: "ts = t # ts'" "vss = vs # vss'" "wss = ws # wss'" "represents a t vs"
    "represents b t ws" "length vs = n" "length ws = k" "block_columns.table as ts' vss' n" "block_columns.table bs ts' wss' k"
    by (auto simp: block_columns.table_Cons)
  from block_columns.concat2_rep [OF t(4,5)] obtain c where c: "col_extend a b = Inr c" "represents c t (vs @ ws)" by blast
  from "1.IH" [OF c(1) t(8,9)] c t show ?case by (auto simp: block_columns.table_Cons)
qed (auto simp: block_columns.table_Cons)

lemma block_extend_rows:
  assumes "block_holds b tys rs" "block_holds d tys ss" "tys \<noteq> []"
  shows "\<exists>b'. block_extend b d = (Inr (), b') \<and> block_holds b' tys (rs @ ss)"
proof -
  obtain vss wss where v: "block_columns.table (blk_columns b) tys vss (blk_rows b)" "rs = rows_of vss (blk_rows b)"
    and w: "block_columns.table (blk_columns d) tys wss (blk_rows d)" "ss = rows_of wss (blk_rows d)"
    using assms(1,2) by (auto simp: block_holds_def)
  have len: "length (blk_columns b) = length tys" "length (blk_columns d) = length tys" "length vss = length tys" "length wss = length tys"
    using v(1) w(1) by (simp_all add: block_columns.table_def)
  from extend_columns_table [OF v(1) w(1)] obtain cs where cs: "extend_columns (blk_columns b) (blk_columns d) = (Inr (), cs)"
    "block_columns.table cs tys (map2 (@) vss wss) (blk_rows b + blk_rows d)" by blast
  have "(rs @ ss) ! i = rows_of (map2 (@) vss wss) (blk_rows b + blk_rows d) ! i" if i: "i < blk_rows b + blk_rows d" for i
  proof -
    have "(rs @ ss) ! i = map (\<lambda>k. if i < blk_rows b then vss ! k ! i else wss ! k ! (i - blk_rows b)) [0..<length tys]"
      using i len by (auto simp: v(2) w(2) nth_append rows_of_nth intro!: nth_equalityI)
    also have "\<dots> = map (\<lambda>vs. vs ! i) (map2 (@) vss wss)"
      using len table_lengths [OF v(1)] by (auto simp: nth_append intro!: nth_equalityI)
    finally show ?thesis using i by (simp add: rows_of_nth)
  qed
  then have "rs @ ss = rows_of (map2 (@) vss wss) (blk_rows b + blk_rows d)"
    by (intro nth_equalityI) (simp_all add: v(2) w(2))
  with cs len assms(3) show ?thesis unfolding block_extend_def block_holds_def block_width_def by auto
qed

section \<open>Properties\<close>

text \<open>C33: A column is a list of cells. Under the invariant (the buffer has the kind of the declared type and the null mask names only rows that exist)
  a gather by row numbers, a slice, a concatenation, a push and an overwrite are the list operations, they
  keep the type and the invariant, and a value that fits the column is read back as it was written; a row number
  or a range out of bounds panics.\<close>

theorem column_refines_list:
  assumes "represents c ty vs"
  shows "(if \<forall>i \<in> set idx. i < length vs then \<exists>c'. col_take c idx = Some c' \<and> represents c' ty (map ((!) vs) idx)
      else col_take c idx = None)
    \<and> (if s \<le> e \<and> e \<le> length vs then \<exists>c'. col_slice c s e = Some c' \<and> represents c' ty (slice vs s e)
       else col_slice c s e = None)
    \<and> (represents d ty ws \<longrightarrow> (\<exists>c'. col_extend c d = Inr c' \<and> represents c' ty (vs @ ws)))
    \<and> (storable ty v \<longrightarrow> (\<exists>c'. push_value ft c v = Inr c' \<and> represents c' ty (vs @ [v])))
    \<and> (storable ty v \<longrightarrow> i < length vs \<longrightarrow>
        (\<exists>c'. set_value ft c i v = Some (Inr (), c') \<and> represents c' ty (vs[i := v])))"
proof (intro conjI impI)
  have c: "col_wf c" "col_ty c = ty" "cells c = vs" "col_len c = length vs" using assms by (auto simp: represents_def)
  show "if \<forall>i \<in> set idx. i < length vs then \<exists>c'. col_take c idx = Some c' \<and> represents c' ty (map ((!) vs) idx)
      else col_take c idx = None"
    using block_columns.gather_rep [OF assms, of idx] c(4)
    by (auto simp: col_take_def cd_take_None col_len_def not_less)
  show "if s \<le> e \<and> e \<le> length vs then \<exists>c'. col_slice c s e = Some c' \<and> represents c' ty (slice vs s e)
      else col_slice c s e = None"
    using block_columns.range_rep [OF assms, of s e] c(4) by (auto simp: col_slice_def cd_slice_None col_len_def not_le)
  show "\<exists>c'. col_extend c d = Inr c' \<and> represents c' ty (vs @ ws)" if "represents d ty ws"
    using block_columns.concat2_rep [OF assms that] .
  show "\<exists>c'. push_value ft c v = Inr c' \<and> represents c' ty (vs @ [v])" if "storable ty v"
    using push_value_spec [of c v ft] that c unfolding represents_def by metis
  show "\<exists>c'. set_value ft c i v = Some (Inr (), c') \<and> represents c' ty (vs[i := v])"
    if "storable ty v" "i < length vs"
    using set_value_spec [of c v i ft] that c unfolding represents_def by metis
qed

lemma represents_example: "represents (col_new Int64 (CI64 [5, 7])) Int64 [VInt 5, VInt 7]"
  by (simp add: represents_def col_wf_def col_new_def cells_def col_value_def col_is_null_def cd_physical_def col_len_def
      cd_len_def raw_cell_def at_def)

theorem column_refines_list_witness:
  "(\<exists>c'. col_take (col_new Int64 (CI64 [5, 7])) [1, 1] = Some c' \<and> represents c' Int64 [VInt 7, VInt 7])
    \<and> col_slice (col_new Int64 (CI64 [5, 7])) 1 3 = None"
  using column_refines_list [OF represents_example, of "[1, 1]" 1 3] by simp

text \<open>The incremental builder and the live column coerce alike: pushing the same values one after the other
  either fails with the same error in both, or ends in columns that read as the same cells. The exact-type
  shortcut of the live column is therefore only a shortcut.\<close>

theorem builder_equals_pushes:
  "case (builder_push_all ft (builder_new ty) vs, push_all ft (col_new ty (for_physical (physical ty))) vs) of
     (Inr b, Inr c) \<Rightarrow> cells (builder_finish b) = cells c
   | (Inl e, Inl e') \<Rightarrow> e = e'
   | _ \<Rightarrow> False"
proof -
  have "case (builder_push_all ft b vs, push_all ft c vs) of
      (Inr b, Inr c) \<Rightarrow> builds b c | (Inl e, Inl e') \<Rightarrow> e = e' | _ \<Rightarrow> False" if "builds b c" for b c
    using that
  proof (induction vs arbitrary: b c)
    case (Cons v vs)
    from builder_push_simulates [OF Cons.prems, of ft v] consider
      e where "builder_push_value ft b v = Inl e" "push_value ft c v = Inl e"
      | b' c' where "builder_push_value ft b v = Inr b'" "push_value ft c v = Inr c'" "builds b' c'" by blast
    then show ?case
    proof cases
      case 2
      then show ?thesis using Cons.IH [OF 2(3)] by simp
    qed simp
  qed simp
  moreover have "builds (builder_new ty) (col_new ty (for_physical (physical ty)))"
    using bitset.mem_empty
    by (simp add: builds_def builder_new_def col_new_def col_len_def cd_len_def for_physical_def col_is_null_def
        split: physical_type.split)
  ultimately have "case (builder_push_all ft (builder_new ty) vs, push_all ft (col_new ty (for_physical (physical ty))) vs) of
      (Inr b, Inr c) \<Rightarrow> builds b c | (Inl e, Inl e') \<Rightarrow> e = e' | _ \<Rightarrow> False" .
  then show ?thesis using builds_finish by (auto split: sum.splits)
qed

text \<open>Blocks work row by row: on a block that holds the rows \<open>rs\<close>, a gather takes the named rows, a slice (cut
  to the block) the rows of the range, a filter the rows whose mask bit is set, and an extension by a block of
  the same types appends its rows; the result is a block of the same types again.\<close>

theorem block_rowwise:
  assumes "block_holds b tys rs"
  shows "((\<forall>i \<in> set idx. i < length rs) \<longrightarrow>
       (\<exists>b'. block_take b idx = Some b' \<and> block_holds b' tys (map ((!) rs) idx)))
    \<and> (\<exists>b'. block_slice b s e = Some b' \<and> block_holds b' tys (slice rs s e))
    \<and> (length rs < 2 ^ 32 \<longrightarrow> (\<exists>b'. filter_mask b m = Some b' \<and> block_holds b' tys (nths rs (bits_of m))))
    \<and> (tys \<noteq> [] \<and> block_holds d tys ss \<longrightarrow> (\<exists>b'. block_extend b d = (Inr (), b') \<and> block_holds b' tys (rs @ ss)))"
  using block_take_rows [OF assms] block_slice_rows [OF assms] filter_mask_rows [OF assms] block_extend_rows [OF assms]
  by blast

theorem block_rowwise_witness:
  "\<exists>b'. block_slice \<lparr>blk_columns = [col_new Int64 (CI64 [5, 7])], blk_rows = 2\<rparr> 1 9 = Some b' \<and> block_holds b' [Int64] [[VInt 7]]"
proof -
  let ?b = "\<lparr>blk_columns = [col_new Int64 (CI64 [5, 7])], blk_rows = 2\<rparr>"
  have "block_columns.table (blk_columns ?b) [Int64] [[VInt 5, VInt 7]] (blk_rows ?b)"
    using represents_example by (simp add: block_columns.table_Cons)
  moreover have "rows_of [[VInt 5, VInt 7]] 2 = [[VInt 5], [VInt 7]]" by (simp add: rows_of_def upt_rec)
  ultimately have "block_holds ?b [Int64] [[VInt 5], [VInt 7]]" by (auto simp: block_holds_def)
  then show ?thesis using block_rowwise [of ?b "[Int64]" "[[VInt 5], [VInt 7]]" "[]" 1 9] by (simp add: slice_def)
qed

end
