(* ===== verification/Packed_Column.thy ===== *)
theory Packed_Column
  imports Column_Block Bitpack String_Dict
begin

text \<open>
  One column of one granule, compressed, \<^verbatim>\<open>src/storage/column.rs\<close>: the lanes bit-packed against their minimum,
  the string dictionary, the null mask and the exact maximum. Shown, for a column of at most \<open>2 ^ 26\<close> rows (the
  bound of the packed reader; a granule has far fewer): decoding, gathering and the appending forms return the
  cells that were packed, up to the canonical form of doubles; the zone bounds are attained and enclose every
  live row under the ordering of values; and a literal translated to a lane selects exactly the equal rows.
  Building never fails, so its \<open>Result\<close> is dropped; the reused scratch buffer of \<open>decode_append\<close> is left out.
\<close>

section \<open>Definitions\<close>

record packed_column =
  pc_ty :: data_type
  pc_lanes :: packed_u64
  pc_dict :: "string_dict option"
  pc_nulls :: "bitset option"
  pc_max_lane :: u64
  pc_len :: nat

definition raw_lanes :: "column_data \<Rightarrow> u64 list \<times> string_dict option" where
  "raw_lanes d = (case d of
     CU64 v \<Rightarrow> (v, None)
   | CI64 v \<Rightarrow> (map i64_to_lane v, None)
   | CF64 v \<Rightarrow> (map f64_to_lane v, None)
   | CStr v \<Rightarrow> let (dict, codes) = encode v in (codes, Some dict))"

text \<open>\<open>iter().min()\<close> and \<open>iter().max()\<close>.\<close>

definition iter_min :: "u64 list \<Rightarrow> u64 option" where
  "iter_min xs = (case xs of [] \<Rightarrow> None | x # r \<Rightarrow> Some (fold min r x))"

definition iter_max :: "u64 list \<Rightarrow> u64 option" where
  "iter_max xs = (case xs of [] \<Rightarrow> None | x # r \<Rightarrow> Some (fold max r x))"

definition pc_build :: "column \<Rightarrow> packed_column" where
  "pc_build c =
     (let (lanes, dict) = raw_lanes (col_data c)
      in \<lparr>pc_ty = col_ty c, pc_lanes = pack lanes, pc_dict = dict, pc_nulls = col_nulls c,
          pc_max_lane = (case iter_max lanes of Some m \<Rightarrow> m | None \<Rightarrow> 0), pc_len = col_len c\<rparr>)"

definition pc_from_parts ::
  "data_type \<Rightarrow> packed_u64 \<Rightarrow> string_dict option \<Rightarrow> bitset option \<Rightarrow> u64 \<Rightarrow> nat \<Rightarrow> packed_column" where
  "pc_from_parts ty lanes dict nulls max_lane len =
     \<lparr>pc_ty = ty, pc_lanes = lanes, pc_dict = dict, pc_nulls = nulls, pc_max_lane = max_lane, pc_len = len\<rparr>"

definition pc_lane :: "packed_column \<Rightarrow> nat \<Rightarrow> u64" where
  "pc_lane pc i = packed_get (pc_lanes pc) i"

definition pc_is_null :: "packed_column \<Rightarrow> nat \<Rightarrow> bool" where
  "pc_is_null pc i = mask_get (pc_nulls pc) i"

definition lane_to_value :: "packed_column \<Rightarrow> u64 \<Rightarrow> cell option" where
  "lane_to_value pc lane = (case base (pc_ty pc) of
     Bool \<Rightarrow> Some (VBool (lane \<noteq> 0))
   | Date \<Rightarrow> Some (VDate (ucast lane))
   | DateTime \<Rightarrow> Some (case physical (pc_ty pc) of I64 \<Rightarrow> VDateTime (lane_to_i64 lane) | _ \<Rightarrow> VDateTime lane)
   | Decimal64 s \<Rightarrow> Some (VDecimal (lane_to_i64 lane) s)
   | _ \<Rightarrow> (case physical (pc_ty pc) of
        U64 \<Rightarrow> Some (VUInt lane)
      | I64 \<Rightarrow> Some (VInt (lane_to_i64 lane))
      | F64 \<Rightarrow> Some (VFloat (lane_to_f64 lane))
      | Str \<Rightarrow> (case pc_dict pc of None \<Rightarrow> Some (VStr []) | Some d \<Rightarrow> map_option VStr (dict_get d lane))))"

definition pc_value :: "packed_column \<Rightarrow> nat \<Rightarrow> cell option" where
  "pc_value pc i = (if pc_is_null pc i then Some VNull else lane_to_value pc (packed_get (pc_lanes pc) i))"

definition live_lanes :: "packed_column \<Rightarrow> bitset \<Rightarrow> u64 list" where
  "live_lanes pc n = map (packed_get (pc_lanes pc)) (filter (\<lambda>i. \<not> bitset_get n i) [0..<pc_len pc])"

definition min_lane_live :: "packed_column \<Rightarrow> u64 option" where
  "min_lane_live pc = (case pc_nulls pc of
     None \<Rightarrow> if pc_len pc \<noteq> 0 then Some (p_base (pc_lanes pc)) else None
   | Some n \<Rightarrow> iter_min (live_lanes pc n))"

definition max_lane_live :: "packed_column \<Rightarrow> u64 option" where
  "max_lane_live pc = (case pc_nulls pc of
     None \<Rightarrow> if pc_len pc \<noteq> 0 then Some (pc_max_lane pc) else None
   | Some n \<Rightarrow> iter_max (live_lanes pc n))"

definition min_value :: "packed_column \<Rightarrow> cell option" where
  "min_value pc = (case min_lane_live pc of None \<Rightarrow> Some VNull | Some l \<Rightarrow> lane_to_value pc l)"

definition max_value :: "packed_column \<Rightarrow> cell option" where
  "max_value pc = (case max_lane_live pc of None \<Rightarrow> Some VNull | Some l \<Rightarrow> lane_to_value pc l)"

text \<open>The table of distinct strings, and a row's string in it.\<close>

definition dict_table :: "packed_column \<Rightarrow> bytes list option" where
  "dict_table pc =
     (let d = (case pc_dict pc of Some d \<Rightarrow> d | None \<Rightarrow> dict_empty)
      in those (map (\<lambda>i. dict_get d (of_nat i)) [0..<dict_len d]))"

definition table_str :: "bytes list \<Rightarrow> u64 \<Rightarrow> bytes" where
  "table_str t c = (if unat c < length t then t ! unat c else [])"

definition decode_lanes :: "packed_column \<Rightarrow> u64 list \<Rightarrow> column_data option" where
  "decode_lanes pc lanes = (case physical (pc_ty pc) of
     U64 \<Rightarrow> Some (CU64 lanes)
   | I64 \<Rightarrow> Some (CI64 (map lane_to_i64 lanes))
   | F64 \<Rightarrow> Some (CF64 (map lane_to_f64 lanes))
   | Str \<Rightarrow> map_option (\<lambda>t. CStr (map (table_str t) lanes)) (dict_table pc))"

definition pc_decode :: "packed_column \<Rightarrow> nat \<Rightarrow> nat \<Rightarrow> column option" where
  "pc_decode pc s e = map_option (\<lambda>d.
     \<lparr>col_ty = pc_ty pc, col_data = d,
      col_nulls = keep_nulls (map_option (\<lambda>n. mask_slice n s e 0 bitset_new) (pc_nulls pc))\<rparr>)
     (decode_lanes pc (unpack_range (pc_lanes pc) s e))"

definition pc_gather :: "packed_column \<Rightarrow> nat list \<Rightarrow> column option" where
  "pc_gather pc rows = map_option (\<lambda>d.
     \<lparr>col_ty = pc_ty pc, col_data = d,
      col_nulls = keep_nulls (map_option (\<lambda>n. mask_gather n rows 0 bitset_new) (pc_nulls pc))\<rparr>)
     (decode_lanes pc (map (packed_get (pc_lanes pc)) rows))"

text \<open>The appending forms go by the kind of the output buffer; the signed one flips the sign bit in place.\<close>

definition append_lanes :: "packed_column \<Rightarrow> column_data \<Rightarrow> u64 list \<Rightarrow> column_data option" where
  "append_lanes pc out lanes = (case out of
     CU64 v \<Rightarrow> Some (CU64 (v @ lanes))
   | CI64 v \<Rightarrow> Some (CI64 (v @ map (\<lambda>x. x XOR push_bit 63 1) lanes))
   | CF64 v \<Rightarrow> Some (CF64 (v @ map lane_to_f64 lanes))
   | CStr v \<Rightarrow> map_option (\<lambda>t. CStr (v @ map (table_str t) lanes)) (dict_table pc))"

definition decode_append :: "packed_column \<Rightarrow> nat \<Rightarrow> nat \<Rightarrow> column \<Rightarrow> column option" where
  "decode_append pc s e out = map_option (\<lambda>d.
     out\<lparr>col_data := d,
         col_nulls := (case pc_nulls pc of
            None \<Rightarrow> col_nulls out
          | Some n \<Rightarrow> Some (mask_slice n s e (col_len out) (nulls_or_new (col_nulls out))))\<rparr>)
     (append_lanes pc (col_data out) (unpack_range (pc_lanes pc) s e))"

definition gather_append :: "packed_column \<Rightarrow> nat list \<Rightarrow> column \<Rightarrow> column option" where
  "gather_append pc rows out = map_option (\<lambda>d.
     out\<lparr>col_data := d,
         col_nulls := (case pc_nulls pc of
            None \<Rightarrow> col_nulls out
          | Some n \<Rightarrow> Some (mask_gather n rows (col_len out) (nulls_or_new (col_nulls out))))\<rparr>)
     (append_lanes pc (col_data out) (map (packed_get (pc_lanes pc)) rows))"

text \<open>The outer option is a panic of the dictionary search.\<close>

definition lane_for :: "float_text \<Rightarrow> packed_column \<Rightarrow> cell \<Rightarrow> u64 option result option" where
  "lane_for ft pc v =
     (if is_null v then Some (Inr None)
      else (case physical (pc_ty pc) of
        Str \<Rightarrow> (case pc_dict pc of
            None \<Rightarrow> Some (Inr None)
          | Some d \<Rightarrow> map_option Inr (lookup d (str_text ft v)))
      | _ \<Rightarrow> Some (rbind (to_lane ft v (pc_ty pc)) (\<lambda>l. Inr (Some l)))))"

definition pc_data_bytes :: "packed_column \<Rightarrow> nat" where
  "pc_data_bytes pc =
     packed_bytes (pc_lanes pc) + (case pc_dict pc of None \<Rightarrow> 0 | Some d \<Rightarrow> dict_bytes d)
     + (case pc_nulls pc of None \<Rightarrow> 0 | Some n \<Rightarrow> bitset_bytes n)"

definition build_granule_columns :: "block \<Rightarrow> nat \<Rightarrow> nat \<Rightarrow> packed_column list option" where
  "build_granule_columns b s e =
     those (map (\<lambda>c. map_option pc_build (col_slice c s e)) (blk_columns b))"


section \<open>Decoding returns what was packed\<close>

text \<open>The canonical form of a double: one NaN, one zero.\<close>

definition f64_canon :: "f64 \<Rightarrow> f64" where
  "f64_canon f = (if f64_is_nan f then 0x7FFFFFFFFFFFFFFF else if f = SIGN then 0 else f)"

lemma lane_f64_canon: "lane_to_f64 (f64_to_lane f) = f64_canon f"
proof (cases "f64_is_nan f")
  case True
  then show ?thesis by (simp add: f64_canon_def f64_to_lane_def NAN_LANE_def lane_to_f64_def SIGN_def)
next
  case False
  then show ?thesis using lane_f64_roundtrip [of f] lane_f64_canonical(2) by (simp add: f64_canon_def)
qed

lemma f64_to_lane_canon: "f64_to_lane (f64_canon f) = f64_to_lane f"
proof -
  have nan: "f64_is_nan 0x7FFFFFFFFFFFFFFF" by (simp add: f64_is_nan_def f64_mag_def SIGN_def)
  have zero: "f64_to_lane SIGN = f64_to_lane 0" "\<not> f64_is_nan SIGN"
    by (simp_all add: f64_to_lane_def f64_is_nan_def f64_mag_def f64_eq_def f64_key_def SIGN_def)
  from nan zero show ?thesis by (auto simp: f64_canon_def) (simp_all add: f64_to_lane_def)
qed

definition canon_cell :: "cell \<Rightarrow> cell" where
  "canon_cell v = (case v of VFloat f \<Rightarrow> VFloat (f64_canon f) | _ \<Rightarrow> v)"

lemma canon_cell_simps [simp]:
  "canon_cell VNull = VNull" "canon_cell (VBool b) = VBool b" "canon_cell (VUInt u) = VUInt u"
  "canon_cell (VInt i) = VInt i" "canon_cell (VStr s) = VStr s" "canon_cell (VDate d) = VDate d"
  "canon_cell (VDateTime t) = VDateTime t" "canon_cell (VDecimal x y) = VDecimal x y"
  "canon_cell (VFloat f) = VFloat (f64_canon f)"
  by (simp_all add: canon_cell_def)

definition packable :: "column \<Rightarrow> bool" where
  "packable c \<longleftrightarrow> col_wf c \<and> col_len c \<le> 2 ^ 26 \<and> (case col_data c of CStr v \<Rightarrow> encodable v | _ \<Rightarrow> True)"

abbreviation lanes_of :: "column \<Rightarrow> u64 list" where
  "lanes_of c \<equiv> fst (raw_lanes (col_data c))"

definition packs :: "packed_column \<Rightarrow> column \<Rightarrow> bool" where
  "packs pc c \<longleftrightarrow> pc_ty pc = col_ty c \<and> pc_nulls pc = col_nulls c \<and> pc_len pc = col_len c \<and>
     pc_dict pc = snd (raw_lanes (col_data c)) \<and> holds (pc_lanes pc) (lanes_of c) \<and>
     (col_len c \<noteq> 0 \<longrightarrow> p_base (pc_lanes pc) = Min (set (lanes_of c)) \<and> pc_max_lane pc = Max (set (lanes_of c)))"

lemma length_raw_lanes [simp]: "length (lanes_of c) = col_len c"
  by (simp add: raw_lanes_def col_len_def cd_len_def encode_def Let_def split: column_data.split)

lemma base_pack: "vals \<noteq> [] \<Longrightarrow> p_base (pack vals) = Min (set vals)"
  by (cases vals) (simp_all add: pack_def pack_with_base_def own_def Let_def fold_min_max)

lemma iter_min_max:
  "iter_min xs = (if xs = [] then None else Some (Min (set xs)))"
  "iter_max xs = (if xs = [] then None else Some (Max (set xs)))"
  by (simp_all add: iter_min_def iter_max_def fold_min_max split: list.split)

lemma packs_build: "packs (pc_build c) c"
proof -
  have "lanes_of c \<noteq> [] \<longleftrightarrow> col_len c \<noteq> 0" using length_raw_lanes [of c] by (metis length_0_conv)
  then show ?thesis
    by (auto simp: packs_def pc_build_def Let_def holds_pack base_pack iter_min_max split: prod.split)
qed

text \<open>Reassembled from its stored parts, on an owned or a mapped array, it packs the same column.\<close>

lemma packs_parts:
  assumes "packs pc c"
  defines "p \<equiv> pc_lanes pc"
  shows "packs (pc_from_parts (pc_ty pc) (from_parts (p_base p) (p_width p) (p_words p)) (pc_dict pc) (pc_nulls pc)
      (pc_max_lane pc) (pc_len pc)) c"
    "packs (pc_from_parts (pc_ty pc) (from_mapped (p_base p) (p_width p) (p_words p)) (pc_dict pc) (pc_nulls pc)
      (pc_max_lane pc) (pc_len pc)) c"
proof -
  have "p_base (from_parts x y z) = x" "p_base (from_mapped x y z) = x" for x y z
    by (simp_all add: from_parts_def from_mapped_def own_def Let_def split: if_splits)
  then show "packs (pc_from_parts (pc_ty pc) (from_parts (p_base p) (p_width p) (p_words p)) (pc_dict pc) (pc_nulls pc)
      (pc_max_lane pc) (pc_len pc)) c"
    "packs (pc_from_parts (pc_ty pc) (from_mapped (p_base p) (p_width p) (p_words p)) (pc_dict pc) (pc_nulls pc)
      (pc_max_lane pc) (pc_len pc)) c"
    using assms holds_from_parts [of p "lanes_of c"] by (simp_all add: packs_def pc_from_parts_def p_def)
qed

lemma packs_get:
  assumes "packs pc c" "packable c" "i < col_len c"
  shows "packed_get (pc_lanes pc) i = lanes_of c ! i"
  using assms holds_get [of "pc_lanes pc" "lanes_of c" i] by (simp add: packs_def packable_def)

lemma those_map_Some: "(\<And>x. x \<in> set xs \<Longrightarrow> f x = Some (g x)) \<Longrightarrow> those (map f xs) = Some (map g xs)"
  by (induction xs) simp_all

lemma dict_table_encode:
  assumes "packs pc c" "col_data c = CStr v" "encodable v"
  shows "dict_table pc = Some (sort (remdups v))"
proof -
  let ?d = "fst (encode v)"
  note d = encode_dict [OF assms(3)]
  have "pc_dict pc = Some ?d" using assms(1,2) by (simp add: packs_def raw_lanes_def split: prod.split)
  moreover have "those (map (\<lambda>i. dict_get ?d (of_nat i)) [0..<dict_len ?d]) = Some (map ((!) (entries ?d)) [0..<dict_len ?d])"
    by (rule those_map_Some) (simp add: dict_get_entry d(1))
  moreover have "map ((!) (entries ?d)) [0..<dict_len ?d] = entries ?d" using map_nth [of "entries ?d"] by simp
  ultimately show ?thesis by (simp add: dict_table_def d(2))
qed

lemma code_of_row:
  assumes "encodable v" "i < length v"
  shows "unat (snd (encode v) ! i) < length (sort (remdups v))" "sort (remdups v) ! unat (snd (encode v) ! i) = v ! i"
    "dict_get (fst (encode v)) (snd (encode v) ! i) = Some (v ! i)"
proof -
  have mem: "v ! i \<in> set (sort (remdups v))" using assms(2) by simp
  note im = index_of_mem [OF mem]
  have u: "unat (snd (encode v) ! i) = index_of (sort (remdups v)) (v ! i)"
    using index_bound [OF assms(1) nth_mem [OF assms(2)]] by (simp add: encode_code assms(2) unat_of_nat_u64)
  show "unat (snd (encode v) ! i) < length (sort (remdups v))" "sort (remdups v) ! unat (snd (encode v) ! i) = v ! i"
    unfolding u using im by simp_all
  show "dict_get (fst (encode v)) (snd (encode v) ! i) = Some (v ! i)" using encode_codes [OF assms assms(2)] by simp
qed

lemma lane_to_value_raw:
  assumes "packs pc c" "packable c" "i < col_len c"
  shows "lane_to_value pc (lanes_of c ! i) = map_option canon_cell (raw_cell (col_ty c) (col_data c) i)"
proof -
  have ty: "pc_ty pc = col_ty c" using assms(1) by (simp add: packs_def)
  have k: "physical (base (col_ty c)) = cd_physical (col_data c)" "physical (col_ty c) = cd_physical (col_data c)"
    using assms(2) by (simp_all add: packable_def col_wf_def)
  show ?thesis
  proof (cases "col_data c")
    case (CU64 v)
    with k assms(3) show ?thesis
      by (auto simp: lane_to_value_def ty raw_lanes_def raw_cell_def cd_physical_def col_len_def cd_len_def
          simp del: physical_base split: data_type.splits)
  next
    case (CI64 v)
    with k assms(3) show ?thesis
      by (auto simp: lane_to_value_def ty raw_lanes_def raw_cell_def cd_physical_def col_len_def cd_len_def lane_i64_roundtrip
          simp del: physical_base split: data_type.splits)
  next
    case (CF64 v)
    with k assms(3) show ?thesis
      by (auto simp: lane_to_value_def ty raw_lanes_def raw_cell_def cd_physical_def col_len_def cd_len_def lane_f64_canon
          simp del: physical_base split: data_type.splits)
  next
    case (CStr v)
    have "encodable v" "i < length v" using assms(2,3) CStr by (simp_all add: packable_def col_len_def cd_len_def)
    from code_of_row(3) [OF this] this CStr k assms(1) show ?thesis
      by (auto simp: lane_to_value_def ty raw_lanes_def raw_cell_def cd_physical_def packs_def
          simp del: physical_base split: data_type.splits prod.splits)
  qed
qed

text \<open>Decoding the lanes of some rows gives a buffer that reads as those rows.\<close>

lemma decode_lanes_raw:
  assumes "packs pc c" "packable c" "\<forall>i \<in> set rows. i < col_len c"
  obtains d where "decode_lanes pc (map ((!) (lanes_of c)) rows) = Some d" "cd_len d = length rows"
    "cd_physical d = physical (col_ty c)"
    "\<And>k. k < length rows \<Longrightarrow> raw_cell (col_ty c) d k = map_option canon_cell (raw_cell (col_ty c) (col_data c) (rows ! k))"
proof -
  have ty: "pc_ty pc = col_ty c" using assms(1) by (simp add: packs_def)
  have k: "physical (col_ty c) = cd_physical (col_data c)" using assms(2) by (simp add: packable_def col_wf_def)
  have r: "rows ! i < cd_len (col_data c)" if "i < length rows" for i using assms(3) that by (simp add: col_len_def)
  have "\<exists>d. decode_lanes pc (map ((!) (lanes_of c)) rows) = Some d \<and> cd_len d = length rows \<and>
      cd_physical d = cd_physical (col_data c) \<and> (\<forall>k < length rows.
        raw_cell (col_ty c) d k = map_option canon_cell (raw_cell (col_ty c) (col_data c) (rows ! k)))"
  proof (cases "col_data c")
    case (CU64 v)
    with k r show ?thesis
      by (auto simp: decode_lanes_def ty raw_lanes_def cd_physical_def cd_len_def raw_cell_def split: data_type.split)
  next
    case (CI64 v)
    with k r show ?thesis
      by (auto simp: decode_lanes_def ty raw_lanes_def cd_physical_def cd_len_def raw_cell_def lane_i64_roundtrip
          split: data_type.split)
  next
    case (CF64 v)
    with k r show ?thesis
      by (auto simp: decode_lanes_def ty raw_lanes_def cd_physical_def cd_len_def raw_cell_def lane_f64_canon)
  next
    case (CStr v)
    have e: "encodable v" using assms(2) CStr by (simp add: packable_def)
    have row: "table_str (sort (remdups v)) (snd (encode v) ! i) = v ! i" if "i < length v" for i
      using code_of_row(1,2) [OF e that] by (simp add: table_str_def)
    have "lanes_of c = snd (encode v)" using CStr by (simp add: raw_lanes_def split: prod.split)
    with CStr k r row dict_table_encode [OF assms(1) CStr e] show ?thesis
      by (auto simp: decode_lanes_def ty cd_physical_def cd_len_def raw_cell_def)
  qed
  with k that show thesis by auto
qed

lemma canon_live:
  assumes "i < col_len c"
  shows "(if mask_get (col_nulls c) i then Some VNull else map_option canon_cell (raw_cell (col_ty c) (col_data c) i))
    = Some (canon_cell (cells c ! i))"
  using cell_at [OF assms] by (auto split: if_splits)

lemma gather_core:
  assumes "packs pc c" "packable c" "\<forall>i \<in> set rows. i < col_len c"
    and m: "\<And>k. mask_get m k \<longleftrightarrow> k < length rows \<and> mask_get (col_nulls c) (rows ! k)"
  obtains d where "decode_lanes pc (map ((!) (lanes_of c)) rows) = Some d"
    "represents \<lparr>col_ty = col_ty c, col_data = d, col_nulls = m\<rparr> (col_ty c) (map (\<lambda>i. canon_cell (cells c ! i)) rows)"
proof -
  obtain d where d: "decode_lanes pc (map ((!) (lanes_of c)) rows) = Some d" "cd_len d = length rows"
    "cd_physical d = physical (col_ty c)"
    "\<And>k. k < length rows \<Longrightarrow> raw_cell (col_ty c) d k = map_option canon_cell (raw_cell (col_ty c) (col_data c) (rows ! k))"
    using decode_lanes_raw [OF assms(1-3)] by metis
  have "(if mask_get m k then Some VNull else raw_cell (col_ty c) d k) = Some (map (\<lambda>i. canon_cell (cells c ! i)) rows ! k)"
    if "k < length rows" for k
    using canon_live [of "rows ! k" c] assms(3) that by (auto simp: m d(4) split: if_splits)
  then show thesis
    using that [OF d(1)] cells_column [of d "map (\<lambda>i. canon_cell (cells c ! i)) rows" "col_ty c" m] d(2,3) m
    by (simp add: represents_def)
qed

lemma gather_lanes:
  assumes "packs pc c" "packable c" "\<forall>i \<in> set rows. i < col_len c"
  shows "map (packed_get (pc_lanes pc)) rows = map ((!) (lanes_of c)) rows"
  using packs_get [OF assms(1,2)] assms(3) by simp

lemma range_lanes:
  assumes "packs pc c" "s \<le> e" "e \<le> col_len c"
  shows "unpack_range (pc_lanes pc) s e = map ((!) (lanes_of c)) [s..<e]"
proof -
  have "holds (pc_lanes pc) (lanes_of c)" using assms(1) by (simp add: packs_def)
  from holds_unpack_range [OF this assms(2)] assms(3) have "unpack_range (pc_lanes pc) s e = slice (lanes_of c) s e" by simp
  also have "\<dots> = map ((!) (lanes_of c)) [s..<e]"
    using assms(2,3) by (intro nth_equalityI) (simp_all add: slice_nth)
  finally show ?thesis .
qed

lemma pc_gather_spec:
  assumes "packs pc c" "packable c" "\<forall>i \<in> set rows. i < col_len c"
  shows "\<exists>c'. pc_gather pc rows = Some c' \<and> represents c' (col_ty c) (map (\<lambda>i. canon_cell (cells c ! i)) rows)"
proof -
  define m where "m = keep_nulls (map_option (\<lambda>n. mask_gather n rows 0 bitset_new) (pc_nulls pc))"
  have pn: "pc_nulls pc = col_nulls c" "pc_ty pc = col_ty c" using assms(1) by (simp_all add: packs_def)
  have m: "mask_get m k \<longleftrightarrow> k < length rows \<and> mask_get (col_nulls c) (rows ! k)" for k
    using bitset.mem_empty by (cases "col_nulls c") (auto simp: m_def pn mask_gather_get)
  from gather_core [OF assms m] obtain d where "decode_lanes pc (map ((!) (lanes_of c)) rows) = Some d"
    "represents \<lparr>col_ty = col_ty c, col_data = d, col_nulls = m\<rparr> (col_ty c) (map (\<lambda>i. canon_cell (cells c ! i)) rows)" by blast
  then show ?thesis by (simp add: pc_gather_def gather_lanes [OF assms] m_def pn)
qed

lemma pc_decode_spec:
  assumes "packs pc c" "packable c" "s \<le> e" "e \<le> col_len c"
  shows "\<exists>c'. pc_decode pc s e = Some c' \<and> represents c' (col_ty c) (map (\<lambda>i. canon_cell (cells c ! i)) [s..<e])"
proof -
  define m where "m = keep_nulls (map_option (\<lambda>n. mask_slice n s e 0 bitset_new) (pc_nulls pc))"
  have pn: "pc_nulls pc = col_nulls c" "pc_ty pc = col_ty c" using assms(1) by (simp_all add: packs_def)
  have m: "mask_get m k \<longleftrightarrow> k < length [s..<e] \<and> mask_get (col_nulls c) ([s..<e] ! k)" for k
    using bitset.mem_empty by (cases "col_nulls c") (auto simp: m_def pn mask_slice_get intro!: exI [of _ "s + k"])
  have lt: "\<forall>i \<in> set [s..<e]. i < col_len c" using assms(4) by simp
  from gather_core [OF assms(1,2) lt m] obtain d where "decode_lanes pc (map ((!) (lanes_of c)) [s..<e]) = Some d"
    "represents \<lparr>col_ty = col_ty c, col_data = d, col_nulls = m\<rparr> (col_ty c) (map (\<lambda>i. canon_cell (cells c ! i)) [s..<e])" by blast
  then show ?thesis by (simp add: pc_decode_def range_lanes [OF assms(1,3,4)] m_def pn)
qed

text \<open>The appending forms extend the output by what the others decode.\<close>

lemma append_lanes_decode:
  assumes "cd_physical out = physical (pc_ty pc)"
  shows "append_lanes pc out lanes = Option.bind (decode_lanes pc lanes) (cd_append out)"
  using assms
  by (cases out; cases "dict_table pc")
    (auto simp: append_lanes_def decode_lanes_def cd_physical_def cd_append_def lane_to_i64_def SIGN_def
      split: physical_type.splits option.split)

lemma represents_mask:
  assumes "represents \<lparr>col_ty = ty, col_data = d, col_nulls = m\<rparr> ty vs" "\<And>i. mask_get m' i = mask_get m i"
  shows "represents \<lparr>col_ty = ty, col_data = d, col_nulls = m'\<rparr> ty vs"
proof -
  have "col_value \<lparr>col_ty = ty, col_data = d, col_nulls = m'\<rparr> i = col_value \<lparr>col_ty = ty, col_data = d, col_nulls = m\<rparr> i" for i
    by (simp add: col_value_def col_is_null_def assms(2))
  with assms show ?thesis by (simp add: represents_def col_wf_def cells_def col_is_null_def col_len_def)
qed

lemma append_spec:
  assumes out: "represents out ty vs" and c': "represents \<lparr>col_ty = ty, col_data = d, col_nulls = m\<rparr> ty ws"
    and dec: "decode_lanes pc lanes = Some d" and ty: "pc_ty pc = ty"
    and m': "\<And>j. mask_get m' j \<longleftrightarrow> mask_get (col_nulls out) j \<or> col_len out \<le> j \<and> mask_get m (j - col_len out)"
  shows "\<exists>x. append_lanes pc (col_data out) lanes = Some x \<and> represents (out\<lparr>col_data := x, col_nulls := m'\<rparr>) ty (vs @ ws)"
proof -
  let ?c = "\<lparr>col_ty = ty, col_data = d, col_nulls = m\<rparr>"
  obtain o' where o': "col_extend out ?c = Inr o'" "represents o' ty (vs @ ws)"
    using block_columns.concat2_rep [OF out c'] by blast
  then obtain x where x: "cd_append (col_data out) d = Some x" by (auto simp: col_extend_def split: option.splits)
  define mo where "mo = (case m of None \<Rightarrow> col_nulls out
    | Some n \<Rightarrow> Some (mask_slice n 0 (col_len ?c) (col_len out) (nulls_or_new (col_nulls out))))"
  have t: "col_ty out = ty" using out by (simp add: represents_def)
  have "o' = \<lparr>col_ty = ty, col_data = x, col_nulls = mo\<rparr>"
    using o'(1) x t by (simp add: col_extend_def mo_def column_update)
  with o'(2) have rep: "represents \<lparr>col_ty = ty, col_data = x, col_nulls = mo\<rparr> ty (vs @ ws)" by simp
  have lt: "k < col_len ?c" if "mask_get m k" for k using c' that by (simp add: represents_def col_wf_def col_is_null_def)
  have "mask_get m' j = mask_get mo j" for j
    using lt by (cases m) (auto simp: m' mo_def mask_slice_get intro!: exI [of _ "j - col_len out"])
  from represents_mask [OF rep this] have "represents \<lparr>col_ty = ty, col_data = x, col_nulls = m'\<rparr> ty (vs @ ws)" .
  moreover have "cd_physical (col_data out) = physical (pc_ty pc)" using out ty by (simp add: represents_def col_wf_def)
  ultimately show ?thesis using append_lanes_decode [of "col_data out" pc lanes] dec x t by (simp add: column_update)
qed

lemma gather_append_spec:
  assumes "packs pc c" "packable c" "\<forall>i \<in> set rows. i < col_len c" "represents out (col_ty c) vs"
  shows "\<exists>c'. gather_append pc rows out = Some c' \<and>
    represents c' (col_ty c) (vs @ map (\<lambda>i. canon_cell (cells c ! i)) rows)"
proof -
  define m where "m = keep_nulls (map_option (\<lambda>n. mask_gather n rows 0 bitset_new) (pc_nulls pc))"
  have pn: "pc_nulls pc = col_nulls c" "pc_ty pc = col_ty c" using assms(1) by (simp_all add: packs_def)
  have m: "mask_get m k \<longleftrightarrow> k < length rows \<and> mask_get (col_nulls c) (rows ! k)" for k
    using bitset.mem_empty by (cases "col_nulls c") (auto simp: m_def pn mask_gather_get)
  define m' where "m' = (case pc_nulls pc of None \<Rightarrow> col_nulls out
    | Some n \<Rightarrow> Some (mask_gather n rows (col_len out) (nulls_or_new (col_nulls out))))"
  have m': "mask_get m' j \<longleftrightarrow> mask_get (col_nulls out) j \<or> col_len out \<le> j \<and> mask_get m (j - col_len out)" for j
    by (cases "col_nulls c") (auto simp: m'_def m pn mask_gather_get intro!: exI [of _ "j - col_len out"])
  from gather_core [OF assms(1-3) m] obtain d where d: "decode_lanes pc (map ((!) (lanes_of c)) rows) = Some d"
    "represents \<lparr>col_ty = col_ty c, col_data = d, col_nulls = m\<rparr> (col_ty c) (map (\<lambda>i. canon_cell (cells c ! i)) rows)" by blast
  from append_spec [OF assms(4) d(2,1) pn(2) m'] show ?thesis
    by (auto simp: gather_append_def gather_lanes [OF assms(1-3)] m'_def)
qed

lemma decode_append_spec:
  assumes "packs pc c" "packable c" "s \<le> e" "e \<le> col_len c" "represents out (col_ty c) vs"
  shows "\<exists>c'. decode_append pc s e out = Some c' \<and>
    represents c' (col_ty c) (vs @ map (\<lambda>i. canon_cell (cells c ! i)) [s..<e])"
proof -
  define m where "m = keep_nulls (map_option (\<lambda>n. mask_slice n s e 0 bitset_new) (pc_nulls pc))"
  have pn: "pc_nulls pc = col_nulls c" "pc_ty pc = col_ty c" using assms(1) by (simp_all add: packs_def)
  have m: "mask_get m k \<longleftrightarrow> k < length [s..<e] \<and> mask_get (col_nulls c) ([s..<e] ! k)" for k
    using bitset.mem_empty by (cases "col_nulls c") (auto simp: m_def pn mask_slice_get intro!: exI [of _ "s + k"])
  define m' where "m' = (case pc_nulls pc of None \<Rightarrow> col_nulls out
    | Some n \<Rightarrow> Some (mask_slice n s e (col_len out) (nulls_or_new (col_nulls out))))"
  have m': "mask_get m' j \<longleftrightarrow> mask_get (col_nulls out) j \<or> col_len out \<le> j \<and> mask_get m (j - col_len out)" for j
    by (cases "col_nulls c") (auto simp: m'_def m pn mask_slice_get intro!: exI [of _ "s + (j - col_len out)"])
  have lt: "\<forall>i \<in> set [s..<e]. i < col_len c" using assms(4) by simp
  from gather_core [OF assms(1,2) lt m] obtain d where d: "decode_lanes pc (map ((!) (lanes_of c)) [s..<e]) = Some d"
    "represents \<lparr>col_ty = col_ty c, col_data = d, col_nulls = m\<rparr> (col_ty c) (map (\<lambda>i. canon_cell (cells c ! i)) [s..<e])" by blast
  from append_spec [OF assms(5) d(2,1) pn(2) m'] show ?thesis
    by (auto simp: decode_append_def range_lanes [OF assms(1,3,4)] m'_def)
qed

lemma pc_value_spec:
  assumes "packs pc c" "packable c" "i < col_len c"
  shows "pc_value pc i = Some (canon_cell (cells c ! i))"
  using canon_live [OF assms(3)] lane_to_value_raw [OF assms] packs_get [OF assms] assms(1)
  by (auto simp: pc_value_def pc_is_null_def packs_def split: if_splits)

section \<open>Zone bounds and lane predicates\<close>

definition live :: "column \<Rightarrow> nat \<Rightarrow> bool" where
  "live c i \<longleftrightarrow> i < col_len c \<and> \<not> col_is_null c i"

text \<open>
  What a table stores: live cells fit the column and have an exact place in the lane order, and the lanes of booleans
  and dates are in range (the casts before a write see to it).
\<close>

definition zone_ok :: "column \<Rightarrow> bool" where
  "zone_ok c \<longleftrightarrow> (\<forall>i. live c i \<longrightarrow> fits (col_ty c) (cells c ! i) \<and> lane_comparable (cells c ! i) \<and>
     (base (col_ty c) = Bool \<longrightarrow> lanes_of c ! i = 0 \<or> lanes_of c ! i = 1) \<and>
     (base (col_ty c) = Date \<longrightarrow> unat (lanes_of c ! i) < 2 ^ 32))"

definition live_set :: "column \<Rightarrow> u64 set" where
  "live_set c = (\<lambda>i. lanes_of c ! i) ` {i. live c i}"

lemma zone_lanes:
  assumes "packs pc c" "packable c"
  shows "min_lane_live pc = (if live_set c = {} then None else Some (Min (live_set c)))"
    "max_lane_live pc = (if live_set c = {} then None else Some (Max (live_set c)))"
proof -
  have pn: "pc_nulls pc = col_nulls c" "pc_len pc = col_len c" using assms(1) by (simp_all add: packs_def)
  have "min_lane_live pc = (if live_set c = {} then None else Some (Min (live_set c))) \<and>
    max_lane_live pc = (if live_set c = {} then None else Some (Max (live_set c)))"
  proof (cases "col_nulls c")
    case None
    then have "live_set c = set (lanes_of c)"
      by (auto simp: live_set_def live_def col_is_null_def set_conv_nth)
    moreover have "set (lanes_of c) = {} \<longleftrightarrow> col_len c = 0" using length_raw_lanes [of c] by (metis length_0_conv set_empty)
    ultimately show ?thesis using assms(1) None by (auto simp: min_lane_live_def max_lane_live_def pn packs_def)
  next
    case (Some n)
    define xs where "xs = map (\<lambda>i. lanes_of c ! i) (filter (\<lambda>i. \<not> bitset_get n i) [0..<col_len c])"
    have "live_lanes pc n = xs" using packs_get [OF assms] by (auto simp: live_lanes_def pn xs_def)
    moreover have "live_set c = set xs" using Some by (auto simp: live_set_def live_def col_is_null_def xs_def)
    ultimately show ?thesis using Some by (simp add: min_lane_live_def max_lane_live_def pn iter_min_max)
  qed
  then show "min_lane_live pc = (if live_set c = {} then None else Some (Min (live_set c)))"
    "max_lane_live pc = (if live_set c = {} then None else Some (Max (live_set c)))" by simp_all
qed

lemma ucast_date_back: "unat (x :: u64) < 2 ^ 32 \<Longrightarrow> ucast (ucast x :: u32) = x"
proof -
  assume "unat x < 2 ^ 32"
  then have "bit x k \<Longrightarrow> k < 32" for k using bit_width [of x 32 k] by blast
  then show ?thesis by (intro bit_word_eqI) (auto simp: bit_simps)
qed

lemma live_raw: "live c i \<Longrightarrow> raw_cell (col_ty c) (col_data c) i = Some (cells c ! i)"
  using cell_at [of i c] by (simp add: live_def col_is_null_def)

lemma canon_fits: "fits ty (canon_cell v) = fits ty v" "lane_comparable (canon_cell v) = lane_comparable v"
  by (cases v; simp add: fits_def lane_comparable_def)+

lemma zone_canon:
  assumes "zone_ok c" "live c i"
  shows "fits (col_ty c) (canon_cell (cells c ! i))" "lane_comparable (canon_cell (cells c ! i))"
  using assms unfolding canon_fits zone_ok_def by blast+

text \<open>The lane of a live row is the lane of its value.\<close>

lemma lane_of_cell:
  assumes "col_wf c" "zone_ok c" "live c i" "physical (col_ty c) \<noteq> Str"
  shows "to_lane ft (canon_cell (cells c ! i)) (col_ty c) = Inr (lanes_of c ! i)"
proof -
  let ?v = "cells c ! i"
  have z: "fits (col_ty c) ?v" "lane_comparable ?v" "base (col_ty c) = Bool \<Longrightarrow> lanes_of c ! i = 0 \<or> lanes_of c ! i = 1"
    "base (col_ty c) = Date \<Longrightarrow> unat (lanes_of c ! i) < 2 ^ 32"
    using assms(2,3) by (auto simp: zone_ok_def)
  note fc = zone_canon [OF assms(2,3)]
  have i: "i < cd_len (col_data c)" using assms(3) by (simp add: live_def col_len_def)
  have k: "physical (base (col_ty c)) = cd_physical (col_data c)" using assms(1) by (simp add: col_wf_def)
  note r = live_raw [OF assms(3)] and tl = to_lane_fits [OF fc assms(4), of ft]
  show ?thesis
  proof (cases "col_data c")
    case (CU64 w)
    with r i have v: "?v = (case base (col_ty c) of Bool \<Rightarrow> VBool (w ! i \<noteq> 0) | Date \<Rightarrow> VDate (ucast (w ! i))
        | DateTime \<Rightarrow> VDateTime (w ! i) | _ \<Rightarrow> VUInt (w ! i))" and l: "lanes_of c ! i = w ! i"
      by (simp_all add: raw_cell_def cd_len_def raw_lanes_def)
    show ?thesis using tl z(3,4) l ucast_date_back [of "w ! i"] unfolding v by (auto split: data_type.splits)
  next
    case (CI64 w)
    with r i have v: "?v = (case base (col_ty c) of DateTime \<Rightarrow> VDateTime (w ! i) | Decimal64 s \<Rightarrow> VDecimal (w ! i) s
        | _ \<Rightarrow> VInt (w ! i))" and l: "lanes_of c ! i = i64_to_lane (w ! i)"
      by (simp_all add: raw_cell_def cd_len_def raw_lanes_def)
    show ?thesis using tl l k CI64 unfolding v by (auto simp: cd_physical_def simp del: physical_base split: data_type.splits)
  next
    case (CF64 w)
    with r i have v: "?v = VFloat (w ! i)" and l: "lanes_of c ! i = f64_to_lane (w ! i)"
      by (simp_all add: raw_cell_def cd_len_def raw_lanes_def)
    show ?thesis using tl l unfolding v by (simp add: f64_to_lane_canon)
  next
    case (CStr w)
    with k assms(4) show ?thesis by (simp add: cd_physical_def)
  qed
qed

lemma cmp_Equal [simp]: "cmp a b = Equal \<longleftrightarrow> a = (b :: 'a :: linorder)"
  by (auto simp: cmp_def)

lemma str_cells:
  assumes "col_data c = CStr w" "live c i"
  shows "cells c ! i = VStr (w ! i)" "lanes_of c ! i = snd (encode w) ! i" "i < length w"
proof -
  show i: "i < length w" using assms by (simp add: live_def col_len_def cd_len_def)
  then show "cells c ! i = VStr (w ! i)" using live_raw [OF assms(2)] assms(1) by (simp add: raw_cell_def)
  show "lanes_of c ! i = snd (encode w) ! i" using assms(1) by (simp add: raw_lanes_def split: prod.split)
qed

lemma cell_order_lane_order:
  assumes "packable c" "zone_ok c" "live c i" "live c j"
  shows "cmp_value (canon_cell (cells c ! i)) (canon_cell (cells c ! j)) = cmp (lanes_of c ! i) (lanes_of c ! j)"
proof (cases "physical (col_ty c) = Str")
  case True
  with assms(1) obtain w where w: "col_data c = CStr w" "encodable w"
    by (cases "col_data c") (auto simp: packable_def col_wf_def cd_physical_def)
  note si = str_cells [OF w(1) assms(3)] and sj = str_cells [OF w(1) assms(4)]
  from encode_codes [OF w(2) si(3) sj(3)] show ?thesis
    by (simp add: si(1,2) sj(1,2) cmp_value_def cmp_def)
next
  case False
  have wf: "col_wf c" using assms(1) by (simp add: packable_def)
  show ?thesis
    using lane_cmp_value [of "col_ty c" "canon_cell (cells c ! i)" "canon_cell (cells c ! j)" undefined]
      zone_canon [OF assms(2,3)] zone_canon [OF assms(2,4)] False
      lane_of_cell [OF wf assms(2,3) False, of undefined] lane_of_cell [OF wf assms(2,4) False, of undefined] by auto
qed

lemma finite_live: "finite {i. live c i}"
  by (rule finite_subset [of _ "{..<col_len c}"]) (auto simp: live_def)

lemma zone_values:
  assumes "packs pc c" "packable c" "zone_ok c" "live c i"
  shows "\<exists>a b. live c a \<and> live c b \<and> min_value pc = Some (canon_cell (cells c ! a)) \<and> max_value pc = Some (canon_cell (cells c ! b))
    \<and> cmp_value (canon_cell (cells c ! a)) (canon_cell (cells c ! i)) \<noteq> Greater
    \<and> cmp_value (canon_cell (cells c ! i)) (canon_cell (cells c ! b)) \<noteq> Greater"
proof -
  have ne: "live_set c \<noteq> {}" "finite (live_set c)" using assms(4) finite_live by (auto simp: live_set_def)
  have val: "lane_to_value pc (lanes_of c ! k) = Some (canon_cell (cells c ! k))" if "live c k" for k
    using lane_to_value_raw [OF assms(1,2), of k] live_raw [OF that] that by (simp add: live_def)
  from Min_in [OF ne(2,1)] obtain a where a: "live c a" "Min (live_set c) = lanes_of c ! a" unfolding live_set_def by blast
  from Max_in [OF ne(2,1)] obtain b where b: "live c b" "Max (live_set c) = lanes_of c ! b" unfolding live_set_def by blast
  have "lanes_of c ! i \<in> live_set c" using assms(4) by (auto simp: live_set_def)
  then have "lanes_of c ! a \<le> lanes_of c ! i" "lanes_of c ! i \<le> lanes_of c ! b"
    using ne(2) a(2) b(2) Min_le Max_ge by metis+
  then have "cmp (lanes_of c ! a) (lanes_of c ! i) \<noteq> Greater" "cmp (lanes_of c ! i) (lanes_of c ! b) \<noteq> Greater"
    by (simp_all add: cmp_def)
  then have "cmp_value (canon_cell (cells c ! a)) (canon_cell (cells c ! i)) \<noteq> Greater"
    "cmp_value (canon_cell (cells c ! i)) (canon_cell (cells c ! b)) \<noteq> Greater"
    using cell_order_lane_order [OF assms(2,3)] a(1) b(1) assms(4) by simp_all
  then show ?thesis
    using zone_lanes [OF assms(1,2)] ne(1) a b val by (intro exI [of _ a] exI [of _ b]) (simp add: min_value_def max_value_def)
qed

lemma zone_none:
  assumes "packs pc c" "packable c" "\<And>i. \<not> live c i"
  shows "min_value pc = Some VNull \<and> max_value pc = Some VNull"
  using zone_lanes [OF assms(1,2)] assms(3) by (simp add: min_value_def max_value_def live_set_def)

lemma lane_for_spec:
  assumes "packs pc c" "packable c" "zone_ok c" "live c i" "fits (col_ty c) v" "lane_comparable v"
  shows "case lane_for ft pc v of
      Some (Inr (Some l)) \<Rightarrow> pc_lane pc i = l \<longleftrightarrow> value_eq (canon_cell (cells c ! i)) v
    | Some (Inr None) \<Rightarrow> \<not> value_eq (canon_cell (cells c ! i)) v
    | _ \<Rightarrow> False"
proof -
  have nn: "\<not> is_null v" using assms(6) by (cases v) (simp_all add: is_null_def lane_comparable_def)
  have ty: "pc_ty pc = col_ty c" using assms(1) by (simp add: packs_def)
  have lane: "pc_lane pc i = lanes_of c ! i" using packs_get [OF assms(1,2)] assms(4) by (simp add: pc_lane_def live_def)
  show ?thesis
  proof (cases "physical (col_ty c) = Str")
    case True
    with assms(2) obtain w where w: "col_data c = CStr w" "encodable w"
      by (cases "col_data c") (auto simp: packable_def col_wf_def cd_physical_def)
    note si = str_cells [OF w(1) assms(4)]
    obtain t where t: "v = VStr t" using assms(5,6) True physical_of_base [of "col_ty c"]
      by (cases v) (auto simp: fits_def lane_comparable_def)
    have dict: "pc_dict pc = Some (fst (encode w))"
      using assms(1) w(1) by (simp add: packs_def raw_lanes_def split: prod.split)
    have look: "lane_for ft pc v = Some (Inr (if t \<in> set w then Some (of_nat (index_of (sort (remdups w)) t)) else None))"
      using encode_search [OF w(2), of t] nn True dict by (simp add: lane_for_def ty t str_text_def)
    show ?thesis
    proof (cases "t \<in> set w")
      case True
      then obtain j where j: "j < length w" "w ! j = t" by (auto simp: in_set_conv_nth)
      from encode_codes [OF w(2) si(3) j(1)] j encode_code [OF j(1)] True look show ?thesis
        by (simp add: lane si(1,2) t value_eq_def cmp_value_def)
    next
      case False
      then have "w ! i \<noteq> t" using si(3) nth_mem by blast
      with False look show ?thesis by (simp add: si(1) t value_eq_def cmp_value_def)
    qed
  next
    case False
    have wf: "col_wf c" using assms(2) by (simp add: packable_def)
    note fc = zone_canon [OF assms(3,4)]
    from lane_cmp_value [OF fc(1) assms(5) fc(2) assms(6) False, of ft] lane_of_cell [OF wf assms(3,4) False, of ft]
    obtain b where b: "to_lane ft v (col_ty c) = Inr b" "cmp (lanes_of c ! i) b = cmp_value (canon_cell (cells c ! i)) v" by auto
    have "lane_for ft pc v = Some (Inr (Some b))"
      using nn False b(1) by (cases "physical (col_ty c)") (simp_all add: lane_for_def ty)
    then show ?thesis using b(2) cmp_Equal [of "lanes_of c ! i" b] by (simp add: lane value_eq_def)
  qed
qed

section \<open>Properties\<close>

text \<open>C34: What is packed comes back. A column of a granule, compressed and reassembled from its stored parts on mapped words, reads cell by
  cell as it was, up to the one NaN and the one zero of the lane coding; the bulk decoder returns the rows of
  the range, the gather the named rows, and the appending forms extend an output column by the same cells.\<close>

theorem packed_column_roundtrip:
  assumes "packable c" "s \<le> e" "e \<le> col_len c" "\<forall>i \<in> set rows. i < col_len c" "represents out (col_ty c) vs"
  defines "p \<equiv> pc_lanes (pc_build c)"
  defines "pc \<equiv> pc_from_parts (col_ty c) (from_mapped (p_base p) (p_width p) (p_words p)) (pc_dict (pc_build c))
    (col_nulls c) (pc_max_lane (pc_build c)) (col_len c)"
  shows "(\<forall>i < col_len c. pc_value (pc_build c) i = Some (canon_cell (cells c ! i)) \<and> pc_value pc i = Some (canon_cell (cells c ! i)))
    \<and> (\<exists>c'. pc_decode pc s e = Some c' \<and> represents c' (col_ty c) (map (\<lambda>i. canon_cell (cells c ! i)) [s..<e]))
    \<and> (\<exists>c'. pc_gather pc rows = Some c' \<and> represents c' (col_ty c) (map (\<lambda>i. canon_cell (cells c ! i)) rows))
    \<and> (\<exists>c'. decode_append pc s e out = Some c' \<and> represents c' (col_ty c) (vs @ map (\<lambda>i. canon_cell (cells c ! i)) [s..<e]))
    \<and> (\<exists>c'. gather_append pc rows out = Some c' \<and> represents c' (col_ty c) (vs @ map (\<lambda>i. canon_cell (cells c ! i)) rows))"
proof -
  have fields: "pc_ty (pc_build c) = col_ty c" "pc_nulls (pc_build c) = col_nulls c" "pc_len (pc_build c) = col_len c"
    using packs_build [of c] by (simp_all add: packs_def)
  have pc: "packs pc c" using packs_parts(2) [OF packs_build [of c]] by (simp add: fields pc_def p_def)
  show ?thesis
    using pc_value_spec [OF packs_build assms(1)] pc_value_spec [OF pc assms(1)] pc_decode_spec [OF pc assms(1-3)]
      pc_gather_spec [OF pc assms(1,4)] decode_append_spec [OF pc assms(1-3,5)] gather_append_spec [OF pc assms(1,4,5)]
    by blast
qed

lemma packable_example: "packable (col_new Int64 (CI64 [5, 7]))"
  using represents_example by (simp add: packable_def represents_def col_new_def col_len_def cd_len_def)

theorem packed_column_roundtrip_witness:
  "\<exists>c'. pc_gather (pc_from_parts Int64
       (from_mapped (p_base (pc_lanes (pc_build (col_new Int64 (CI64 [5, 7]))))) (p_width (pc_lanes (pc_build (col_new Int64 (CI64 [5, 7])))))
         (p_words (pc_lanes (pc_build (col_new Int64 (CI64 [5, 7])))))) (pc_dict (pc_build (col_new Int64 (CI64 [5, 7])))) None
       (pc_max_lane (pc_build (col_new Int64 (CI64 [5, 7])))) 2) [1, 0] = Some c' \<and> represents c' Int64 [VInt 7, VInt 5]"
proof -
  let ?c = "col_new Int64 (CI64 [5, 7])"
  have c: "col_ty ?c = Int64" "col_nulls ?c = None" "col_len ?c = 2" "cells ?c = [VInt 5, VInt 7]"
    using represents_example by (simp_all add: represents_def col_new_def col_len_def cd_len_def)
  show ?thesis
    using packed_column_roundtrip [OF packable_example, of 0 0 "[1, 0]" ?c "[VInt 5, VInt 7]"] represents_example
    by (simp add: c)
qed


lemma zone_ok_example: "zone_ok (col_new Int64 (CI64 [5, 7]))" "live (col_new Int64 (CI64 [5, 7])) 1"
proof -
  let ?c = "col_new Int64 (CI64 [5, 7])"
  have c: "col_ty ?c = Int64" "cells ?c = [VInt 5, VInt 7]" using represents_example by (simp_all add: represents_def)
  have l: "live ?c i \<longleftrightarrow> i < 2" for i by (auto simp: live_def col_is_null_def col_new_def col_len_def cd_len_def)
  show "live ?c 1" by (simp add: l)
  show "zone_ok ?c"
    by (auto simp: zone_ok_def l c less_2_cases_iff fits_def is_integer_def in_bounds_def int_bounds_def lane_comparable_def)
qed


text \<open>A literal translated into the lane space of a granule selects exactly the equal rows: when a lane comes back, a
  live row has that lane if and only if its value equals the literal under the ordering of values, and when none comes
  back no live row equals it. Strings go through the dictionary of the granule, the other types through the lane
  coding.\<close>

theorem lane_for_exact:
  assumes "packable c" "zone_ok c" "live c i" "fits (col_ty c) v" "lane_comparable v"
  shows "case lane_for ft (pc_build c) v of
      Some (Inr (Some l)) \<Rightarrow> pc_lane (pc_build c) i = l \<longleftrightarrow> value_eq (canon_cell (cells c ! i)) v
    | Some (Inr None) \<Rightarrow> \<not> value_eq (canon_cell (cells c ! i)) v
    | _ \<Rightarrow> False"
  using packs_build assms by (rule lane_for_spec)

theorem lane_for_exact_witness:
  "case lane_for \<lparr>disp_f64 = \<lambda>_. [], read_f64 = \<lambda>_. None\<rparr> (pc_build (col_new Int64 (CI64 [5, 7]))) (VInt 7) of
      Some (Inr (Some l)) \<Rightarrow> pc_lane (pc_build (col_new Int64 (CI64 [5, 7]))) 1 = l | _ \<Rightarrow> False"
proof -
  let ?c = "col_new Int64 (CI64 [5, 7])" and ?ft = "\<lparr>disp_f64 = \<lambda>_. [], read_f64 = \<lambda>_. None\<rparr>"
  have c: "col_ty ?c = Int64" "cells ?c = [VInt 5, VInt 7]" using represents_example by (simp_all add: represents_def)
  have eq: "value_eq (canon_cell (cells ?c ! 1)) (VInt 7)"
    by (simp add: c value_eq_def cmp_value_def cmp_numeric_def exact_i64_def is_vfloat_def as_i64_def rank_def is_vdecimal_def)
  have "fits (col_ty ?c) (VInt 7)" "lane_comparable (VInt 7)"
    by (simp_all add: c fits_def is_integer_def in_bounds_def int_bounds_def lane_comparable_def)
  from lane_for_exact [OF packable_example zone_ok_example this, of ?ft] eq show ?thesis
    by (auto split: option.splits sum.splits)
qed

end
