(* ===== verification/Granule.thy ===== *)
theory Granule
  imports Packed_Column Mph Hashing
begin

text \<open>
  Granules, \<^verbatim>\<open>src/storage/granule.rs\<close>: the packed columns of some rows and, when the primary keys of the granule are
  distinct, a learned-rank index: a perfect hash finds a record, the record holds a fingerprint and the error of
  a linear prediction of the row. Shown: a granule holds the rows it was built from, in the order of the
  permutation; and a point lookup returns the row of the key exactly when the key is there, through the index
  and through the search alike. The loop bodies that cannot run out of range are total; a panic is \<open>None\<close>. A shift by the width
  of a word or more is taken modulo 64, as a release build does.
\<close>

section \<open>Definitions\<close>

record pk_index =
  pk_min :: u64
  pk_max :: u64
  pk_mph :: mph
  pk_fpr :: packed_u64
  pk_pmul :: u64
  pk_err_bias :: "32 word"
  pk_ebits :: nat
  pk_emask :: u64

text \<open>The interpolation slope, and the predicted row as an \<open>i64\<close>.\<close>

definition slope :: "nat \<Rightarrow> u64 \<Rightarrow> u64" where
  "slope len rng =
     (if rng = 0 then 0 else of_nat (min (((len - 1) * 2 ^ 64) div unat rng) (2 ^ 64 - 1)))"

definition predict :: "u64 \<Rightarrow> u64 \<Rightarrow> u64 \<Rightarrow> i64" where
  "predict mn pmul k = of_nat ((unat (k - mn) * unat pmul) div 2 ^ 64)"

definition err_mask :: "nat \<Rightarrow> u64" where
  "err_mask ebits = (if ebits = 0 then 0 else push_bit (ebits mod 64) 1 - 1)"

definition row_errors :: "u64 list \<Rightarrow> u64 \<Rightarrow> u64 \<Rightarrow> int list" where
  "row_errors keys mn pmul = map (\<lambda>(row, k). wrap_i64 (int row - sint (predict mn pmul k))) (enumerate 0 keys)"

definition rank_record :: "nat \<Rightarrow> u64 \<Rightarrow> int \<Rightarrow> u64" where
  "rank_record ebits k off = push_bit (ebits mod 64) (fp6 (hash_key k FP_SEED)) OR of_int off"

definition fill_records :: "mph \<Rightarrow> nat \<Rightarrow> int \<Rightarrow> (u64 \<times> int) list \<Rightarrow> u64 list \<Rightarrow> u64 list" where
  "fill_records m ebits bias kes recs =
     fold (\<lambda>(k, err) rs. rs[mph_lookup m k := rank_record ebits k (err - bias)]) kes recs"

text \<open>\<open>None\<close> is the panic of an empty key list, or of the perfect hash giving up.\<close>

definition pk_build :: "u64 list \<Rightarrow> pk_index option" where
  "pk_build keys =
     (if keys = [] then None
      else case mph_build keys of
        None \<Rightarrow> None
      | Some m \<Rightarrow>
          let len = length keys; mn = hd keys; mx = last keys; pmul = slope len (mx - mn);
              errs = row_errors keys mn pmul;
              bias = fold min (tl errs) (hd errs);
              espan = of_int (fold max (tl errs) (hd errs) - bias) :: u64;
              ebits = 64 - leading_zeros espan
          in Some \<lparr>pk_min = mn, pk_max = mx, pk_mph = m,
                   pk_fpr = pack (fill_records m ebits bias (zip keys errs) (replicate len 0)),
                   pk_pmul = pmul, pk_err_bias = of_int bias, pk_ebits = ebits, pk_emask = err_mask ebits\<rparr>)"

definition clamp_row :: "int \<Rightarrow> nat \<Rightarrow> nat" where
  "clamp_row x len = nat (if x < 0 then 0 else if x > int len - 1 then int len - 1 else x)"

definition candidate :: "pk_index \<Rightarrow> u64 \<Rightarrow> u64 \<Rightarrow> nat \<Rightarrow> nat option" where
  "candidate idx key fph len =
     (let rec = packed_get (pk_fpr idx) (mph_lookup (pk_mph idx) key)
      in if drop_bit (pk_ebits idx mod 64) rec \<noteq> fp6 fph then None
         else Some (clamp_row (sint (predict (pk_min idx) (pk_pmul idx) key + scast (pk_err_bias idx)
                      + (rec AND pk_emask idx))) len))"

record pk_parts =
  pp_min :: u64
  pp_max :: u64
  pp_pmul :: u64
  pp_err_bias :: "32 word"
  pp_ebits :: nat
  pp_mph :: "u64 \<times> nat \<times> nat \<times> u64 \<times> nat \<times> u64 list"
  pp_fpr_base :: u64
  pp_fpr_width :: nat
  pp_fpr_words :: "u64 list"

definition pk_to_parts :: "pk_index \<Rightarrow> pk_parts" where
  "pk_to_parts idx =
     \<lparr>pp_min = pk_min idx, pp_max = pk_max idx, pp_pmul = pk_pmul idx, pp_err_bias = pk_err_bias idx,
      pp_ebits = pk_ebits idx, pp_mph = mph_to_parts (pk_mph idx), pp_fpr_base = p_base (pk_fpr idx),
      pp_fpr_width = p_width (pk_fpr idx), pp_fpr_words = p_words (pk_fpr idx)\<rparr>"

definition pk_from_parts :: "pk_parts \<Rightarrow> pk_index result" where
  "pk_from_parts p =
     (case pp_mph p of (gs, nb, n, sb, sw, sword) \<Rightarrow>
        rbind (mph_from_parts gs nb n sb sw sword) (\<lambda>m.
          Inr \<lparr>pk_min = pp_min p, pk_max = pp_max p, pk_mph = m,
               pk_fpr = from_parts (pp_fpr_base p) (pp_fpr_width p) (pp_fpr_words p), pk_pmul = pp_pmul p,
               pk_err_bias = pp_err_bias p, pk_ebits = pp_ebits p, pk_emask = err_mask (pp_ebits p)\<rparr>))"

definition pk_bytes :: "pk_index \<Rightarrow> nat" where
  "pk_bytes idx = mph_bytes (pk_mph idx) + packed_bytes (pk_fpr idx) + 32"

record granule =
  g_len :: nat
  g_columns :: "packed_column list"
  g_pk :: "pk_index option"
  sort_min :: u64
  sort_max :: u64

text \<open>\<open>keys.windows(2).all(|w| w[0] < w[1])\<close>.\<close>

fun increasing :: "u64 list \<Rightarrow> bool" where
  "increasing (a # b # r) \<longleftrightarrow> a < b \<and> increasing (b # r)"
| "increasing _ \<longleftrightarrow> True"

definition granule_columns :: "block \<Rightarrow> nat \<Rightarrow> nat \<Rightarrow> nat list option \<Rightarrow> packed_column list option" where
  "granule_columns b s e perm = (case perm of
     None \<Rightarrow> those (map (\<lambda>c. map_option pc_build (col_slice c s e)) (blk_columns b))
   | Some p \<Rightarrow> (case get_range p s e of
       None \<Rightarrow> if blk_columns b = [] then Some [] else None
     | Some idx \<Rightarrow> those (map (\<lambda>c. map_option pc_build (col_take c idx)) (blk_columns b))))"

definition sort_bounds :: "packed_column list \<Rightarrow> nat \<Rightarrow> nat option \<Rightarrow> (u64 \<times> u64) option" where
  "sort_bounds cols len sort_col = (case sort_col of
     Some c \<Rightarrow> if 0 < len then map_option (\<lambda>pc. (pc_lane pc 0, pc_lane pc (len - 1))) (at cols c) else Some (0, - 1)
   | None \<Rightarrow> Some (0, - 1))"

definition granule_index :: "packed_column list \<Rightarrow> nat \<Rightarrow> nat option \<Rightarrow> pk_index option option" where
  "granule_index cols len pk_col = (case pk_col of
     Some c \<Rightarrow>
       if 0 < len
       then (case at cols c of
          None \<Rightarrow> None
        | Some pc \<Rightarrow>
            let keys = map (pc_lane pc) [0..<len]
            in if increasing keys then map_option Some (pk_build keys) else Some None)
       else Some None
   | None \<Rightarrow> Some None)"

text \<open>The subtraction \<open>e - s\<close> comes first and overflows on a reversed range.\<close>

definition build_sel :: "block \<Rightarrow> nat \<Rightarrow> nat \<Rightarrow> nat list option \<Rightarrow> nat option \<Rightarrow> nat option \<Rightarrow> granule option" where
  "build_sel b s e perm sort_col pk_col =
     (if e < s then None
      else case granule_columns b s e perm of
        None \<Rightarrow> None
      | Some cols \<Rightarrow>
          (case sort_bounds cols (e - s) sort_col of
             None \<Rightarrow> None
           | Some (mn, mx) \<Rightarrow>
               map_option (\<lambda>pk. \<lparr>g_len = e - s, g_columns = cols, g_pk = pk, sort_min = mn, sort_max = mx\<rparr>)
                 (granule_index cols (e - s) pk_col)))"

definition granule_build :: "block \<Rightarrow> nat \<Rightarrow> nat \<Rightarrow> nat option \<Rightarrow> nat option \<Rightarrow> granule option" where
  "granule_build b s e sort_col pk_col = build_sel b s e None sort_col pk_col"

definition granule_from_parts ::
  "nat \<Rightarrow> packed_column list \<Rightarrow> pk_index option \<Rightarrow> u64 \<Rightarrow> u64 \<Rightarrow> granule" where
  "granule_from_parts len cols pk mn mx = \<lparr>g_len = len, g_columns = cols, g_pk = pk, sort_min = mn, sort_max = mx\<rparr>"

record stats =
  bloom_negative :: u64
  fingerprint_negative :: u64
  zone_pruned_point :: u64
  zone_pruned_scan :: u64
  granules_scanned :: u64
  mph_probes :: u64
  false_probe :: u64
  rows_scanned :: u64

definition stats_merge :: "stats \<Rightarrow> stats \<Rightarrow> stats" where
  "stats_merge a b =
     \<lparr>bloom_negative = bloom_negative a + bloom_negative b,
      fingerprint_negative = fingerprint_negative a + fingerprint_negative b,
      zone_pruned_point = zone_pruned_point a + zone_pruned_point b,
      zone_pruned_scan = zone_pruned_scan a + zone_pruned_scan b,
      granules_scanned = granules_scanned a + granules_scanned b,
      mph_probes = mph_probes a + mph_probes b,
      false_probe = false_probe a + false_probe b,
      rows_scanned = rows_scanned a + rows_scanned b\<rparr>"

definition find_key :: "granule \<Rightarrow> nat \<Rightarrow> u64 \<Rightarrow> u64 \<Rightarrow> stats \<Rightarrow> (nat option \<times> stats) option" where
  "find_key g pk_col key fph st = map_option (\<lambda>kc.
     (case g_pk g of
        Some idx \<Rightarrow>
          let st = st\<lparr>mph_probes := mph_probes st + 1\<rparr>
          in (case candidate idx key fph (g_len g) of
                None \<Rightarrow> (None, st\<lparr>fingerprint_negative := fingerprint_negative st + 1\<rparr>)
              | Some row \<Rightarrow>
                  if pc_lane kc row \<noteq> key then (None, st\<lparr>false_probe := false_probe st + 1\<rparr>) else (Some row, st))
      | None \<Rightarrow>
          let row = packed_lower_bound (pc_lanes kc) (g_len g) key
          in if row < g_len g \<and> pc_lane kc row = key then (Some row, st) else (None, st)))
     (at (g_columns g) pk_col)"

definition g_lower_bound :: "granule \<Rightarrow> nat \<Rightarrow> u64 \<Rightarrow> nat option" where
  "g_lower_bound g sort_col lane =
     map_option (\<lambda>pc. packed_lower_bound (pc_lanes pc) (g_len g) lane) (at (g_columns g) sort_col)"

definition g_data_bytes :: "granule \<Rightarrow> nat" where
  "g_data_bytes g = sum_list (map pc_data_bytes (g_columns g))"

definition g_index_bytes :: "granule \<Rightarrow> nat" where
  "g_index_bytes g = (case g_pk g of None \<Rightarrow> 0 | Some p \<Rightarrow> pk_bytes p) + 24"

section \<open>The learned-rank index\<close>

lemma rank_fields:
  assumes "unat fp < 2 ^ 6" "unat off < 2 ^ e" "e \<le> 58"
  shows "drop_bit e (push_bit e fp OR off) = (fp :: u64)" "(push_bit e fp OR off) AND (push_bit e 1 - 1) = off"
proof -
  have f: "bit fp k \<Longrightarrow> k < 6" and o: "bit off k \<Longrightarrow> k < e" for k using assms bit_width by blast+
  show "drop_bit e (push_bit e fp OR off) = fp"
    using f o assms(3) by (intro bit_word_eqI) (auto simp: bit_simps dest: f o)
  have "push_bit e 1 - 1 = (mask e :: u64)" by (simp add: mask_eq_exp_minus_1)
  then show "(push_bit e fp OR off) AND (push_bit e 1 - 1) = off"
    using o by (intro bit_word_eqI) (auto simp: bit_simps)
qed

lemma fill_records_nth:
  assumes "distinct (map (\<lambda>(k, e). mph_lookup m k) kes)" "(k, err) \<in> set kes" "\<And>k. mph_lookup m k < length recs"
  shows "fill_records m ebits bias kes recs ! mph_lookup m k = rank_record ebits k (err - bias)"
  using assms
proof (induction kes rule: rev_induct)
  case (snoc x kes)
  obtain k' e' where x: "x = (k', e')" by (cases x)
  have len: "length (fold (\<lambda>(k, err) rs. rs[mph_lookup m k := rank_record ebits k (err - bias)]) ys recs) = length recs" for ys
    by (induction ys rule: rev_induct) (auto split: prod.split)
  show ?case
  proof (cases "(k, err) = (k', e')")
    case True
    then show ?thesis using snoc.prems(3) [of k'] by (simp add: fill_records_def x len)
  next
    case False
    with snoc.prems(2) x have "(k, err) \<in> set kes" by auto
    moreover from this have "mph_lookup m k \<noteq> mph_lookup m k'" using snoc.prems(1) x by force
    ultimately show ?thesis using snoc by (simp add: fill_records_def x)
  qed
qed simp

lemma length_fill_records [simp]: "length (fill_records m ebits bias kes recs) = length recs"
  unfolding fill_records_def by (induction kes arbitrary: recs) (auto split: prod.split)

lemma increasing_sorted: "increasing ks \<longleftrightarrow> sorted_wrt (<) ks"
  by (induction ks rule: increasing.induct) (auto intro: less_trans)

text \<open>The prediction stays inside the granule.\<close>

lemma slope_bound:
  assumes "mn \<le> k" "k \<le> mx" "0 < n"
  shows "(unat (k - mn) * unat (slope n (mx - mn))) div 2 ^ 64 \<le> n - 1"
proof (cases "mx - mn = 0")
  case True
  then show ?thesis by (simp add: slope_def)
next
  case False
  let ?r = "unat (mx - mn)"
  have r: "unat (k - mn) \<le> ?r" using assms(1,2) by (simp add: unat_sub word_le_nat_alt diff_le_mono)
  have pos: "0 < ?r" using False by (simp add: unat_gt_0)
  have "unat (slope n (mx - mn)) \<le> ((n - 1) * 2 ^ 64) div ?r"
    using False unat_of_nat_u64 [of "min (((n - 1) * 2 ^ 64) div ?r) (2 ^ 64 - 1)"] by (simp add: slope_def min_def)
  then have "unat (k - mn) * unat (slope n (mx - mn)) \<le> ?r * (((n - 1) * 2 ^ 64) div ?r)" using r by (rule mult_le_mono [rotated])
  also have "\<dots> \<le> (n - 1) * 2 ^ 64" by simp
  finally have "(unat (k - mn) * unat (slope n (mx - mn))) div 2 ^ 64 \<le> ((n - 1) * 2 ^ 64) div 2 ^ 64" by (rule div_le_mono)
  then show ?thesis by simp
qed

text \<open>The index of a sorted key list: what the record of a row holds.\<close>

lemma sint_of_nat_small: "n < 2 ^ 63 \<Longrightarrow> sint (of_nat n :: i64) = int n"
  using sint_of_int_i64 [of "int n"] by simp

lemma row_errors_nth:
  assumes "sorted_wrt (<) keys" "r < length keys" "length keys \<le> 2 ^ 26"
  defines "mn \<equiv> hd keys" and "pmul \<equiv> slope (length keys) (last keys - hd keys)"
  defines "P \<equiv> (unat (keys ! r - mn) * unat pmul) div 2 ^ 64"
  shows "row_errors keys mn pmul ! r = int r - int P" "P \<le> length keys - 1" "sint (predict mn pmul (keys ! r)) = int P"
proof -
  have srt: "sorted keys" using assms(1) by (rule strict_sorted_imp_sorted)
  have pos: "0 < length keys" using assms(2) by linarith
  then have ne: "keys \<noteq> []" by simp
  have "keys ! 0 \<le> keys ! r" by (rule sorted_nth_mono [OF srt le0 assms(2)])
  moreover have "keys ! r \<le> keys ! (length keys - 1)" using assms(2) pos by (intro sorted_nth_mono [OF srt]) linarith+
  ultimately have b: "hd keys \<le> keys ! r" "keys ! r \<le> last keys"
    unfolding hd_conv_nth [OF ne] last_conv_nth [OF ne] .
  show le: "P \<le> length keys - 1" unfolding P_def pmul_def mn_def by (rule slope_bound [OF b pos])
  have "P < 2 ^ 63" using le assms(3) by simp
  then show p: "sint (predict mn pmul (keys ! r)) = int P" by (simp add: predict_def P_def sint_of_nat_small)
  have "- (2 ^ 63) \<le> int r - int P" "int r - int P < 2 ^ 63" using le assms(2,3) by simp_all
  then show "row_errors keys mn pmul ! r = int r - int P"
    using assms(2) p by (simp add: row_errors_def nth_enumerate_eq wrap_i64_id)
qed

lemma length_row_errors [simp]: "length (row_errors keys mn pmul) = length keys"
  by (simp add: row_errors_def)

lemma fold_tl_min_max:
  fixes xs :: "'a :: linorder list"
  assumes "xs \<noteq> []"
  shows "fold min (tl xs) (hd xs) = Min (set xs)" "fold max (tl xs) (hd xs) = Max (set xs)"
  using assms by (cases xs; simp add: fold_min_max)+

lemma fp6_small: "unat (fp6 h) < 2 ^ 6"
  using fp6_bound [of h] by (simp add: word_less_nat_alt)

lemma candidate_present:
  assumes "pk_build keys = Some idx" "sorted_wrt (<) keys" "length keys \<le> 2 ^ 26" "r < length keys"
  shows "candidate idx (keys ! r) (hash_key (keys ! r) FP_SEED) (length keys) = Some r"
proof -
  let ?n = "length keys" and ?k = "keys ! r"
  have ne: "keys \<noteq> []" using assms(4) by auto
  obtain m where m: "mph_build keys = Some m" using assms(1) ne by (auto simp: pk_build_def split: option.splits)
  define mn where "mn = hd keys"
  define pmul where "pmul = slope ?n (last keys - mn)"
  define errs where "errs = row_errors keys mn pmul"
  define bias where "bias = Min (set errs)"
  define espan :: u64 where "espan = of_int (Max (set errs) - bias)"
  define ebits where "ebits = 64 - leading_zeros espan"
  have ene: "errs \<noteq> []" using ne by (simp add: errs_def row_errors_def enumerate_eq_zip)
  have idx: "pk_min idx = mn" "pk_mph idx = m" "pk_pmul idx = pmul" "pk_err_bias idx = of_int bias"
    "pk_ebits idx = ebits" "pk_emask idx = err_mask ebits"
    "pk_fpr idx = pack (fill_records m ebits bias (zip keys errs) (replicate ?n 0))"
    using assms(1) ne m fold_tl_min_max [OF ene]
    by (auto simp: pk_build_def Let_def mn_def pmul_def errs_def bias_def espan_def ebits_def)
  note er = row_errors_nth [OF assms(2) _ assms(3), folded mn_def, folded pmul_def, folded errs_def]
  have bnd: "- (2 ^ 26) \<le> x \<and> x < 2 ^ 26" if "x \<in> set errs" for x
  proof -
    from that obtain i where i: "i < ?n" "x = errs ! i" by (auto simp: in_set_conv_nth errs_def)
    from er(1,2) [OF i(1)] i assms(3) show ?thesis by simp
  qed
  have min: "bias \<in> set errs" "Max (set errs) \<in> set errs" using ene by (simp_all add: bias_def)
  have r: "r < length errs" using assms(4) by (simp add: errs_def)
  define off where "off = errs ! r - bias"
  have off: "0 \<le> off" "off \<le> Max (set errs) - bias" using r ene by (simp_all add: off_def bias_def)
  have span: "0 \<le> Max (set errs) - bias" "Max (set errs) - bias < 2 ^ 27" using off bnd [OF min(1)] bnd [OF min(2)] by auto
  have us: "unat espan = nat (Max (set errs) - bias)" using span unat_of_nat_u64 [of "nat (Max (set errs) - bias)"]
    by (simp add: espan_def)
  have e: "ebits = bit_len (unat espan)" by (simp add: ebits_def leading_zeros_width)
  have e27: "ebits \<le> 27" unfolding e by (rule bit_len_le) (use us span in simp)
  have uo: "unat (of_int off :: u64) = nat off" using off span unat_of_nat_u64 [of "nat off"] by simp
  have offe: "unat (of_int off :: u64) < 2 ^ ebits"
    using less_two_power_bit_len [of "unat espan"] off us uo e by simp
  note rf = rank_fields [OF fp6_small [of "hash_key ?k FP_SEED"] offe]
  have e64: "ebits mod 64 = ebits" "ebits \<le> 58" using e27 by simp_all
  have "mph_lookup m k < ?n" for k using mph_lookup_less [of m k] mph_build_lookup(2) [OF m ne assms(3)] ne by simp
  moreover have "distinct (map (\<lambda>(k, e). mph_lookup m k) (zip keys errs))"
  proof -
    have "map (\<lambda>(k, e). mph_lookup m k) (zip keys errs) = map (mph_lookup m) keys"
      by (rule nth_equalityI) (simp_all add: errs_def)
    then show ?thesis using mph_build_lookup(1) [OF m ne assms(3)] by simp
  qed
  moreover have "(?k, errs ! r) \<in> set (zip keys errs)" using assms(4) r by (auto simp: set_zip)
  ultimately have rec: "packed_get (pk_fpr idx) (mph_lookup m ?k) = rank_record ebits ?k off"
    using holds_get [OF holds_pack, of "mph_lookup m ?k" "fill_records m ebits bias (zip keys errs) (replicate ?n 0)"] assms(3)
      less_le_trans [of "mph_lookup m ?k" ?n "2 ^ 26"]
    by (simp add: idx off_def fill_records_nth)
  have rr: "rank_record ebits ?k off = push_bit ebits (fp6 (hash_key ?k FP_SEED)) OR of_int off"
    by (simp add: rank_record_def e64)
  have and_off: "rank_record ebits ?k off AND err_mask ebits = of_int off"
  proof (cases "ebits = 0")
    case True
    with offe show ?thesis by (simp add: err_mask_def unat_eq_zero)
  next
    case False
    then show ?thesis using rf(2) [OF e64(2)] by (simp add: rr err_mask_def e64)
  qed
  have sb: "scast (of_int bias :: 32 word) = (of_int bias :: i64)"
  proof -
    have "sint (of_int bias :: 32 word) = bias"
      using bnd [OF min(1)] by (simp add: sint_sbintrunc' signed_take_bit_int_eq_self)
    then show ?thesis by (simp add: scast_eq)
  qed
  define P where "P = (unat (?k - mn) * unat pmul) div 2 ^ 64"
  note erk = er [OF assms(4), folded P_def]
  have "predict mn pmul ?k + of_int bias + of_int off = (of_int (int P + bias + off) :: i64)"
    by (simp add: predict_def P_def)
  also have "int P + bias + off = int r" using erk(1) by (simp add: off_def)
  finally have "sint (predict mn pmul ?k + of_int bias + of_int off :: i64) = int r"
    using sint_of_nat_small [of r] assms(3,4) by simp
  then show ?thesis
    using rec rf(1) [OF e64(2)] assms(4)
    by (simp add: candidate_def Let_def idx e64 and_off sb clamp_row_def) (simp add: rr)
qed

lemma candidate_range: "candidate idx key fph len = Some row \<Longrightarrow> 0 < len \<Longrightarrow> row < len"
  by (auto simp: candidate_def Let_def clamp_row_def split: if_splits)

section \<open>Point lookup\<close>

text \<open>The contract of a point lookup, which the index and the search both keep: a probe of a sorted key list finds
  the first row of a key that is there, and nothing else.\<close>

locale point_lookup =
  fixes ok :: "'i \<Rightarrow> u64 list \<Rightarrow> bool"
    and probe :: "'i \<Rightarrow> nat \<Rightarrow> u64 \<Rightarrow> nat option"
  assumes sound: "ok i ks \<Longrightarrow> probe i (length ks) k = Some r \<Longrightarrow> r < length ks \<and> ks ! r = k"
    and complete: "ok i ks \<Longrightarrow> k \<in> set ks \<Longrightarrow> \<exists>r. probe i (length ks) k = Some r"
    and first: "ok i ks \<Longrightarrow> probe i (length ks) k = Some r \<Longrightarrow> r' < r \<Longrightarrow> ks ! r' \<noteq> k"
begin

lemma probe_eq:
  assumes "ok i ks"
  shows "probe i (length ks) k = (if k \<in> set ks then Some (index_of ks k) else None)"
proof (cases "k \<in> set ks")
  case True
  from complete [OF assms True] obtain r where r: "probe i (length ks) k = Some r" ..
  note s = sound [OF assms r] and f = first [OF assms r] and im = index_of_mem [OF True]
  have "\<not> index_of ks k < r" using f im by blast
  moreover have "\<not> r < index_of ks k"
  proof
    assume "r < index_of ks k"
    then have "ks ! r \<noteq> k" using takeWhile_nth [of r "\<lambda>y. y \<noteq> k" ks] nth_mem [of r "takeWhile (\<lambda>y. y \<noteq> k) ks"]
      by (auto simp: index_of_def dest: set_takeWhileD)
    with s show False by simp
  qed
  ultimately show ?thesis using True r by simp
next
  case False
  then have "probe i (length ks) k \<noteq> Some r" for r using sound [OF assms, of k r] nth_mem by blast
  then have "probe i (length ks) k = None" by (cases "probe i (length ks) k") auto
  with False show ?thesis by simp
qed

end

definition lanes_are :: "packed_column \<Rightarrow> u64 list \<Rightarrow> bool" where
  "lanes_are kc ks \<longleftrightarrow> ks = map (pc_lane kc) [0..<length ks] \<and> length ks \<le> 2 ^ 26"

definition index_probe :: "pk_index \<times> packed_column \<Rightarrow> nat \<Rightarrow> u64 \<Rightarrow> nat option" where
  "index_probe ik len k = (case candidate (fst ik) k (hash_key k FP_SEED) len of
     None \<Rightarrow> None | Some row \<Rightarrow> if pc_lane (snd ik) row \<noteq> k then None else Some row)"

definition search_probe :: "packed_column \<Rightarrow> nat \<Rightarrow> u64 \<Rightarrow> nat option" where
  "search_probe kc len k =
     (let row = packed_lower_bound (pc_lanes kc) len k in if row < len \<and> pc_lane kc row = k then Some row else None)"

lemma lanes_are_nth: "lanes_are kc ks \<Longrightarrow> i < length ks \<Longrightarrow> pc_lane kc i = ks ! i"
proof -
  assume ks: "lanes_are kc ks" and i: "i < length ks"
  from ks have "ks ! i = map (pc_lane kc) [0..<length ks] ! i" by (simp add: lanes_are_def)
  with i show "pc_lane kc i = ks ! i" by simp
qed

interpretation index_path: point_lookup
  "\<lambda>ik ks. pk_build ks = Some (fst ik) \<and> sorted_wrt (<) ks \<and> lanes_are (snd ik) ks" index_probe
proof unfold_locales
  fix ik :: "pk_index \<times> packed_column" and ks k r r'
  assume ok: "pk_build ks = Some (fst ik) \<and> sorted_wrt (<) ks \<and> lanes_are (snd ik) ks"
  have ne: "0 < length ks" using ok by (auto simp: pk_build_def)
  have s: "r < length ks \<and> ks ! r = k" if "index_probe ik (length ks) k = Some r" for r
    using that candidate_range [OF _ ne] ok lanes_are_nth by (auto simp: index_probe_def split: option.splits if_splits)
  show "index_probe ik (length ks) k = Some r \<Longrightarrow> r < length ks \<and> ks ! r = k" by (rule s)
  show "\<exists>r. index_probe ik (length ks) k = Some r" if "k \<in> set ks"
  proof -
    from that obtain j where j: "j < length ks" "ks ! j = k" by (auto simp: in_set_conv_nth)
    from candidate_present [of ks "fst ik" j] ok j lanes_are_nth show ?thesis
      by (auto simp: index_probe_def lanes_are_def)
  qed
  show "ks ! r' \<noteq> k" if "index_probe ik (length ks) k = Some r" "r' < r"
    using s [OF that(1)] sorted_wrt_nth_less [of "(<)" ks r' r] ok that(2) by auto
qed

interpretation search_path: point_lookup "\<lambda>kc ks. sorted ks \<and> lanes_are kc ks" search_probe
proof unfold_locales
  fix kc ks k r r'
  assume ok: "sorted ks \<and> lanes_are kc ks"
  have at: "packed_get (pc_lanes kc) i = ks ! i" if "i < length ks" for i
    using lanes_are_nth [of kc ks i] ok that by (simp add: pc_lane_def)
  have mono: "packed_get (pc_lanes kc) i \<le> packed_get (pc_lanes kc) j" if "i \<le> j" "j < length ks" for i j
    using at that ok by (simp add: sorted_nth_mono)
  note lb = bitpack.lb_at [where p = "pc_lanes kc" and n = "length ks" and t = k, OF mono]
  show "search_probe kc (length ks) k = Some r \<Longrightarrow> r < length ks \<and> ks ! r = k"
    using at by (auto simp: search_probe_def Let_def pc_lane_def split: if_splits)
  show "\<exists>r. search_probe kc (length ks) k = Some r" if "k \<in> set ks"
  proof -
    let ?l = "packed_lower_bound (pc_lanes kc) (length ks) k"
    from that obtain j where j: "j < length ks" "ks ! j = k" by (auto simp: in_set_conv_nth)
    have "\<not> j < ?l" using lb(2) [OF _ _ j(1)] at [OF j(1)] j(2) by simp
    then have l: "?l \<le> j" "?l < length ks" using j(1) by simp_all
    then have "\<not> packed_get (pc_lanes kc) ?l < k" using lb(2) [OF _ _ l(2)] by simp
    moreover have "ks ! ?l \<le> k" using ok l(1) j sorted_nth_mono by blast
    ultimately have "pc_lane kc ?l = k" using at [OF l(2)] by (simp add: pc_lane_def)
    with l(2) show ?thesis by (simp add: search_probe_def)
  qed
  show "ks ! r' \<noteq> k" if "search_probe kc (length ks) k = Some r" "r' < r"
  proof -
    from that(1) have r: "r = packed_lower_bound (pc_lanes kc) (length ks) k" "r < length ks"
      by (auto simp: search_probe_def Let_def split: if_splits)
    then have "packed_get (pc_lanes kc) r' < k" using lb(2) [of r'] that(2) by simp
    then show ?thesis using at [of r'] r(2) that(2) by simp
  qed
qed

lemma find_key_probe:
  assumes "at (g_columns g) c = Some kc"
  shows "map_option fst (find_key g c key (hash_key key FP_SEED) st) =
    Some (case g_pk g of Some idx \<Rightarrow> index_probe (idx, kc) (g_len g) key | None \<Rightarrow> search_probe kc (g_len g) key)"
  using assms by (auto simp: find_key_def index_probe_def search_probe_def Let_def split: option.split)

lemma build_sel_Some:
  assumes "build_sel b s e perm sc pkc = Some g"
  shows "s \<le> e" "g_len g = e - s" "granule_columns b s e perm = Some (g_columns g)"
    "sort_bounds (g_columns g) (e - s) sc = Some (sort_min g, sort_max g)"
    "granule_index (g_columns g) (e - s) pkc = Some (g_pk g)"
  using assms by (auto simp: build_sel_def split: if_splits option.splits prod.splits)

lemma find_key_spec:
  assumes g: "build_sel b s e perm sc (Some c) = Some g" and c: "c < length (g_columns g)" and len: "g_len g \<le> 2 ^ 26"
  defines "keys \<equiv> map (pc_lane (g_columns g ! c)) [0..<g_len g]"
  assumes srt: "sorted keys"
  shows "map_option fst (find_key g c key (hash_key key FP_SEED) st) =
    Some (if key \<in> set keys then Some (index_of keys key) else None)"
proof -
  let ?kc = "g_columns g ! c"
  note gs = build_sel_Some [OF g]
  have at: "at (g_columns g) c = Some ?kc" using c by simp
  have lk: "length keys = g_len g" "lanes_are ?kc keys" using len by (simp_all add: keys_def lanes_are_def)
  note fk = find_key_probe [OF at, of key st]
  show ?thesis
  proof (cases "g_pk g")
    case None
    with fk search_path.probe_eq [of keys ?kc key] srt lk show ?thesis by simp
  next
    case (Some idx)
    with gs(5) at have "pk_build keys = Some idx" "increasing keys"
      by (auto simp: granule_index_def Let_def keys_def gs(2) [symmetric] split: if_splits)
    with fk Some index_path.probe_eq [of keys "(idx, ?kc)" key] lk show ?thesis by (simp add: increasing_sorted)
  qed
qed

lemma pk_parts_candidate:
  assumes "pk_build keys = Some idx" "length keys \<le> 2 ^ 26"
  shows "\<exists>idx'. pk_from_parts (pk_to_parts idx) = Inr idx' \<and>
    (\<forall>k fph len. candidate idx' k fph len = candidate idx k fph len)"
proof -
  have ne: "keys \<noteq> []" using assms(1) by (auto simp: pk_build_def)
  obtain m recs where m: "mph_build keys = Some m" and idx: "pk_mph idx = m" "pk_fpr idx = pack recs" "length recs = length keys"
    "pk_emask idx = err_mask (pk_ebits idx)"
    using assms(1) ne by (auto simp: pk_build_def Let_def split: option.splits)
  obtain m' where m': "(case mph_to_parts m of (gs, nb, n, b, w, ws) \<Rightarrow> mph_from_parts gs nb n b w ws) = Inr m'"
    "\<And>k. mph_lookup m' k = mph_lookup m k"
    using mph_build_lookup(3) [OF m ne assms(2)] by blast
  have lt: "mph_lookup m k < length keys" for k
    using mph_lookup_less [of m k] mph_build_lookup(2) [OF m ne assms(2)] ne by simp
  let ?f = "from_parts (p_base (pk_fpr idx)) (p_width (pk_fpr idx)) (p_words (pk_fpr idx))"
  have "holds ?f recs" "holds (pk_fpr idx) recs" using holds_from_parts(1) [OF holds_pack] holds_pack by (simp_all add: idx(2))
  then have get: "packed_get ?f (mph_lookup m k) = packed_get (pk_fpr idx) (mph_lookup m k)" for k
    using holds_get [of _ recs "mph_lookup m k"] lt [of k] assms(2) idx(3) by simp
  let ?i = "\<lparr>pk_min = pk_min idx, pk_max = pk_max idx, pk_mph = m', pk_fpr = ?f, pk_pmul = pk_pmul idx,
    pk_err_bias = pk_err_bias idx, pk_ebits = pk_ebits idx, pk_emask = err_mask (pk_ebits idx)\<rparr>"
  have "pk_from_parts (pk_to_parts idx) = Inr ?i"
    using m'(1) by (auto simp: pk_from_parts_def pk_to_parts_def idx(1) split: prod.splits)
  moreover have "candidate ?i k fph len = candidate idx k fph len" for k fph len
    by (simp add: candidate_def Let_def m'(2) get idx(1,4))
  ultimately show ?thesis by blast
qed

section \<open>The rows of a granule\<close>

definition row_ids :: "nat list option \<Rightarrow> nat \<Rightarrow> nat \<Rightarrow> nat list" where
  "row_ids perm s e = (case perm of None \<Rightarrow> [s..<e] | Some p \<Rightarrow> slice p s e)"

definition gatherable :: "column \<Rightarrow> nat list \<Rightarrow> bool" where
  "gatherable c idx \<longleftrightarrow> col_wf c \<and> (\<forall>i \<in> set idx. i < col_len c) \<and> length idx \<le> 2 ^ 26 \<and>
     (case col_data c of CStr v \<Rightarrow> encodable (map ((!) v) idx) | _ \<Rightarrow> True)"

lemma packed_rows:
  assumes "gatherable c idx" "represents c' (col_ty c) (map ((!) (cells c)) idx)"
    "\<And>v. col_data c = CStr v \<Longrightarrow> col_data c' = CStr (map ((!) v) idx)"
  shows "packable c'"
proof -
  have len: "col_len c' = length idx" using assms(2) length_cells [of c'] by (simp add: represents_def)
  have ph: "cd_physical (col_data c') = cd_physical (col_data c)" using assms(1,2) by (simp add: represents_def gatherable_def col_wf_def)
  show ?thesis
  proof (cases "col_data c")
    case (CStr v)
    then show ?thesis using assms(1,2) assms(3) [OF CStr] len by (simp add: packable_def represents_def gatherable_def)
  qed (use assms(1,2) ph len in \<open>auto simp: packable_def represents_def gatherable_def cd_physical_def split: column_data.splits\<close>)
qed

lemma granule_column:
  assumes "gatherable c idx"
  shows "idx = [s..<e] \<Longrightarrow> s \<le> e \<Longrightarrow> e \<le> col_len c \<Longrightarrow>
      \<exists>c'. col_slice c s e = Some c' \<and> packable c' \<and> represents c' (col_ty c) (map ((!) (cells c)) idx)"
    "\<exists>c'. col_take c idx = Some c' \<and> packable c' \<and> represents c' (col_ty c) (map ((!) (cells c)) idx)"
proof -
  have c: "represents c (col_ty c) (cells c)" using assms(1) by (simp add: represents_def gatherable_def)
  show "\<exists>c'. col_slice c s e = Some c' \<and> packable c' \<and> represents c' (col_ty c) (map ((!) (cells c)) idx)"
    if idx: "idx = [s..<e]" and se: "s \<le> e" "e \<le> col_len c"
  proof -
    from block_columns.range_rep [OF c se(1)] se(2) obtain c' where c': "col_slice c s e = Some c'"
      "represents c' (col_ty c) (slice (cells c) s e)" by auto
    have sl: "slice xs s e = map ((!) xs) idx" if "e \<le> length xs" for xs :: "'a list"
      using that se(1) by (intro nth_equalityI) (simp_all add: idx slice_nth)
    from c'(2) have "represents c' (col_ty c) (map ((!) (cells c)) idx)" using sl [of "cells c"] se(2) by simp
    moreover have "col_data c' = CStr (map ((!) v) idx)" if "col_data c = CStr v" for v
      using c'(1) that sl [of v] se by (auto simp: col_slice_def cd_slice_def get_range_def col_len_def cd_len_def)
    ultimately show ?thesis using c'(1) packed_rows [OF assms(1)] by blast
  qed
  from assms(1) have "\<forall>i \<in> set idx. i < length (cells c)" by (simp add: gatherable_def)
  from block_columns.gather_rep [OF c this] obtain c' where c': "col_take c idx = Some c'"
    "represents c' (col_ty c) (map ((!) (cells c)) idx)" by blast
  moreover have "col_data c' = CStr (map ((!) v) idx)" if "col_data c = CStr v" for v
    using c'(1) that by (auto simp: col_take_def cd_take_def pick_def split: if_splits)
  ultimately show "\<exists>c'. col_take c idx = Some c' \<and> packable c' \<and> represents c' (col_ty c) (map ((!) (cells c)) idx)"
    using packed_rows [OF assms(1)] by blast
qed

lemma those_map_nth: "those (map f xs) = Some ys \<Longrightarrow> length ys = length xs \<and> (\<forall>k < length xs. f (xs ! k) = Some (ys ! k))"
proof (induction xs arbitrary: ys)
  case (Cons x xs)
  then obtain y ys' where y: "f x = Some y" "those (map f xs) = Some ys'" "ys = y # ys'"
    by (auto split: option.splits)
  from Cons.IH [OF y(2)] y(1,3) show ?case by (auto simp: nth_Cons split: nat.split)
qed simp

lemma granule_width: "build_sel b s e perm sc pkc = Some g \<Longrightarrow> length (g_columns g) = length (blk_columns b)"
  using build_sel_Some(3) [of b s e perm sc pkc g] those_map_nth
  by (auto simp: granule_columns_def split: option.splits if_splits)

lemma granule_packs:
  assumes g: "build_sel b s e perm sc pkc = Some g" and k: "k < length (blk_columns b)"
    and ok: "gatherable (blk_columns b ! k) (row_ids perm s e)"
  shows "\<exists>c'. g_columns g ! k = pc_build c' \<and> packable c'
    \<and> represents c' (col_ty (blk_columns b ! k)) (map ((!) (cells (blk_columns b ! k))) (row_ids perm s e))"
proof -
  note gs = build_sel_Some [OF g]
  let ?c = "blk_columns b ! k"
  show ?thesis
  proof (cases perm)
    case None
    from gs(3) None have th: "those (map (\<lambda>c. map_option pc_build (col_slice c s e)) (blk_columns b)) = Some (g_columns g)"
      by (simp add: granule_columns_def)
    from those_map_nth [OF th] k have n: "map_option pc_build (col_slice ?c s e) = Some (g_columns g ! k)" by auto
    have ids: "row_ids perm s e = [s..<e]" using None by (simp add: row_ids_def)
    have "e \<le> col_len ?c" using n by (auto simp: col_slice_def col_len_def cd_slice_def get_range_def cd_len_def split: column_data.splits if_splits)
    with granule_column(1) [of ?c "[s..<e]" s e] ok ids gs(1) n show ?thesis by (metis option.inject option.map(2))
  next
    case (Some p)
    show ?thesis
    proof (cases "get_range p s e")
      case None
      with gs(3) Some k show ?thesis by (auto simp: granule_columns_def split: if_splits)
    next
      case (Some idx)
      with gs(3) \<open>perm = Some p\<close> have th: "those (map (\<lambda>c. map_option pc_build (col_take c idx)) (blk_columns b)) = Some (g_columns g)"
        by (simp add: granule_columns_def)
      from those_map_nth [OF th] k have n: "map_option pc_build (col_take ?c idx) = Some (g_columns g ! k)" by auto
      have ids: "row_ids perm s e = idx"
        using Some \<open>perm = Some p\<close> by (auto simp: row_ids_def get_range_def split: if_splits)
      with granule_column(2) [of ?c idx] ok n show ?thesis by (metis option.inject option.map(2))
    qed
  qed
qed

lemma length_row_ids:
  assumes "build_sel b s e perm sc pkc = Some g" "blk_columns b \<noteq> []"
  shows "length (row_ids perm s e) = g_len g"
  using build_sel_Some [OF assms(1)] assms(2)
  by (auto simp: row_ids_def granule_columns_def get_range_def split: option.splits if_splits)

lemma granule_rows:
  assumes g: "build_sel b s e perm sc pkc = Some g" and k: "k < length (blk_columns b)"
    and ok: "gatherable (blk_columns b ! k) (row_ids perm s e)" and i: "i < g_len g"
  shows "length (g_columns g) = length (blk_columns b)
    \<and> pc_value (g_columns g ! k) i = Some (canon_cell (cells (blk_columns b ! k) ! (row_ids perm s e ! i)))"
proof -
  obtain c' where c': "g_columns g ! k = pc_build c'" "packable c'"
    "represents c' (col_ty (blk_columns b ! k)) (map ((!) (cells (blk_columns b ! k))) (row_ids perm s e))"
    using granule_packs [OF g k ok] by blast
  have len: "i < length (row_ids perm s e)" using length_row_ids [OF g] k i by fastforce
  then have "i < col_len c'" using c'(3) length_cells [of c'] by (simp add: represents_def)
  from pc_value_spec [OF packs_build c'(2) this] c'(1,3) len granule_width [OF g] show ?thesis by (simp add: represents_def)
qed

lemma granule_sort_bounds:
  assumes g: "build_sel b s e perm (Some c) pkc = Some g" and i: "i < g_len g"
    and srt: "sorted (map (pc_lane (g_columns g ! c)) [0..<g_len g])"
  shows "sort_min g \<le> pc_lane (g_columns g ! c) i \<and> pc_lane (g_columns g ! c) i \<le> sort_max g"
proof -
  note gs = build_sel_Some [OF g]
  have len: "0 < e - s" "g_len g = e - s" using i gs(2) by simp_all
  from gs(4) len have "sort_min g = pc_lane (g_columns g ! c) 0" "sort_max g = pc_lane (g_columns g ! c) (g_len g - 1)"
    by (auto simp: sort_bounds_def at_def split: if_splits)
  moreover have "pc_lane (g_columns g ! c) x \<le> pc_lane (g_columns g ! c) y" if "x \<le> y" "y < g_len g" for x y
    using sorted_nth_mono [OF srt, of x y] that by simp
  ultimately show ?thesis using i by simp
qed

section \<open>Properties\<close>

text \<open>C13: A point lookup in a granule is exact. On a granule built with its key column sorted, a probe for any key returns the first row
  that holds the key when there is one and nothing otherwise, both through the learned-rank index (perfect
  hash, fingerprint, predicted row) and through the search that duplicate keys fall back to; and the index
  reassembled from its stored parts answers every probe the same.\<close>

theorem find_key_exact:
  assumes "build_sel b s e perm sc (Some c) = Some g" "c < length (g_columns g)" "g_len g \<le> 2 ^ 26"
    "sorted (map (pc_lane (g_columns g ! c)) [0..<g_len g])"
  shows "map_option fst (find_key g c key (hash_key key FP_SEED) st) =
      Some (if key \<in> set (map (pc_lane (g_columns g ! c)) [0..<g_len g])
            then Some (index_of (map (pc_lane (g_columns g ! c)) [0..<g_len g]) key) else None)
    \<and> (case g_pk g of None \<Rightarrow> True
       | Some idx \<Rightarrow> \<exists>idx'. pk_from_parts (pk_to_parts idx) = Inr idx' \<and>
           find_key (g\<lparr>g_pk := Some idx'\<rparr>) c key fph st = find_key g c key fph st)"
proof
  show "map_option fst (find_key g c key (hash_key key FP_SEED) st) =
      Some (if key \<in> set (map (pc_lane (g_columns g ! c)) [0..<g_len g])
            then Some (index_of (map (pc_lane (g_columns g ! c)) [0..<g_len g]) key) else None)"
    using assms by (rule find_key_spec)
  show "case g_pk g of None \<Rightarrow> True
     | Some idx \<Rightarrow> \<exists>idx'. pk_from_parts (pk_to_parts idx) = Inr idx' \<and>
         find_key (g\<lparr>g_pk := Some idx'\<rparr>) c key fph st = find_key g c key fph st"
  proof (cases "g_pk g")
    case (Some idx)
    have "granule_index (g_columns g) (g_len g) (Some c) = Some (Some idx)"
      using build_sel_Some(2,5) [OF assms(1)] Some by simp
    then have "pk_build (map (pc_lane (g_columns g ! c)) [0..<g_len g]) = Some idx"
      using assms(2) by (auto simp: granule_index_def Let_def split: if_splits)
    from pk_parts_candidate [OF this] assms(3) obtain idx' where "pk_from_parts (pk_to_parts idx) = Inr idx'"
      "\<And>k fph len. candidate idx' k fph len = candidate idx k fph len" by auto
    with Some show ?thesis by (auto simp: find_key_def)
  qed simp
qed

text \<open>A granule holds the rows it was built from: cell \<open>i\<close> of every packed column is the cell of row \<open>perm[s + i]\<close> of the block
  (row \<open>s + i\<close> without a permutation), up to the canonical form of doubles; and when the sort column is
  ascending, the cached sort bounds enclose all its lanes.\<close>

theorem granule_holds_rows:
  assumes "build_sel b s e perm (Some c) pkc = Some g" "i < g_len g"
  shows "(k < length (blk_columns b) \<and> gatherable (blk_columns b ! k) (row_ids perm s e) \<longrightarrow>
      pc_value (g_columns g ! k) i = Some (canon_cell (cells (blk_columns b ! k) ! (row_ids perm s e ! i))))
    \<and> (sorted (map (pc_lane (g_columns g ! c)) [0..<g_len g]) \<longrightarrow>
      sort_min g \<le> pc_lane (g_columns g ! c) i \<and> pc_lane (g_columns g ! c) i \<le> sort_max g)"
  using granule_rows [OF assms(1)] granule_sort_bounds [OF assms] assms(2) by blast

text \<open>A granule of two rows with its index.\<close>

definition two_rows :: block where
  "two_rows = \<lparr>blk_columns = [col_new UInt64 (CU64 [10, 500])], blk_rows = 2\<rparr>"

lemma two_rows_column: "represents (col_new UInt64 (CU64 [10, 500])) UInt64 [VUInt 10, VUInt 500]"
  by (simp add: represents_def col_wf_def col_new_def cells_def col_value_def col_is_null_def cd_physical_def col_len_def
      cd_len_def raw_cell_def at_def)

lemma two_rows_granule:
  "\<exists>g. build_sel two_rows 0 2 None (Some 0) (Some 0) = Some g \<and> g_len g = 2 \<and> length (g_columns g) = 1
    \<and> map (pc_lane (g_columns g ! 0)) [0..<2] = [10, 500]"
proof -
  let ?c = "col_new UInt64 (CU64 [10, 500])"
  let ?pc = "pc_build ?c"
  have wf: "packable ?c" using two_rows_column by (simp add: packable_def represents_def col_new_def col_len_def cd_len_def)
  have sl: "col_slice ?c 0 2 = Some ?c"
    by (simp add: col_slice_def cd_slice_def get_range_def col_new_def keep_nulls_def slice_def)
  have "pc_lane ?pc 0 = 10" "pc_lane ?pc 1 = 500"
    using packs_get [OF packs_build wf, of 0] packs_get [OF packs_build wf, of 1]
    by (simp_all add: pc_lane_def raw_lanes_def col_new_def col_len_def cd_len_def)
  then have lanes: "map (pc_lane ?pc) [0..<2] = [10, 500]" by (simp add: upt_rec)
  obtain idx where "pk_build [10, 500] = Some idx" using mph_example by (auto simp: pk_build_def Let_def)
  then show ?thesis
    using lanes by (simp add: build_sel_def granule_columns_def two_rows_def sl sort_bounds_def granule_index_def at_def)
qed

theorem find_key_exact_witness:
  "\<exists>g. build_sel two_rows 0 2 None (Some 0) (Some 0) = Some g \<and>
    map_option fst (find_key g 0 500 (hash_key 500 FP_SEED)
      \<lparr>bloom_negative = 0, fingerprint_negative = 0, zone_pruned_point = 0, zone_pruned_scan = 0, granules_scanned = 0,
       mph_probes = 0, false_probe = 0, rows_scanned = 0\<rparr>) = Some (Some 1)"
proof -
  obtain g where "build_sel two_rows 0 2 None (Some 0) (Some 0) = Some g \<and> g_len g = 2 \<and> length (g_columns g) = 1
    \<and> map (pc_lane (g_columns g ! 0)) [0..<2] = [10, 500]"
    using two_rows_granule ..
  then have g: "build_sel two_rows 0 2 None (Some 0) (Some 0) = Some g" "g_len g = 2" "length (g_columns g) = 1"
    "map (pc_lane (g_columns g ! 0)) [0..<2] = [10, 500]"
    by safe
  have keys: "map (pc_lane (g_columns g ! 0)) [0..<g_len g] = [10, 500]" unfolding g(2) by (rule g(4))
  have "index_of [10, 500 :: u64] 500 = 1" by (simp add: index_of_def)
  then have "map_option fst (find_key g 0 500 (hash_key 500 FP_SEED) st) = Some (Some 1)" for st
    using find_key_exact [OF g(1), unfolded keys, where key = 500 and st = st] g(2,3) by simp
  with g(1) show ?thesis by blast
qed

theorem granule_holds_rows_witness:
  "\<exists>g. build_sel two_rows 0 2 None (Some 0) (Some 0) = Some g \<and> pc_value (g_columns g ! 0) 1 = Some (VUInt 500)"
proof -
  let ?c = "col_new UInt64 (CU64 [10, 500])"
  obtain g where g: "build_sel two_rows 0 2 None (Some 0) (Some 0) = Some g" "g_len g = 2" using two_rows_granule by blast
  have c: "cells ?c = [VUInt 10, VUInt 500]" "col_wf ?c" using two_rows_column by (simp_all add: represents_def)
  have "gatherable ?c (row_ids None 0 2)" using c(2) by (simp add: gatherable_def row_ids_def col_new_def col_len_def cd_len_def)
  with granule_holds_rows [OF g(1), of 1 0] g c(1) show ?thesis by (auto simp: two_rows_def row_ids_def upt_rec)
qed

end
