(* ===== verification/Delta_Buffer.thy ===== *)
theory Delta_Buffer
  imports Packed_Column Radix_Sort "HOL-Library.AList"
begin

text \<open>
  The write buffer in front of the parts, \<^verbatim>\<open>src/storage/delta.rs\<close>: rows as \<open>u64\<close> lanes in one arena, a hash index from
  primary-key lane to row slot, tombstones for deleted keys. The index is an association list with distinct keys, in the
  order the hash map would iterate; nothing shown depends on that order. Shown: the buffer implements a map from
  keys to rows or deletions (\<open>buffer_view\<close>) under the invariant \<open>delta_inv\<close>, which every operation keeps, errors included;
  draining gives back the live rows, and the frozen image is sorted by key. Capacities and reservations have no
  effect on results and are left out. A panic is \<open>None\<close>.
\<close>

section \<open>Definitions\<close>

type_synonym slot = u32

definition TOMBSTONE :: slot where
  "TOMBSTONE = - 1"

datatype delta_entry = Put slot | Del

record delta =
  d_ncols :: nat
  d_lanes :: "u64 list"
  d_nrows :: nat
  d_nulls :: bitset
  d_has_nulls :: bool
  d_strs :: "bytes list"
  d_types :: "data_type list"
  d_phys :: "physical_type list"
  d_index :: "(u64 \<times> slot) list"
  d_dead :: nat
  d_keyed :: bool

definition delta_new :: "bool \<Rightarrow> data_type list \<Rightarrow> delta" where
  "delta_new keyed tys =
     \<lparr>d_ncols = length tys, d_lanes = [], d_nrows = 0, d_nulls = bitset_new, d_has_nulls = False, d_strs = [],
      d_types = tys, d_phys = map physical tys, d_index = [], d_dead = 0, d_keyed = keyed\<rparr>"

definition delta_len :: "delta \<Rightarrow> nat" where
  "delta_len d = (if d_keyed d then length (d_index d) else d_nrows d)"

definition delta_is_empty :: "delta \<Rightarrow> bool" where
  "delta_is_empty d = (delta_len d = 0)"

definition live_rows :: "delta \<Rightarrow> nat" where
  "live_rows d = d_nrows d - d_dead d"

text \<open>The parts of the buffer a cell write touches: null bits, the flag, the string table.\<close>

record cell_store =
  cs_nulls :: bitset
  cs_has_nulls :: bool
  cs_strs :: "bytes list"

definition fast_lane :: "physical_type \<Rightarrow> cell \<Rightarrow> u64 option" where
  "fast_lane p v = (case (p, v) of
     (U64, VUInt x) \<Rightarrow> Some x
   | (I64, VInt x) \<Rightarrow> Some (i64_to_lane x)
   | (F64, VFloat x) \<Rightarrow> Some (f64_to_lane x)
   | _ \<Rightarrow> None)"

definition encode_cell ::
  "float_text \<Rightarrow> physical_type \<Rightarrow> data_type \<Rightarrow> cell \<Rightarrow> nat \<Rightarrow> cell_store \<Rightarrow> u64 result \<times> cell_store" where
  "encode_cell ft p t v cell cs =
     (case if cs_has_nulls cs then None else fast_lane p v of
        Some l \<Rightarrow> (Inr l, cs)
      | None \<Rightarrow>
          if v = VNull then (Inr 0, cs\<lparr>cs_nulls := snd (bitset_set (cs_nulls cs) cell), cs_has_nulls := True\<rparr>)
          else let cs = (if cs_has_nulls cs then cs\<lparr>cs_nulls := snd (bitset_clear (cs_nulls cs) cell)\<rparr> else cs)
               in if p = Str
                  then (let cs = cs\<lparr>cs_strs := cs_strs cs @ [str_text ft v]\<rparr>
                        in (Inr (of_nat (length (cs_strs cs)) - 1), cs))
                  else (to_lane_phys ft v p t, cs))"

text \<open>
  The loop over the cells of one row: the lanes written before an error are kept in the result, since an
  overwrite works in place. A short row reads as NULL past its end.
\<close>

fun write_cells ::
  "float_text \<Rightarrow> (physical_type \<times> data_type) list \<Rightarrow> cell list \<Rightarrow> nat \<Rightarrow> cell_store \<Rightarrow> unit result \<times> u64 list \<times> cell_store" where
  "write_cells ft [] row cell cs = (Inr (), [], cs)"
| "write_cells ft ((p, t) # pts) row cell cs =
     (let v = (case row of [] \<Rightarrow> VNull | x # _ \<Rightarrow> x) in
      case encode_cell ft p t v cell cs of
        (Inl e, cs) \<Rightarrow> (Inl e, [], cs)
      | (Inr l, cs) \<Rightarrow> (case write_cells ft pts (tl row) (cell + 1) cs of (r, ls, cs) \<Rightarrow> (r, l # ls, cs)))"

definition store_of :: "delta \<Rightarrow> cell_store" where
  "store_of d = \<lparr>cs_nulls = d_nulls d, cs_has_nulls = d_has_nulls d, cs_strs = d_strs d\<rparr>"

definition with_store :: "delta \<Rightarrow> cell_store \<Rightarrow> delta" where
  "with_store d cs = d\<lparr>d_nulls := cs_nulls cs, d_has_nulls := cs_has_nulls cs, d_strs := cs_strs cs\<rparr>"

abbreviation kinds_of :: "delta \<Rightarrow> (physical_type \<times> data_type) list" where
  "kinds_of d \<equiv> zip (d_phys d) (d_types d)"

text \<open>Appending a row, shared by \<open>push_row\<close> and the fresh-slot arm of \<open>put_keyed\<close>: on an error the arena is not extended.\<close>

definition append_row :: "float_text \<Rightarrow> delta \<Rightarrow> cell list \<Rightarrow> slot result \<times> delta" where
  "append_row ft d row =
     (case write_cells ft (kinds_of d) row (length (d_lanes d)) (store_of d) of
        (Inl e, _, cs) \<Rightarrow> (Inl e, with_store d cs)
      | (Inr _, ls, cs) \<Rightarrow>
          (Inr (of_nat (d_nrows d)), (with_store d cs)\<lparr>d_lanes := d_lanes d @ ls, d_nrows := d_nrows d + 1\<rparr>))"

definition push_row :: "float_text \<Rightarrow> delta \<Rightarrow> cell list \<Rightarrow> slot result \<times> delta" where
  "push_row ft d row = append_row ft d row"

definition overwrite :: "u64 list \<Rightarrow> nat \<Rightarrow> u64 list \<Rightarrow> u64 list" where
  "overwrite lanes off ls = take off lanes @ ls @ drop (off + length ls) lanes"

definition put_keyed :: "float_text \<Rightarrow> delta \<Rightarrow> u64 \<Rightarrow> cell list \<Rightarrow> (unit result \<times> delta) option" where
  "put_keyed ft d key row =
     (case map_of (d_index d) key of
        Some s \<Rightarrow>
          if s \<noteq> TOMBSTONE
          then let off = unat s * d_ncols d
               in if off + d_ncols d \<le> length (d_lanes d)
                  then (case write_cells ft (kinds_of d) row off (store_of d) of
                          (r, ls, cs) \<Rightarrow> Some (r, (with_store d cs)\<lparr>d_lanes := overwrite (d_lanes d) off ls\<rparr>))
                  else None
          else (case append_row ft d row of
                  (Inl e, d) \<Rightarrow> Some (Inl e, d)
                | (Inr slot, d) \<Rightarrow> Some (Inr (), d\<lparr>d_index := AList.update key slot (d_index d)\<rparr>))
      | None \<Rightarrow>
          (case append_row ft d row of
             (Inl e, d) \<Rightarrow> Some (Inl e, d)
           | (Inr slot, d) \<Rightarrow> Some (Inr (), d\<lparr>d_index := AList.update key slot (d_index d)\<rparr>)))"

definition delete_keyed :: "delta \<Rightarrow> u64 \<Rightarrow> delta" where
  "delete_keyed d key =
     (let dead = (case map_of (d_index d) key of Some s \<Rightarrow> if s \<noteq> TOMBSTONE then d_dead d + 1 else d_dead d | None \<Rightarrow> d_dead d)
      in d\<lparr>d_dead := dead, d_index := AList.update key TOMBSTONE (d_index d)\<rparr>)"

definition delta_append :: "float_text \<Rightarrow> delta \<Rightarrow> cell list \<Rightarrow> unit result \<times> delta" where
  "delta_append ft d row = (case push_row ft d row of (Inl e, d) \<Rightarrow> (Inl e, d) | (Inr _, d) \<Rightarrow> (Inr (), d))"

definition delta_get :: "delta \<Rightarrow> u64 \<Rightarrow> delta_entry option" where
  "delta_get d key = map_option (\<lambda>s. if s = TOMBSTONE then Del else Put s) (map_of (d_index d) key)"

definition delta_lane_to_value :: "physical_type \<Rightarrow> data_type \<Rightarrow> u64 \<Rightarrow> cell" where
  "delta_lane_to_value phys ty lane = (case base ty of
     Bool \<Rightarrow> VBool (lane \<noteq> 0)
   | Date \<Rightarrow> VDate (ucast lane)
   | DateTime \<Rightarrow> (case phys of I64 \<Rightarrow> VDateTime (lane_to_i64 lane) | _ \<Rightarrow> VDateTime lane)
   | _ \<Rightarrow> (case phys of
        U64 \<Rightarrow> VUInt lane
      | I64 \<Rightarrow> VInt (lane_to_i64 lane)
      | F64 \<Rightarrow> VFloat (lane_to_f64 lane)
      | Str \<Rightarrow> VNull))"

definition decode_lane :: "delta \<Rightarrow> nat \<Rightarrow> u64 \<Rightarrow> cell option" where
  "decode_lane d col lane = (case at (d_phys d) col of
     None \<Rightarrow> None
   | Some Str \<Rightarrow> Some (if unat lane < length (d_strs d) then VStr (d_strs d ! unat lane) else VNull)
   | Some p \<Rightarrow> map_option (\<lambda>t. delta_lane_to_value p t lane) (at (d_types d) col))"

definition delta_decode :: "delta \<Rightarrow> nat \<Rightarrow> nat \<Rightarrow> cell option" where
  "delta_decode d col cell =
     (if d_has_nulls d \<and> bitset_get (d_nulls d) cell then Some VNull
      else Option.bind (at (d_lanes d) cell) (decode_lane d col))"

definition value_at :: "delta \<Rightarrow> slot \<Rightarrow> nat \<Rightarrow> cell option" where
  "value_at d slot col =
     (if col \<ge> d_ncols d then Some VNull else delta_decode d col (unat slot * d_ncols d + col))"

definition touched_keys :: "delta \<Rightarrow> u64 list" where
  "touched_keys d = map fst (d_index d)"

definition contains_key :: "delta \<Rightarrow> u64 \<Rightarrow> bool" where
  "contains_key d key = (map_of (d_index d) key \<noteq> None)"

text \<open>\<open>alive[s as usize] = true\<close> panics out of range.\<close>

fun mark_alive :: "slot list \<Rightarrow> bool list \<Rightarrow> bool list option" where
  "mark_alive [] alive = Some alive"
| "mark_alive (s # ss) alive =
     (if s \<noteq> TOMBSTONE
      then (if unat s < length alive then mark_alive ss (alive[unat s := True]) else None)
      else mark_alive ss alive)"

definition live_slots :: "delta \<Rightarrow> slot list option option" where
  "live_slots d =
     (if \<not> d_keyed d \<or> d_dead d = 0 then Some None
      else map_option (\<lambda>alive. Some (filter (\<lambda>i. alive ! unat i) (map of_nat [0..<unat (of_nat (d_nrows d) :: u32)])))
             (mark_alive (map snd (d_index d)) (replicate (d_nrows d) False)))"

fun push_decoded :: "float_text \<Rightarrow> delta \<Rightarrow> nat \<Rightarrow> nat list \<Rightarrow> column \<Rightarrow> column result option" where
  "push_decoded ft d c [] col = Some (Inr col)"
| "push_decoded ft d c (i # is) col = (case delta_decode d c i of
     None \<Rightarrow> None
   | Some v \<Rightarrow> (case push_value ft col v of
       Inl e \<Rightarrow> Some (Inl e)
     | Inr col \<Rightarrow> push_decoded ft d c is col))"

definition fill_col :: "float_text \<Rightarrow> delta \<Rightarrow> column \<Rightarrow> nat \<Rightarrow> nat list \<Rightarrow> column result option" where
  "fill_col ft d col c is = (case (col_data col, d_has_nulls d) of
     (CU64 v, False) \<Rightarrow> map_option (\<lambda>ls. Inr (col\<lparr>col_data := CU64 (v @ ls)\<rparr>)) (pick (d_lanes d) is)
   | (CI64 v, False) \<Rightarrow> map_option (\<lambda>ls. Inr (col\<lparr>col_data := CI64 (v @ map lane_to_i64 ls)\<rparr>)) (pick (d_lanes d) is)
   | (CF64 v, False) \<Rightarrow> map_option (\<lambda>ls. Inr (col\<lparr>col_data := CF64 (v @ map lane_to_f64 ls)\<rparr>)) (pick (d_lanes d) is)
   | _ \<Rightarrow> push_decoded ft d c is col)"

definition cell_ids :: "delta \<Rightarrow> slot list option \<Rightarrow> nat \<Rightarrow> nat list" where
  "cell_ids d slots c = (case slots of
     None \<Rightarrow> map (\<lambda>r. r * d_ncols d + c) [0..<d_nrows d]
   | Some s \<Rightarrow> map (\<lambda>s. unat s * d_ncols d + c) s)"

fun transpose_cols :: "float_text \<Rightarrow> delta \<Rightarrow> slot list option \<Rightarrow> nat list \<Rightarrow> column list result option" where
  "transpose_cols ft d slots [] = Some (Inr [])"
| "transpose_cols ft d slots (c # cs) =
     (case (at (d_types d) c, at (d_phys d) c) of
        (Some t, Some p) \<Rightarrow>
          (case fill_col ft d (col_new t (for_physical p)) c (cell_ids d slots c) of
             None \<Rightarrow> None
           | Some (Inl e) \<Rightarrow> Some (Inl e)
           | Some (Inr col) \<Rightarrow> map_option (\<lambda>r. rbind r (\<lambda>cols. Inr (col # cols))) (transpose_cols ft d slots cs))
      | _ \<Rightarrow> None)"

definition transpose_delta :: "float_text \<Rightarrow> delta \<Rightarrow> slot list option \<Rightarrow> column list result option" where
  "transpose_delta ft d slots = transpose_cols ft d slots [0..<d_ncols d]"

definition delta_clear :: "delta \<Rightarrow> delta" where
  "delta_clear d =
     d\<lparr>d_lanes := [], d_nrows := 0, d_strs := [], d_nulls := bitset_new, d_has_nulls := False, d_index := [], d_dead := 0\<rparr>"

text \<open>An error of the transposition returns before the buffer is cleared.\<close>

definition drain_to_block :: "float_text \<Rightarrow> delta \<Rightarrow> ((block \<times> u64 list) result \<times> delta) option" where
  "drain_to_block ft d =
     (case live_slots d of
        None \<Rightarrow> None
      | Some slots \<Rightarrow>
          (case transpose_delta ft d slots of
             None \<Rightarrow> None
           | Some (Inl e) \<Rightarrow> Some (Inl e, d)
           | Some (Inr cols) \<Rightarrow> Some (rbind (block_new cols) (\<lambda>b. Inr (b, touched_keys d)), delta_clear d)))"

definition to_block :: "float_text \<Rightarrow> delta \<Rightarrow> block result option" where
  "to_block ft d =
     (case live_slots d of
        None \<Rightarrow> None
      | Some slots \<Rightarrow> map_option (\<lambda>r. rbind r block_new) (transpose_delta ft d slots))"

subsection \<open>The frozen image\<close>

record delta_image =
  im_block :: block
  im_keys :: "u64 list"
  im_tombstones :: "u64 list"

definition freeze :: "float_text \<Rightarrow> delta \<Rightarrow> delta_image result option" where
  "freeze ft d =
     (let (keys, slots, tombs) =
        (if d_keyed d
         then let puts = filter (\<lambda>(k, s). s \<noteq> TOMBSTONE) (d_index d);
                  (ks, ss) = radix_sort_soa (map fst puts) (map snd puts)
              in (ks, Some ss, sort (map fst (filter (\<lambda>(k, s). s = TOMBSTONE) (d_index d))))
         else ([], None, []))
      in map_option (\<lambda>r. rbind r (\<lambda>cols. rbind (block_new cols) (\<lambda>b.
           Inr \<lparr>im_block = b, im_keys = keys, im_tombstones = tombs\<rparr>))) (transpose_delta ft d slots))"

text \<open>\<open>binary_search\<close> of the standard library on a sorted slice, as a halving search.\<close>

function bsearch :: "u64 list \<Rightarrow> u64 \<Rightarrow> nat \<Rightarrow> nat \<Rightarrow> nat option" where
  "bsearch xs x lo hi =
     (if lo < hi
      then let mid = lo + (hi - lo) div 2
           in case cmp (xs ! mid) x of
                Equal \<Rightarrow> Some mid
              | Less \<Rightarrow> bsearch xs x (mid + 1) hi
              | Greater \<Rightarrow> bsearch xs x lo mid
      else None)"
  by pat_completeness auto
termination by (relation "measure (\<lambda>(xs, x, lo, hi). hi - lo)") auto

definition position_of :: "delta_image \<Rightarrow> u64 \<Rightarrow> nat option" where
  "position_of im key = bsearch (im_keys im) key 0 (length (im_keys im))"

definition im_deletes :: "delta_image \<Rightarrow> u64 \<Rightarrow> bool" where
  "im_deletes im key = (bsearch (im_tombstones im) key 0 (length (im_tombstones im)) \<noteq> None)"

definition shadows :: "delta_image \<Rightarrow> u64 \<Rightarrow> bool" where
  "shadows im key = (position_of im key \<noteq> None \<or> bsearch (im_tombstones im) key 0 (length (im_tombstones im)) \<noteq> None)"

definition im_is_empty :: "delta_image \<Rightarrow> bool" where
  "im_is_empty im = (blk_rows (im_block im) = 0 \<and> im_tombstones im = [])"

declare bsearch.simps [simp del]

section \<open>Writing the cells of a row\<close>

text \<open>What a cell of the arena holds: its null bit, its lane and the string table together.\<close>

definition null_bit :: "cell_store \<Rightarrow> nat \<Rightarrow> bool" where
  "null_bit cs i \<longleftrightarrow> cs_has_nulls cs \<and> bitset_get (cs_nulls cs) i"

definition lane_of :: "cell \<Rightarrow> u64" where
  "lane_of v = (case v of
     VBool b \<Rightarrow> (if b then 1 else 0)
   | VUInt u \<Rightarrow> u
   | VInt i \<Rightarrow> i64_to_lane i
   | VFloat f \<Rightarrow> f64_to_lane f
   | VDate d \<Rightarrow> ucast d
   | VDateTime t \<Rightarrow> t
   | VDecimal u _ \<Rightarrow> i64_to_lane u
   | _ \<Rightarrow> 0)"

definition stored :: "cell_store \<Rightarrow> physical_type \<Rightarrow> nat \<Rightarrow> u64 \<Rightarrow> cell \<Rightarrow> bool" where
  "stored cs p i lane v \<longleftrightarrow>
     (if v = VNull then null_bit cs i
      else \<not> null_bit cs i \<and>
        (if p = Str then unat lane < length (cs_strs cs) \<and> v = VStr (cs_strs cs ! unat lane) else lane = lane_of v))"

definition store_ok :: "cell_store \<Rightarrow> bool" where
  "store_ok cs \<longleftrightarrow> (cs_has_nulls cs \<or> (\<forall>i. \<not> bitset_get (cs_nulls cs) i))"

text \<open>A write into some cells leaves the others alone and only appends strings.\<close>

definition touches :: "nat set \<Rightarrow> cell_store \<Rightarrow> cell_store \<Rightarrow> bool" where
  "touches I cs cs' \<longleftrightarrow> store_ok cs' \<and> (\<exists>ys. cs_strs cs' = cs_strs cs @ ys \<and> length ys \<le> card I)
     \<and> (\<forall>i. i \<notin> I \<longrightarrow> null_bit cs' i = null_bit cs i)"

lemma stored_touches: "stored cs p i lane v \<Longrightarrow> touches I cs cs' \<Longrightarrow> i \<notin> I \<Longrightarrow> stored cs' p i lane v"
  by (auto simp: stored_def touches_def nth_append split: if_splits)

lemma touches_refl: "store_ok cs \<Longrightarrow> touches {} cs cs"
  by (simp add: touches_def)

lemma touches_trans:
  assumes "touches I a b" "touches J b c" "finite I" "finite J" "I \<inter> J = {}"
  shows "touches (I \<union> J) a c"
  using assms by (force simp: touches_def card_Un_disjoint)

lemma encode_cell_touches:
  assumes "store_ok cs"
  shows "touches {i} cs (snd (encode_cell ft p t v i cs))"
  using assms
  by (auto simp: encode_cell_def touches_def store_ok_def null_bit_def Let_def split: option.split)

lemma storable_lane:
  assumes "storable t v" "v \<noteq> VNull" "physical t \<noteq> Str"
  shows "to_lane_phys ft v (physical t) t = Inr (lane_of v)"
proof (cases "lane_comparable v")
  case True
  have "to_lane_phys ft v (physical t) t = to_lane ft v t" by (simp add: to_lane_def)
  also have "\<dots> = Inr (lane_of v)"
    using to_lane_fits [OF _ True assms(3)] assms(1,2) unfolding lane_of_def storable_def by blast
  finally show ?thesis .
next
  case False
  with assms obtain u where v: "v = VUInt u" by (cases v) (auto simp: lane_comparable_def storable_def)
  with assms have t: "physical t = U64" "is_integer t" by (simp_all add: storable_def fits_def)
  then have "decimal_scale t = None" by (auto simp: decimal_scale_def is_integer_def split: data_type.splits)
  then show ?thesis using t by (simp add: v to_lane_phys_def decimal_parts_def as_u64_def lane_of_def)
qed

lemma encode_cell_stores:
  assumes "storable t v" "p = physical t" "length (cs_strs cs) < 2 ^ 64"
  shows "\<exists>l cs'. encode_cell ft p t v i cs = (Inr l, cs') \<and> stored cs' p i l v"
proof -
  consider "v = VNull" | s where "v = VStr s" "p = Str" | "v \<noteq> VNull" "p \<noteq> Str"
    using assms(1,2) by (cases v) (auto simp: storable_def fits_def physical_of_base)
  then show ?thesis
  proof cases
    case 1
    then have "fast_lane p v = None" by (simp add: fast_lane_def split: physical_type.split)
    with 1 show ?thesis by (simp add: encode_cell_def stored_def null_bit_def)
  next
    case 2
    let ?n = "length (cs_strs cs)"
    have "unat (of_nat ?n :: u64) = ?n" using assms(3) by (rule unat_of_nat_u64)
    moreover have "fast_lane p v = None" by (simp add: fast_lane_def 2)
    ultimately show ?thesis using 2 by (simp add: encode_cell_def Let_def stored_def null_bit_def str_text_def)
  next
    case 3
    from storable_lane [OF assms(1) 3(1)] 3(2) assms(2) have "to_lane_phys ft v p t = Inr (lane_of v)" by simp
    moreover have "l = lane_of v" if "fast_lane p v = Some l" for l
      using that by (auto simp: fast_lane_def lane_of_def split: physical_type.splits cell.splits)
    ultimately show ?thesis using 3
      by (auto simp: encode_cell_def Let_def stored_def null_bit_def split: option.split)
  qed
qed

definition cell_in :: "cell list \<Rightarrow> nat \<Rightarrow> cell" where
  "cell_in row i = (if i < length row then row ! i else VNull)"

lemma cell_in_Suc: "cell_in row (Suc i) = cell_in (tl row) i"
  by (cases row) (auto simp: cell_in_def)

lemma write_cells_touches:
  assumes "store_ok cs" "write_cells ft pts row i cs = (r, ls, cs')"
  shows "touches {i..<i + length pts} cs cs' \<and> length ls \<le> length pts \<and> (r = Inr () \<longrightarrow> length ls = length pts)"
  using assms
proof (induction pts arbitrary: row i cs r ls cs')
  case Nil
  then show ?case by (simp add: touches_refl)
next
  case (Cons pt pts)
  obtain p t where pt: "pt = (p, t)" by (cases pt)
  let ?v = "case row of [] \<Rightarrow> VNull | x # _ \<Rightarrow> x"
  obtain e cs1 where e: "encode_cell ft p t ?v i cs = (e, cs1)" by fastforce
  from encode_cell_touches [OF Cons.prems(1), of i ft p t ?v] e have t1: "touches {i} cs cs1" by simp
  then have ok1: "store_ok cs1" by (simp add: touches_def)
  show ?case
  proof (cases e)
    case (Inl x)
    have "touches ({i} \<union> {Suc i..<i + length (pt # pts)}) cs cs1"
      using t1 by (auto simp: touches_def)
    moreover have "{i} \<union> {Suc i..<i + length (pt # pts)} = {i..<i + length (pt # pts)}" by auto
    ultimately show ?thesis using Cons.prems(2) e Inl by (auto simp: pt)
  next
    case (Inr l)
    obtain r2 ls2 cs2 where w: "write_cells ft pts (tl row) (Suc i) cs1 = (r2, ls2, cs2)" by (metis prod_cases3)
    from Cons.IH [OF ok1 w] have ih: "touches {Suc i..<Suc i + length pts} cs1 cs2" "length ls2 \<le> length pts"
      "r2 = Inr () \<longrightarrow> length ls2 = length pts" by auto
    have "{i} \<union> {Suc i..<Suc i + length pts} = {i..<i + length (pt # pts)}" by auto
    with touches_trans [OF t1 ih(1)] have "touches {i..<i + length (pt # pts)} cs cs2" by auto
    with ih show ?thesis using Cons.prems(2) e Inr w by (auto simp: pt)
  qed
qed

lemma write_cells_stores:
  assumes "store_ok cs" "length (cs_strs cs) + length pts < 2 ^ 64"
    "\<And>k. k < length pts \<Longrightarrow> storable (snd (pts ! k)) (cell_in row k) \<and> fst (pts ! k) = physical (snd (pts ! k))"
  obtains ls cs' where "write_cells ft pts row i cs = (Inr (), ls, cs')" "length ls = length pts"
    "\<And>k. k < length pts \<Longrightarrow> stored cs' (fst (pts ! k)) (i + k) (ls ! k) (cell_in row k)"
  using assms
proof (induction pts arbitrary: row i cs thesis)
  case Nil
  then show ?case by simp
next
  case (Cons pt pts)
  obtain p t where pt: "pt = (p, t)" by (cases pt)
  have v: "(case row of [] \<Rightarrow> VNull | x # _ \<Rightarrow> x) = cell_in row 0" by (cases row) (auto simp: cell_in_def)
  have "storable t (cell_in row 0)" "p = physical t" using Cons.prems(4) [of 0] by (simp_all add: pt)
  then obtain l cs1 where e: "encode_cell ft p t (cell_in row 0) i cs = (Inr l, cs1)" "stored cs1 p i l (cell_in row 0)"
    using encode_cell_stores [of t _ p cs] Cons.prems(3) by fastforce
  from encode_cell_touches [OF Cons.prems(2), of i ft p t "cell_in row 0"] e(1) have t1: "touches {i} cs cs1" by simp
  then have ok1: "store_ok cs1" "length (cs_strs cs1) + length pts < 2 ^ 64"
    using Cons.prems(3) by (auto simp: touches_def)
  obtain ls2 cs2 where w: "write_cells ft pts (tl row) (Suc i) cs1 = (Inr (), ls2, cs2)" "length ls2 = length pts"
    "\<And>k. k < length pts \<Longrightarrow> stored cs2 (fst (pts ! k)) (Suc i + k) (ls2 ! k) (cell_in (tl row) k)"
  proof (rule Cons.IH [OF _ ok1, of "tl row" "Suc i"])
    show "storable (snd (pts ! k)) (cell_in (tl row) k) \<and> fst (pts ! k) = physical (snd (pts ! k))" if "k < length pts" for k
      using Cons.prems(4) [of "Suc k"] that by (simp add: cell_in_Suc)
  qed blast
  from write_cells_touches [OF ok1(1) w(1)] have t2: "touches {Suc i..<Suc i + length pts} cs1 cs2" by simp
  have "stored cs2 (fst ((pt # pts) ! k)) (i + k) ((l # ls2) ! k) (cell_in row k)" if "k < length (pt # pts)" for k
  proof (cases k)
    case 0
    then show ?thesis using stored_touches [OF e(2) t2] by (simp add: pt)
  next
    case (Suc j)
    then show ?thesis using w(3) [of j] that by (simp add: cell_in_Suc)
  qed
  moreover have "write_cells ft (pt # pts) row i cs = (Inr (), l # ls2, cs2)" using e(1) w(1) by (simp add: pt v)
  ultimately show ?case using Cons.prems(1) w(2) by simp
qed

section \<open>The invariant of the buffer\<close>

definition live_list :: "(u64 \<times> slot) list \<Rightarrow> slot list" where
  "live_list xs = filter (\<lambda>s. s \<noteq> TOMBSTONE) (map snd xs)"

abbreviation slots :: "delta \<Rightarrow> slot list" where
  "slots d \<equiv> live_list (d_index d)"

lemma live_list_simps [simp]: "live_list [] = []" "live_list [(k, s)] = (if s = TOMBSTONE then [] else [s])"
  by (simp_all add: live_list_def)

definition index_ok :: "delta \<Rightarrow> bool" where
  "index_ok d \<longleftrightarrow> distinct (map fst (d_index d)) \<and> distinct (slots d) \<and> (\<forall>s \<in> set (slots d). unat s < d_nrows d)
     \<and> (if d_keyed d then d_dead d + length (slots d) = d_nrows d else d_index d = [] \<and> d_dead d = 0)"

definition arena_ok :: "delta \<Rightarrow> bool" where
  "arena_ok d \<longleftrightarrow> d_ncols d = length (d_types d) \<and> d_phys d = map physical (d_types d) \<and> store_ok (store_of d)
     \<and> length (d_lanes d) = d_nrows d * d_ncols d \<and> d_nrows d < 2 ^ 32"

definition delta_inv :: "delta \<Rightarrow> bool" where
  "delta_inv d \<longleftrightarrow> arena_ok d \<and> index_ok d"

lemma store_of_with_store [simp]: "store_of (with_store d cs) = cs" "store_of (d\<lparr>d_lanes := x\<rparr>) = store_of d"
  "store_of (d\<lparr>d_nrows := n\<rparr>) = store_of d" "store_of (d\<lparr>d_index := y\<rparr>) = store_of d" "store_of (d\<lparr>d_dead := n\<rparr>) = store_of d"
  by (simp_all add: store_of_def with_store_def)

lemma with_store_fields [simp]:
  "d_ncols (with_store d cs) = d_ncols d" "d_lanes (with_store d cs) = d_lanes d" "d_nrows (with_store d cs) = d_nrows d"
  "d_types (with_store d cs) = d_types d" "d_phys (with_store d cs) = d_phys d" "d_index (with_store d cs) = d_index d"
  "d_dead (with_store d cs) = d_dead d" "d_keyed (with_store d cs) = d_keyed d" "d_has_nulls (with_store d cs) = cs_has_nulls cs"
  "d_nulls (with_store d cs) = cs_nulls cs" "d_strs (with_store d cs) = cs_strs cs"
  by (simp_all add: with_store_def)

lemma length_kinds: "arena_ok d \<Longrightarrow> length (kinds_of d) = d_ncols d"
  by (simp add: arena_ok_def)

lemma TOMBSTONE_unat: "unat TOMBSTONE = 2 ^ 32 - 1"
  by (simp add: TOMBSTONE_def unsigned_minus_1_eq_mask mask_eq_exp_minus_1)

lemma fresh_slot: "n < 2 ^ 32 - 1 \<Longrightarrow> (of_nat n :: slot) \<noteq> TOMBSTONE \<and> unat (of_nat n :: slot) = n"
  using unat_of_nat_u32 [of n] TOMBSTONE_unat by auto

lemma bitset_get_new [simp]: "\<not> bitset_get bitset_new i"
  using bits_of_new(1) mem_bits_of [of i bitset_new] by simp

text \<open>What an insertion into the index does to the live slots.\<close>

lemma live_list_absent: "map_of xs k = None \<Longrightarrow> live_list (AList.update k v xs) = live_list xs @ live_list [(k, v)]"
  by (induction xs) (auto simp: live_list_def split: if_splits)

lemma live_list_present:
  assumes "distinct (map fst xs)" "map_of xs k = Some s"
  obtains as bs where "live_list xs = as @ live_list [(k, s)] @ bs" "live_list (AList.update k v xs) = as @ live_list [(k, v)] @ bs"
proof -
  from split_list [OF map_of_SomeD [OF assms(2)]] obtain as bs where xs: "xs = as @ (k, s) # bs" by blast
  with assms(1) have "k \<notin> set (map fst as)" by auto
  then have "AList.update k v (as @ (k, s) # bs) = as @ (k, v) # bs" by (induction as) auto
  with that [of "live_list as" "live_list bs"] xs show ?thesis by (simp add: live_list_def)
qed

lemma index_ok_delete:
  assumes "index_ok d" "d_keyed d"
  shows "index_ok (delete_keyed d key)"
proof (cases "map_of (d_index d) key")
  case None
  with assms show ?thesis by (auto simp: index_ok_def delete_keyed_def live_list_absent distinct_update)
next
  case (Some s)
  from assms(1) have "distinct (map fst (d_index d))" by (simp add: index_ok_def)
  from live_list_present [OF this Some, of TOMBSTONE] obtain as bs where
    "slots d = as @ live_list [(key, s)] @ bs" "live_list (AList.update key TOMBSTONE (d_index d)) = as @ live_list [(key, TOMBSTONE)] @ bs" .
  with Some assms show ?thesis by (auto simp: index_ok_def delete_keyed_def distinct_update)
qed

lemma index_ok_insert:
  assumes "index_ok d" "d_keyed d" "map_of (d_index d) key = None \<or> map_of (d_index d) key = Some TOMBSTONE"
    and n: "d_nrows d < 2 ^ 32 - 1"
    and d': "d_index d' = AList.update key (of_nat (d_nrows d)) (d_index d)" "d_nrows d' = Suc (d_nrows d)"
      "d_dead d' = d_dead d" "d_keyed d'"
  shows "index_ok d'"
proof -
  note f = fresh_slot [OF n]
  have keys: "distinct (map fst (d_index d))" using assms(1) by (simp add: index_ok_def)
  obtain as bs where "slots d = as @ bs" "slots d' = as @ [of_nat (d_nrows d)] @ bs"
  proof (cases "map_of (d_index d) key")
    case None
    then show thesis using that [of "slots d" "[]"] d'(1) f by (simp add: live_list_absent)
  next
    case (Some s)
    with assms(3) have s: "s = TOMBSTONE" by simp
    from live_list_present [OF keys Some, of "of_nat (d_nrows d)"] obtain as bs where
      "slots d = as @ live_list [(key, s)] @ bs"
      "live_list (AList.update key (of_nat (d_nrows d)) (d_index d)) = as @ live_list [(key, of_nat (d_nrows d))] @ bs" .
    then show thesis using that [of as bs] d'(1) f s by (simp add:)
  qed
  moreover from this have "unat s < d_nrows d" if "s \<in> set as \<union> set bs" for s
    using assms(1) that by (auto simp: index_ok_def)
  moreover from this f have "of_nat (d_nrows d) \<notin> set as \<union> set bs" by fastforce
  ultimately show ?thesis using assms(1,2) f d' keys by (auto simp: index_ok_def distinct_update less_SucI)
qed

text \<open>One row written, in place or at the end, whether or not a cell is refused.\<close>

lemma append_row_inv:
  assumes "arena_ok d" "append_row ft d row = (r, d')" "d_nrows d < 2 ^ 32 - 1"
  shows "arena_ok d' \<and> d_index d' = d_index d \<and> d_dead d' = d_dead d \<and> d_keyed d' = d_keyed d
    \<and> (case r of Inl _ \<Rightarrow> d_nrows d' = d_nrows d | Inr s \<Rightarrow> d_nrows d' = Suc (d_nrows d) \<and> s = of_nat (d_nrows d))"
proof -
  obtain w ls cs where w: "write_cells ft (kinds_of d) row (length (d_lanes d)) (store_of d) = (w, ls, cs)" by (metis prod_cases3)
  have "store_ok (store_of d)" using assms(1) by (simp add: arena_ok_def)
  from write_cells_touches [OF this w] length_kinds [OF assms(1)]
  have "store_ok cs" "w = Inr () \<Longrightarrow> length ls = d_ncols d" by (auto simp: touches_def)
  then show ?thesis using assms w by (auto simp: append_row_def arena_ok_def split: sum.splits)
qed

lemma slot_bound: "(s :: nat) < n \<Longrightarrow> s * m + m \<le> n * m"
  using mult_le_mono1 [of "Suc s" n m] by simp

lemma put_keyed_cases:
  assumes "delta_inv d" "d_keyed d"
  obtains (overwrite) s r ls cs where "map_of (d_index d) key = Some s" "s \<noteq> TOMBSTONE" "unat s < d_nrows d"
      "write_cells ft (kinds_of d) row (unat s * d_ncols d) (store_of d) = (r, ls, cs)"
      "put_keyed ft d key row = Some (r, (with_store d cs)\<lparr>d_lanes := overwrite (d_lanes d) (unat s * d_ncols d) ls\<rparr>)"
    | (fresh) r d' where "map_of (d_index d) key = None \<or> map_of (d_index d) key = Some TOMBSTONE"
      "append_row ft d row = (r, d')"
      "put_keyed ft d key row = Some (case r of Inl e \<Rightarrow> (Inl e, d') | Inr slot \<Rightarrow> (Inr (), d'\<lparr>d_index := AList.update key slot (d_index d')\<rparr>))"
proof (cases "\<exists>s. map_of (d_index d) key = Some s \<and> s \<noteq> TOMBSTONE")
  case True
  then obtain s where s: "map_of (d_index d) key = Some s" "s \<noteq> TOMBSTONE" by blast
  then have "s \<in> set (slots d)" by (force simp: live_list_def dest: map_of_SomeD)
  then have lt: "unat s < d_nrows d" using assms(1) by (simp add: delta_inv_def index_ok_def)
  from slot_bound [OF this, of "d_ncols d"] assms(1) have "unat s * d_ncols d + d_ncols d \<le> length (d_lanes d)"
    by (simp add: delta_inv_def arena_ok_def)
  moreover obtain r ls cs where w: "write_cells ft (kinds_of d) row (unat s * d_ncols d) (store_of d) = (r, ls, cs)"
    by (metis prod_cases3)
  ultimately show thesis using overwrite [OF s lt w] s by (simp add: put_keyed_def Let_def)
next
  case False
  then have f: "map_of (d_index d) key = None \<or> map_of (d_index d) key = Some TOMBSTONE"
    by (cases "map_of (d_index d) key") auto
  obtain r d' where a: "append_row ft d row = (r, d')" by fastforce
  with f show thesis using fresh [OF f a] by (auto simp: put_keyed_def split: sum.splits)
qed

lemma length_overwrite: "off + length ls \<le> length xs \<Longrightarrow> length (overwrite xs off ls) = length xs"
  by (simp add: overwrite_def)

lemma put_keyed_inv:
  assumes "delta_inv d" "d_keyed d" "d_nrows d < 2 ^ 32 - 1"
  shows "\<exists>r d'. put_keyed ft d key row = Some (r, d') \<and> delta_inv d' \<and> d_keyed d'"
  using assms(1,2)
proof (cases rule: put_keyed_cases [where ft = ft and key = key and row = row])
  case (overwrite s r ls cs)
  have ok: "store_ok (store_of d)" "arena_ok d" using assms(1) by (simp_all add: delta_inv_def arena_ok_def)
  from write_cells_touches [OF ok(1) overwrite(4)] length_kinds [OF ok(2)] have "store_ok cs" "length ls \<le> d_ncols d"
    by (auto simp: touches_def)
  with slot_bound [OF overwrite(3), of "d_ncols d"] overwrite(5) assms show ?thesis
    by (auto simp: delta_inv_def arena_ok_def index_ok_def length_overwrite)
next
  case (fresh r d')
  from assms(1) have "arena_ok d" by (simp add: delta_inv_def)
  note a = append_row_inv [OF this fresh(2) assms(3)]
  show ?thesis
  proof (cases r)
    case (Inl e)
    with a fresh(3) assms show ?thesis by (auto simp: delta_inv_def index_ok_def)
  next
    case (Inr s)
    have "index_ok (d'\<lparr>d_index := AList.update key s (d_index d')\<rparr>)"
      using index_ok_insert [OF _ assms(2) fresh(1) assms(3)] a Inr assms(1,2) by (auto simp: delta_inv_def)
    with a fresh(3) assms Inr show ?thesis by (auto simp: delta_inv_def arena_ok_def)
  qed
qed

lemma delta_new_inv: "delta_inv (delta_new keyed tys)"
  by (auto simp: delta_inv_def arena_ok_def index_ok_def live_list_def delta_new_def store_ok_def store_of_def bitset_get_new)

lemma delta_clear_inv: "delta_inv d \<Longrightarrow> delta_inv (delta_clear d)"
  by (auto simp: delta_inv_def arena_ok_def index_ok_def live_list_def delta_clear_def store_ok_def store_of_def bitset_get_new)

lemma delete_keyed_inv: "delta_inv d \<Longrightarrow> d_keyed d \<Longrightarrow> delta_inv (delete_keyed d key)"
  using index_ok_delete by (simp add: delta_inv_def arena_ok_def) (simp add: delete_keyed_def Let_def store_of_def)

lemma append_inv: "delta_inv d \<Longrightarrow> \<not> d_keyed d \<Longrightarrow> d_nrows d < 2 ^ 32 - 1 \<Longrightarrow> delta_inv (snd (delta_append ft d row))"
  using append_row_inv [of d ft row]
  by (cases "append_row ft d row") (auto simp: delta_inv_def index_ok_def delta_append_def push_row_def split: sum.split)

section \<open>Live rows\<close>

lemma mark_alive_spec:
  "\<forall>s \<in> set ss. s \<noteq> TOMBSTONE \<longrightarrow> unat s < length alive \<Longrightarrow>
    \<exists>al. mark_alive ss alive = Some al \<and> length al = length alive \<and>
      (\<forall>i < length alive. al ! i \<longleftrightarrow> alive ! i \<or> (\<exists>s \<in> set ss. s \<noteq> TOMBSTONE \<and> unat s = i))"
proof (induction ss arbitrary: alive)
  case (Cons s ss)
  show ?case
  proof (cases "s = TOMBSTONE")
    case True
    with Cons show ?thesis by auto
  next
    case False
    then obtain al where "mark_alive ss (alive[unat s := True]) = Some al" "length al = length alive"
      "\<forall>i < length alive. al ! i \<longleftrightarrow> alive[unat s := True] ! i \<or> (\<exists>t \<in> set ss. t \<noteq> TOMBSTONE \<and> unat t = i)"
      using Cons.IH [of "alive[unat s := True]"] Cons.prems by auto
    with False Cons.prems show ?thesis by (auto simp: nth_list_update)
  qed
qed simp

definition live_row :: "delta \<Rightarrow> nat \<Rightarrow> bool" where
  "live_row d r \<longleftrightarrow> \<not> d_keyed d \<or> r \<in> unat ` set (slots d)"

definition rows_at :: "delta \<Rightarrow> slot list option \<Rightarrow> nat list" where
  "rows_at d sl = (case sl of None \<Rightarrow> [0..<d_nrows d] | Some ss \<Rightarrow> map unat ss)"

lemma all_rows_live:
  assumes "index_ok d" "d_keyed d" "d_dead d = 0" "r < d_nrows d"
  shows "live_row d r"
proof -
  have "unat ` set (slots d) \<subseteq> {..<d_nrows d}" using assms(1) by (auto simp: index_ok_def)
  moreover have "card (unat ` set (slots d)) = d_nrows d"
    using assms(1-3) by (subst card_image) (auto simp: index_ok_def distinct_card inj_on_def word_unat_eq_iff)
  ultimately have "unat ` set (slots d) = {..<d_nrows d}" by (intro card_subset_eq) auto
  with assms(4) show ?thesis by (auto simp: live_row_def)
qed

lemma live_slots_rows:
  assumes "delta_inv d"
  obtains sl where "live_slots d = Some sl" "rows_at d sl = filter (live_row d) [0..<d_nrows d]"
proof (cases "\<not> d_keyed d \<or> d_dead d = 0")
  case True
  with assms have "live_row d r" if "r < d_nrows d" for r
    using all_rows_live that by (auto simp: delta_inv_def live_row_def)
  with True show thesis using that [of None] by (simp add: live_slots_def rows_at_def)
next
  case False
  have n: "d_nrows d < 2 ^ 32" using assms by (simp add: delta_inv_def arena_ok_def)
  have "\<forall>s \<in> set (map snd (d_index d)). s \<noteq> TOMBSTONE \<longrightarrow> unat s < length (replicate (d_nrows d) False)"
    using assms by (auto simp: delta_inv_def index_ok_def live_list_def)
  from mark_alive_spec [OF this] obtain al where al: "mark_alive (map snd (d_index d)) (replicate (d_nrows d) False) = Some al"
    "\<And>i. i < d_nrows d \<Longrightarrow> al ! i \<longleftrightarrow> (\<exists>s \<in> set (map snd (d_index d)). s \<noteq> TOMBSTONE \<and> unat s = i)"
    by auto
  have lv: "al ! i \<longleftrightarrow> live_row d i" if "i < d_nrows d" for i
    using al(2) [OF that] False by (auto simp: live_row_def live_list_def)
  have u: "unat (of_nat i :: slot) = i" if "i < d_nrows d" for i using that n by (simp add: unat_of_nat_u32)
  let ?sl = "filter (\<lambda>i. al ! unat i) (map (of_nat :: nat \<Rightarrow> slot) [0..<unat (of_nat (d_nrows d) :: u32)])"
  have "map unat ?sl = filter (live_row d) [0..<d_nrows d]"
  proof -
    have "map unat ?sl = map (\<lambda>i. unat (of_nat i :: slot)) (filter (\<lambda>i. al ! unat (of_nat i :: slot)) [0..<d_nrows d])"
      using n by (simp add: filter_map comp_def unat_of_nat_u32)
    also have "\<dots> = map (\<lambda>i. i) (filter (live_row d) [0..<d_nrows d])"
      by (intro map_cong filter_cong) (auto simp: u lv)
    finally show ?thesis by simp
  qed
  then show thesis using that [of "Some ?sl"] False al(1) by (simp add: live_slots_def rows_at_def)
qed

lemma cell_ids_rows: "cell_ids d sl c = map (\<lambda>r. r * d_ncols d + c) (rows_at d sl)"
  by (simp add: cell_ids_def rows_at_def split: option.split)

lemma cell_bound: "(r :: nat) < n \<Longrightarrow> c < m \<Longrightarrow> r * m + c < n * m"
  using slot_bound [of r n m] by simp

text \<open>Reading and transposing never run out of range.\<close>

lemma delta_decode_total:
  assumes "arena_ok d" "c < d_ncols d" "i < length (d_lanes d)"
  shows "delta_decode d c i \<noteq> None"
  using assms by (auto simp: delta_decode_def decode_lane_def arena_ok_def at_def split: physical_type.split)

lemma push_decoded_total:
  assumes "arena_ok d" "c < d_ncols d" "\<forall>i \<in> set is. i < length (d_lanes d)"
  shows "push_decoded ft d c is col \<noteq> None"
  using assms(3)
proof (induction "is" arbitrary: col)
  case (Cons i "is")
  then show ?case using delta_decode_total [OF assms(1,2), of i] by (auto split: option.split sum.split)
qed simp

lemma fill_col_total:
  assumes "arena_ok d" "c < d_ncols d" "\<forall>i \<in> set is. i < length (d_lanes d)"
  shows "fill_col ft d col c is \<noteq> None"
  using assms push_decoded_total [OF assms]
  by (auto simp: fill_col_def pick_def list_all_iff split: column_data.split bool.split)

lemma transpose_total:
  assumes "arena_ok d" "\<forall>r \<in> set (rows_at d sl). r < d_nrows d"
  shows "transpose_delta ft d sl \<noteq> None"
proof -
  have "transpose_cols ft d sl cs \<noteq> None" if "\<forall>c \<in> set cs. c < d_ncols d" for cs
    using that
  proof (induction cs)
    case (Cons c cs)
    then have "c < length (d_types d)" "d_phys d = map physical (d_types d)" using assms(1) by (auto simp: arena_ok_def)
    moreover have "fill_col ft d (col_new (d_types d ! c) (for_physical (physical (d_types d ! c)))) c (cell_ids d sl c) \<noteq> None"
      using assms Cons.prems cell_bound [of _ "d_nrows d" c "d_ncols d"]
      by (intro fill_col_total) (auto simp: cell_ids_rows arena_ok_def)
    ultimately show ?case using Cons by (auto simp: at_def split: sum.split)
  qed simp
  then show ?thesis by (simp add: transpose_delta_def)
qed

lemma drain_total:
  assumes "delta_inv d"
  shows "\<exists>r d'. drain_to_block ft d = Some (r, d') \<and> (d' = d \<or> d' = delta_clear d)" "to_block ft d \<noteq> None"
proof -
  obtain sl where sl: "live_slots d = Some sl" "rows_at d sl = filter (live_row d) [0..<d_nrows d]"
    using live_slots_rows [OF assms] .
  from assms have "arena_ok d" by (simp add: delta_inv_def)
  from transpose_total [OF this, of sl ft] sl(2) obtain t where "transpose_delta ft d sl = Some t" by auto
  with sl(1) show "\<exists>r d'. drain_to_block ft d = Some (r, d') \<and> (d' = d \<or> d' = delta_clear d)" "to_block ft d \<noteq> None"
    by (auto simp: drain_to_block_def to_block_def split: sum.split)
qed

section \<open>Rows read back and transposed\<close>

text \<open>What \<open>value_at\<close> shows of a stored value: doubles in canonical form, decimals as their bare units.\<close>

definition seen :: "cell \<Rightarrow> cell" where
  "seen v = (case v of VDecimal u _ \<Rightarrow> VInt u | _ \<Rightarrow> canon_cell v)"

definition arena :: "delta \<Rightarrow> cell list list \<Rightarrow> bool" where
  "arena d rs \<longleftrightarrow> arena_ok d \<and> length rs = d_nrows d \<and>
     (\<forall>r < d_nrows d. length (rs ! r) = d_ncols d \<and> (\<forall>c < d_ncols d. storable (d_types d ! c) (rs ! r ! c) \<and>
        stored (store_of d) (d_phys d ! c) (r * d_ncols d + c) (d_lanes d ! (r * d_ncols d + c)) (rs ! r ! c)))"

lemma fits_kind:
  assumes "storable t v" "v \<noteq> VNull"
  shows "case v of VBool _ \<Rightarrow> base t = Bool \<and> physical t = U64 | VDate _ \<Rightarrow> base t = Date \<and> physical t = U64
     | VDateTime _ \<Rightarrow> base t = DateTime \<and> physical t = U64 | VDecimal _ s \<Rightarrow> base t = Decimal64 s \<and> physical t = I64
     | VFloat _ \<Rightarrow> physical t = F64 | VStr _ \<Rightarrow> physical t = Str
     | VInt _ \<Rightarrow> physical t = I64 \<and> is_integer t | VUInt _ \<Rightarrow> physical t = U64 \<and> is_integer t | VNull \<Rightarrow> False"
  using assms by (cases v) (auto simp: storable_def fits_def physical_of_base)

lemma float_base: "physical t = F64 \<Longrightarrow> base t \<noteq> Bool \<and> base t \<noteq> Date \<and> base t \<noteq> DateTime"
  using physical_of_base by fastforce

lemma lane_seen:
  assumes "storable t v" "v \<noteq> VNull" "physical t \<noteq> Str"
  shows "delta_lane_to_value (physical t) t (lane_of v) = seen v"
  using fits_kind [OF assms(1,2)] assms
  by (cases v)
    (auto simp: delta_lane_to_value_def lane_of_def seen_def lane_i64_roundtrip lane_f64_canon ucast_date_back
      dest: integer_base float_base split: data_type.split)

lemma lane_raw:
  assumes "storable t v" "v \<noteq> VNull" "xs ! k = lane_of v" "k < length xs"
  shows "physical t = U64 \<Longrightarrow> raw_cell t (CU64 xs) k = Some (canon_cell v)"
    "physical t = I64 \<Longrightarrow> raw_cell t (CI64 (map lane_to_i64 xs)) k = Some (canon_cell v)"
    "physical t = F64 \<Longrightarrow> raw_cell t (CF64 (map lane_to_f64 xs)) k = Some (canon_cell v)"
  using fits_kind [OF assms(1,2)] assms
  by (cases v; auto simp: raw_cell_def at_def lane_of_def lane_i64_roundtrip lane_f64_canon ucast_date_back
      dest: integer_base split: data_type.split)+

lemma decode_stored:
  assumes "arena_ok d" "c < d_ncols d" "i < length (d_lanes d)" "storable (d_types d ! c) v"
    "stored (store_of d) (d_phys d ! c) i (d_lanes d ! i) v"
  shows "delta_decode d c i = Some (seen v)"
proof (cases "v = VNull")
  case True
  with assms(5) show ?thesis by (simp add: stored_def null_bit_def delta_decode_def store_of_def seen_def)
next
  case nn: False
  then have nb: "\<not> (d_has_nulls d \<and> bitset_get (d_nulls d) i)"
    using assms(5) by (auto simp: stored_def null_bit_def store_of_def)
  have ph: "at (d_phys d) c = Some (physical (d_types d ! c))" "at (d_types d) c = Some (d_types d ! c)"
    "d_phys d ! c = physical (d_types d ! c)" using assms(1,2) by (simp_all add: arena_ok_def at_def)
  show ?thesis
  proof (cases "physical (d_types d ! c) = Str")
    case True
    with assms(5) nn ph nb assms(3) show ?thesis by (auto simp: stored_def store_of_def delta_decode_def decode_lane_def at_def seen_def)
  next
    case False
    with assms(5) nn ph have "d_lanes d ! i = lane_of v" by (simp add: stored_def)
    with lane_seen [OF assms(4) nn False] nb ph assms(3) False show ?thesis
      by (auto simp: delta_decode_def decode_lane_def at_def split: physical_type.split)
  qed
qed

lemma push_seen:
  assumes "represents col t vs" "storable t v"
  shows "\<exists>col'. push_value ft col (seen v) = Inr col' \<and> represents col' t (vs @ [canon_cell v])"
proof (cases "\<exists>u s. v = VDecimal u s")
  case True
  then obtain u s where v: "v = VDecimal u s" by blast
  with assms(2) have t: "base t = Decimal64 s" "physical t = I64" by (auto simp: storable_def fits_def physical_of_base)
  from assms(1) have c: "col_wf col" "col_ty col = t" "cells col = vs" by (simp_all add: represents_def)
  with t obtain b where b: "col_data col = CI64 b" by (cases "col_data col") (auto simp: col_wf_def cd_physical_def)
  let ?d = "CI64 (b @ [u])"
  have len: "length vs = length b" using c(3) b length_cells [of col] by (simp add: col_len_def cd_len_def)
  have "mask_get (col_nulls col) i \<Longrightarrow> i < length b" for i
    using c(1) b by (auto simp: col_wf_def col_is_null_def col_len_def cd_len_def)
  moreover have "(if mask_get (col_nulls col) i then Some VNull else raw_cell t ?d i) = Some ((vs @ [v]) ! i)" if "i < Suc (length b)" for i
  proof (cases "i < length b")
    case True
    have "raw_cell t ?d i = raw_cell (col_ty col) (col_data col) i"
      using True c(2) b by (simp add: raw_cell_def at_def nth_append)
    moreover have "i < col_len col" using True b by (simp add: col_len_def cd_len_def)
    ultimately show ?thesis using cell_at [of i col] c(3) len True by (simp only: nth_append if_True)
  next
    case False
    with that have "i = length b" by simp
    with calculation [of i] show ?thesis using len t by (auto simp: raw_cell_def at_def v nth_append)
  qed
  ultimately have "represents \<lparr>col_ty = t, col_data = ?d, col_nulls = col_nulls col\<rparr> t (vs @ [v])"
    using cells_column [of ?d "vs @ [v]" t "col_nulls col"] len t(2) unfolding represents_def
    by (auto simp: cd_len_def cd_physical_def intro: less_SucI)
  then show ?thesis using c(2) b by (auto simp: push_value_def push_exact_def seen_def v column_update_data)
next
  case False
  then have "seen v = canon_cell v" by (simp add: seen_def split: cell.split)
  moreover have "storable t (canon_cell v)" using assms(2) by (cases v) (auto simp: storable_def fits_def)
  ultimately show ?thesis using assms(1) push_value_spec [of col "canon_cell v" ft] unfolding represents_def by metis
qed

text \<open>One column of the transposition, through either arm of \<open>fill_col\<close>.\<close>

definition column_source :: "delta \<Rightarrow> nat \<Rightarrow> nat list \<Rightarrow> (nat \<Rightarrow> cell) \<Rightarrow> bool" where
  "column_source d c is val \<longleftrightarrow> arena_ok d \<and> c < d_ncols d \<and> (\<forall>i \<in> set is. i < length (d_lanes d) \<and>
     storable (d_types d ! c) (val i) \<and> stored (store_of d) (d_phys d ! c) i (d_lanes d ! i) (val i))"

lemma push_decoded_spec:
  assumes "column_source d c is val" "represents col (d_types d ! c) vs"
  shows "\<exists>col'. push_decoded ft d c is col = Some (Inr col')
    \<and> represents col' (d_types d ! c) (vs @ map (\<lambda>i. canon_cell (val i)) is)"
  using assms
proof (induction "is" arbitrary: col vs)
  case (Cons i "is")
  then have d: "delta_decode d c i = Some (seen (val i))" by (intro decode_stored) (simp_all add: column_source_def)
  from Cons.prems have "storable (d_types d ! c) (val i)" by (simp add: column_source_def)
  from push_seen [OF Cons.prems(2) this] obtain col1 where c1: "push_value ft col (seen (val i)) = Inr col1"
    "represents col1 (d_types d ! c) (vs @ [canon_cell (val i)])" by blast
  have "column_source d c is val" using Cons.prems(1) by (simp add: column_source_def)
  from Cons.IH [OF this c1(2)] d c1(1) show ?case by simp
qed simp

lemma represents_empty: "represents (col_new t (for_physical (physical t))) t []"
  by (simp add: represents_def col_new_def col_wf_def cells_def col_is_null_def col_len_def cd_len_def cd_physical_def
      for_physical_def split: physical_type.split)

lemma fill_col_spec:
  assumes src: "column_source d c is val"
  shows "\<exists>col. fill_col ft d (col_new (d_types d ! c) (for_physical (d_phys d ! c))) c is = Some (Inr col)
    \<and> represents col (d_types d ! c) (map (\<lambda>i. canon_cell (val i)) is)"
proof -
  let ?t = "d_types d ! c" and ?vs = "map (\<lambda>i. canon_cell (val i)) is"
  have ph: "d_phys d ! c = physical ?t" using src by (simp add: column_source_def arena_ok_def)
  have slow: "\<exists>col. push_decoded ft d c is (col_new ?t (for_physical (physical ?t))) = Some (Inr col) \<and> represents col ?t ?vs"
    using push_decoded_spec [OF src represents_empty, of ft] by simp
  show ?thesis
  proof (cases "d_has_nulls d \<or> physical ?t = Str")
    case True
    with slow ph show ?thesis by (auto simp: fill_col_def col_new_def for_physical_def split: physical_type.splits bool.split)
  next
    case False
    let ?ls = "map ((!) (d_lanes d)) is"
    have pk: "pick (d_lanes d) is = Some ?ls" using src by (simp add: column_source_def pick_def list_all_iff)
    have v: "storable ?t (val (is ! k))" "val (is ! k) \<noteq> VNull" "?ls ! k = lane_of (val (is ! k))" if "k < length is" for k
      using src False ph nth_mem [OF that] that
      by (auto simp: column_source_def stored_def null_bit_def store_of_def split: if_splits)
    have ok: "represents \<lparr>col_ty = ?t, col_data = D, col_nulls = None\<rparr> ?t ?vs"
      if "cd_len D = length is" "cd_physical D = physical ?t" "\<And>k. k < length is \<Longrightarrow> raw_cell ?t D k = Some (canon_cell (val (is ! k)))" for D
      using cells_column [of D ?vs ?t None] that by (simp add: represents_def)
    consider "physical ?t = U64" | "physical ?t = I64" | "physical ?t = F64" using False by (cases "physical ?t") auto
    then show ?thesis
    proof cases
      case 1
      have "represents \<lparr>col_ty = ?t, col_data = CU64 ?ls, col_nulls = None\<rparr> ?t ?vs"
        using 1 lane_raw(1) [OF v] by (intro ok) (auto simp: cd_len_def cd_physical_def)
      with 1 False pk ph show ?thesis by (auto simp: fill_col_def col_new_def for_physical_def)
    next
      case 2
      have "represents \<lparr>col_ty = ?t, col_data = CI64 (map lane_to_i64 ?ls), col_nulls = None\<rparr> ?t ?vs"
        using 2 lane_raw(2) [OF v] by (intro ok) (auto simp: cd_len_def cd_physical_def simp del: map_map)
      with 2 False pk ph show ?thesis by (auto simp: fill_col_def col_new_def for_physical_def)
    next
      case 3
      have "represents \<lparr>col_ty = ?t, col_data = CF64 (map lane_to_f64 ?ls), col_nulls = None\<rparr> ?t ?vs"
        using 3 lane_raw(3) [OF v] by (intro ok) (auto simp: cd_len_def cd_physical_def simp del: map_map)
      with 3 False pk ph show ?thesis by (auto simp: fill_col_def col_new_def for_physical_def)
    qed
  qed
qed

lemma cell_row [simp]: "c < m \<Longrightarrow> (r * m + c) div m = (r :: nat)"
  by simp

lemma arena_source:
  assumes "arena d rs" "c < d_ncols d" "\<forall>r \<in> set rows. r < d_nrows d"
  shows "column_source d c (map (\<lambda>r. r * d_ncols d + c) rows) (\<lambda>i. rs ! (i div d_ncols d) ! c)"
  using assms cell_bound [of _ "d_nrows d" c "d_ncols d"]
  by (auto simp: column_source_def arena_def arena_ok_def)

lemma transpose_spec:
  assumes "arena d rs" "\<forall>r \<in> set (rows_at d sl). r < d_nrows d"
  obtains cols where "transpose_delta ft d sl = Some (Inr cols)" "length cols = d_ncols d"
    "\<And>c. c < d_ncols d \<Longrightarrow> represents (cols ! c) (d_types d ! c) (map (\<lambda>r. canon_cell (rs ! r ! c)) (rows_at d sl))"
proof -
  have one: "\<exists>col. fill_col ft d (col_new (d_types d ! c) (for_physical (d_phys d ! c))) c (cell_ids d sl c) = Some (Inr col)
      \<and> represents col (d_types d ! c) (map (\<lambda>r. canon_cell (rs ! r ! c)) (rows_at d sl))" if "c < d_ncols d" for c
    using fill_col_spec [OF arena_source [OF assms(1) that assms(2)], of ft] that
    by (simp add: cell_ids_rows comp_def)
  have at: "at (d_types d) c = Some (d_types d ! c)" "at (d_phys d) c = Some (d_phys d ! c)" if "c < d_ncols d" for c
    using assms(1) that by (simp_all add: arena_def arena_ok_def at_def)
  have "\<exists>cols. transpose_cols ft d sl cs = Some (Inr cols) \<and> length cols = length cs \<and>
      (\<forall>k < length cs. represents (cols ! k) (d_types d ! (cs ! k)) (map (\<lambda>r. canon_cell (rs ! r ! (cs ! k))) (rows_at d sl)))"
    if "\<forall>c \<in> set cs. c < d_ncols d" for cs
    using that
  proof (induction cs)
    case (Cons c cs)
    then obtain cols where cols: "transpose_cols ft d sl cs = Some (Inr cols)" "length cols = length cs"
      "\<forall>k < length cs. represents (cols ! k) (d_types d ! (cs ! k)) (map (\<lambda>r. canon_cell (rs ! r ! (cs ! k))) (rows_at d sl))"
      by auto
    from Cons.prems one [of c] obtain col where
      "fill_col ft d (col_new (d_types d ! c) (for_physical (d_phys d ! c))) c (cell_ids d sl c) = Some (Inr col)"
      "represents col (d_types d ! c) (map (\<lambda>r. canon_cell (rs ! r ! c)) (rows_at d sl))" by auto
    with cols at [of c] Cons.prems show ?case by (auto simp: nth_Cons split: nat.split)
  qed simp
  from this [of "[0..<d_ncols d]"] that show thesis by (auto simp: transpose_delta_def)
qed

lemma transpose_block:
  assumes "arena d rs" "\<forall>r \<in> set (rows_at d sl). r < d_nrows d" "d_types d \<noteq> []"
  obtains cols b where "transpose_delta ft d sl = Some (Inr cols)" "block_new cols = Inr b"
    "block_holds b (d_types d) (map (\<lambda>r. map canon_cell (rs ! r)) (rows_at d sl))"
proof -
  obtain cols where cols: "transpose_delta ft d sl = Some (Inr cols)" "length cols = d_ncols d"
    "\<And>c. c < d_ncols d \<Longrightarrow> represents (cols ! c) (d_types d ! c) (map (\<lambda>r. canon_cell (rs ! r ! c)) (rows_at d sl))"
    by (rule transpose_spec [OF assms(1,2), of ft]) blast
  have n: "length (d_types d) = d_ncols d" "cols \<noteq> []" using assms(1,3) cols(2) by (auto simp: arena_def arena_ok_def)
  obtain b where "block_new cols = Inr b"
    "block_holds b (d_types d) (map (\<lambda>r. map (\<lambda>c. canon_cell (rs ! r ! c)) [0..<length cols]) (rows_at d sl))"
    using block_new_holds [of cols "d_types d" "\<lambda>c r. canon_cell (rs ! r ! c)" "rows_at d sl"] n cols(2,3) by auto
  moreover have "map (\<lambda>c. canon_cell (rs ! r ! c)) [0..<length cols] = map canon_cell (rs ! r)" if "r \<in> set (rows_at d sl)" for r
    using assms(1,2) that cols(2) by (intro nth_equalityI) (auto simp: arena_def)
  then have "map (\<lambda>r. map (\<lambda>c. canon_cell (rs ! r ! c)) [0..<length cols]) (rows_at d sl)
      = map (\<lambda>r. map canon_cell (rs ! r)) (rows_at d sl)" by (intro map_cong refl)
  ultimately show thesis using that cols(1) by simp
qed

section \<open>The buffer as a map from keys to rows\<close>

text \<open>
  The specification: a finite map from keys to rows, or to \<open>None\<close> for a deletion that must hide the key in the
  parts below. A buffer implements it when some list of rows fills the arena and the index points into it.
\<close>

type_synonym key_map = "u64 \<rightharpoonup> cell list option"

definition entry :: "cell list list \<Rightarrow> slot \<Rightarrow> cell list option" where
  "entry rs s = (if s = TOMBSTONE then None else Some (rs ! unat s))"

definition implements :: "delta \<Rightarrow> key_map \<Rightarrow> bool" where
  "implements d m \<longleftrightarrow> delta_inv d \<and> d_keyed d \<and> (\<exists>rs. arena d rs \<and> m = map_option (entry rs) \<circ> map_of (d_index d))"

text \<open>Room for one more row, and a row whose values suit the columns; a short row is padded with NULL.\<close>

definition room :: "delta \<Rightarrow> bool" where
  "room d \<longleftrightarrow> d_nrows d < 2 ^ 32 - 1 \<and> length (d_strs d) + d_ncols d < 2 ^ 64"

definition row_ok :: "data_type list \<Rightarrow> cell list \<Rightarrow> bool" where
  "row_ok tys row \<longleftrightarrow> (\<forall>c < length tys. storable (tys ! c) (cell_in row c))"

definition padded :: "nat \<Rightarrow> cell list \<Rightarrow> cell list" where
  "padded n row = map (cell_in row) [0..<n]"

lemma nth_overwrite:
  assumes "off + length ls \<le> length xs" "i < length xs"
  shows "overwrite xs off ls ! i = (if off \<le> i \<and> i < off + length ls then ls ! (i - off) else xs ! i)"
  using assms by (auto simp: overwrite_def nth_append min_def)

lemma other_row:
  assumes "(r :: nat) \<noteq> s" "c < m"
  shows "\<not> (s * m \<le> r * m + c \<and> r * m + c < s * m + m)"
  using assms slot_bound [of r s m] slot_bound [of s r m] by (cases "r < s") auto

text \<open>Writing a suitable row at slot \<open>s\<close>, an old one or the next.\<close>

definition row_written :: "delta \<Rightarrow> nat \<Rightarrow> cell list \<Rightarrow> u64 list \<Rightarrow> cell_store \<Rightarrow> bool" where
  "row_written d s row ls cs \<longleftrightarrow> length ls = d_ncols d \<and> touches {s * d_ncols d..<s * d_ncols d + d_ncols d} (store_of d) cs
     \<and> (\<forall>c < d_ncols d. storable (d_types d ! c) (cell_in row c)
          \<and> stored cs (d_phys d ! c) (s * d_ncols d + c) (ls ! c) (cell_in row c))"

lemma write_row:
  assumes "arena_ok d" "row_ok (d_types d) row" "length (d_strs d) + d_ncols d < 2 ^ 64"
  obtains ls cs where "write_cells ft (kinds_of d) row (s * d_ncols d) (store_of d) = (Inr (), ls, cs)" "row_written d s row ls cs"
proof -
  let ?n = "d_ncols d"
  note lk = length_kinds [OF assms(1)]
  have ok: "store_ok (store_of d)" using assms(1) by (simp add: arena_ok_def)
  have kinds: "fst (kinds_of d ! k) = d_phys d ! k \<and> snd (kinds_of d ! k) = d_types d ! k \<and> d_phys d ! k = physical (d_types d ! k)"
    if "k < ?n" for k using that assms(1) by (simp add: arena_ok_def)
  have st: "storable (d_types d ! k) (cell_in row k)" if "k < ?n" for k
    using that assms(1,2) by (simp add: row_ok_def arena_ok_def)
  obtain ls cs where w: "write_cells ft (kinds_of d) row (s * ?n) (store_of d) = (Inr (), ls, cs)" "length ls = ?n"
    "\<And>k. k < ?n \<Longrightarrow> stored cs (fst (kinds_of d ! k)) (s * ?n + k) (ls ! k) (cell_in row k)"
  proof (rule write_cells_stores [OF ok, of "kinds_of d" row ft "s * ?n", unfolded lk])
    show "length (cs_strs (store_of d)) + ?n < 2 ^ 64" using assms(3) by (simp add: store_of_def)
  qed (use kinds st in force)+
  from write_cells_touches [OF ok w(1)] lk have "touches {s * ?n..<s * ?n + ?n} (store_of d) cs" by simp
  with w kinds st that show thesis by (auto simp: row_written_def)
qed

lemma arena_write:
  assumes a: "arena d rs" and s: "s \<le> d_nrows d" and w: "row_written d s row ls cs"
    and d': "store_of d' = cs" "d_ncols d' = d_ncols d" "d_types d' = d_types d" "d_phys d' = d_phys d"
      "d_nrows d' = max (d_nrows d) (Suc s)" "d_nrows d' < 2 ^ 32" "length (d_lanes d') = d_nrows d' * d_ncols d"
      "\<And>i. i < d_nrows d' * d_ncols d \<Longrightarrow>
         d_lanes d' ! i = (if s * d_ncols d \<le> i \<and> i < s * d_ncols d + d_ncols d then ls ! (i - s * d_ncols d) else d_lanes d ! i)"
  shows "arena d' (if s < d_nrows d then rs[s := padded (d_ncols d) row] else rs @ [padded (d_ncols d) row])"
proof -
  let ?n = "d_ncols d"
  define rs' where "rs' = (if s < d_nrows d then rs[s := padded ?n row] else rs @ [padded ?n row])"
  have rs: "length rs = d_nrows d" using a by (simp add: arena_def)
  have ok: "arena_ok d'" using a w d' by (auto simp: arena_def arena_ok_def row_written_def touches_def)
  have "length (rs' ! q) = ?n \<and> (\<forall>c < ?n. storable (d_types d ! c) (rs' ! q ! c) \<and>
      stored cs (d_phys d ! c) (q * ?n + c) (d_lanes d' ! (q * ?n + c)) (rs' ! q ! c))" if q: "q < d_nrows d'" for q
  proof (cases "q = s")
    case True
    have row: "rs' ! q = padded ?n row" using True rs s by (auto simp: rs'_def nth_append)
    have "d_lanes d' ! (q * ?n + c) = ls ! c" if "c < ?n" for c
      using d'(8) [OF cell_bound [OF q that]] True that by simp
    then show ?thesis using w True unfolding row by (auto simp: padded_def row_written_def)
  next
    case False
    then have lt: "q < d_nrows d" using q s d'(5) by auto
    have row: "rs' ! q = rs ! q" using False lt rs by (simp add: rs'_def nth_append)
    have "stored cs (d_phys d ! c) (q * ?n + c) (d_lanes d' ! (q * ?n + c)) (rs ! q ! c)" if c: "c < ?n" for c
    proof -
      note nt = other_row [OF False c]
      have "d_lanes d' ! (q * ?n + c) = d_lanes d ! (q * ?n + c)" using d'(8) [OF cell_bound [OF q c]] nt by auto
      moreover have "stored (store_of d) (d_phys d ! c) (q * ?n + c) (d_lanes d ! (q * ?n + c)) (rs ! q ! c)"
        using a lt c by (simp add: arena_def)
      ultimately show ?thesis using stored_touches nt w by (auto simp: row_written_def)
    qed
    then show ?thesis using a lt by (simp add: row arena_def)
  qed
  moreover have "length rs' = d_nrows d'" using rs s d'(5) by (auto simp: rs'_def)
  ultimately show ?thesis unfolding arena_def rs'_def [symmetric] d'(1-4) using ok by blast
qed

lemma index_inj:
  assumes "index_ok d" "map_of (d_index d) k = Some s" "map_of (d_index d) k' = Some s" "s \<noteq> TOMBSTONE"
  shows "k = k'"
proof -
  have "live_list (d_index d) = map snd (filter (\<lambda>p. snd p \<noteq> TOMBSTONE) (d_index d))"
    by (simp add: live_list_def filter_map comp_def)
  with assms(1) have "inj_on snd (set (filter (\<lambda>p. snd p \<noteq> TOMBSTONE) (d_index d)))"
    by (simp add: index_ok_def distinct_map)
  with assms(2-4) show ?thesis by (auto simp: inj_on_def dest!: map_of_SomeD)
qed

lemma live_slot: "map_of (d_index d) k = Some s \<Longrightarrow> s \<noteq> TOMBSTONE \<Longrightarrow> s \<in> set (slots d)"
  by (force simp: live_list_def dest: map_of_SomeD)

lemma slot_row: "index_ok d \<Longrightarrow> map_of (d_index d) k = Some s \<Longrightarrow> s \<noteq> TOMBSTONE \<Longrightarrow> unat s < d_nrows d"
  using live_slot by (auto simp: index_ok_def)

lemma arena_same_index:
  assumes "arena d rs" "d_ncols d' = d_ncols d" "d_lanes d' = d_lanes d" "d_nrows d' = d_nrows d" "d_types d' = d_types d"
    "d_phys d' = d_phys d" "store_of d' = store_of d"
  shows "arena d' rs"
proof -
  have "arena_ok d'" using assms by (simp add: arena_def arena_ok_def)
  then show ?thesis using assms(1) unfolding arena_def assms(2-7) by blast
qed

lemma append_row_refused:
  assumes "arena d rs" "append_row ft d row = (Inl e, d')"
  shows "arena d' rs \<and> d_index d' = d_index d \<and> d_nrows d' = d_nrows d \<and> d_dead d' = d_dead d \<and> d_keyed d' = d_keyed d"
proof -
  obtain w ls cs where w: "write_cells ft (kinds_of d) row (length (d_lanes d)) (store_of d) = (w, ls, cs)" by (metis prod_cases3)
  have ok: "store_ok (store_of d)" "length (d_lanes d) = d_nrows d * d_ncols d" using assms(1) by (simp_all add: arena_def arena_ok_def)
  from write_cells_touches [OF ok(1) w] have t: "touches {length (d_lanes d)..<length (d_lanes d) + length (kinds_of d)} (store_of d) cs" by simp
  then have "store_ok cs" by (simp add: touches_def)
  moreover have "stored cs p (r * d_ncols d + c) l v"
    if "stored (store_of d) p (r * d_ncols d + c) l v" "r < d_nrows d" "c < d_ncols d" for p r c l v
    using stored_touches [OF that(1) t] cell_bound [OF that(2,3)] ok(2) by simp
  ultimately have "arena (with_store d cs) rs" using assms(1) by (auto simp: arena_def arena_ok_def)
  then show ?thesis using assms(2) w by (auto simp: append_row_def split: sum.splits)
qed

lemma append_row_stores:
  assumes a: "arena d rs" and ok: "row_ok (d_types d) row" "room d"
  obtains d' where "append_row ft d row = (Inr (of_nat (d_nrows d)), d')" "arena d' (rs @ [padded (d_ncols d) row])"
    "d_index d' = d_index d" "d_dead d' = d_dead d" "d_keyed d' = d_keyed d" "d_nrows d' = Suc (d_nrows d)"
    "d_types d' = d_types d" "length (d_strs d') \<le> length (d_strs d) + d_ncols d"
proof -
  have ao: "arena_ok d" "length (d_lanes d) = d_nrows d * d_ncols d"
    using a by (simp_all add: arena_def arena_ok_def)
  obtain ls cs where w: "write_cells ft (kinds_of d) row (d_nrows d * d_ncols d) (store_of d) = (Inr (), ls, cs)"
    "row_written d (d_nrows d) row ls cs"
    using write_row [OF ao(1) ok(1)] ok(2) unfolding room_def by metis
  let ?d = "(with_store d cs)\<lparr>d_lanes := d_lanes d @ ls, d_nrows := d_nrows d + 1\<rparr>"
  have len: "length ls = d_ncols d" "length (cs_strs cs) \<le> length (d_strs d) + d_ncols d"
    using w(2) by (auto simp: row_written_def touches_def store_of_def)
  have "arena ?d (rs @ [padded (d_ncols d) row])"
    using arena_write [OF a order_refl w(2), of ?d] len ao ok(2) by (simp add: nth_append room_def)
  then show thesis using that [of ?d] w(1) ao(2) len(2) by (simp add: append_row_def)
qed

lemma overwrite_stores:
  assumes a: "arena d rs" and ok: "row_ok (d_types d) row" "room d" and s: "s < d_nrows d"
  obtains ls cs where "write_cells ft (kinds_of d) row (s * d_ncols d) (store_of d) = (Inr (), ls, cs)"
    "arena ((with_store d cs)\<lparr>d_lanes := overwrite (d_lanes d) (s * d_ncols d) ls\<rparr>) (rs[s := padded (d_ncols d) row])"
    "length (cs_strs cs) \<le> length (d_strs d) + d_ncols d"
proof -
  have ao: "arena_ok d" "length (d_lanes d) = d_nrows d * d_ncols d" "d_nrows d < 2 ^ 32"
    using a by (simp_all add: arena_def arena_ok_def)
  obtain ls cs where w: "write_cells ft (kinds_of d) row (s * d_ncols d) (store_of d) = (Inr (), ls, cs)"
    "row_written d s row ls cs"
    using write_row [OF ao(1) ok(1)] ok(2) unfolding room_def by metis
  let ?d = "(with_store d cs)\<lparr>d_lanes := overwrite (d_lanes d) (s * d_ncols d) ls\<rparr>"
  have len: "length ls = d_ncols d" "length (cs_strs cs) \<le> length (d_strs d) + d_ncols d"
    using w(2) by (auto simp: row_written_def touches_def store_of_def)
  have fit: "s * d_ncols d + length ls \<le> length (d_lanes d)" using slot_bound [OF s, of "d_ncols d"] len ao by simp
  have "arena ?d (rs[s := padded (d_ncols d) row])"
    using arena_write [OF a less_imp_le [OF s] w(2), of ?d] s ao fit len
    by (simp add: nth_overwrite length_overwrite max_def)
  then show thesis using that w(1) len(2) by blast
qed

section \<open>The operations refine the map\<close>

lemma implementsI:
  "arena_ok d \<Longrightarrow> index_ok d \<Longrightarrow> d_keyed d \<Longrightarrow> arena d rs \<Longrightarrow>
    (\<And>k. m k = map_option (entry rs) (map_of (d_index d) k)) \<Longrightarrow> implements d m"
  unfolding implements_def delta_inv_def by (fastforce simp: fun_eq_iff)

lemma implements_new: "implements (delta_new True tys) Map.empty"
  using delta_new_inv [of True tys]
  by (intro implementsI [where rs = "[]"]) (auto simp: delta_inv_def arena_def delta_new_def)

lemma implements_put:
  assumes "implements d m" "row_ok (d_types d) row" "room d"
  shows "\<exists>d'. put_keyed ft d key row = Some (Inr (), d') \<and> implements d' (m(key \<mapsto> Some (padded (d_ncols d) row)))
    \<and> d_types d' = d_types d \<and> d_nrows d' \<le> Suc (d_nrows d) \<and> length (d_strs d') \<le> length (d_strs d) + d_ncols d"
proof -
  obtain rs where i: "delta_inv d" "d_keyed d" and a: "arena d rs" and m: "m = map_option (entry rs) \<circ> map_of (d_index d)"
    using assms(1) by (auto simp: implements_def)
  have io: "index_ok d" and rs: "length rs = d_nrows d" using i(1) a by (simp_all add: delta_inv_def arena_def)
  from i show ?thesis
  proof (cases rule: put_keyed_cases [where ft = ft and key = key and row = row])
    case (overwrite s r ls cs)
    obtain ls' cs' where w: "write_cells ft (kinds_of d) row (unat s * d_ncols d) (store_of d) = (Inr (), ls', cs')"
      "arena ((with_store d cs')\<lparr>d_lanes := overwrite (d_lanes d) (unat s * d_ncols d) ls'\<rparr>) (rs[unat s := padded (d_ncols d) row])"
      "length (cs_strs cs') \<le> length (d_strs d) + d_ncols d"
      using overwrite_stores [OF a assms(2,3) overwrite(3), of ft] by metis
    let ?d = "(with_store d cs')\<lparr>d_lanes := overwrite (d_lanes d) (unat s * d_ncols d) ls'\<rparr>"
    let ?rs = "rs[unat s := padded (d_ncols d) row]"
    have "(m(key \<mapsto> Some (padded (d_ncols d) row))) k = map_option (entry ?rs) (map_of (d_index d) k)" for k
    proof (cases "k = key")
      case False
      then have "unat s \<noteq> unat t" if "map_of (d_index d) k = Some t" "t \<noteq> TOMBSTONE" for t
        using index_inj [OF io overwrite(1), of k] that overwrite(2) by (auto simp: word_unat_eq_iff)
      with False m show ?thesis by (cases "map_of (d_index d) k") (auto simp: entry_def)
    qed (use overwrite(1-3) rs in \<open>simp add: entry_def\<close>)
    then have "implements ?d (m(key \<mapsto> Some (padded (d_ncols d) row)))"
      using w(2) io i(2) by (intro implementsI) (auto simp: arena_def index_ok_def)
    moreover have "put_keyed ft d key row = Some (Inr (), ?d)" using overwrite(4,5) w(1) by simp
    ultimately show ?thesis using w(3) by auto
  next
    case (fresh r d')
    obtain d1 where d1: "append_row ft d row = (Inr (of_nat (d_nrows d)), d1)" "arena d1 (rs @ [padded (d_ncols d) row])"
      "d_index d1 = d_index d" "d_dead d1 = d_dead d" "d_keyed d1 = d_keyed d" "d_nrows d1 = Suc (d_nrows d)"
      "d_types d1 = d_types d" "length (d_strs d1) \<le> length (d_strs d) + d_ncols d"
      using append_row_stores [OF a assms(2,3), of ft] by metis
    have n: "d_nrows d < 2 ^ 32 - 1" using assms(3) by (simp add: room_def)
    let ?d = "d1\<lparr>d_index := AList.update key (of_nat (d_nrows d)) (d_index d)\<rparr>"
    let ?rs = "rs @ [padded (d_ncols d) row]"
    have old: "entry ?rs t = entry rs t" if "map_of (d_index d) k = Some t" for k t
      using slot_row [OF io that] rs by (auto simp: entry_def nth_append)
    have "index_ok ?d" using d1 i(2) by (intro index_ok_insert [OF io i(2) fresh(1) n]) auto
    moreover have ar: "arena ?d ?rs" by (rule arena_same_index [OF d1(2)]) simp_all
    moreover have "(m(key \<mapsto> Some (padded (d_ncols d) row))) k = map_option (entry ?rs) (map_of (d_index ?d) k)" for k
    proof (cases "k = key")
      case True
      then show ?thesis using fresh_slot [OF n] rs by (simp add: update_conv' entry_def nth_append)
    next
      case False
      then show ?thesis using old [of k] m by (cases "map_of (d_index d) k") (simp_all add: update_conv')
    qed
    ultimately have "implements ?d (m(key \<mapsto> Some (padded (d_ncols d) row)))"
      using d1 i(2) by (intro implementsI) (auto simp: arena_def)
    moreover have "put_keyed ft d key row = Some (Inr (), ?d)" using fresh(2,3) d1(1,3) by auto
    ultimately show ?thesis using d1 by auto
  qed
qed

lemma implements_refused:
  assumes "implements d m" "put_keyed ft d key row = Some (Inl e, d')" "m key = None \<or> m key = Some None"
  shows "implements d' m"
proof -
  obtain rs where i: "delta_inv d" "d_keyed d" and a: "arena d rs" and m: "m = map_option (entry rs) \<circ> map_of (d_index d)"
    using assms(1) by (auto simp: implements_def)
  from i show ?thesis
  proof (cases rule: put_keyed_cases [where ft = ft and key = key and row = row])
    case (overwrite s r ls cs)
    with assms(3) m show ?thesis by (simp add: entry_def)
  next
    case (fresh r d1)
    with assms(2) have "append_row ft d row = (Inl e, d')" by (auto split: sum.splits)
    from append_row_refused [OF a this] i a m show ?thesis
      by (intro implementsI [where rs = rs]) (auto simp: arena_def delta_inv_def index_ok_def)
  qed
qed

lemma implements_delete:
  assumes "implements d m"
  shows "implements (delete_keyed d key) (m(key \<mapsto> None))"
proof -
  obtain rs where i: "delta_inv d" "d_keyed d" and a: "arena d rs" and m: "m = map_option (entry rs) \<circ> map_of (d_index d)"
    using assms by (auto simp: implements_def)
  have "arena (delete_keyed d key) rs"
    by (rule arena_same_index [OF a]) (simp_all add: delete_keyed_def Let_def store_of_def)
  then show ?thesis using delete_keyed_inv [OF i] m i(2)
    by (intro implementsI [where rs = rs])
      (auto simp: delta_inv_def delete_keyed_def Let_def update_conv' entry_def)
qed

section \<open>What a buffer shows\<close>

definition live_keys :: "key_map \<Rightarrow> u64 set" where
  "live_keys m = {k. \<exists>row. m k = Some (Some row)}"

definition row_of :: "key_map \<Rightarrow> u64 \<Rightarrow> cell list" where
  "row_of m k = (case m k of Some (Some row) \<Rightarrow> row | _ \<Rightarrow> [])"

definition puts :: "delta \<Rightarrow> (u64 \<times> slot) list" where
  "puts d = filter (\<lambda>(k, s). s \<noteq> TOMBSTONE) (d_index d)"

lemma implements_puts:
  assumes "implements d m"
  obtains rs where "arena d rs" "distinct (map fst (puts d))" "distinct (map snd (puts d))" "set (map fst (puts d)) = live_keys m"
    "\<And>k s. (k, s) \<in> set (puts d) \<Longrightarrow> unat s < d_nrows d \<and> row_of m k = rs ! unat s"
    "\<And>k s. (k, s) \<in> set (d_index d) \<Longrightarrow> m k = Some (entry rs s)"
proof -
  obtain rs where i: "index_ok d" and a: "arena d rs" and m: "m = map_option (entry rs) \<circ> map_of (d_index d)"
    using assms by (auto simp: implements_def delta_inv_def)
  have keys: "distinct (map fst (d_index d))" using i by (simp add: index_ok_def)
  then have look: "map_of (d_index d) k = Some s \<longleftrightarrow> (k, s) \<in> set (d_index d)" for k s by simp
  have at: "m k = Some (entry rs s)" if "(k, s) \<in> set (d_index d)" for k s using that look [of k s] m by auto
  have snd: "map snd (puts d) = slots d" by (simp add: puts_def live_list_def filter_map comp_def case_prod_unfold)
  have "set (map fst (puts d)) = live_keys m"
  proof
    show "set (map fst (puts d)) \<subseteq> live_keys m" using at by (auto simp: puts_def live_keys_def entry_def)
    show "live_keys m \<subseteq> set (map fst (puts d))"
    proof
      fix k
      assume "k \<in> live_keys m"
      then obtain s where "map_of (d_index d) k = Some s" "s \<noteq> TOMBSTONE"
        by (auto simp: live_keys_def m entry_def split: if_splits)
      then show "k \<in> set (map fst (puts d))" by (force simp: puts_def dest: map_of_SomeD)
    qed
  qed
  moreover have "unat s < d_nrows d \<and> row_of m k = rs ! unat s" if "(k, s) \<in> set (puts d)" for k s
    using that at [of k s] slot_row [OF i, of k s] look by (auto simp: puts_def row_of_def entry_def)
  moreover have "distinct (map fst (puts d))" using keys by (simp add: puts_def distinct_map_filter)
  moreover have "distinct (map snd (puts d))" unfolding snd using i by (simp add: index_ok_def)
  ultimately show thesis using that a at by blast
qed

lemma implements_get:
  assumes "implements d m"
  shows "delta_get d k = (case m k of None \<Rightarrow> None | Some None \<Rightarrow> Some Del | Some (Some _) \<Rightarrow> map_option Put (map_of (d_index d) k))"
    "m k = Some (Some row) \<Longrightarrow> \<exists>s. delta_get d k = Some (Put s) \<and>
      (\<forall>c. value_at d s c = Some (if c < d_ncols d then seen (row ! c) else VNull))"
proof -
  obtain rs where i: "index_ok d" and a: "arena d rs" and m: "m = map_option (entry rs) \<circ> map_of (d_index d)"
    using assms by (auto simp: implements_def delta_inv_def)
  show g: "delta_get d k = (case m k of None \<Rightarrow> None | Some None \<Rightarrow> Some Del | Some (Some _) \<Rightarrow> map_option Put (map_of (d_index d) k))"
    by (cases "map_of (d_index d) k") (auto simp: delta_get_def m entry_def)
  show "\<exists>s. delta_get d k = Some (Put s) \<and> (\<forall>c. value_at d s c = Some (if c < d_ncols d then seen (row ! c) else VNull))"
    if "m k = Some (Some row)"
  proof -
    from that obtain s where s: "map_of (d_index d) k = Some s" "s \<noteq> TOMBSTONE" "row = rs ! unat s"
      by (auto simp: m entry_def split: if_splits)
    have ok: "arena_ok d" "length (d_lanes d) = d_nrows d * d_ncols d" using a by (simp_all add: arena_def arena_ok_def)
    have "delta_decode d c (unat s * d_ncols d + c) = Some (seen (row ! c))" if "c < d_ncols d" for c
      using a slot_row [OF i s(1,2)] that cell_bound [OF slot_row [OF i s(1,2)] that] ok(2)
      by (intro decode_stored [OF ok(1) that]) (simp_all add: arena_def s(3))
    with s show ?thesis by (auto simp: delta_get_def value_at_def)
  qed
qed

lemma implements_counts:
  assumes "implements d m"
  shows "delta_len d = card (dom m)" "set (touched_keys d) = dom m" "distinct (touched_keys d)" "live_rows d = card (live_keys m)"
    "contains_key d k \<longleftrightarrow> k \<in> dom m"
proof -
  obtain rs where i: "index_ok d" "d_keyed d" and m: "m = map_option (entry rs) \<circ> map_of (d_index d)"
    using assms by (auto simp: implements_def delta_inv_def)
  have keys: "distinct (map fst (d_index d))" using i by (simp add: index_ok_def)
  have dom: "dom m = set (map fst (d_index d))" using dom_map_of_conv_image_fst [of "d_index d"] by (auto simp: m dom_def)
  show "set (touched_keys d) = dom m" "distinct (touched_keys d)" by (simp_all add: touched_keys_def dom keys)
  have "card (dom m) = length (d_index d)" using distinct_card [OF keys] by (simp add: dom)
  then show "delta_len d = card (dom m)" by (simp add: delta_len_def i(2))
  show "contains_key d k \<longleftrightarrow> k \<in> dom m" by (auto simp: contains_key_def m dom_def)
  obtain rs' where "distinct (map fst (puts d))" "set (map fst (puts d)) = live_keys m"
    by (rule implements_puts [OF assms]) blast
  then have "card (live_keys m) = length (puts d)" using distinct_card by (metis length_map)
  moreover have "length (puts d) = length (slots d)" by (simp add: puts_def live_list_def filter_map comp_def case_prod_unfold)
  ultimately show "live_rows d = card (live_keys m)" using i by (auto simp: live_rows_def index_ok_def)
qed

lemma drain_spec:
  assumes "implements d m" "d_types d \<noteq> []"
  shows "\<exists>b ks. drain_to_block ft d = Some (Inr (b, touched_keys d), delta_clear d) \<and> to_block ft d = Some (Inr b)
    \<and> distinct ks \<and> set ks = live_keys m \<and> block_holds b (d_types d) (map (\<lambda>k. map canon_cell (row_of m k)) ks)"
proof -
  obtain rs where a: "arena d rs" and p: "distinct (map fst (puts d))" "distinct (map snd (puts d))"
    "set (map fst (puts d)) = live_keys m" "\<And>k s. (k, s) \<in> set (puts d) \<Longrightarrow> unat s < d_nrows d \<and> row_of m k = rs ! unat s"
    by (rule implements_puts [OF assms(1)]) blast
  have inv: "delta_inv d" and kd: "d_keyed d" using assms(1) by (simp_all add: implements_def)
  obtain sl where sl: "live_slots d = Some sl" "rows_at d sl = filter (live_row d) [0..<d_nrows d]"
    using live_slots_rows [OF inv] .
  obtain cols b where b: "transpose_delta ft d sl = Some (Inr cols)" "block_new cols = Inr b"
    "block_holds b (d_types d) (map (\<lambda>r. map canon_cell (rs ! r)) (rows_at d sl))"
    by (rule transpose_block [OF a _ assms(2), of sl ft]) (use sl(2) in auto)
  define key where "key r = the (map_of (map (\<lambda>(k, s). (unat s, k)) (puts d)) r)" for r
  have fsts: "map fst (map (\<lambda>(k, s). (unat s, k)) (puts d)) = map unat (map snd (puts d))" by (simp add: case_prod_unfold)
  have "distinct (map unat (map snd (puts d)))"
    using p(2) by (simp add: distinct_map inj_on_def word_unat_eq_iff del: map_map)
  then have key: "key (unat s) = k" if "(k, s) \<in> set (puts d)" for k s
    unfolding key_def using that fsts
    by (subst map_of_is_SomeI [of _ _ k]) (auto simp: image_iff case_prod_unfold comp_def intro!: bexI [of _ "(k, s)"])
  have snd: "map snd (puts d) = slots d" by (simp add: puts_def live_list_def filter_map comp_def case_prod_unfold)
  have live: "r \<in> set (rows_at d sl) \<longleftrightarrow> (\<exists>k s. (k, s) \<in> set (puts d) \<and> r = unat s)" for r
  proof -
    have "r \<in> set (rows_at d sl) \<longleftrightarrow> r < d_nrows d \<and> r \<in> unat ` set (map snd (puts d))"
      by (simp add: sl(2) live_row_def kd snd conj_commute)
    then show ?thesis using p(4) by force
  qed
  let ?ks = "map key (rows_at d sl)"
  have inj: "inj_on key (set (rows_at d sl))"
  proof
    fix x y
    assume "x \<in> set (rows_at d sl)" "y \<in> set (rows_at d sl)" "key x = key y"
    then obtain k s t where "(k, s) \<in> set (puts d)" "x = unat s" "(k, t) \<in> set (puts d)" "y = unat t"
      using live key by metis
    then show "x = y" using p(1) by (metis eq_key_imp_eq_value)
  qed
  have "map (\<lambda>r. map canon_cell (rs ! r)) (rows_at d sl) = map (\<lambda>k. map canon_cell (row_of m k)) ?ks"
    using live key p(4) by (auto simp: comp_def)
  with b(3) have "block_holds b (d_types d) (map (\<lambda>k. map canon_cell (row_of m k)) ?ks)" by simp
  moreover have "distinct ?ks" using inj by (simp add: distinct_map sl(2))
  moreover have "set ?ks = live_keys m"
  proof -
    have "set ?ks = key ` {r. \<exists>k s. (k, s) \<in> set (puts d) \<and> r = unat s}" using live by auto
    also have "\<dots> = set (map fst (puts d))" using key by force
    finally show ?thesis using p(3) by simp
  qed
  ultimately show ?thesis using sl(1) b(1,2) by (auto simp: drain_to_block_def to_block_def)
qed

subsection \<open>The frozen image\<close>

lemma radix_sort_soa_all:
  assumes "length keys = length idx"
  shows "radix_sort_soa keys idx = (map fst (sort_key fst (zip keys idx)), map snd (sort_key fst (zip keys idx)))"
proof (cases "length keys < 128")
  case True
  let ?f = "\<lambda>i. (keys ! i, idx ! i)"
  have "zip keys idx = map ?f [0..<length keys]" using assms by (intro nth_equalityI) auto
  then have "sort_key fst (zip keys idx) = map ?f (sort_key (\<lambda>i. keys ! i) [0..<length keys])"
    using sort_key_map [of fst ?f "[0..<length keys]"] by (simp add: comp_def)
  then show ?thesis using True by (simp add: radix_sort_soa_def Let_def comp_def)
next
  case False
  obtain k i where ki: "radix_sort_soa keys idx = (k, i)" by fastforce
  with radix_sort_soa_eq [OF assms] False have "length k = length i" "zip k i = sort_key fst (zip keys idx)" by auto
  then show ?thesis using ki by (metis map_fst_zip map_snd_zip)
qed

lemma bsearch_Some: "bsearch xs x lo hi = Some i \<Longrightarrow> lo \<le> i \<and> i < hi \<and> xs ! i = x"
proof (induction xs x lo hi rule: bsearch.induct)
  case (1 xs x lo hi)
  let ?mid = "lo + (hi - lo) div 2"
  have lt: "lo < hi" using 1(3) by (subst (asm) bsearch.simps) (auto split: if_splits)
  then have mid: "lo \<le> ?mid" "?mid < hi" by auto
  show ?case
  proof (cases "cmp (xs ! ?mid) x")
    case Less
    with 1 lt have "?mid + 1 \<le> i \<and> i < hi \<and> xs ! i = x" by (subst (asm) (3) bsearch.simps) (simp add: Let_def)
    with mid show ?thesis by auto
  next
    case Equal
    with 1(3) lt have "i = ?mid" by (subst (asm) bsearch.simps) (simp add: Let_def)
    with mid Equal show ?thesis by (simp add: cmp_def split: if_splits)
  next
    case Greater
    with 1 lt have "lo \<le> i \<and> i < ?mid \<and> xs ! i = x" by (subst (asm) (3) bsearch.simps) (simp add: Let_def)
    with mid show ?thesis by auto
  qed
qed

lemma bsearch_finds:
  assumes "sorted_wrt (<) xs" "j < length xs" "lo \<le> j" "j < hi" "hi \<le> length xs"
  shows "bsearch xs (xs ! j) lo hi = Some j"
  using assms
proof (induction xs "xs ! j" lo hi rule: bsearch.induct)
  case (1 xs lo hi)
  let ?mid = "lo + (hi - lo) div 2"
  have mid: "lo < hi" "?mid < length xs" using 1(5-7) by auto
  have ord: "xs ! a < xs ! b" if "a < b" "b < length xs" for a b using sorted_wrt_nth_less [OF 1(3)] that by simp
  consider "?mid < j" | "?mid = j" | "j < ?mid" by linarith
  then show ?case
  proof cases
    case 1
    then have "cmp (xs ! ?mid) (xs ! j) = Less" using ord [of ?mid j] \<open>j < length xs\<close> by (simp add: cmp_def)
    with 1 "1.hyps"(1) "1.prems" mid show ?thesis by (subst bsearch.simps) (simp add: Let_def)
  next
    case 2
    then show ?thesis using mid by (subst bsearch.simps) (simp add: Let_def cmp_def)
  next
    case 3
    then have "cmp (xs ! ?mid) (xs ! j) = Greater" using ord [of j ?mid] mid by (auto simp: cmp_def)
    with 3 "1.hyps"(2) "1.prems" mid show ?thesis by (subst bsearch.simps) (simp add: Let_def)
  qed
qed

lemma bsearch_iff:
  assumes "sorted_wrt (<) xs"
  shows "bsearch xs x 0 (length xs) = Some i \<longleftrightarrow> i < length xs \<and> xs ! i = x" "bsearch xs x 0 (length xs) \<noteq> None \<longleftrightarrow> x \<in> set xs"
proof -
  show iff: "bsearch xs x 0 (length xs) = Some i \<longleftrightarrow> i < length xs \<and> xs ! i = x" for i
    using bsearch_Some [of xs x 0 "length xs" i] bsearch_finds [OF assms, of i 0 "length xs"] by auto
  show "bsearch xs x 0 (length xs) \<noteq> None \<longleftrightarrow> x \<in> set xs"
    using iff by (auto simp: in_set_conv_nth)
qed

lemma freeze_spec:
  assumes "implements d m" "d_types d \<noteq> []"
  shows "\<exists>im. freeze ft d = Some (Inr im) \<and> sorted_wrt (<) (im_keys im) \<and> set (im_keys im) = live_keys m
    \<and> sorted_wrt (<) (im_tombstones im) \<and> set (im_tombstones im) = {k. m k = Some None}
    \<and> block_holds (im_block im) (d_types d) (map (\<lambda>k. map canon_cell (row_of m k)) (im_keys im))"
proof -
  obtain rs where a: "arena d rs" and p: "distinct (map fst (puts d))" "set (map fst (puts d)) = live_keys m"
    "\<And>k s. (k, s) \<in> set (puts d) \<Longrightarrow> unat s < d_nrows d \<and> row_of m k = rs ! unat s"
    and at: "\<And>k s. (k, s) \<in> set (d_index d) \<Longrightarrow> m k = Some (entry rs s)"
    by (rule implements_puts [OF assms(1)]) blast
  have kd: "d_keyed d" and keys: "distinct (map fst (d_index d))" using assms(1) by (simp_all add: implements_def delta_inv_def index_ok_def)
  let ?sp = "sort_key fst (puts d)" and ?t = "sort (map fst (filter (\<lambda>(k, s). s = TOMBSTONE) (d_index d)))"
  let ?ks = "map fst ?sp" and ?ss = "map snd ?sp"
  have radix: "radix_sort_soa (map fst (puts d)) (map snd (puts d)) = (?ks, ?ss)"
    by (simp add: radix_sort_soa_all zip_map_fst_snd)
  have "\<forall>r \<in> set (rows_at d (Some ?ss)). r < d_nrows d" using p(3) by (auto simp: rows_at_def)
  then obtain cols b where b: "transpose_delta ft d (Some ?ss) = Some (Inr cols)" "block_new cols = Inr b"
    "block_holds b (d_types d) (map (\<lambda>r. map canon_cell (rs ! r)) (rows_at d (Some ?ss)))"
    by (rule transpose_block [OF a _ assms(2), of "Some ?ss" ft])
  let ?im = "\<lparr>im_block = b, im_keys = ?ks, im_tombstones = ?t\<rparr>"
  have "freeze ft d = Some (Inr ?im)" using b(1,2) kd radix by (simp add: freeze_def puts_def [symmetric] Let_def)
  moreover have "sorted_wrt (<) ?ks"
    using p(1) by (simp add: strict_sorted_iff distinct_map)
  moreover have "set ?ks = live_keys m" using p(2) by simp
  moreover have "sorted_wrt (<) ?t" using keys by (simp add: strict_sorted_iff distinct_map_filter)
  moreover have "set ?t = {k. m k = Some None}"
  proof -
    have "k \<in> set ?t" if "m k = Some None" for k
    proof -
      have "k \<in> dom m" using that by auto
      then have "k \<in> fst ` set (d_index d)" using implements_counts(2) [OF assms(1)] by (simp add: touched_keys_def)
      then obtain s where "(k, s) \<in> set (d_index d)" by auto
      with at [OF this] that show ?thesis by (force simp: entry_def split: if_splits)
    qed
    then show ?thesis using at by (auto simp: entry_def)
  qed
  moreover have "map (\<lambda>r. map canon_cell (rs ! r)) (rows_at d (Some ?ss)) = map (\<lambda>k. map canon_cell (row_of m k)) ?ks"
    using p(3) by (auto simp: rows_at_def)
  ultimately show ?thesis using b(3) by auto
qed

section \<open>Histories of the buffer\<close>

text \<open>A buffer that implements a map under a stream of writes: the interface the table relies on.\<close>

datatype 'r log_op = Upsert u64 'r | Remove u64

fun log_step :: "'r log_op \<Rightarrow> (u64 \<rightharpoonup> 'r option) \<Rightarrow> (u64 \<rightharpoonup> 'r option)" where
  "log_step (Upsert k r) m = m(k \<mapsto> Some r)"
| "log_step (Remove k) m = m(k \<mapsto> None)"

fun replay :: "('b \<Rightarrow> u64 \<Rightarrow> 'r \<Rightarrow> 'b option) \<Rightarrow> ('b \<Rightarrow> u64 \<Rightarrow> 'b) \<Rightarrow> 'r log_op list \<Rightarrow> 'b \<Rightarrow> 'b option" where
  "replay p q [] b = Some b"
| "replay p q (Upsert k r # ops) b = Option.bind (p b k r) (replay p q ops)"
| "replay p q (Remove k # ops) b = replay p q ops (q b k)"

locale keyed_buffer =
  fixes rep :: "'b \<Rightarrow> (u64 \<rightharpoonup> 'r option) \<Rightarrow> bool"
    and put_row :: "'b \<Rightarrow> u64 \<Rightarrow> 'r \<Rightarrow> 'b option"
    and del_row :: "'b \<Rightarrow> u64 \<Rightarrow> 'b"
    and space :: "nat \<Rightarrow> 'b \<Rightarrow> bool"
    and valid :: "'r \<Rightarrow> bool"
  assumes put_rep: "rep b m \<Longrightarrow> valid r \<Longrightarrow> space (Suc n) b \<Longrightarrow>
      \<exists>b'. put_row b k r = Some b' \<and> rep b' (m(k \<mapsto> Some r)) \<and> space n b'"
    and del_rep: "rep b m \<Longrightarrow> space (Suc n) b \<Longrightarrow> rep (del_row b k) (m(k \<mapsto> None)) \<and> space n (del_row b k)"
begin

lemma replay_rep:
  assumes "rep b m" "\<forall>k r. Upsert k r \<in> set ops \<longrightarrow> valid r" "space (length ops) b"
  shows "\<exists>b'. replay put_row del_row ops b = Some b' \<and> rep b' (fold log_step ops m)"
  using assms
proof (induction ops arbitrary: b m)
  case (Cons op ops)
  have v: "\<forall>k r. Upsert k r \<in> set ops \<longrightarrow> valid r" using Cons.prems(2) by simp
  show ?case
  proof (cases op)
    case (Upsert k r)
    with put_rep [OF Cons.prems(1), of r "length ops" k] Cons.prems(2,3) obtain b' where
      "put_row b k r = Some b'" "rep b' (m(k \<mapsto> Some r))" "space (length ops) b'" by auto
    with Cons.IH [OF _ v] Upsert show ?thesis by simp
  next
    case (Remove k)
    with del_rep [OF Cons.prems(1), of "length ops" k] Cons.prems(3)
    have "rep (del_row b k) (m(k \<mapsto> None))" "space (length ops) (del_row b k)" by simp_all
    from Cons.IH [OF this(1) v this(2)] Remove show ?thesis by (simp add: fun_upd_def)
  qed
qed simp

end

text \<open>The buffer of a schema, its upsert of a full-width row, and the space a log needs.\<close>

definition holds_map :: "data_type list \<Rightarrow> delta \<Rightarrow> key_map \<Rightarrow> bool" where
  "holds_map tys d m \<longleftrightarrow> implements d m \<and> d_types d = tys"

definition upsert :: "float_text \<Rightarrow> delta \<Rightarrow> u64 \<Rightarrow> cell list \<Rightarrow> delta option" where
  "upsert ft d k row = (case put_keyed ft d k row of Some (Inr _, d') \<Rightarrow> Some d' | _ \<Rightarrow> None)"

definition room_for :: "data_type list \<Rightarrow> nat \<Rightarrow> delta \<Rightarrow> bool" where
  "room_for tys n d \<longleftrightarrow> d_nrows d + n < 2 ^ 32 \<and> length (d_strs d) + n * length tys < 2 ^ 64"

definition full_row :: "data_type list \<Rightarrow> cell list \<Rightarrow> bool" where
  "full_row tys row \<longleftrightarrow> length row = length tys \<and> row_ok tys row"

interpretation delta_map: keyed_buffer "holds_map tys" "upsert ft" delete_keyed "room_for tys" "full_row tys" for ft tys
proof
  fix d m row n k
  assume h: "holds_map tys d m" "full_row tys row" "room_for tys (Suc n) d"
  then have d: "implements d m" "d_types d = tys" "d_ncols d = length tys"
    by (auto simp: holds_map_def implements_def delta_inv_def arena_ok_def)
  have "padded (d_ncols d) row = row" using h(2) d(3) by (auto simp: padded_def full_row_def cell_in_def intro: nth_equalityI)
  moreover have "room d" "row_ok (d_types d) row" using h(2,3) d by (auto simp: room_def room_for_def full_row_def)
  ultimately show "\<exists>d'. upsert ft d k row = Some d' \<and> holds_map tys d' (m(k \<mapsto> Some row)) \<and> room_for tys n d'"
    using implements_put [OF d(1), of row ft k] h(3) d by (auto simp: upsert_def holds_map_def room_for_def)
next
  fix d m n k
  assume "holds_map tys d m" "room_for tys (Suc n) d"
  then show "holds_map tys (delete_keyed d k) (m(k \<mapsto> None)) \<and> room_for tys n (delete_keyed d k)"
    using implements_delete [of d m k] by (auto simp: holds_map_def room_for_def delete_keyed_def Let_def)
qed

lemma holds_map_new: "holds_map tys (delta_new True tys) Map.empty"
  using implements_new by (simp add: holds_map_def delta_new_def)

text \<open>Every way a buffer evolves, failed writes included; a row count that would reach the tombstone mark is outside.\<close>

inductive buffer_step :: "float_text \<Rightarrow> delta \<Rightarrow> delta \<Rightarrow> bool" for ft where
  step_put: "d_keyed d \<Longrightarrow> d_nrows d < 2 ^ 32 - 1 \<Longrightarrow> put_keyed ft d k row = Some (r, d') \<Longrightarrow> buffer_step ft d d'"
| step_delete: "d_keyed d \<Longrightarrow> buffer_step ft d (delete_keyed d k)"
| step_append: "\<not> d_keyed d \<Longrightarrow> d_nrows d < 2 ^ 32 - 1 \<Longrightarrow> buffer_step ft d (snd (delta_append ft d row))"
| step_drain: "drain_to_block ft d = Some (r, d') \<Longrightarrow> buffer_step ft d d'"
| step_clear: "buffer_step ft d (delta_clear d)"

lemma buffer_step_inv:
  assumes "buffer_step ft d d'" "delta_inv d"
  shows "delta_inv d'"
  using assms
proof cases
  case (step_put k row r)
  then show ?thesis using put_keyed_inv [OF assms(2), of ft k row] by auto
next
  case (step_drain r)
  then show ?thesis using drain_total(1) [OF assms(2), of ft] delta_clear_inv assms(2) by auto
qed (use assms(2) delete_keyed_inv append_inv delta_clear_inv in auto)

lemma reachable_inv: "(buffer_step ft)\<^sup>*\<^sup>* (delta_new keyed tys) d \<Longrightarrow> delta_inv d"
  by (induction rule: rtranclp_induct) (auto intro: delta_new_inv buffer_step_inv)

lemma freeze_total:
  assumes "delta_inv d"
  shows "freeze ft d \<noteq> None"
proof -
  let ?ps = "filter (\<lambda>(k, s). s \<noteq> TOMBSTONE) (d_index d)"
  have "unat s < d_nrows d" if "(k, s) \<in> set ?ps" for k s
    using assms that by (force simp: delta_inv_def index_ok_def live_list_def)
  then have "\<forall>r \<in> set (rows_at d (Some (map snd (sort_key fst ?ps)))). r < d_nrows d" by (auto simp: rows_at_def)
  moreover have "\<forall>r \<in> set (rows_at d None). r < d_nrows d" by (simp add: rows_at_def)
  moreover have "arena_ok d" using assms by (simp add: delta_inv_def)
  ultimately show ?thesis using transpose_total [of d _ ft]
    by (simp add: freeze_def Let_def radix_sort_soa_all zip_map_fst_snd)
qed

lemma value_at_total: "delta_inv d \<Longrightarrow> delta_get d k = Some (Put s) \<Longrightarrow> value_at d s c \<noteq> None"
  using slot_row [of d k s] cell_bound [of "unat s" "d_nrows d" c "d_ncols d"] delta_decode_total [of d c]
  by (auto simp: delta_inv_def delta_get_def value_at_def arena_ok_def split: if_splits)

subsection \<open>The unkeyed buffer\<close>

fun append_all :: "float_text \<Rightarrow> delta \<Rightarrow> cell list list \<Rightarrow> unit result \<times> delta" where
  "append_all ft d [] = (Inr (), d)"
| "append_all ft d (row # rows) = (case delta_append ft d row of (Inl e, d) \<Rightarrow> (Inl e, d) | (Inr _, d) \<Rightarrow> append_all ft d rows)"

lemma append_all_arena:
  assumes "delta_inv d" "\<not> d_keyed d" "arena d rs" "d_types d = tys" "\<forall>row \<in> set rows. full_row tys row" "room_for tys (length rows) d"
  shows "\<exists>d'. append_all ft d rows = (Inr (), d') \<and> delta_inv d' \<and> \<not> d_keyed d' \<and> d_types d' = tys \<and> arena d' (rs @ rows)"
  using assms
proof (induction rows arbitrary: d rs)
  case (Cons row rows)
  have n: "d_ncols d = length tys" using Cons.prems(1,4) by (auto simp: delta_inv_def arena_ok_def)
  have ok: "row_ok (d_types d) row" "room d" "padded (d_ncols d) row = row" "d_nrows d < 2 ^ 32 - 1"
    using Cons.prems(4-6) n by (auto simp: full_row_def room_def room_for_def padded_def cell_in_def intro: nth_equalityI)
  obtain d1 where d1: "append_row ft d row = (Inr (of_nat (d_nrows d)), d1)" "arena d1 (rs @ [padded (d_ncols d) row])"
    "d_keyed d1 = d_keyed d" "d_nrows d1 = Suc (d_nrows d)" "d_types d1 = d_types d" "length (d_strs d1) \<le> length (d_strs d) + d_ncols d"
    using append_row_stores [OF Cons.prems(3) ok(1,2), of ft] by metis
  have a: "delta_append ft d row = (Inr (), d1)" using d1(1) by (simp add: delta_append_def push_row_def)
  then have "delta_inv d1" using append_inv [OF Cons.prems(1,2) ok(4), of ft row] by simp
  moreover have "room_for tys (length rows) d1" using Cons.prems(6) d1(4,6) n by (simp add: room_for_def)
  ultimately have "\<exists>d'. append_all ft d1 rows = (Inr (), d') \<and> delta_inv d' \<and> \<not> d_keyed d' \<and> d_types d' = tys
      \<and> arena d' ((rs @ [row]) @ rows)"
    using Cons.prems(2,4,5) d1 ok(3) by (intro Cons.IH) auto
  with a show ?case by simp
qed simp

text \<open>Appended rows leave in the order they came.\<close>

lemma appends_drain_in_order:
  assumes "\<forall>row \<in> set rows. full_row tys row" "length rows < 2 ^ 32" "length rows * length tys < 2 ^ 64" "tys \<noteq> []"
  shows "\<exists>d b. append_all ft (delta_new False tys) rows = (Inr (), d)
    \<and> drain_to_block ft d = Some (Inr (b, []), delta_clear d) \<and> block_holds b tys (map (map canon_cell) rows)"
proof -
  let ?d0 = "delta_new False tys"
  have "arena ?d0 []" using delta_new_inv [of False tys] by (simp add: arena_def delta_inv_def delta_new_def)
  moreover have "room_for tys (length rows) ?d0" using assms(2,3) by (simp add: room_for_def delta_new_def)
  ultimately obtain d where d: "append_all ft ?d0 rows = (Inr (), d)" "delta_inv d" "\<not> d_keyed d" "d_types d = tys" "arena d rows"
    using append_all_arena [of ?d0 "[]" tys rows ft] delta_new_inv [of False tys] assms(1) by (auto simp: delta_new_def)
  obtain sl where sl: "live_slots d = Some sl" "rows_at d sl = filter (live_row d) [0..<d_nrows d]"
    using live_slots_rows [OF d(2)] .
  have rows: "rows_at d sl = [0..<length rows]" using d(3,5) by (simp add: sl(2) live_row_def arena_def)
  have "\<forall>r \<in> set (rows_at d sl). r < d_nrows d" "d_types d \<noteq> []" using sl(2) assms(4) d(4) by auto
  then obtain cols b where b: "transpose_delta ft d sl = Some (Inr cols)" "block_new cols = Inr b"
    "block_holds b (d_types d) (map (\<lambda>r. map canon_cell (rows ! r)) (rows_at d sl))"
    by (rule transpose_block [OF d(5), of sl ft])
  have "map (\<lambda>r. map canon_cell (rows ! r)) (rows_at d sl) = map (map canon_cell) rows"
    unfolding rows by (intro nth_equalityI) simp_all
  moreover have "touched_keys d = []" using d(2,3) by (simp add: touched_keys_def delta_inv_def index_ok_def)
  ultimately show ?thesis using d b sl(1) by (auto simp: drain_to_block_def)
qed

section \<open>Properties\<close>

text \<open>C15: The invariant of the write buffer. In every state reached from a new buffer by puts, deletes, appends, drains and clears,
  whether they succeed or are refused: the arena holds one full row of lanes per slot, the index has each key once
  and each live slot once and inside the arena, the dead count and the live slots add up to the rows, and null
  bits are only present once the flag is up. In such a state no put, lookup, drain, block or freeze runs out of range.\<close>

theorem buffer_invariant:
  assumes "(buffer_step ft)\<^sup>*\<^sup>* (delta_new keyed tys) d"
  shows "delta_inv d
    \<and> (d_keyed d \<and> d_nrows d < 2 ^ 32 - 1 \<longrightarrow> put_keyed ft d key row \<noteq> None)
    \<and> (delta_get d k = Some (Put s) \<longrightarrow> value_at d s c \<noteq> None)
    \<and> drain_to_block ft d \<noteq> None \<and> to_block ft d \<noteq> None \<and> freeze ft d \<noteq> None"
  using reachable_inv [OF assms] put_keyed_inv [of d ft key row] value_at_total [of d k s c] drain_total [of d ft] freeze_total [of d ft]
  by auto

theorem buffer_invariant_witness:
  "delta_inv (delete_keyed (delta_new True [UInt64]) 7) \<and> freeze \<lparr>disp_f64 = \<lambda>_. [], read_f64 = \<lambda>_. None\<rparr> (delete_keyed (delta_new True [UInt64]) 7) \<noteq> None"
proof -
  have "buffer_step \<lparr>disp_f64 = \<lambda>_. [], read_f64 = \<lambda>_. None\<rparr> (delta_new True [UInt64]) (delete_keyed (delta_new True [UInt64]) 7)"
    by (rule step_delete) (simp add: delta_new_def)
  then show ?thesis using buffer_invariant [OF r_into_rtranclp] by blast
qed

text \<open>C4: The keyed buffer refines a map. After any log of upserts of suitable rows and removals, every key reads as its last
  operation left it: absent, deleted, or a row whose cells are the values written (doubles in canonical form,
  decimals as their units); the operation count and the live row count are those of the map; and a refused
  put of a key without a live row leaves the map as it was.\<close>

theorem buffer_refines_map:
  assumes "\<forall>k row. Upsert k row \<in> set ops \<longrightarrow> full_row tys row" "length ops < 2 ^ 32" "length ops * length tys < 2 ^ 64"
  defines "m \<equiv> fold log_step ops Map.empty"
  shows "\<exists>d. replay (upsert ft) delete_keyed ops (delta_new True tys) = Some d \<and> implements d m
    \<and> delta_len d = card (dom m) \<and> live_rows d = card (live_keys m)
    \<and> (\<forall>k. case m k of None \<Rightarrow> delta_get d k = None | Some None \<Rightarrow> delta_get d k = Some Del
         | Some (Some row) \<Rightarrow> \<exists>s. delta_get d k = Some (Put s) \<and> (\<forall>c < length tys. value_at d s c = Some (seen (row ! c))))
    \<and> (\<forall>k row e d'. put_keyed ft d k row = Some (Inl e, d') \<and> k \<notin> live_keys m \<longrightarrow> implements d' m)"
proof -
  have "room_for tys (length ops) (delta_new True tys)" using assms(2,3) by (simp add: room_for_def delta_new_def)
  from delta_map.replay_rep [OF holds_map_new, of ops tys ft] this assms(1) obtain d where
    d: "replay (upsert ft) delete_keyed ops (delta_new True tys) = Some d" "holds_map tys d m"
    unfolding m_def by blast
  then have i: "implements d m" and n: "d_ncols d = length tys"
    by (auto simp: holds_map_def implements_def delta_inv_def arena_ok_def)
  have "case m k of None \<Rightarrow> delta_get d k = None | Some None \<Rightarrow> delta_get d k = Some Del
      | Some (Some row) \<Rightarrow> \<exists>s. delta_get d k = Some (Put s) \<and> (\<forall>c < length tys. value_at d s c = Some (seen (row ! c)))" for k
    using implements_get [OF i, of k] n by (auto split: option.split)
  moreover have "implements d' m" if "put_keyed ft d k row = Some (Inl e, d')" "k \<notin> live_keys m" for k row e d'
    using implements_refused [OF i that(1)] that(2) by (cases "m k") (auto simp: live_keys_def)
  ultimately show ?thesis using d(1) i implements_counts [OF i] by blast
qed

lemma example_rows: "full_row [UInt64, Date] [VUInt 7, VDate 3]" "full_row [UInt64, Date] [VUInt 7, VNull]"
  by (auto simp: full_row_def row_ok_def cell_in_def storable_def fits_def is_integer_def in_bounds_def int_bounds_def
      less_Suc_eq nth_Cons split: nat.split)

theorem buffer_refines_map_witness:
  "\<exists>d s. replay (upsert \<lparr>disp_f64 = \<lambda>_. [], read_f64 = \<lambda>_. None\<rparr>) delete_keyed [Upsert 7 [VUInt 7, VDate 3], Remove 9, Upsert 7 [VUInt 7, VNull]]
      (delta_new True [UInt64, Date]) = Some d \<and> delta_get d 9 = Some Del \<and> delta_get d 7 = Some (Put s) \<and> value_at d s 1 = Some VNull"
proof -
  let ?ops = "[Upsert 7 [VUInt 7, VDate 3], Remove 9, Upsert 7 [VUInt 7, VNull]]"
  let ?m = "fold log_step ?ops Map.empty"
  have m: "?m 7 = Some (Some [VUInt 7, VNull])" "?m 9 = Some None" by simp_all
  have "\<forall>k row. Upsert k row \<in> set ?ops \<longrightarrow> full_row [UInt64, Date] row" using example_rows by auto
  from buffer_refines_map [OF this, of "\<lparr>disp_f64 = \<lambda>_. [], read_f64 = \<lambda>_. None\<rparr>"] obtain d where d: "replay (upsert \<lparr>disp_f64 = \<lambda>_. [], read_f64 = \<lambda>_. None\<rparr>) delete_keyed ?ops (delta_new True [UInt64, Date]) = Some d"
    "\<forall>k. case ?m k of None \<Rightarrow> delta_get d k = None | Some None \<Rightarrow> delta_get d k = Some Del
       | Some (Some row) \<Rightarrow> \<exists>s. delta_get d k = Some (Put s) \<and> (\<forall>c < length [UInt64, Date]. value_at d s c = Some (seen (row ! c)))"
    by auto
  from d(2) [rule_format, of 9] m have "delta_get d 9 = Some Del" by simp
  moreover from d(2) [rule_format, of 7] m obtain s where "delta_get d 7 = Some (Put s)"
    "\<forall>c < length [UInt64, Date]. value_at d s c = Some (seen ([VUInt 7, VNull] ! c))" by auto
  moreover from this(2) have "value_at d s 1 = Some VNull" by (simp add: seen_def)
  ultimately show ?thesis using d(1) by blast
qed

text \<open>C36: What leaves the buffer is what the map holds. Draining returns one row per live key and reports every key touched, and
  empties the buffer; the frozen image lists the live keys in ascending order with their rows in step, finds
  the position of exactly those keys, and shadows exactly the keys the buffer knows, deleted ones included.\<close>

theorem buffer_contents_leave_intact:
  assumes "implements d m" "d_types d \<noteq> []"
  shows "(\<exists>b ks. drain_to_block ft d = Some (Inr (b, touched_keys d), delta_clear d) \<and> set (touched_keys d) = dom m
      \<and> distinct ks \<and> set ks = live_keys m \<and> block_holds b (d_types d) (map (\<lambda>k. map canon_cell (row_of m k)) ks))
    \<and> (\<exists>im. freeze ft d = Some (Inr im)
      \<and> block_holds (im_block im) (d_types d) (map (\<lambda>k. map canon_cell (row_of m k)) (sorted_list_of_set (live_keys m)))
      \<and> (\<forall>k i. position_of im k = Some i \<longleftrightarrow> i < card (live_keys m) \<and> sorted_list_of_set (live_keys m) ! i = k)
      \<and> (\<forall>k. shadows im k \<longleftrightarrow> k \<in> dom m) \<and> (\<forall>k. im_deletes im k \<longleftrightarrow> m k = Some None))"
proof
  show "\<exists>b ks. drain_to_block ft d = Some (Inr (b, touched_keys d), delta_clear d) \<and> set (touched_keys d) = dom m
      \<and> distinct ks \<and> set ks = live_keys m \<and> block_holds b (d_types d) (map (\<lambda>k. map canon_cell (row_of m k)) ks)"
    using drain_spec [OF assms, of ft] implements_counts(2) [OF assms(1)] by blast
  obtain im where im: "freeze ft d = Some (Inr im)" "sorted_wrt (<) (im_keys im)" "set (im_keys im) = live_keys m"
    "sorted_wrt (<) (im_tombstones im)" "set (im_tombstones im) = {k. m k = Some None}"
    "block_holds (im_block im) (d_types d) (map (\<lambda>k. map canon_cell (row_of m k)) (im_keys im))"
    using freeze_spec [OF assms, of ft] by blast
  have keys: "im_keys im = sorted_list_of_set (live_keys m)"
    using im(2,3) sorted_list_of_set.idem_if_sorted_distinct [of "im_keys im"] by (simp add: strict_sorted_iff)
  have "length (im_keys im) = card (live_keys m)" using im(2,3) distinct_card [of "im_keys im"] by (simp add: strict_sorted_iff)
  moreover have "k \<in> dom m \<longleftrightarrow> k \<in> live_keys m \<or> m k = Some None" for k by (cases "m k") (auto simp: live_keys_def)
  ultimately show "\<exists>im. freeze ft d = Some (Inr im)
      \<and> block_holds (im_block im) (d_types d) (map (\<lambda>k. map canon_cell (row_of m k)) (sorted_list_of_set (live_keys m)))
      \<and> (\<forall>k i. position_of im k = Some i \<longleftrightarrow> i < card (live_keys m) \<and> sorted_list_of_set (live_keys m) ! i = k)
      \<and> (\<forall>k. shadows im k \<longleftrightarrow> k \<in> dom m) \<and> (\<forall>k. im_deletes im k \<longleftrightarrow> m k = Some None)"
    using im(1,6) bsearch_iff [OF im(2)] bsearch_iff(2) [OF im(4)] im(3,5)
    by (intro exI [of _ im]) (simp add: position_of_def shadows_def im_deletes_def keys)
qed

lemma implements_example: "\<exists>d. holds_map [UInt64, Date] d [7 \<mapsto> Some [VUInt 7, VDate 3]]"
proof -
  let ?d = "delta_new True [UInt64, Date]" and ?ops = "[Upsert 7 [VUInt 7, VDate 3]]"
  have "\<forall>k r. Upsert k r \<in> set ?ops \<longrightarrow> full_row [UInt64, Date] r" using example_rows by simp
  moreover have "room_for [UInt64, Date] (length ?ops) ?d" by (simp add: room_for_def delta_new_def)
  ultimately obtain d where "holds_map [UInt64, Date] d (fold log_step ?ops Map.empty)"
    using delta_map.replay_rep [OF holds_map_new] by blast
  then show ?thesis by auto
qed

theorem buffer_contents_leave_intact_witness:
  "\<exists>d im. holds_map [UInt64, Date] d [7 \<mapsto> Some [VUInt 7, VDate 3]] \<and> freeze \<lparr>disp_f64 = \<lambda>_. [], read_f64 = \<lambda>_. None\<rparr> d = Some (Inr im) \<and> shadows im 7 \<and> \<not> shadows im 8"
proof -
  obtain d where d: "holds_map [UInt64, Date] d [7 \<mapsto> Some [VUInt 7, VDate 3]]" using implements_example by blast
  then have "implements d [7 \<mapsto> Some [VUInt 7, VDate 3]]" "d_types d \<noteq> []" by (auto simp: holds_map_def)
  from buffer_contents_leave_intact [OF this, of "\<lparr>disp_f64 = \<lambda>_. [], read_f64 = \<lambda>_. None\<rparr>"] obtain im where
    "freeze \<lparr>disp_f64 = \<lambda>_. [], read_f64 = \<lambda>_. None\<rparr> d = Some (Inr im)"
    "\<forall>k. shadows im k \<longleftrightarrow> k \<in> dom [7 \<mapsto> Some [VUInt 7, VDate 3]]" by blast
  with d show ?thesis by auto
qed

section \<open>Deviations\<close>

text \<open>A refused overwrite of a live key is half done: the cells before the refused one are already replaced.\<close>

lemma refused_overwrite_is_visible:
  "\<exists>d d' e s. replay (upsert ft) delete_keyed [Upsert 1 [VUInt 5, VUInt 6]] (delta_new True [UInt64, UInt64]) = Some d
    \<and> put_keyed ft d 1 [VUInt 50, VDateTime (- 1)] = Some (Inl e, d') \<and> delta_get d' 1 = Some (Put s)
    \<and> value_at d s 0 = Some (VUInt 5) \<and> value_at d' s 0 = Some (VUInt 50) \<and> value_at d' s 1 = Some (VUInt 6)"
  by (simp add: upsert_def put_keyed_def append_row_def delta_new_def encode_cell_def fast_lane_def store_of_def with_store_def
      TOMBSTONE_def overwrite_def to_lane_phys_def decimal_parts_def decimal_scale_def as_u64_def delta_get_def value_at_def
      delta_decode_def decode_lane_def at_def delta_lane_to_value_def Let_def)

text \<open>A buffered decimal is read back as its bare units.\<close>

lemma buffered_decimal_reads_as_int: "delta_lane_to_value I64 (Decimal64 s) (lane_of (VDecimal u s)) = VInt u"
  by (simp add: delta_lane_to_value_def lane_of_def lane_i64_roundtrip)

text \<open>An integer written to a decimal column means units before the first NULL of the buffer and whole numbers after it.\<close>

lemma decimal_fast_path_depends_on_nulls:
  assumes "cs_has_nulls cs"
  shows "fst (encode_cell ft I64 (Decimal64 2) (VInt 5) i cs) = Inr (i64_to_lane 500)"
    "fst (encode_cell ft I64 (Decimal64 2) (VInt 5) i (cs\<lparr>cs_has_nulls := False\<rparr>)) = Inr (i64_to_lane 5)"
  using assms
  by (simp_all add: encode_cell_def fast_lane_def to_lane_phys_def decimal_parts_def decimal_scale_def to_decimal_units_def
      as_integer_def as_i64_def rescale_checked_def decimal_rescale_def POW10_def DECIMAL_MAX_UNITS_def checked_i128_def in_i128_def)

end
