(* ===== verification/Delete_Mask.thy ===== *)
theory Delete_Mask
  imports Bit_Set Format
begin

text \<open>
  Delete masks, from \<^verbatim>\<open>src/storage/part.rs\<close>: the bitmap of one part with its counter and its counts per granule, and the
  positions of a sweep encoded for the log (\<open>MaskRuns\<close>), with the decoder of \<^verbatim>\<open>src/persist/wal.rs\<close>. Shown: the counts
  always agree with the bitmap, so a granule reported clean is clean; and the decoder returns exactly the
  positions that were hidden, part by part.
\<close>

section \<open>Definitions\<close>

definition GRANULE_SIZE :: nat where
  "GRANULE_SIZE = 1024"

definition G_SHIFT :: nat where
  "G_SHIFT = 10"

record deletes =
  dl_bits :: bitset
  dl_count :: nat
  dl_per_granule :: "u16 list"

definition GRANULE_WORDS :: nat where
  "GRANULE_WORDS = GRANULE_SIZE div 64"

text \<open>The loop stops at the end of the bitmap and leaves the remaining counts zero.\<close>

definition granule_count_ones :: "u64 list \<Rightarrow> nat \<Rightarrow> u16" where
  "granule_count_ones ws gi =
     (let lo = gi * GRANULE_WORDS
      in if lo \<ge> length ws then 0
         else of_nat (sum_list (map count_ones (slice ws lo (min (lo + GRANULE_WORDS) (length ws))))))"

definition deletes_new :: "bitset \<Rightarrow> nat \<Rightarrow> nat \<Rightarrow> deletes" where
  "deletes_new bits count ngranules =
     \<lparr>dl_bits = bits, dl_count = count, dl_per_granule = map (granule_count_ones (words bits)) [0..<ngranules]\<rparr>"

definition deletes_empty :: "nat \<Rightarrow> deletes" where
  "deletes_empty ngranules = \<lparr>dl_bits = bitset_new, dl_count = 0, dl_per_granule = replicate ngranules 0\<rparr>"

definition deletes_get :: "deletes \<Rightarrow> nat \<Rightarrow> bool" where
  "deletes_get d row = bitset_get (dl_bits d) row"

definition granule_deleted :: "deletes \<Rightarrow> nat \<Rightarrow> u16" where
  "granule_deleted d gi = (if gi < length (dl_per_granule d) then dl_per_granule d ! gi else 0)"

definition deletes_set :: "deletes \<Rightarrow> nat \<Rightarrow> bool \<times> deletes" where
  "deletes_set d row =
     (let (fresh, bits) = bitset_set (dl_bits d) row
      in if \<not> fresh then (False, d\<lparr>dl_bits := bits\<rparr>)
         else let gi = row div 2 ^ G_SHIFT;
                  per = (if gi \<ge> length (dl_per_granule d) then resize (dl_per_granule d) (gi + 1) 0 else dl_per_granule d)
              in (True, d\<lparr>dl_bits := bits, dl_count := dl_count d + 1, dl_per_granule := per[gi := per ! gi + 1]\<rparr>))"

definition deletes_bytes :: "deletes \<Rightarrow> nat" where
  "deletes_bytes d = bitset_bytes (dl_bits d) + length (dl_per_granule d) * 2"

subsection \<open>Mask runs\<close>

record mask_runs =
  mr_runs :: "(u64 \<times> u64 \<times> nat) list"
  mr_bytes :: bytes
  mr_prev :: u64
  mr_dark :: nat

definition mask_clear :: "mask_runs \<Rightarrow> mask_runs" where
  "mask_clear m = m\<lparr>mr_runs := [], mr_bytes := [], mr_dark := 0\<rparr>"

text \<open>The loop of \<open>hide\<close> that appends a gap as LEB128.\<close>

function push_gap :: "bytes \<Rightarrow> u64 \<Rightarrow> bytes" where
  "push_gap bs d = (if d \<ge> 0x80 then push_gap (bs @ [ucast d OR 0x80]) (drop_bit 7 d) else bs @ [ucast d])"
  by pat_completeness auto
termination
proof (relation "measure (unat \<circ> snd)", goal_cases)
  case (2 bs d)
  have "unat (drop_bit 7 d) = unat d div 2 ^ 7" by (subst unat_drop_bit_eq) (rule drop_bit_eq_div)
  with 2 show ?case by (simp add: word_le_nat_alt)
qed simp

definition mask_hide :: "mask_runs \<Rightarrow> u64 \<Rightarrow> u64 \<Rightarrow> mask_runs" where
  "mask_hide m pid row =
     (let m = (if mr_runs m = [] \<or> fst (last (mr_runs m)) \<noteq> pid
               then m\<lparr>mr_runs := mr_runs m @ [(pid, 0, length (mr_bytes m))], mr_prev := - 1\<rparr> else m);
          k = length (mr_runs m) - 1;
          (p, n, at) = mr_runs m ! k;
          d = row - mr_prev m - 1
      in m\<lparr>mr_runs := (mr_runs m)[k := (p, n + 1, at)], mr_bytes := push_gap (mr_bytes m) d, mr_prev := row\<rparr>)"

definition mask_is_empty :: "mask_runs \<Rightarrow> bool" where
  "mask_is_empty m = (mr_runs m = [])"

definition runs_of :: "mask_runs \<Rightarrow> (u64 \<times> u64 \<times> bytes) list" where
  "runs_of m = map (\<lambda>i. case mr_runs m ! i of (pid, n, at) \<Rightarrow>
     (pid, n, slice (mr_bytes m) at (if i + 1 < length (mr_runs m) then snd (snd (mr_runs m ! (i + 1))) else length (mr_bytes m))))
     [0..<length (mr_runs m)]"

text \<open>The decoder of the log.\<close>

fun positions_loop :: "nat \<Rightarrow> reader \<Rightarrow> u64 \<Rightarrow> u64 list read" where
  "positions_loop 0 r prev = Inr ([], r)"
| "positions_loop (Suc n) r prev = rbind (r_varint r) (\<lambda>(g, r).
     let p = prev + g + 1 in rbind (positions_loop n r p) (\<lambda>(ps, r). Inr (p # ps, r)))"

definition mask_positions :: "u64 \<Rightarrow> bytes \<Rightarrow> u64 list result" where
  "mask_positions n deltas =
     rbind (positions_loop (unat n) (reader_new deltas) (- 1)) (\<lambda>(ps, r).
       if remaining r = 0 then Inr ps else Inl (Corruption ''trailing bytes after the positions of a mask run''))"

declare push_gap.simps [simp del]

section \<open>The counts agree with the bitmap\<close>

definition granule_span :: "nat \<Rightarrow> nat set" where
  "granule_span gi = {gi * GRANULE_SIZE..<(gi + 1) * GRANULE_SIZE}"

definition deletes_ok :: "deletes \<Rightarrow> bool" where
  "deletes_ok d \<longleftrightarrow> dl_count d = card (bits_of (dl_bits d))
     \<and> (\<forall>gi < length (dl_per_granule d). unat (dl_per_granule d ! gi) = card (bits_of (dl_bits d) \<inter> granule_span gi))
     \<and> bits_of (dl_bits d) \<subseteq> {..<length (dl_per_granule d) * GRANULE_SIZE}"

lemma finite_bits_of [simp]: "finite (bits_of s)"
proof (rule finite_subset)
  show "bits_of s \<subseteq> {..<64 * length (words s)}"
    by (auto simp: bitset_get_iff less_mult_imp_div_less div_less_iff_less_mult mult.commute)
qed simp

lemma granule_span_iff: "i \<in> granule_span gi \<longleftrightarrow> i div GRANULE_SIZE = gi"
  by (auto simp: granule_span_def GRANULE_SIZE_def div_less_iff_less_mult div_nat_eqI)

lemma card_span_le: "card (A \<inter> granule_span gi) \<le> GRANULE_SIZE"
  using card_mono [of "granule_span gi" "A \<inter> granule_span gi"] by (simp add: granule_span_def GRANULE_SIZE_def)

lemma sum_words_upto:
  assumes "k \<le> length (words s)"
  shows "sum_list (map count_ones (take k (words s))) = card (bits_of s \<inter> {..<64 * k})"
  using count_ones_upto_eq [of s "64 * k"] assms by (simp add: count_ones_upto_def min_def)

lemma sum_words_window:
  assumes "lo \<le> hi" "hi \<le> length (words s)"
  shows "sum_list (map count_ones (slice (words s) lo hi)) = card (bits_of s \<inter> {64 * lo..<64 * hi})"
proof -
  have "take hi (words s) = take lo (words s) @ slice (words s) lo hi"
    using assms by (simp add: slice_def take_add [symmetric] flip: take_add)
  then have "card (bits_of s \<inter> {..<64 * hi}) = card (bits_of s \<inter> {..<64 * lo}) + sum_list (map count_ones (slice (words s) lo hi))"
    using sum_words_upto [of hi s] sum_words_upto [of lo s] assms by simp
  moreover have "bits_of s \<inter> {..<64 * hi} = (bits_of s \<inter> {..<64 * lo}) \<union> (bits_of s \<inter> {64 * lo..<64 * hi})"
    using assms by auto
  moreover have "card ((bits_of s \<inter> {..<64 * lo}) \<union> (bits_of s \<inter> {64 * lo..<64 * hi}))
      = card (bits_of s \<inter> {..<64 * lo}) + card (bits_of s \<inter> {64 * lo..<64 * hi})"
    by (rule card_Un_disjoint) auto
  ultimately show ?thesis by simp
qed

lemma granule_count_ones_eq: "unat (granule_count_ones (words s) gi) = card (bits_of s \<inter> granule_span gi)"
proof -
  let ?lo = "gi * 16" and ?hi = "min (gi * 16 + 16) (length (words s))"
  have end_bits: "i < 64 * length (words s)" if "i \<in> bits_of s" for i
    using that by (auto simp: bitset_get_iff div_less_iff_less_mult mult.commute)
  have span: "granule_span gi = {64 * ?lo..<64 * (?lo + 16)}" by (auto simp: granule_span_def GRANULE_SIZE_def)
  show ?thesis
  proof (cases "?lo \<ge> length (words s)")
    case True
    then have "bits_of s \<inter> granule_span gi = {}" using end_bits by (force simp: span)
    with True show ?thesis by (simp add: granule_count_ones_def GRANULE_WORDS_def GRANULE_SIZE_def)
  next
    case False
    have "bits_of s \<inter> granule_span gi = bits_of s \<inter> {64 * ?lo..<64 * ?hi}"
      by (auto simp: span min_def simp del: mem_bits_of dest: end_bits)
    then have c: "sum_list (map count_ones (slice (words s) ?lo ?hi)) = card (bits_of s \<inter> granule_span gi)"
      using sum_words_window [of ?lo ?hi s] False by simp
    have "card (bits_of s \<inter> granule_span gi) < 2 ^ 16" using card_span_le [of "bits_of s" gi] by (simp add: GRANULE_SIZE_def)
    then have "unat (of_nat (card (bits_of s \<inter> granule_span gi)) :: u16) = card (bits_of s \<inter> granule_span gi)"
      by (simp add: unat_of_nat take_bit_nat_eq_self)
    with c False show ?thesis by (simp add: granule_count_ones_def GRANULE_WORDS_def GRANULE_SIZE_def Let_def)
  qed
qed

lemma deletes_new_ok:
  assumes "count = card (bits_of bits)" "bits_of bits \<subseteq> {..<n * GRANULE_SIZE}"
  shows "deletes_ok (deletes_new bits count n)"
  using assms by (simp add: deletes_ok_def deletes_new_def granule_count_ones_eq)

lemma deletes_empty_ok: "deletes_ok (deletes_empty n)"
  by (simp add: deletes_ok_def deletes_empty_def)

lemma deletes_set_ok:
  fixes row :: nat
  assumes ok: "deletes_ok d"
  defines "r \<equiv> deletes_set d row"
  shows "deletes_ok (snd r)" "fst r \<longleftrightarrow> \<not> deletes_get d row" "bits_of (dl_bits (snd r)) = insert row (bits_of (dl_bits d))"
    "deletes_get (snd r) i \<longleftrightarrow> i = row \<or> deletes_get d i"
proof -
  let ?b = "dl_bits d" and ?gi = "row div 2 ^ G_SHIFT"
  obtain fresh b' where b': "bitset_set ?b row = (fresh, b')" by fastforce
  have fr: "fresh \<longleftrightarrow> \<not> bitset_get ?b row" using fst_bitset_set [of ?b row] b' by simp
  have bits: "bits_of b' = insert row (bits_of ?b)" using bitset_get_set [of ?b row] b' by (auto simp: bits_of_def)
  show "fst r \<longleftrightarrow> \<not> deletes_get d row" using fr b' by (simp add: r_def deletes_set_def deletes_get_def Let_def)
  show all: "bits_of (dl_bits (snd r)) = insert row (bits_of ?b)" using bits b' by (simp add: r_def deletes_set_def Let_def)
  show "deletes_get (snd r) i \<longleftrightarrow> i = row \<or> deletes_get d i" using all by (auto simp: deletes_get_def bits_of_def)
  show "deletes_ok (snd r)"
  proof (cases "bitset_get ?b row")
    case True
    then have "bits_of b' = bits_of ?b" using bits by auto
    with True ok fr b' show ?thesis by (simp add: r_def deletes_set_def deletes_ok_def)
  next
    case False
    define per where "per = (if ?gi \<ge> length (dl_per_granule d) then resize (dl_per_granule d) (?gi + 1) 0 else dl_per_granule d)"
    have r: "snd r = d\<lparr>dl_bits := b', dl_count := dl_count d + 1, dl_per_granule := per[?gi := per ! ?gi + 1]\<rparr>"
      using False fr b' by (simp add: r_def deletes_set_def per_def Let_def)
    have gi: "?gi = row div GRANULE_SIZE" by (simp add: G_SHIFT_def GRANULE_SIZE_def)
    have len: "length (dl_per_granule d) \<le> length per" "?gi < length per" by (auto simp: per_def)
    have old: "unat (per ! g) = card (bits_of ?b \<inter> granule_span g)" if "g < length per" for g
    proof (cases "g < length (dl_per_granule d)")
      case True
      then have "per ! g = dl_per_granule d ! g" by (simp add: per_def resize_nth)
      with True ok show ?thesis by (simp add: deletes_ok_def)
    next
      case False
      have "i div GRANULE_SIZE < length (dl_per_granule d)" if "i \<in> bits_of ?b" for i
        using ok that by (auto simp: deletes_ok_def GRANULE_SIZE_def div_less_iff_less_mult)
      then have "bits_of ?b \<inter> granule_span g = {}" using False by (auto simp: granule_span_iff simp del: mem_bits_of)
      moreover have "per ! g = 0" using False that by (auto simp: per_def resize_nth split: if_splits)
      ultimately show ?thesis by simp
    qed
    have np: "row \<notin> bits_of ?b" using False by simp
    have "unat (per ! ?gi + 1) = card (insert row (bits_of ?b \<inter> granule_span ?gi))"
    proof -
      have "card (bits_of ?b \<inter> granule_span ?gi) < 2 ^ 16 - 1"
        using card_span_le [of "bits_of ?b" ?gi] by (simp add: GRANULE_SIZE_def)
      then have "unat (per ! ?gi + 1) = Suc (unat (per ! ?gi))" using old [OF len(2)] by (simp add: unat_add_lem [THEN iffD1])
      then show ?thesis using old [OF len(2)] np by simp
    qed
    moreover have "insert row (bits_of ?b) \<inter> granule_span ?gi = insert row (bits_of ?b \<inter> granule_span ?gi)"
      by (auto simp: granule_span_iff gi)
    moreover have "insert row (bits_of ?b) \<inter> granule_span g = bits_of ?b \<inter> granule_span g" if "g \<noteq> ?gi" for g
      using that by (auto simp: granule_span_iff gi)
    ultimately have "\<forall>g < length per. unat (per[?gi := per ! ?gi + 1] ! g) = card (insert row (bits_of ?b) \<inter> granule_span g)"
      using old len(2) by (auto simp: nth_list_update)
    moreover have "row < length per * GRANULE_SIZE" using len(2) by (simp add: gi GRANULE_SIZE_def div_less_iff_less_mult)
    moreover have "bits_of ?b \<subseteq> {..<length per * GRANULE_SIZE}"
      using ok len(1) by (force simp: deletes_ok_def GRANULE_SIZE_def simp del: mem_bits_of)
    ultimately show ?thesis using ok np by (simp add: r deletes_ok_def bits)
  qed
qed

lemma granule_clean:
  assumes "deletes_ok d" "granule_deleted d gi = 0" "i \<in> granule_span gi"
  shows "\<not> deletes_get d i"
proof
  assume g: "deletes_get d i"
  then have i: "i \<in> bits_of (dl_bits d)" by (simp add: deletes_get_def)
  then have "gi < length (dl_per_granule d)"
    using assms(1,3) by (auto simp: deletes_ok_def granule_span_iff GRANULE_SIZE_def div_less_iff_less_mult simp del: mem_bits_of)
  then have "card (bits_of (dl_bits d) \<inter> granule_span gi) = unat (granule_deleted d gi)"
    using assms(1) by (simp add: deletes_ok_def granule_deleted_def)
  with assms(2) have "bits_of (dl_bits d) \<inter> granule_span gi = {}" by simp
  with i assms(3) show False by blast
qed


section \<open>The log's copy of a sweep\<close>

text \<open>Positions to gaps and back, for any starting point; the arithmetic wraps, so every position is exact.\<close>

fun gaps :: "u64 \<Rightarrow> u64 list \<Rightarrow> u64 list" where
  "gaps prev [] = []"
| "gaps prev (p # ps) = (p - prev - 1) # gaps p ps"

lemma push_gap_eq: "push_gap bs d = w_varint bs d"
proof (induction bs d rule: push_gap.induct)
  case (1 bs d)
  then show ?case by (subst push_gap.simps, subst w_varint.simps) auto
qed

lemma positions_gaps:
  "length (foldl w_varint w (gaps prev ps) @ z) \<le> usize_max \<Longrightarrow>
    positions_loop (length ps) (behind w (foldl w_varint w (gaps prev ps) @ z)) prev
      = Inr (ps, behind (foldl w_varint w (gaps prev ps)) (foldl w_varint w (gaps prev ps) @ z))"
proof (induction ps arbitrary: w prev)
  case (Cons p ps)
  let ?g = "p - prev - 1" and ?w = "w_varint w (p - prev - 1)"
  obtain e where e: "foldl w_varint ?w (gaps p ps) = ?w @ e" using varint_codec.wr_all_extends by blast
  have "r_varint (behind w (?w @ e @ z)) = Inr (?g, behind ?w (?w @ e @ z))"
    using varint_codec.rd_wr [where x = ?g and w = w and z = "e @ z"] Cons.prems by (simp add: e)
  moreover have "positions_loop (length ps) (behind ?w (foldl w_varint ?w (gaps p ps) @ z)) p
      = Inr (ps, behind (foldl w_varint ?w (gaps p ps)) (foldl w_varint ?w (gaps p ps) @ z))"
    using Cons.IH [of ?w p] Cons.prems by simp
  ultimately show ?case by (simp add: e Let_def)
qed simp

definition run_bytes :: "u64 list \<Rightarrow> bytes" where
  "run_bytes ps = foldl w_varint [] (gaps (- 1) ps)"

lemma mask_positions_run:
  assumes "length (run_bytes ps) \<le> usize_max" "length ps < 2 ^ 64"
  shows "mask_positions (of_nat (length ps)) (run_bytes ps) = Inr ps"
  using positions_gaps [of "[]" "- 1" ps "[]"] assms unat_of_nat_u64 [of "length ps"]
  by (simp add: mask_positions_def reader_new_def run_bytes_def remaining_def)

text \<open>One part's share of the sweep, then the sweep.\<close>

lemma foldl_varint_append: "foldl w_varint w ds = w @ foldl w_varint [] ds"
proof (induction ds rule: rev_induct)
  case (snoc d ds)
  then show ?case using w_varint_eq [of "foldl w_varint w ds" d] w_varint_eq [of "foldl w_varint [] ds" d] by simp
qed simp

lemma hide_rest:
  assumes "mr_runs m = rs @ [(pid, n, at)]"
  shows "foldl (\<lambda>m p. mask_hide m pid p) m ps =
    m\<lparr>mr_runs := rs @ [(pid, n + of_nat (length ps), at)], mr_bytes := foldl w_varint (mr_bytes m) (gaps (mr_prev m) ps),
      mr_prev := (if ps = [] then mr_prev m else last ps)\<rparr>"
  using assms
proof (induction ps arbitrary: m n)
  case (Cons p ps)
  let ?m = "mask_hide m pid p"
  have m1: "?m = m\<lparr>mr_runs := rs @ [(pid, n + 1, at)], mr_bytes := w_varint (mr_bytes m) (p - mr_prev m - 1), mr_prev := p\<rparr>"
    using Cons.prems by (simp add: mask_hide_def push_gap_eq list_update_append nth_append)
  from Cons.IH [of ?m "n + 1"] show ?case by (simp add: m1 add.assoc add.commute)
qed simp

definition hide_part :: "mask_runs \<Rightarrow> u64 \<times> u64 list \<Rightarrow> mask_runs" where
  "hide_part m s = foldl (\<lambda>m p. mask_hide m (fst s) p) m (snd s)"

lemma hide_part_fresh:
  assumes "ps \<noteq> []" "mr_runs m = [] \<or> fst (last (mr_runs m)) \<noteq> pid"
  shows "\<exists>prev. hide_part m (pid, ps) = m\<lparr>mr_runs := mr_runs m @ [(pid, of_nat (length ps), length (mr_bytes m))],
    mr_bytes := mr_bytes m @ run_bytes ps, mr_prev := prev\<rparr>"
proof -
  obtain p qs where ps: "ps = p # qs" using assms(1) by (cases ps) auto
  let ?m = "mask_hide m pid p"
  have m1: "?m = m\<lparr>mr_runs := mr_runs m @ [(pid, 1, length (mr_bytes m))], mr_bytes := w_varint (mr_bytes m) (p - (- 1) - 1), mr_prev := p\<rparr>"
    using assms(2) by (auto simp: mask_hide_def push_gap_eq)
  have "hide_part m (pid, ps) = foldl (\<lambda>m p. mask_hide m pid p) ?m qs" by (simp add: hide_part_def ps)
  also have "\<dots> = m\<lparr>mr_runs := mr_runs m @ [(pid, 1 + of_nat (length qs), length (mr_bytes m))],
      mr_bytes := foldl w_varint (w_varint (mr_bytes m) (p - (- 1) - 1)) (gaps p qs), mr_prev := (if qs = [] then p else last qs)\<rparr>"
    using hide_rest [of ?m "mr_runs m" pid 1 "length (mr_bytes m)" qs] by (simp add: m1)
  also have "foldl w_varint (w_varint (mr_bytes m) (p - (- 1) - 1)) (gaps p qs) = mr_bytes m @ run_bytes ps"
    using foldl_varint_append [of "mr_bytes m" "gaps (- 1) ps"] by (simp add: run_bytes_def ps)
  finally show ?thesis by (auto simp: ps)
qed

definition apart :: "(u64 \<times> u64 list) list \<Rightarrow> bool" where
  "apart sweep \<longleftrightarrow> (\<forall>i. Suc i < length sweep \<longrightarrow> fst (sweep ! i) \<noteq> fst (sweep ! Suc i)) \<and> (\<forall>s \<in> set sweep. snd s \<noteq> [])"

definition run_starts :: "(u64 \<times> u64 list) list \<Rightarrow> nat \<Rightarrow> nat" where
  "run_starts sweep i = length (concat (map (\<lambda>s. run_bytes (snd s)) (take i sweep)))"

lemma sweep_state:
  assumes "apart sweep" "mr_runs m = []" "mr_bytes m = []"
  defines "m' \<equiv> foldl hide_part m sweep"
  shows "mr_runs m' = map (\<lambda>i. (fst (sweep ! i), of_nat (length (snd (sweep ! i))), run_starts sweep i)) [0..<length sweep]
    \<and> mr_bytes m' = concat (map (\<lambda>s. run_bytes (snd s)) sweep)"
  using assms(1) unfolding m'_def
proof (induction sweep rule: rev_induct)
  case (snoc s sweep)
  let ?m = "foldl hide_part m sweep"
  have step: "fst ((sweep @ [s]) ! i) \<noteq> fst ((sweep @ [s]) ! Suc i)" if "Suc i < length (sweep @ [s])" for i
    using snoc.prems that by (simp only: apart_def) blast
  have "fst (sweep ! i) \<noteq> fst (sweep ! Suc i)" if "Suc i < length sweep" for i using step [of i] that by (simp add: nth_append)
  with snoc.prems have ap: "apart sweep" by (simp add: apart_def)
  note ih = snoc.IH [OF ap]
  have fresh: "mr_runs ?m = [] \<or> fst (last (mr_runs ?m)) \<noteq> fst s"
  proof (cases "sweep = []")
    case False
    then obtain k where k: "length sweep = Suc k" by (cases "length sweep") auto
    then have "fst (sweep ! k) \<noteq> fst s" using step [of k] by (simp add: nth_append)
    then show ?thesis using ih k by simp
  qed (use ih in simp)
  have "snd s \<noteq> []" using snoc.prems by (simp add: apart_def)
  from hide_part_fresh [OF this fresh] obtain prev where
    h: "hide_part ?m (fst s, snd s) = ?m\<lparr>mr_runs := mr_runs ?m @ [(fst s, of_nat (length (snd s)), length (mr_bytes ?m))],
      mr_bytes := mr_bytes ?m @ run_bytes (snd s), mr_prev := prev\<rparr>" by blast
  have "run_starts (sweep @ [s]) i = run_starts sweep i" if "i \<le> length sweep" for i using that by (simp add: run_starts_def)
  then show ?case using h ih by (auto simp: nth_append run_starts_def)
qed (simp add: assms(2,3))

lemma slice_concat:
  assumes "i < length xss"
  shows "slice (concat xss) (length (concat (take i xss))) (length (concat (take (Suc i) xss))) = xss ! i"
proof -
  have "concat xss = concat (take i xss) @ xss ! i @ concat (drop (Suc i) xss)"
    using id_take_nth_drop [OF assms] by (metis concat.simps(2) concat_append)
  then show ?thesis using assms by (simp add: slice_def take_Suc_conv_app_nth)
qed

lemma runs_of_sweep:
  assumes "apart sweep"
  shows "runs_of (foldl hide_part (mask_clear m) sweep)
    = map (\<lambda>s. (fst s, of_nat (length (snd s)), run_bytes (snd s))) sweep"
proof -
  let ?m = "foldl hide_part (mask_clear m) sweep" and ?xss = "map (\<lambda>s. run_bytes (snd s)) sweep"
  note st = sweep_state [OF assms, of "mask_clear m"]
  have m: "mr_runs ?m = map (\<lambda>i. (fst (sweep ! i), of_nat (length (snd (sweep ! i))), run_starts sweep i)) [0..<length sweep]"
    "mr_bytes ?m = concat ?xss" using st by (simp_all add: mask_clear_def)
  have sl: "slice (concat ?xss) (run_starts sweep i) (if Suc i < length sweep then run_starts sweep (Suc i) else length (concat ?xss))
      = run_bytes (snd (sweep ! i))" if "i < length sweep" for i
  proof -
    have "(if Suc i < length sweep then run_starts sweep (Suc i) else length (concat ?xss)) = length (concat (take (Suc i) ?xss))"
      using that by (auto simp: run_starts_def take_map not_less le_Suc_eq)
    moreover have "run_starts sweep i = length (concat (take i ?xss))" by (simp add: run_starts_def take_map)
    ultimately show ?thesis using slice_concat [of i ?xss] that by simp
  qed
  show ?thesis
  proof (rule nth_equalityI)
    fix i
    assume "i < length (runs_of ?m)"
    then have i: "i < length sweep" by (simp add: runs_of_def m)
    with sl [OF i] show "runs_of ?m ! i = map (\<lambda>s. (fst s, of_nat (length (snd s)), run_bytes (snd s))) sweep ! i"
      by (cases "Suc i < length sweep") (simp_all add: runs_of_def m)
  qed (simp add: runs_of_def m)
qed

section \<open>Properties\<close>

text \<open>A sweep survives its log record. Hiding any positions of any parts, part after part, and reading back each run with the
  decoder of the log returns exactly those positions in order, under the identity of their part, with no byte
  left over; the gaps wrap, so this holds for every 64-bit position.\<close>

theorem mask_runs_roundtrip:
  assumes "apart sweep" "\<forall>s \<in> set sweep. length (run_bytes (snd s)) \<le> usize_max \<and> length (snd s) < 2 ^ 64"
  shows "map (\<lambda>(pid, n, bs). (pid, mask_positions n bs)) (runs_of (foldl hide_part (mask_clear m) sweep))
    = map (\<lambda>s. (fst s, Inr (snd s))) sweep"
  using assms(2) by (auto simp: runs_of_sweep [OF assms(1)] mask_positions_run)

theorem mask_runs_roundtrip_witness:
  "map (\<lambda>(pid, n, bs). (pid, mask_positions n bs))
     (runs_of (foldl hide_part (mask_clear \<lparr>mr_runs = [], mr_bytes = [], mr_prev = 0, mr_dark = 0\<rparr>) [(3, [5, 300]), (8, [0])]))
    = [(3, Inr [5, 300]), (8, Inr [0])]"
proof -
  let ?sweep = "[(3, [5, 300]), (8, [0])] :: (u64 \<times> u64 list) list"
  have "apart ?sweep" by (auto simp: apart_def less_Suc_eq)
  moreover have "\<forall>s \<in> set ?sweep. length (run_bytes (snd s)) \<le> usize_max \<and> length (snd s) < 2 ^ 64"
    by (simp add: run_bytes_def w_varint.simps usize_max_def)
  ultimately show ?thesis
    using mask_runs_roundtrip [of ?sweep "\<lparr>mr_runs = [], mr_bytes = [], mr_prev = 0, mr_dark = 0\<rparr>"] by simp
qed

end
