(* ===== verification/Part.thy ===== *)
theory Part
  imports Granule Part_Filter Delete_Mask
begin

text \<open>
  Parts, from \<^verbatim>\<open>src/storage/part.rs\<close>: an immutable sorted run of granules with a router from keys to granules, a lazily built
  bloom filter and the delete masks that live beside it. Shown: the parallel build returns the granules of the
  sequential one; the router with its bounded search finds the granule a full search would; a point lookup in a
  part with distinct sorted keys finds exactly the row of the key; and the walks over live rows (\<open>next_live\<close>,
  \<open>live_positions_into\<close>, \<open>live_selection_into\<close>) agree on the rows that are not deleted. A panic, and an unchecked access out of
  range, is \<open>None\<close>. The number of threads the host offers is a parameter.
\<close>

section \<open>Definitions\<close>

record part =
  pt_n_rows :: nat
  pt_pid :: u64
  pt_granules :: "granule list"
  pt_first_keys :: "u64 list"
  pt_max :: u64
  pt_deleted :: bitset
  pt_deleted_count :: nat
  pt_origin :: u64
  pt_route_base :: u64
  pt_route_shift :: nat
  pt_router :: "u32 list"
  pt_filter :: "part_filter option"
  pt_sort_col :: "nat option"
  pt_pk_col :: "nat option"
  pt_ncols :: nat

definition NO_FILE :: u64 where
  "NO_FILE = 0"

definition HOMED :: u64 where
  "HOMED = push_bit 63 1"

subsection \<open>Building\<close>

text \<open>\<open>chunks\<close> of a slice, the last one possibly short; \<open>n\<close> is positive here.\<close>

function chunks :: "nat \<Rightarrow> 'a list \<Rightarrow> 'a list list" where
  "chunks n xs = (if n = 0 \<or> xs = [] then [] else take n xs # chunks n (drop n xs))"
  by pat_completeness auto
termination by (relation "measure (length \<circ> snd)") auto

definition granule_ranges :: "nat \<Rightarrow> (nat \<times> nat) list" where
  "granule_ranges n = map (\<lambda>i. (i * GRANULE_SIZE, min ((i + 1) * GRANULE_SIZE) n)) [0..<div_ceil n GRANULE_SIZE]"

definition build_granules ::
  "nat \<Rightarrow> block \<Rightarrow> nat list option \<Rightarrow> nat option \<Rightarrow> nat option \<Rightarrow> (nat \<times> nat) list \<Rightarrow> granule list option" where
  "build_granules avail b perm sort_col pk_col ranges =
     (let nthreads = min avail (max (length ranges) 1);
          build = (\<lambda>(s, e). build_sel b s e perm sort_col pk_col)
      in if nthreads > 1 \<and> length ranges \<ge> 8
         then map_option concat (those (map (\<lambda>c. those (map build c)) (chunks (div_ceil (length ranges) nthreads) ranges)))
         else those (map build ranges))"

definition route_start :: "u64 \<Rightarrow> nat \<Rightarrow> nat \<Rightarrow> u64" where
  "route_start bas shift b =
     (let off = min (b * 2 ^ shift) (2 ^ 64 - 1)
      in of_nat (min (unat bas + off) (2 ^ 64 - 1)))"

definition router_buckets :: "nat \<Rightarrow> nat" where
  "router_buckets ngran = max 2 (min (2 ^ bit_len (ngran * 2 - 1)) (2 ^ 20))"

definition build_router :: "u64 list \<Rightarrow> u64 \<Rightarrow> u64 \<times> nat \<times> u32 list" where
  "build_router first_keys part_max =
     (if first_keys = [] then (0, 63, [0, 0])
      else let bas = hd first_keys;
               range = (if bas \<le> part_max then part_max - bas else 0);
               nb = router_buckets (length first_keys);
               rb = 64 - leading_zeros range;
               shift = rb - trailing_zeros (of_nat nb);
               router = map (\<lambda>b. of_nat (partition_point (\<lambda>fk. fk \<le> route_start bas shift b) first_keys)) [0..<nb + 1]
           in (bas, shift, router))"

definition assemble ::
  "nat \<Rightarrow> granule list \<Rightarrow> bitset \<Rightarrow> nat \<Rightarrow> nat option \<Rightarrow> nat option \<Rightarrow> nat \<Rightarrow> part" where
  "assemble n gs del cnt sort_col pk_col ncols =
     (let fks = map sort_min gs; mx = (if gs = [] then 0 else sort_max (last gs));
          (bas, shift, router) = build_router fks mx
      in \<lparr>pt_n_rows = n, pt_pid = 0, pt_granules = gs, pt_first_keys = fks, pt_max = mx, pt_deleted = del,
          pt_deleted_count = cnt, pt_origin = NO_FILE, pt_route_base = bas, pt_route_shift = shift, pt_router = router,
          pt_filter = None, pt_sort_col = sort_col, pt_pk_col = pk_col, pt_ncols = ncols\<rparr>)"

definition part_build_sel ::
  "nat \<Rightarrow> block \<Rightarrow> nat list option \<Rightarrow> nat option \<Rightarrow> nat option \<Rightarrow> part option" where
  "part_build_sel avail b perm sort_col pk_col =
     (let n = (case perm of None \<Rightarrow> blk_rows b | Some p \<Rightarrow> length p)
      in map_option (\<lambda>gs. assemble n gs bitset_new 0 sort_col pk_col (block_width b))
           (build_granules avail b perm sort_col pk_col (granule_ranges n)))"

definition part_build :: "nat \<Rightarrow> block \<Rightarrow> nat option \<Rightarrow> nat option \<Rightarrow> part option" where
  "part_build avail b sort_col pk_col = part_build_sel avail b None sort_col pk_col"

definition part_from_parts ::
  "nat \<Rightarrow> granule list \<Rightarrow> bitset \<Rightarrow> nat \<Rightarrow> nat option \<Rightarrow> nat option \<Rightarrow> nat \<Rightarrow> part" where
  "part_from_parts n gs del cnt sort_col pk_col ncols = assemble n gs del cnt sort_col pk_col ncols"

definition part_set_origin :: "part \<Rightarrow> u64 \<Rightarrow> part" where
  "part_set_origin p seq = p\<lparr>pt_origin := HOMED OR seq\<rparr>"

subsection \<open>Lookup\<close>

definition locate_granule :: "part \<Rightarrow> u64 \<Rightarrow> nat option option" where
  "locate_granule p lane =
     (if lane < pt_route_base p then Some None
      else let idx = min (unat (drop_bit (pt_route_shift p mod 64) (lane - pt_route_base p))) (length (pt_router p) - 2)
           in case (at (pt_router p) idx, at (pt_router p) (idx + 1)) of
                (Some lo, Some hi) \<Rightarrow>
                  (case get_range (pt_first_keys p) (unat lo) (unat hi) of
                     None \<Rightarrow> None
                   | Some win \<Rightarrow>
                       let k = unat lo + partition_point (\<lambda>fk. fk \<le> lane) win
                       in Some (if k = 0 then None else Some (k - 1)))
              | _ \<Rightarrow> None)"

definition part_find :: "part \<Rightarrow> u64 \<Rightarrow> u64 \<Rightarrow> stats \<Rightarrow> (nat option \<times> stats) option" where
  "part_find p key fph st = (case pt_pk_col p of
     None \<Rightarrow> Some (None, st)
   | Some pk \<Rightarrow>
       if key > pt_max p then Some (None, st)
       else (case locate_granule p key of
               None \<Rightarrow> None
             | Some None \<Rightarrow> Some (None, st)
             | Some (Some gi) \<Rightarrow>
                 (case at (pt_granules p) gi of
                    None \<Rightarrow> None
                  | Some g \<Rightarrow>
                      if key > sort_max g then Some (None, st\<lparr>zone_pruned_point := zone_pruned_point st + 1\<rparr>)
                      else map_option (\<lambda>(r, st). (map_option (\<lambda>row. gi * 2 ^ G_SHIFT + row) r, st)) (find_key g pk key fph st))))"

definition find_live :: "part \<Rightarrow> u64 \<Rightarrow> u64 \<Rightarrow> stats \<Rightarrow> deletes option \<Rightarrow> (nat option \<times> stats) option" where
  "find_live p key fph st del = map_option (\<lambda>(r, st).
     (case r of None \<Rightarrow> None | Some row \<Rightarrow> (case del of Some d \<Rightarrow> if deletes_get d row then None else Some row | None \<Rightarrow> Some row), st))
     (part_find p key fph st)"

definition mark_deleted :: "part \<Rightarrow> nat \<Rightarrow> bool \<times> part" where
  "mark_deleted p row =
     (let (fresh, bits) = bitset_set (pt_deleted p) row
      in if fresh then (True, p\<lparr>pt_deleted := bits, pt_deleted_count := pt_deleted_count p + 1\<rparr>)
         else (False, p\<lparr>pt_deleted := bits\<rparr>))"

text \<open>The filter is computed once and kept.\<close>

definition granule_keys :: "granule \<Rightarrow> nat \<Rightarrow> u64 list option" where
  "granule_keys g c = map_option (\<lambda>pc. map (pc_lane pc) [0..<g_len g]) (at (g_columns g) c)"

definition ensure_filter :: "part \<Rightarrow> (part_filter option \<times> part) option" where
  "ensure_filter p = (case pt_pk_col p of
     None \<Rightarrow> Some (None, p)
   | Some pk \<Rightarrow>
       (case pt_filter p of
          Some f \<Rightarrow> Some (Some f, p)
        | None \<Rightarrow> map_option (\<lambda>kss.
            let f = foldl (foldl filter_insert) (filter_new (max (pt_n_rows p) 1)) kss
            in (Some f, p\<lparr>pt_filter := Some f\<rparr>)) (those (map (\<lambda>g. granule_keys g pk) (pt_granules p)))))"

definition may_contain :: "part \<Rightarrow> u64 \<Rightarrow> bool" where
  "may_contain p fph = (case pt_filter p of None \<Rightarrow> True | Some f \<Rightarrow> contains_hash f fph)"

definition has_filter :: "part \<Rightarrow> bool" where
  "has_filter p = (pt_filter p \<noteq> None)"

definition granule_count :: "part \<Rightarrow> nat" where
  "granule_count p = length (pt_granules p)"

subsection \<open>Live rows\<close>

text \<open>The outer option is the panic, the inner \<open>None\<close> means every row.\<close>

definition live_selection_into :: "part \<Rightarrow> nat \<Rightarrow> deletes option \<Rightarrow> nat list option option" where
  "live_selection_into p gi del = (case del of
     None \<Rightarrow> Some None
   | Some d \<Rightarrow>
       if granule_deleted d gi = 0 then Some None
       else map_option (\<lambda>g. Some (filter (\<lambda>i. \<not> deletes_get d (gi * 2 ^ G_SHIFT + i)) [0..<g_len g])) (at (pt_granules p) gi))"

definition read_columns :: "part \<Rightarrow> nat \<Rightarrow> nat list \<Rightarrow> nat list option \<Rightarrow> block result option" where
  "read_columns p gi cols sel = Option.bind (at (pt_granules p) gi) (\<lambda>g.
     map_option (\<lambda>out. if out = [] then Inr (rows_only (case sel of None \<Rightarrow> g_len g | Some s \<Rightarrow> length s)) else block_new out)
       (those (map (\<lambda>c. Option.bind (at (g_columns g) c)
          (\<lambda>pc. case sel of None \<Rightarrow> pc_decode pc 0 (g_len g) | Some rows \<Rightarrow> pc_gather pc rows)) cols)))"

definition part_value_at :: "part \<Rightarrow> nat \<Rightarrow> nat \<Rightarrow> cell option" where
  "part_value_at p row c = Option.bind (at (pt_granules p) (row div 2 ^ G_SHIFT)) (\<lambda>g.
     Option.bind (at (g_columns g) c) (\<lambda>pc. pc_value pc (row mod GRANULE_SIZE)))"

definition sort_lane_at :: "part \<Rightarrow> nat \<Rightarrow> u64 option" where
  "sort_lane_at p row = (case pt_sort_col p of
     None \<Rightarrow> Some 0
   | Some c \<Rightarrow> Option.bind (at (pt_granules p) (row div 2 ^ G_SHIFT)) (\<lambda>g.
       map_option (\<lambda>pc. pc_lane pc (row mod GRANULE_SIZE)) (at (g_columns g) c)))"

function next_live :: "part \<Rightarrow> nat \<Rightarrow> deletes option \<Rightarrow> nat option" where
  "next_live p row del =
     (if row < pt_n_rows p
      then let gi = row div 2 ^ G_SHIFT; off = row mod GRANULE_SIZE
           in if gi \<ge> length (pt_granules p) then None
              else if off \<ge> g_len (pt_granules p ! gi) then next_live p ((gi + 1) * 2 ^ G_SHIFT) del
              else (case del of
                      Some d \<Rightarrow>
                        if granule_deleted d gi \<noteq> 0
                        then (if \<not> deletes_get d row then Some row else next_live p (row + 1) del)
                        else Some row
                    | None \<Rightarrow> Some row)
      else None)"
  by pat_completeness auto
termination
proof (relation "measure (\<lambda>(p, row, del). pt_n_rows p - row)", goal_cases)
  case (2 p row del gi off)
  have "row < (row div 2 ^ G_SHIFT + 1) * 2 ^ G_SHIFT" using dividend_less_div_times [of "2 ^ G_SHIFT" row] by simp
  with 2 show ?case by simp
qed auto

definition live_positions_into :: "part \<Rightarrow> deletes option \<Rightarrow> nat list" where
  "live_positions_into p del = concat (map (\<lambda>(gi, g).
     let bas = gi * 2 ^ G_SHIFT in
     case del of
       Some d \<Rightarrow> if granule_deleted d gi \<noteq> 0 then filter (\<lambda>row. \<not> deletes_get d row) [bas..<bas + g_len g] else [bas..<bas + g_len g]
     | None \<Rightarrow> [bas..<bas + g_len g]) (enumerate 0 (pt_granules p)))"

definition born_deletes :: "part \<Rightarrow> deletes option" where
  "born_deletes p = (if pt_deleted_count p > 0
     then Some (deletes_new (pt_deleted p) (pt_deleted_count p) (length (pt_granules p))) else None)"

definition live_positions :: "part \<Rightarrow> nat list" where
  "live_positions p = live_positions_into p (born_deletes p)"

definition born_live_rows :: "part \<Rightarrow> nat" where
  "born_live_rows p = pt_n_rows p - pt_deleted_count p"

definition part_data_bytes :: "part \<Rightarrow> nat" where
  "part_data_bytes p = sum_list (map g_data_bytes (pt_granules p))"

definition part_index_bytes :: "part \<Rightarrow> nat" where
  "part_index_bytes p =
     length (pt_first_keys p) * 8 + length (pt_router p) * 4 + 48 + bitset_bytes (pt_deleted p)
       + (case pt_filter p of None \<Rightarrow> 0 | Some f \<Rightarrow> filter_bytes f) + sum_list (map g_index_bytes (pt_granules p))"

declare chunks.simps [simp del] next_live.simps [simp del]

section \<open>The parallel build\<close>

lemma concat_chunks: "0 < n \<Longrightarrow> concat (chunks n xs) = xs"
proof (induction n xs rule: chunks.induct)
  case (1 n xs)
  then show ?case by (subst chunks.simps) auto
qed

lemma those_append: "those (xs @ ys) = Option.bind (those xs) (\<lambda>a. map_option ((@) a) (those ys))"
proof (induction xs)
  case Nil
  show ?case by (cases "those ys") auto
next
  case (Cons x xs)
  then show ?case by (cases x; cases "those xs"; cases "those ys") auto
qed

lemma those_concat: "map_option concat (those (map (\<lambda>c. those (map f c)) css)) = those (map f (concat css))"
proof (induction css)
  case (Cons c css)
  show ?case
    unfolding concat.simps map_append those_append Cons.IH [symmetric]
    by (cases "those (map f c)"; cases "those (map (\<lambda>c. those (map f c)) css)") auto
qed simp

text \<open>However the ranges are split over threads, the granules are those of the sequential loop, in order.\<close>

lemma build_granules_sequential:
  "build_granules avail b perm sc pk ranges = those (map (\<lambda>(s, e). build_sel b s e perm sc pk) ranges)"
proof -
  have "0 < div_ceil (length ranges) (min avail (max (length ranges) 1))"
    if "1 < min avail (max (length ranges) 1)" "8 \<le> length ranges"
    using that less_div_ceil [of "min avail (max (length ranges) 1)" 0 "length ranges"] by linarith
  then show ?thesis by (simp add: build_granules_def those_concat concat_chunks Let_def)
qed

section \<open>The router\<close>

lemma router_buckets_power:
  assumes "0 < n"
  obtains k where "router_buckets n = 2 ^ k" "1 \<le> k" "k \<le> 20" "trailing_zeros (of_nat (router_buckets n)) = k"
proof -
  let ?a = "bit_len (n * 2 - 1)" and ?k = "min (bit_len (n * 2 - 1)) 20"
  have a: "1 \<le> ?a" using assms by (simp add: Suc_le_eq)
  have "(2 :: nat) ^ 1 \<le> 2 ^ ?k" using a by (intro power_increasing) auto
  moreover have "min (2 ^ ?a) (2 ^ 20) = (2 :: nat) ^ ?k" 
    using power_increasing_iff [of "2 :: nat" ?a 20] by (auto simp: min_def simp del: power_increasing_iff)
  ultimately have nb: "router_buckets n = 2 ^ ?k" by (simp add: router_buckets_def)
  have "filter (bit (2 ^ ?k :: u64)) [0..<64] = [?k]"
  proof -
    have "filter (bit (2 ^ ?k :: u64)) [0..<64] = filter (\<lambda>i. i = ?k) [0..<64]" by (intro filter_cong) (auto simp: bit_single)
    also have "\<dots> = (if ?k < 64 then [?k] else [])"
    proof -
      have "filter (\<lambda>i. i = ?k) [0..<m] = (if ?k < m then [?k] else [])" for m by (induction m) auto
      then show ?thesis .
    qed
    also have "\<dots> = [?k]" by simp
    finally show ?thesis .
  qed
  then have "trailing_zeros (of_nat (router_buckets n)) = ?k" by (simp add: trailing_zeros_def nb)
  with that nb a show thesis by simp
qed

lemma partition_point_mono: "sorted xs \<Longrightarrow> a \<le> b \<Longrightarrow> partition_point (\<lambda>x. x \<le> a) xs \<le> partition_point (\<lambda>x. x \<le> (b :: u64)) xs"
proof -
  assume "sorted xs" "a \<le> b"
  then show "partition_point (\<lambda>x. x \<le> a) xs \<le> partition_point (\<lambda>x. x \<le> b) xs"
    unfolding partition_point_def by (induction xs) auto
qed

lemma partition_point_slice:
  assumes "sorted xs" "lo \<le> partition_point (\<lambda>x. x \<le> t) xs" "partition_point (\<lambda>x. x \<le> (t :: u64)) xs \<le> hi" "hi \<le> length xs"
  shows "lo + partition_point (\<lambda>x. x \<le> t) (slice xs lo hi) = partition_point (\<lambda>x. x \<le> t) xs"
proof -
  let ?k = "partition_point (\<lambda>x. x \<le> t) xs" and ?p = "partition_point (\<lambda>x. x \<le> t) (slice xs lo hi)"
  have len: "length (slice xs lo hi) = hi - lo" using assms by simp
  have nth: "slice xs lo hi ! i = xs ! (lo + i)" if "i < hi - lo" for i using that assms by (simp add: slice_nth)
  have "\<not> lo + ?p < ?k"
  proof
    assume lt: "lo + ?p < ?k"
    then have "?p < hi - lo" using assms(3) by simp
    with partition_point_stop [of "\<lambda>x. x \<le> t" "slice xs lo hi"] len nth [of ?p] have "\<not> xs ! (lo + ?p) \<le> t" by simp
    with partition_point_less [OF lt] show False by simp
  qed
  moreover have "\<not> ?k < lo + ?p"
  proof
    assume gt: "?k < lo + ?p"
    have p: "?p \<le> hi - lo" using partition_point_le [of "\<lambda>x. x \<le> t" "slice xs lo hi"] len by simp
    with gt assms have k: "?k - lo < ?p" "?k < length xs" by auto
    from partition_point_less [OF k(1)] nth [of "?k - lo"] p k(1) assms(2) have "xs ! ?k \<le> t" by simp
    with partition_point_stop [OF k(2)] show False by simp
  qed
  ultimately show ?thesis by linarith
qed

lemma partition_point_all: "\<forall>x \<in> set xs. p x \<Longrightarrow> partition_point p xs = length xs"
  by (simp add: partition_point_def takeWhile_eq_all_conv [THEN iffD2])

text \<open>The bucket of a lane brackets it; past the last bucket lies no first key.\<close>

lemma unat_route_start: "unat (route_start bas shift b) = min (unat bas + b * 2 ^ shift) (2 ^ 64 - 1)"
proof -
  let ?o = "min (b * 2 ^ shift) (2 ^ 64 - 1)"
  have "unat (route_start bas shift b) = min (unat bas + ?o) (2 ^ 64 - 1)"
    unfolding route_start_def Let_def by (rule unat_of_nat_u64) simp
  then show ?thesis by (auto simp: min_def)
qed

lemma route_start_mono: "a \<le> b \<Longrightarrow> route_start bas shift a \<le> route_start bas shift b"
  unfolding word_le_nat_alt unat_route_start by (intro min.mono add_left_mono mult_right_mono) auto

lemma bucket_below:
  assumes "bas \<le> lane" "idx \<le> unat (lane - bas) div 2 ^ shift"
  shows "route_start bas shift idx \<le> lane"
proof -
  have "idx * 2 ^ shift \<le> unat (lane - bas)"
    using mult_le_mono1 [OF assms(2), of "2 ^ shift"] div_times_less_eq_dividend [of "unat (lane - bas)" "2 ^ shift"] by linarith
  then have "unat bas + idx * 2 ^ shift \<le> unat lane" using assms(1) by (simp add: unat_sub word_le_nat_alt)
  then show ?thesis by (simp add: word_le_nat_alt unat_route_start min_def)
qed

lemma bucket_above:
  assumes "bas \<le> lane" "unat (lane - bas) div 2 ^ shift < b"
  shows "lane \<le> route_start bas shift b"
proof -
  have "unat (lane - bas) < b * 2 ^ shift" using assms(2) by (simp add: div_less_iff_less_mult)
  then have "unat lane < unat bas + b * 2 ^ shift" using assms(1) by (simp add: unat_sub word_le_nat_alt)
  moreover have "unat lane \<le> 2 ^ 64 - 1" using unat_u64_less [of lane] by simp
  ultimately show ?thesis by (simp add: word_le_nat_alt unat_route_start)
qed

lemma last_bucket:
  assumes "bas \<le> mx" "bit_len (unat (mx - bas)) \<le> shift + k"
  shows "mx \<le> route_start bas shift (2 ^ k)"
proof (rule bucket_above [OF assms(1)])
  have "unat (mx - bas) < 2 ^ (shift + k)" using assms(2) by (simp add: bit_len_le_iff)
  then show "unat (mx - bas) div 2 ^ shift < 2 ^ k" by (simp add: div_less_iff_less_mult power_add mult.commute)
qed

lemma locate_granule_search:
  assumes r: "build_router fks mx = (pt_route_base p, pt_route_shift p, pt_router p)" "pt_first_keys p = fks"
    and srt: "sorted fks" and le: "\<forall>fk \<in> set fks. fk \<le> mx" and n: "length fks < 2 ^ 32"
  shows "locate_granule p lane =
    Some (let k = partition_point (\<lambda>fk. fk \<le> lane) fks in if k = 0 then None else Some (k - 1))"
proof (cases "fks = []")
  case True
  then have p: "pt_route_base p = 0" "pt_router p = [0, 0]" "pt_first_keys p = []" using r by (simp_all add: build_router_def)
  show ?thesis by (simp add: True locate_granule_def p get_range_def slice_def partition_point_def at_def)
next
  case ne: False
  define nb where "nb = router_buckets (length fks)"
  obtain k where k: "nb = 2 ^ k" "trailing_zeros (of_nat nb) = k" "1 \<le> k" "k \<le> 20"
    using router_buckets_power [of "length fks"] ne unfolding nb_def by blast
  define shift where "shift = bit_len (unat (if hd fks \<le> mx then mx - hd fks else 0)) - k"
  let ?start = "route_start (hd fks) shift"
  let ?pp = "\<lambda>t. partition_point (\<lambda>fk. fk \<le> t) fks"
  have p: "pt_route_base p = hd fks" "pt_route_shift p = shift" "pt_router p = map (\<lambda>b. of_nat (?pp (?start b))) [0..<nb + 1]"
  proof -
    have "build_router fks mx = (hd fks, shift, map (\<lambda>b. of_nat (?pp (?start b))) [0..<nb + 1])"
      unfolding build_router_def Let_def nb_def [symmetric] k(2) leading_zeros_width shift_def [symmetric] using ne by simp
    from this [unfolded r(1)] show "pt_route_base p = hd fks" "pt_route_shift p = shift" "pt_router p = map (\<lambda>b. of_nat (?pp (?start b))) [0..<nb + 1]"
      by (simp_all only: prod.inject)
  qed
  have hd: "hd fks \<le> mx" using le ne by simp
  have u: "unat (of_nat (?pp t) :: u32) = ?pp t" for t
    using partition_point_le [of "\<lambda>fk. fk \<le> t" fks] n by (intro unat_of_nat_u32) linarith
  have sh: "shift < 64"
    using bit_len_word_le [of "if hd fks \<le> mx then mx - hd fks else 0"] k(3) unfolding shift_def by linarith
  show ?thesis
  proof (cases "lane < hd fks")
    case True
    then have "?pp lane = 0" using ne by (cases fks) (auto simp: partition_point_def)
    then show ?thesis using True p(1) by (simp add: locate_granule_def)
  next
    case False
    then have bl: "hd fks \<le> lane" by simp
    define idx where "idx = min (unat (drop_bit shift (lane - hd fks))) (nb - 1)"
    have q: "unat (drop_bit shift (lane - hd fks)) = unat (lane - hd fks) div 2 ^ shift"
      by (subst unat_drop_bit_eq) (rule drop_bit_eq_div)
    have "0 < nb" by (simp add: k(1))
    then have i: "idx < nb" "idx \<le> unat (lane - hd fks) div 2 ^ shift" unfolding idx_def q by linarith+
    have lo: "?pp (?start idx) \<le> ?pp lane" using bucket_below [OF bl i(2)] by (rule partition_point_mono [OF srt])
    have hi: "?pp lane \<le> ?pp (?start (idx + 1))"
    proof (cases "unat (lane - hd fks) div 2 ^ shift < idx + 1")
      case True
      show ?thesis using bucket_above [OF bl True] by (rule partition_point_mono [OF srt])
    next
      case False
      with \<open>0 < nb\<close> have "idx + 1 = nb" unfolding idx_def q by linarith
      moreover have "mx \<le> ?start (2 ^ k)" using hd by (intro last_bucket) (simp_all add: shift_def)
      ultimately have "?pp (?start (idx + 1)) = length fks"
        using le k(1) by (intro partition_point_all) (auto intro: order_trans)
      then show ?thesis by simp
    qed
    have win: "get_range fks (?pp (?start idx)) (?pp (?start (idx + 1))) = Some (slice fks (?pp (?start idx)) (?pp (?start (idx + 1))))"
      using lo hi by (simp add: get_range_def)
    have "?pp (?start idx) + partition_point (\<lambda>fk. fk \<le> lane) (slice fks (?pp (?start idx)) (?pp (?start (idx + 1)))) = ?pp lane"
      using lo hi by (intro partition_point_slice [OF srt]) simp_all
    moreover have "min (unat (drop_bit (pt_route_shift p mod 64) (lane - pt_route_base p))) (length (pt_router p) - 2) = idx"
      using sh by (simp add: p idx_def)
    moreover have "at (pt_router p) idx = Some (of_nat (?pp (?start idx)))" "at (pt_router p) (idx + 1) = Some (of_nat (?pp (?start (idx + 1))))"
      using i(1) by (simp_all add: p(3) at_def nth_append del: upt_Suc)
    ultimately show ?thesis using False win unfolding locate_granule_def Let_def r(2) by (simp add: p(1) u)
  qed
qed

section \<open>The rows of a part\<close>

definition part_wf :: "part \<Rightarrow> bool" where
  "part_wf p \<longleftrightarrow> length (pt_granules p) = div_ceil (pt_n_rows p) GRANULE_SIZE \<and>
     (\<forall>gi < length (pt_granules p). g_len (pt_granules p ! gi) = min GRANULE_SIZE (pt_n_rows p - gi * GRANULE_SIZE))"

lemma shift_size [simp]: "2 ^ G_SHIFT = GRANULE_SIZE" "0 < GRANULE_SIZE"
  by (simp_all add: G_SHIFT_def GRANULE_SIZE_def)

lemma granule_of_row: "part_wf p \<Longrightarrow> row < pt_n_rows p \<Longrightarrow>
    row div GRANULE_SIZE < length (pt_granules p) \<and> row mod GRANULE_SIZE < g_len (pt_granules p ! (row div GRANULE_SIZE))"
proof -
  assume p: "part_wf p" and row: "row < pt_n_rows p"
  have gi: "row div GRANULE_SIZE < length (pt_granules p)" using p row less_div_ceil [of GRANULE_SIZE row] by (simp add: part_wf_def)
  have "row mod GRANULE_SIZE < GRANULE_SIZE" by simp
  moreover have "row mod GRANULE_SIZE < pt_n_rows p - row div GRANULE_SIZE * GRANULE_SIZE"
    using row div_mult_mod_eq [of row GRANULE_SIZE] by linarith
  ultimately show ?thesis using p gi by (simp add: part_wf_def)
qed

lemma granule_start_less: "gi < div_ceil n GRANULE_SIZE \<Longrightarrow> gi * GRANULE_SIZE < n"
  by (simp add: div_ceil_def GRANULE_SIZE_def)

lemma granule_nonempty: "part_wf p \<Longrightarrow> gi < length (pt_granules p) \<Longrightarrow> 0 < g_len (pt_granules p ! gi)"
  using granule_start_less [of gi "pt_n_rows p"] by (simp add: part_wf_def)

lemma build_granules_nth:
  assumes "build_granules avail b perm sc pk (granule_ranges n) = Some gs"
  shows "length gs = div_ceil n GRANULE_SIZE"
    "gi < length gs \<Longrightarrow> build_sel b (gi * GRANULE_SIZE) (min ((gi + 1) * GRANULE_SIZE) n) perm sc pk = Some (gs ! gi)"
  using those_map_nth [OF assms [unfolded build_granules_sequential]] by (simp_all add: granule_ranges_def)

definition built :: "block \<Rightarrow> nat list option \<Rightarrow> nat option \<Rightarrow> nat option \<Rightarrow> part \<Rightarrow> bool" where
  "built b perm sc pk p \<longleftrightarrow> (\<exists>avail. part_build_sel avail b perm sc pk = Some p)"

lemma built_part:
  assumes "built b perm sc pk p"
  shows "part_wf p" "pt_sort_col p = sc" "pt_pk_col p = pk" "pt_first_keys p = map sort_min (pt_granules p)"
    "pt_max p = (if pt_granules p = [] then 0 else sort_max (last (pt_granules p)))" "pt_filter p = None"
    "build_router (pt_first_keys p) (pt_max p) = (pt_route_base p, pt_route_shift p, pt_router p)"
    "pt_n_rows p = (case perm of None \<Rightarrow> blk_rows b | Some q \<Rightarrow> length q)"
    "gi < length (pt_granules p) \<Longrightarrow>
      build_sel b (gi * GRANULE_SIZE) (min ((gi + 1) * GRANULE_SIZE) (pt_n_rows p)) perm sc pk = Some (pt_granules p ! gi)"
proof -
  let ?n = "case perm of None \<Rightarrow> blk_rows b | Some q \<Rightarrow> length q"
  obtain avail gs where gs: "build_granules avail b perm sc pk (granule_ranges ?n) = Some gs"
    and p: "p = assemble ?n gs bitset_new 0 sc pk (block_width b)"
    using assms by (auto simp: built_def part_build_sel_def Let_def)
  note f = p [unfolded assemble_def Let_def]
  show "pt_sort_col p = sc" "pt_pk_col p = pk" "pt_first_keys p = map sort_min (pt_granules p)" "pt_filter p = None"
    "pt_max p = (if pt_granules p = [] then 0 else sort_max (last (pt_granules p)))" and n: "pt_n_rows p = ?n"
    "build_router (pt_first_keys p) (pt_max p) = (pt_route_base p, pt_route_shift p, pt_router p)"
    using f by (auto split: prod.splits)
  have g: "pt_granules p = gs" using f by (auto split: prod.splits)
  show b: "build_sel b (gi * GRANULE_SIZE) (min ((gi + 1) * GRANULE_SIZE) (pt_n_rows p)) perm sc pk = Some (pt_granules p ! gi)"
    if "gi < length (pt_granules p)" for gi
    using build_granules_nth(2) [OF gs] that g n(1) by simp
  have "g_len (gs ! gi) = min GRANULE_SIZE (?n - gi * GRANULE_SIZE)" if "gi < length gs" for gi
  proof -
    let ?x = "gi * GRANULE_SIZE"
    have "g_len (gs ! gi) = min (?x + GRANULE_SIZE) ?n - ?x"
      using build_sel_Some(2) [OF b] that g n(1) by (simp add: add.commute)
    then show ?thesis by linarith
  qed
  then show "part_wf p" using build_granules_nth(1) [OF gs] g n(1) by (simp add: part_wf_def)
qed

text \<open>Row \<open>row\<close> of a part comes from this row of the block; \<open>gathers\<close> says that a column can be cut into granules.\<close>

definition source_row :: "nat list option \<Rightarrow> nat \<Rightarrow> nat" where
  "source_row perm row = (case perm of None \<Rightarrow> row | Some q \<Rightarrow> q ! row)"

abbreviation granule_ids :: "nat list option \<Rightarrow> part \<Rightarrow> nat \<Rightarrow> nat list" where
  "granule_ids perm p gi \<equiv> row_ids perm (gi * GRANULE_SIZE) (min ((gi + 1) * GRANULE_SIZE) (pt_n_rows p))"

definition gathers :: "block \<Rightarrow> nat list option \<Rightarrow> part \<Rightarrow> nat \<Rightarrow> bool" where
  "gathers b perm p k \<longleftrightarrow> k < length (blk_columns b) \<and> (\<forall>gi < length (pt_granules p). gatherable (blk_columns b ! k) (granule_ids perm p gi))"

lemma granule_ids_nth:
  assumes "built b perm sc pk p" "gi < length (pt_granules p)" "i < g_len (pt_granules p ! gi)"
  shows "granule_ids perm p gi ! i = source_row perm (gi * GRANULE_SIZE + i)"
proof -
  note w = built_part [OF assms(1)]
  let ?e = "min ((gi + 1) * GRANULE_SIZE) (pt_n_rows p)"
  have "i < min GRANULE_SIZE (pt_n_rows p - gi * GRANULE_SIZE)" using w(1) assms(2,3) by (simp add: part_wf_def)
  then have e: "gi * GRANULE_SIZE + i < ?e" by (simp add: less_diff_conv add.commute)
  show ?thesis
  proof (cases perm)
    case None
    then show ?thesis using e by (simp add: row_ids_def source_row_def)
  next
    case (Some q)
    then have "?e \<le> length q" using w(8) by simp
    then have "slice q (gi * GRANULE_SIZE) ?e ! i = q ! (gi * GRANULE_SIZE + i)" using e by (intro slice_nth) linarith+
    then show ?thesis using Some by (simp add: row_ids_def source_row_def)
  qed
qed

text \<open>A cell of a part is the cell of the block's row that the permutation names.\<close>

lemma part_cells:
  assumes "built b perm sc pk p" "gathers b perm p k" "row < pt_n_rows p"
  shows "part_value_at p row k = Some (canon_cell (cells (blk_columns b ! k) ! source_row perm row))"
proof -
  let ?gi = "row div GRANULE_SIZE" and ?i = "row mod GRANULE_SIZE"
  note w = built_part [OF assms(1)]
  note g = granule_of_row [OF w(1) assms(3)]
  have k: "k < length (blk_columns b)" "gatherable (blk_columns b ! k) (granule_ids perm p ?gi)"
    using assms(2) g by (auto simp: gathers_def)
  from granule_rows [OF w(9) k, of ?i] granule_ids_nth [OF assms(1), of ?gi ?i] g k(1)
  show ?thesis by (simp add: part_value_at_def at_def)
qed

text \<open>A read of some columns, of all rows or of a selection, returns their cells as a block.\<close>

lemma read_columns_spec:
  assumes bt: "built b perm sc pk p" and gi: "gi < length (pt_granules p)" and cols: "cols \<noteq> []" "\<forall>k \<in> set cols. gathers b perm p k"
    and rows: "\<forall>i \<in> set rows. i < g_len (pt_granules p ! gi)" "sel = Some rows \<or> sel = None \<and> rows = [0..<g_len (pt_granules p ! gi)]"
  shows "\<exists>blk. read_columns p gi cols sel = Some (Inr blk) \<and> block_holds blk (map (\<lambda>k. col_ty (blk_columns b ! k)) cols)
    (map (\<lambda>i. map (\<lambda>k. canon_cell (cells (blk_columns b ! k) ! source_row perm (gi * GRANULE_SIZE + i))) cols) rows)"
proof -
  let ?g = "pt_granules p ! gi"
  let ?read = "\<lambda>c. Option.bind (at (g_columns ?g) c) (\<lambda>pc. case sel of None \<Rightarrow> pc_decode pc 0 (g_len ?g) | Some rows \<Rightarrow> pc_gather pc rows)"
  let ?cell = "\<lambda>k i. canon_cell (cells (blk_columns b ! k) ! source_row perm (gi * GRANULE_SIZE + i))"
  note w = built_part(9) [OF bt gi]
  have one: "\<exists>c'. ?read k = Some c' \<and> represents c' (col_ty (blk_columns b ! k)) (map (?cell k) rows)" if k: "k \<in> set cols" for k
  proof -
    have kg: "k < length (blk_columns b)" "gatherable (blk_columns b ! k) (granule_ids perm p gi)"
      using cols(2) k gi by (auto simp: gathers_def)
    obtain c where c: "g_columns ?g ! k = pc_build c" "packable c"
      "represents c (col_ty (blk_columns b ! k)) (map ((!) (cells (blk_columns b ! k))) (granule_ids perm p gi))"
      using granule_packs [OF w kg] by blast
    have len: "length (granule_ids perm p gi) = g_len ?g" using length_row_ids [OF w] kg(1) by fastforce
    then have cl: "col_len c = g_len ?g" using c(3) length_cells [of c] by (simp add: represents_def)
    have "\<exists>c'. ?read k = Some c' \<and> represents c' (col_ty c) (map (\<lambda>i. canon_cell (cells c ! i)) rows)"
      using rows pc_gather_spec [OF packs_build c(2), of rows] pc_decode_spec [OF packs_build c(2), of 0 "g_len ?g"]
        granule_width [OF w] kg(1) c(1) cl by (auto simp: at_def)
    moreover have "canon_cell (cells c ! i) = ?cell k i" if "i \<in> set rows" for i
      using that rows(1) c(3) len granule_ids_nth [OF bt gi, of i] by (simp add: represents_def)
    ultimately show ?thesis using c(3) by (simp add: represents_def cong: map_cong)
  qed
  then have "\<forall>k \<in> set cols. \<exists>c'. ?read k = Some c' \<and> represents c' (col_ty (blk_columns b ! k)) (map (?cell k) rows)" by blast
  from bchoice [OF this] obtain out where out: "\<And>k. k \<in> set cols \<Longrightarrow> ?read k = Some (out k)"
    "\<And>k. k \<in> set cols \<Longrightarrow> represents (out k) (col_ty (blk_columns b ! k)) (map (?cell k) rows)" by blast
  have "those (map ?read ks) = Some (map out ks)" if "set ks \<subseteq> set cols" for ks
    using that by (induction ks) (use out(1) in auto)
  then have rd: "read_columns p gi cols sel = Some (block_new (map out cols))" using gi cols(1) by (simp add: read_columns_def at_def)
  have "\<exists>blk. block_new (map out cols) = Inr blk \<and> block_holds blk (map (\<lambda>k. col_ty (blk_columns b ! k)) cols)
      (map (\<lambda>r. map (\<lambda>j. ?cell (cols ! j) r) [0..<length (map out cols)]) rows)"
    using cols(1) out(2) by (intro block_new_holds) simp_all
  moreover have "map (\<lambda>j. ?cell (cols ! j) r) [0..<length (map out cols)] = map (\<lambda>k. ?cell k r) cols" for r
    by (intro nth_equalityI) simp_all
  ultimately show ?thesis using rd by simp
qed

section \<open>Point lookup\<close>

definition granule_lanes :: "granule \<Rightarrow> nat \<Rightarrow> u64 list" where
  "granule_lanes g c = map (pc_lane (g_columns g ! c)) [0..<g_len g]"

definition part_lanes :: "part \<Rightarrow> nat \<Rightarrow> u64 list" where
  "part_lanes p c = concat (map (\<lambda>g. granule_lanes g c) (pt_granules p))"

lemma length_granule_lanes [simp]: "length (granule_lanes g c) = g_len g"
  by (simp add: granule_lanes_def)

lemma concat_nth_block:
  assumes "k < length xss" "\<And>j. j < k \<Longrightarrow> length (xss ! j) = m" "r < length (xss ! k)"
  shows "k * m + r < length (concat xss) \<and> concat xss ! (k * m + r) = xss ! k ! r"
proof -
  have len: "length (concat (take k xss)) = k * m"
  proof -
    have "map length (take k xss) = replicate k m" using assms(1,2) by (intro nth_equalityI) auto
    then show ?thesis by (simp add: length_concat sum_list_replicate)
  qed
  have "concat xss = concat (take k xss) @ xss ! k @ concat (drop (Suc k) xss)"
    using id_take_nth_drop [OF assms(1)] by (metis concat.simps(2) concat_append)
  then show ?thesis using assms(3) len by (simp add: nth_append)
qed

lemma part_lanes_nth:
  assumes "part_wf p" "gi < length (pt_granules p)" "r < g_len (pt_granules p ! gi)"
  shows "gi * GRANULE_SIZE + r < length (part_lanes p c)
    \<and> part_lanes p c ! (gi * GRANULE_SIZE + r) = granule_lanes (pt_granules p ! gi) c ! r"
proof -
  have "g_len (pt_granules p ! j) = GRANULE_SIZE" if "j < gi" for j
  proof -
    have "Suc j * GRANULE_SIZE < pt_n_rows p"
    proof (rule le_less_trans)
      show "Suc j * GRANULE_SIZE \<le> gi * GRANULE_SIZE" using that by (intro mult_le_mono1) simp
      show "gi * GRANULE_SIZE < pt_n_rows p" using granule_start_less assms(1,2) by (simp add: part_wf_def)
    qed
    then show ?thesis using assms(1,2) that by (simp add: part_wf_def)
  qed
  then show ?thesis using concat_nth_block [of gi "map (\<lambda>g. granule_lanes g c) (pt_granules p)" GRANULE_SIZE r] assms(2,3)
    by (simp add: part_lanes_def)
qed

lemma in_part_lanes: "k \<in> set (part_lanes p c) \<longleftrightarrow> (\<exists>gi < length (pt_granules p). k \<in> set (granule_lanes (pt_granules p ! gi) c))"
  by (simp add: part_lanes_def) (metis in_set_conv_nth)

text \<open>A part built with its single sort and key column strictly ascending.\<close>

definition keyed_part :: "part \<Rightarrow> nat \<Rightarrow> bool" where
  "keyed_part p c \<longleftrightarrow> (\<exists>b perm. built b perm (Some c) (Some c) p) \<and> (\<forall>g \<in> set (pt_granules p). c < length (g_columns g))
     \<and> sorted_wrt (<) (part_lanes p c) \<and> length (pt_granules p) < 2 ^ 32"

lemma keyed_wf: "keyed_part p c \<Longrightarrow> part_wf p"
  using built_part(1) by (auto simp: keyed_part_def)

lemma keyed_ends:
  assumes "keyed_part p c" "gi < length (pt_granules p)"
  shows "sort_min (pt_granules p ! gi) = granule_lanes (pt_granules p ! gi) c ! 0"
    "sort_max (pt_granules p ! gi) = granule_lanes (pt_granules p ! gi) c ! (g_len (pt_granules p ! gi) - 1)"
    "0 < g_len (pt_granules p ! gi)"
proof -
  let ?g = "pt_granules p ! gi"
  obtain b perm where bt: "built b perm (Some c) (Some c) p" using assms(1) by (auto simp: keyed_part_def)
  show pos: "0 < g_len ?g" using granule_nonempty [OF keyed_wf [OF assms(1)] assms(2)] .
  have "sort_bounds (g_columns ?g) (g_len ?g) (Some c) = Some (sort_min ?g, sort_max ?g)"
    using build_sel_Some(2,4) [OF built_part(9) [OF bt assms(2)]] by metis
  moreover have "c < length (g_columns ?g)" using assms by (simp add: keyed_part_def)
  ultimately show "sort_min ?g = granule_lanes ?g c ! 0" "sort_max ?g = granule_lanes ?g c ! (g_len ?g - 1)"
    using pos by (auto simp: sort_bounds_def granule_lanes_def)
qed

lemma keyed_order:
  assumes "keyed_part p c" "gi < length (pt_granules p)" "gj < length (pt_granules p)"
    "r < g_len (pt_granules p ! gi)" "s < g_len (pt_granules p ! gj)" "gi < gj \<or> gi = gj \<and> r < s"
  shows "granule_lanes (pt_granules p ! gi) c ! r < granule_lanes (pt_granules p ! gj) c ! s"
proof -
  note w = keyed_wf [OF assms(1)]
  have "gi * GRANULE_SIZE + r < gj * GRANULE_SIZE + s"
  proof (cases "gi = gj")
    case False
    have "r < GRANULE_SIZE" using w assms(2,4) by (simp add: part_wf_def)
    moreover have "Suc gi * GRANULE_SIZE \<le> gj * GRANULE_SIZE" using assms(6) False by (intro mult_le_mono1) simp
    ultimately show ?thesis by simp
  qed (use assms(6) in simp)
  moreover have "sorted_wrt (<) (part_lanes p c)" using assms(1) by (simp add: keyed_part_def)
  ultimately show ?thesis
    using sorted_wrt_nth_less [of "(<)" "part_lanes p c" "gi * GRANULE_SIZE + r" "gj * GRANULE_SIZE + s"]
      part_lanes_nth [OF w assms(2,4), of c] part_lanes_nth [OF w assms(3,5), of c] by simp
qed

lemma keyed_max:
  assumes "keyed_part p c" "k \<in> set (part_lanes p c)"
  shows "k \<le> pt_max p"
proof -
  let ?G = "\<lambda>gi. pt_granules p ! gi" and ?z = "length (pt_granules p) - 1"
  from assms(2) obtain gi r where gr: "gi < length (pt_granules p)" "r < g_len (?G gi)" "k = granule_lanes (?G gi) c ! r"
    unfolding in_part_lanes by (auto simp: in_set_conv_nth)
  obtain b perm where bt: "built b perm (Some c) (Some c) p" using assms(1) by (auto simp: keyed_part_def)
  have ne: "pt_granules p \<noteq> []" using gr(1) by auto
  then have z: "?z < length (pt_granules p)" "pt_max p = granule_lanes (?G ?z) c ! (g_len (?G ?z) - 1)"
    using keyed_ends(2) [OF assms(1), of ?z] built_part(5) [OF bt] by (simp_all add: last_conv_nth)
  show ?thesis
  proof (cases "gi = ?z \<and> r = g_len (?G ?z) - 1")
    case False
    have "gi < ?z \<or> gi = ?z \<and> r < g_len (?G ?z) - 1" using False gr(1,2) by (cases "gi = ?z") auto
    then have "k < pt_max p"
      using keyed_order [OF assms(1) gr(1) z(1) gr(2), of "g_len (?G ?z) - 1"] gr(3) z keyed_ends(3) [OF assms(1) z(1)] by simp
    then show ?thesis by simp
  qed (use gr z in simp)
qed

lemma keyed_first_keys:
  assumes "keyed_part p c"
  shows "length (pt_first_keys p) = length (pt_granules p)"
    "gi < length (pt_granules p) \<Longrightarrow> pt_first_keys p ! gi = granule_lanes (pt_granules p ! gi) c ! 0"
    "sorted (pt_first_keys p)" "\<forall>fk \<in> set (pt_first_keys p). fk \<le> pt_max p"
proof -
  obtain b perm where bt: "built b perm (Some c) (Some c) p" using assms(1) by (auto simp: keyed_part_def)
  show len: "length (pt_first_keys p) = length (pt_granules p)" using built_part(4) [OF bt] by simp
  show fk: "pt_first_keys p ! gi = granule_lanes (pt_granules p ! gi) c ! 0" if "gi < length (pt_granules p)" for gi
    using that keyed_ends(1) [OF assms that] built_part(4) [OF bt] by simp
  have "pt_first_keys p ! i < pt_first_keys p ! j" if "i < j" "j < length (pt_first_keys p)" for i j
    using keyed_order [OF assms, of i j 0 0] keyed_ends(3) [OF assms] that fk len by simp
  then have "sorted_wrt (<) (pt_first_keys p)" by (simp add: sorted_wrt_iff_nth_less)
  then show "sorted (pt_first_keys p)" by (rule strict_sorted_imp_sorted)
  show "\<forall>fk \<in> set (pt_first_keys p). fk \<le> pt_max p"
  proof
    fix x
    assume "x \<in> set (pt_first_keys p)"
    then obtain gi where gi: "gi < length (pt_granules p)" "x = granule_lanes (pt_granules p ! gi) c ! 0"
      using fk len by (auto simp: in_set_conv_nth)
    then have "x \<in> set (granule_lanes (pt_granules p ! gi) c)" using keyed_ends(3) [OF assms gi(1)] by simp
    with gi(1) have "x \<in> set (part_lanes p c)" unfolding in_part_lanes by blast
    then show "x \<le> pt_max p" by (rule keyed_max [OF assms])
  qed
qed

text \<open>The granule the router names is the only one that can hold the key.\<close>

lemma keyed_only_granule:
  assumes kp: "keyed_part p c" and gi: "gi < length (pt_granules p)" and key: "key \<in> set (granule_lanes (pt_granules p ! gi) c)"
  defines "k \<equiv> partition_point (\<lambda>fk. fk \<le> key) (pt_first_keys p)"
  shows "0 < k" "gi = k - 1"
proof -
  note fk = keyed_first_keys [OF kp]
  from key obtain r where r: "r < g_len (pt_granules p ! gi)" "key = granule_lanes (pt_granules p ! gi) c ! r"
    by (auto simp: in_set_conv_nth)
  have "pt_first_keys p ! gi \<le> key"
    using keyed_order [OF kp gi gi _ r(1), of 0] r keyed_ends(3) [OF kp gi] fk(2) [OF gi] by (cases "r = 0") auto
  then have lo: "gi < k" using partition_point_sorted_le [OF fk(3), of gi key] gi fk(1) by (simp add: k_def)
  have "\<not> gi + 1 < k"
  proof
    assume lt: "gi + 1 < k"
    then have l: "gi + 1 < length (pt_granules p)"
      using partition_point_le [of "\<lambda>fk. fk \<le> key" "pt_first_keys p"] fk(1) by (simp add: k_def)
    have "granule_lanes (pt_granules p ! (gi + 1)) c ! 0 \<le> key"
      using partition_point_less [OF lt [unfolded k_def]] fk(2) [OF l] by simp
    with keyed_order [OF kp gi l r(1) keyed_ends(3) [OF kp l]] r(2) show False by simp
  qed
  with lo show "0 < k" "gi = k - 1" by simp_all
qed

lemma keyed_granule_probe:
  assumes kp: "keyed_part p c" and gi: "gi < length (pt_granules p)"
  defines "keys \<equiv> granule_lanes (pt_granules p ! gi) c"
  shows "map_option fst (find_key (pt_granules p ! gi) c key (hash_key key FP_SEED) st)
      = Some (if key \<in> set keys then Some (index_of keys key) else None)"
    "key \<in> set keys \<Longrightarrow> key \<le> sort_max (pt_granules p ! gi)"
    "key \<in> set keys \<Longrightarrow> index_of (part_lanes p c) key = gi * GRANULE_SIZE + index_of keys key"
proof -
  let ?g = "pt_granules p ! gi"
  obtain b perm where bt: "built b perm (Some c) (Some c) p" using kp by (auto simp: keyed_part_def)
  have len: "g_len ?g \<le> 2 ^ 26" using keyed_wf [OF kp] gi by (simp add: part_wf_def GRANULE_SIZE_def)
  have "sorted_wrt (<) keys" using keyed_order [OF kp gi gi] by (auto simp: sorted_wrt_iff_nth_less keys_def)
  then have s: "sorted (map (pc_lane (g_columns ?g ! c)) [0..<g_len ?g])"
    by (simp add: keys_def granule_lanes_def strict_sorted_imp_sorted)
  have cg: "c < length (g_columns ?g)" using kp gi by (simp add: keyed_part_def)
  show "map_option fst (find_key ?g c key (hash_key key FP_SEED) st) = Some (if key \<in> set keys then Some (index_of keys key) else None)"
    unfolding keys_def granule_lanes_def by (rule find_key_spec [OF built_part(9) [OF bt gi] cg len s])
  assume mem: "key \<in> set keys"
  note im = index_of_mem [OF mem]
  show "key \<le> sort_max ?g"
  proof (cases "index_of keys key = g_len ?g - 1")
    case False
    moreover have "index_of keys key < g_len ?g" using im by (simp add: keys_def)
    ultimately have "index_of keys key < g_len ?g - 1" by linarith
    then have "keys ! index_of keys key < keys ! (g_len ?g - 1)"
      using keyed_order [OF kp gi gi, of "index_of keys key" "g_len ?g - 1"] by (simp add: keys_def)
    then show ?thesis using im keyed_ends(2) [OF kp gi] by (simp add: keys_def)
  qed (use im keyed_ends(2) [OF kp gi] in \<open>simp add: keys_def\<close>)
  have "part_lanes p c ! (gi * GRANULE_SIZE + index_of keys key) = key" "gi * GRANULE_SIZE + index_of keys key < length (part_lanes p c)"
    using part_lanes_nth [OF keyed_wf [OF kp] gi, of "index_of keys key" c] im by (simp_all add: keys_def)
  moreover have "distinct (part_lanes p c)" using kp by (simp add: keyed_part_def strict_sorted_iff)
  ultimately show "index_of (part_lanes p c) key = gi * GRANULE_SIZE + index_of keys key" using index_of_nth by metis
qed

lemma part_find_spec:
  assumes kp: "keyed_part p c"
  shows "map_option fst (part_find p key (hash_key key FP_SEED) st) =
    Some (if key \<in> set (part_lanes p c) then Some (index_of (part_lanes p c) key) else None)"
proof -
  let ?k = "partition_point (\<lambda>fk. fk \<le> key) (pt_first_keys p)"
  obtain b perm where bt: "built b perm (Some c) (Some c) p" using kp by (auto simp: keyed_part_def)
  note w = built_part [OF bt] and fk = keyed_first_keys [OF kp]
  have loc: "locate_granule p key = Some (if ?k = 0 then None else Some (?k - 1))"
    using locate_granule_search [OF w(7) refl fk(3,4), of key] kp fk(1) by (simp add: Let_def keyed_part_def)
  show ?thesis
  proof (cases "key > pt_max p \<or> ?k = 0")
    case True
    have "key \<notin> set (part_lanes p c)"
    proof
      assume m: "key \<in> set (part_lanes p c)"
      then have "key \<le> pt_max p" by (rule keyed_max [OF kp])
      moreover from m have "0 < ?k" using keyed_only_granule(1) [OF kp] unfolding in_part_lanes by blast
      ultimately show False using True by auto
    qed
    with True loc w(3) show ?thesis by (auto simp: part_find_def)
  next
    case False
    let ?gi = "?k - 1"
    have gi: "?gi < length (pt_granules p)"
      using False partition_point_le [of "\<lambda>fk. fk \<le> key" "pt_first_keys p"] fk(1) by linarith
    have mem: "key \<in> set (part_lanes p c) \<longleftrightarrow> key \<in> set (granule_lanes (pt_granules p ! ?gi) c)"
      using keyed_only_granule(2) [OF kp] gi unfolding in_part_lanes by blast
    note pr = keyed_granule_probe [OF kp gi, of key]
    then obtain st' where "find_key (pt_granules p ! ?gi) c key (hash_key key FP_SEED) st =
        Some (if key \<in> set (granule_lanes (pt_granules p ! ?gi) c)
          then Some (index_of (granule_lanes (pt_granules p ! ?gi) c) key) else None, st')" by auto
    with mem False loc gi w(3) pr(2,3) show ?thesis by (auto simp: part_find_def at_def)
  qed
qed

section \<open>Live rows\<close>

definition deleted_row :: "deletes option \<Rightarrow> nat \<Rightarrow> bool" where
  "deleted_row del row = (case del of None \<Rightarrow> False | Some d \<Rightarrow> deletes_get d row)"

definition mask_ok :: "deletes option \<Rightarrow> bool" where
  "mask_ok del = (case del of None \<Rightarrow> True | Some d \<Rightarrow> deletes_ok d)"

lemma clean_granule:
  assumes "mask_ok del" "\<forall>d. del = Some d \<longrightarrow> granule_deleted d gi = 0" "row div GRANULE_SIZE = gi"
  shows "\<not> deleted_row del row"
  using assms granule_clean [of _ gi row] by (auto simp: mask_ok_def deleted_row_def granule_span_iff split: option.splits)

lemma upt_split: "i \<le> j \<Longrightarrow> j \<le> k \<Longrightarrow> [i..<j] @ [j..<k] = [i..<(k :: nat)]"
  by (metis upt_add_eq_append le_add_diff_inverse)

lemma map_enumerate: "map f (enumerate 0 xs) = map (\<lambda>i. f (i, xs ! i)) [0..<length xs]"
  by (intro nth_equalityI) (simp_all add: nth_enumerate_eq)

lemma upt_blocks: "concat (map (\<lambda>gi. [gi * m..<min ((gi + 1) * m) n]) [0..<k]) = [0..<min (k * m) n]"
proof (induction k)
  case (Suc k)
  have "[0..<min (k * m) n] @ [k * m..<min (m + k * m) n] = [0..<min (m + k * m) n]"
    using upt_split [of 0 "k * m" "min (m + k * m) n"] by (cases "k * m \<le> n") (auto simp: min_def)
  with Suc show ?case by simp
qed simp

lemma live_positions_spec:
  assumes "part_wf p" "mask_ok del"
  shows "live_positions_into p del = filter (\<lambda>row. \<not> deleted_row del row) [0..<pt_n_rows p]"
proof -
  let ?gs = "pt_granules p" and ?n = "pt_n_rows p"
  let ?span = "\<lambda>gi. [gi * GRANULE_SIZE..<min ((gi + 1) * GRANULE_SIZE) ?n]"
  have one: "(let bas = gi * 2 ^ G_SHIFT in case del of
        Some d \<Rightarrow> if granule_deleted d gi \<noteq> 0 then filter (\<lambda>row. \<not> deletes_get d row) [bas..<bas + g_len (?gs ! gi)]
                  else [bas..<bas + g_len (?gs ! gi)]
      | None \<Rightarrow> [bas..<bas + g_len (?gs ! gi)]) = filter (\<lambda>row. \<not> deleted_row del row) (?span gi)"
    if gi: "gi < length ?gs" for gi
  proof -
    let ?x = "gi * GRANULE_SIZE"
    have "g_len (?gs ! gi) = min GRANULE_SIZE (?n - ?x)" "?x < ?n"
      using assms(1) gi granule_start_less [of gi ?n] by (simp_all add: part_wf_def)
    then have len: "?x + g_len (?gs ! gi) = min ((gi + 1) * GRANULE_SIZE) ?n" by simp
    have cl: "filter (\<lambda>row. \<not> deleted_row del row) (?span gi) = ?span gi" if "\<forall>d. del = Some d \<longrightarrow> granule_deleted d gi = 0"
    proof -
      have "row div GRANULE_SIZE = gi" if "row \<in> set (?span gi)" for row
        using that by (intro div_nat_eqI) (auto simp: mult.commute)
      then show ?thesis using clean_granule [OF assms(2) that] by (auto simp: filter_id_conv)
    qed
    show ?thesis unfolding shift_size Let_def len using cl by (cases del) (auto simp: deleted_row_def)
  qed
  have "live_positions_into p del = concat (map (\<lambda>gi. filter (\<lambda>row. \<not> deleted_row del row) (?span gi)) [0..<length ?gs])"
    unfolding live_positions_into_def map_enumerate prod.case
    by (intro arg_cong [where f = concat] map_cong refl one) simp
  also have "\<dots> = filter (\<lambda>row. \<not> deleted_row del row) (concat (map ?span [0..<length ?gs]))" by (simp add: filter_concat comp_def)
  also have "concat (map ?span [0..<length ?gs]) = [0..<min (length ?gs * GRANULE_SIZE) ?n]" by (rule upt_blocks)
  also have "min (length ?gs * GRANULE_SIZE) ?n = ?n" using assms(1) div_ceil_le [of GRANULE_SIZE ?n] by (simp add: part_wf_def)
  finally show ?thesis .
qed

lemma next_live_spec:
  assumes "part_wf p" "mask_ok del"
  shows "next_live p row del = find (\<lambda>r. \<not> deleted_row del r) [row..<pt_n_rows p]"
  using assms
proof (induction p row del rule: next_live.induct)
  case (1 p row del)
  let ?gi = "row div GRANULE_SIZE"
  show ?case
  proof (cases "row < pt_n_rows p")
    case True
    note g = granule_of_row [OF "1.prems"(1) True]
    have up: "[row..<pt_n_rows p] = row # [row + 1..<pt_n_rows p]" using True by (simp add: upt_rec)
    show ?thesis
    proof (cases "\<exists>d. del = Some d \<and> granule_deleted d ?gi \<noteq> 0")
      case True
      then obtain d where d: "del = Some d" "granule_deleted d ?gi \<noteq> 0" by blast
      have ih: "next_live p (row + 1) del = find (\<lambda>r. \<not> deleted_row del r) [row + 1..<pt_n_rows p]" if "deletes_get d row"
        using "1.IH"(2) [OF \<open>row < pt_n_rows p\<close> refl refl _ _ d(1)] "1.prems" g d that by simp
      show ?thesis
        using g d ih \<open>row < pt_n_rows p\<close> unfolding up by (subst next_live.simps) (simp add: Let_def deleted_row_def)
    next
      case False
      then have "\<not> deleted_row del row" using clean_granule [OF "1.prems"(2), of ?gi row] by auto
      moreover have "next_live p row del = Some row"
        using g False True by (subst next_live.simps) (auto simp: Let_def split: option.split)
      ultimately show ?thesis unfolding up by simp
    qed
  next
    case False
    then show ?thesis by (subst next_live.simps) simp
  qed
qed

lemma live_selection_spec:
  assumes "part_wf p" "mask_ok del" "gi < length (pt_granules p)"
  obtains sel where "live_selection_into p gi del = Some sel"
    "(case sel of None \<Rightarrow> [0..<g_len (pt_granules p ! gi)] | Some s \<Rightarrow> s)
      = filter (\<lambda>i. \<not> deleted_row del (gi * GRANULE_SIZE + i)) [0..<g_len (pt_granules p ! gi)]"
proof (cases "\<exists>d. del = Some d \<and> granule_deleted d gi \<noteq> 0")
  case True
  then show thesis using that assms(3) by (auto simp: live_selection_into_def deleted_row_def)
next
  case False
  have len: "g_len (pt_granules p ! gi) \<le> GRANULE_SIZE" using assms(1,3) by (simp add: part_wf_def)
  have "\<not> deleted_row del (gi * GRANULE_SIZE + i)" if "i < g_len (pt_granules p ! gi)" for i
  proof (rule clean_granule [OF assms(2)])
    show "(gi * GRANULE_SIZE + i) div GRANULE_SIZE = gi" using that len by simp
  qed (use False in auto)
  then have "filter (\<lambda>i. \<not> deleted_row del (gi * GRANULE_SIZE + i)) [0..<g_len (pt_granules p ! gi)] = [0..<g_len (pt_granules p ! gi)]"
    by (auto simp: filter_id_conv)
  moreover have "live_selection_into p gi del = Some None" using False by (auto simp: live_selection_into_def split: option.split)
  ultimately show thesis using that [of None] by simp
qed

section \<open>The bloom filter of a part\<close>

lemma foldl_foldl: "foldl (foldl f) a xss = foldl f a (concat xss)"
  by (induction xss arbitrary: a) auto

lemma ensure_filter_spec:
  assumes "pt_pk_col p = Some c" "pt_filter p = None" "\<forall>g \<in> set (pt_granules p). c < length (g_columns g)"
  obtains f p' where "ensure_filter p = Some (Some f, p')" "p' = p\<lparr>pt_filter := Some f\<rparr>"
    "\<And>k. k \<in> set (part_lanes p c) \<Longrightarrow> may_contain p' (hash_key k FP_SEED)"
proof -
  let ?f = "foldl filter_insert (filter_new (max (pt_n_rows p) 1)) (part_lanes p c)"
  have "those (map (\<lambda>g. granule_keys g c) gs) = Some (map (\<lambda>g. granule_lanes g c) gs)" if "\<forall>g \<in> set gs. c < length (g_columns g)" for gs
    using that by (induction gs) (simp_all add: granule_keys_def granule_lanes_def)
  then have "ensure_filter p = Some (Some ?f, p\<lparr>pt_filter := Some ?f\<rparr>)"
    using assms by (simp add: ensure_filter_def Let_def foldl_foldl part_lanes_def)
  moreover have "contains_hash ?f (hash_key k FP_SEED)" if "k \<in> set (part_lanes p c)" for k
    using bloom.no_false_negative [OF filter_wf_new that] by (simp add: filter_contains_def)
  ultimately show thesis using that by (simp add: may_contain_def)
qed


section \<open>The delete mask a part is born with\<close>

definition marks_ok :: "part \<Rightarrow> bool" where
  "marks_ok p \<longleftrightarrow> part_wf p \<and> pt_deleted_count p = card (bits_of (pt_deleted p)) \<and> bits_of (pt_deleted p) \<subseteq> {..<pt_n_rows p}"

lemma built_clean:
  assumes "built b perm sc pk p"
  shows "pt_deleted p = bitset_new" "pt_deleted_count p = 0"
proof -
  obtain n gs where "p = assemble n gs bitset_new 0 sc pk (block_width b)" using assms by (auto simp: built_def part_build_sel_def Let_def)
  then show "pt_deleted p = bitset_new" "pt_deleted_count p = 0" by (auto simp: assemble_def Let_def split: prod.splits)
qed

lemma built_marks: "built b perm sc pk p \<Longrightarrow> marks_ok p"
  using built_part(1) built_clean bitset.mem_empty by (fastforce simp: marks_ok_def bits_of_def)

lemma mark_deleted_ok:
  assumes "marks_ok p" "row < pt_n_rows p"
  shows "marks_ok (snd (mark_deleted p row))" "fst (mark_deleted p row) \<longleftrightarrow> row \<notin> bits_of (pt_deleted p)"
    "bits_of (pt_deleted (snd (mark_deleted p row))) = insert row (bits_of (pt_deleted p))"
proof -
  obtain fresh bits where b: "bitset_set (pt_deleted p) row = (fresh, bits)" by fastforce
  have fr: "fresh \<longleftrightarrow> row \<notin> bits_of (pt_deleted p)" using fst_bitset_set [of "pt_deleted p" row] b by simp
  have bs: "bits_of bits = insert row (bits_of (pt_deleted p))" using bitset_get_set [of "pt_deleted p" row] b by (auto simp: bits_of_def)
  show "fst (mark_deleted p row) \<longleftrightarrow> row \<notin> bits_of (pt_deleted p)" using fr b by (simp add: mark_deleted_def Let_def)
  show "bits_of (pt_deleted (snd (mark_deleted p row))) = insert row (bits_of (pt_deleted p))"
    using bs b by (simp add: mark_deleted_def Let_def)
  show "marks_ok (snd (mark_deleted p row))"
    using assms fr bs b by (auto simp: mark_deleted_def marks_ok_def part_wf_def insert_absorb)
qed

lemma born_deletes_ok:
  assumes "marks_ok p"
  shows "mask_ok (born_deletes p)" "deleted_row (born_deletes p) row \<longleftrightarrow> row \<in> bits_of (pt_deleted p)"
proof -
  have "pt_n_rows p \<le> length (pt_granules p) * GRANULE_SIZE"
    using assms div_ceil_le [of GRANULE_SIZE "pt_n_rows p"] by (simp add: marks_ok_def part_wf_def)
  then have "bits_of (pt_deleted p) \<subseteq> {..<length (pt_granules p) * GRANULE_SIZE}" using assms by (force simp: marks_ok_def)
  then show "mask_ok (born_deletes p)" using assms deletes_new_ok by (simp add: mask_ok_def born_deletes_def marks_ok_def)
  show "deleted_row (born_deletes p) row \<longleftrightarrow> row \<in> bits_of (pt_deleted p)"
  proof (cases "pt_deleted_count p = 0")
    case True
    with assms have "bits_of (pt_deleted p) = {}" by (simp add: marks_ok_def)
    with True show ?thesis by (simp add: deleted_row_def born_deletes_def)
  qed (simp add: deleted_row_def born_deletes_def deletes_get_def deletes_new_def)
qed

lemma length_filter_upt: "length (filter P [0..<n]) = card {i. i < n \<and> P i}"
  unfolding length_filter_conv_card by (rule arg_cong [where f = card]) auto

lemma born_live_count:
  assumes "marks_ok p"
  shows "length (live_positions p) = born_live_rows p"
proof -
  let ?D = "bits_of (pt_deleted p)"
  have "{i. i < pt_n_rows p \<and> i \<notin> ?D} = {..<pt_n_rows p} - ?D" by auto
  then have "length (live_positions p) = card ({..<pt_n_rows p} - ?D)"
    using assms live_positions_spec [OF _ born_deletes_ok(1) [OF assms]] born_deletes_ok(2) [OF assms]
    by (simp add: live_positions_def length_filter_upt marks_ok_def)
  also have "\<dots> = pt_n_rows p - card ?D" using assms by (simp add: card_Diff_subset marks_ok_def)
  finally show ?thesis using assms by (simp add: born_live_rows_def marks_ok_def)
qed

section \<open>Agreement of the walks\<close>

lemma find_after: "find P [k..<n] = find (\<lambda>r. k \<le> r) (filter P [0..<n])"
proof (cases "k \<le> n")
  case True
  have "find Q (filter P xs @ ys) = find Q ys" if "\<forall>x \<in> set xs. \<not> Q x" for Q and xs ys :: "nat list"
    using that by (induction xs) auto
  then have "find (\<lambda>r. k \<le> r) (filter P [0..<k] @ ys) = find (\<lambda>r. k \<le> r) ys" for ys by simp
  moreover have "find (\<lambda>r. k \<le> r) (filter P xs) = find P xs" if "\<forall>x \<in> set xs. k \<le> x" for xs
    using that by (induction xs) auto
  ultimately show ?thesis using upt_split [of 0 k n] True by (metis atLeastLessThan_upt atLeastLessThan_iff filter_append le0)
next
  case False
  then have "find (\<lambda>r. k \<le> r) (filter P [0..<n]) = None" by (auto simp: find_None_iff)
  with False show ?thesis by simp
qed

lemma granule_rows_of:
  assumes "part_wf p" "gi < length (pt_granules p)"
  shows "filter (\<lambda>r. r div GRANULE_SIZE = gi) [0..<pt_n_rows p] = map ((+) (gi * GRANULE_SIZE)) [0..<g_len (pt_granules p ! gi)]"
proof -
  let ?x = "gi * GRANULE_SIZE" and ?n = "pt_n_rows p"
  let ?e = "?x + g_len (pt_granules p ! gi)"
  have len: "g_len (pt_granules p ! gi) = min GRANULE_SIZE (?n - ?x)" "?x < ?n"
    using assms granule_start_less [of gi ?n] by (simp_all add: part_wf_def)
  then have e: "?e = min (?x + GRANULE_SIZE) ?n" by simp
  have div: "r div GRANULE_SIZE = gi \<longleftrightarrow> ?x \<le> r \<and> r < ?x + GRANULE_SIZE" for r
    by (auto simp: GRANULE_SIZE_def)
  have "[0..<?n] = [0..<?x] @ [?x..<?e] @ [?e..<?n]" using upt_split [of 0 ?x ?e] upt_split [of 0 ?e ?n] e by (metis append.assoc le0 le_add1 min.cobounded2)
  moreover have "filter (\<lambda>r. r div GRANULE_SIZE = gi) [0..<?x] = []" by (auto simp: div filter_empty_conv)
  moreover have "filter (\<lambda>r. r div GRANULE_SIZE = gi) [?x..<?e] = [?x..<?e]" using e by (auto simp: div filter_id_conv)
  moreover have "filter (\<lambda>r. r div GRANULE_SIZE = gi) [?e..<?n] = []" using e by (auto simp: div filter_empty_conv)
  ultimately have "filter (\<lambda>r. r div GRANULE_SIZE = gi) [0..<?n] = [?x..<?e]" by simp
  also have "\<dots> = map ((+) ?x) [0..<g_len (pt_granules p ! gi)]" by (intro nth_equalityI) simp_all
  finally show ?thesis .
qed

lemma live_selection_rows:
  assumes "part_wf p" "mask_ok del" "gi < length (pt_granules p)"
  shows "\<exists>sel. live_selection_into p gi del = Some sel \<and>
    map ((+) (gi * GRANULE_SIZE)) (case sel of None \<Rightarrow> [0..<g_len (pt_granules p ! gi)] | Some s \<Rightarrow> s)
      = filter (\<lambda>r. r div GRANULE_SIZE = gi) (live_positions_into p del)"
proof -
  obtain sel where sel: "live_selection_into p gi del = Some sel"
    "(case sel of None \<Rightarrow> [0..<g_len (pt_granules p ! gi)] | Some s \<Rightarrow> s)
      = filter (\<lambda>i. \<not> deleted_row del (gi * GRANULE_SIZE + i)) [0..<g_len (pt_granules p ! gi)]"
    using live_selection_spec [OF assms] .
  have "filter (\<lambda>r. r div GRANULE_SIZE = gi) (live_positions_into p del)
      = filter (\<lambda>r. \<not> deleted_row del r) (filter (\<lambda>r. r div GRANULE_SIZE = gi) [0..<pt_n_rows p])"
    unfolding live_positions_spec [OF assms(1,2)] filter_filter by (simp add: conj_commute)
  also have "\<dots> = map ((+) (gi * GRANULE_SIZE)) (filter (\<lambda>i. \<not> deleted_row del (gi * GRANULE_SIZE + i)) [0..<g_len (pt_granules p ! gi)])"
    unfolding granule_rows_of [OF assms(1,3)] by (simp add: filter_map comp_def)
  finally show ?thesis using sel by simp
qed

lemma sort_lane_at_spec:
  assumes "keyed_part p c" "row < pt_n_rows p"
  shows "sort_lane_at p row = Some (part_lanes p c ! row)"
proof -
  obtain b perm where bt: "built b perm (Some c) (Some c) p" using assms(1) by (auto simp: keyed_part_def)
  note g = granule_of_row [OF keyed_wf [OF assms(1)] assms(2)]
  have "c < length (g_columns (pt_granules p ! (row div GRANULE_SIZE)))" using assms(1) g by (simp add: keyed_part_def)
  moreover have "part_lanes p c ! row = granule_lanes (pt_granules p ! (row div GRANULE_SIZE)) c ! (row mod GRANULE_SIZE)"
    using part_lanes_nth [OF keyed_wf [OF assms(1)], of "row div GRANULE_SIZE" "row mod GRANULE_SIZE" c] g by simp
  ultimately show ?thesis using g built_part(2) [OF bt] by (simp add: sort_lane_at_def at_def granule_lanes_def)
qed

section \<open>Properties\<close>

text \<open>C10: A point lookup in a part is exact. In a part built with its key column strictly ascending, the route to a granule, the probe of
  the granule and the position arithmetic together return the row of the key when the part has it and nothing
  otherwise; \<open>find_live\<close> returns it unless the mask hides that row; a row of the part shows its own key to the merge
  that reads \<open>sort_lane_at\<close>; and the bloom filter, once built, never denies a key the part holds.\<close>

theorem part_lookup_exact:
  assumes "keyed_part p c"
  shows "map_option fst (part_find p key (hash_key key FP_SEED) st) =
      Some (if key \<in> set (part_lanes p c) then Some (index_of (part_lanes p c) key) else None)
    \<and> map_option fst (find_live p key (hash_key key FP_SEED) st del) =
      Some (if key \<in> set (part_lanes p c) \<and> \<not> deleted_row del (index_of (part_lanes p c) key)
            then Some (index_of (part_lanes p c) key) else None)
    \<and> (row < pt_n_rows p \<longrightarrow> sort_lane_at p row = Some (part_lanes p c ! row))
    \<and> (\<exists>f p'. ensure_filter p = Some (Some f, p') \<and> (key \<in> set (part_lanes p c) \<longrightarrow> may_contain p' (hash_key key FP_SEED)))"
proof (intro conjI)
  show find: "map_option fst (part_find p key (hash_key key FP_SEED) st) =
      Some (if key \<in> set (part_lanes p c) then Some (index_of (part_lanes p c) key) else None)"
    by (rule part_find_spec [OF assms])
  then obtain st' where "part_find p key (hash_key key FP_SEED) st =
      Some (if key \<in> set (part_lanes p c) then Some (index_of (part_lanes p c) key) else None, st')" by auto
  then show "map_option fst (find_live p key (hash_key key FP_SEED) st del) =
      Some (if key \<in> set (part_lanes p c) \<and> \<not> deleted_row del (index_of (part_lanes p c) key)
            then Some (index_of (part_lanes p c) key) else None)"
    by (simp add: find_live_def deleted_row_def split: option.split)
  show "row < pt_n_rows p \<longrightarrow> sort_lane_at p row = Some (part_lanes p c ! row)" using sort_lane_at_spec [OF assms] by blast
  obtain b perm where bt: "built b perm (Some c) (Some c) p" using assms by (auto simp: keyed_part_def)
  have cols: "\<forall>g \<in> set (pt_granules p). c < length (g_columns g)" using assms by (simp add: keyed_part_def)
  show "\<exists>f p'. ensure_filter p = Some (Some f, p') \<and> (key \<in> set (part_lanes p c) \<longrightarrow> may_contain p' (hash_key key FP_SEED))"
    using ensure_filter_spec [OF built_part(3,6) [OF bt] cols] by metis
qed

text \<open>The three walks over live rows agree. For every delete mask with true counts, \<open>live_positions_into\<close> lists exactly the rows
  that are not deleted, in order; \<open>next_live\<close> returns the first of them at or after its argument; and the
  selections of the granules, shifted to part positions, are its pieces. The mask a part is born with is such a
  mask, also after more rows are marked, and \<open>born_live_rows\<close> counts what it leaves.\<close>

theorem live_walks_agree:
  assumes "marks_ok p" "mask_ok del"
  shows "live_positions_into p del = filter (\<lambda>row. \<not> deleted_row del row) [0..<pt_n_rows p]
    \<and> next_live p row del = find (\<lambda>r. row \<le> r) (live_positions_into p del)
    \<and> (gi < length (pt_granules p) \<longrightarrow> (\<exists>sel. live_selection_into p gi del = Some sel \<and>
        map ((+) (gi * GRANULE_SIZE)) (case sel of None \<Rightarrow> [0..<g_len (pt_granules p ! gi)] | Some s \<Rightarrow> s)
          = filter (\<lambda>r. r div GRANULE_SIZE = gi) (live_positions_into p del)))
    \<and> mask_ok (born_deletes p) \<and> length (live_positions p) = born_live_rows p
    \<and> (row < pt_n_rows p \<longrightarrow> marks_ok (snd (mark_deleted p row)) \<and>
        (deleted_row (born_deletes (snd (mark_deleted p row))) r \<longleftrightarrow> r = row \<or> deleted_row (born_deletes p) r))"
proof -
  have wf: "part_wf p" using assms(1) by (simp add: marks_ok_def)
  have "deleted_row (born_deletes (snd (mark_deleted p row))) r \<longleftrightarrow> r = row \<or> deleted_row (born_deletes p) r" if "row < pt_n_rows p"
    unfolding born_deletes_ok(2) [OF mark_deleted_ok(1) [OF assms(1) that]] born_deletes_ok(2) [OF assms(1)]
      mark_deleted_ok(3) [OF assms(1) that] by simp
  then show ?thesis
    using live_positions_spec [OF wf assms(2)] next_live_spec [OF wf assms(2)] find_after live_selection_rows [OF wf assms(2)]
      born_deletes_ok(1) [OF assms(1)] born_live_count [OF assms(1)] mark_deleted_ok(1) [OF assms(1)] by simp
qed

text \<open>C37: A part holds the rows it was built from. However many threads build the granules the part is the same; a cell is the
  cell of the block's row that the permutation names, up to the canonical form of doubles; and a projected read,
  of a whole granule or of a selection of its rows, is a block of exactly those cells with the columns' types.\<close>

theorem part_holds_rows:
  assumes "part_build_sel avail b perm sc pk = Some p"
  shows "part_build_sel avail' b perm sc pk = Some p
    \<and> (gathers b perm p k \<and> row < pt_n_rows p \<longrightarrow>
        part_value_at p row k = Some (canon_cell (cells (blk_columns b ! k) ! source_row perm row)))
    \<and> (gi < length (pt_granules p) \<and> cols \<noteq> [] \<and> (\<forall>k \<in> set cols. gathers b perm p k) \<and> (\<forall>i \<in> set rows. i < g_len (pt_granules p ! gi))
        \<and> (sel = Some rows \<or> sel = None \<and> rows = [0..<g_len (pt_granules p ! gi)]) \<longrightarrow>
        (\<exists>blk. read_columns p gi cols sel = Some (Inr blk) \<and> block_holds blk (map (\<lambda>k. col_ty (blk_columns b ! k)) cols)
          (map (\<lambda>i. map (\<lambda>k. canon_cell (cells (blk_columns b ! k) ! source_row perm (gi * GRANULE_SIZE + i))) cols) rows)))"
proof -
  have bt: "built b perm sc pk p" using assms by (auto simp: built_def)
  have "part_build_sel avail' b perm sc pk = Some p" using assms by (simp add: part_build_sel_def build_granules_sequential)
  then show ?thesis using part_cells [OF bt] read_columns_spec [OF bt] by blast
qed

subsection \<open>A part of two rows\<close>

lemma two_rows_part:
  "\<exists>p. part_build_sel 1 two_rows None (Some 0) (Some 0) = Some p \<and> keyed_part p 0 \<and> part_lanes p 0 = [10, 500] \<and> pt_n_rows p = 2
    \<and> gathers two_rows None p 0 \<and> length (pt_granules p) = 1"
proof -
  obtain g where g: "build_sel two_rows 0 2 None (Some 0) (Some 0) = Some g" "g_len g = 2" "length (g_columns g) = 1"
    "map (pc_lane (g_columns g ! 0)) [0..<2] = [10, 500]" using two_rows_granule by auto
  have n: "blk_rows two_rows = 2" "div_ceil 2 GRANULE_SIZE = 1" by (simp_all add: two_rows_def div_ceil_def GRANULE_SIZE_def)
  have "granule_ranges 2 = [(0, 2)]" unfolding granule_ranges_def n(2) by (simp add: GRANULE_SIZE_def)
  with g(1) have b: "part_build_sel 1 two_rows None (Some 0) (Some 0) = Some (assemble 2 [g] bitset_new 0 (Some 0) (Some 0) 1)"
    by (simp add: part_build_sel_def n build_granules_sequential block_width_def two_rows_def)
  define p where "p = assemble 2 [g] bitset_new 0 (Some 0) (Some 0) 1"
  have f: "pt_granules p = [g]" "pt_n_rows p = 2" by (auto simp: p_def assemble_def Let_def split: prod.splits)
  have l: "part_lanes p 0 = [10, 500]" using f(1) g(2,4) by (simp add: part_lanes_def granule_lanes_def)
  have bt: "built two_rows None (Some 0) (Some 0) p" using b by (auto simp: built_def p_def)
  then have "keyed_part p 0" using f l g(3) by (auto simp: keyed_part_def)
  moreover have "gathers two_rows None p 0"
    using f two_rows_column by (simp add: gathers_def gatherable_def represents_def row_ids_def GRANULE_SIZE_def two_rows_def col_new_def col_len_def cd_len_def)
  ultimately show ?thesis using b l f by (simp add: p_def)
qed

theorem part_lookup_exact_witness:
  "\<exists>p. part_build_sel 1 two_rows None (Some 0) (Some 0) = Some p \<and>
    map_option fst (part_find p 500 (hash_key 500 FP_SEED)
      \<lparr>bloom_negative = 0, fingerprint_negative = 0, zone_pruned_point = 0, zone_pruned_scan = 0, granules_scanned = 0,
       mph_probes = 0, false_probe = 0, rows_scanned = 0\<rparr>) = Some (Some 1) \<and> sort_lane_at p 1 = Some 500"
proof -
  obtain p where p: "part_build_sel 1 two_rows None (Some 0) (Some 0) = Some p" "keyed_part p 0" "part_lanes p 0 = [10, 500]" "pt_n_rows p = 2"
    using two_rows_part by blast
  have i: "index_of [10, 500 :: u64] 500 = 1" by (simp add: index_of_def)
  have "map_option fst (part_find p 500 (hash_key 500 FP_SEED) st) = Some (Some 1) \<and> sort_lane_at p 1 = Some 500" for st
    using part_lookup_exact [OF p(2), where key = 500 and st = st and row = 1] unfolding p(3,4) i by simp
  with p(1) show ?thesis by blast
qed

theorem live_walks_agree_witness:
  "\<exists>p. part_build_sel 1 two_rows None (Some 0) (Some 0) = Some p \<and> live_positions_into p None = [0, 1] \<and> next_live p 1 None = Some 1"
proof -
  obtain p where p: "part_build_sel 1 two_rows None (Some 0) (Some 0) = Some p" "pt_n_rows p = 2" using two_rows_part by blast
  then have "marks_ok p" by (intro built_marks [of two_rows None "Some 0" "Some 0"]) (auto simp: built_def)
  moreover have "mask_ok None" by (simp add: mask_ok_def)
  ultimately have "live_positions_into p None = filter (\<lambda>row. \<not> deleted_row None row) [0..<2] \<and> next_live p 1 None = find (\<lambda>r. 1 \<le> r) (live_positions_into p None)"
    using live_walks_agree [of p None 1] p(2) by simp
  with p(1) show ?thesis by (auto simp: deleted_row_def upt_rec)
qed

theorem part_holds_rows_witness:
  "\<exists>p. part_build_sel 1 two_rows None (Some 0) (Some 0) = Some p \<and> part_build_sel 64 two_rows None (Some 0) (Some 0) = Some p
    \<and> part_value_at p 1 0 = Some (VUInt 500)"
proof -
  obtain p where p: "part_build_sel 1 two_rows None (Some 0) (Some 0) = Some p" "pt_n_rows p = 2" "gathers two_rows None p 0"
    using two_rows_part by blast
  have "cells (blk_columns two_rows ! 0) = [VUInt 10, VUInt 500]" using two_rows_column by (simp add: two_rows_def represents_def)
  with part_holds_rows [OF p(1), of 64 0 1] p show ?thesis by (auto simp: source_row_def)
qed
end
