(* ===== verification/Part_Set.thy ===== *)
theory Part_Set
  imports Part
begin

text \<open>
  Part sets, \<^verbatim>\<open>PartSet\<close> and \<^verbatim>\<open>gather_rows\<close> of \<^verbatim>\<open>src/storage/part.rs\<close>: the published parts of a table with the delete mask and
  the file provenance of each, and the counter the durable identities come from. Operations are functions on the
  record; what a table does to its set over time is the step relation \<open>set_step\<close>. Shown: the parallel vectors stay
  aligned, identities stay distinct and masks stay true through every step; an identity is never reissued, so a
  citation \<open>(pid, row)\<close> of the log keeps naming the same rows; and rows gathered from several parts are the
  cells of those parts. A snapshot is a value of the record. An index out of range, and a subtraction that would overflow, is \<open>None\<close>; the identity counter wraps.
\<close>

section \<open>Definitions\<close>

record part_set =
  ps_parts :: "part list"
  ps_deletes :: "deletes option list"
  ps_origins :: "u64 list"
  ps_next_pid :: u64
  ps_version :: u64

definition ps_default :: part_set where
  "ps_default = \<lparr>ps_parts = [], ps_deletes = [], ps_origins = [], ps_next_pid = 1, ps_version = 0\<rparr>"

definition ps_push :: "part_set \<Rightarrow> part \<Rightarrow> part_set" where
  "ps_push s p =
     (let p = (if pt_pid p = 0 then p\<lparr>pt_pid := ps_next_pid s\<rparr> else p);
          next = max (ps_next_pid s) (pt_pid p + 1);
          del = (if pt_deleted_count p > 0
                 then Some (deletes_new (pt_deleted p) (pt_deleted_count p) (length (pt_granules p))) else None);
          p = (if pt_deleted_count p > 0 then p\<lparr>pt_deleted := bitset_new, pt_deleted_count := 0\<rparr> else p)
      in s\<lparr>ps_parts := ps_parts s @ [p\<lparr>pt_origin := NO_FILE\<rparr>], ps_deletes := ps_deletes s @ [del],
           ps_origins := ps_origins s @ [pt_origin p], ps_next_pid := next\<rparr>)"

definition ps_adopt :: "part list \<Rightarrow> part_set" where
  "ps_adopt ps = foldl ps_push (ps_default\<lparr>ps_next_pid := 1 + fold max (map pt_pid ps) 0\<rparr>) ps"

definition ps_seed_pids :: "part_set \<Rightarrow> u64 \<Rightarrow> part_set" where
  "ps_seed_pids s floor =
     (if ps_parts s = [] then s\<lparr>ps_next_pid := max (ps_next_pid s) (if floor = - 1 then - 1 else floor + 1)\<rparr> else s)"

definition remove_at :: "nat \<Rightarrow> 'a list \<Rightarrow> 'a list" where
  "remove_at i xs = take i xs @ drop (Suc i) xs"

definition ps_remove :: "part_set \<Rightarrow> nat \<Rightarrow> (part \<times> part_set) option" where
  "ps_remove s i =
     (if i < length (ps_deletes s) \<and> i < length (ps_origins s) \<and> i < length (ps_parts s)
      then Some (ps_parts s ! i,
        s\<lparr>ps_deletes := remove_at i (ps_deletes s), ps_origins := remove_at i (ps_origins s), ps_parts := remove_at i (ps_parts s)\<rparr>)
      else None)"

definition ps_bump :: "part_set \<Rightarrow> part_set" where
  "ps_bump s = s\<lparr>ps_version := ps_version s + 1\<rparr>"

definition ps_origin :: "part_set \<Rightarrow> nat \<Rightarrow> u64 option" where
  "ps_origin s i = map_option (\<lambda>x. x AND NOT HOMED) (at (ps_origins s) i)"

text \<open>The outer \<open>None\<close> is the index out of range.\<close>

definition ps_citable :: "part_set \<Rightarrow> nat \<Rightarrow> u64 option option" where
  "ps_citable s i = Option.bind (at (ps_origins s) i) (\<lambda>x.
     if x AND HOMED \<noteq> 0 then map_option (\<lambda>p. Some (pt_pid p)) (at (ps_parts s) i) else Some None)"

definition ps_index_of :: "part_set \<Rightarrow> u64 \<Rightarrow> nat option" where
  "ps_index_of s pid = find (\<lambda>i. ps_citable s i = Some (Some pid)) [0..<length (ps_parts s)]"

definition ps_set_origin :: "part_set \<Rightarrow> nat \<Rightarrow> u64 \<Rightarrow> part_set option" where
  "ps_set_origin s i seq = (if i < length (ps_origins s) then Some (s\<lparr>ps_origins := (ps_origins s)[i := HOMED OR seq]\<rparr>) else None)"

definition ps_live_rows_of :: "part_set \<Rightarrow> nat \<Rightarrow> nat option" where
  "ps_live_rows_of s i = Option.bind (at (ps_parts s) i) (\<lambda>p. Option.bind (at (ps_deletes s) i) (\<lambda>del.
     let dead = (case del of None \<Rightarrow> 0 | Some d \<Rightarrow> dl_count d)
     in if dead \<le> pt_n_rows p then Some (pt_n_rows p - dead) else None))"

definition ps_live_rows :: "part_set \<Rightarrow> nat option" where
  "ps_live_rows s = map_option sum_list (those (map (ps_live_rows_of s) [0..<length (ps_parts s)]))"

definition ps_delete_bytes :: "part_set \<Rightarrow> nat" where
  "ps_delete_bytes s = sum_list (map deletes_bytes (map the (filter (\<lambda>d. d \<noteq> None) (ps_deletes s))))"

definition ps_tombstone :: "part_set \<Rightarrow> nat \<Rightarrow> nat \<Rightarrow> (bool \<times> part_set) option" where
  "ps_tombstone s i row = Option.bind (at (ps_parts s) i) (\<lambda>p. Option.bind (at (ps_deletes s) i) (\<lambda>slot.
     let d = (case slot of Some d \<Rightarrow> d | None \<Rightarrow> deletes_empty (length (pt_granules p)));
         (fresh, d) = deletes_set d row;
         s = s\<lparr>ps_deletes := (ps_deletes s)[i := Some d]\<rparr>
     in if \<not> fresh then Some (False, s)
        else map_option (\<lambda>x. (True, s\<lparr>ps_origins := (ps_origins s)[i := x AND HOMED]\<rparr>)) (at (ps_origins s) i)))"

subsection \<open>Gathering rows of several parts\<close>

fun gather_column ::
  "float_text \<Rightarrow> part list \<Rightarrow> (u32 \<times> u32) list \<Rightarrow> nat \<Rightarrow> column_builder \<Rightarrow> column_builder result option" where
  "gather_column ft ps [] c b = Some (Inr b)"
| "gather_column ft ps ((pi, row) # order) c b = Option.bind (at ps (unat pi)) (\<lambda>p.
     Option.bind (part_value_at p (unat row) c) (\<lambda>v.
       case builder_push_value ft b v of Inl e \<Rightarrow> Some (Inl e) | Inr b \<Rightarrow> gather_column ft ps order c b))"

fun gather_columns ::
  "float_text \<Rightarrow> part list \<Rightarrow> (u32 \<times> u32) list \<Rightarrow> nat \<Rightarrow> data_type list \<Rightarrow> column list result option" where
  "gather_columns ft ps order c [] = Some (Inr [])"
| "gather_columns ft ps order c (ty # tys) = Option.bind (gather_column ft ps order c (builder_new ty)) (\<lambda>r.
     case r of Inl e \<Rightarrow> Some (Inl e)
     | Inr b \<Rightarrow> map_option (\<lambda>r. rbind r (\<lambda>cs. Inr (builder_finish b # cs))) (gather_columns ft ps order (Suc c) tys))"

text \<open>The schema enters through its column types.\<close>

definition gather_rows :: "float_text \<Rightarrow> part list \<Rightarrow> (u32 \<times> u32) list \<Rightarrow> data_type list \<Rightarrow> block result option" where
  "gather_rows ft ps order tys = map_option (\<lambda>r. rbind r block_new) (gather_columns ft ps order 0 tys)"

section \<open>Well-formed sets\<close>

definition entry_ok :: "part \<Rightarrow> deletes option \<Rightarrow> bool" where
  "entry_ok p del \<longleftrightarrow> part_wf p \<and> pt_deleted_count p = 0 \<and> pt_origin p = NO_FILE \<and> mask_ok del
     \<and> (\<forall>row. deleted_row del row \<longrightarrow> row < pt_n_rows p)"

definition ps_ok :: "part_set \<Rightarrow> bool" where
  "ps_ok s \<longleftrightarrow> list_all2 entry_ok (ps_parts s) (ps_deletes s) \<and> length (ps_origins s) = length (ps_parts s)
     \<and> distinct (map pt_pid (ps_parts s)) \<and> (\<forall>p \<in> set (ps_parts s). pt_pid p \<noteq> 0 \<and> pt_pid p < ps_next_pid s) \<and> ps_next_pid s \<noteq> 0"

lemma remove_at_subset: "set (remove_at i xs) \<subseteq> set xs"
  by (auto simp: remove_at_def dest: in_set_takeD in_set_dropD)

lemma length_remove_at [simp]: "i < length xs \<Longrightarrow> length (remove_at i xs) = length xs - 1"
  by (simp add: remove_at_def)

lemma remove_at_nth: "j < length xs - 1 \<Longrightarrow> i < length xs \<Longrightarrow> remove_at i xs ! j = xs ! (if j < i then j else Suc j)"
  by (auto simp: remove_at_def nth_append min_def)

lemma distinct_remove_at: "distinct xs \<Longrightarrow> distinct (remove_at i xs)"
  unfolding remove_at_def by (simp add: distinct_append set_take_disj_set_drop_if_distinct)

lemma list_all2_remove_at: "list_all2 P xs ys \<Longrightarrow> list_all2 P (remove_at i xs) (remove_at i ys)"
  unfolding remove_at_def by (intro list_all2_appendI list_all2_takeI list_all2_dropI)

lemma map_remove_at: "map f (remove_at i xs) = remove_at i (map f xs)"
  by (simp add: remove_at_def take_map drop_map)

lemma word_less_inc:
  assumes "x \<noteq> - 1"
  shows "x < x + (1 :: u64)"
proof -
  have "x < - 1" using assms by (simp add: word_order.not_eq_extremum)
  then have "unat x < 2 ^ 64 - 1" using unat_mono [of x "- 1"] by (simp add: unsigned_minus_1_eq_mask mask_eq_exp_minus_1)
  then show ?thesis by (simp add: word_less_nat_alt unat_add_lem [THEN iffD1])
qed

subsection \<open>One operation\<close>

text \<open>What a pushed part becomes, and that the entry is right.\<close>

definition minted :: "part_set \<Rightarrow> part \<Rightarrow> u64" where
  "minted s p = (if pt_pid p = 0 then ps_next_pid s else pt_pid p)"

definition published :: "part_set \<Rightarrow> part \<Rightarrow> part" where
  "published s p = p\<lparr>pt_pid := minted s p, pt_deleted := (if pt_deleted_count p > 0 then bitset_new else pt_deleted p),
     pt_deleted_count := 0, pt_origin := NO_FILE\<rparr>"

lemma ps_push_eq:
  "ps_push s p = s\<lparr>ps_parts := ps_parts s @ [published s p], ps_deletes := ps_deletes s @ [born_deletes p],
    ps_origins := ps_origins s @ [pt_origin p], ps_next_pid := max (ps_next_pid s) (minted s p + 1)\<rparr>"
  by (simp add: ps_push_def published_def minted_def born_deletes_def Let_def)

lemma published_entry:
  assumes "marks_ok p"
  shows "entry_ok (published s p) (born_deletes p)"
  using assms born_deletes_ok [OF assms] by (auto simp: entry_ok_def published_def marks_ok_def part_wf_def)

lemma ps_push_ok:
  assumes "ps_ok s" "marks_ok p" "minted s p \<noteq> - 1" "pt_pid p \<notin> pt_pid ` set (ps_parts s)"
  shows "ps_ok (ps_push s p)"
proof -
  have m: "minted s p \<noteq> 0" "minted s p \<notin> pt_pid ` set (ps_parts s)" using assms(1,4) by (auto simp: ps_ok_def minted_def)
  moreover have "minted s p < max (ps_next_pid s) (minted s p + 1)" using word_less_inc [OF assms(3)] by (simp add: less_max_iff_disj)
  moreover have "pt_pid (published s p) = minted s p" by (simp add: published_def)
  moreover have "max (ps_next_pid s) (minted s p + 1) \<noteq> 0" using calculation(3) by auto
  ultimately show ?thesis using assms(1) published_entry [OF assms(2), of s]
    by (auto simp: ps_push_eq ps_ok_def list_all2_appendI less_max_iff_disj)
qed

lemma ps_remove_ok: "ps_ok s \<Longrightarrow> ps_remove s i = Some (p, s') \<Longrightarrow> ps_ok s'"
  using remove_at_subset [of i "ps_parts s"]
  by (auto simp: ps_remove_def ps_ok_def list_all2_remove_at distinct_remove_at map_remove_at split: if_splits)

lemma ps_seed_ok: "ps_ok s \<Longrightarrow> ps_ok (ps_seed_pids s floor)"
  by (auto simp: ps_seed_pids_def ps_ok_def max_def)

lemma ps_entry: "ps_ok s \<Longrightarrow> i < length (ps_parts s) \<Longrightarrow> i < length (ps_deletes s) \<and> entry_ok (ps_parts s ! i) (ps_deletes s ! i)"
  by (auto simp: ps_ok_def list_all2_conv_all_nth)

lemma bitset_set_again:
  assumes "bitset_get b i"
  shows "bitset_set b i = (False, b)"
proof -
  let ?w = "i div 64" and ?m = "push_bit (i mod 64) 1 :: u64"
  have w: "?w < length (words b)" "bit (words b ! ?w) (i mod 64)" using assms by (simp_all add: bitset_get_iff)
  have "words b ! ?w OR ?m = words b ! ?w" using w(2) by (intro bit_word_eqI) (auto simp: bit_simps bit_1_iff)
  moreover have "words b ! ?w AND ?m \<noteq> 0"
  proof
    assume "words b ! ?w AND ?m = 0"
    then have "\<not> bit (words b ! ?w AND ?m) (i mod 64)" by simp
    then show False using w(2) by (simp add: bit_simps)
  qed
  ultimately show ?thesis using w(1) by (simp add: bitset_set_def Let_def not_le)
qed

text \<open>A tombstone of a live row hides it, keeps the identity and forgets the file; of a dead row it changes nothing.\<close>

lemma ps_tombstone_spec:
  assumes "ps_ok s" "i < length (ps_parts s)"
  defines "del \<equiv> ps_deletes s ! i"
  shows "deleted_row del row \<Longrightarrow> ps_tombstone s i row = Some (False, s)"
    "\<not> deleted_row del row \<Longrightarrow> \<exists>d. ps_tombstone s i row =
        Some (True, s\<lparr>ps_deletes := (ps_deletes s)[i := Some d], ps_origins := (ps_origins s)[i := ps_origins s ! i AND HOMED]\<rparr>)
      \<and> deletes_ok d \<and> (\<forall>r. deletes_get d r \<longleftrightarrow> r = row \<or> deleted_row del r)"
proof -
  note e = ps_entry [OF assms(1,2)]
  have o: "i < length (ps_origins s)" using assms(1,2) by (simp add: ps_ok_def)
  show "ps_tombstone s i row = Some (False, s)" if "deleted_row del row"
  proof -
    obtain d where d: "del = Some d" "deletes_get d row" using \<open>deleted_row del row\<close> by (auto simp: deleted_row_def split: option.splits)
    then have "deletes_set d row = (False, d)" by (simp add: deletes_set_def deletes_get_def bitset_set_again)
    then show ?thesis using d(1) e assms(2) by (simp add: ps_tombstone_def del_def [symmetric]) (simp add: del_def list_update_same_conv)
  qed
  assume live: "\<not> deleted_row del row"
  let ?d = "case del of Some d \<Rightarrow> d | None \<Rightarrow> deletes_empty (length (pt_granules (ps_parts s ! i)))"
  have ok: "deletes_ok ?d" using e deletes_empty_ok by (simp add: entry_ok_def mask_ok_def del_def split: option.splits)
  have get: "deletes_get ?d r \<longleftrightarrow> deleted_row del r" for r
    using bitset.mem_empty [of r] by (simp add: deleted_row_def deletes_get_def deletes_empty_def split: option.split)
  note st = deletes_set_ok [OF ok, of row]
  obtain d where d: "deletes_set ?d row = (True, d)" using st(2) live get by (metis prod.collapse)
  then show "\<exists>d. ps_tombstone s i row =
        Some (True, s\<lparr>ps_deletes := (ps_deletes s)[i := Some d], ps_origins := (ps_origins s)[i := ps_origins s ! i AND HOMED]\<rparr>)
      \<and> deletes_ok d \<and> (\<forall>r. deletes_get d r \<longleftrightarrow> r = row \<or> deleted_row del r)"
    using st(1,4) get e o assms(2) by (intro exI [of _ d]) (simp add: ps_tombstone_def del_def [symmetric])
qed

lemma ps_tombstone_ok:
  assumes "ps_ok s" "i < length (ps_parts s)" "row < pt_n_rows (ps_parts s ! i)" "ps_tombstone s i row = Some (b, s')"
  shows "ps_ok s'"
proof (cases "deleted_row (ps_deletes s ! i) row")
  case True
  then show ?thesis using ps_tombstone_spec(1) [OF assms(1,2) True] assms(1,4) by simp
next
  case False
  obtain d where d: "s' = s\<lparr>ps_deletes := (ps_deletes s)[i := Some d], ps_origins := (ps_origins s)[i := ps_origins s ! i AND HOMED]\<rparr>"
    "deletes_ok d" "\<forall>r. deletes_get d r \<longleftrightarrow> r = row \<or> deleted_row (ps_deletes s ! i) r"
    using ps_tombstone_spec(2) [OF assms(1,2) False] assms(4) by auto
  have "entry_ok (ps_parts s ! i) (Some d)"
    using ps_entry [OF assms(1,2)] d(2,3) assms(3) by (auto simp: entry_ok_def mask_ok_def deleted_row_def)
  then have "list_all2 entry_ok (ps_parts s) ((ps_deletes s)[i := Some d])"
    using assms(1) list_all2_update_cong [of entry_ok "ps_parts s" "ps_deletes s" "ps_parts s ! i" "Some d" i] by (simp add: ps_ok_def)
  then show ?thesis using assms(1) by (simp add: ps_ok_def d(1))
qed

section \<open>The life of a set\<close>

text \<open>What a table does to its set: publish a part built in memory, drop a part, hide a row, record a file, seed the identities of
  an empty table, count a version. A part decoded from a file comes in through \<open>ps_adopt\<close>.\<close>

inductive set_step :: "part_set \<Rightarrow> part_set \<Rightarrow> bool" where
  publish: "pt_pid p = 0 \<Longrightarrow> marks_ok p \<Longrightarrow> ps_next_pid s \<noteq> - 1 \<Longrightarrow> set_step s (ps_push s p)"
| drop_part: "ps_remove s i = Some (p, s') \<Longrightarrow> set_step s s'"
| hide_row: "i < length (ps_parts s) \<Longrightarrow> row < pt_n_rows (ps_parts s ! i) \<Longrightarrow> ps_tombstone s i row = Some (b, s') \<Longrightarrow> set_step s s'"
| file_part: "ps_set_origin s i seq = Some s' \<Longrightarrow> set_step s s'"
| seed: "set_step s (ps_seed_pids s floor)"
| new_version: "set_step s (ps_bump s)"

lemma set_step_ok: "set_step s s' \<Longrightarrow> ps_ok s \<Longrightarrow> ps_ok s'"
proof (induction rule: set_step.induct)
  case (publish p s)
  then show ?case by (intro ps_push_ok) (auto simp: minted_def ps_ok_def)
next
  case (file_part s i seq s')
  then show ?case by (auto simp: ps_set_origin_def ps_ok_def split: if_splits)
next
  case (new_version s)
  then show ?case by (simp add: ps_bump_def ps_ok_def)
qed (rule ps_remove_ok ps_tombstone_ok ps_seed_ok; assumption)+

definition loadable :: "part list \<Rightarrow> bool" where
  "loadable ps \<longleftrightarrow> (\<forall>p \<in> set ps. marks_ok p \<and> pt_pid p \<noteq> 0 \<and> pt_pid p \<noteq> - 1) \<and> distinct (map pt_pid ps)"

lemma fold_max_mem: "fold max xs (a :: u64) \<in> insert a (set xs)"
  by (induction xs arbitrary: a) (auto simp: max_def split: if_splits)

lemma ps_adopt_ok:
  assumes "loadable ps"
  shows "ps_ok (ps_adopt ps)"
proof -
  let ?m = "fold max (map pt_pid ps) 0"
  have "?m \<noteq> - 1" using fold_max_mem [of "map pt_pid ps" 0] assms by (auto simp: loadable_def)
  then have m: "?m < 1 + ?m" using word_less_inc [of ?m] by (simp add: add.commute)
  let ?s = "ps_default\<lparr>ps_next_pid := 1 + ?m\<rparr>"
  have "ps_ok ?s" using m by (auto simp: ps_ok_def ps_default_def)
  moreover have "ps_ok (foldl ps_push s qs)" if "loadable qs" "ps_ok s" "\<forall>q \<in> set qs. pt_pid q \<notin> pt_pid ` set (ps_parts s)" for s qs
    using that
  proof (induction qs arbitrary: s)
    case (Cons q qs)
    have "minted s q \<noteq> - 1" "minted s q = pt_pid q" using Cons.prems(1) by (auto simp: loadable_def minted_def)
    then have "ps_ok (ps_push s q)" using Cons.prems by (intro ps_push_ok) (auto simp: loadable_def)
    moreover have "\<forall>p \<in> set qs. pt_pid p \<notin> pt_pid ` set (ps_parts (ps_push s q))"
      using Cons.prems \<open>minted s q = pt_pid q\<close> by (auto simp: ps_push_eq published_def loadable_def image_iff)
    ultimately show ?case using Cons.IH [of "ps_push s q"] Cons.prems(1) by (simp add: loadable_def)
  qed simp
  ultimately show ?thesis using assms by (simp add: ps_adopt_def ps_default_def)
qed

lemma set_steps_ok: "set_step\<^sup>*\<^sup>* s s' \<Longrightarrow> ps_ok s \<Longrightarrow> ps_ok s'"
  by (induction rule: rtranclp_induct) (auto intro: set_step_ok)

subsection \<open>Identities over time\<close>

text \<open>A part of the later set with an identity the earlier set had already handed out is the part of the earlier set, its mask
  only larger, and still citable if it was.\<close>

definition keeps :: "part_set \<Rightarrow> nat \<Rightarrow> part_set \<Rightarrow> nat \<Rightarrow> bool" where
  "keeps s i s' j \<longleftrightarrow> i < length (ps_parts s) \<and> ps_parts s' ! j = ps_parts s ! i
     \<and> (\<forall>row. deleted_row (ps_deletes s ! i) row \<longrightarrow> deleted_row (ps_deletes s' ! j) row)
     \<and> (ps_origins s ! i AND HOMED \<noteq> 0 \<longrightarrow> ps_origins s' ! j AND HOMED \<noteq> 0)"

definition evolves :: "part_set \<Rightarrow> part_set \<Rightarrow> bool" where
  "evolves s s' \<longleftrightarrow> ps_next_pid s \<le> ps_next_pid s' \<and>
     (\<forall>j < length (ps_parts s'). pt_pid (ps_parts s' ! j) < ps_next_pid s \<longrightarrow> (\<exists>i. keeps s i s' j))"

lemma evolves_refl: "evolves s s"
  by (auto simp: evolves_def keeps_def)

lemma evolves_trans:
  assumes "evolves s t" "evolves t u"
  shows "evolves s u"
proof -
  have le: "ps_next_pid s \<le> ps_next_pid t" "ps_next_pid t \<le> ps_next_pid u" using assms by (simp_all add: evolves_def)
  have "\<exists>i. keeps s i u j" if j: "j < length (ps_parts u)" "pt_pid (ps_parts u ! j) < ps_next_pid s" for j
  proof -
    obtain k where k: "keeps t k u j" using assms(2) j le(1) less_le_trans unfolding evolves_def by blast
    then have "k < length (ps_parts t)" "pt_pid (ps_parts t ! k) < ps_next_pid s" using j(2) by (simp_all add: keeps_def)
    then obtain i where "keeps s i t k" using assms(1) unfolding evolves_def by blast
    with k have "keeps s i u j" by (simp add: keeps_def)
    then show ?thesis ..
  qed
  then show ?thesis using le by (simp add: evolves_def)
qed

lemma bit_HOMED: "bit HOMED n \<longleftrightarrow> n = 63"
  unfolding HOMED_def bit_push_bit_iff by (auto simp: bit_1_iff)

lemma homed_bit: "x AND HOMED \<noteq> 0 \<longleftrightarrow> bit x 63"
proof -
  have "bit (x AND HOMED) n \<longleftrightarrow> n = 63 \<and> bit x 63" for n by (auto simp: bit_and_iff bit_HOMED)
  then show ?thesis by (metis bit_eq_iff bit_0_eq bot_apply bot_bool_def)
qed

lemma set_step_evolves: "set_step s s' \<Longrightarrow> ps_ok s \<Longrightarrow> evolves s s'"
proof (induction rule: set_step.induct)
  case (publish p s)
  have "i < length (ps_deletes s) \<and> i < length (ps_origins s)" if "i < length (ps_parts s)" for i
    using publish.prems that ps_entry [of s i] by (simp add: ps_ok_def)
  then show ?case using publish(1)
    by (auto simp: evolves_def keeps_def ps_push_eq nth_append minted_def published_def less_Suc_eq intro!: exI)
next
  case (drop_part s i p s')
  have l: "length (ps_deletes s) = length (ps_parts s)" "length (ps_origins s) = length (ps_parts s)"
    using drop_part.prems by (auto simp: ps_ok_def dest: list_all2_lengthD)
  have "\<exists>k < length (ps_parts s). ps_parts s' ! j = ps_parts s ! k \<and> ps_deletes s' ! j = ps_deletes s ! k \<and> ps_origins s' ! j = ps_origins s ! k"
    if "j < length (ps_parts s')" for j
    using that drop_part(1) l
    by (intro exI [of _ "if j < i then j else Suc j"]) (auto simp: ps_remove_def remove_at_nth split: if_splits)
  then show ?case using drop_part(1) by (fastforce simp: evolves_def keeps_def ps_remove_def split: if_splits)
next
  case (hide_row i s row b s')
  note e = ps_entry [OF hide_row.prems hide_row(1)]
  have o: "i < length (ps_origins s)" using hide_row by (simp add: ps_ok_def)
  show ?case
  proof (cases "deleted_row (ps_deletes s ! i) row")
    case True
    then show ?thesis using ps_tombstone_spec(1) [OF hide_row.prems hide_row(1) True] hide_row(3) evolves_refl by simp
  next
    case False
    obtain d where d: "s' = s\<lparr>ps_deletes := (ps_deletes s)[i := Some d], ps_origins := (ps_origins s)[i := ps_origins s ! i AND HOMED]\<rparr>"
      "\<forall>r. deletes_get d r \<longleftrightarrow> r = row \<or> deleted_row (ps_deletes s ! i) r"
      using ps_tombstone_spec(2) [OF hide_row.prems hide_row(1) False] hide_row(3) by auto
    have "deleted_row (ps_deletes s ! j) r \<longrightarrow> deleted_row ((ps_deletes s)[i := Some d] ! j) r" for j r
      using d(2) e by (cases "j = i") (auto simp: deleted_row_def)
    moreover have "ps_origins s ! j AND HOMED \<noteq> 0 \<longrightarrow> (ps_origins s)[i := ps_origins s ! i AND HOMED] ! j AND HOMED \<noteq> 0" for j
      using o by (cases "j = i") (auto simp: and.assoc)
    ultimately show ?thesis by (auto simp: evolves_def keeps_def d(1))
  qed
next
  case (file_part s i seq s')
  have "(HOMED OR seq) AND HOMED \<noteq> 0" unfolding homed_bit by (simp add: bit_or_iff bit_HOMED)
  then have "x AND HOMED \<noteq> 0 \<longrightarrow> (ps_origins s)[i := HOMED OR seq] ! j AND HOMED \<noteq> 0" if "x = ps_origins s ! j" for j x
    using that by (cases "j = i"; cases "i < length (ps_origins s)") (auto simp: list_update_beyond)
  then show ?case using file_part(1) by (auto simp: evolves_def keeps_def ps_set_origin_def split: if_splits)
qed (auto simp: evolves_def keeps_def ps_seed_pids_def ps_bump_def)

lemma set_steps_evolve: "set_step\<^sup>*\<^sup>* s s' \<Longrightarrow> ps_ok s \<Longrightarrow> evolves s s'"
proof (induction rule: rtranclp_induct)
  case (step t u)
  then show ?case using set_steps_ok [of s t] set_step_evolves [of t u] evolves_trans by blast
qed (rule evolves_refl)

lemma ps_citable_iff:
  "ps_ok s \<Longrightarrow> i < length (ps_parts s) \<Longrightarrow> ps_citable s i = Some (Some pid) \<longleftrightarrow> ps_origins s ! i AND HOMED \<noteq> 0 \<and> pt_pid (ps_parts s ! i) = pid"
  by (auto simp: ps_citable_def ps_ok_def)

lemma ps_index_of_Some:
  assumes "ps_ok s"
  shows "ps_index_of s pid = Some i \<longleftrightarrow> i < length (ps_parts s) \<and> ps_origins s ! i AND HOMED \<noteq> 0 \<and> pt_pid (ps_parts s ! i) = pid"
proof -
  have u: "i = j" if "i < length (ps_parts s)" "j < length (ps_parts s)" "pt_pid (ps_parts s ! i) = pt_pid (ps_parts s ! j)" for i j
    using assms that nth_eq_iff_index_eq [of "map pt_pid (ps_parts s)" i j] by (simp add: ps_ok_def)
  show ?thesis
  proof
    assume "ps_index_of s pid = Some i"
    then show "i < length (ps_parts s) \<and> ps_origins s ! i AND HOMED \<noteq> 0 \<and> pt_pid (ps_parts s ! i) = pid"
      using ps_citable_iff [OF assms, of i pid] by (auto simp: ps_index_of_def find_Some_iff)
  next
    assume r: "i < length (ps_parts s) \<and> ps_origins s ! i AND HOMED \<noteq> 0 \<and> pt_pid (ps_parts s ! i) = pid"
    moreover have "ps_citable s j \<noteq> Some (Some pid)" if "j < i" for j
      using that r u [of i j] ps_citable_iff [OF assms, of j pid] by auto
    ultimately show "ps_index_of s pid = Some i"
      using ps_citable_iff [OF assms, of i pid] by (auto simp: ps_index_of_def find_Some_iff intro!: exI [of _ i])
  qed
qed

section \<open>Gathered rows\<close>

definition building :: "column_builder \<Rightarrow> data_type \<Rightarrow> cell list \<Rightarrow> bool" where
  "building b ty vs \<longleftrightarrow> (\<exists>c. builds b c \<and> represents c ty vs)"

lemma building_new: "building (builder_new ty) ty []"
proof -
  let ?c = "col_new ty (for_physical (physical ty))"
  have "builds (builder_new ty) ?c"
    using bitset.mem_empty by (auto simp: builds_def builder_new_def col_new_def col_len_def cd_len_def for_physical_def col_is_null_def split: physical_type.split)
  moreover have "represents ?c ty []"
    by (auto simp: represents_def col_wf_def col_new_def col_len_def cd_len_def for_physical_def cd_physical_def col_is_null_def cells_def split: physical_type.split)
  ultimately show ?thesis by (auto simp: building_def)
qed

lemma building_push:
  assumes "building b ty vs" "storable ty v"
  shows "\<exists>b'. builder_push_value ft b v = Inr b' \<and> building b' ty (vs @ [v])"
proof -
  obtain c where c: "builds b c" "represents c ty vs" using assms(1) by (auto simp: building_def)
  then have "col_wf c" "storable (col_ty c) v" using assms(2) by (simp_all add: represents_def)
  then obtain c' where c': "push_value ft c v = Inr c'" "col_ty c' = col_ty c" "col_wf c'" "cells c' = cells c @ [v]"
    by (rule push_value_spec)
  then have "represents c' ty (vs @ [v])" using c(2) by (simp add: represents_def)
  with builder_push_simulates [OF c(1), of ft v] c'(1) show ?thesis by (auto simp: building_def)
qed

lemma building_finish: "building b ty vs \<Longrightarrow> represents (builder_finish b) ty vs"
proof -
  assume "building b ty vs"
  then obtain c where c: "builds b c" "represents c ty vs" by (auto simp: building_def)
  then have f: "col_ty (builder_finish b) = col_ty c" "col_data (builder_finish b) = col_data c"
    by (simp_all add: builds_def builder_finish_def)
  moreover have "col_is_null (builder_finish b) i \<longleftrightarrow> col_is_null c i" for i
    using c(1) bitset.mem_empty by (auto simp: builds_def builder_finish_def col_is_null_def bitset_is_empty_iff)
  ultimately have "col_wf (builder_finish b)" using c(2) by (simp add: represents_def col_wf_def col_len_def)
  then show ?thesis using c f(1) builds_finish [OF c(1)] by (simp add: represents_def)
qed

text \<open>The cell a pair of the merge order names.\<close>

definition named_cell :: "part list \<Rightarrow> nat \<Rightarrow> u32 \<times> u32 \<Rightarrow> cell" where
  "named_cell ps c r = the (part_value_at (ps ! unat (fst r)) (unat (snd r)) c)"

definition gatherable_rows :: "part list \<Rightarrow> (u32 \<times> u32) list \<Rightarrow> data_type list \<Rightarrow> bool" where
  "gatherable_rows ps order tys \<longleftrightarrow> (\<forall>r \<in> set order. unat (fst r) < length ps \<and> (\<forall>c < length tys.
     (\<exists>v. part_value_at (ps ! unat (fst r)) (unat (snd r)) c = Some v \<and> storable (tys ! c) v)))"

lemma gather_column_spec:
  assumes "building b ty vs" "\<forall>r \<in> set order. unat (fst r) < length ps \<and>
    (\<exists>v. part_value_at (ps ! unat (fst r)) (unat (snd r)) c = Some v \<and> storable ty v)"
  shows "\<exists>b'. gather_column ft ps order c b = Some (Inr b') \<and> building b' ty (vs @ map (named_cell ps c) order)"
  using assms
proof (induction order arbitrary: b vs)
  case (Cons r order)
  obtain pi row where r: "r = (pi, row)" by (cases r)
  from Cons.prems(2) r obtain v where v: "unat pi < length ps" "part_value_at (ps ! unat pi) (unat row) c = Some v" "storable ty v" by auto
  from building_push [OF Cons.prems(1) v(3), of ft] obtain b' where b': "builder_push_value ft b v = Inr b'" "building b' ty (vs @ [v])" by blast
  from Cons.IH [OF b'(2)] Cons.prems(2) b'(1) v show ?case by (simp add: r named_cell_def)
qed simp

lemma gather_columns_spec:
  assumes "\<forall>r \<in> set order. unat (fst r) < length ps \<and> (\<forall>k < length tys.
    (\<exists>v. part_value_at (ps ! unat (fst r)) (unat (snd r)) (c + k) = Some v \<and> storable (tys ! k) v))"
  shows "\<exists>cs. gather_columns ft ps order c tys = Some (Inr cs) \<and> length cs = length tys
    \<and> (\<forall>k < length tys. represents (cs ! k) (tys ! k) (map (named_cell ps (c + k)) order))"
  using assms
proof (induction tys arbitrary: c)
  case (Cons ty tys)
  from Cons.prems have "\<forall>r \<in> set order. unat (fst r) < length ps \<and>
      (\<exists>v. part_value_at (ps ! unat (fst r)) (unat (snd r)) c = Some v \<and> storable ty v)" by force
  from gather_column_spec [OF building_new this, of ft] obtain b where
    b: "gather_column ft ps order c (builder_new ty) = Some (Inr b)" "building b ty (map (named_cell ps c) order)" by auto
  from Cons.prems have "\<forall>r \<in> set order. unat (fst r) < length ps \<and> (\<forall>k < length tys.
      (\<exists>v. part_value_at (ps ! unat (fst r)) (unat (snd r)) (Suc c + k) = Some v \<and> storable (tys ! k) v))" by fastforce
  from Cons.IH [OF this] obtain cs where "gather_columns ft ps order (Suc c) tys = Some (Inr cs)" "length cs = length tys"
    "\<forall>k < length tys. represents (cs ! k) (tys ! k) (map (named_cell ps (Suc c + k)) order)" by blast
  with b building_finish [OF b(2)] show ?case by (auto simp: nth_Cons split: nat.split)
qed simp

lemma gather_rows_spec:
  assumes "gatherable_rows ps order tys" "tys \<noteq> []"
  shows "\<exists>blk. gather_rows ft ps order tys = Some (Inr blk) \<and>
    block_holds blk tys (map (\<lambda>r. map (\<lambda>c. named_cell ps c r) [0..<length tys]) order)"
proof -
  obtain cs where cs: "gather_columns ft ps order 0 tys = Some (Inr cs)" "length cs = length tys"
    "\<forall>k < length tys. represents (cs ! k) (tys ! k) (map (named_cell ps k) order)"
    using gather_columns_spec [of order ps tys 0 ft] assms(1) by (auto simp: gatherable_rows_def)
  have "cs \<noteq> []" using cs(2) assms(2) by auto
  from block_new_holds [OF this, of tys "named_cell ps" order] cs show ?thesis by (simp add: gather_rows_def)
qed

section \<open>Counts\<close>

lemma live_count:
  assumes "entry_ok p del"
  shows "length (live_positions_into p del) + (case del of None \<Rightarrow> 0 | Some d \<Rightarrow> dl_count d) = pt_n_rows p"
proof -
  let ?D = "{row. deleted_row del row}"
  have wf: "part_wf p" "mask_ok del" and sub: "?D \<subseteq> {..<pt_n_rows p}" using assms by (auto simp: entry_ok_def)
  have "(case del of None \<Rightarrow> 0 | Some d \<Rightarrow> dl_count d) = card ?D"
    using wf(2) by (auto simp: mask_ok_def deleted_row_def deletes_ok_def deletes_get_def bits_of_def split: option.split)
  moreover have "length (live_positions_into p del) = card ({..<pt_n_rows p} - ?D)"
    unfolding live_positions_spec [OF wf] length_filter_upt by (rule arg_cong [where f = card]) auto
  moreover have "card ({..<pt_n_rows p} - ?D) = pt_n_rows p - card ?D" "card ?D \<le> pt_n_rows p"
    using card_Diff_subset [OF finite_subset [OF sub] sub] card_mono [OF _ sub] by simp_all
  ultimately show ?thesis by simp
qed

lemma ps_live_rows_spec:
  assumes "ps_ok s"
  shows "ps_live_rows s = Some (sum_list (map (\<lambda>i. length (live_positions_into (ps_parts s ! i) (ps_deletes s ! i))) [0..<length (ps_parts s)]))"
proof -
  have one: "ps_live_rows_of s i = Some (length (live_positions_into (ps_parts s ! i) (ps_deletes s ! i)))" if "i < length (ps_parts s)" for i
  proof -
    note e = ps_entry [OF assms that]
    then show ?thesis using that live_count [of "ps_parts s ! i" "ps_deletes s ! i"] by (simp add: ps_live_rows_of_def Let_def)
  qed
  have "those (map (ps_live_rows_of s) is) = Some (map (\<lambda>i. length (live_positions_into (ps_parts s ! i) (ps_deletes s ! i))) is)"
    if "set is \<subseteq> {..<length (ps_parts s)}" for "is"
    using that by (induction "is") (simp_all add: one)
  from this [of "[0..<length (ps_parts s)]"] show ?thesis by (simp add: ps_live_rows_def lessThan_def subset_iff)
qed

section \<open>Properties\<close>

text \<open>C16: The invariant of a part set and what a tombstone does. In every set a table reaches from parts it loaded (publishing,
  dropping, hiding rows, recording files, seeding identities, versions in any order), the three vectors are
  aligned, identities are distinct, non-zero and below the counter, every mask has true counts and stays inside
  its part, and \<open>live_rows\<close> is the number of rows the scans see. Hiding a live row adds exactly that row to the mask
  of that part, withdraws its file and keeps its identity citable; hiding a dead row changes nothing at all.\<close>

theorem part_set_invariant:
  assumes "loadable ps" "set_step\<^sup>*\<^sup>* (ps_adopt ps) s"
  shows "ps_ok s
    \<and> ps_live_rows s = Some (sum_list (map (\<lambda>i. length (live_positions_into (ps_parts s ! i) (ps_deletes s ! i))) [0..<length (ps_parts s)]))
    \<and> (i < length (ps_parts s) \<and> deleted_row (ps_deletes s ! i) row \<longrightarrow> ps_tombstone s i row = Some (False, s))
    \<and> (i < length (ps_parts s) \<and> \<not> deleted_row (ps_deletes s ! i) row \<longrightarrow> (\<exists>s'. ps_tombstone s i row = Some (True, s')
        \<and> ps_parts s' = ps_parts s \<and> ps_origin s' i = Some NO_FILE \<and> ps_citable s' i = ps_citable s i
        \<and> (\<forall>r. deleted_row (ps_deletes s' ! i) r \<longleftrightarrow> r = row \<or> deleted_row (ps_deletes s ! i) r)
        \<and> (\<forall>j. j \<noteq> i \<longrightarrow> ps_deletes s' ! j = ps_deletes s ! j \<and> ps_origin s' j = ps_origin s j)))"
proof -
  have ok: "ps_ok s" using set_steps_ok [OF assms(2) ps_adopt_ok [OF assms(1)]] .
  have "\<exists>s'. ps_tombstone s i row = Some (True, s')
        \<and> ps_parts s' = ps_parts s \<and> ps_origin s' i = Some NO_FILE \<and> ps_citable s' i = ps_citable s i
        \<and> (\<forall>r. deleted_row (ps_deletes s' ! i) r \<longleftrightarrow> r = row \<or> deleted_row (ps_deletes s ! i) r)
        \<and> (\<forall>j. j \<noteq> i \<longrightarrow> ps_deletes s' ! j = ps_deletes s ! j \<and> ps_origin s' j = ps_origin s j)"
    if i: "i < length (ps_parts s)" "\<not> deleted_row (ps_deletes s ! i) row"
  proof -
    obtain d where d: "ps_tombstone s i row =
        Some (True, s\<lparr>ps_deletes := (ps_deletes s)[i := Some d], ps_origins := (ps_origins s)[i := ps_origins s ! i AND HOMED]\<rparr>)"
      "\<forall>r. deletes_get d r \<longleftrightarrow> r = row \<or> deleted_row (ps_deletes s ! i) r"
      using ps_tombstone_spec(2) [OF ok i] by auto
    have l: "i < length (ps_deletes s)" "i < length (ps_origins s)" using ps_entry [OF ok i(1)] ok i(1) by (simp_all add: ps_ok_def)
    have "x AND HOMED AND NOT HOMED = 0" for x by (intro bit_word_eqI) (auto simp: bit_simps)
    then show ?thesis using d l i(1)
      by (auto simp: ps_origin_def ps_citable_def NO_FILE_def deleted_row_def at_def and.assoc)
  qed
  then show ?thesis using ok ps_live_rows_spec [OF ok] ps_tombstone_spec(1) [OF ok] by blast
qed

text \<open>C11: A citation of the log never comes to mean another row. If a set resolves an identity, then in every later set that
  still has a part of that identity it resolves to the same part, row for row, with every row that was hidden
  still hidden; a new part never gets an identity the set has handed out before, also after the old part is gone.\<close>

theorem citation_stable:
  assumes "loadable ps" "set_step\<^sup>*\<^sup>* (ps_adopt ps) s" "set_step\<^sup>*\<^sup>* s s'" "ps_index_of s pid = Some i"
  shows "(ps_index_of s' pid = None \<and> pid \<notin> pt_pid ` set (ps_parts s'))
    \<or> (\<exists>j. ps_index_of s' pid = Some j \<and> ps_parts s' ! j = ps_parts s ! i
         \<and> (\<forall>row. deleted_row (ps_deletes s ! i) row \<longrightarrow> deleted_row (ps_deletes s' ! j) row))"
proof -
  have ok: "ps_ok s" "ps_ok s'" using set_steps_ok [OF _ ps_adopt_ok [OF assms(1)]] assms(2,3) by (auto intro: rtranclp_trans)
  have i: "i < length (ps_parts s)" "ps_origins s ! i AND HOMED \<noteq> 0" "pt_pid (ps_parts s ! i) = pid"
    using assms(4) ps_index_of_Some [OF ok(1)] by auto
  then have lt: "pid < ps_next_pid s" using ok(1) by (auto simp: ps_ok_def)
  have same: "k = i" if "k < length (ps_parts s)" "pt_pid (ps_parts s ! k) = pid" for k
    using ok(1) that i nth_eq_iff_index_eq [of "map pt_pid (ps_parts s)" k i] by (simp add: ps_ok_def)
  show ?thesis
  proof (cases "pid \<in> pt_pid ` set (ps_parts s')")
    case True
    then obtain j where j: "j < length (ps_parts s')" "pt_pid (ps_parts s' ! j) = pid" by (auto simp: in_set_conv_nth)
    then obtain k where "keeps s k s' j" using set_steps_evolve [OF assms(3) ok(1)] lt by (auto simp: evolves_def)
    moreover from this have "k = i" using j same by (simp add: keeps_def)
    ultimately show ?thesis using i j ps_index_of_Some [OF ok(2), of pid j] by (auto simp: keeps_def)
  next
    case False
    then have "ps_index_of s' pid \<noteq> Some j" for j using ps_index_of_Some [OF ok(2), of pid j] by auto
    with False show ?thesis by auto
  qed
qed

subsection \<open>A set that moves\<close>

lemma two_rows_marks: "\<exists>p. part_build_sel 1 two_rows None (Some 0) (Some 0) = Some p \<and> marks_ok p \<and> pt_n_rows p = 2"
  using two_rows_part built_marks [of two_rows None "Some 0" "Some 0"] by (fastforce simp: built_def)

theorem part_set_invariant_witness:
  "\<exists>p. part_build_sel 1 two_rows None (Some 0) (Some 0) = Some p \<and>
    ps_live_rows (ps_adopt [p\<lparr>pt_pid := 7\<rparr>]) = Some 2 \<and>
    (\<exists>s'. ps_tombstone (ps_adopt [p\<lparr>pt_pid := 7\<rparr>]) 0 1 = Some (True, s') \<and> deleted_row (ps_deletes s' ! 0) 1 \<and> \<not> deleted_row (ps_deletes s' ! 0) 0)"
proof -
  obtain p where p: "part_build_sel 1 two_rows None (Some 0) (Some 0) = Some p" "marks_ok p" "pt_n_rows p = 2" using two_rows_marks by blast
  let ?q = "p\<lparr>pt_pid := 7\<rparr>"
  let ?s = "ps_adopt [?q]"
  have m: "marks_ok ?q" using p(2) by (simp add: marks_ok_def part_wf_def)
  then have l: "loadable [?q]" by (simp add: loadable_def)
  have b: "pt_deleted_count p = 0" using p(1) built_clean(2) [of two_rows None "Some 0" "Some 0" p] by (auto simp: built_def)
  have s: "ps_parts ?s = [published (ps_default\<lparr>ps_next_pid := 8\<rparr>) ?q]" "ps_deletes ?s = [None]"
    using b by (simp_all add: ps_adopt_def ps_push_eq ps_default_def born_deletes_def)
  have wf: "part_wf (published (ps_default\<lparr>ps_next_pid := 8\<rparr>) ?q)" using published_entry [OF m] by (simp add: entry_ok_def)
  have "length (live_positions_into (published (ps_default\<lparr>ps_next_pid := 8\<rparr>) ?q) None) = 2"
    using live_positions_spec [OF wf, of None] p(3) by (simp add: mask_ok_def deleted_row_def published_def)
  then show ?thesis using part_set_invariant [OF l rtranclp.rtrancl_refl, of 0 1] p(1) by (auto simp: s deleted_row_def)
qed

theorem citation_stable_witness:
  "\<exists>p. part_build_sel 1 two_rows None (Some 0) (Some 0) = Some p \<and>
    (\<exists>j. ps_index_of (ps_bump (ps_adopt [p\<lparr>pt_pid := 7, pt_origin := HOMED OR 3\<rparr>])) 7 = Some j)"
proof -
  obtain p where p: "part_build_sel 1 two_rows None (Some 0) (Some 0) = Some p" "marks_ok p" using two_rows_marks by blast
  let ?q = "p\<lparr>pt_pid := 7, pt_origin := HOMED OR 3\<rparr>"
  let ?s = "ps_adopt [?q]"
  have l: "loadable [?q]" using p(2) by (simp add: loadable_def marks_ok_def part_wf_def)
  have s: "ps_parts ?s = [published (ps_default\<lparr>ps_next_pid := 8\<rparr>) ?q]" "ps_origins ?s = [HOMED OR 3]"
    by (simp_all add: ps_adopt_def ps_push_eq ps_default_def)
  have "(HOMED OR 3) AND HOMED \<noteq> 0" unfolding homed_bit by (simp add: bit_or_iff bit_HOMED)
  then have i: "ps_index_of ?s 7 = Some 0" using ps_index_of_Some [OF ps_adopt_ok [OF l], of 7 0] by (simp add: s published_def minted_def)
  have "set_step\<^sup>*\<^sup>* ?s (ps_bump ?s)" by (intro r_into_rtranclp new_version)
  from citation_stable [OF l rtranclp.rtrancl_refl this i] p(1) show ?thesis
    by (auto simp: ps_bump_def s published_def minted_def)
qed

end
