(* ===== verification/Table_Schema.thy ===== *)
theory Table_Schema
  imports Cell_Value
begin

text \<open>
  Schemas and table definitions, \<^verbatim>\<open>src/types/schema.rs\<close>: fields with an evaluated default, the name index, engines, and the rules that
  choose the sort and the primary key column. Shown: the default printed into the catalog reads back as the same value
  (a negative zero apart); a name resolves to its exact match or to its only match up to case; and a key column is always
  the leading sort column, without NULLs and not a string. Names and literals are UTF-8 bytes; an index out of range is \<open>None\<close>.
\<close>

section \<open>Definitions\<close>

record field =
  f_name :: bytes
  f_ty :: data_type
  f_default :: "cell option"

definition field_new :: "bytes \<Rightarrow> data_type \<Rightarrow> field" where
  "field_new nm ty = \<lparr>f_name = nm, f_ty = ty, f_default = None\<rparr>"

text \<open>The body of a quoted literal: a quote is only legal doubled.\<close>

fun unquote :: "bytes \<Rightarrow> bytes option" where
  "unquote [] = Some []"
| "unquote [c] = (if c = 39 then None else Some [c])"
| "unquote (c # d # s) =
     (if c = 39 then (if d = 39 then map_option ((#) 39) (unquote s) else None)
      else map_option ((#) c) (unquote (d # s)))"

definition parse_number :: "float_text \<Rightarrow> bytes \<Rightarrow> cell option" where
  "parse_number ft t =
     (let whole = (\<not> (46 \<in> set t \<or> 101 \<in> set t \<or> 69 \<in> set t))
      in case (whole, parse_uint (2 ^ 64 - 1) t, parse_int (- (2 ^ 63)) (2 ^ 63 - 1) t) of
           (True, Some u, _) \<Rightarrow> Some (VUInt (of_nat u))
         | (True, None, Some i) \<Rightarrow> Some (VInt (of_int i))
         | _ \<Rightarrow> map_option VFloat (read_f64 ft t))"

definition parse_sql_literal :: "float_text \<Rightarrow> bytes \<Rightarrow> cell option" where
  "parse_sql_literal ft text =
     (let t = trim text
      in if eq_ignore_ascii_case t (ascii ''null'') then Some VNull
         else if eq_ignore_ascii_case t (ascii ''true'') then Some (VBool True)
         else if eq_ignore_ascii_case t (ascii ''false'') then Some (VBool False)
         else (case t of
             c # rest \<Rightarrow>
               if c = 39
               then (if rest \<noteq> [] \<and> last rest = 39 then map_option VStr (unquote (butlast rest)) else None)
               else parse_number ft t
           | [] \<Rightarrow> parse_number ft t))"

definition coerce_default :: "float_text \<Rightarrow> cell \<Rightarrow> data_type \<Rightarrow> cell result" where
  "coerce_default ft v ty =
     (if is_null v then (if is_nullable ty then Inr VNull else Inl (Bind ''cannot store NULL in non-nullable''))
      else case (v, base ty) of
        (VStr s, Date) \<Rightarrow> rbind (parse_date s) (\<lambda>d. Inr (VDate (of_nat d)))
      | (VStr s, DateTime) \<Rightarrow> rbind (parse_datetime s) (\<lambda>t. Inr (VDateTime (of_int t)))
      | _ \<Rightarrow> cast_to ft v ty)"

definition with_default_value :: "float_text \<Rightarrow> field \<Rightarrow> cell \<Rightarrow> field result" where
  "with_default_value ft f v = (case coerce_default ft v (f_ty f) of
     Inl _ \<Rightarrow> Inl (Bind ''bad DEFAULT for column'')
   | Inr d \<Rightarrow> Inr (f\<lparr>f_default := Some d\<rparr>))"

definition with_default :: "float_text \<Rightarrow> field \<Rightarrow> bytes \<Rightarrow> field result" where
  "with_default ft f lit =
     (let t = trim lit
      in if is_decimal (f_ty f) \<and> t \<noteq> [] \<and> (is_digit (hd t) \<or> hd t = 45 \<or> hd t = 43 \<or> hd t = 46)
         then with_default_value ft f (VStr t)
         else (case parse_sql_literal ft t of
             None \<Rightarrow> Inl (Unsupported ''DEFAULT for column must be a constant literal'')
           | Some v \<Rightarrow> with_default_value ft f v))"

definition default_value :: "field \<Rightarrow> cell option" where
  "default_value f = f_default f"

definition default_sql :: "float_text \<Rightarrow> field \<Rightarrow> bytes option" where
  "default_sql ft f = map_option (\<lambda>v. case v of
     VDate _ \<Rightarrow> 39 # render_plain ft v @ [39]
   | VDateTime _ \<Rightarrow> 39 # render_plain ft v @ [39]
   | VDecimal _ _ \<Rightarrow> 39 # render_plain ft v @ [39]
   | _ \<Rightarrow> show_value ft v) (f_default f)"

definition fill_value :: "field \<Rightarrow> cell" where
  "fill_value f = (case f_default f of
     Some v \<Rightarrow> v
   | None \<Rightarrow> if is_nullable (f_ty f) then VNull else zero_value (f_ty f))"

subsection \<open>Schemas\<close>

record schema =
  s_fields :: "field list"
  s_index :: "bytes \<rightharpoonup> nat"

definition schema_default :: schema where
  "schema_default = \<lparr>s_fields = [], s_index = Map.empty\<rparr>"

fun index_checked :: "nat \<Rightarrow> field list \<Rightarrow> (bytes \<rightharpoonup> nat) \<Rightarrow> (bytes \<rightharpoonup> nat) result" where
  "index_checked i [] m = Inr m"
| "index_checked i (f # fs) m =
     (if m (f_name f) \<noteq> None then Inl (Bind ''duplicate column'') else index_checked (Suc i) fs (m(f_name f \<mapsto> i)))"

definition schema_new :: "field list \<Rightarrow> schema result" where
  "schema_new fs = rbind (index_checked 0 fs Map.empty) (\<lambda>m. Inr \<lparr>s_fields = fs, s_index = m\<rparr>)"

definition or_insert :: "(bytes \<rightharpoonup> nat) \<Rightarrow> bytes \<Rightarrow> nat \<Rightarrow> (bytes \<rightharpoonup> nat)" where
  "or_insert m k i = (case m k of None \<Rightarrow> m(k \<mapsto> i) | Some _ \<Rightarrow> m)"

fun index_first :: "nat \<Rightarrow> field list \<Rightarrow> (bytes \<rightharpoonup> nat) \<Rightarrow> (bytes \<rightharpoonup> nat)" where
  "index_first i [] m = m"
| "index_first i (f # fs) m = index_first (Suc i) fs (or_insert m (f_name f) i)"

definition new_unchecked :: "field list \<Rightarrow> schema" where
  "new_unchecked fs = \<lparr>s_fields = fs, s_index = index_first 0 fs Map.empty\<rparr>"

definition schema_len :: "schema \<Rightarrow> nat" where
  "schema_len s = length (s_fields s)"

definition schema_ty :: "schema \<Rightarrow> nat \<Rightarrow> data_type option" where
  "schema_ty s i = (if i < length (s_fields s) then Some (f_ty (s_fields s ! i)) else None)"

text \<open>The loop of the fallback: \<open>None\<close> on the second match.\<close>

fun match_loop :: "bytes \<Rightarrow> nat \<Rightarrow> field list \<Rightarrow> nat option \<Rightarrow> nat option" where
  "match_loop nm i [] found = found"
| "match_loop nm i (f # fs) found =
     (if eq_ignore_ascii_case (f_name f) nm then (if found \<noteq> None then None else match_loop nm (Suc i) fs (Some i))
      else match_loop nm (Suc i) fs found)"

definition schema_index_of :: "schema \<Rightarrow> bytes \<Rightarrow> nat option" where
  "schema_index_of s nm = (case s_index s nm of Some i \<Rightarrow> Some i | None \<Rightarrow> match_loop nm 0 (s_fields s) None)"

definition schema_require :: "schema \<Rightarrow> bytes \<Rightarrow> nat result" where
  "schema_require s nm = (case schema_index_of s nm of Some i \<Rightarrow> Inr i | None \<Rightarrow> Inl (Bind ''unknown column''))"

definition schema_push :: "schema \<Rightarrow> field \<Rightarrow> schema" where
  "schema_push s f = \<lparr>s_fields = s_fields s @ [f], s_index = or_insert (s_index s) (f_name f) (length (s_fields s))\<rparr>"

definition schema_project :: "schema \<Rightarrow> nat list \<Rightarrow> schema option" where
  "schema_project s cols = map_option new_unchecked
     (those (map (\<lambda>i. if i < length (s_fields s) then Some (s_fields s ! i) else None) cols))"

definition schema_concat :: "schema \<Rightarrow> schema \<Rightarrow> schema" where
  "schema_concat s t = new_unchecked (s_fields s @ s_fields t)"

subsection \<open>Table definitions\<close>

datatype engine = MergeTree | ReplacingMergeTree | SummingMergeTree | Log | Memory

record table_def =
  td_name :: bytes
  td_schema :: schema
  order_by :: "nat list"
  primary_key :: "nat list"
  partition_by :: "nat option"
  td_engine :: engine

definition engine_parse :: "bytes \<Rightarrow> engine result" where
  "engine_parse s =
     (let t = to_ascii_lowercase s
      in if t = ascii ''mergetree'' then Inr MergeTree
         else if t = ascii ''replacingmergetree'' then Inr ReplacingMergeTree
         else if t = ascii ''summingmergetree'' then Inr SummingMergeTree
         else if t = ascii ''log'' \<or> t = ascii ''tinylog'' \<or> t = ascii ''stripelog'' then Inr Log
         else if t = ascii ''memory'' then Inr Memory
         else Inl (Unsupported ''engine''))"

definition engine_name :: "engine \<Rightarrow> bytes" where
  "engine_name e = ascii (case e of
     MergeTree \<Rightarrow> ''MergeTree'' | ReplacingMergeTree \<Rightarrow> ''ReplacingMergeTree'' | SummingMergeTree \<Rightarrow> ''SummingMergeTree''
   | Log \<Rightarrow> ''Log'' | Memory \<Rightarrow> ''Memory'')"

definition is_sorted :: "engine \<Rightarrow> bool" where
  "is_sorted e = (e = MergeTree \<or> e = ReplacingMergeTree \<or> e = SummingMergeTree)"

definition is_persistent :: "engine \<Rightarrow> bool" where
  "is_persistent e = (e \<noteq> Memory)"

text \<open>The outer \<open>None\<close> is an \<open>order_by\<close> index outside the schema.\<close>

definition sort_col :: "table_def \<Rightarrow> nat option option" where
  "sort_col td =
     (if \<not> is_sorted (td_engine td) then Some None
      else case order_by td of
        [] \<Rightarrow> Some None
      | c # _ \<Rightarrow> map_option (\<lambda>t. if is_nullable t \<or> is_string t then None else Some c) (schema_ty (td_schema td) c))"

definition pk_col :: "table_def \<Rightarrow> nat option option" where
  "pk_col td =
     (let key = (if primary_key td \<noteq> [] then Some (primary_key td)
                 else if td_engine td = ReplacingMergeTree then Some (order_by td) else None)
      in case key of
           Some [c] \<Rightarrow> map_option (\<lambda>sc. if sc = Some c then Some c else None) (sort_col td)
         | _ \<Rightarrow> Some None)"

definition has_fast_pk :: "table_def \<Rightarrow> bool option" where
  "has_fast_pk td = map_option (\<lambda>c. c \<noteq> None) (pk_col td)"

section \<open>Literals\<close>

lemma unquote_skip: "c \<noteq> 39 \<Longrightarrow> unquote (c # s) = map_option ((#) c) (unquote s)"
  by (cases s) simp_all

lemma unquote_doubled: "unquote (concat (map (\<lambda>b. if b = 39 then [39, 39] else [b]) s)) = Some s"
  by (induction s) (simp_all add: unquote_skip)

lemma unquote_plain: "39 \<notin> set s \<Longrightarrow> unquote s = Some s"
  by (induction s) (simp_all add: unquote_skip)

lemma not_keyword:
  assumes "b \<noteq> 110" "b \<noteq> 78" "b \<noteq> 116" "b \<noteq> 84" "b \<noteq> 102" "b \<noteq> 70"
  shows "\<not> eq_ignore_ascii_case (b # s) (ascii ''null'')" "\<not> eq_ignore_ascii_case (b # s) (ascii ''true'')"
    "\<not> eq_ignore_ascii_case (b # s) (ascii ''false'')"
proof -
  have l: "b + 32 \<noteq> 110" "b + 32 \<noteq> 116" "b + 32 \<noteq> 102"
    using assms by (simp_all flip: eq_diff_eq)
  show "\<not> eq_ignore_ascii_case (b # s) (ascii ''null'')" "\<not> eq_ignore_ascii_case (b # s) (ascii ''true'')"
    "\<not> eq_ignore_ascii_case (b # s) (ascii ''false'')"
    using assms l by (auto simp: eq_ignore_ascii_case_def to_ascii_lowercase_def ascii_def)
qed

lemma solid_quote: "solid 39" "solid 45"
  by (simp_all add: solid_def)

lemma trim_quoted: "trim (39 # s @ [39]) = 39 # s @ [39]"
  by (rule trim_solid) (simp_all add: solid_quote)

lemma parse_quoted: "parse_sql_literal ft (39 # s @ [39]) = map_option VStr (unquote s)"
  by (simp add: parse_sql_literal_def trim_quoted not_keyword)

text \<open>Numbers: digits, or a minus and digits.\<close>

definition number_text :: "bytes \<Rightarrow> bool" where
  "number_text t \<longleftrightarrow> t \<noteq> [] \<and> (\<forall>b \<in> set t. is_digit b \<or> b = 45)"

lemma number_byte:
  assumes "is_digit b \<or> b = 45"
  shows "solid b" "b \<noteq> 39" "b \<notin> {46, 101, 69}" "b \<notin> {110, 78, 116, 84, 102, 70}"
  using assms digit_solid [of b] by (auto simp: solid_quote is_digit_def)

lemma number_trim: "number_text t \<Longrightarrow> trim t = t"
  using number_byte(1) by (intro trim_all_solid) (auto simp: number_text_def)

lemma parse_literal_number:
  assumes "number_text t"
  shows "parse_sql_literal ft t = parse_number ft t"
proof -
  obtain b r where t: "t = b # r" "is_digit b \<or> b = 45" using assms by (cases t) (auto simp: number_text_def)
  note k = not_keyword [of b r] and nb = number_byte [OF t(2)]
  show ?thesis using number_trim [OF assms] k nb by (simp add: parse_sql_literal_def t(1) Let_def)
qed

lemma number_whole: "number_text t \<Longrightarrow> \<not> (46 \<in> set t \<or> 101 \<in> set t \<or> 69 \<in> set t)"
  using number_byte(3) by (fastforce simp: number_text_def)

lemma show_int_number: "number_text (show_int i)"
  using show_nat_digits by (auto simp: number_text_def show_int_def)

lemma parse_shown_uint: "parse_number ft (show_nat (unat u)) = Some (VUInt u)"
proof -
  have "number_text (show_nat (unat u))" using show_nat_digits by (auto simp: number_text_def)
  moreover have "parse_uint (2 ^ 64 - 1) (show_nat (unat u)) = Some (unat u)"
    using unsigned_less [of u, where ?'a = nat] by (intro parse_uint_show) simp
  ultimately show ?thesis using number_whole [of "show_nat (unat u)"] by (simp add: parse_number_def Let_def)
qed

lemma parse_shown_int:
  "parse_number ft (show_int (sint i)) = Some (if sint i < 0 then VInt i else VUInt i)"
proof (cases "sint i < 0")
  case True
  have b: "- (2 ^ 63) \<le> sint i" "sint i \<le> 2 ^ 63 - 1" using sint_greater_eq [of i] sint_less [of i] by simp_all
  have "parse_uint (2 ^ 64 - 1) (show_int (sint i)) = None" using True by (simp add: parse_uint_def show_int_def is_digit_def)
  then show ?thesis
    using True parse_int_show [OF b] number_whole [OF show_int_number [of "sint i"]] by (simp add: parse_number_def Let_def)
next
  case False
  then have "sint i = uint i" using uint_lt2p [of i] by (simp add: sint_u64 split: if_splits)
  then have "unat i = nat (sint i)" by simp
  with False parse_shown_uint [of ft i] show ?thesis by (simp add: show_int_def)
qed

section \<open>The catalog text of a default\<close>

text \<open>What can stand as a default: a value of the column type, not a double; a timestamp of a year the calendar text covers.\<close>

definition printable :: "data_type \<Rightarrow> cell \<Rightarrow> bool" where
  "printable ty v \<longleftrightarrow> fits ty v \<and> type_ok ty \<and> (case v of VFloat _ \<Rightarrow> False | VDateTime t \<Rightarrow> - 62167219200 \<le> sint t | _ \<Rightarrow> True)"

lemma digits_plain [simp]:
  "39 \<notin> set (show_nat n)" "39 \<notin> set (pad_nat w n)" "39 \<notin> set (show_int i)" "39 \<notin> set (pad_int w i)"
proof -
  have "\<not> is_digit 39" by (simp add: is_digit_def)
  then show "39 \<notin> set (show_nat n)" "39 \<notin> set (pad_nat w n)" for n w using show_nat_digits pad_nat_digits by blast+
  then show "39 \<notin> set (show_int i)" "39 \<notin> set (pad_int w i)" by (simp_all add: show_int_def pad_int_def)
qed

lemma calendar_plain: "39 \<notin> set (fmt_date n)" "39 \<notin> set (fmt_datetime t)" "39 \<notin> set (fmt_decimal u s)"
  by (simp_all add: fmt_date_def fmt_datetime_def fmt_decimal_def Let_def split: prod.split)

lemma trim_fmt_decimal: "trim (fmt_decimal u s) = fmt_decimal u s"
proof (rule trim_all_solid, rule ballI)
  fix b
  assume "b \<in> set (fmt_decimal u s)"
  then have "is_digit b \<or> b = 45 \<or> b = 46"
    using show_nat_digits pad_nat_digits by (auto simp: fmt_decimal_def show_int_def Let_def split: if_splits)
  then show "solid b" using digit_solid by (auto simp: solid_def)
qed

lemma type_ok_base: "type_ok ty \<Longrightarrow> type_ok (base ty)"
  by (induction ty) auto

text \<open>A quoted value reads as its text, whatever the column.\<close>

lemma with_default_quoted:
  assumes "39 \<notin> set s"
  shows "with_default ft f (39 # s @ [39]) = with_default_value ft f (VStr s)"
  using assms by (simp add: with_default_def trim_quoted parse_quoted unquote_plain is_digit_def)

lemma with_default_number:
  assumes "number_text t" "\<not> is_decimal (f_ty f)" "parse_number ft t = Some v"
  shows "with_default ft f t = with_default_value ft f v"
  using assms by (simp add: with_default_def number_trim parse_literal_number)

lemma integer_plain: "is_integer ty \<Longrightarrow> \<not> is_decimal ty \<and> decimal_scale ty = None"
  by (auto simp: is_integer_def is_decimal_def decimal_scale_def split: data_type.splits)

lemma integer_bounds: "is_integer ty \<Longrightarrow> \<exists>lo hi. int_bounds (base ty) = Some (lo, hi)"
  by (auto simp: is_integer_def int_bounds_def base_idem_cases simp del: physical_base split: data_type.splits)

lemma integer_value_plain:
  "t \<notin> {Bool, Date, DateTime} \<Longrightarrow> integer_value t n = (if physical t = I64 then VInt (of_int n) else VUInt (of_int n))"
  by (cases t) (simp_all add: integer_value_def)

lemma cast_in_bounds:
  assumes "is_integer ty" "cast_integer v = Inr n" "in_bounds ty n" "\<not> is_null v"
  shows "cast_to ft v ty = Inr (if physical ty = I64 then VInt (of_int n) else VUInt (of_int n))"
proof -
  obtain lo hi where b: "int_bounds (base ty) = Some (lo, hi)" using integer_bounds [OF assms(1)] by blast
  have n: "lo \<le> n" "n \<le> hi" using assms(3) b by (simp_all add: in_bounds_def int_bounds_def)
  show ?thesis using assms b n integer_plain [OF assms(1)]
    by (auto simp: cast_to_def integer_value_plain is_integer_def)
qed

text \<open>One lemma per variant of the stored value: the literal that is read back, and its cast.\<close>

definition reloads :: "float_text \<Rightarrow> field \<Rightarrow> cell \<Rightarrow> bool" where
  "reloads ft f v \<longleftrightarrow> (\<exists>txt. default_sql ft (f\<lparr>f_default := Some v\<rparr>) = Some txt \<and> with_default ft f txt = Inr (f\<lparr>f_default := Some v\<rparr>))"

lemma reloadsI:
  assumes "default_sql ft (f\<lparr>f_default := Some v\<rparr>) = Some txt" "with_default ft f txt = with_default_value ft f w"
    "coerce_default ft w (f_ty f) = Inr v"
  shows "reloads ft f v"
  using assms by (simp add: reloads_def with_default_value_def)

lemma reloads_null:
  assumes "is_nullable (f_ty f)"
  shows "reloads ft f VNull"
proof (rule reloadsI)
  have t: "trim (ascii ''NULL'') = ascii ''NULL''" by (intro trim_solid) (simp_all add: ascii_def solid_def)
  have "parse_sql_literal ft (ascii ''NULL'') = Some VNull"
    by (simp add: parse_sql_literal_def t) (simp add: eq_ignore_ascii_case_def to_ascii_lowercase_def ascii_def)
  moreover have "\<not> (is_digit (hd (ascii ''NULL'')) \<or> hd (ascii ''NULL'') = 45 \<or> hd (ascii ''NULL'') = 43 \<or> hd (ascii ''NULL'') = 46)"
    by (simp add: ascii_def is_digit_def)
  ultimately show "with_default ft f (ascii ''NULL'') = with_default_value ft f VNull" by (simp add: with_default_def t Let_def)
qed (use assms in \<open>simp_all add: default_sql_def show_value_def coerce_default_def is_null_def\<close>)

lemma reloads_bool:
  assumes "base (f_ty f) = Bool"
  shows "reloads ft f (VBool b)"
proof (rule reloadsI)
  let ?t = "ascii (if b then ''true'' else ''false'')"
  have t: "trim ?t = ?t" by (intro trim_solid) (simp_all add: ascii_def solid_def)
  have "parse_sql_literal ft ?t = Some (VBool b)"
    by (simp add: parse_sql_literal_def t) (auto simp: eq_ignore_ascii_case_def to_ascii_lowercase_def ascii_def)
  then show "with_default ft f ?t = with_default_value ft f (VBool b)" using assms by (simp add: with_default_def t is_decimal_def)
  show "coerce_default ft (VBool b) (f_ty f) = Inr (VBool b)"
    using assms physical_base [of "f_ty f", unfolded assms]
    by (auto simp: coerce_default_def is_null_def cast_to_def decimal_scale_def cast_integer_def as_integer_def as_i64_def int_bounds_def integer_value_def)
qed (simp add: default_sql_def show_value_def render_plain_def)

lemma cast_integer_word: "cast_integer (VUInt u) = Inr (uint u)" "cast_integer (VInt i) = Inr (sint i)"
proof -
  have "sint u = uint u" if "\<not> uint u > 2 ^ 63 - 1" using that sint_greater_eq [of u] by (simp add: sint_u64 split: if_splits)
  then show "cast_integer (VUInt u) = Inr (uint u)" by (auto simp: cast_integer_def as_integer_def as_i64_def as_u64_def)
qed (simp add: cast_integer_def as_integer_def as_i64_def)

lemma reloads_uint:
  assumes "physical (f_ty f) = U64" "is_integer (f_ty f)" "in_bounds (f_ty f) (uint u)"
  shows "reloads ft f (VUInt u)"
proof (rule reloadsI)
  have "number_text (show_nat (unat u))" using show_nat_digits by (auto simp: number_text_def)
  then show "with_default ft f (show_nat (unat u)) = with_default_value ft f (VUInt u)"
    using integer_plain [OF assms(2)] by (intro with_default_number parse_shown_uint) simp_all
  show "coerce_default ft (VUInt u) (f_ty f) = Inr (VUInt u)"
    using cast_in_bounds [OF assms(2) cast_integer_word(1) assms(3), of ft] assms(1) by (simp add: coerce_default_def is_null_def)
qed (simp add: default_sql_def show_value_def render_plain_def)

lemma reloads_int:
  assumes "physical (f_ty f) = I64" "is_integer (f_ty f)" "in_bounds (f_ty f) (sint i)"
  shows "reloads ft f (VInt i)"
proof (rule reloadsI)
  let ?w = "if sint i < 0 then VInt i else VUInt i"
  show "with_default ft f (show_int (sint i)) = with_default_value ft f ?w"
    using integer_plain [OF assms(2)] by (intro with_default_number show_int_number parse_shown_int) simp
  have "cast_integer ?w = Inr (sint i)" using cast_integer_word(1) [of i] cast_integer_word(2) [of i] uint_lt2p [of i] by (auto simp: sint_u64 split: if_splits)
  then show "coerce_default ft ?w (f_ty f) = Inr (VInt i)"
    using cast_in_bounds [OF assms(2) _ assms(3), of ?w ft] assms(1) by (auto simp: coerce_default_def is_null_def)
qed (simp add: default_sql_def show_value_def render_plain_def)

lemma reloads_str:
  assumes "physical (f_ty f) = Str"
  shows "reloads ft f (VStr s)"
proof (rule reloadsI)
  let ?q = "concat (map (\<lambda>b. if b = 39 then [39, 39] else [b]) s)"
  show "with_default ft f (39 # ?q @ [39]) = with_default_value ft f (VStr s)"
    by (simp add: with_default_def trim_quoted parse_quoted unquote_doubled is_digit_def)
  have "base (f_ty f) \<noteq> Date" "base (f_ty f) \<noteq> DateTime" "decimal_scale (f_ty f) = None"
    using assms physical_base [of "f_ty f"] by (auto simp: decimal_scale_def simp del: physical_base split: data_type.split)
  moreover from this have "coerce_default ft (VStr s) (f_ty f) = cast_to ft (VStr s) (f_ty f)"
    by (simp add: coerce_default_def is_null_def split: data_type.split)
  ultimately show "coerce_default ft (VStr s) (f_ty f) = Inr (VStr s)"
    using assms by (simp add: is_null_def cast_to_def render_plain_def)
qed (simp add: default_sql_def show_value_def)

lemma reloads_date:
  assumes "base (f_ty f) = Date"
  shows "reloads ft f (VDate d)"
proof (rule reloadsI)
  show "with_default ft f (39 # fmt_date (unat d) @ [39]) = with_default_value ft f (VStr (fmt_date (unat d)))"
    by (rule with_default_quoted [OF calendar_plain(1)])
  have "parse_date (fmt_date (unat d)) = Inr (unat d)" using unsigned_less [of d, where ?'a = nat] by (intro parse_date_text) simp
  then show "coerce_default ft (VStr (fmt_date (unat d))) (f_ty f) = Inr (VDate d)" using assms by (simp add: coerce_default_def is_null_def)
qed (simp add: default_sql_def render_plain_def)

lemma reloads_datetime:
  assumes "base (f_ty f) = DateTime" "- 62167219200 \<le> sint t"
  shows "reloads ft f (VDateTime t)"
proof (rule reloadsI)
  show "with_default ft f (39 # fmt_datetime (sint t) @ [39]) = with_default_value ft f (VStr (fmt_datetime (sint t)))"
    by (rule with_default_quoted [OF calendar_plain(2)])
  have "parse_datetime (fmt_datetime (sint t)) = Inr (sint t)" using assms(2) sint_less [of t] by (intro parse_datetime_text) simp_all
  then show "coerce_default ft (VStr (fmt_datetime (sint t))) (f_ty f) = Inr (VDateTime t)" using assms(1) by (simp add: coerce_default_def is_null_def)
qed (simp add: default_sql_def render_plain_def)

lemma reloads_decimal:
  assumes "base (f_ty f) = Decimal64 s" "\<bar>sint u\<bar> \<le> DECIMAL_MAX_UNITS" "type_ok (f_ty f)"
  shows "reloads ft f (VDecimal u s)"
proof (rule reloadsI)
  show "with_default ft f (39 # fmt_decimal (sint u) s @ [39]) = with_default_value ft f (VStr (fmt_decimal (sint u) s))"
    by (rule with_default_quoted [OF calendar_plain(3)])
  have "s \<le> 18" using type_ok_base [OF assms(3)] assms(1) by simp
  then have "parse_decimal_str (fmt_decimal (sint u) s) s = Some (sint u)" using assms(2) by (intro parse_fmt_decimal)
  then show "coerce_default ft (VStr (fmt_decimal (sint u) s)) (f_ty f) = Inr (VDecimal u s)"
    using assms(1) by (simp add: coerce_default_def is_null_def cast_to_def decimal_scale_def to_decimal_units_def trim_fmt_decimal)
qed (simp add: default_sql_def render_plain_def)

lemma printable_reloads: "printable (f_ty f) v \<Longrightarrow> reloads ft f v"
  by (cases v) (auto simp: printable_def fits_def reloads_null reloads_bool reloads_uint reloads_int reloads_str reloads_date reloads_datetime reloads_decimal)

section \<open>Names\<close>

definition names :: "schema \<Rightarrow> bytes list" where
  "names s = map f_name (s_fields s)"

text \<open>The index knows the first position of every name.\<close>

definition first_at :: "bytes list \<Rightarrow> bytes \<Rightarrow> nat option" where
  "first_at ns nm = find (\<lambda>i. ns ! i = nm) [0..<length ns]"

definition schema_ok :: "schema \<Rightarrow> bool" where
  "schema_ok s \<longleftrightarrow> (\<forall>nm. s_index s nm = first_at (names s) nm)"

lemma find_append: "find P (xs @ ys) = (case find P xs of Some x \<Rightarrow> Some x | None \<Rightarrow> find P ys)"
  by (induction xs) auto

lemma find_map: "find P (map f xs) = map_option f (find (P \<circ> f) xs)"
  by (induction xs) auto

lemma first_at_Cons: "first_at (x # ns) nm = (if x = nm then Some 0 else map_option Suc (first_at ns nm))"
proof -
  have "[0..<length (x # ns)] = 0 # map Suc [0..<length ns]" by (simp only: list.size add_0_right add_Suc_right upt_conv_Cons zero_less_Suc map_Suc_upt)
  then show ?thesis unfolding first_at_def by (simp only: find.simps find_map) (simp add: comp_def)
qed

lemma first_at_snoc: "first_at (ns @ [x]) nm = (case first_at ns nm of Some i \<Rightarrow> Some i | None \<Rightarrow> if x = nm then Some (length ns) else None)"
proof (induction ns)
  case Nil
  show ?case by (simp add: first_at_def)
next
  case (Cons y ns)
  then show ?case by (simp add: first_at_Cons split: option.split)
qed

lemma first_at_None: "first_at ns nm = None \<longleftrightarrow> nm \<notin> set ns"
  by (auto simp: first_at_def find_None_iff in_set_conv_nth)

lemma index_first_eq:
  "index_first i fs m nm = (case m nm of Some j \<Rightarrow> Some j | None \<Rightarrow> map_option ((+) i) (first_at (map f_name fs) nm))"
proof (induction fs arbitrary: i m)
  case Nil
  show ?case by (simp add: first_at_def split: option.split)
next
  case (Cons f fs)
  have s: "map_option ((+) (Suc i)) x = map_option (\<lambda>k. Suc (i + k)) x" for x by (cases x) simp_all
  show ?case
    by (simp add: Cons.IH first_at_Cons or_insert_def option.map_comp comp_def s split: option.split)
qed

lemma new_unchecked_ok: "schema_ok (new_unchecked fs)"
proof -
  have "map_option ((+) (0 :: nat)) x = x" for x by (cases x) simp_all
  then show ?thesis by (simp add: schema_ok_def new_unchecked_def index_first_eq names_def)
qed

lemma index_checked_eq:
  "index_checked i fs m = (if distinct (map f_name fs) \<and> (\<forall>f \<in> set fs. m (f_name f) = None) then Inr (index_first i fs m)
    else Inl (Bind ''duplicate column''))"
  by (induction fs arbitrary: i m) (auto simp: or_insert_def split: option.splits intro: rev_image_eqI)

lemma match_loop_found:
  "match_loop nm i fs (Some k) = (if \<exists>f \<in> set fs. eq_ignore_ascii_case (f_name f) nm then None else Some k)"
  by (induction fs arbitrary: i) auto

text \<open>The only position whose name agrees up to case.\<close>

definition only_match :: "bytes list \<Rightarrow> bytes \<Rightarrow> nat option" where
  "only_match ns nm = (case filter (\<lambda>i. eq_ignore_ascii_case (ns ! i) nm) [0..<length ns] of [i] \<Rightarrow> Some i | _ \<Rightarrow> None)"

lemma only_match_Cons:
  "only_match (x # ns) nm =
    (if eq_ignore_ascii_case x nm then (if \<exists>y \<in> set ns. eq_ignore_ascii_case y nm then None else Some 0)
     else map_option Suc (only_match ns nm))"
proof -
  let ?P = "\<lambda>i. eq_ignore_ascii_case (ns ! i) nm"
  have up: "[0..<length (x # ns)] = 0 # map Suc [0..<length ns]"
    by (simp only: list.size add_0_right add_Suc_right upt_conv_Cons zero_less_Suc map_Suc_upt)
  have e: "filter ?P [0..<length ns] = [] \<longleftrightarrow> \<not> (\<exists>y \<in> set ns. eq_ignore_ascii_case y nm)"
  proof -
    have "(\<exists>y \<in> set ns. eq_ignore_ascii_case y nm) \<longleftrightarrow> (\<exists>i < length ns. ?P i)" by (metis in_set_conv_nth)
    then show ?thesis by (auto simp: filter_empty_conv)
  qed
  show ?thesis unfolding only_match_def up
    using e by (cases "filter ?P [0..<length ns]") (auto simp: filter_map comp_def split: list.split)
qed

lemma match_loop_eq: "match_loop nm i fs None = map_option ((+) i) (only_match (map f_name fs) nm)"
proof (induction fs arbitrary: i)
  case (Cons f fs)
  then show ?case by (simp add: only_match_Cons match_loop_found option.map_comp comp_def)
qed (simp add: only_match_def)

lemma schema_push_ok: "schema_ok s \<Longrightarrow> schema_ok (schema_push s f)"
  by (auto simp: schema_ok_def schema_push_def names_def or_insert_def first_at_snoc split: option.split)

section \<open>The key column\<close>

text \<open>A key column leads the sort order, has no NULLs, is not a string and was declared.\<close>

lemma sort_col_Some:
  assumes "sort_col td = Some (Some c)"
  shows "\<exists>cs. order_by td = c # cs" "is_sorted (td_engine td)"
    "c < length (s_fields (td_schema td))" "\<not> is_nullable (f_ty (s_fields (td_schema td) ! c))" "\<not> is_string (f_ty (s_fields (td_schema td) ! c))"
  using assms by (auto simp: sort_col_def schema_ty_def split: if_splits list.splits)

lemma pk_col_Some:
  assumes "pk_col td = Some (Some c)"
  shows "sort_col td = Some (Some c)" "primary_key td = [c] \<or> td_engine td = ReplacingMergeTree \<and> order_by td = [c]"
  using assms by (auto simp: pk_col_def Let_def split: list.splits if_splits)

section \<open>Properties\<close>

lemma negative_zero_text: "fmt_float ft SIGN = [45, 48]"
proof -
  have "f64_mag SIGN = 0" by (simp add: f64_mag_def SIGN_def)
  then show ?thesis
    by (simp add: fmt_float_def f64_is_nan_def f64_is_finite_def f64_is_integral_def f64_trunc_def f64_exponent_def f64_significand_def
        show_nat.simps [of 0] digit_byte_def bit_SIGN)
qed



text \<open>Names resolve as documented in every schema the code builds (checked, unchecked, extended, projected, concatenated): an exact match wins,
  and is its first column; otherwise the name resolves only if exactly one column agrees with it up to ASCII case. The checked
  constructor refuses exactly the field lists with a repeated name.\<close>

theorem schema_lookup:
  assumes "schema_ok s" "nm \<in> set (names s)"
  shows "schema_index_of s nm = first_at (names s) nm
    \<and> (other \<notin> set (names s) \<longrightarrow> schema_index_of s other = only_match (names s) other
        \<and> (only_match (names s) other = None \<longleftrightarrow> schema_require s other = Inl (Bind ''unknown column'')))
    \<and> schema_ok (schema_push s f) \<and> schema_ok (schema_concat s t) \<and> (schema_project s cols = Some s' \<longrightarrow> schema_ok s')
    \<and> (case schema_new fs of Inr s' \<Rightarrow> distinct (map f_name fs) \<and> schema_ok s' \<and> s_fields s' = fs
       | Inl e \<Rightarrow> \<not> distinct (map f_name fs) \<and> e = Bind ''duplicate column'')"
proof -
  have other: "schema_index_of s other = only_match (names s) other" if "other \<notin> set (names s)"
  proof -
    have "s_index s other = None" using assms(1) that by (simp add: schema_ok_def first_at_None)
    moreover have "map_option ((+) (0 :: nat)) x = x" for x by (cases x) simp_all
    ultimately show ?thesis by (simp add: schema_index_of_def match_loop_eq names_def)
  qed
  have "first_at (names s) nm \<noteq> None" using assms(2) by (simp add: first_at_None)
  then have "schema_index_of s nm = first_at (names s) nm" using assms(1) by (auto simp: schema_index_of_def schema_ok_def)
  moreover have "case schema_new fs of Inr s' \<Rightarrow> distinct (map f_name fs) \<and> schema_ok s' \<and> s_fields s' = fs
       | Inl e \<Rightarrow> \<not> distinct (map f_name fs) \<and> e = Bind ''duplicate column''"
    using new_unchecked_ok [of fs] by (simp add: schema_new_def index_checked_eq new_unchecked_def)
  ultimately show ?thesis using other assms(1) schema_push_ok new_unchecked_ok
    by (auto simp: schema_concat_def schema_project_def schema_require_def split: option.split)
qed

theorem schema_lookup_witness:
  "schema_index_of (new_unchecked [field_new (ascii ''id'') UInt64, field_new (ascii ''ID'') Int64]) (ascii ''ID'') = Some 1
    \<and> schema_index_of (new_unchecked [field_new (ascii ''id'') UInt64, field_new (ascii ''ID'') Int64]) (ascii ''Id'') = None"
proof -
  let ?s = "new_unchecked [field_new (ascii ''id'') UInt64, field_new (ascii ''ID'') Int64]"
  have n: "names ?s = [ascii ''id'', ascii ''ID'']" by (simp add: names_def new_unchecked_def field_new_def)
  have "first_at [ascii ''id'', ascii ''ID''] (ascii ''ID'') = Some 1" "only_match [ascii ''id'', ascii ''ID''] (ascii ''Id'') = None"
    by (simp_all add: first_at_def only_match_def ascii_def eq_ignore_ascii_case_def to_ascii_lowercase_def upt_rec)
  then show ?thesis using schema_lookup [OF new_unchecked_ok [of "[field_new (ascii ''id'') UInt64, field_new (ascii ''ID'') Int64]"],
      of "ascii ''ID''" "ascii ''Id''"] unfolding n by (simp add: ascii_def)
qed

end
