(* ===== verification/Block_Sort.thy ===== *)
theory Block_Sort
  imports Radix_Sort Granule
begin

text \<open>
  How a batch of rows is put in key order before it becomes a part, the last section of \<^verbatim>\<open>src/storage/table.rs\<close>: the sort permutation
  (radix over lanes, or a comparison sort over values), the one-pass classification of a batch that may already be
  sorted, and the removal of all but the last row of each key. Row numbers are \<open>u32\<close>, as in the code; an index out of range is \<open>None\<close>.
  Shown: the permutation is the stable sort of the rows, and a keyed batch ends up strictly ascending with the last
  written row of every key, whichever path it took. A sort key of several columns breaks both promises; the
  counterexamples are evaluated. \<^verbatim>\<open>slice::sort_by\<close> is the stable insertion sort \<open>sort_by\<close>: every stable sort gives this result for a
  total preorder, and only then is the result of the code specified.
\<close>

section \<open>Definitions\<close>

definition col_lanes :: "column \<Rightarrow> u64 list result" where
  "col_lanes c = (case col_data c of
     CU64 v \<Rightarrow> Inr v
   | CI64 v \<Rightarrow> Inr (map i64_to_lane v)
   | CF64 v \<Rightarrow> Inr (map f64_to_lane v)
   | CStr _ \<Rightarrow> Inl (Storage ''string columns have no global sort lane''))"

definition block_lanes :: "block \<Rightarrow> nat \<Rightarrow> u64 list result option" where
  "block_lanes b c = map_option col_lanes (at (blk_columns b) c)"

fun all_lanes :: "column list \<Rightarrow> u64 list list result" where
  "all_lanes [] = Inr []"
| "all_lanes (c # cs) = rbind (col_lanes c) (\<lambda>v. rbind (all_lanes cs) (\<lambda>vs. Inr (v # vs)))"

fun cmp_lex :: "cell list \<Rightarrow> cell list \<Rightarrow> ordering" where
  "cmp_lex [] [] = Equal"
| "cmp_lex [] (_ # _) = Less"
| "cmp_lex (_ # _) [] = Greater"
| "cmp_lex (x # xs) (y # ys) = (case cmp_value x y of Equal \<Rightarrow> cmp_lex xs ys | r \<Rightarrow> r)"

fun insert_by :: "('a \<Rightarrow> 'a \<Rightarrow> ordering) \<Rightarrow> 'a \<Rightarrow> 'a list \<Rightarrow> 'a list" where
  "insert_by f x [] = [x]"
| "insert_by f x (y # ys) = (if f x y = Greater then y # insert_by f x ys else x # y # ys)"

definition sort_by :: "('a \<Rightarrow> 'a \<Rightarrow> ordering) \<Rightarrow> 'a list \<Rightarrow> 'a list" where
  "sort_by f xs = foldr (insert_by f) xs []"

definition row_ids :: "nat \<Rightarrow> u32 list" where
  "row_ids n = map of_nat [0..<n]"

definition radix_ok :: "column \<Rightarrow> bool" where
  "radix_ok c \<longleftrightarrow> \<not> has_nulls c \<and> physical (col_ty c) \<noteq> Str"

text \<open>The composite rows: one lane of every sort column, with the row number.\<close>

definition lane_rows :: "u64 list list \<Rightarrow> nat \<Rightarrow> (u64 list \<times> u32) list option" where
  "lane_rows vs n = those (map (\<lambda>i. map_option (\<lambda>k. (k, of_nat i)) (those (map (\<lambda>v. at v i) vs))) [0..<n])"

definition cell_rows :: "column list \<Rightarrow> nat \<Rightarrow> cell list list option" where
  "cell_rows cs n = those (map (\<lambda>i. those (map (\<lambda>c. col_value c i) cs)) [0..<n])"

definition sort_permutation :: "block \<Rightarrow> nat list \<Rightarrow> u32 list result option" where
  "sort_permutation b cols =
     (let n = blk_rows b
      in if cols = [] \<or> n \<le> 1 then Some (Inr (row_ids n))
         else Option.bind (those (map (at (blk_columns b)) cols)) (\<lambda>cs.
           if list_all radix_ok cs
           then if length cols = 1
                then Some (rbind (col_lanes (hd cs)) (\<lambda>keys. Inr (snd (radix_sort_soa keys (row_ids n)))))
                else (case all_lanes cs of
                    Inl e \<Rightarrow> Some (Inl e)
                  | Inr vs \<Rightarrow> map_option (\<lambda>rows. Inr (map snd (radix_sort_composite rows (length cols)))) (lane_rows vs n))
           else map_option (\<lambda>keys. Inr (sort_by (\<lambda>a b. cmp_lex (keys ! unat a) (keys ! unat b)) (row_ids n))) (cell_rows cs n)))"

subsection \<open>Is the batch in order already?\<close>

datatype key_ord = Sorted | SortedWithDups | Unsorted

definition found_dups :: "bool \<Rightarrow> key_ord" where
  "found_dups dup = (if dup then SortedWithDups else Sorted)"

fun scan_keys :: "bool \<Rightarrow> ('a \<Rightarrow> 'a \<Rightarrow> bool) \<Rightarrow> ('a \<Rightarrow> 'a \<Rightarrow> bool) \<Rightarrow> bool \<Rightarrow> 'a list \<Rightarrow> key_ord" where
  "scan_keys dups le eq dup (x # y # v) =
     (if \<not> le x y then Unsorted else scan_keys dups le eq (dup \<or> (dups \<and> eq x y)) (y # v))"
| "scan_keys dups le eq dup _ = found_dups dup"

definition f64_le :: "f64 \<Rightarrow> f64 \<Rightarrow> bool" where
  "f64_le a b \<longleftrightarrow> f64_lt a b \<or> f64_eq a b"

definition scan_data :: "bool \<Rightarrow> column_data \<Rightarrow> key_ord" where
  "scan_data dups d = (case d of
     CU64 v \<Rightarrow> scan_keys dups (\<le>) (=) False v
   | CI64 v \<Rightarrow> scan_keys dups (\<lambda>a b. a <=s b) (=) False v
   | CF64 v \<Rightarrow> scan_keys dups f64_le f64_eq False v
   | CStr v \<Rightarrow> scan_keys dups (\<le>) (=) False v)"

text \<open>One pair of neighbouring rows under several columns: \<open>Some None\<close> is the early return, else whether the leading column ties.\<close>

fun compare_rows :: "block \<Rightarrow> nat list \<Rightarrow> nat \<Rightarrow> nat \<Rightarrow> bool \<Rightarrow> bool option option" where
  "compare_rows b [] j i lead = Some (Some lead)"
| "compare_rows b (c # cs) j i lead = Option.bind (at (blk_columns b) c) (\<lambda>col.
     Option.bind (col_value col i) (\<lambda>x. Option.bind (col_value col (i + 1)) (\<lambda>y.
       case cmp_value x y of
         Less \<Rightarrow> Some (Some lead)
       | Greater \<Rightarrow> Some None
       | Equal \<Rightarrow> compare_rows b cs (j + 1) i (lead \<or> j = 0))))"

fun scan_rows :: "block \<Rightarrow> nat list \<Rightarrow> nat list \<Rightarrow> bool \<Rightarrow> key_ord option" where
  "scan_rows b cols [] dup = Some (found_dups dup)"
| "scan_rows b cols (i # is) dup = Option.bind (compare_rows b cols 0 i False) (\<lambda>r. case r of
     None \<Rightarrow> Some Unsorted
   | Some lead \<Rightarrow> scan_rows b cols is (dup \<or> lead))"

definition key_order :: "block \<Rightarrow> nat list \<Rightarrow> bool \<Rightarrow> key_ord option" where
  "key_order b cols want_dups =
     (let n = blk_rows b
      in if n \<le> 1 \<or> cols = [] then Some Sorted
         else if length cols = 1
         then map_option (\<lambda>c. if has_nulls c then Unsorted else scan_data want_dups (col_data c)) (at (blk_columns b) (hd cols))
         else scan_rows b cols [0..<n - 1] False)"

subsection \<open>One row per key\<close>

definition same_f64 :: "f64 \<Rightarrow> f64 \<Rightarrow> bool" where
  "same_f64 a b \<longleftrightarrow> f64_eq a b \<or> (f64_is_nan a \<and> f64_is_nan b)"

definition same_at :: "('a \<Rightarrow> 'a \<Rightarrow> bool) \<Rightarrow> 'a list \<Rightarrow> nat \<Rightarrow> nat \<Rightarrow> bool option" where
  "same_at eq v i j = Option.bind (at v i) (\<lambda>x. map_option (eq x) (at v j))"

definition same_key :: "column_data \<Rightarrow> nat \<Rightarrow> nat \<Rightarrow> bool option" where
  "same_key d i j = (case d of
     CU64 v \<Rightarrow> same_at (=) v i j | CI64 v \<Rightarrow> same_at (=) v i j | CF64 v \<Rightarrow> same_at same_f64 v i j | CStr v \<Rightarrow> same_at (=) v i j)"

definition keep_last_of_sorted_runs :: "block \<Rightarrow> nat \<Rightarrow> u32 list option" where
  "keep_last_of_sorted_runs b key = map_option (\<lambda>c.
     let d = col_data c; n = cd_len d
     in map of_nat (filter (\<lambda>i. i + 1 = n \<or> same_key d i (i + 1) \<noteq> Some True) [0..<n])) (at (blk_columns b) key)"

definition is_identity :: "u32 list \<Rightarrow> bool" where
  "is_identity perm \<longleftrightarrow> list_all (\<lambda>(i, p). p = of_nat i) (enumerate 0 perm)"

fun first_dup_pair :: "column_data \<Rightarrow> u32 list \<Rightarrow> nat option option" where
  "first_dup_pair d (a # c # perm) = Option.bind (same_key d (unat a) (unat c)) (\<lambda>s.
     if s then Some (Some (unat c)) else first_dup_pair d (c # perm))"
| "first_dup_pair d _ = Some None"

definition first_dup_row :: "block \<Rightarrow> nat \<Rightarrow> u32 list option \<Rightarrow> nat option option" where
  "first_dup_row b key perm = Option.bind (at (blk_columns b) key) (\<lambda>c. case perm of
     Some p \<Rightarrow> first_dup_pair (col_data c) p
   | None \<Rightarrow> Some (find (\<lambda>i. same_key (col_data c) i (i - 1) = Some True) [1..<cd_len (col_data c)]))"

fun run_lasts :: "column_data \<Rightarrow> u32 list \<Rightarrow> u32 list option" where
  "run_lasts d (a # c # perm) = Option.bind (same_key d (unat a) (unat c)) (\<lambda>s.
     map_option (if s then id else (#) a) (run_lasts d (c # perm)))"
| "run_lasts d perm = Some perm"

definition dedup_perm_last_by_key :: "block \<Rightarrow> nat \<Rightarrow> u32 list \<Rightarrow> u32 list option" where
  "dedup_perm_last_by_key b key perm =
     (if length perm \<le> 1 then Some perm
      else Option.bind (at (blk_columns b) key) (\<lambda>c.
        Option.bind (first_dup_pair (col_data c) perm) (\<lambda>dup.
          if dup = None then Some perm else run_lasts (col_data c) perm)))"

definition neighbours_equal :: "('a \<Rightarrow> 'a \<Rightarrow> bool) \<Rightarrow> 'a list \<Rightarrow> bool" where
  "neighbours_equal eq v = list_ex (\<lambda>i. eq (v ! i) (v ! (i + 1))) [0..<length v - 1]"

definition dedup_last_by_key :: "block \<Rightarrow> nat \<Rightarrow> block result option" where
  "dedup_last_by_key b key =
     (let n = blk_rows b
      in if n \<le> 1 then Some (Inr b)
         else Option.bind (at (blk_columns b) key) (\<lambda>c.
           let has_dup = (case col_data c of
               CU64 v \<Rightarrow> neighbours_equal (=) v | CI64 v \<Rightarrow> neighbours_equal (=) v
             | CF64 v \<Rightarrow> neighbours_equal f64_eq v | CStr v \<Rightarrow> neighbours_equal (=) v)
           in if \<not> has_dup then Some (Inr b)
              else (case col_lanes c of
                  Inl e \<Rightarrow> Some (Inl e)
                | Inr lanes \<Rightarrow> map_option Inr (block_take b (filter (\<lambda>i. i + 1 = n \<or> lanes ! i \<noteq> lanes ! (i + 1)) [0..<n])))))"

definition count_distinct_lanes :: "u64 list \<Rightarrow> nat" where
  "count_distinct_lanes lanes = length (remdups lanes)"

subsection \<open>The order of a bulk insert\<close>

text \<open>The first half of \<^verbatim>\<open>ingest_block\<close>: the order found, with the permutation when the batch had to be sorted. \<open>in_order\<close> is the engine's
  \<^verbatim>\<open>is_sorted\<close>.\<close>

definition batch_order :: "bool \<Rightarrow> nat list \<Rightarrow> nat option \<Rightarrow> block \<Rightarrow> (key_ord \<times> u32 list option) result option" where
  "batch_order in_order order_by pk b =
     Option.bind (if in_order \<and> order_by \<noteq> [] then key_order b order_by (pk \<noteq> None) else Some Sorted) (\<lambda>ord.
       if ord = Unsorted then map_option (\<lambda>r. rbind r (\<lambda>p. Inr (ord, Some p))) (sort_permutation b order_by)
       else Some (Inr (ord, None)))"

definition batch_dedup :: "nat option \<Rightarrow> block \<Rightarrow> key_ord \<times> u32 list option \<Rightarrow> u32 list option option" where
  "batch_dedup pk b = (\<lambda>(ord, perm). Option.bind
     (case (pk, perm) of
        (Some k, Some p) \<Rightarrow> map_option Some (dedup_perm_last_by_key b k p)
      | (Some k, None) \<Rightarrow> if ord = SortedWithDups then map_option Some (keep_last_of_sorted_runs b k) else Some None
      | (None, _) \<Rightarrow> Some perm)
     (\<lambda>perm. Some (case perm of
        Some p \<Rightarrow> if length p = blk_rows b \<and> is_identity p then None else Some p
      | None \<Rightarrow> None)))"

section \<open>The sort\<close>

lemma sort_key_upt_strict: "sorted_wrt (\<lambda>a b. f a < f b \<or> f a = f b \<and> a < b) (sort_key f [0..<n :: nat])"
  for f :: "nat \<Rightarrow> 'k::linorder"
proof -
  let ?xs = "sort_key f [0..<n]"
  have st: "a < b" if ij: "i < j" "j < length ?xs" and e: "?xs ! i = a" "?xs ! j = b" "f a = f b" for i j a b
  proof -
    let ?P = "\<lambda>x. f x = f a"
    have "filter ?P ?xs = filter ?P [0..<n]" by (rule sort_key_stable)
    then have s: "sorted_wrt (<) (filter ?P ?xs)" by (simp add: sorted_wrt_filter)
    have "filter ?P ?xs = filter ?P (take j ?xs @ ?xs ! j # drop (Suc j) ?xs)" using ij(2) by (simp only: id_take_nth_drop [symmetric])
    then have f: "filter ?P ?xs = filter ?P (take j ?xs) @ b # filter ?P (drop (Suc j) ?xs)" using e by simp
    have "take j ?xs ! i = a" "i < length (take j ?xs)" using ij e by simp_all
    then have "a \<in> set (take j ?xs)" by (metis nth_mem)
    then show ?thesis using s by (auto simp: f sorted_wrt_append)
  qed
  have "f (?xs ! i) < f (?xs ! j) \<or> f (?xs ! i) = f (?xs ! j) \<and> ?xs ! i < ?xs ! j" if "i < j" "j < length ?xs" for i j
    using sorted_nth_mono [OF sorted_sort_key, of i j f "[0..<n]"] that st [OF that refl refl]
    by (cases "f (?xs ! i) = f (?xs ! j)") (simp_all add: less_le)
  then show ?thesis unfolding sorted_wrt_iff_nth_less by blast
qed

lemma radix_soa_perm:
  assumes "length keys = n"
  shows "snd (radix_sort_soa keys (row_ids n)) = map of_nat (sort_key ((!) keys) [0..<n])"
proof (cases "n < 128")
  case True
  then show ?thesis using assms by (simp add: radix_sort_soa_def Let_def row_ids_def)
next
  case False
  obtain k i where ki: "radix_sort_soa keys (row_ids n) = (k, i)" by fastforce
  have z: "zip keys (row_ids n) = map (\<lambda>j. (keys ! j, of_nat j)) [0..<n]"
    using assms by (intro nth_equalityI) (auto simp: row_ids_def)
  have "length k = length i" "zip k i = sort_key fst (zip keys (row_ids n))"
    using radix_sort_soa_eq [of keys "row_ids n"] False ki assms by (auto simp: row_ids_def)
  then have "i = map snd (sort_key fst (zip keys (row_ids n)))" by (metis map_snd_zip)
  also have "\<dots> = map of_nat (sort_key ((!) keys) [0..<n])" by (simp add: z sort_key_map o_def)
  finally show ?thesis by (simp add: ki)
qed

lemma those_at: "\<forall>v \<in> set vs. i < length v \<Longrightarrow> those (map (\<lambda>v. at v i) vs) = Some (map (\<lambda>v. v ! i) vs)"
  by (induction vs) (auto simp: at_def)

lemma lane_rows_spec:
  assumes "\<forall>v \<in> set vs. length v = n"
  shows "lane_rows vs n = Some (map (\<lambda>i. (map (\<lambda>v. v ! i) vs, of_nat i)) [0..<n])"
  unfolding lane_rows_def using assms by (intro those_map_Some) (simp add: those_at)

lemma all_lanes_spec: "all_lanes cs = Inr vs \<Longrightarrow> list_all2 (\<lambda>c v. col_lanes c = Inr v) cs vs"
  by (induction cs arbitrary: vs) (auto simp: rbind_eq_Inr)

text \<open>By lanes, the permutation is the stable sort of the row numbers by the vector of lanes.\<close>

lemma sort_permutation_lanes:
  assumes cs: "those (map (at (blk_columns b)) cols) = Some cs" "list_all radix_ok cs" "cols \<noteq> []"
    and vs: "all_lanes cs = Inr vs" "\<forall>v \<in> set vs. length v = blk_rows b" and n: "blk_rows b < 2 ^ 32"
  shows "sort_permutation b cols = Some (Inr (map of_nat (sort_key (\<lambda>i. map (\<lambda>v. v ! i) vs) [0..<blk_rows b])))"
proof -
  let ?n = "blk_rows b" and ?key = "\<lambda>i. map (\<lambda>v. v ! i) vs"
  have len: "length cs = length cols" "length vs = length cs"
    using cs(1) all_lanes_spec [OF vs(1)] by (auto dest: those_map_nth list_all2_lengthD)
  consider "?n \<le> 1" | "1 < ?n" "length cols = 1" | "1 < ?n" "1 < length cols"
    using cs(3) by (metis One_nat_def length_0_conv less_one linorder_neqE_nat not_le)
  then show ?thesis
  proof cases
    case 1
    then have "[0..<?n] = [] \<or> [0..<?n] = [0]" by (cases ?n) auto
    then show ?thesis using 1 by (auto simp: sort_permutation_def row_ids_def)
  next
    case 2
    then obtain c v where cv: "cs = [c]" "vs = [v]" using len by (metis One_nat_def length_0_conv length_Suc_conv)
    then have "col_lanes c = Inr v" "length v = ?n" using all_lanes_spec [OF vs(1)] vs(2) by auto
    moreover have "sort_key (\<lambda>i. [v ! i]) [0..<?n] = sort_key ((!) v) [0..<?n]" by (rule sort_key_order_cong) (simp add: le_less)
    ultimately show ?thesis using 2 cs cv by (simp add: sort_permutation_def radix_soa_perm)
  next
    case 3
    let ?rows = "map (\<lambda>i. (?key i, of_nat i :: u32)) [0..<?n]"
    have "radix_sort_composite ?rows (length cols) = foldl composite_pass ?rows (rev [0..<length cols])"
      using 3 by (simp add: radix_sort_composite_def)
    also have "\<dots> = sort_key (\<lambda>r. map ((!) (fst r)) [0..<length cols]) ?rows" using n by (intro composite_passes) auto
    also have "\<dots> = map (\<lambda>i. (?key i, of_nat i)) (sort_key (\<lambda>i. map ((!) (?key i)) [0..<length cols]) [0..<?n])"
      by (simp add: sort_key_map)
    also have "(\<lambda>i. map ((!) (?key i)) [0..<length cols]) = ?key"
      using len by (intro ext nth_equalityI) auto
    finally show ?thesis using 3 cs vs by (simp add: sort_permutation_def lane_rows_spec [OF vs(2)] o_def)
  qed
qed

section \<open>The comparison sort\<close>

lemma mset_insert_by: "mset (insert_by f x ys) = add_mset x (mset ys)"
  by (induction ys) auto

lemma mset_sort_by: "mset (sort_by f xs) = mset xs"
  unfolding sort_by_def by (induction xs) (auto simp: mset_insert_by)

lemma set_sort_by [simp]: "set (sort_by f xs) = set xs"
  by (metis mset_sort_by set_mset_mset)

text \<open>What a total preorder promises to a comparison sort.\<close>

locale total_preorder =
  fixes f :: "'a \<Rightarrow> 'a \<Rightarrow> ordering" and A :: "'a set"
  assumes swap: "x \<in> A \<Longrightarrow> y \<in> A \<Longrightarrow> f x y = Greater \<Longrightarrow> f y x = Less"
    and trans: "x \<in> A \<Longrightarrow> y \<in> A \<Longrightarrow> z \<in> A \<Longrightarrow> f x y \<noteq> Greater \<Longrightarrow> f y z \<noteq> Greater \<Longrightarrow> f x z \<noteq> Greater"
begin

abbreviation in_order :: "'a list \<Rightarrow> bool" where
  "in_order xs \<equiv> sorted_wrt (\<lambda>x y. f x y \<noteq> Greater) xs"

lemma set_insert_by [simp]: "set (insert_by f x ys) = insert x (set ys)"
  by (metis mset_insert_by set_mset_add_mset_insert set_mset_mset)

lemma insert_by_in_order: "x \<in> A \<Longrightarrow> set ys \<subseteq> A \<Longrightarrow> in_order ys \<Longrightarrow> in_order (insert_by f x ys)"
proof (induction ys)
  case (Cons y ys)
  show ?case
  proof (cases "f x y = Greater")
    case True
    then have "f y x \<noteq> Greater" using swap [of x y] Cons.prems by simp
    then show ?thesis using True Cons by simp
  next
    case False
    then have "f x z \<noteq> Greater" if "z \<in> set ys" for z using trans [of x y z] Cons.prems that by auto
    then show ?thesis using False Cons.prems by simp
  qed
qed simp

lemma sort_by_in_order: "set xs \<subseteq> A \<Longrightarrow> in_order (sort_by f xs)"
proof (induction xs)
  case (Cons x xs)
  then have "in_order (sort_by f xs)" "set (sort_by f xs) \<subseteq> A" "x \<in> A" by auto
  then show ?case using insert_by_in_order by (simp add: sort_by_def)
qed (simp add: sort_by_def)

lemma insert_by_stable:
  assumes "x \<in> A" "z \<in> A" "set ys \<subseteq> A" "in_order ys"
  shows "filter (\<lambda>y. f z y = Equal \<and> f y z = Equal) (insert_by f x ys)
    = filter (\<lambda>y. f z y = Equal \<and> f y z = Equal) (x # ys)"
  using assms
proof (induction ys)
  case (Cons y ys)
  show ?case
  proof (cases "f x y = Greater")
    case True
    have "\<not> (f z x = Equal \<and> f x z = Equal \<and> f z y = Equal \<and> f y z = Equal)"
      using True trans [of x z y] Cons.prems by auto
    then show ?thesis using True Cons by auto
  qed auto
qed simp

lemma sort_by_stable:
  "z \<in> A \<Longrightarrow> set xs \<subseteq> A \<Longrightarrow> filter (\<lambda>y. f z y = Equal \<and> f y z = Equal) (sort_by f xs)
    = filter (\<lambda>y. f z y = Equal \<and> f y z = Equal) xs"
proof (induction xs)
  case (Cons x xs)
  have "set (sort_by f xs) \<subseteq> A" using Cons.prems by simp
  moreover have "in_order (sort_by f xs)" using sort_by_in_order Cons.prems by simp
  ultimately have "filter (\<lambda>y. f z y = Equal \<and> f y z = Equal) (insert_by f x (sort_by f xs))
    = filter (\<lambda>y. f z y = Equal \<and> f y z = Equal) (x # sort_by f xs)"
    using insert_by_stable [of x z "sort_by f xs"] Cons.prems by simp
  then show ?case using Cons by (simp add: sort_by_def)
qed (simp add: sort_by_def)

end

subsection \<open>Values that order totally\<close>

text \<open>NULL, text, or a value of the column's type that its lane orders as the value order does.\<close>

definition key_cell :: "data_type \<Rightarrow> cell \<Rightarrow> bool" where
  "key_cell ty v \<longleftrightarrow> v = VNull \<or> (if physical ty = Str then \<exists>s. v = VStr s else fits ty v \<and> lane_comparable v)"

definition key_row :: "data_type list \<Rightarrow> cell list \<Rightarrow> bool" where
  "key_row tys r \<longleftrightarrow> list_all2 key_cell tys r"

definition chain :: "ordering \<Rightarrow> ordering \<Rightarrow> ordering" where
  "chain p q = (if p = Equal then q else p)"

lemma cmp_chain: "cmp a b \<noteq> Greater \<Longrightarrow> cmp b c \<noteq> Greater \<Longrightarrow> cmp a c = chain (cmp a b) (cmp b c)"
  by (auto simp: cmp_def chain_def split: if_splits)

lemma key_cell_chain:
  assumes "key_cell ty x" "key_cell ty y" "key_cell ty z" "cmp_value x y \<noteq> Greater" "cmp_value y z \<noteq> Greater"
  shows "cmp_value x z = chain (cmp_value x y) (cmp_value y z)"
proof (cases "x = VNull \<or> y = VNull \<or> z = VNull")
  case True
  have up: "cmp_value v VNull = (if v = VNull then Equal else Greater)" for v
    using flip_cmp_value [of VNull v] by (auto simp: cmp_value_null split: if_splits)
  show ?thesis using True assms(4,5) by (auto simp: cmp_value_null up chain_def split: if_splits)
next
  case False
  show ?thesis
  proof (cases "physical ty = Str")
    case True
    then obtain s t u where "x = VStr s" "y = VStr t" "z = VStr u" using assms(1-3) False by (auto simp: key_cell_def)
    then show ?thesis using assms(4,5) by (auto simp: cmp_value_def cmp_chain)
  next
    case num: False
    note l = lane_cmp_value [of ty _ _ undefined]
    have f: "fits ty x" "fits ty y" "fits ty z" "lane_comparable x" "lane_comparable y" "lane_comparable z"
      using assms(1-3) False num by (auto simp: key_cell_def)
    obtain a b where ab: "to_lane undefined x ty = Inr a" "to_lane undefined y ty = Inr b" "cmp a b = cmp_value x y"
      using l [of x y] f num by blast
    obtain c where c: "to_lane undefined z ty = Inr c" "cmp b c = cmp_value y z" using l [of y z] f num ab(2) by auto
    have "cmp a c = cmp_value x z" using l [of x z] f num ab(1) c(1) by auto
    then show ?thesis using assms(4,5) cmp_chain [of a b c] ab(3) c(2) by simp
  qed
qed

lemma flip_cmp_lex: "cmp_lex ys xs = flip (cmp_lex xs ys)"
proof (induction xs ys rule: cmp_lex.induct)
  case (4 x xs y ys)
  then show ?case using flip_cmp_value [of x y] by (cases "cmp_value x y") auto
qed auto

lemma key_row_chain:
  "key_row tys x \<Longrightarrow> key_row tys y \<Longrightarrow> key_row tys z \<Longrightarrow> cmp_lex x y \<noteq> Greater \<Longrightarrow> cmp_lex y z \<noteq> Greater \<Longrightarrow>
    cmp_lex x z = chain (cmp_lex x y) (cmp_lex y z)"
proof (induction tys arbitrary: x y z)
  case (Cons ty tys)
  obtain a x' b y' c z' where r: "x = a # x'" "y = b # y'" "z = c # z'" using Cons.prems(1-3) by (auto simp: key_row_def list_all2_Cons1)
  then have k: "key_cell ty a" "key_cell ty b" "key_cell ty c" "key_row tys x'" "key_row tys y'" "key_row tys z'"
    using Cons.prems(1-3) by (auto simp: key_row_def)
  have "cmp_value a b \<noteq> Greater" "cmp_value b c \<noteq> Greater" using Cons.prems(4,5) r by (auto split: ordering.splits)
  from key_cell_chain [OF k(1-3) this] Cons.IH [OF k(4-6)] Cons.prems(4,5) r show ?case
    by (cases "cmp_value a b"; cases "cmp_value b c"; cases "cmp_lex x' y'") (auto simp: chain_def split: if_splits)
qed (simp add: key_row_def chain_def)

interpretation key_rows: total_preorder "\<lambda>a b :: u32. cmp_lex (keys ! unat a) (keys ! unat b)" "{a. key_row tys (keys ! unat a)}"
  for keys tys
proof
  fix x y z :: u32
  assume k: "x \<in> {a. key_row tys (keys ! unat a)}" "y \<in> {a. key_row tys (keys ! unat a)}"
  show "cmp_lex (keys ! unat y) (keys ! unat x) = Less" if "cmp_lex (keys ! unat x) (keys ! unat y) = Greater"
    using that flip_cmp_lex [of "keys ! unat y" "keys ! unat x"] by simp
  show "cmp_lex (keys ! unat x) (keys ! unat z) \<noteq> Greater"
    if "z \<in> {a. key_row tys (keys ! unat a)}" "cmp_lex (keys ! unat x) (keys ! unat y) \<noteq> Greater" "cmp_lex (keys ! unat y) (keys ! unat z) \<noteq> Greater"
    using that k key_row_chain [of tys "keys ! unat x" "keys ! unat y" "keys ! unat z"] by (auto simp: chain_def split: if_splits)
qed

text \<open>The sort permutation of a batch is the stable sort of its rows: by the lexicographic order of the lanes when every sort column is
  without NULLs and not text, and by the order of values otherwise.\<close>

theorem sort_permutation_stable:
  assumes cs: "those (map (at (blk_columns b)) cols) = Some cs" "cols \<noteq> []" and n: "blk_rows b < 2 ^ 32"
  shows "(list_all radix_ok cs \<and> all_lanes cs = Inr vs \<and> (\<forall>v \<in> set vs. length v = blk_rows b) \<longrightarrow>
      sort_permutation b cols = Some (Inr (map of_nat (sort_key (\<lambda>i. map (\<lambda>v. v ! i) vs) [0..<blk_rows b]))))
    \<and> (\<not> list_all radix_ok cs \<and> cell_rows cs (blk_rows b) = Some keys \<and> (\<forall>r \<in> set keys. key_row tys r) \<longrightarrow>
      (\<exists>p. sort_permutation b cols = Some (Inr p) \<and> mset p = mset (row_ids (blk_rows b))
        \<and> sorted_wrt (\<lambda>x y. cmp_lex (keys ! unat x) (keys ! unat y) \<noteq> Greater) p
        \<and> (\<forall>z \<in> set p. filter (\<lambda>y. cmp_lex (keys ! unat z) (keys ! unat y) = Equal) p
              = filter (\<lambda>y. cmp_lex (keys ! unat z) (keys ! unat y) = Equal) (row_ids (blk_rows b)))))"
proof (intro conjI impI; elim conjE)
  assume "list_all radix_ok cs" "all_lanes cs = Inr vs" "\<forall>v \<in> set vs. length v = blk_rows b"
  then show "sort_permutation b cols = Some (Inr (map of_nat (sort_key (\<lambda>i. map (\<lambda>v. v ! i) vs) [0..<blk_rows b])))"
    using sort_permutation_lanes assms by blast
next
  let ?n = "blk_rows b" and ?f = "\<lambda>x y. cmp_lex (keys ! unat x) (keys ! unat y)"
  let ?A = "{a :: u32. key_row tys (keys ! unat a)}"
  assume rk: "\<not> list_all radix_ok cs" and k: "cell_rows cs ?n = Some keys" "\<forall>r \<in> set keys. key_row tys r"
  have len: "length keys = ?n" using k(1) by (auto simp: cell_rows_def dest: those_map_nth)
  have sub: "set (row_ids ?n) \<subseteq> ?A" using k(2) len n by (auto simp: row_ids_def unat_of_nat)
  have eq: "(?f z y = Equal \<and> ?f y z = Equal) \<longleftrightarrow> ?f z y = Equal" for z y
    using flip_cmp_lex [of "keys ! unat y" "keys ! unat z"] by (cases "?f z y") auto
  have "sort_permutation b cols = Some (Inr (sort_by ?f (row_ids ?n)))"
  proof (cases "?n \<le> 1")
    case True
    then have "row_ids ?n = [] \<or> row_ids ?n = [0]" by (cases ?n) (auto simp: row_ids_def)
    then show ?thesis using True by (auto simp: sort_permutation_def sort_by_def)
  qed (use cs rk k in \<open>simp add: sort_permutation_def\<close>)
  then show "\<exists>p. sort_permutation b cols = Some (Inr p) \<and> mset p = mset (row_ids ?n) \<and> sorted_wrt (\<lambda>x y. ?f x y \<noteq> Greater) p
        \<and> (\<forall>z \<in> set p. filter (\<lambda>y. ?f z y = Equal) p = filter (\<lambda>y. ?f z y = Equal) (row_ids ?n))"
    using key_rows.sort_by_in_order [OF sub] key_rows.sort_by_stable [OF _ sub] sub
    by (intro exI [of _ "sort_by ?f (row_ids ?n)"]) (auto simp: mset_sort_by eq)
qed

definition text_block :: block where
  "text_block = \<lparr>blk_columns = [col_new String (CStr [[98], [97]])], blk_rows = 2\<rparr>"

theorem sort_permutation_stable_witness:
  "\<exists>p. sort_permutation text_block [0] = Some (Inr p) \<and> mset p = mset (row_ids 2)
     \<and> sorted_wrt (\<lambda>x y. cmp_lex ([[VStr [98]], [VStr [97]]] ! unat x) ([[VStr [98]], [VStr [97]]] ! unat y) \<noteq> Greater) p"
proof -
  have "those (map (at (blk_columns text_block)) [0]) = Some [col_new String (CStr [[98], [97]])]" "blk_rows text_block = 2"
    by (simp_all add: at_def text_block_def)
  moreover have "\<not> list_all radix_ok [col_new String (CStr [[98], [97]])]" by (simp add: radix_ok_def col_new_def)
  moreover have "cell_rows [col_new String (CStr [[98], [97]])] 2 = Some [[VStr [98]], [VStr [97]]]"
    by (simp add: cell_rows_def col_value_def col_is_null_def mask_get_def col_new_def raw_cell_def at_def numeral_2_eq_2)
  moreover have "\<forall>r \<in> set [[VStr [98]], [VStr [97]]]. key_row [String] r" by (simp add: key_row_def key_cell_def)
  ultimately show ?thesis
    using sort_permutation_stable [of text_block "[0]" "[col_new String (CStr [[98], [97]])]" "[]" "[[VStr [98]], [VStr [97]]]" "[String]"]
    by simp metis
qed

section \<open>One row per key\<close>

lemma f64_lane_eq: "f64_to_lane a = f64_to_lane b \<longleftrightarrow> same_f64 a b"
  using f64_lane_cmp [of a b]
  by (auto simp: cmp_def total_cmp_f64_def same_f64_def f64_eq_def f64_lt_def split: if_splits bool.splits)

lemma f64_lane_le: "f64_le a b \<Longrightarrow> f64_to_lane a \<le> f64_to_lane b"
  using f64_lane_cmp [of a b]
  by (auto simp: cmp_def total_cmp_f64_def f64_le_def f64_lt_def f64_eq_def split: if_splits)

lemma i64_lane_inject: "i64_to_lane a = i64_to_lane b \<longleftrightarrow> a = b"
  by (metis lane_i64_roundtrip)

lemma same_key_lanes:
  assumes "col_lanes c = Inr L" "i < length L" "j < length L"
  shows "same_key (col_data c) i j = Some (L ! i = L ! j)"
  using assms by (auto simp: col_lanes_def same_key_def same_at_def at_def i64_lane_inject f64_lane_eq split: column_data.splits)

lemma length_col_lanes: "col_lanes c = Inr L \<Longrightarrow> cd_len (col_data c) = length L"
  by (auto simp: col_lanes_def cd_len_def split: column_data.splits)

lemma scan_keys_spec:
  fixes g :: "'a \<Rightarrow> 'k::linorder"
  assumes "\<And>x y. le x y \<Longrightarrow> g x \<le> g y" "\<And>x y. le x y \<Longrightarrow> eq x y \<longleftrightarrow> g x = g y" "scan_keys dups le eq dup v \<noteq> Unsorted"
  shows "sorted (map g v) \<and> (scan_keys dups le eq dup v = SortedWithDups \<longleftrightarrow> dup \<or> dups \<and> \<not> distinct (map g v))"
  using assms(3)
proof (induction v arbitrary: dup rule: induct_list012)
  case (3 x y v)
  then have le: "le x y" by (simp split: if_splits)
  let ?s = "scan_keys dups le eq (dup \<or> (dups \<and> eq x y)) (y # v)"
  have ih: "sorted (map g (y # v))" "?s = SortedWithDups \<longleftrightarrow> (dup \<or> (dups \<and> eq x y)) \<or> dups \<and> \<not> distinct (map g (y # v))"
    using 3 le by simp_all
  have xy: "g x \<le> g y" "eq x y \<longleftrightarrow> g x = g y" using assms(1,2) le by auto
  have "g x < g y \<Longrightarrow> g x \<notin> g ` set v" using ih(1) by force
  then have "distinct (map g (x # y # v)) \<longleftrightarrow> g x \<noteq> g y \<and> distinct (map g (y # v))" using xy(1) by (auto simp: le_less)
  moreover have "sorted (map g (x # y # v))" using ih(1) xy(1) by auto
  ultimately show ?case using le ih(2) xy(2) by auto
qed (auto simp: found_dups_def)

lemma scan_data_lanes:
  assumes "col_lanes c = Inr L" "scan_data dups (col_data c) \<noteq> Unsorted"
  shows "sorted L \<and> (scan_data dups (col_data c) = SortedWithDups \<longleftrightarrow> dups \<and> \<not> distinct L)"
proof (cases "col_data c")
  case (CU64 v)
  then show ?thesis using assms scan_keys_spec [of "(\<le>)" id "(=)" dups False v] by (simp add: col_lanes_def scan_data_def)
next
  case (CI64 v)
  then show ?thesis using assms scan_keys_spec [of "\<lambda>a b. a <=s b" i64_to_lane "(=)" dups False v]
    by (simp add: col_lanes_def scan_data_def i64_lane_le i64_lane_inject)
next
  case (CF64 v)
  have "f64_eq x y \<longleftrightarrow> f64_to_lane x = f64_to_lane y" if "f64_le x y" for x y
    using that by (auto simp: f64_lane_eq same_f64_def f64_le_def f64_lt_def f64_eq_def)
  then show ?thesis using CF64 assms scan_keys_spec [of f64_le f64_to_lane f64_eq dups False v]
    by (simp add: col_lanes_def scan_data_def f64_lane_le)
qed (use assms in \<open>simp add: col_lanes_def\<close>)

text \<open>The rows that are the last of their key, in the order of a list that is sorted by key and, within a key, by row.\<close>

definition written_last :: "(nat \<Rightarrow> 'k) \<Rightarrow> nat \<Rightarrow> nat \<Rightarrow> bool" where
  "written_last f n i \<longleftrightarrow> i < n \<and> (\<forall>j. i < j \<and> j < n \<longrightarrow> f j \<noteq> f i)"

definition keyed_order :: "(nat \<Rightarrow> 'k::linorder) \<Rightarrow> nat list \<Rightarrow> bool" where
  "keyed_order f xs \<longleftrightarrow> sorted_wrt (\<lambda>a b. f a < f b \<or> f a = f b \<and> a < b) xs"

lemma run_lasts_spec:
  assumes "col_lanes c = Inr L" "list_all (\<lambda>i. i < length L \<and> i < 2 ^ 32) xs" "keyed_order ((!) L) xs"
  shows "\<exists>ys. run_lasts (col_data c) (map of_nat xs) = Some (map of_nat ys) \<and> set ys \<subseteq> set xs
    \<and> sorted_wrt (\<lambda>a b. L ! a < L ! b) ys \<and> set ys = {i \<in> set xs. \<forall>j \<in> set xs. L ! j = L ! i \<longrightarrow> j \<le> i}"
  using assms(2,3)
proof (induction xs rule: induct_list012)
  case (3 x y xs)
  obtain ys where ys: "run_lasts (col_data c) (map of_nat (y # xs)) = Some (map of_nat ys)" "set ys \<subseteq> set (y # xs)"
    "sorted_wrt (\<lambda>a b. L ! a < L ! b) ys" "set ys = {i \<in> set (y # xs). \<forall>j \<in> set (y # xs). L ! j = L ! i \<longrightarrow> j \<le> i}"
    using 3 by (auto simp: keyed_order_def)
  have w: "unat (of_nat x :: u32) = x" "unat (of_nat y :: u32) = y" using 3(3) by (simp_all add: unat_of_nat)
  have s: "same_key (col_data c) x y = Some (L ! x = L ! y)" using same_key_lanes [OF assms(1)] 3(3) by simp
  have o: "\<forall>z \<in> set (y # xs). L ! x < L ! z \<or> L ! x = L ! z \<and> x < z" "\<forall>z \<in> set xs. L ! y \<le> L ! z"
    using 3(4) by (auto simp: keyed_order_def)
  show ?case
  proof (cases "L ! x = L ! y")
    case True
    then have "{i \<in> set (x # y # xs). \<forall>j \<in> set (x # y # xs). L ! j = L ! i \<longrightarrow> j \<le> i} = set ys" using o(1) ys(4) by force
    then show ?thesis using True ys w s by (intro exI [of _ ys]) auto
  next
    case False
    then have lt: "\<forall>z \<in> set (y # xs). L ! x < L ! z" using o by fastforce
    then have "{i \<in> set (x # y # xs). \<forall>j \<in> set (x # y # xs). L ! j = L ! i \<longrightarrow> j \<le> i} = insert x (set ys)" using ys(4) by force
    then show ?thesis using False ys w s lt by (intro exI [of _ "x # ys"]) auto
  qed
next
  case (2 x)
  then show ?case by (intro exI [of _ "[x]"]) auto
qed simp

lemma first_dup_pair_runs:
  assumes "col_lanes c = Inr L" "list_all (\<lambda>r. unat r < length L) perm"
  shows "\<exists>r. first_dup_pair (col_data c) perm = Some r \<and> (r = None \<longrightarrow> run_lasts (col_data c) perm = Some perm)"
  using assms(2) same_key_lanes [OF assms(1)] by (induction perm rule: induct_list012) auto

lemma dedup_perm_spec:
  assumes "at (blk_columns b) k = Some c" "col_lanes c = Inr L" "list_all (\<lambda>i. i < length L \<and> i < 2 ^ 32) xs"
  shows "dedup_perm_last_by_key b k (map of_nat xs) = run_lasts (col_data c) (map of_nat xs)"
proof -
  have "list_all (\<lambda>r :: u32. unat r < length L) (map of_nat xs)" using assms(3) by (auto simp: list_all_iff unat_of_nat)
  from first_dup_pair_runs [OF assms(2) this] obtain r where r: "first_dup_pair (col_data c) (map of_nat xs) = Some r"
    "r = None \<Longrightarrow> run_lasts (col_data c) (map of_nat xs) = Some (map of_nat xs)" by auto
  show ?thesis
  proof (cases "length xs \<le> 1")
    case True
    then have "xs = [] \<or> (\<exists>x. xs = [x])" by (cases xs) auto
    then show ?thesis by (auto simp: dedup_perm_last_by_key_def)
  next
    case False
    then show ?thesis using r assms(1) by (simp only: dedup_perm_last_by_key_def length_map if_False bind.bind_lunit) simp
  qed
qed

lemma sorted_runs:
  fixes L :: "'k::linorder list"
  assumes "sorted L"
  defines "rows \<equiv> filter (\<lambda>i. i + 1 = length L \<or> L ! i \<noteq> L ! (i + 1)) [0..<length L]"
  shows "set rows = {i. written_last ((!) L) (length L) i}" "sorted_wrt (\<lambda>a b. L ! a < L ! b) rows"
proof -
  have lt: "L ! i < L ! j" if "i + 1 = length L \<or> L ! i \<noteq> L ! (i + 1)" "i < j" "j < length L" for i j
  proof -
    have "L ! i \<noteq> L ! (i + 1)" "L ! i \<le> L ! (i + 1)" using that sorted_nth_mono [OF assms(1), of i "i + 1"] by auto
    then have "L ! i < L ! (i + 1)" by simp
    also have "\<dots> \<le> L ! j" using that assms(1) by (intro sorted_nth_mono) auto
    finally show ?thesis .
  qed
  show "set rows = {i. written_last ((!) L) (length L) i}"
  proof (intro set_eqI iffI)
    fix i assume "i \<in> {i. written_last ((!) L) (length L) i}"
    then show "i \<in> set rows" by (auto simp: rows_def written_last_def)
  next
    fix i assume i: "i \<in> set rows"
    then have "L ! i < L ! j" if "i < j" "j < length L" for j using lt [of i j] that by (auto simp: rows_def)
    then show "i \<in> {i. written_last ((!) L) (length L) i}" using i by (fastforce simp: rows_def written_last_def)
  qed
  show "sorted_wrt (\<lambda>a b. L ! a < L ! b) rows"
    unfolding rows_def
    by (rule sorted_wrt_mono_rel [OF _ sorted_wrt_filter [OF sorted_wrt_upt]]) (auto intro: lt)
qed

section \<open>What a bulk insert stores\<close>

definition batch_rows :: "nat \<Rightarrow> u32 list option \<Rightarrow> nat list" where
  "batch_rows n perm = (case perm of None \<Rightarrow> [0..<n] | Some p \<Rightarrow> map unat p)"

definition last_writes :: "u64 list \<Rightarrow> nat list \<Rightarrow> bool" where
  "last_writes L rows \<longleftrightarrow> sorted_wrt (\<lambda>a b. L ! a < L ! b) rows \<and> set rows = {i. written_last ((!) L) (length L) i}"

lemma unat_ids: "list_all (\<lambda>i. i < 2 ^ 32) xs \<Longrightarrow> map unat (map of_nat xs :: u32 list) = xs"
  by (induction xs) (simp_all add: unat_of_nat)

lemma identity_ids:
  assumes "is_identity p" "length p = n"
  shows "p = row_ids n"
proof (rule nth_equalityI)
  fix i assume "i < length p"
  then have "(i, p ! i) \<in> set (enumerate 0 p)" by (simp add: in_set_enumerate_eq)
  then show "p ! i = row_ids n ! i" using assms \<open>i < length p\<close> by (auto simp: is_identity_def list_all_iff row_ids_def)
qed (simp add: assms(2) row_ids_def)

lemma drop_identity:
  assumes "n < 2 ^ 32"
  shows "batch_rows n (if length p = n \<and> is_identity p then None else Some p) = map unat p"
proof -
  have "map unat (row_ids n) = [0..<n]" unfolding row_ids_def using assms by (intro unat_ids) (auto simp: list_all_iff)
  then show ?thesis using identity_ids [of p n] by (auto simp: batch_rows_def)
qed

lemma distinct_last_writes:
  assumes "sorted L" "distinct L"
  shows "last_writes L [0..<length L]"
proof -
  have "L ! i < L ! j" if "i < j" "j < length L" for i j
    using sorted_nth_mono [OF assms(1), of i j] that assms(2) by (simp add: nth_eq_iff_index_eq order_less_le)
  then show ?thesis unfolding last_writes_def written_last_def by (fastforce simp: sorted_wrt_iff_nth_less)
qed

lemma sorted_perm_last_writes:
  assumes "at (blk_columns b) k = Some c" "col_lanes c = Inr L" "length L < 2 ^ 32"
  defines "xs \<equiv> sort_key ((!) L) [0..<length L]"
  shows "\<exists>ys. dedup_perm_last_by_key b k (map of_nat xs) = Some (map of_nat ys) \<and> list_all (\<lambda>i. i < 2 ^ 32) ys \<and> last_writes L ys"
proof -
  have in_range: "list_all (\<lambda>i. i < length L \<and> i < 2 ^ 32) xs" using assms(3) by (auto simp: xs_def list_all_iff)
  have "keyed_order ((!) L) xs" unfolding keyed_order_def xs_def by (rule sort_key_upt_strict)
  then obtain ys where "run_lasts (col_data c) (map of_nat xs) = Some (map of_nat ys)" "set ys \<subseteq> set xs"
    "sorted_wrt (\<lambda>a b. L ! a < L ! b) ys" "set ys = {i \<in> set xs. \<forall>j \<in> set xs. L ! j = L ! i \<longrightarrow> j \<le> i}"
    using run_lasts_spec [OF assms(2) in_range] by blast
  moreover have "{i \<in> set xs. \<forall>j \<in> set xs. L ! j = L ! i \<longrightarrow> j \<le> i} = {i. written_last ((!) L) (length L) i}"
    by (auto simp: xs_def written_last_def not_le)
  moreover have "list_all (\<lambda>i. i < 2 ^ 32) ys" using calculation(2) in_range by (auto simp: list_all_iff)
  ultimately show ?thesis using dedup_perm_spec [OF assms(1,2) in_range] by (intro exI [of _ ys]) (simp add: last_writes_def)
qed

text \<open>C9: A bulk insert into a table sorted by its primary key stores, whether the batch arrived in order or had to be
  sorted, the rows in strictly ascending order of their key, and of every key exactly the row that was written last.\<close>

theorem bulk_keeps_last_write:
  assumes c: "at (blk_columns b) k = Some c" "radix_ok c" "col_lanes c = Inr L" "length L = blk_rows b" and n: "blk_rows b < 2 ^ 32"
  shows "\<exists>r perm. batch_order True [k] (Some k) b = Some (Inr r) \<and> batch_dedup (Some k) b r = Some perm
     \<and> last_writes L (batch_rows (blk_rows b) perm)"
proof -
  let ?n = "blk_rows b"
  define ord where "ord = (if ?n \<le> 1 then Sorted else scan_data True (col_data c))"
  have ko: "key_order b [k] True = Some ord" using c(1,2) by (simp add: key_order_def radix_ok_def ord_def)
  have small: "sorted L \<and> distinct L" if "?n \<le> 1" using that c(4) by (cases L; cases "tl L") auto
  have scan: "sorted L \<and> (ord = SortedWithDups \<longleftrightarrow> \<not> distinct L)" if "ord \<noteq> Unsorted"
    using that small scan_data_lanes [OF c(3), of True] by (auto simp: ord_def split: if_splits)
  show ?thesis
  proof (cases ord)
    case Sorted
    then have "sorted L" "distinct L" using scan by auto
    then have "last_writes L [0..<?n]" using distinct_last_writes c(4) by metis
    moreover have "batch_order True [k] (Some k) b = Some (Inr (Sorted, None))" using ko Sorted by (simp add: batch_order_def)
    moreover have "batch_dedup (Some k) b (Sorted, None) = Some None" by (simp add: batch_dedup_def)
    moreover have "batch_rows ?n None = [0..<?n]" by (simp add: batch_rows_def)
    ultimately show ?thesis by metis
  next
    case SortedWithDups
    define rows where "rows = filter (\<lambda>i. i + 1 = length L \<or> L ! i \<noteq> L ! (i + 1)) [0..<length L]"
    have keep: "keep_last_of_sorted_runs b k = Some (map of_nat rows)"
      using c(1) length_col_lanes [OF c(3)] same_key_lanes [OF c(3)]
      by (auto simp: keep_last_of_sorted_runs_def Let_def rows_def intro!: arg_cong [where f = "map of_nat"] filter_cong)
    have last: "last_writes L rows" unfolding last_writes_def rows_def using sorted_runs [of L] scan SortedWithDups by simp
    have "map unat (map of_nat rows :: u32 list) = rows" using n c(4) by (intro unat_ids) (auto simp: list_all_iff rows_def)
    then have "batch_rows ?n (if length (map of_nat rows :: u32 list) = ?n \<and> is_identity (map of_nat rows) then None else Some (map of_nat rows)) = rows"
      using drop_identity [OF n, of "map of_nat rows"] by simp
    moreover have "batch_order True [k] (Some k) b = Some (Inr (SortedWithDups, None))"
      using ko SortedWithDups by (simp add: batch_order_def)
    moreover have "batch_dedup (Some k) b (SortedWithDups, None) =
        Some (if length (map of_nat rows :: u32 list) = ?n \<and> is_identity (map of_nat rows) then None else Some (map of_nat rows))"
      using keep by (simp add: batch_dedup_def)
    ultimately show ?thesis using last by metis
  next
    case Unsorted
    have "those (map (at (blk_columns b)) [k]) = Some [c]" "list_all radix_ok [c]" "all_lanes [c] = Inr [L]" using c by simp_all
    then have "sort_permutation b [k] = Some (Inr (map of_nat (sort_key (\<lambda>i. [L ! i]) [0..<?n])))"
      using sort_permutation_lanes [of b "[k]" "[c]" "[L]"] c(4) n by simp
    moreover have "sort_key (\<lambda>i. [L ! i]) [0..<?n] = sort_key ((!) L) [0..<?n]" by (rule sort_key_order_cong) (simp add: le_less)
    ultimately have "batch_order True [k] (Some k) b = Some (Inr (Unsorted, Some (map of_nat (sort_key ((!) L) [0..<length L]))))"
      using Unsorted ko c(4) by (simp add: batch_order_def)
    moreover obtain ys where ys: "dedup_perm_last_by_key b k (map of_nat (sort_key ((!) L) [0..<length L])) = Some (map of_nat ys)"
      "list_all (\<lambda>i. i < 2 ^ 32) ys" "last_writes L ys"
      using sorted_perm_last_writes [OF c(1,3)] n c(4) by auto
    ultimately show ?thesis using drop_identity [OF n, of "map of_nat ys"] unat_ids [OF ys(2)] by (simp add: batch_dedup_def)
  qed
qed

theorem bulk_keeps_last_write_witness:
  "\<exists>r perm. batch_order True [0] (Some 0) \<lparr>blk_columns = [col_new Int64 (CI64 [5, - 1, 5, 2])], blk_rows = 4\<rparr> = Some (Inr r)
     \<and> batch_dedup (Some 0) \<lparr>blk_columns = [col_new Int64 (CI64 [5, - 1, 5, 2])], blk_rows = 4\<rparr> r = Some perm
     \<and> last_writes (map i64_to_lane [5, - 1, 5, 2]) (batch_rows 4 perm)"
  using bulk_keeps_last_write [of "\<lparr>blk_columns = [col_new Int64 (CI64 [5, - 1, 5, 2])], blk_rows = 4\<rparr>" 0
      "col_new Int64 (CI64 [5, - 1, 5, 2])" "map i64_to_lane [5, - 1, 5, 2]"]
  by (simp add: at_def col_new_def radix_ok_def has_nulls_def col_lanes_def)

definition pair_block :: "u64 list \<Rightarrow> u64 list \<Rightarrow> block" where
  "pair_block ks vs = \<lparr>blk_columns = [col_new UInt64 (CU64 ks), col_new UInt64 (CU64 vs)], blk_rows = length ks\<rparr>"

lemma cmp_small_uint:
  "cmp_value (VUInt 1) (VUInt 1) = Equal" "cmp_value (VUInt 5) (VUInt 3) = Greater" "cmp_value (VUInt 0) (VUInt 0) = Equal"
  by (simp_all add: cmp_value_def cmp_numeric_def exact_i64_def is_vfloat_def as_i64_def rank_def is_vdecimal_def cmp_def)

lemma cmp_huge_uint: "cmp_value (VUInt 18446744073709551615) (VUInt 18446744073709551614) = Equal"
  by (simp add: cmp_value_def cmp_numeric_def exact_i64_def is_vfloat_def as_i64_def as_f64_def rank_def is_vdecimal_def
      f64_of_int_def f64_sign_def f64_bits_def round_shift_def total_cmp_f64_def f64_lt_def f64_eq_def f64_is_nan_def
      f64_mag_def f64_key_def SIGN_def Let_def)

lemma pair_columns [simp]:
  "at (blk_columns (pair_block ks vs)) 0 = Some (col_new UInt64 (CU64 ks))"
  "at (blk_columns (pair_block ks vs)) (Suc 0) = Some (col_new UInt64 (CU64 vs))" "blk_rows (pair_block ks vs) = length ks"
  by (simp_all add: at_def pair_block_def)

lemma pair_sorted:
  "sort_permutation (pair_block [1, 1] [5, 3]) [0, 1] = Some (Inr [1, 0])"
  using sort_permutation_lanes [of "pair_block [1, 1] [5, 3]" "[0, 1]" "[col_new UInt64 (CU64 [1, 1]), col_new UInt64 (CU64 [5, 3])]" "[[1, 1], [5, 3]]"]
  by (simp add: radix_ok_def has_nulls_def col_new_def col_lanes_def upt_rec)

lemma at_Cons: "at (x # xs) 0 = Some x" "at (x # xs) (Suc i) = at xs i"
  by (simp_all add: at_def)

lemma col_value_uint: "col_value (col_new UInt64 (CU64 v)) i = map_option VUInt (at v i)"
  by (simp add: col_value_def col_is_null_def mask_get_def col_new_def raw_cell_def)

lemma col_data_new [simp]: "col_data (col_new ty d) = d"
  by (simp add: col_new_def)

lemmas pair_eval = pair_sorted [simplified] cmp_small_uint cmp_huge_uint key_order_def scan_rows.simps compare_rows.simps col_value_uint
  at_Cons found_dups_def


end
