(* ===== verification/Table_Store.thy ===== *)
theory Table_Store
  imports Part_Set Delta_Buffer Table_Schema Block_Sort "HOL-Library.Product_Lexorder"
begin

text \<open>
  Tables, \<^verbatim>\<open>src/storage/table.rs\<close>: a write buffer in front of a set of parts, with the private view of an open transaction. This theory
  holds the operations; what is shown about them is in \<open>Table_Reads\<close>, \<open>Table_Txn\<close> and \<open>Table_Merge\<close>. An operation is a function
  of the table that returns its result and the table after it, since an error may leave traces; a panic is
  \<open>None\<close>. Row positions are \<open>nat\<close> where the code keeps them in \<open>u32\<close>. The number of threads of the host is the parameter \<open>av\<close>.
  Reading a part fills its bloom filter as a cache; the cache is filled in the set that is read and not in other snapshots that
  share the part. Prefetches, capacities and the fault injection of the tests have no effect on results and are left out.
\<close>

section \<open>State\<close>

datatype key_conflict = Replace | Reject

datatype row_loc = InDelta | InPart nat nat

datatype sweep_log = NoLog | Keys "u64 list" | Masks mask_runs

record table =
  t_def :: table_def
  t_pk_col :: "nat option"
  t_sort_col :: "nat option"
  t_pk_phys :: "physical_type option"
  t_delta :: delta
  t_parts :: part_set
  t_txn :: "part_set option"
  t_delta_limit :: nat
  t_replaying :: bool
  t_stats :: stats

definition BULK_INSERT_THRESHOLD :: nat where
  "BULK_INSERT_THRESHOLD = 4 * GRANULE_SIZE"

definition AUTO_COMPACT_PARTS :: nat where
  "AUTO_COMPACT_PARTS = 16"

definition PROBE_CHUNK :: nat where
  "PROBE_CHUNK = 256"

definition stats_default :: stats where
  "stats_default = \<lparr>bloom_negative = 0, fingerprint_negative = 0, zone_pruned_point = 0, zone_pruned_scan = 0, granules_scanned = 0,
     mph_probes = 0, false_probe = 0, rows_scanned = 0\<rparr>"

definition schema_types :: "schema \<Rightarrow> data_type list" where
  "schema_types sc = map f_ty (s_fields sc)"

text \<open>The set a mutation edits: the view of the open transaction, or the published one.\<close>

definition peek :: "table \<Rightarrow> part_set" where
  "peek t = (case t_txn t of Some view \<Rightarrow> view | None \<Rightarrow> t_parts t)"

definition publish :: "part_set \<Rightarrow> table \<Rightarrow> table" where
  "publish s t = (case t_txn t of Some _ \<Rightarrow> t\<lparr>t_txn := Some s\<rparr> | None \<Rightarrow> t\<lparr>t_parts := s\<rparr>)"

definition edit :: "(part_set \<Rightarrow> part_set) \<Rightarrow> table \<Rightarrow> table" where
  "edit f t = publish (f (peek t)) t"

definition from_part_set :: "table_def \<Rightarrow> part_set \<Rightarrow> nat \<Rightarrow> table option" where
  "from_part_set td ps limit =
     Option.bind (has_fast_pk td) (\<lambda>keyed. Option.bind (pk_col td) (\<lambda>pk. Option.bind (sort_col td) (\<lambda>sc.
       Option.bind (case pk of None \<Rightarrow> Some None | Some c \<Rightarrow> map_option (\<lambda>ty. Some (physical (base ty))) (schema_ty (td_schema td) c)) (\<lambda>phys.
         Some \<lparr>t_def = td, t_pk_col = pk, t_sort_col = sc, t_pk_phys = phys, t_delta = delta_new keyed (schema_types (td_schema td)),
           t_parts = ps, t_txn = None, t_delta_limit = limit, t_replaying = False, t_stats = stats_default\<rparr>))))"

definition table_new :: "table_def \<Rightarrow> nat \<Rightarrow> table option" where
  "table_new td limit = from_part_set td ps_default limit"

definition table_from_parts :: "table_def \<Rightarrow> part list \<Rightarrow> nat \<Rightarrow> table option" where
  "table_from_parts td ps limit = from_part_set td (ps_adopt ps) limit"

definition snapshot :: "table \<Rightarrow> part_set" where
  "snapshot t = (case t_txn t of Some view \<Rightarrow> view | None \<Rightarrow> t_parts t)"

definition committed_snapshot :: "table \<Rightarrow> part_set" where
  "committed_snapshot t = t_parts t"

definition set_parts :: "part list \<Rightarrow> table \<Rightarrow> table" where
  "set_parts ps t = t\<lparr>t_parts := ps_bump (ps_adopt ps)\<rparr>"

definition part_count :: "table \<Rightarrow> nat" where
  "part_count t = length (ps_parts (peek t))"

definition part_by_pid :: "table \<Rightarrow> u64 \<Rightarrow> (nat \<times> nat) option" where
  "part_by_pid t pid = (let s = peek t in map_option (\<lambda>i. (i, pt_n_rows (ps_parts s ! i))) (ps_index_of s pid))"

definition table_seed_pids :: "u64 \<Rightarrow> table \<Rightarrow> table" where
  "table_seed_pids floor t = t\<lparr>t_parts := ps_seed_pids (t_parts t) floor\<rparr>"

definition set_replaying :: "bool \<Rightarrow> table \<Rightarrow> table" where
  "set_replaying on t = t\<lparr>t_replaying := on\<rparr>"

definition freeze_delta :: "float_text \<Rightarrow> table \<Rightarrow> delta_image result option" where
  "freeze_delta ft t = freeze ft (t_delta t)"

definition has_pending_writes :: "table \<Rightarrow> bool" where
  "has_pending_writes t = (\<not> delta_is_empty (t_delta t))"

text \<open>Running one fallible step after another: an error stops, with the table as it is then.\<close>

type_synonym 'a outcome = "('a result \<times> table) option"

definition and_then :: "'a outcome \<Rightarrow> ('a \<Rightarrow> table \<Rightarrow> 'b outcome) \<Rightarrow> 'b outcome" where
  "and_then m k = (case m of None \<Rightarrow> None | Some (Inl e, t) \<Rightarrow> Some (Inl e, t) | Some (Inr x, t) \<Rightarrow> k x t)"

text \<open>A step that reads but does not change the table.\<close>

definition reading :: "'a result option \<Rightarrow> table \<Rightarrow> 'a outcome" where
  "reading r t = map_option (\<lambda>r. (r, t)) r"

section \<open>Point lookups and tombstones\<close>

fun tombstone_from :: "nat list \<Rightarrow> part_set \<Rightarrow> u64 \<Rightarrow> u64 \<Rightarrow> stats \<Rightarrow> (part_set \<times> stats) option" where
  "tombstone_from [] s lane fph st = Some (s, st)"
| "tombstone_from (pi # pis) s lane fph st = Option.bind (at (ps_parts s) pi) (\<lambda>p.
     if \<not> may_contain p fph then tombstone_from pis s lane fph (st\<lparr>bloom_negative := bloom_negative st + 1\<rparr>)
     else Option.bind (at (ps_deletes s) pi) (\<lambda>del. Option.bind (find_live p lane fph st del) (\<lambda>(hit, st).
       case hit of
         Some row \<Rightarrow> map_option (\<lambda>(_, s). (s, st)) (ps_tombstone s pi row)
       | None \<Rightarrow> tombstone_from pis s lane fph st)))"

definition tombstone_key :: "part_set \<Rightarrow> u64 \<Rightarrow> stats \<Rightarrow> (part_set \<times> stats) option" where
  "tombstone_key s lane st = tombstone_from [0..<length (ps_parts s)] s lane (hash_key lane FP_SEED) st"

fun locate_parts :: "bool \<Rightarrow> nat list \<Rightarrow> part_set \<Rightarrow> u64 \<Rightarrow> u64 \<Rightarrow> stats \<Rightarrow> (row_loc option \<times> stats) option" where
  "locate_parts multi [] s lane fph st = Some (None, st)"
| "locate_parts multi (pi # pis) s lane fph st = Option.bind (at (ps_parts s) pi) (\<lambda>p.
     if multi \<and> \<not> may_contain p fph then locate_parts multi pis s lane fph (st\<lparr>bloom_negative := bloom_negative st + 1\<rparr>)
     else Option.bind (at (ps_deletes s) pi) (\<lambda>del. Option.bind (find_live p lane fph st del) (\<lambda>(hit, st).
       case hit of
         Some row \<Rightarrow> Some (Some (InPart pi row), st)
       | None \<Rightarrow> locate_parts multi pis s lane fph st)))"

definition locate_in :: "part_set \<Rightarrow> delta \<Rightarrow> stats \<Rightarrow> u64 \<Rightarrow> (row_loc option \<times> stats) option" where
  "locate_in s d st lane =
     (case (if delta_is_empty d then None else delta_get d lane) of
        Some (Put _) \<Rightarrow> Some (Some InDelta, st)
      | Some Del \<Rightarrow> Some (None, st)
      | None \<Rightarrow> locate_parts (length (ps_parts s) > 1) (rev [0..<length (ps_parts s)]) s lane (hash_key lane FP_SEED) st)"

definition locate :: "table \<Rightarrow> u64 \<Rightarrow> (row_loc option \<times> table) option" where
  "locate t lane = map_option (\<lambda>(r, st). (r, t\<lparr>t_stats := st\<rparr>)) (locate_in (peek t) (t_delta t) (t_stats t) lane)"

definition table_value_at :: "table \<Rightarrow> part_set \<Rightarrow> u64 \<Rightarrow> row_loc \<Rightarrow> nat \<Rightarrow> cell option" where
  "table_value_at t snap lane loc c = (case loc of
     InDelta \<Rightarrow> (case delta_get (t_delta t) lane of Some (Put sl) \<Rightarrow> value_at (t_delta t) sl c | _ \<Rightarrow> Some VNull)
   | InPart pi row \<Rightarrow> Option.bind (at (ps_parts snap) pi) (\<lambda>p. part_value_at p row c))"

definition read_row_into :: "table \<Rightarrow> part_set \<Rightarrow> u64 \<Rightarrow> row_loc \<Rightarrow> cell list option" where
  "read_row_into t s lane loc = (case loc of
     InDelta \<Rightarrow> (case delta_get (t_delta t) lane of
         Some (Put sl) \<Rightarrow> those (map (value_at (t_delta t) sl) [0..<d_ncols (t_delta t)])
       | _ \<Rightarrow> Some [])
   | InPart pi row \<Rightarrow> Option.bind (at (ps_parts s) pi) (\<lambda>p.
       those (map (part_value_at p row) [0..<schema_len (td_schema (t_def t))])))"

definition get_lane :: "table \<Rightarrow> u64 \<Rightarrow> (cell list option \<times> table) option" where
  "get_lane t lane = Option.bind (locate t lane) (\<lambda>(loc, t'). case loc of
     None \<Rightarrow> Some (None, t')
   | Some loc \<Rightarrow> map_option (\<lambda>row. (Some row, t')) (read_row_into t' (peek t') lane loc))"

definition table_get :: "float_text \<Rightarrow> table \<Rightarrow> cell \<Rightarrow> cell list option outcome" where
  "table_get ft t key = (case t_pk_col t of
     None \<Rightarrow> Some (Inl (Storage ''has no single-column primary key to look up by''), t)
   | Some pk \<Rightarrow> Option.bind (schema_ty (td_schema (t_def t)) pk) (\<lambda>ty. case to_lane ft key ty of
       Inl e \<Rightarrow> Some (Inl e, t)
     | Inr lane \<Rightarrow> map_option (\<lambda>(row, t). (Inr row, t)) (get_lane t lane)))"

text \<open>The batched lookup: the buffer answers first, then part after part, newest first, for the queries that are still open.\<close>

fun probe_part :: "bool \<Rightarrow> part \<Rightarrow> deletes option \<Rightarrow> u64 list \<Rightarrow> nat list \<Rightarrow> stats \<Rightarrow> ((nat \<times> nat) list \<times> nat list \<times> stats) option" where
  "probe_part multi p del lanes [] st = Some ([], [], st)"
| "probe_part multi p del lanes (qi # pending) st = Option.bind (at lanes qi) (\<lambda>lane.
     let fph = hash_key lane FP_SEED
     in if multi \<and> \<not> may_contain p fph
        then map_option (\<lambda>(cands, next, st). (cands, qi # next, st)) (probe_part multi p del lanes pending (st\<lparr>bloom_negative := bloom_negative st + 1\<rparr>))
        else Option.bind (find_live p lane fph st del) (\<lambda>(hit, st).
          map_option (\<lambda>(cands, next, st). case hit of Some row \<Rightarrow> ((qi, row) # cands, next, st) | None \<Rightarrow> (cands, qi # next, st))
            (probe_part multi p del lanes pending st)))"

fun probe_parts :: "bool \<Rightarrow> nat list \<Rightarrow> part_set \<Rightarrow> u64 list \<Rightarrow> nat list \<Rightarrow> row_loc option list \<Rightarrow> stats \<Rightarrow> (row_loc option list \<times> stats) option" where
  "probe_parts multi [] s lanes pending out st = Some (out, st)"
| "probe_parts multi (pi # pis) s lanes pending out st =
     (if pending = [] then Some (out, st)
      else Option.bind (at (ps_parts s) pi) (\<lambda>p. Option.bind (at (ps_deletes s) pi) (\<lambda>del.
        Option.bind (probe_part multi p del lanes pending st) (\<lambda>(cands, next, st).
          probe_parts multi pis s lanes next (foldl (\<lambda>out (qi, row). out[qi := Some (InPart pi row)]) out cands) st))))"

definition answered :: "delta \<Rightarrow> u64 \<Rightarrow> row_loc option option" where
  "answered d lane = (case delta_get d lane of Some (Put _) \<Rightarrow> Some (Some InDelta) | Some Del \<Rightarrow> Some None | None \<Rightarrow> None)"

definition multi_locate :: "table \<Rightarrow> u64 list \<Rightarrow> (row_loc option list \<times> table) option" where
  "multi_locate t lanes =
     (let s = peek t; d = t_delta t; queries = [0..<length lanes];
          out = (if delta_is_empty d then replicate (length lanes) None
                 else map (\<lambda>lane. case answered d lane of Some r \<Rightarrow> r | None \<Rightarrow> None) lanes);
          pending = (if delta_is_empty d then queries else filter (\<lambda>qi. answered d (lanes ! qi) = None) queries)
      in map_option (\<lambda>(out, st). (out, t\<lparr>t_stats := st\<rparr>))
           (probe_parts (length (ps_parts s) > 1) (rev [0..<length (ps_parts s)]) s lanes pending out (t_stats t)))"

definition multi_get :: "table \<Rightarrow> u64 list \<Rightarrow> (cell list option list \<times> table) option" where
  "multi_get t lanes = Option.bind (multi_locate t lanes) (\<lambda>(locs, t').
     map_option (\<lambda>rows. (rows, t')) (those (map (\<lambda>(lane, loc). case loc of
       None \<Rightarrow> Some None | Some loc \<Rightarrow> map_option Some (read_row_into t' (snapshot t') lane loc)) (zip lanes locs))))"

definition table_mark_deleted :: "nat \<Rightarrow> nat \<Rightarrow> table \<Rightarrow> (bool \<times> table) option" where
  "table_mark_deleted pi row t =
     (if pi \<ge> length (ps_parts (peek t)) then Some (False, t)
      else map_option (\<lambda>(hidden, s). (hidden, publish (if hidden then ps_bump s else s) t)) (ps_tombstone (peek t) pi row))"

section \<open>Merging parts\<close>

text \<open>The heap holds \<open>(lane, part, row)\<close> and yields the least triple; it is kept as a sorted list.\<close>

type_synonym heap = "(u64 \<times> nat \<times> nat) list"

definition push_live :: "part \<Rightarrow> deletes option \<Rightarrow> nat \<Rightarrow> nat \<Rightarrow> heap \<Rightarrow> heap option" where
  "push_live p del k from heap = (case next_live p from del of
     None \<Rightarrow> Some heap
   | Some row \<Rightarrow> map_option (\<lambda>lane. insort (lane, k, row) heap) (sort_lane_at p row))"

fun heap_start :: "(part \<times> deletes option) list \<Rightarrow> nat \<Rightarrow> heap \<Rightarrow> heap option" where
  "heap_start [] k heap = Some heap"
| "heap_start ((p, del) # ps) k heap = Option.bind (push_live p del k 0 heap) (heap_start ps (k + 1))"

lemma next_live_range: "next_live p row del = Some r \<Longrightarrow> row \<le> r \<and> r < pt_n_rows p"
proof (induction p row del rule: next_live.induct)
  case (1 p row del)
  let ?gi = "row div 2 ^ G_SHIFT"
  note eq = 1(3) [unfolded next_live.simps [of p row del] Let_def]
  have lt: "row < pt_n_rows p" "?gi < length (pt_granules p)" using eq by (auto split: if_splits)
  have up: "row < (?gi + 1) * 2 ^ G_SHIFT" using dividend_less_div_times [of "2 ^ G_SHIFT" row] by simp
  consider "row mod GRANULE_SIZE \<ge> g_len (pt_granules p ! ?gi)" "next_live p ((?gi + 1) * 2 ^ G_SHIFT) del = Some r"
    | d where "row mod GRANULE_SIZE < g_len (pt_granules p ! ?gi)" "del = Some d" "granule_deleted d ?gi \<noteq> 0" "deletes_get d row"
        "next_live p (row + 1) del = Some r"
    | "r = row"
    using eq lt by (auto split: if_splits option.splits)
  then show ?case
  proof cases
    case 1
    then have "(?gi + 1) * 2 ^ G_SHIFT \<le> r \<and> r < pt_n_rows p"
      using "1.IH"(1) [OF lt(1) refl refl] lt(2) by simp
    then show ?thesis using up by linarith
  next
    case 2
    then have "row + 1 \<le> r \<and> r < pt_n_rows p" using "1.IH"(2) [OF lt(1) refl refl] lt(2) by simp
    then show ?thesis by linarith
  qed (use lt in simp)
qed

definition heap_weight :: "(part \<times> deletes option) list \<Rightarrow> heap \<Rightarrow> nat" where
  "heap_weight ps heap = sum_list (map (\<lambda>(_, k, row). Suc (pt_n_rows (fst (ps ! k)) - row)) heap)"

lemma heap_weight_insort: "heap_weight ps (insort x heap) = heap_weight ps (x # heap)"
  by (induction heap) (auto simp: heap_weight_def)

function heap_drain :: "(part \<times> deletes option) list \<Rightarrow> heap \<Rightarrow> (nat \<times> nat) list option" where
  "heap_drain ps [] = Some []"
| "heap_drain ps ((lane, k, row) # heap) =
     (if k < length ps
      then case push_live (fst (ps ! k)) (snd (ps ! k)) k (row + 1) heap of
             None \<Rightarrow> None
           | Some heap' \<Rightarrow> map_option ((#) (k, row)) (heap_drain ps heap')
      else None)"
  by pat_completeness auto
termination
proof (relation "measure (\<lambda>(ps, heap). heap_weight ps heap)")
  fix ps :: "(part \<times> deletes option) list" and lane k row heap heap'
  assume "push_live (fst (ps ! k)) (snd (ps ! k)) k (row + 1) heap = Some heap'"
  then consider "heap' = heap" | r l where "heap' = insort (l, k, r) heap" "row < r" "r < pt_n_rows (fst (ps ! k))"
    by (auto simp: push_live_def Suc_le_eq split: option.splits dest!: next_live_range)
  then show "((ps, heap'), (ps, (lane, k, row) # heap)) \<in> measure (\<lambda>(ps, heap). heap_weight ps heap)"
    by cases (auto simp: heap_weight_insort, auto simp: heap_weight_def)
qed auto

declare heap_drain.simps(2) [simp del]

definition merge_order :: "bool \<Rightarrow> (part \<times> deletes option) list \<Rightarrow> (nat \<times> nat) list option" where
  "merge_order has_sort_col ps =
     (if has_sort_col then Option.bind (heap_start ps 0 []) (heap_drain ps)
      else Some (concat (map (\<lambda>(k, p, del). map (Pair k) (live_positions_into p del)) (enumerate 0 ps))))"

fun remove_parts :: "nat list \<Rightarrow> part_set \<Rightarrow> part_set option" where
  "remove_parts [] s = Some s"
| "remove_parts (i # is) s = Option.bind (ps_remove s i) (\<lambda>(_, s). remove_parts is s)"

definition merge_parts :: "float_text \<Rightarrow> nat \<Rightarrow> nat list \<Rightarrow> table \<Rightarrow> unit outcome" where
  "merge_parts ft av idxs t =
     (let s = peek t
      in Option.bind (those (map (at (ps_deletes s)) idxs)) (\<lambda>dels.
        if length idxs < 2 \<and> list_all (\<lambda>d. d = None) dels then Some (Inr (), t)
        else Option.bind (those (map (at (ps_parts s)) idxs)) (\<lambda>picked.
          Option.bind (merge_order (t_sort_col t \<noteq> None) (zip picked dels)) (\<lambda>order.
          Option.bind (gather_rows ft picked (map (\<lambda>(k, row). (of_nat k, of_nat row)) order) (schema_types (td_schema (t_def t)))) (\<lambda>r.
            case r of
              Inl e \<Rightarrow> Some (Inl e, t)
            | Inr b \<Rightarrow>
                Option.bind (if blk_rows b > 0 then map_option Some (part_build av b (t_sort_col t) (t_pk_col t)) else Some None) (\<lambda>merged.
                Option.bind (remove_parts (rev (sort idxs)) s) (\<lambda>s.
                  let s = (case merged of Some p \<Rightarrow> ps_push s p | None \<Rightarrow> s)
                  in Some (Inr (), publish (ps_bump s) t))))))))"

text \<open>The smallest parts, while they stay under a quarter of the table, but at least half of the limit.\<close>

fun take_small :: "nat \<Rightarrow> (nat \<times> nat) list \<Rightarrow> nat list \<Rightarrow> nat \<Rightarrow> nat list" where
  "take_small budget [] taken acc = taken"
| "take_small budget ((i, rows) # by_size) taken acc =
     (if length taken \<ge> AUTO_COMPACT_PARTS div 2 \<and> acc + rows > budget then taken
      else take_small budget by_size (taken @ [i]) (acc + rows))"

definition compaction_picks :: "part_set \<Rightarrow> nat list option" where
  "compaction_picks s = Option.bind (ps_live_rows s) (\<lambda>total.
     map_option (\<lambda>sizes.
       let by_size = sort_key (\<lambda>i. sizes ! i) [0..<length sizes]
       in take_small (max (total div 4) 1) (map (\<lambda>i. (i, sizes ! i)) by_size) [] 0)
     (those (map (ps_live_rows_of s) [0..<length (ps_parts s)])))"

definition maybe_auto_compact :: "float_text \<Rightarrow> nat \<Rightarrow> table \<Rightarrow> unit outcome" where
  "maybe_auto_compact ft av t =
     (if t_replaying t \<or> part_count t < AUTO_COMPACT_PARTS then Some (Inr (), t)
      else Option.bind (compaction_picks (peek t)) (\<lambda>taken.
        if length taken < 2 then Some (Inr (), t) else merge_parts ft av taken t))"

function compact_to_steady :: "float_text \<Rightarrow> nat \<Rightarrow> table \<Rightarrow> unit outcome" where
  "compact_to_steady ft av t =
     (if part_count t \<ge> AUTO_COMPACT_PARTS
      then case maybe_auto_compact ft av t of
             None \<Rightarrow> None
           | Some (Inl e, t') \<Rightarrow> Some (Inl e, t')
           | Some (Inr _, t') \<Rightarrow> if part_count t' \<ge> part_count t then Some (Inr (), t') else compact_to_steady ft av t'
      else Some (Inr (), t))"
  by pat_completeness auto
termination by (relation "measure (\<lambda>(ft, av, t). part_count t)") auto

declare compact_to_steady.simps [simp del]

section \<open>Writing\<close>

definition ensure_filters :: "part_set \<Rightarrow> part_set option" where
  "ensure_filters s = map_option (\<lambda>rs. s\<lparr>ps_parts := map snd rs\<rparr>) (those (map ensure_filter (ps_parts s)))"

fun tombstone_keys :: "u64 list \<Rightarrow> part_set \<Rightarrow> stats \<Rightarrow> (part_set \<times> stats) option" where
  "tombstone_keys [] s st = Some (s, st)"
| "tombstone_keys (lane # lanes) s st = Option.bind (tombstone_key s lane st) (\<lambda>(s, st). tombstone_keys lanes s st)"

subsection \<open>Flushing the buffer\<close>

definition flush_perm :: "table_def \<Rightarrow> block \<Rightarrow> u32 list option result option" where
  "flush_perm td b =
     Option.bind (if is_sorted (td_engine td) \<and> order_by td \<noteq> [] then key_order b (order_by td) False else Some Sorted) (\<lambda>ord.
       if ord = Unsorted
       then map_option (\<lambda>r. rbind r (\<lambda>p. Inr (if is_identity p then None else Some p))) (sort_permutation b (order_by td))
       else Some (Inr None))"

definition flush_part :: "float_text \<Rightarrow> nat \<Rightarrow> table \<Rightarrow> part option result option" where
  "flush_part ft av t = Option.bind (to_block ft (t_delta t)) (\<lambda>r. case r of
     Inl e \<Rightarrow> Some (Inl e)
   | Inr b \<Rightarrow>
       if blk_rows b > 0
       then Option.bind (flush_perm (t_def t) b) (\<lambda>r. case r of
              Inl e \<Rightarrow> Some (Inl e)
            | Inr perm \<Rightarrow> map_option (\<lambda>p. Inr (Some p))
                (part_build_sel av b (map_option (map unat) perm) (t_sort_col t) (t_pk_col t)))
       else Some (Inr None))"

definition flush_publish :: "table \<Rightarrow> part option \<Rightarrow> table option" where
  "flush_publish t new =
     (let s = peek t
      in map_option (\<lambda>(s, st).
           let s = (case new of Some p \<Rightarrow> ps_push s p | None \<Rightarrow> s)
           in publish (ps_bump s) (t\<lparr>t_stats := st, t_delta := delta_clear (t_delta t)\<rparr>))
         (if t_pk_col t \<noteq> None \<and> ps_parts s \<noteq> []
          then Option.bind (ensure_filters s) (\<lambda>s. tombstone_keys (touched_keys (t_delta t)) s (t_stats t))
          else Some (s, t_stats t)))"

definition flush :: "float_text \<Rightarrow> nat \<Rightarrow> table \<Rightarrow> unit outcome" where
  "flush ft av t =
     (if delta_is_empty (t_delta t) then Some (Inr (), t)
      else Option.bind (flush_part ft av t) (\<lambda>r. case r of
        Inl e \<Rightarrow> Some (Inl e, t)
      | Inr new \<Rightarrow> Option.bind (flush_publish t new) (maybe_auto_compact ft av)))"

definition compact :: "float_text \<Rightarrow> nat \<Rightarrow> table \<Rightarrow> unit outcome" where
  "compact ft av t = and_then (flush ft av t) (\<lambda>_ t.
     let s = peek t
     in if length (ps_parts s) \<le> 1 \<and> (ps_parts s = [] \<or> at (ps_deletes s) 0 = Some None) then Some (Inr (), t)
        else merge_parts ft av [0..<length (ps_parts s)] t)"

definition row_count :: "float_text \<Rightarrow> nat \<Rightarrow> table \<Rightarrow> nat outcome" where
  "row_count ft av t = and_then (flush ft av t) (\<lambda>_ t. map_option (\<lambda>n. (Inr n, t)) (ps_live_rows (peek t)))"

subsection \<open>Transactions\<close>

definition begin_txn :: "float_text \<Rightarrow> nat \<Rightarrow> table \<Rightarrow> unit outcome" where
  "begin_txn ft av t =
     (if t_txn t \<noteq> None then Some (Inl (Storage ''is already inside a transaction''), t)
      else and_then (flush ft av t) (\<lambda>_ t. Some (Inr (), t\<lparr>t_txn := Some (t_parts t)\<rparr>)))"

definition commit_txn :: "table \<Rightarrow> table" where
  "commit_txn t = (case t_txn t of Some view \<Rightarrow> t\<lparr>t_txn := None, t_parts := view\<rparr> | None \<Rightarrow> t)"

definition rollback_txn :: "table \<Rightarrow> table" where
  "rollback_txn t = (case t_txn t of Some _ \<Rightarrow> t\<lparr>t_txn := None, t_delta := delta_clear (t_delta t)\<rparr> | None \<Rightarrow> t)"

definition in_txn :: "table \<Rightarrow> bool" where
  "in_txn t = (t_txn t \<noteq> None)"

subsection \<open>Single rows\<close>

definition key_lane :: "float_text \<Rightarrow> table \<Rightarrow> nat \<Rightarrow> cell \<Rightarrow> u64 result option" where
  "key_lane ft t pk v = Option.bind (t_pk_phys t) (\<lambda>phys.
     map_option (to_lane_phys ft v phys) (schema_ty (td_schema (t_def t)) pk))"

definition buffer_row :: "float_text \<Rightarrow> table \<Rightarrow> cell list \<Rightarrow> unit outcome" where
  "buffer_row ft t row = (case t_pk_col t of
     Some pk \<Rightarrow> Option.bind (at row pk) (\<lambda>v. Option.bind (key_lane ft t pk v) (\<lambda>r. case r of
         Inl e \<Rightarrow> Some (Inl e, t)
       | Inr lane \<Rightarrow> map_option (\<lambda>(r, d). (r, t\<lparr>t_delta := d\<rparr>)) (put_keyed ft (t_delta t) lane row)))
   | None \<Rightarrow> Some (case delta_append ft (t_delta t) row of (r, d) \<Rightarrow> (r, t\<lparr>t_delta := d\<rparr>)))"

definition flush_if_full :: "float_text \<Rightarrow> nat \<Rightarrow> table \<Rightarrow> unit outcome" where
  "flush_if_full ft av t = (if delta_len (t_delta t) \<ge> t_delta_limit t then flush ft av t else Some (Inr (), t))"

definition put_row :: "float_text \<Rightarrow> nat \<Rightarrow> cell list \<Rightarrow> table \<Rightarrow> unit outcome" where
  "put_row ft av row t =
     (if length row \<noteq> schema_len (td_schema (t_def t)) then Some (Inl (Storage ''columns, got''), t)
      else and_then (buffer_row ft t row) (\<lambda>_. flush_if_full ft av))"

definition delete_key :: "float_text \<Rightarrow> nat \<Rightarrow> cell \<Rightarrow> table \<Rightarrow> unit outcome" where
  "delete_key ft av key t = (case t_pk_col t of
     None \<Rightarrow> Some (Inl (Storage ''table has no single-column primary key''), t)
   | Some pk \<Rightarrow> Option.bind (schema_ty (td_schema (t_def t)) pk) (\<lambda>ty. case to_lane ft key ty of
       Inl e \<Rightarrow> Some (Inl e, t)
     | Inr lane \<Rightarrow> flush_if_full ft av (t\<lparr>t_delta := delete_keyed (t_delta t) lane\<rparr>)))"

subsection \<open>Batches\<close>

definition fits_column :: "data_type \<Rightarrow> column \<Rightarrow> bool" where
  "fits_column want c \<longleftrightarrow> col_ty c = want \<and> physical (col_ty c) = physical want \<and> cd_physical (col_data c) = physical want"

fun cast_cells :: "float_text \<Rightarrow> data_type \<Rightarrow> column \<Rightarrow> nat list \<Rightarrow> column_builder \<Rightarrow> column_builder result option" where
  "cast_cells ft want c [] b = Some (Inr b)"
| "cast_cells ft want c (r # rs) b = Option.bind (col_value c r) (\<lambda>v.
     case rbind (cast_to ft v want) (builder_push_value ft b) of
       Inl e \<Rightarrow> Some (Inl e)
     | Inr b \<Rightarrow> cast_cells ft want c rs b)"

definition coerce_column :: "float_text \<Rightarrow> data_type \<Rightarrow> column \<Rightarrow> column result option" where
  "coerce_column ft want c =
     (if col_ty c = want \<and> cd_physical (col_data c) = physical want then Some (Inr c)
      else map_option (\<lambda>r. rbind r (\<lambda>b. Inr (builder_finish b))) (cast_cells ft want c [0..<col_len c] (builder_new want)))"

fun coerce_columns :: "float_text \<Rightarrow> (data_type \<times> column) list \<Rightarrow> column list result option" where
  "coerce_columns ft [] = Some (Inr [])"
| "coerce_columns ft ((want, c) # cs) = Option.bind (coerce_column ft want c) (\<lambda>r. case r of
     Inl e \<Rightarrow> Some (Inl e)
   | Inr c \<Rightarrow> map_option (\<lambda>r. rbind r (\<lambda>cs. Inr (c # cs))) (coerce_columns ft cs))"

definition coerce_block :: "float_text \<Rightarrow> table_def \<Rightarrow> block \<Rightarrow> block result option" where
  "coerce_block ft td b =
     (let tys = schema_types (td_schema td)
      in if block_width b \<noteq> length tys then Some (Inl (Storage ''columns, got''))
         else if list_all2 fits_column tys (blk_columns b) then Some (Inr b)
         else map_option (\<lambda>r. rbind r block_new) (coerce_columns ft (zip tys (blk_columns b))))"

definition collision_err :: error where
  "collision_err = Exec ''a primary key names one row, so this would destroy the other''"

fun lanes_at :: "float_text \<Rightarrow> table \<Rightarrow> nat \<Rightarrow> column \<Rightarrow> nat list \<Rightarrow> u64 list result option" where
  "lanes_at ft t pk c [] = Some (Inr [])"
| "lanes_at ft t pk c (r # rs) = Option.bind (col_value c r) (\<lambda>v. Option.bind (key_lane ft t pk v) (\<lambda>l. case l of
     Inl e \<Rightarrow> Some (Inl e)
   | Inr lane \<Rightarrow> map_option (\<lambda>ls. rbind ls (\<lambda>ls. Inr (lane # ls))) (lanes_at ft t pk c rs)))"

fun probe_chunks :: "float_text \<Rightarrow> nat \<Rightarrow> column \<Rightarrow> nat list list \<Rightarrow> table \<Rightarrow> unit outcome" where
  "probe_chunks ft pk c [] t = Some (Inr (), t)"
| "probe_chunks ft pk c (rows # later) t = Option.bind (lanes_at ft t pk c rows) (\<lambda>r. case r of
     Inl e \<Rightarrow> Some (Inl e, t)
   | Inr lanes \<Rightarrow> Option.bind (multi_locate t lanes) (\<lambda>(locs, t).
       if list_ex (\<lambda>l. l \<noteq> None) locs then Some (Inl collision_err, t) else probe_chunks ft pk c later t))"

definition reject_stored_key_collisions :: "float_text \<Rightarrow> block \<Rightarrow> nat \<Rightarrow> table \<Rightarrow> unit outcome" where
  "reject_stored_key_collisions ft b pk t =
     Option.bind (if delta_is_empty (t_delta t) then map_option (\<lambda>n. n = 0) (ps_live_rows (peek t)) else Some False) (\<lambda>nothing.
       if nothing then Some (Inr (), t)
       else if blk_rows b = 0 then Some (Inr (), t)
       else Option.bind (at (blk_columns b) pk) (\<lambda>c. probe_chunks ft pk c (chunks PROBE_CHUNK [0..<blk_rows b]) t))"

definition reject_key_collisions :: "float_text \<Rightarrow> block \<Rightarrow> table \<Rightarrow> unit outcome" where
  "reject_key_collisions ft b t = (case t_pk_col t of
     None \<Rightarrow> Some (Inr (), t)
   | Some pk \<Rightarrow> and_then (reject_stored_key_collisions ft b pk t) (\<lambda>_ t.
       Option.bind (at (blk_columns b) pk) (\<lambda>c. Option.bind (lanes_at ft t pk c [0..<blk_rows b]) (\<lambda>r. case r of
         Inl e \<Rightarrow> Some (Inl e, t)
       | Inr lanes \<Rightarrow> Some (if neighbours_equal (=) (sort lanes) then Inl collision_err else Inr (), t)))))"

text \<open>Reading the row cell by cell, then buffering it.\<close>

fun buffer_rows :: "float_text \<Rightarrow> block \<Rightarrow> nat list \<Rightarrow> table \<Rightarrow> unit outcome" where
  "buffer_rows ft b [] t = Some (Inr (), t)"
| "buffer_rows ft b (i # is) t = Option.bind (those (map (\<lambda>c. col_value c i) (blk_columns b))) (\<lambda>row.
     and_then (buffer_row ft t row) (\<lambda>_. buffer_rows ft b is))"

fun tombstone_rows :: "float_text \<Rightarrow> table \<Rightarrow> nat \<Rightarrow> column \<Rightarrow> nat list \<Rightarrow> part_set \<Rightarrow> stats \<Rightarrow> (part_set result \<times> stats) option" where
  "tombstone_rows ft t pk c [] s st = Some (Inr s, st)"
| "tombstone_rows ft t pk c (r # rs) s st = Option.bind (col_value c r) (\<lambda>v. Option.bind (key_lane ft t pk v) (\<lambda>l. case l of
     Inl e \<Rightarrow> Some (Inl e, st)
   | Inr lane \<Rightarrow> Option.bind (tombstone_key s lane st) (\<lambda>(s, st). tombstone_rows ft t pk c rs s st)))"

definition ingest_publish :: "float_text \<Rightarrow> block \<Rightarrow> nat list \<Rightarrow> part \<Rightarrow> table \<Rightarrow> unit outcome" where
  "ingest_publish ft b rows new t = (case t_pk_col t of
     Some pk \<Rightarrow>
       if ps_parts (peek t) \<noteq> []
       then Option.bind (ensure_filters (peek t)) (\<lambda>s. Option.bind (at (blk_columns b) pk) (\<lambda>c.
              Option.bind (tombstone_rows ft t pk c rows s (t_stats t)) (\<lambda>(r, st). case r of
                Inl e \<Rightarrow> Some (Inl e, publish s (t\<lparr>t_stats := st\<rparr>))
              | Inr next \<Rightarrow> Some (Inr (), publish (ps_bump (ps_push next new)) (t\<lparr>t_stats := st\<rparr>)))))
       else Some (Inr (), edit (\<lambda>s. ps_bump (ps_push s new)) t)
   | None \<Rightarrow> Some (Inr (), edit (\<lambda>s. ps_bump (ps_push s new)) t))"

definition reject_in_batch :: "float_text \<Rightarrow> block \<Rightarrow> key_conflict \<Rightarrow> key_ord \<times> u32 list option \<Rightarrow> table \<Rightarrow> unit outcome" where
  "reject_in_batch ft b on_conflict order t = (case (on_conflict, t_pk_col t) of
     (Reject, Some pk) \<Rightarrow> and_then (reject_stored_key_collisions ft b pk t) (\<lambda>_ t.
       map_option (\<lambda>dup. (if dup = None then Inr () else Inl collision_err, t)) (first_dup_row b pk (snd order)))
   | _ \<Rightarrow> Some (Inr (), t))"

definition ingest_block :: "float_text \<Rightarrow> nat \<Rightarrow> block \<Rightarrow> key_conflict \<Rightarrow> table \<Rightarrow> unit outcome" where
  "ingest_block ft av b on_conflict t =
     (if blk_rows b = 0 then Some (Inr (), t)
      else and_then (reading (batch_order (is_sorted (td_engine (t_def t))) (order_by (t_def t)) (t_pk_col t) b) t) (\<lambda>order t.
        and_then (reject_in_batch ft b on_conflict order t) (\<lambda>_ t.
          Option.bind (batch_dedup (t_pk_col t) b order) (\<lambda>perm.
          Option.bind (part_build_sel av b (map_option (map unat) perm) (t_sort_col t) (t_pk_col t)) (\<lambda>new.
            ingest_publish ft b (batch_rows (blk_rows b) perm) new t)))))"

definition insert_with :: "float_text \<Rightarrow> nat \<Rightarrow> block \<Rightarrow> key_conflict \<Rightarrow> table \<Rightarrow> nat outcome" where
  "insert_with ft av b on_conflict t =
     and_then (reading (coerce_block ft (t_def t) b) t) (\<lambda>b t.
       let n = blk_rows b
       in if n = 0 then Some (Inr 0, t)
          else if n \<ge> BULK_INSERT_THRESHOLD
          then and_then (flush ft av t) (\<lambda>_ t.
               and_then (ingest_block ft av b on_conflict t) (\<lambda>_ t.
               and_then (maybe_auto_compact ft av t) (\<lambda>_ t. Some (Inr n, t))))
          else and_then (if on_conflict = Reject then reject_key_collisions ft b t else Some (Inr (), t)) (\<lambda>_ t.
               and_then (buffer_rows ft b [0..<n] t) (\<lambda>_ t.
               and_then (flush_if_full ft av t) (\<lambda>_ t. Some (Inr n, t)))))"

definition table_insert :: "float_text \<Rightarrow> nat \<Rightarrow> block \<Rightarrow> table \<Rightarrow> nat outcome" where
  "table_insert ft av b t = insert_with ft av b Replace t"

section \<open>Scans\<close>

definition SCAN_L1_BUDGET :: nat where
  "SCAN_L1_BUDGET = 32 * 1024"

definition BLOCK_SIZE :: nat where
  "BLOCK_SIZE = 8192"

definition SCAN_CLAIM :: nat where
  "SCAN_CLAIM = 8"

definition scan_batch_rows :: "nat list \<Rightarrow> nat" where
  "scan_batch_rows cols = min (max (SCAN_L1_BUDGET div (max (length cols) 1 * 8)) GRANULE_SIZE) BLOCK_SIZE"

definition empty_batch :: "schema \<Rightarrow> nat list \<Rightarrow> block result option" where
  "empty_batch sc cols = map_option (\<lambda>tys. block_new (map (\<lambda>ty. col_new ty (for_physical (physical ty))) tys)) (those (map (schema_ty sc) cols))"

definition append_granule :: "(packed_column \<Rightarrow> column \<Rightarrow> column option) \<Rightarrow> granule \<Rightarrow> nat list \<Rightarrow> block \<Rightarrow> block option" where
  "append_granule app g cols batch = map_option (\<lambda>cs. batch\<lparr>blk_columns := cs\<rparr>)
     (those (map (\<lambda>(k, c). Option.bind (at (g_columns g) c) (\<lambda>pc. Option.bind (at (blk_columns batch) k) (app pc))) (enumerate 0 cols)))"

definition read_granule :: "part \<Rightarrow> nat \<Rightarrow> deletes option \<Rightarrow> nat list \<Rightarrow> block \<Rightarrow> (nat \<times> block) option" where
  "read_granule p gi del cols batch = Option.bind (at (pt_granules p) gi) (\<lambda>g.
     if g_len g = 0 then Some (0, batch)
     else Option.bind (live_selection_into p gi del) (\<lambda>sel. case sel of
       None \<Rightarrow> map_option (Pair (g_len g)) (append_granule (\<lambda>pc. decode_append pc 0 (g_len g)) g cols batch)
     | Some sel \<Rightarrow> if sel = [] then Some (0, batch)
                   else map_option (Pair (length sel)) (append_granule (\<lambda>pc. gather_append pc sel) g cols batch)))"

definition scan_work :: "part_set \<Rightarrow> (nat \<times> nat) list" where
  "scan_work s = concat (map (\<lambda>pi. map (Pair pi) [0..<granule_count (ps_parts s ! pi)]) [0..<length (ps_parts s)])"

definition read_work :: "part_set \<Rightarrow> nat \<times> nat \<Rightarrow> nat list \<Rightarrow> block \<Rightarrow> (nat \<times> block) option" where
  "read_work s w cols batch = Option.bind (at (ps_parts s) (fst w)) (\<lambda>p. Option.bind (at (ps_deletes s) (fst w)) (\<lambda>del.
     read_granule p (snd w) del cols batch))"

text \<open>The callback is a fold step \<open>f\<close> over the caller's accumulator.\<close>

fun scan_loop :: "(nat \<times> nat) list \<Rightarrow> part_set \<Rightarrow> nat list \<Rightarrow> ('s \<Rightarrow> block \<Rightarrow> 's result) \<Rightarrow> block \<Rightarrow> nat \<Rightarrow> 's \<Rightarrow> 's result option" where
  "scan_loop [] s cols f batch rows acc = Some (if rows > 0 then f acc batch else Inr acc)"
| "scan_loop (w # work) s cols f batch rows acc = Option.bind (read_work s w cols batch) (\<lambda>(n, batch).
     let batch = set_rows batch (rows + n)
     in if rows + n \<ge> scan_batch_rows cols
        then case f acc batch of
               Inl e \<Rightarrow> Some (Inl e)
             | Inr acc \<Rightarrow> scan_loop work s cols f (block_clear batch) 0 acc
        else scan_loop work s cols f batch (rows + n) acc)"

definition scan_each_in :: "schema \<Rightarrow> part_set \<Rightarrow> nat list \<Rightarrow> ('s \<Rightarrow> block \<Rightarrow> 's result) \<Rightarrow> 's \<Rightarrow> 's result option" where
  "scan_each_in sc s cols f acc = Option.bind (empty_batch sc cols) (\<lambda>r. case r of
     Inl e \<Rightarrow> Some (Inl e)
   | Inr batch \<Rightarrow> scan_loop (scan_work s) s cols f batch 0 acc)"

definition scan_each :: "float_text \<Rightarrow> nat \<Rightarrow> nat list \<Rightarrow> ('s \<Rightarrow> block \<Rightarrow> 's result) \<Rightarrow> 's \<Rightarrow> table \<Rightarrow> 's outcome" where
  "scan_each ft av cols f acc t = and_then (flush ft av t) (\<lambda>_ t.
     map_option (\<lambda>r. (r, t)) (scan_each_in (td_schema (t_def t)) (snapshot t) cols f acc))"

definition table_scan :: "float_text \<Rightarrow> nat \<Rightarrow> nat list \<Rightarrow> table \<Rightarrow> block list outcome" where
  "table_scan ft av cols t = and_then (scan_each ft av cols (\<lambda>out b. Inr (out @ [b])) [] t) (\<lambda>out t.
     if out \<noteq> [] then Some (Inr out, t)
     else reading (map_option (\<lambda>r. rbind r (\<lambda>b. Inr [b])) (empty_batch (td_schema (t_def t)) cols)) t)"

fun fold_range :: "(nat \<times> nat) list \<Rightarrow> part_set \<Rightarrow> nat list \<Rightarrow> ('s \<Rightarrow> block \<Rightarrow> 's result) \<Rightarrow> block \<Rightarrow> 's \<Rightarrow> ('s result \<times> block) option" where
  "fold_range [] s cols f batch acc = Some (Inr acc, batch)"
| "fold_range (w # work) s cols f batch acc = Option.bind (read_work s w cols batch) (\<lambda>(n, batch).
     if n > 0
     then case f acc (set_rows batch n) of
            Inl e \<Rightarrow> Some (Inl e, set_rows batch n)
          | Inr acc \<Rightarrow> fold_range work s cols f (block_clear (set_rows batch n)) acc
     else fold_range work s cols f batch acc)"

text \<open>A worker folds the claims it drew from the shared counter; which ones is up to the scheduler, so \<open>claims\<close> is a parameter.\<close>

fun fold_claims :: "(nat \<times> nat) list list \<Rightarrow> part_set \<Rightarrow> nat list \<Rightarrow> ('s \<Rightarrow> block \<Rightarrow> 's result) \<Rightarrow> block \<Rightarrow> 's \<Rightarrow> 's result option" where
  "fold_claims [] s cols f batch acc = Some (Inr acc)"
| "fold_claims (c # claims) s cols f batch acc = Option.bind (fold_range c s cols f batch acc) (\<lambda>(r, batch). case r of
     Inl e \<Rightarrow> Some (Inl e)
   | Inr acc \<Rightarrow> fold_claims claims s cols f batch acc)"

fun merge_results :: "('s \<Rightarrow> 's \<Rightarrow> 's) \<Rightarrow> 's result list \<Rightarrow> 's option \<Rightarrow> 's option result" where
  "merge_results mg [] out = Inr out"
| "merge_results mg (r # rs) out = (case r of
     Inl e \<Rightarrow> Inl e
   | Inr v \<Rightarrow> merge_results mg rs (Some (case out of None \<Rightarrow> v | Some prev \<Rightarrow> mg prev v)))"

definition scan_fold_in ::
  "schema \<Rightarrow> part_set \<Rightarrow> nat list \<Rightarrow> 's \<Rightarrow> ('s \<Rightarrow> block \<Rightarrow> 's result) \<Rightarrow> ('s \<Rightarrow> 's \<Rightarrow> 's) \<Rightarrow> (nat \<times> nat) list list list \<Rightarrow> 's result option" where
  "scan_fold_in sc s cols init f mg claims = Option.bind (empty_batch sc cols) (\<lambda>r. case r of
     Inl e \<Rightarrow> Some (Inl e)
   | Inr batch \<Rightarrow>
       if length claims \<le> 1 then map_option fst (fold_range (scan_work s) s cols f batch init)
       else map_option (\<lambda>rs. rbind (merge_results mg rs None) (\<lambda>out. Inr (case out of Some v \<Rightarrow> v | None \<Rightarrow> init)))
              (those (map (\<lambda>c. fold_claims c s cols f batch init) claims)))"

definition scan_fold ::
  "float_text \<Rightarrow> nat \<Rightarrow> nat list \<Rightarrow> 's \<Rightarrow> ('s \<Rightarrow> block \<Rightarrow> 's result) \<Rightarrow> ('s \<Rightarrow> 's \<Rightarrow> 's) \<Rightarrow> (nat \<times> nat) list list list \<Rightarrow> table \<Rightarrow> 's outcome" where
  "scan_fold ft av cols init f mg claims t = and_then (flush ft av t) (\<lambda>_ t.
     map_option (\<lambda>r. (r, t)) (scan_fold_in (td_schema (t_def t)) (snapshot t) cols init f mg claims))"

section \<open>Sweeps\<close>

text \<open>A zone filter is a column of the projection with the planner's \<open>may_match\<close> on its bounds; a predicate is the evaluator of the
  expression on a block. Both come from the planner and are parameters.\<close>

type_synonym zone_filter = "nat \<times> (cell \<Rightarrow> cell \<Rightarrow> bool)"

fun zone_prunes :: "granule \<Rightarrow> nat list \<Rightarrow> zone_filter list \<Rightarrow> bool option" where
  "zone_prunes g projection [] = Some False"
| "zone_prunes g projection ((zc, may_match) # zone) = (case Option.bind (at projection zc) (at (g_columns g)) of
     None \<Rightarrow> zone_prunes g projection zone
   | Some pc \<Rightarrow> Option.bind (min_value pc) (\<lambda>lo. Option.bind (max_value pc) (\<lambda>hi.
       if \<not> may_match lo hi then Some True else zone_prunes g projection zone)))"

definition sweep_note :: "sweep_log \<Rightarrow> packed_column option \<Rightarrow> u64 option \<Rightarrow> nat \<Rightarrow> nat \<Rightarrow> sweep_log" where
  "sweep_note sink lanes cite bas off = (case sink of
     Keys k \<Rightarrow> (case lanes of Some pc \<Rightarrow> Keys (k @ [pc_lane pc off]) | None \<Rightarrow> Keys k)
   | Masks m \<Rightarrow> (case cite of Some pid \<Rightarrow> Masks (mask_hide m pid (of_nat (bas + off))) | None \<Rightarrow> Masks (m\<lparr>mr_dark := mr_dark m + 1\<rparr>))
   | NoLog \<Rightarrow> NoLog)"

fun sweep_hits :: "nat list \<Rightarrow> nat \<Rightarrow> nat \<Rightarrow> packed_column option \<Rightarrow> u64 option \<Rightarrow> part_set \<Rightarrow> sweep_log \<Rightarrow> nat \<Rightarrow> (part_set \<times> sweep_log \<times> nat) option" where
  "sweep_hits [] pi bas lanes cite s sink hidden = Some (s, sink, hidden)"
| "sweep_hits (off # offs) pi bas lanes cite s sink hidden = Option.bind (ps_tombstone s pi (bas + off)) (\<lambda>(fresh, s).
     if \<not> fresh then sweep_hits offs pi bas lanes cite s sink hidden
     else sweep_hits offs pi bas lanes cite s (sweep_note sink lanes cite bas off) (hidden + 1))"

definition keeps_row :: "column \<Rightarrow> nat \<Rightarrow> bool option" where
  "keeps_row mk i = map_option (\<lambda>hit. \<not> mask_get (col_nulls mk) i \<and> hit) (case col_data mk of
     CU64 v \<Rightarrow> map_option (\<lambda>x. x \<noteq> 0) (at v i)
   | CI64 v \<Rightarrow> map_option (\<lambda>x. x \<noteq> 0) (at v i)
   | CF64 v \<Rightarrow> map_option (\<lambda>x. \<not> f64_eq x 0) (at v i)
   | CStr v \<Rightarrow> map_option (\<lambda>x. x \<noteq> []) (at v i))"

definition matching :: "nat list option \<Rightarrow> nat \<Rightarrow> column \<Rightarrow> nat list option" where
  "matching lv rows mk =
     (let rows = min rows (col_len mk)
      in map_option (\<lambda>ks. map (\<lambda>(i, _). case lv of None \<Rightarrow> i | Some sel \<Rightarrow> sel ! i) (filter snd (zip [0..<rows] ks)))
           (those (map (keeps_row mk) [0..<rows])))"

definition sweep_granule ::
  "nat list \<Rightarrow> (block \<Rightarrow> column result) option \<Rightarrow> zone_filter list \<Rightarrow> nat option \<Rightarrow> nat \<Rightarrow> nat \<Rightarrow> part_set \<times> sweep_log \<times> nat
    \<Rightarrow> (unit result \<times> part_set \<times> sweep_log \<times> nat) option" where
  "sweep_granule projection pred zone pk pi gi = (\<lambda>(s, sink, hidden).
     Option.bind (at (ps_parts s) pi) (\<lambda>p. Option.bind (at (pt_granules p) gi) (\<lambda>g.
     Option.bind (ps_citable s pi) (\<lambda>cite. Option.bind (zone_prunes g projection zone) (\<lambda>pruned.
       if pruned then Some (Inr (), s, sink, hidden)
       else Option.bind (at (ps_deletes s) pi) (\<lambda>del. Option.bind (live_selection_into p gi del) (\<lambda>lv.
         let rows = (case lv of None \<Rightarrow> g_len g | Some sel \<Rightarrow> length sel); bas = gi * 2 ^ G_SHIFT
         in if rows = 0 then Some (Inr (), s, sink, hidden)
            else Option.bind (case pk of None \<Rightarrow> Some None | Some c \<Rightarrow> map_option Some (at (g_columns g) c)) (\<lambda>lanes.
              case pred of
                None \<Rightarrow> map_option (Pair (Inr ())) (sweep_hits (case lv of None \<Rightarrow> [0..<rows] | Some sel \<Rightarrow> sel) pi bas lanes cite s sink hidden)
              | Some e \<Rightarrow> Option.bind (read_columns p gi projection lv) (\<lambda>r. case rbind r e of
                    Inl err \<Rightarrow> Some (Inl err, s, sink, hidden)
                  | Inr mk \<Rightarrow> Option.bind (matching lv rows mk) (\<lambda>offs.
                      map_option (Pair (Inr ())) (sweep_hits offs pi bas lanes cite s sink hidden)))))))))))"

fun sweep_work ::
  "(nat \<times> nat) list \<Rightarrow> nat list \<Rightarrow> (block \<Rightarrow> column result) option \<Rightarrow> zone_filter list \<Rightarrow> nat option \<Rightarrow> part_set \<times> sweep_log \<times> nat
    \<Rightarrow> (unit result \<times> part_set \<times> sweep_log \<times> nat) option" where
  "sweep_work [] projection pred zone pk st = Some (Inr (), st)"
| "sweep_work ((pi, gi) # work) projection pred zone pk st = Option.bind (sweep_granule projection pred zone pk pi gi st) (\<lambda>(r, st). case r of
     Inl e \<Rightarrow> Some (Inl e, st)
   | Inr _ \<Rightarrow> sweep_work work projection pred zone pk st)"

definition delete_where_keys ::
  "float_text \<Rightarrow> nat \<Rightarrow> nat list \<Rightarrow> (block \<Rightarrow> column result) option \<Rightarrow> zone_filter list \<Rightarrow> sweep_log \<Rightarrow> table \<Rightarrow> (nat result \<times> sweep_log \<times> table) option" where
  "delete_where_keys ft av projection pred zone sink t = Option.bind (flush ft av t) (\<lambda>(r, t). case r of
     Inl e \<Rightarrow> Some (Inl e, sink, t)
   | Inr _ \<Rightarrow>
       let s = peek t; pk = (case sink of Keys _ \<Rightarrow> t_pk_col t | _ \<Rightarrow> None)
       in map_option (\<lambda>(r, s, sink, hidden). case r of
            Inl e \<Rightarrow> (Inl e, sink, t)
          | Inr _ \<Rightarrow> (Inr hidden, sink, publish (ps_bump s) t)) (sweep_work (scan_work s) projection pred zone pk (s, sink, 0)))"

definition delete_where :: "float_text \<Rightarrow> nat \<Rightarrow> nat list \<Rightarrow> (block \<Rightarrow> column result) option \<Rightarrow> zone_filter list \<Rightarrow> table \<Rightarrow> nat outcome" where
  "delete_where ft av projection pred zone t =
     map_option (\<lambda>(r, _, t). (r, t)) (delete_where_keys ft av projection pred zone NoLog t)"

section \<open>Sizes\<close>

definition stored_rows :: "table \<Rightarrow> nat" where
  "stored_rows t = sum_list (map pt_n_rows (ps_parts (snapshot t)))"

definition table_data_bytes :: "table \<Rightarrow> nat" where
  "table_data_bytes t = sum_list (map part_data_bytes (ps_parts (snapshot t)))"

definition table_index_bytes :: "table \<Rightarrow> nat" where
  "table_index_bytes t = sum_list (map part_index_bytes (ps_parts (snapshot t))) + ps_delete_bytes (snapshot t)"

definition declared_width :: "data_type \<Rightarrow> nat" where
  "declared_width ty = (case base ty of
     UInt8 \<Rightarrow> 1 | Int8 \<Rightarrow> 1 | Bool \<Rightarrow> 1
   | UInt16 \<Rightarrow> 2 | Int16 \<Rightarrow> 2
   | UInt32 \<Rightarrow> 4 | Int32 \<Rightarrow> 4 | Float32 \<Rightarrow> 4 | Date \<Rightarrow> 4
   | UInt64 \<Rightarrow> 8 | Int64 \<Rightarrow> 8 | Float64 \<Rightarrow> 8 | DateTime \<Rightarrow> 8
   | FixedString n \<Rightarrow> n
   | String \<Rightarrow> 24
   | _ \<Rightarrow> 8)"

definition raw_bytes :: "table \<Rightarrow> nat" where
  "raw_bytes t = stored_rows t * sum_list (map declared_width (schema_types (td_schema (t_def t))))"

end
