(* ===== verification/Table_Reads.thy ===== *)
theory Table_Reads
  imports Table_Store
begin

text \<open>
  Point lookups and tombstones of a keyed table (\<^verbatim>\<open>locate_in\<close>, \<^verbatim>\<open>multi_locate\<close>, \<^verbatim>\<open>tombstone_key\<close> of \<^verbatim>\<open>src/storage/table.rs\<close>). The invariant \<open>keyed_set\<close> says that
  every part of the set was built from rows with strictly ascending keys, that a bloom filter denies no key of its part, and that a key is live in
  at most one place. Under it a lookup returns the buffer's answer or exactly the live row of the key, the batched
  lookup returns what single lookups return, and a tombstone hides exactly the row of its key.
\<close>

section \<open>Keyed sets\<close>

text \<open>A part in a set differs from the part as built in its identity, its marks, its file and its filter, none of which a lookup by key reads.\<close>

definition core :: "part \<Rightarrow> part" where
  "core p = p\<lparr>pt_pid := 0, pt_deleted := bitset_new, pt_deleted_count := 0, pt_origin := NO_FILE, pt_filter := None\<rparr>"

lemma core_fields [simp]:
  "pt_granules (core p) = pt_granules p" "pt_n_rows (core p) = pt_n_rows p" "pt_pk_col (core p) = pt_pk_col p" "pt_sort_col (core p) = pt_sort_col p"
  "pt_max (core p) = pt_max p" "pt_route_base (core p) = pt_route_base p" "pt_route_shift (core p) = pt_route_shift p"
  "pt_router (core p) = pt_router p" "pt_first_keys (core p) = pt_first_keys p"
  by (simp_all add: core_def)

lemma core_reads [simp]:
  "part_find (core p) key fph st = part_find p key fph st" "part_lanes (core p) c = part_lanes p c"
  "part_value_at (core p) row k = part_value_at p row k" "sort_lane_at (core p) row = sort_lane_at p row"
  unfolding part_find_def locate_granule_def part_lanes_def part_value_at_def sort_lane_at_def core_fields by (rule refl)+

definition filter_sound :: "part \<Rightarrow> nat \<Rightarrow> bool" where
  "filter_sound p c \<longleftrightarrow> (\<forall>k \<in> set (part_lanes p c). may_contain p (hash_key k FP_SEED))"

definition stored_part :: "part \<Rightarrow> nat \<Rightarrow> bool" where
  "stored_part p c \<longleftrightarrow> keyed_part (core p) c \<and> filter_sound p c"

definition live_at :: "part_set \<Rightarrow> nat \<Rightarrow> nat \<Rightarrow> nat \<Rightarrow> u64 \<Rightarrow> bool" where
  "live_at s c i row key \<longleftrightarrow> i < length (ps_parts s) \<and> row < length (part_lanes (ps_parts s ! i) c)
     \<and> part_lanes (ps_parts s ! i) c ! row = key \<and> \<not> deleted_row (ps_deletes s ! i) row"

definition keyed_set :: "part_set \<Rightarrow> nat \<Rightarrow> bool" where
  "keyed_set s c \<longleftrightarrow> ps_ok s \<and> (\<forall>p \<in> set (ps_parts s). stored_part p c)
     \<and> (\<forall>i j row row' key. live_at s c i row key \<and> live_at s c j row' key \<longrightarrow> i = j)"

lemma keyed_set_part: "keyed_set s c \<Longrightarrow> i < length (ps_parts s) \<Longrightarrow> stored_part (ps_parts s ! i) c"
  by (simp add: keyed_set_def)

lemma keyed_set_deletes: "keyed_set s c \<Longrightarrow> length (ps_deletes s) = length (ps_parts s)"
  by (auto simp: keyed_set_def ps_ok_def dest: list_all2_lengthD)

lemma stored_distinct: "stored_part p c \<Longrightarrow> distinct (part_lanes p c)"
  by (auto simp: stored_part_def keyed_part_def strict_sorted_iff)

lemma granule_sizes: "sum_list (map (\<lambda>gi. min m (n - gi * m)) [0..<k]) = min (k * m) (n :: nat)"
  by (induction k) (auto simp: min_def)

lemma length_part_lanes:
  assumes "part_wf p"
  shows "length (part_lanes p c) = pt_n_rows p"
proof -
  let ?k = "length (pt_granules p)"
  have "length (part_lanes p c) = sum_list (map (\<lambda>gi. g_len (pt_granules p ! gi)) [0..<?k])"
    by (simp add: part_lanes_def length_concat o_def) (metis (no_types, lifting) map_map map_nth o_def map_eq_conv)
  also have "\<dots> = sum_list (map (\<lambda>gi. min GRANULE_SIZE (pt_n_rows p - gi * GRANULE_SIZE)) [0..<?k])"
    using assms by (intro arg_cong [where f = sum_list] map_cong) (auto simp: part_wf_def)
  also have "\<dots> = min (?k * GRANULE_SIZE) (pt_n_rows p)" by (rule granule_sizes)
  also have "\<dots> = pt_n_rows p" using assms div_ceil_le [of GRANULE_SIZE "pt_n_rows p"] by (simp add: part_wf_def)
  finally show ?thesis .
qed

lemma stored_rows: "stored_part p c \<Longrightarrow> length (part_lanes p c) = pt_n_rows p"
  using length_part_lanes [of "core p" c] keyed_wf [of "core p" c] by (simp add: stored_part_def)

text \<open>A probe of one part.\<close>

lemma find_live_spec:
  assumes "stored_part p c"
  obtains st' where "find_live p key (hash_key key FP_SEED) st del =
    Some (if \<exists>row < length (part_lanes p c). part_lanes p c ! row = key \<and> \<not> deleted_row del row then Some (index_of (part_lanes p c) key) else None, st')"
    "\<And>row. row < length (part_lanes p c) \<Longrightarrow> part_lanes p c ! row = key \<Longrightarrow> row = index_of (part_lanes p c) key"
proof -
  have "map_option fst (part_find p key (hash_key key FP_SEED) st) =
      Some (if key \<in> set (part_lanes p c) then Some (index_of (part_lanes p c) key) else None)"
    using part_find_spec [of "core p" c key st] assms unfolding stored_part_def core_reads by blast
  then obtain st' where f: "part_find p key (hash_key key FP_SEED) st =
      Some (if key \<in> set (part_lanes p c) then Some (index_of (part_lanes p c) key) else None, st')" by auto
  have u: "row = index_of (part_lanes p c) key" if "row < length (part_lanes p c)" "part_lanes p c ! row = key" for row
    using that stored_distinct [OF assms] by (metis index_of_mem nth_eq_iff_index_eq nth_mem)
  have "(\<exists>row < length (part_lanes p c). part_lanes p c ! row = key \<and> \<not> deleted_row del row)
      \<longleftrightarrow> key \<in> set (part_lanes p c) \<and> \<not> deleted_row del (index_of (part_lanes p c) key)"
    using u by (metis index_of_mem nth_mem)
  then have "find_live p key (hash_key key FP_SEED) st del =
    Some (if \<exists>row < length (part_lanes p c). part_lanes p c ! row = key \<and> \<not> deleted_row del row then Some (index_of (part_lanes p c) key) else None, st')"
    using f by (simp add: find_live_def deleted_row_def split: option.split)
  then show thesis using u that by blast
qed

text \<open>A part the filter rules out holds no such key.\<close>

lemma filter_denies: "stored_part p c \<Longrightarrow> \<not> may_contain p (hash_key key FP_SEED) \<Longrightarrow> key \<notin> set (part_lanes p c)"
  by (auto simp: stored_part_def filter_sound_def)

definition hits :: "part_set \<Rightarrow> nat \<Rightarrow> u64 \<Rightarrow> nat \<Rightarrow> bool" where
  "hits s c key i \<longleftrightarrow> (\<exists>row. live_at s c i row key)"

lemma live_at_row:
  assumes "keyed_set s c" "live_at s c i row key"
  shows "row = index_of (part_lanes (ps_parts s ! i) c) key"
  using assms stored_distinct [OF keyed_set_part [OF assms(1)], of i]
  by (auto simp: live_at_def index_of_nth)

text \<open>One probe of the loops: rule out, hit or miss.\<close>

lemma probe_cases:
  assumes ks: "keyed_set s c" and i: "i < length (ps_parts s)"
  shows "at (ps_parts s) i = Some (ps_parts s ! i)" "at (ps_deletes s) i = Some (ps_deletes s ! i)"
    "\<exists>st'. find_live (ps_parts s ! i) key (hash_key key FP_SEED) st (ps_deletes s ! i) =
      Some (if hits s c key i then Some (index_of (part_lanes (ps_parts s ! i) c) key) else None, st')"
    "\<not> may_contain (ps_parts s ! i) (hash_key key FP_SEED) \<Longrightarrow> \<not> hits s c key i"
proof -
  note sp = keyed_set_part [OF ks i]
  have h: "hits s c key i \<longleftrightarrow> (\<exists>row < length (part_lanes (ps_parts s ! i) c). part_lanes (ps_parts s ! i) c ! row = key \<and> \<not> deleted_row (ps_deletes s ! i) row)"
    using i by (auto simp: hits_def live_at_def)
  show "at (ps_parts s) i = Some (ps_parts s ! i)" "at (ps_deletes s) i = Some (ps_deletes s ! i)"
    using i keyed_set_deletes [OF ks] by (simp_all add: at_def)
  show "\<exists>st'. find_live (ps_parts s ! i) key (hash_key key FP_SEED) st (ps_deletes s ! i) =
      Some (if hits s c key i then Some (index_of (part_lanes (ps_parts s ! i) c) key) else None, st')"
    unfolding h by (rule find_live_spec [OF sp, of key st "ps_deletes s ! i"]) blast
  show "\<not> hits s c key i" if "\<not> may_contain (ps_parts s ! i) (hash_key key FP_SEED)"
    using filter_denies [OF sp that] by (auto simp: h)
qed

section \<open>Lookups\<close>

definition first_hit :: "part_set \<Rightarrow> nat \<Rightarrow> u64 \<Rightarrow> nat list \<Rightarrow> row_loc option" where
  "first_hit s c key pis = map_option (\<lambda>i. InPart i (index_of (part_lanes (ps_parts s ! i) c) key)) (find (hits s c key) pis)"

lemma locate_parts_spec:
  assumes ks: "keyed_set s c"
  shows "\<forall>i \<in> set pis. i < length (ps_parts s) \<Longrightarrow> map_option fst (locate_parts multi pis s key (hash_key key FP_SEED) st) = Some (first_hit s c key pis)"
proof (induction pis arbitrary: st)
  case (Cons i pis)
  then have i: "i < length (ps_parts s)" by simp
  obtain st' where f: "find_live (ps_parts s ! i) key (hash_key key FP_SEED) st (ps_deletes s ! i) =
      Some (if hits s c key i then Some (index_of (part_lanes (ps_parts s ! i) c) key) else None, st')"
    using probe_cases(3) [OF ks i] by blast
  show ?case using f probe_cases(1,2,4) [OF ks i] Cons by (auto simp: first_hit_def)
qed (simp add: first_hit_def)

text \<open>The place of a key is the only hit, whatever order the parts are asked in.\<close>

definition place_of :: "part_set \<Rightarrow> nat \<Rightarrow> u64 \<Rightarrow> row_loc option" where
  "place_of s c key = first_hit s c key (rev [0..<length (ps_parts s)])"

lemma place_of_iff:
  assumes "keyed_set s c"
  shows "place_of s c key = Some (InPart i row) \<longleftrightarrow> live_at s c i row key" "place_of s c key \<noteq> Some InDelta"
proof -
  let ?f = "find (hits s c key) (rev [0..<length (ps_parts s)])"
  have u: "i = j" if "hits s c key i" "hits s c key j" for i j using assms that unfolding keyed_set_def hits_def by blast
  have f: "?f = Some i \<longleftrightarrow> hits s c key i" for i
  proof
    assume "hits s c key i"
    then have "i < length (ps_parts s)" by (auto simp: hits_def live_at_def)
    with \<open>hits s c key i\<close> obtain j where "?f = Some j" "hits s c key j" by (cases ?f) (auto simp: find_None_iff find_Some_iff)
    then show "?f = Some i" using u \<open>hits s c key i\<close> by auto
  qed (auto simp: find_Some_iff)
  show "place_of s c key = Some (InPart i row) \<longleftrightarrow> live_at s c i row key"
    using f live_at_row [OF assms] unfolding place_of_def first_hit_def hits_def by (auto; blast)
  show "place_of s c key \<noteq> Some InDelta" by (auto simp: place_of_def first_hit_def)
qed

definition buffer_says :: "delta \<Rightarrow> u64 \<Rightarrow> delta_entry option" where
  "buffer_says d key = (if delta_is_empty d then None else delta_get d key)"

definition key_place :: "part_set \<Rightarrow> nat \<Rightarrow> delta \<Rightarrow> u64 \<Rightarrow> row_loc option" where
  "key_place s c d key = (case buffer_says d key of Some (Put _) \<Rightarrow> Some InDelta | Some Del \<Rightarrow> None | None \<Rightarrow> place_of s c key)"

lemma locate_in_lookup:
  assumes "keyed_set s c"
  shows "map_option fst (locate_in s d st key) = Some (key_place s c d key)"
  using locate_parts_spec [OF assms, of "rev [0..<length (ps_parts s)]" "length (ps_parts s) > 1" key st]
  by (auto simp: locate_in_def key_place_def buffer_says_def place_of_def split: option.splits delta_entry.splits)

subsection \<open>The batched lookup\<close>

lemma probe_part_spec:
  assumes ks: "keyed_set s c" and i: "i < length (ps_parts s)"
  defines "hit \<equiv> \<lambda>lanes q. hits s c (lanes ! q) i"
  shows "\<forall>q \<in> set pending. q < length lanes \<Longrightarrow> \<exists>st'. probe_part multi (ps_parts s ! i) (ps_deletes s ! i) lanes pending st =
    Some (map (\<lambda>q. (q, index_of (part_lanes (ps_parts s ! i) c) (lanes ! q))) (filter (hit lanes) pending),
      filter (\<lambda>q. \<not> hit lanes q) pending, st')"
proof (induction pending arbitrary: st)
  case (Cons q pending)
  let ?p = "ps_parts s ! i" and ?key = "lanes ! q"
  have IH: "\<exists>st'. probe_part multi ?p (ps_deletes s ! i) lanes pending st =
    Some (map (\<lambda>q. (q, index_of (part_lanes ?p c) (lanes ! q))) (filter (hit lanes) pending), filter (\<lambda>q. \<not> hit lanes q) pending, st')" for st
    using Cons by simp
  have q: "at lanes q = Some ?key" using Cons.prems by (simp add: at_def)
  show ?case
  proof (cases "multi \<and> \<not> may_contain ?p (hash_key ?key FP_SEED)")
    case True
    then have "\<not> hit lanes q" using probe_cases(4) [OF ks i, of ?key] by (simp add: hit_def)
    with True q IH [of "st\<lparr>bloom_negative := bloom_negative st + 1\<rparr>"] show ?thesis by auto
  next
    case False
    obtain st1 where st1: "find_live ?p ?key (hash_key ?key FP_SEED) st (ps_deletes s ! i) =
        Some (if hit lanes q then Some (index_of (part_lanes ?p c) ?key) else None, st1)"
      using probe_cases(3) [OF ks i, of ?key st] unfolding hit_def by blast
    with False q IH [of st1] show ?thesis by (cases "hit lanes q") auto
  qed
qed simp

lemma record_hits:
  "length (foldl (\<lambda>out (q, row). out[q := Some (InPart i row)]) out (map (\<lambda>q. (q, g q)) qs)) = length out \<and>
   (\<forall>j < length out. foldl (\<lambda>out (q, row). out[q := Some (InPart i row)]) out (map (\<lambda>q. (q, g q)) qs) ! j
     = (if j \<in> set qs then Some (InPart i (g j)) else out ! j))"
  by (induction qs arbitrary: out) (auto simp: nth_list_update)

lemma probe_parts_spec:
  assumes ks: "keyed_set s c"
  shows "\<forall>i \<in> set pis. i < length (ps_parts s) \<Longrightarrow> \<forall>q \<in> set pending. q < length lanes \<Longrightarrow> length out = length lanes \<Longrightarrow>
    \<forall>q \<in> set pending. out ! q = None \<Longrightarrow>
    \<exists>st'. probe_parts multi pis s lanes pending out st =
      Some (map (\<lambda>q. if q \<in> set pending then first_hit s c (lanes ! q) pis else out ! q) [0..<length lanes], st')"
proof (induction pis arbitrary: pending out st)
  case Nil
  have "map (\<lambda>q. if q \<in> set pending then first_hit s c (lanes ! q) [] else out ! q) [0..<length lanes] = out"
    using Nil.prems by (intro nth_equalityI) (auto simp: first_hit_def)
  then show ?case by simp
next
  case (Cons i pis)
  let ?hit = "\<lambda>q. hits s c (lanes ! q) i" and ?row = "\<lambda>q. index_of (part_lanes (ps_parts s ! i) c) (lanes ! q)"
  have i: "i < length (ps_parts s)" using Cons.prems(1) by simp
  show ?case
  proof (cases "pending = []")
    case True
    have "map (\<lambda>q. out ! q) [0..<length lanes] = out" using Cons.prems(3) by (intro nth_equalityI) auto
    then show ?thesis using True by simp
  next
    case False
    obtain st1 where st1: "probe_part multi (ps_parts s ! i) (ps_deletes s ! i) lanes pending st =
        Some (map (\<lambda>q. (q, ?row q)) (filter ?hit pending), filter (\<lambda>q. \<not> ?hit q) pending, st1)"
      using probe_part_spec [OF ks i Cons.prems(2)] by blast
    let ?out = "foldl (\<lambda>out (q, row). out[q := Some (InPart i row)]) out (map (\<lambda>q. (q, ?row q)) (filter ?hit pending))"
    note rec = record_hits [of i out ?row "filter ?hit pending"]
    obtain st2 where "probe_parts multi pis s lanes (filter (\<lambda>q. \<not> ?hit q) pending) ?out st1 =
        Some (map (\<lambda>q. if q \<in> set (filter (\<lambda>q. \<not> ?hit q) pending) then first_hit s c (lanes ! q) pis else ?out ! q) [0..<length lanes], st2)"
      using Cons.IH [of "filter (\<lambda>q. \<not> ?hit q) pending" ?out st1] Cons.prems rec by auto
    moreover have "(if q \<in> set (filter (\<lambda>q. \<not> ?hit q) pending) then first_hit s c (lanes ! q) pis else ?out ! q)
        = (if q \<in> set pending then first_hit s c (lanes ! q) (i # pis) else out ! q)" if "q < length lanes" for q
      using rec that Cons.prems(3) by (auto simp: first_hit_def)
    ultimately show ?thesis using False st1 probe_cases(1,2) [OF ks i] by (auto cong: map_cong)
  qed
qed

lemma multi_locate_lookup:
  assumes ks: "keyed_set (peek t) c"
  shows "\<exists>st. multi_locate t lanes = Some (map (key_place (peek t) c (t_delta t)) lanes, t\<lparr>t_stats := st\<rparr>)"
proof -
  let ?s = "peek t" and ?d = "t_delta t" and ?n = "length lanes"
  let ?out = "if delta_is_empty ?d then replicate ?n None else map (\<lambda>lane. case answered ?d lane of Some r \<Rightarrow> r | None \<Rightarrow> None) lanes"
  let ?pending = "if delta_is_empty ?d then [0..<?n] else filter (\<lambda>q. answered ?d (lanes ! q) = None) [0..<?n]"
  have a: "answered ?d key = (case delta_get ?d key of Some (Put _) \<Rightarrow> Some (Some InDelta) | Some Del \<Rightarrow> Some None | None \<Rightarrow> None)" for key
    by (simp add: answered_def)
  obtain st where st: "probe_parts (length (ps_parts ?s) > 1) (rev [0..<length (ps_parts ?s)]) ?s lanes ?pending ?out (t_stats t) =
      Some (map (\<lambda>q. if q \<in> set ?pending then first_hit ?s c (lanes ! q) (rev [0..<length (ps_parts ?s)]) else ?out ! q) [0..<?n], st)"
    using probe_parts_spec [OF ks, of "rev [0..<length (ps_parts ?s)]" ?pending lanes ?out] by force
  have "(if q \<in> set ?pending then first_hit ?s c (lanes ! q) (rev [0..<length (ps_parts ?s)]) else ?out ! q) = key_place ?s c ?d (lanes ! q)"
    if "q < ?n" for q
    using that by (auto simp: key_place_def buffer_says_def place_of_def a split: option.splits delta_entry.splits)
  then have "map (\<lambda>q. if q \<in> set ?pending then first_hit ?s c (lanes ! q) (rev [0..<length (ps_parts ?s)]) else ?out ! q) [0..<?n]
      = map (\<lambda>q. key_place ?s c ?d (lanes ! q)) [0..<?n]" by (intro map_cong refl) (simp only: set_upt atLeastLessThan_iff)
  moreover have "map (\<lambda>q. key_place ?s c ?d (lanes ! q)) [0..<?n] = map (key_place ?s c ?d) lanes" by (intro nth_equalityI) simp_all
  ultimately show ?thesis using st unfolding multi_locate_def Let_def by auto
qed

section \<open>Tombstones\<close>

lemma tombstone_from_spec:
  assumes ks: "keyed_set s c"
  shows "\<forall>i \<in> set pis. i < length (ps_parts s) \<Longrightarrow> \<exists>s' st'. tombstone_from pis s key (hash_key key FP_SEED) st = Some (s', st')
    \<and> (case find (hits s c key) pis of None \<Rightarrow> s' = s
       | Some i \<Rightarrow> \<exists>b. ps_tombstone s i (index_of (part_lanes (ps_parts s ! i) c) key) = Some (b, s'))"
proof (induction pis arbitrary: st)
  case (Cons i pis)
  let ?row = "index_of (part_lanes (ps_parts s ! i) c) key"
  have i: "i < length (ps_parts s)" using Cons.prems by simp
  obtain st1 where f: "find_live (ps_parts s ! i) key (hash_key key FP_SEED) st (ps_deletes s ! i) =
      Some (if hits s c key i then Some ?row else None, st1)"
    using probe_cases(3) [OF ks i] by blast
  have "\<exists>b s'. ps_tombstone s i ?row = Some (b, s')"
    using ps_tombstone_spec [of s i ?row] i ks by (cases "deleted_row (ps_deletes s ! i) ?row") (auto simp: keyed_set_def)
  then show ?case using f probe_cases(1,2,4) [OF ks i] Cons i by (cases "hits s c key i") auto
qed simp

text \<open>Hiding a row in a keyed set: the set stays keyed, and only that row stops being live.\<close>

lemma tombstone_keyed:
  assumes ks: "keyed_set s c" and l: "live_at s c i row key" and t: "ps_tombstone s i row = Some (b, s')"
  shows "keyed_set s' c" "ps_parts s' = ps_parts s" "ps_next_pid s' = ps_next_pid s"
    "live_at s' c j r k \<longleftrightarrow> live_at s c j r k \<and> k \<noteq> key"
proof -
  have ok: "ps_ok s" and i: "i < length (ps_parts s)" and live: "\<not> deleted_row (ps_deletes s ! i) row"
    using ks l by (auto simp: keyed_set_def live_at_def)
  obtain d where s': "s' = s\<lparr>ps_deletes := (ps_deletes s)[i := Some d], ps_origins := (ps_origins s)[i := ps_origins s ! i AND HOMED]\<rparr>"
    and d: "\<And>r. deletes_get d r \<longleftrightarrow> r = row \<or> deleted_row (ps_deletes s ! i) r"
    using ps_tombstone_spec(2) [OF ok i live] t by auto
  have wf: "part_wf (core (ps_parts s ! i))" using keyed_set_part [OF ks i] keyed_wf by (auto simp: stored_part_def)
  have del: "length (ps_deletes s) = length (ps_parts s)" by (rule keyed_set_deletes [OF ks])
  show p: "ps_parts s' = ps_parts s" "ps_next_pid s' = ps_next_pid s" by (simp_all add: s')
  show la: "live_at s' c j r k \<longleftrightarrow> live_at s c j r k \<and> k \<noteq> key" for j r k
  proof (cases "j = i")
    case True
    have "r = row" if "live_at s c i r key" for r using live_at_row [OF ks] that l by metis
    moreover have "live_at s' c i r k \<longleftrightarrow> live_at s c i r k \<and> r \<noteq> row"
      using d i del by (simp add: live_at_def s' deleted_row_def [of "Some d"]) blast
    moreover have "r = row \<Longrightarrow> live_at s c i r k \<Longrightarrow> k = key" using l by (simp add: live_at_def)
    ultimately show ?thesis using True by blast
  next
    case False
    then have "k \<noteq> key" if "live_at s c j r k" using that l ks unfolding keyed_set_def by metis
    then show ?thesis using False by (auto simp: live_at_def s')
  qed
  have "row < pt_n_rows (ps_parts s ! i)"
    using l stored_rows [OF keyed_set_part [OF ks i]] by (simp add: live_at_def)
  then have "ps_ok s'" using ps_tombstone_ok [OF ok i _ t] by simp
  then show "keyed_set s' c" using ks la unfolding keyed_set_def p by blast
qed

lemma tombstone_key_spec:
  assumes ks: "keyed_set s c"
  shows "\<exists>s' st'. tombstone_key s key st = Some (s', st') \<and> keyed_set s' c \<and> ps_parts s' = ps_parts s \<and> ps_next_pid s' = ps_next_pid s
    \<and> (\<forall>i row k. live_at s' c i row k \<longleftrightarrow> live_at s c i row k \<and> k \<noteq> key)"
proof -
  obtain s' st' where t: "tombstone_key s key st = Some (s', st')"
    and f: "case find (hits s c key) [0..<length (ps_parts s)] of None \<Rightarrow> s' = s
       | Some i \<Rightarrow> \<exists>b. ps_tombstone s i (index_of (part_lanes (ps_parts s ! i) c) key) = Some (b, s')"
    using tombstone_from_spec [OF ks, of "[0..<length (ps_parts s)]" key st] by (auto simp: tombstone_key_def)
  show ?thesis
  proof (cases "find (hits s c key) [0..<length (ps_parts s)]")
    case None
    then have "\<not> live_at s c i row key" for i row by (auto simp: find_None_iff hits_def live_at_def)
    then show ?thesis using t None f ks by auto
  next
    case (Some i)
    then obtain row where l: "live_at s c i row key" by (auto simp: find_Some_iff hits_def)
    obtain b where "ps_tombstone s i row = Some (b, s')" using f Some live_at_row [OF ks l] by auto
    note tk = tombstone_keyed [OF ks l this]
    show ?thesis using t tk by blast
  qed
qed

lemma tombstone_keys_spec:
  assumes "keyed_set s c"
  shows "\<exists>s' st'. tombstone_keys keys s st = Some (s', st') \<and> keyed_set s' c \<and> ps_parts s' = ps_parts s \<and> ps_next_pid s' = ps_next_pid s
    \<and> (\<forall>i row k. live_at s' c i row k \<longleftrightarrow> live_at s c i row k \<and> k \<notin> set keys)"
  using assms
proof (induction keys arbitrary: s st)
  case (Cons key keys)
  obtain s1 st1 where s1: "tombstone_key s key st = Some (s1, st1)" "keyed_set s1 c" "ps_parts s1 = ps_parts s" "ps_next_pid s1 = ps_next_pid s"
    "\<forall>i row k. live_at s1 c i row k \<longleftrightarrow> live_at s c i row k \<and> k \<noteq> key"
    using tombstone_key_spec [OF Cons.prems, of key st] by blast
  then show ?case using Cons.IH [OF s1(2), of st1] by auto
qed simp

section \<open>Publishing a part\<close>

lemma push_keyed:
  assumes ks: "keyed_set s c" and kp: "keyed_part p c" and pid: "pt_pid p = 0" "pt_deleted p = bitset_new" "pt_deleted_count p = 0" "pt_origin p = NO_FILE"
    and room: "ps_next_pid s \<noteq> - 1" and fresh: "\<And>i row k. live_at s c i row k \<Longrightarrow> k \<notin> set (part_lanes p c)"
  shows "keyed_set (ps_push s p) c" "ps_parts (ps_push s p) = ps_parts s @ [p\<lparr>pt_pid := ps_next_pid s\<rparr>]"
    "live_at (ps_push s p) c i row k \<longleftrightarrow> live_at s c i row k
       \<or> i = length (ps_parts s) \<and> row < length (part_lanes p c) \<and> part_lanes p c ! row = k"
proof -
  obtain b perm where bt: "built b perm (Some c) (Some c) p" using kp by (auto simp: keyed_part_def)
  note w = built_part [OF bt]
  let ?p = "p\<lparr>pt_pid := ps_next_pid s\<rparr>"
  have pub: "published s p = ?p" "born_deletes p = None" using pid by (cases p; simp add: published_def minted_def born_deletes_def)+
  show parts: "ps_parts (ps_push s p) = ps_parts s @ [?p]" by (simp add: ps_push_eq pub)
  have dels: "ps_deletes (ps_push s p) = ps_deletes s @ [None]" by (simp add: ps_push_eq pub)
  have len: "length (ps_deletes s) = length (ps_parts s)" by (rule keyed_set_deletes [OF ks])
  have lanes: "part_lanes ?p c = part_lanes p c" by (simp add: part_lanes_def)
  show la: "live_at (ps_push s p) c i row k \<longleftrightarrow> live_at s c i row k
       \<or> i = length (ps_parts s) \<and> row < length (part_lanes p c) \<and> part_lanes p c ! row = k" for i row k
    unfolding live_at_def parts dels using len by (auto simp: nth_append lanes deleted_row_def)
  have "core ?p = p" using pid w(6) by (cases p) (simp add: core_def)
  moreover have "filter_sound ?p c" using w(6) by (simp add: filter_sound_def may_contain_def)
  ultimately have sp: "stored_part ?p c" using kp by (simp add: stored_part_def)
  have "ps_ok s" using ks by (simp add: keyed_set_def)
  then have "ps_ok (ps_push s p)" using pid(1) room built_marks [OF bt] by (intro ps_push_ok) (auto simp: minted_def ps_ok_def)
  moreover have "i = j" if "live_at (ps_push s p) c i row k" "live_at (ps_push s p) c j row' k" for i j row row' k
    using that ks fresh unfolding la keyed_set_def by (metis nth_mem)
  ultimately show "keyed_set (ps_push s p) c" using ks sp unfolding keyed_set_def parts by auto
qed

lemma keyed_default: "keyed_set ps_default c"
  by (simp add: keyed_set_def ps_default_def ps_ok_def live_at_def)

text \<open>What a build returns is unmarked and nameless.\<close>

lemma assemble_fresh:
  "pt_pid (assemble n gs del cnt sc pk w) = 0" "pt_deleted (assemble n gs del cnt sc pk w) = del"
  "pt_deleted_count (assemble n gs del cnt sc pk w) = cnt" "pt_origin (assemble n gs del cnt sc pk w) = NO_FILE"
  by (simp_all add: assemble_def Let_def split: prod.split)

lemma built_fresh:
  assumes "built b perm sc pk p"
  shows "pt_pid p = 0" "pt_deleted p = bitset_new" "pt_deleted_count p = 0" "pt_origin p = NO_FILE"
  using assms by (auto simp: built_def part_build_sel_def Let_def assemble_fresh)

lemmas push_built = push_keyed [OF _ _ built_fresh]

section \<open>Filters\<close>

definition same_rows :: "part_set \<Rightarrow> part_set \<Rightarrow> bool" where
  "same_rows s s' \<longleftrightarrow> map core (ps_parts s') = map core (ps_parts s) \<and> ps_next_pid s' = ps_next_pid s
     \<and> (\<forall>c i row k. live_at s' c i row k \<longleftrightarrow> live_at s c i row k)"

lemma ensure_filter_stored:
  assumes "stored_part p c"
  shows "\<exists>f q. ensure_filter p = Some (f, q) \<and> core q = core p \<and> pt_pid q = pt_pid p \<and> pt_deleted_count q = pt_deleted_count p
    \<and> pt_origin q = pt_origin p \<and> stored_part q c"
proof -
  obtain b perm where bt: "built b perm (Some c) (Some c) (core p)" using assms by (auto simp: stored_part_def keyed_part_def)
  have pk: "pt_pk_col p = Some c" using built_part(3) [OF bt] by simp
  show ?thesis
  proof (cases "pt_filter p")
    case None
    have "\<forall>g \<in> set (pt_granules p). c < length (g_columns g)" using assms by (simp add: stored_part_def keyed_part_def)
    then obtain f q where f: "ensure_filter p = Some (Some f, q)" "q = p\<lparr>pt_filter := Some f\<rparr>"
      "\<And>k. k \<in> set (part_lanes p c) \<Longrightarrow> may_contain q (hash_key k FP_SEED)"
      using ensure_filter_spec [OF pk None] by metis
    have c: "core q = core p" by (simp add: f(2) core_def)
    have "part_lanes q c = part_lanes p c" by (simp add: f(2) part_lanes_def)
    then have "stored_part q c" using assms c f(3) by (simp add: stored_part_def filter_sound_def)
    with f(1,2) c show ?thesis by auto
  qed (use pk assms in \<open>auto simp: ensure_filter_def\<close>)
qed

lemma ensure_filters_spec:
  assumes ks: "keyed_set s c"
  shows "\<exists>s'. ensure_filters s = Some s' \<and> keyed_set s' c \<and> same_rows s s' \<and> length (ps_parts s') = length (ps_parts s)"
proof -
  have "\<forall>p \<in> set (ps_parts s). \<exists>r. ensure_filter p = Some r \<and> core (snd r) = core p \<and> pt_pid (snd r) = pt_pid p
      \<and> pt_deleted_count (snd r) = pt_deleted_count p \<and> pt_origin (snd r) = pt_origin p \<and> stored_part (snd r) c"
    using ensure_filter_stored ks unfolding keyed_set_def by fastforce
  then obtain g where g: "\<And>p. p \<in> set (ps_parts s) \<Longrightarrow> ensure_filter p = Some (g p)" "\<And>p. p \<in> set (ps_parts s) \<Longrightarrow> core (snd (g p)) = core p"
    "\<And>p. p \<in> set (ps_parts s) \<Longrightarrow> pt_pid (snd (g p)) = pt_pid p \<and> pt_deleted_count (snd (g p)) = pt_deleted_count p \<and> pt_origin (snd (g p)) = pt_origin p"
    "\<And>p. p \<in> set (ps_parts s) \<Longrightarrow> stored_part (snd (g p)) c" by metis
  let ?s = "s\<lparr>ps_parts := map (snd \<circ> g) (ps_parts s)\<rparr>"
  have e: "ensure_filters s = Some ?s" using those_map_Some [of "ps_parts s" ensure_filter g] g(1) by (simp add: ensure_filters_def)
  have lanes: "part_lanes (snd (g p)) k = part_lanes p k" if "p \<in> set (ps_parts s)" for p k using g(2) [OF that] core_reads(2) by metis
  have la: "live_at ?s k i row key \<longleftrightarrow> live_at s k i row key" for k i row key by (auto simp: live_at_def lanes)
  have rows: "pt_n_rows (snd (g p)) = pt_n_rows p" "pt_granules (snd (g p)) = pt_granules p" if "p \<in> set (ps_parts s)" for p
    using g(2) [OF that] core_fields by metis+
  have "ps_ok ?s"
  proof -
    have "entry_ok (snd (g p)) del" if "p \<in> set (ps_parts s)" "entry_ok p del" for p del
      using that rows [OF that(1)] g(3) [OF that(1)] by (simp add: entry_ok_def part_wf_def)
    then have "list_all2 entry_ok (map (snd \<circ> g) (ps_parts s)) (ps_deletes s)"
      using ks by (auto simp: keyed_set_def ps_ok_def list_all2_conv_all_nth)
    moreover have pids: "map (pt_pid \<circ> (snd \<circ> g)) (ps_parts s) = map pt_pid (ps_parts s)" using g(3) by simp
    have "distinct (map (pt_pid \<circ> (snd \<circ> g)) (ps_parts s))" unfolding pids using ks by (simp add: keyed_set_def ps_ok_def)
    ultimately show ?thesis using ks g(3) by (auto simp: keyed_set_def ps_ok_def)
  qed
  then have "keyed_set ?s c" using ks g(4) la unfolding keyed_set_def by auto
  moreover have "same_rows s ?s" using g(2) la by (simp add: same_rows_def)
  ultimately show ?thesis using e by auto
qed

section \<open>Properties\<close>

text \<open>C2: Point lookups of a keyed table are exact, one at a time and in batches. A lookup answers from the buffer when the buffer knows the key
  (a buffered deletion is an absence); otherwise it returns a position exactly when the row there is live and has the key.
  The batched lookup returns, for every key of the batch, what the single lookup returns.\<close>

theorem point_lookup_exact:
  assumes "keyed_set (peek t) c"
  shows "(\<exists>loc t'. locate t key = Some (loc, t')
      \<and> (loc = Some InDelta \<longleftrightarrow> (\<exists>sl. buffer_says (t_delta t) key = Some (Put sl)))
      \<and> (\<forall>i row. loc = Some (InPart i row) \<longleftrightarrow> buffer_says (t_delta t) key = None \<and> live_at (peek t) c i row key))
    \<and> (\<exists>locs t'. multi_locate t lanes = Some (locs, t') \<and> map Some locs = map (\<lambda>k. map_option fst (locate t k)) lanes)"
proof
  have l: "map_option fst (locate t k) = Some (key_place (peek t) c (t_delta t) k)" for k
    using locate_in_lookup [OF assms, of "t_delta t" "t_stats t" k] by (auto simp: locate_def)
  then obtain t' where "locate t key = Some (key_place (peek t) c (t_delta t) key, t')" by fastforce
  then show "\<exists>loc t'. locate t key = Some (loc, t')
      \<and> (loc = Some InDelta \<longleftrightarrow> (\<exists>sl. buffer_says (t_delta t) key = Some (Put sl)))
      \<and> (\<forall>i row. loc = Some (InPart i row) \<longleftrightarrow> buffer_says (t_delta t) key = None \<and> live_at (peek t) c i row key)"
    using place_of_iff [OF assms, of key] by (auto simp: key_place_def split: option.splits delta_entry.splits)
  show "\<exists>locs t'. multi_locate t lanes = Some (locs, t') \<and> map Some locs = map (\<lambda>k. map_option fst (locate t k)) lanes"
    using multi_locate_lookup [OF assms, of lanes] unfolding l by auto
qed

text \<open>C18: A tombstone for a key hides the live row of that key, wherever it is, and nothing else; the set stays keyed, so a key stays live in at most one part.\<close>

theorem tombstone_exact:
  assumes "keyed_set s c"
  shows "\<exists>s' st'. tombstone_key s key st = Some (s', st') \<and> keyed_set s' c \<and> ps_parts s' = ps_parts s
    \<and> (\<forall>i row k. live_at s' c i row k \<longleftrightarrow> live_at s c i row k \<and> k \<noteq> key)"
  using tombstone_key_spec [OF assms, of key st] by blast

lemma two_rows_set:
  "\<exists>p. part_build_sel 1 two_rows None (Some 0) (Some 0) = Some p \<and> keyed_set (ps_push ps_default p) 0
    \<and> live_at (ps_push ps_default p) 0 0 1 500 \<and> live_at (ps_push ps_default p) 0 0 0 10"
proof -
  obtain p where p: "part_build_sel 1 two_rows None (Some 0) (Some 0) = Some p" "keyed_part p 0" "part_lanes p 0 = [10, 500]"
    using two_rows_part by blast
  have bt: "built two_rows None (Some 0) (Some 0) p" using p(1) by (auto simp: built_def)
  have n: "ps_next_pid ps_default \<noteq> - 1" "\<not> live_at ps_default c i row k" for c i row k
    by (simp_all add: ps_default_def live_at_def)
  note pk = push_built [OF keyed_default p(2) bt bt bt bt n(1)]
  have "keyed_set (ps_push ps_default p) 0" by (rule pk(1)) (simp add: n(2))
  moreover have "live_at (ps_push ps_default p) 0 0 1 500" "live_at (ps_push ps_default p) 0 0 0 10"
    using pk(3) n(2) p(3) by (auto simp: ps_default_def)
  ultimately show ?thesis using p(1) by blast
qed

theorem tombstone_exact_witness:
  "\<exists>p s' st'. part_build_sel 1 two_rows None (Some 0) (Some 0) = Some p
    \<and> tombstone_key (ps_push ps_default p) 500 stats_default = Some (s', st') \<and> \<not> live_at s' 0 0 1 500 \<and> live_at s' 0 0 0 10"
proof -
  obtain p where p: "part_build_sel 1 two_rows None (Some 0) (Some 0) = Some p" "keyed_set (ps_push ps_default p) 0"
    "live_at (ps_push ps_default p) 0 0 0 10" using two_rows_set by blast
  obtain s' st' where s': "tombstone_key (ps_push ps_default p) 500 stats_default = Some (s', st')"
    "\<forall>i row k. live_at s' 0 i row k \<longleftrightarrow> live_at (ps_push ps_default p) 0 i row k \<and> k \<noteq> 500"
    using tombstone_exact [OF p(2), of 500 stats_default] by blast
  then have "\<not> live_at s' 0 0 1 500" "live_at s' 0 0 0 10" using p(3) by auto
  then show ?thesis using p(1) s'(1) by blast
qed

definition demo_table :: "part_set \<Rightarrow> table" where
  "demo_table s = \<lparr>t_def = \<lparr>td_name = [], td_schema = new_unchecked [field_new [107] UInt64], order_by = [0], primary_key = [0],
     partition_by = None, td_engine = MergeTree\<rparr>, t_pk_col = Some 0, t_sort_col = Some 0, t_pk_phys = Some U64,
     t_delta = delta_new True [UInt64], t_parts = s, t_txn = None, t_delta_limit = 65536, t_replaying = False, t_stats = stats_default\<rparr>"

theorem point_lookup_exact_witness:
  "\<exists>p loc t'. part_build_sel 1 two_rows None (Some 0) (Some 0) = Some p
    \<and> locate (demo_table (ps_push ps_default p)) 500 = Some (loc, t') \<and> loc = Some (InPart 0 1)"
proof -
  obtain p where p: "part_build_sel 1 two_rows None (Some 0) (Some 0) = Some p" "keyed_set (ps_push ps_default p) 0"
    "live_at (ps_push ps_default p) 0 0 1 500" using two_rows_set by blast
  let ?t = "demo_table (ps_push ps_default p)"
  have d: "peek ?t = ps_push ps_default p" "buffer_says (t_delta ?t) 500 = None"
    by (simp_all add: demo_table_def peek_def buffer_says_def delta_is_empty_def delta_len_def delta_new_def)
  obtain loc t' where "locate ?t 500 = Some (loc, t')"
    "\<forall>i row. loc = Some (InPart i row) \<longleftrightarrow> buffer_says (t_delta ?t) 500 = None \<and> live_at (peek ?t) 0 i row 500"
    using point_lookup_exact [of ?t 0 500 "[]"] p(2) unfolding d by blast
  then show ?thesis using p(1,3) d by auto
qed

end
