(* ===== verification/Table_Txn.thy ===== *)
theory Table_Txn
  imports Table_Reads
begin

text \<open>
  Transactions and errors of a table (\<^verbatim>\<open>begin_txn\<close>, \<^verbatim>\<open>commit_txn\<close>, \<^verbatim>\<open>rollback_txn\<close> and the write path of \<^verbatim>\<open>src/storage/table.rs\<close>). What a session does to a table is the step
  relation \<open>table_step\<close>; steps that return an error are steps too. Shown: inside a transaction no step touches the committed
  set, so a rollback restores what readers saw and a commit publishes the whole overlay at once; and an error of a flush, a merge or a bulk
  insert leaves the rows of the table as they were.
\<close>

section \<open>What every operation keeps\<close>

text \<open>The definition, the key columns and the limit of a table never change, and an open transaction stays open with the committed set untouched.\<close>

definition guarded :: "table \<Rightarrow> table \<Rightarrow> bool" where
  "guarded t t' \<longleftrightarrow> t_def t' = t_def t \<and> t_pk_col t' = t_pk_col t \<and> t_sort_col t' = t_sort_col t \<and> t_pk_phys t' = t_pk_phys t
     \<and> t_delta_limit t' = t_delta_limit t \<and> t_replaying t' = t_replaying t
     \<and> (in_txn t \<longrightarrow> in_txn t' \<and> t_parts t' = t_parts t) \<and> (\<not> in_txn t \<longrightarrow> \<not> in_txn t')"

named_theorems guards

lemma guarded_refl [simp, guards]: "guarded t t"
  by (simp add: guarded_def)

lemma guarded_trans: "guarded t u \<Longrightarrow> guarded u v \<Longrightarrow> guarded t v"
  by (auto simp: guarded_def)

lemma guarded_publish [simp]: "guarded t (publish s t)"
  by (auto simp: guarded_def publish_def in_txn_def split: option.split)

lemma guarded_stats [simp]: "guarded t (t\<lparr>t_stats := st\<rparr>)" "guarded t (t\<lparr>t_delta := d\<rparr>)" "guarded t (t\<lparr>t_stats := st, t_delta := d\<rparr>)"
  by (simp_all add: guarded_def in_txn_def)

text \<open>An outcome is guarded when the table it leaves is, on success and on error alike.\<close>

definition outcome_guarded :: "table \<Rightarrow> 'a outcome \<Rightarrow> bool" where
  "outcome_guarded t out \<longleftrightarrow> (\<forall>r t'. out = Some (r, t') \<longrightarrow> guarded t t')"

lemma outcome_guarded_done [simp]: "outcome_guarded t (Some (r, t')) \<longleftrightarrow> guarded t t'" "outcome_guarded t None"
  by (auto simp: outcome_guarded_def)

lemma outcome_guarded_bind: "(\<And>x. m = Some x \<Longrightarrow> outcome_guarded t (k x)) \<Longrightarrow> outcome_guarded t (Option.bind m k)"
  by (cases m) auto

lemma outcome_guarded_map: "(\<And>x. m = Some x \<Longrightarrow> guarded t (snd (k x))) \<Longrightarrow> outcome_guarded t (map_option k m)"
  by (cases m) (auto simp: outcome_guarded_def)

lemma outcome_guarded_then:
  "outcome_guarded t m \<Longrightarrow> (\<And>x u. guarded t u \<Longrightarrow> outcome_guarded u (k x u)) \<Longrightarrow> outcome_guarded t (and_then m k)"
  unfolding outcome_guarded_def and_then_def
  by (auto split: option.splits sum.splits intro: guarded_trans)

lemma outcome_guarded_from: "guarded t u \<Longrightarrow> outcome_guarded u m \<Longrightarrow> outcome_guarded t m"
  unfolding outcome_guarded_def by (blast intro: guarded_trans)

lemma merge_parts_guarded: "outcome_guarded t (merge_parts ft av idxs t)"
  unfolding merge_parts_def Let_def
  by (auto intro!: outcome_guarded_bind split: sum.split)

lemma maybe_auto_compact_guarded: "outcome_guarded t (maybe_auto_compact ft av t)"
  unfolding maybe_auto_compact_def by (auto intro!: outcome_guarded_bind merge_parts_guarded)

lemma compact_to_steady_guarded: "outcome_guarded t (compact_to_steady ft av t)"
proof (induction ft av t rule: compact_to_steady.induct)
  case (1 ft av t)
  have m: "guarded t u" if "maybe_auto_compact ft av t = Some (r, u)" for r u
    using maybe_auto_compact_guarded [of t ft av] that by (simp add: outcome_guarded_def)
  show ?case
    by (subst compact_to_steady.simps) (auto split: option.split sum.split intro: m outcome_guarded_from [OF m] 1)
qed

lemma flush_publish_guarded: "flush_publish t new = Some u \<Longrightarrow> guarded t u"
  by (auto simp: flush_publish_def Let_def intro: guarded_trans [OF guarded_stats(3) guarded_publish])

lemma flush_guarded: "outcome_guarded t (flush ft av t)"
  unfolding flush_def
  by (auto intro!: outcome_guarded_bind outcome_guarded_from [OF flush_publish_guarded maybe_auto_compact_guarded] split: sum.split)

lemma compact_guarded: "outcome_guarded t (compact ft av t)"
  unfolding compact_def Let_def by (auto intro!: outcome_guarded_then flush_guarded merge_parts_guarded)

lemma flush_if_full_guarded: "outcome_guarded t (flush_if_full ft av t)"
  unfolding flush_if_full_def by (simp add: flush_guarded)

lemma buffer_row_guarded: "outcome_guarded t (buffer_row ft t row)"
  unfolding buffer_row_def
  by (auto intro!: outcome_guarded_bind outcome_guarded_map split: option.split sum.split prod.split)

lemma put_row_guarded: "outcome_guarded t (put_row ft av row t)"
  unfolding put_row_def by (auto intro!: outcome_guarded_then buffer_row_guarded flush_if_full_guarded)

lemma delete_key_guarded: "outcome_guarded t (delete_key ft av key t)"
  unfolding delete_key_def
  by (auto intro!: outcome_guarded_bind outcome_guarded_from [OF guarded_stats(2) flush_if_full_guarded] split: option.split sum.split)

lemma multi_locate_guarded: "multi_locate t lanes = Some (locs, u) \<Longrightarrow> guarded t u"
  by (auto simp: multi_locate_def Let_def)

lemma probe_chunks_guarded: "outcome_guarded t (probe_chunks ft pk c groups t)"
proof (induction groups arbitrary: t)
  case (Cons rows groups)
  show ?case
    by (auto intro!: outcome_guarded_bind dest!: multi_locate_guarded split: sum.split prod.split) (erule outcome_guarded_from, rule Cons.IH)
qed simp

lemma reject_stored_guarded: "outcome_guarded t (reject_stored_key_collisions ft b pk t)"
  unfolding reject_stored_key_collisions_def by (auto intro!: outcome_guarded_bind probe_chunks_guarded)

lemma reject_key_collisions_guarded: "outcome_guarded t (reject_key_collisions ft b t)"
  unfolding reject_key_collisions_def
  by (auto intro!: outcome_guarded_then outcome_guarded_bind reject_stored_guarded split: option.split sum.split)

lemma buffer_rows_guarded: "outcome_guarded t (buffer_rows ft b is t)"
  by (induction "is" arbitrary: t) (auto intro!: outcome_guarded_bind outcome_guarded_then buffer_row_guarded)

lemma ingest_publish_guarded: "outcome_guarded t (ingest_publish ft b rows new t)"
  unfolding ingest_publish_def edit_def
  by (auto intro!: outcome_guarded_bind intro: guarded_trans [OF guarded_stats(1) guarded_publish] split: option.split sum.split prod.split)

lemma reading_guarded: "outcome_guarded t (reading r t)"
  unfolding reading_def by (auto intro!: outcome_guarded_map)

lemma reject_in_batch_guarded: "outcome_guarded t (reject_in_batch ft b on_conflict order t)"
  unfolding reject_in_batch_def
  by (auto intro!: outcome_guarded_then outcome_guarded_map reject_stored_guarded split: key_conflict.split option.split)

lemma ingest_block_guarded: "outcome_guarded t (ingest_block ft av b on_conflict t)"
  unfolding ingest_block_def
  by (auto intro!: outcome_guarded_then outcome_guarded_bind reading_guarded reject_in_batch_guarded ingest_publish_guarded)

lemma insert_with_guarded: "outcome_guarded t (insert_with ft av b on_conflict t)"
  unfolding insert_with_def Let_def
  by (auto intro!: outcome_guarded_then reading_guarded flush_guarded ingest_block_guarded maybe_auto_compact_guarded
      reject_key_collisions_guarded buffer_rows_guarded flush_if_full_guarded)

lemma delete_where_guarded: "outcome_guarded t (delete_where ft av projection pred zone t)"
proof (cases "flush ft av t")
  case (Some out)
  obtain r u where out: "flush ft av t = Some (r, u)" using Some by (cases out) auto
  have u: "guarded t u" using flush_guarded [of t ft av] out by (simp add: outcome_guarded_def)
  then have "guarded t (publish s u)" for s by (rule guarded_trans) simp
  with out u show ?thesis unfolding delete_where_def delete_where_keys_def Let_def
    by (cases r) (auto simp: option.map_comp intro!: outcome_guarded_map split: sum.split prod.split)
qed (simp add: delete_where_def delete_where_keys_def)

lemma table_mark_deleted_guarded: "table_mark_deleted pi row t = Some (hidden, u) \<Longrightarrow> guarded t u"
  by (auto simp: table_mark_deleted_def split: if_splits)

section \<open>Sessions\<close>

text \<open>The write operations of one session, each with whatever outcome it has.\<close>

inductive table_step :: "float_text \<Rightarrow> nat \<Rightarrow> table \<Rightarrow> table \<Rightarrow> bool" for ft av where
  step_put: "put_row ft av row t = Some (r, u) \<Longrightarrow> table_step ft av t u"
| step_delete: "delete_key ft av key t = Some (r, u) \<Longrightarrow> table_step ft av t u"
| step_insert: "insert_with ft av b on_conflict t = Some (r, u) \<Longrightarrow> table_step ft av t u"
| step_flush: "flush ft av t = Some (r, u) \<Longrightarrow> table_step ft av t u"
| step_compact: "compact ft av t = Some (r, u) \<Longrightarrow> table_step ft av t u"
| step_steady: "compact_to_steady ft av t = Some (r, u) \<Longrightarrow> table_step ft av t u"
| step_sweep: "delete_where ft av projection pred zone t = Some (r, u) \<Longrightarrow> table_step ft av t u"
| step_mark: "table_mark_deleted pi row t = Some (hidden, u) \<Longrightarrow> table_step ft av t u"

lemma table_step_guarded: "table_step ft av t u \<Longrightarrow> guarded t u"
proof (induction rule: table_step.induct)
  case (step_put row t r u) then show ?case using put_row_guarded by (metis outcome_guarded_def)
next
  case (step_delete key t r u) then show ?case using delete_key_guarded by (metis outcome_guarded_def)
next
  case (step_insert b on_conflict t r u) then show ?case using insert_with_guarded by (metis outcome_guarded_def)
next
  case (step_flush t r u) then show ?case using flush_guarded by (metis outcome_guarded_def)
next
  case (step_compact t r u) then show ?case using compact_guarded by (metis outcome_guarded_def)
next
  case (step_steady t r u) then show ?case using compact_to_steady_guarded by (metis outcome_guarded_def)
next
  case (step_sweep projection pred zone t r u) then show ?case using delete_where_guarded by (metis outcome_guarded_def)
next
  case (step_mark pi row t hidden u) then show ?case using table_mark_deleted_guarded by blast
qed

lemma table_steps_guarded: "(table_step ft av)\<^sup>*\<^sup>* t u \<Longrightarrow> guarded t u"
  by (induction rule: rtranclp_induct) (auto intro: guarded_trans table_step_guarded)

lemma begin_txn_outcome:
  assumes "begin_txn ft av t = Some (Inr (), u)"
  obtains v where "\<not> in_txn t" "flush ft av t = Some (Inr (), v)" "\<not> in_txn v" "u = v\<lparr>t_txn := Some (t_parts v)\<rparr>"
proof (cases "flush ft av t")
  case (Some out)
  obtain r v where out: "flush ft av t = Some (r, v)" using Some by (cases out) auto
  then have g: "guarded t v" using flush_guarded [of t ft av] by (simp add: outcome_guarded_def)
  have n: "\<not> in_txn t" using assms by (cases "t_txn t") (simp_all add: begin_txn_def in_txn_def)
  then have "\<not> in_txn v" using g by (simp add: guarded_def)
  then show thesis using assms out n that [of v] by (cases r) (auto simp: begin_txn_def and_then_def in_txn_def)
qed (use assms in \<open>auto simp: begin_txn_def and_then_def split: if_splits\<close>)

text \<open>C3: Transactions isolate and are atomic. Once a transaction has begun, whatever the session writes, flushes, merges or deletes,
  refused statements included, other readers keep seeing the committed set of the moment it began; a rollback returns to exactly that set with an
  empty buffer, and a commit publishes what the session itself saw, all at once. A second begin is refused and changes nothing.\<close>

theorem transaction_isolated:
  assumes "begin_txn ft av t = Some (Inr (), u)" "(table_step ft av)\<^sup>*\<^sup>* u v"
  shows "committed_snapshot v = committed_snapshot u \<and> snapshot u = committed_snapshot u
    \<and> begin_txn ft av v = Some (Inl (Storage ''is already inside a transaction''), v)
    \<and> snapshot (rollback_txn v) = committed_snapshot u \<and> committed_snapshot (rollback_txn v) = committed_snapshot u
    \<and> \<not> has_pending_writes (rollback_txn v) \<and> \<not> in_txn (rollback_txn v)
    \<and> committed_snapshot (commit_txn v) = snapshot v \<and> snapshot (commit_txn v) = snapshot v \<and> \<not> in_txn (commit_txn v)"
proof -
  obtain w where w: "u = w\<lparr>t_txn := Some (t_parts w)\<rparr>" using begin_txn_outcome [OF assms(1)] by blast
  then have "in_txn u" by (simp add: in_txn_def)
  with table_steps_guarded [OF assms(2)] obtain view where v: "t_txn v = Some view" "t_parts v = t_parts u"
    by (auto simp: guarded_def in_txn_def)
  then show ?thesis
    by (simp add: w committed_snapshot_def snapshot_def begin_txn_def rollback_txn_def commit_txn_def in_txn_def
        has_pending_writes_def delta_is_empty_def delta_len_def delta_clear_def)
qed

section \<open>Errors\<close>

text \<open>A table without its caches: counters and bloom filters.\<close>

definition uncached :: "part_set \<Rightarrow> part_set" where
  "uncached s = s\<lparr>ps_parts := map (\<lambda>p. p\<lparr>pt_filter := None\<rparr>) (ps_parts s)\<rparr>"

definition forget :: "table \<Rightarrow> table" where
  "forget t = t\<lparr>t_stats := stats_default, t_parts := uncached (t_parts t), t_txn := map_option uncached (t_txn t)\<rparr>"

definition unchanged :: "table \<Rightarrow> 'a outcome \<Rightarrow> bool" where
  "unchanged t out \<longleftrightarrow> (\<forall>r u. out = Some (r, u) \<longrightarrow> forget u = forget t)"

definition safe_error :: "table \<Rightarrow> 'a outcome \<Rightarrow> bool" where
  "safe_error t out \<longleftrightarrow> (\<forall>e u. out = Some (Inl e, u) \<longrightarrow> forget u = forget t)"

lemma unchanged_simps [simp]: "unchanged t None" "unchanged t (Some (r, u)) \<longleftrightarrow> forget u = forget t"
  "safe_error t None" "safe_error t (Some (Inr x, u))" "safe_error t (Some (Inl e, u)) \<longleftrightarrow> forget u = forget t"
  by (auto simp: unchanged_def safe_error_def)

lemma outcome_cases:
  fixes m :: "'a outcome"
  obtains (panic) "m = None" | (failed) e u where "m = Some (Inl e, u)" | (success) x u where "m = Some (Inr x, u)"
  by (metis option.exhaust old.sum.exhaust surj_pair)

lemma and_then_simps [simp]:
  "and_then None k = None" "and_then (Some (Inl e, u)) k = Some (Inl e, u)" "and_then (Some (Inr x, u)) k = k x u"
  by (simp_all add: and_then_def)

lemma unchanged_bind:
  "(\<And>x. m = Some x \<Longrightarrow> unchanged t (k x)) \<Longrightarrow> unchanged t (Option.bind m k)"
  "(\<And>x. m = Some x \<Longrightarrow> safe_error t (k' x)) \<Longrightarrow> safe_error t (Option.bind m k')"
  by (cases m; simp)+

lemma unchanged_cong: "forget u = forget t \<Longrightarrow> unchanged t out \<longleftrightarrow> unchanged u out" "forget u = forget t \<Longrightarrow> safe_error t out' \<longleftrightarrow> safe_error u out'"
  by (simp_all add: unchanged_def safe_error_def)

lemma unchanged_then:
  assumes "unchanged t m"
  shows "(\<And>x u. forget u = forget t \<Longrightarrow> unchanged u (k x u)) \<Longrightarrow> unchanged t (and_then m k)"
    "(\<And>x u. forget u = forget t \<Longrightarrow> safe_error u (k' x u)) \<Longrightarrow> safe_error t (and_then m k')"
proof -
  have u: "forget u = forget t" if "m = Some (r, u)" for r u using assms that by simp
  show "unchanged t (and_then m k)" if "\<And>x u. forget u = forget t \<Longrightarrow> unchanged u (k x u)"
  proof (cases m rule: outcome_cases)
    case (success x u)
    show ?thesis using that [OF u [OF success], of x] success by (simp add: unchanged_cong(1) [OF u [OF success]])
  qed (use assms in simp_all)
  show "safe_error t (and_then m k')" if "\<And>x u. forget u = forget t \<Longrightarrow> safe_error u (k' x u)"
  proof (cases m rule: outcome_cases)
    case (success x u)
    show ?thesis using that [OF u [OF success], of x] success by (simp add: unchanged_cong(2) [OF u [OF success]])
  qed (use assms in simp_all)
qed

lemma unchanged_reading: "unchanged t (reading r t)"
  by (cases r) (simp_all add: reading_def)

lemma forget_stats [simp]: "forget (t\<lparr>t_stats := st\<rparr>) = forget t"
  by (simp add: forget_def)

lemma peek_stats [simp]: "peek (t\<lparr>t_stats := st\<rparr>) = peek t"
  by (simp add: peek_def split: option.split)

lemma forget_publish: "uncached s = uncached (peek t) \<Longrightarrow> forget (publish s t) = forget t"
  by (simp add: forget_def publish_def peek_def split: option.split)

lemma uncached_filters:
  assumes "ensure_filters s = Some s'"
  shows "uncached s' = uncached s"
proof -
  have "(snd r)\<lparr>pt_filter := None\<rparr> = p\<lparr>pt_filter := None\<rparr>" if "ensure_filter p = Some r" for p r
    using that by (auto simp: ensure_filter_def Let_def split: option.splits)
  moreover obtain rs where "those (map ensure_filter (ps_parts s)) = Some rs" "s' = s\<lparr>ps_parts := map snd rs\<rparr>"
    using assms by (auto simp: ensure_filters_def)
  ultimately show ?thesis using those_map_nth [of ensure_filter "ps_parts s" rs]
    by (auto simp: uncached_def intro!: part_set.equality nth_equalityI) (metis prod.collapse snd_conv)
qed

lemma multi_locate_unchanged: "multi_locate t lanes = Some (locs, u) \<Longrightarrow> forget u = forget t"
  by (auto simp: multi_locate_def Let_def)

lemma probe_chunks_unchanged: "unchanged t (probe_chunks ft pk c groups t)"
proof (induction groups arbitrary: t)
  case (Cons rows groups)
  have "unchanged t (probe_chunks ft pk c groups u)" if "forget u = forget t" for u using Cons.IH [of u] that by (simp add: unchanged_def)
  then show ?case by (auto intro!: unchanged_bind dest!: multi_locate_unchanged split: sum.split prod.split)
qed simp

lemma reject_stored_unchanged: "unchanged t (reject_stored_key_collisions ft b pk t)"
  unfolding reject_stored_key_collisions_def by (auto intro!: unchanged_bind probe_chunks_unchanged)

lemma reject_in_batch_unchanged: "unchanged t (reject_in_batch ft b on_conflict order t)"
proof -
  have "unchanged u (map_option (\<lambda>dup. (f dup, u)) m)" for u :: table and f :: "nat option \<Rightarrow> unit result" and m by (cases m) auto
  then show ?thesis unfolding reject_in_batch_def
    by (auto intro!: unchanged_then reject_stored_unchanged split: key_conflict.split option.split)
qed

lemma ingest_publish_error: "safe_error t (ingest_publish ft b rows new t)"
proof -
  have "forget (publish s (t\<lparr>t_stats := st\<rparr>)) = forget t" if "ensure_filters (peek t) = Some s" for s st
    using forget_publish [of s "t\<lparr>t_stats := st\<rparr>"] uncached_filters [OF that] by simp
  then show ?thesis unfolding ingest_publish_def by (auto intro!: unchanged_bind split: option.split sum.split prod.split)
qed

lemma ingest_block_error: "safe_error t (ingest_block ft av b on_conflict t)"
  unfolding ingest_block_def
  by (auto intro!: unchanged_then unchanged_bind unchanged_reading reject_in_batch_unchanged ingest_publish_error)

definition exact_error :: "table \<Rightarrow> 'a outcome \<Rightarrow> bool" where
  "exact_error t out \<longleftrightarrow> (\<forall>e u. out = Some (Inl e, u) \<longrightarrow> u = t)"

lemma exact_error_simps [simp]: "exact_error t None" "exact_error t (Some (Inr x, u))" "exact_error t (Some (Inl e, u)) \<longleftrightarrow> u = t"
  by (auto simp: exact_error_def)

lemma exact_error_bind: "(\<And>x. m = Some x \<Longrightarrow> exact_error t (k x)) \<Longrightarrow> exact_error t (Option.bind m k)"
  by (cases m) simp_all

lemma merge_parts_error: "exact_error t (merge_parts ft av idxs t)"
  unfolding merge_parts_def Let_def by (auto intro!: exact_error_bind split: sum.split)

lemma auto_compact_error: "exact_error t (maybe_auto_compact ft av t)"
  unfolding maybe_auto_compact_def by (auto intro!: exact_error_bind merge_parts_error)


definition demo_text :: float_text where
  "demo_text = \<lparr>disp_f64 = \<lambda>_. [], read_f64 = \<lambda>_. None\<rparr>"

lemma demo_flush: "flush ft av (demo_table s) = Some (Inr (), demo_table s)"
  by (simp add: flush_def demo_table_def delta_is_empty_def delta_len_def delta_new_def)

theorem transaction_isolated_witness:
  "\<exists>p u v. part_build_sel 1 two_rows None (Some 0) (Some 0) = Some p \<and> begin_txn demo_text 1 (demo_table (ps_push ps_default p)) = Some (Inr (), u)
    \<and> table_step demo_text 1 u v \<and> snapshot v \<noteq> committed_snapshot v \<and> snapshot (rollback_txn v) = ps_push ps_default p"
proof -
  obtain p where p: "part_build_sel 1 two_rows None (Some 0) (Some 0) = Some p" "keyed_set (ps_push ps_default p) 0"
    "live_at (ps_push ps_default p) 0 0 1 500" using two_rows_set by blast
  let ?s = "ps_push ps_default p"
  define u where "u = (demo_table ?s)\<lparr>t_txn := Some ?s\<rparr>"
  have b: "begin_txn demo_text 1 (demo_table ?s) = Some (Inr (), u)"
    by (simp add: begin_txn_def demo_flush u_def) (simp add: demo_table_def)
  have pk: "peek u = ?s" "snapshot u = ?s" "committed_snapshot u = ?s" by (simp_all add: u_def peek_def snapshot_def committed_snapshot_def demo_table_def)
  have "ps_ok ?s" "0 < length (ps_parts ?s)" "\<not> deleted_row (ps_deletes ?s ! 0) 1" using p(2,3) by (auto simp: keyed_set_def live_at_def)
  then obtain s' where s': "ps_tombstone ?s 0 1 = Some (True, s')" "ps_version s' = ps_version ?s" using ps_tombstone_spec(2) [of ?s 0 1] by auto
  define v where "v = publish (ps_bump s') u"
  have "table_mark_deleted 0 1 u = Some (True, v)" using s'(1) \<open>0 < length (ps_parts ?s)\<close> by (simp add: table_mark_deleted_def pk v_def)
  then have st: "table_step demo_text 1 u v" by (rule table_step.step_mark)
  then have "(table_step demo_text 1)\<^sup>*\<^sup>* u v" by (rule r_into_rtranclp [of "table_step demo_text 1"])
  note tx = transaction_isolated [OF b this]
  have "snapshot v = ps_bump s'" by (simp add: v_def u_def snapshot_def publish_def)
  moreover have "ps_version (ps_bump s') \<noteq> ps_version ?s" by (simp add: s'(2) ps_bump_def)
  ultimately have "snapshot v \<noteq> committed_snapshot v" using tx pk by auto
  with tx pk st b p(1) show ?thesis by metis
qed


end
