(* ===== verification/Table_Merge.thy ===== *)
theory Table_Merge
  imports Table_Txn
begin

text \<open>
  Merging parts (\<^verbatim>\<open>merge_parts\<close> and the compaction around it in \<^verbatim>\<open>src/storage/table.rs\<close>). The heap merge runs to its end and visits exactly the
  live rows of the parts it merges, once each, in the order of their sort lane.
\<close>

section \<open>The heap merge\<close>

text \<open>What the merge relies on: each part can be walked, and its sort lanes ascend.\<close>

definition lane_in :: "(part \<times> deletes option) list \<Rightarrow> nat \<Rightarrow> nat \<Rightarrow> u64" where
  "lane_in ps k row = the (sort_lane_at (fst (ps ! k)) row)"

definition walkable :: "(part \<times> deletes option) list \<Rightarrow> bool" where
  "walkable ps \<longleftrightarrow> (\<forall>k < length ps. part_wf (fst (ps ! k)) \<and> mask_ok (snd (ps ! k))
     \<and> (\<forall>row < pt_n_rows (fst (ps ! k)). sort_lane_at (fst (ps ! k)) row \<noteq> None)
     \<and> (\<forall>row' < pt_n_rows (fst (ps ! k)). \<forall>row \<le> row'. lane_in ps k row \<le> lane_in ps k row'))"

definition live_in :: "(part \<times> deletes option) list \<Rightarrow> nat \<Rightarrow> nat \<Rightarrow> bool" where
  "live_in ps k row \<longleftrightarrow> k < length ps \<and> row < pt_n_rows (fst (ps ! k)) \<and> \<not> deleted_row (snd (ps ! k)) row"

definition merge_key :: "(part \<times> deletes option) list \<Rightarrow> nat \<times> nat \<Rightarrow> u64 \<times> nat \<times> nat" where
  "merge_key ps = (\<lambda>(k, row). (lane_in ps k row, k, row))"

definition heap_ok :: "(part \<times> deletes option) list \<Rightarrow> heap \<Rightarrow> bool" where
  "heap_ok ps heap \<longleftrightarrow> sorted heap \<and> distinct (map (fst \<circ> snd) heap) \<and> (\<forall>(l, k, row) \<in> set heap. live_in ps k row \<and> l = lane_in ps k row)"

definition ahead :: "(part \<times> deletes option) list \<Rightarrow> heap \<Rightarrow> (nat \<times> nat) set" where
  "ahead ps heap = {(k, r). live_in ps k r \<and> (\<exists>l row. (l, k, row) \<in> set heap \<and> row \<le> r)}"

lemma next_live_in:
  assumes "walkable ps" "k < length ps"
  shows "next_live (fst (ps ! k)) from (snd (ps ! k)) = find (live_in ps k) [from..<pt_n_rows (fst (ps ! k))]"
proof -
  have "next_live (fst (ps ! k)) from (snd (ps ! k)) = find (\<lambda>r. \<not> deleted_row (snd (ps ! k)) r) [from..<pt_n_rows (fst (ps ! k))]"
    using next_live_spec assms by (simp add: walkable_def)
  also have "\<dots> = find (live_in ps k) [from..<pt_n_rows (fst (ps ! k))]"
    using assms(2) by (intro find_cong) (auto simp: live_in_def)
  finally show ?thesis .
qed

text \<open>Pushing the next live row of a part that has none in the heap: the rows ahead grow by the live rows from there on.\<close>

lemma push_live_spec:
  assumes w: "walkable ps" and k: "k < length ps" and h: "heap_ok ps heap" "k \<notin> fst ` snd ` set heap"
  shows "\<exists>heap'. push_live (fst (ps ! k)) (snd (ps ! k)) k from heap = Some heap' \<and> heap_ok ps heap'
    \<and> ahead ps heap' = ahead ps heap \<union> {(k, r) | r. live_in ps k r \<and> from \<le> r} \<and> fst ` snd ` set heap' \<subseteq> insert k (fst ` snd ` set heap)"
proof (cases "find (live_in ps k) [from..<pt_n_rows (fst (ps ! k))]")
  case None
  then have "{(k, r) | r. live_in ps k r \<and> from \<le> r} = {}" by (auto simp: find_None_iff live_in_def)
  then show ?thesis using None h next_live_in [OF w k] by (auto simp: push_live_def)
next
  case (Some row)
  let ?x = "(lane_in ps k row, k, row)"
  have row: "live_in ps k row" "from \<le> row" "\<And>r. live_in ps k r \<Longrightarrow> from \<le> r \<Longrightarrow> row \<le> r"
  proof -
    obtain i where i: "i < length [from..<pt_n_rows (fst (ps ! k))]" "live_in ps k ([from..<pt_n_rows (fst (ps ! k))] ! i)"
      "row = [from..<pt_n_rows (fst (ps ! k))] ! i" "\<forall>j < i. \<not> live_in ps k ([from..<pt_n_rows (fst (ps ! k))] ! j)"
      using Some unfolding find_Some_iff by blast
    show "live_in ps k row" "from \<le> row" using i by simp_all
    show "row \<le> r" if "live_in ps k r" "from \<le> r" for r
    proof (rule ccontr)
      assume "\<not> row \<le> r"
      then have "r - from < i" "[from..<pt_n_rows (fst (ps ! k))] ! (r - from) = r" using i(1,3) that(2) by auto
      then show False using i(4) that(1) by metis
    qed
  qed
  have "row < pt_n_rows (fst (ps ! k))" using row(1) by (simp add: live_in_def)
  then have "sort_lane_at (fst (ps ! k)) row \<noteq> None" using w k unfolding walkable_def by blast
  then obtain l where l: "sort_lane_at (fst (ps ! k)) row = Some l" by blast
  then have p: "push_live (fst (ps ! k)) (snd (ps ! k)) k from heap = Some (insort ?x heap)"
    using Some next_live_in [OF w k] by (simp add: push_live_def lane_in_def)
  have s: "set (insort ?x heap) = insert ?x (set heap)" by (rule set_insort_key)
  have "distinct (map (fst \<circ> snd) (insort ?x heap))"
  proof -
    have "mset (map (fst \<circ> snd) (insort ?x heap)) = mset (map (fst \<circ> snd) (?x # heap))" by simp
    moreover have "distinct (map (fst \<circ> snd) (?x # heap))" using h by (auto simp: heap_ok_def image_image)
    ultimately show ?thesis by (metis mset_eq_imp_distinct_iff)
  qed
  then have "heap_ok ps (insort ?x heap)" using h(1) row(1) unfolding heap_ok_def s by (auto simp: sorted_insort)
  moreover have "ahead ps (insort ?x heap) = ahead ps heap \<union> {(k, r) | r. live_in ps k r \<and> from \<le> r}"
    unfolding ahead_def s using row by (auto intro: order_trans)
  ultimately show ?thesis using p s by auto
qed

lemma heap_start_spec:
  assumes w: "walkable ps"
  shows "qs = drop n ps \<Longrightarrow> n \<le> length ps \<Longrightarrow> heap_ok ps heap \<Longrightarrow> fst ` snd ` set heap \<subseteq> {..<n} \<Longrightarrow>
    ahead ps heap = {(k, r). live_in ps k r \<and> k < n} \<Longrightarrow>
    \<exists>heap'. heap_start qs n heap = Some heap' \<and> heap_ok ps heap' \<and> ahead ps heap' = {(k, r). live_in ps k r}"
proof (induction qs arbitrary: n heap)
  case Nil
  then have "n = length ps" by simp
  then have "{(k, r). live_in ps k r \<and> k < n} = {(k, r). live_in ps k r}" by (auto simp: live_in_def)
  then show ?case using Nil by simp
next
  case (Cons q qs)
  have n: "n < length ps" using Cons.prems(1) by (metis drop_all list.distinct(1) not_le)
  then have q: "q = ps ! n" "qs = drop (Suc n) ps" using Cons.prems(1) by (metis Cons_nth_drop_Suc list.inject)+
  have "n \<notin> fst ` snd ` set heap" using Cons.prems(4) by auto
  then obtain heap' where h: "push_live (fst q) (snd q) n 0 heap = Some heap'" "heap_ok ps heap'" "ahead ps heap' = ahead ps heap \<union> {(n, r) | r. live_in ps n r \<and> 0 \<le> r}"
    "fst ` snd ` set heap' \<subseteq> insert n (fst ` snd ` set heap)" 
    using push_live_spec [OF w n Cons.prems(3), of 0] unfolding q(1) by blast
  have "ahead ps heap' = {(k, r). live_in ps k r \<and> k < Suc n}" using h(3) Cons.prems(5) by (auto simp: less_Suc_eq)
  moreover have "fst ` snd ` set heap' \<subseteq> {..<Suc n}" using h(4) Cons.prems(4) by (meson insert_subset lessThan_iff less_Suc_eq order_trans subset_iff)
  ultimately show ?case using Cons.IH [of "Suc n" heap'] n q(2) h(1,2) by (cases q) simp
qed

text \<open>Draining: the entry popped is least among everything still ahead.\<close>

lemma heap_top_least:
  assumes w: "walkable ps" and h: "heap_ok ps ((l, k, row) # heap)" and a: "(k', r) \<in> ahead ps ((l, k, row) # heap)"
  shows "(l, k, row) \<le> merge_key ps (k', r)"
proof -
  obtain l' row' where e: "(l', k', row') \<in> set ((l, k, row) # heap)" "row' \<le> r" "live_in ps k' r" using a by (auto simp: ahead_def)
  have "(l, k, row) \<le> (l', k', row')" using h e(1) by (auto simp: heap_ok_def)
  moreover have "l' = lane_in ps k' row'" using h e(1) by (auto simp: heap_ok_def)
  moreover have "lane_in ps k' row' \<le> lane_in ps k' r" using w e(2,3) by (auto simp: walkable_def live_in_def)
  ultimately show ?thesis using e(2) by (auto simp: merge_key_def less_eq_prod_def)
qed

lemma heap_drain_spec:
  shows "walkable ps \<Longrightarrow> heap_ok ps heap \<Longrightarrow>
    \<exists>out. heap_drain ps heap = Some out \<and> set out = ahead ps heap \<and> sorted_wrt (\<lambda>x y. merge_key ps x < merge_key ps y) out"
proof (induction ps heap rule: heap_drain.induct)
  case (1 ps)
  then show ?case by (simp add: ahead_def)
next
  case (2 ps l k row heap)
  note w = "2.prems"(1) and h = "2.prems"(2)
  have k: "k < length ps" "live_in ps k row" "l = lane_in ps k row" "heap_ok ps heap" "k \<notin> fst ` snd ` set heap"
    using h by (auto simp: heap_ok_def live_in_def image_image)
  obtain heap' where h': "push_live (fst (ps ! k)) (snd (ps ! k)) k (row + 1) heap = Some heap'" "heap_ok ps heap'"
    "ahead ps heap' = ahead ps heap \<union> {(k, r) | r. live_in ps k r \<and> row + 1 \<le> r}"
    using push_live_spec [OF w k(1,4,5), of "row + 1"] by blast
  obtain out where out: "heap_drain ps heap' = Some out" "set out = ahead ps heap'" "sorted_wrt (\<lambda>x y. merge_key ps x < merge_key ps y) out"
    using "2.IH" [OF k(1) h'(1) w h'(2)] by blast
  have a: "ahead ps ((l, k, row) # heap) = insert (k, row) (ahead ps heap')"
  proof -
    have "ahead ps ((l, k, row) # heap) = ahead ps heap \<union> {(k, r) | r. live_in ps k r \<and> row \<le> r}" by (auto simp: ahead_def)
    also have "{(k, r) | r. live_in ps k r \<and> row \<le> r} = insert (k, row) {(k, r) | r. live_in ps k r \<and> row + 1 \<le> r}"
      using k(2) by (auto simp: Suc_le_eq le_less)
    finally show ?thesis unfolding h'(3) by simp
  qed
  have nk: "(k, row) \<notin> ahead ps heap'" unfolding h'(3) using k(5) by (force simp: ahead_def)
  have "merge_key ps (k, row) < merge_key ps y" if "y \<in> set out" for y
  proof -
    have "merge_key ps (k, row) \<le> merge_key ps y"
      using heap_top_least [OF w h, of "fst y" "snd y"] that out(2) a k(3) by (simp add: merge_key_def)
    moreover have "y \<noteq> (k, row)" using that out(2) nk by auto
    ultimately show ?thesis by (cases y) (auto simp: merge_key_def less_le)
  qed
  then show ?case using k(1) h'(1) out a by (simp add: heap_drain.simps(2))
qed

lemma merge_order_spec:
  assumes "walkable ps"
  shows "\<exists>out. merge_order True ps = Some out \<and> set out = {(k, r). live_in ps k r} \<and> sorted_wrt (\<lambda>x y. merge_key ps x < merge_key ps y) out"
proof -
  have "heap_ok ps []" "ahead ps [] = {(k, r). live_in ps k r \<and> k < 0}" by (simp_all add: heap_ok_def ahead_def)
  then obtain heap where "heap_start ps 0 [] = Some heap" "heap_ok ps heap" "ahead ps heap = {(k, r). live_in ps k r}"
    using heap_start_spec [OF assms, of ps 0 "[]"] by auto
  then show ?thesis using heap_drain_spec [OF assms, of heap] by (auto simp: merge_order_def)
qed

lemma concat_order_spec:
  assumes "\<forall>(p, del) \<in> set ps. part_wf p \<and> mask_ok del"
  shows "merge_order False ps = Some (concat (map (\<lambda>k. map (Pair k) (filter (live_in ps k) [0..<pt_n_rows (fst (ps ! k))])) [0..<length ps]))"
proof -
  have "map (Pair k) (live_positions_into (fst (ps ! k)) (snd (ps ! k))) = map (Pair k) (filter (live_in ps k) [0..<pt_n_rows (fst (ps ! k))])"
    if "k < length ps" for k
  proof -
    have "filter (\<lambda>row. \<not> deleted_row (snd (ps ! k)) row) [0..<pt_n_rows (fst (ps ! k))] = filter (live_in ps k) [0..<pt_n_rows (fst (ps ! k))]"
      using that by (intro filter_cong) (auto simp: live_in_def)
    then show ?thesis using assms live_positions_spec [of "fst (ps ! k)" "snd (ps ! k)"] nth_mem [OF that] by (auto simp: case_prod_beta)
  qed
  then show ?thesis by (auto simp: merge_order_def map_enumerate case_prod_beta intro!: arg_cong [where f = concat])
qed

section \<open>The part count\<close>

lemma take_small_prefix:
  "\<exists>j \<le> length xs. take_small budget xs taken acc = taken @ map fst (take j xs) \<and> (j < length xs \<longrightarrow> AUTO_COMPACT_PARTS div 2 \<le> length taken + j)"
proof (induction xs arbitrary: taken acc)
  case (Cons x xs)
  obtain i rows where x: "x = (i, rows)" by (cases x)
  show ?case
  proof (cases "AUTO_COMPACT_PARTS div 2 \<le> length taken \<and> budget < acc + rows")
    case True
    then show ?thesis using x by (intro exI [of _ 0]) auto
  next
    case False
    obtain j where "j \<le> length xs" "take_small budget xs (taken @ [i]) (acc + rows) = (taken @ [i]) @ map fst (take j xs)"
      "j < length xs \<longrightarrow> AUTO_COMPACT_PARTS div 2 \<le> length (taken @ [i]) + j" using Cons.IH by blast
    then show ?thesis using False x by (intro exI [of _ "Suc j"]) auto
  qed
qed simp

lemma compaction_picks_enough:
  assumes "compaction_picks s = Some taken" "AUTO_COMPACT_PARTS \<le> length (ps_parts s)"
  shows "AUTO_COMPACT_PARTS div 2 \<le> length taken" "distinct taken" "set taken \<subseteq> {..<length (ps_parts s)}"
proof -
  obtain sizes budget where z: "length sizes = length (ps_parts s)"
    "taken = take_small budget (map (\<lambda>i. (i, sizes ! i)) (sort_key (\<lambda>i. sizes ! i) [0..<length sizes])) [] 0"
    using assms(1) by (auto simp: compaction_picks_def bind_eq_Some_conv Let_def dest: those_map_nth)
  let ?by = "sort_key (\<lambda>i. sizes ! i) [0..<length sizes]"
  obtain j where j: "j \<le> length sizes" "taken = take j ?by" "j < length sizes \<longrightarrow> AUTO_COMPACT_PARTS div 2 \<le> j"
    using take_small_prefix [of "map (\<lambda>i. (i, sizes ! i)) ?by" budget "[]" 0] by (auto simp: z(2) take_map o_def)
  show "AUTO_COMPACT_PARTS div 2 \<le> length taken"
    using j assms(2) z(1) by (cases "j < length sizes") (auto simp: AUTO_COMPACT_PARTS_def)
  show "distinct taken" using j(2) by simp
  show "set taken \<subseteq> {..<length (ps_parts s)}" using j(2) set_take_subset [of j ?by] z(1) by auto
qed

lemma remove_parts_count: "remove_parts is s = Some s' \<Longrightarrow> length (ps_parts s') + length is = length (ps_parts s)"
  by (induction "is" arbitrary: s) (fastforce simp: bind_eq_Some_conv ps_remove_def split: if_splits)+

lemma peek_publish [simp]: "peek (publish s t) = s"
  by (simp add: peek_def publish_def split: option.split)

text \<open>The steps of a merge that succeeds.\<close>

lemma merge_parts_steps:
  assumes m: "merge_parts ft av idxs t = Some (Inr (), u)" and two: "2 \<le> length idxs"
  obtains dels picked order b new s where "those (map (at (ps_deletes (peek t))) idxs) = Some dels" "those (map (at (ps_parts (peek t))) idxs) = Some picked"
    "merge_order (t_sort_col t \<noteq> None) (zip picked dels) = Some order"
    "gather_rows ft picked (map (\<lambda>(k, row). (of_nat k, of_nat row)) order) (schema_types (td_schema (t_def t))) = Some (Inr b)"
    "(if blk_rows b > 0 then map_option Some (part_build av b (t_sort_col t) (t_pk_col t)) else Some None) = Some new"
    "remove_parts (rev (sort idxs)) (peek t) = Some s" "u = publish (ps_bump (case new of Some p \<Rightarrow> ps_push s p | None \<Rightarrow> s)) t"
proof -
  have n: "\<not> length idxs < 2" using two by simp
  obtain dels picked order r where d: "those (map (at (ps_deletes (peek t))) idxs) = Some dels" "those (map (at (ps_parts (peek t))) idxs) = Some picked"
    "merge_order (t_sort_col t \<noteq> None) (zip picked dels) = Some order"
    "gather_rows ft picked (map (\<lambda>(k, row). (of_nat k, of_nat row)) order) (schema_types (td_schema (t_def t))) = Some r"
    using m n unfolding merge_parts_def Let_def by (auto simp: bind_eq_Some_conv)
  then obtain b where r: "r = Inr b" using m n unfolding merge_parts_def Let_def by (cases r) (auto simp: bind_eq_Some_conv)
  obtain new s where "(if blk_rows b > 0 then map_option Some (part_build av b (t_sort_col t) (t_pk_col t)) else Some None) = Some new"
    "remove_parts (rev (sort idxs)) (peek t) = Some s" "u = publish (ps_bump (case new of Some p \<Rightarrow> ps_push s p | None \<Rightarrow> s)) t"
    using m n d(1-3) d(4) [unfolded r] unfolding merge_parts_def Let_def
    by (simp split del: if_split) (auto simp: bind_eq_Some_conv split del: if_split)
  then show thesis using that d r by blast
qed

lemma merge_parts_count:
  assumes "merge_parts ft av idxs t = Some (Inr (), u)" "2 \<le> length idxs"
  shows "part_count u + length idxs \<le> part_count t + 1"
proof -
  obtain new s where "remove_parts (rev (sort idxs)) (peek t) = Some s" "u = publish (ps_bump (case new of Some p \<Rightarrow> ps_push s p | None \<Rightarrow> s)) t"
    by (rule merge_parts_steps [OF assms]) blast
  then show ?thesis using remove_parts_count [of "rev (sort idxs)" "peek t" s]
    by (auto simp: part_count_def ps_bump_def ps_push_eq split: option.splits)
qed

lemma auto_compact_count:
  assumes "maybe_auto_compact ft av t = Some (Inr (), u)" "AUTO_COMPACT_PARTS \<le> part_count t" "\<not> t_replaying t"
  shows "part_count u + AUTO_COMPACT_PARTS div 2 \<le> part_count t + 1" "\<not> t_replaying u"
proof -
  obtain taken where c: "compaction_picks (peek t) = Some taken"
    and m: "(if length taken < 2 then Some (Inr (), t) else merge_parts ft av taken t) = Some (Inr (), u)"
    using assms by (auto simp: maybe_auto_compact_def bind_eq_Some_conv)
  note e = compaction_picks_enough [OF c] assms(2) [unfolded part_count_def]
  have "2 \<le> length taken" using e(1,4) by (simp add: AUTO_COMPACT_PARTS_def)
  then show "part_count u + AUTO_COMPACT_PARTS div 2 \<le> part_count t + 1" using m merge_parts_count [of ft av taken t u] e(1,4) by force
  show "\<not> t_replaying u" using maybe_auto_compact_guarded [of t ft av] assms by (auto simp: outcome_guarded_def guarded_def)
qed

lemma compact_to_steady_count:
  "compact_to_steady ft av t = Some (Inr (), u) \<Longrightarrow> \<not> t_replaying t \<Longrightarrow> part_count u < AUTO_COMPACT_PARTS \<and> part_count u \<le> part_count t"
proof (induction ft av t rule: compact_to_steady.induct)
  case (1 ft av t)
  show ?case
  proof (cases "AUTO_COMPACT_PARTS \<le> part_count t")
    case True
    obtain v where v: "maybe_auto_compact ft av t = Some (Inr (), v)"
      using 1(2) True by (subst (asm) compact_to_steady.simps) (auto split: option.splits sum.splits)
    note c = auto_compact_count [OF v True 1(3)]
    have lt: "part_count v < part_count t" using c(1) True by (simp add: AUTO_COMPACT_PARTS_def)
    then have "compact_to_steady ft av v = Some (Inr (), u)" using 1(2) True v by (subst (asm) compact_to_steady.simps) simp
    then show ?thesis using 1(1) [OF True v] lt c(2) by auto
  next
    case False
    then show ?thesis using 1(2) by (subst (asm) compact_to_steady.simps) auto
  qed
qed

section \<open>Properties\<close>

text \<open>The parts of a keyed set can be merged, in any selection.\<close>

lemma keyed_walkable:
  assumes ks: "keyed_set s c" and idxs: "\<forall>i \<in> set idxs. i < length (ps_parts s)"
  shows "walkable (map (\<lambda>i. (ps_parts s ! i, ps_deletes s ! i)) idxs)"
proof -
  have one: "part_wf (ps_parts s ! i) \<and> mask_ok (ps_deletes s ! i)
      \<and> (\<forall>row < pt_n_rows (ps_parts s ! i). sort_lane_at (ps_parts s ! i) row = Some (part_lanes (ps_parts s ! i) c ! row))
      \<and> (\<forall>row' < pt_n_rows (ps_parts s ! i). \<forall>row \<le> row'. part_lanes (ps_parts s ! i) c ! row \<le> part_lanes (ps_parts s ! i) c ! row')"
    if i: "i < length (ps_parts s)" for i
  proof -
    note sp = keyed_set_part [OF ks i]
    have kp: "keyed_part (core (ps_parts s ! i)) c" using sp by (simp add: stored_part_def)
    have "sorted (part_lanes (ps_parts s ! i) c)" using kp by (simp add: keyed_part_def strict_sorted_iff)
    moreover have "entry_ok (ps_parts s ! i) (ps_deletes s ! i)" using ks i ps_entry by (simp add: keyed_set_def)
    moreover have "sort_lane_at (ps_parts s ! i) row = Some (part_lanes (ps_parts s ! i) c ! row)" if "row < pt_n_rows (ps_parts s ! i)" for row
      using sort_lane_at_spec [OF kp, of row] that by simp
    ultimately show ?thesis using stored_rows [OF sp] by (auto simp: entry_ok_def sorted_nth_mono)
  qed
  show ?thesis unfolding walkable_def lane_in_def using one idxs by simp
qed

text \<open>C12: A merge runs to its end and drops no row and adds none: on a sorted table it visits the live rows of the merged parts, once each, in
  ascending order of sort lane (then part, then row); on an unsorted one it visits them part by part, in the order in which the parts are named.\<close>

theorem merge_visits_live_rows:
  assumes "walkable ps"
  shows "(\<exists>out. merge_order True ps = Some out \<and> set out = {(k, r). live_in ps k r} \<and> sorted_wrt (\<lambda>x y. merge_key ps x < merge_key ps y) out)
    \<and> merge_order False ps = Some (concat (map (\<lambda>k. map (Pair k) (filter (live_in ps k) [0..<pt_n_rows (fst (ps ! k))])) [0..<length ps]))"
proof
  have "\<forall>(p, del) \<in> set ps. part_wf p \<and> mask_ok del" using assms by (auto simp: walkable_def in_set_conv_nth) (metis fst_conv snd_conv)+
  then show "merge_order False ps = Some (concat (map (\<lambda>k. map (Pair k) (filter (live_in ps k) [0..<pt_n_rows (fst (ps ! k))])) [0..<length ps]))"
    by (rule concat_order_spec)
qed (rule merge_order_spec [OF assms])

theorem merge_visits_live_rows_witness:
  "\<exists>p out. part_build_sel 1 two_rows None (Some 0) (Some 0) = Some p \<and> merge_order True [(p\<lparr>pt_pid := 1\<rparr>, None)] = Some out \<and> (0, 1) \<in> set out"
proof -
  obtain p where p: "part_build_sel 1 two_rows None (Some 0) (Some 0) = Some p" "keyed_part p 0" "pt_n_rows p = 2" using two_rows_part by blast
  have bt: "built two_rows None (Some 0) (Some 0) p" using p(1) by (auto simp: built_def)
  have n: "ps_next_pid ps_default \<noteq> - 1" "\<not> live_at ps_default c i row k" for c i row k by (simp_all add: ps_default_def live_at_def)
  note pk = push_built [OF keyed_default p(2) bt bt bt bt n(1)]
  have ks: "keyed_set (ps_push ps_default p) 0" by (rule pk(1)) (simp add: n(2))
  have s: "ps_parts (ps_push ps_default p) = [p\<lparr>pt_pid := 1\<rparr>]" "ps_deletes (ps_push ps_default p) = [None]"
    using built_fresh [OF bt] by (simp_all add: ps_push_eq ps_default_def published_def minted_def born_deletes_def)
  have "walkable [(p\<lparr>pt_pid := 1\<rparr>, None)]" using keyed_walkable [OF ks, of "[0]"] by (simp add: s)
  moreover have "live_in [(p\<lparr>pt_pid := 1\<rparr>, None)] 0 1" using p(3) by (simp add: live_in_def deleted_row_def)
  ultimately show ?thesis using merge_visits_live_rows [of "[(p\<lparr>pt_pid := 1\<rparr>, None)]"] p(1) by auto
qed



end
