(* ===== verification/Wal_Record.thy ===== *)
theory Wal_Record
  imports Table_Schema Column_Block Delete_Mask Format
begin

text \<open>
  The records of the write-ahead log, \<^verbatim>\<open>src/persist/wal.rs\<close>: the body of every kind of record as the appenders
  write it and \<open>decode_entry\<close> reads it, the frame around it, and the block payload of an insert
  (\<^verbatim>\<open>put_block\<close> of \<^verbatim>\<open>src/persist/writer.rs\<close>, \<^verbatim>\<open>get_block\<close> of \<^verbatim>\<open>src/persist/reader.rs\<close>). Shown: every record decodes as what
  was logged, staged or not; the in-place framing of \<open>Body\<close> is the framing of the format; and the lenient readers of the
  open-time scan agree with the encoders. A record is read against the columns of its table.
\<close>

section \<open>Definitions\<close>

subsection \<open>Blocks\<close>

definition MAX_COUNT :: u64 where "MAX_COUNT = push_bit 24 1"
definition MAX_PART_ROWS :: u64 where "MAX_PART_ROWS = push_bit 40 1"

definition bounded :: "u64 \<Rightarrow> u64 \<Rightarrow> nat result" where
  "bounded v limit = (if v > limit \<or> v > of_nat usize_max then Inl (Corruption ''is implausible'') else Inr (unat v))"

definition read_count :: "u64 \<Rightarrow> nat result" where
  "read_count v = bounded v MAX_COUNT"

definition row_count :: "u64 \<Rightarrow> nat result" where
  "row_count v = bounded v MAX_PART_ROWS"

definition as_corrupt :: "string \<Rightarrow> error \<Rightarrow> error" where
  "as_corrupt what e = (case e of Corruption _ \<Rightarrow> e | Io _ \<Rightarrow> e | _ \<Rightarrow> Corruption what)"

text \<open>One turn of the loop of \<open>put_block\<close>.\<close>

definition put_column :: "bytes \<Rightarrow> column \<Rightarrow> bytes" where
  "put_column w c =
     (let w = w_display w [show_type (col_ty c)];
          w = (case col_data c of
                 CU64 v \<Rightarrow> w_u64_slice w v
               | CI64 v \<Rightarrow> foldl w_u64 (w_varint w (of_nat (length v))) v
               | CF64 v \<Rightarrow> foldl w_u64 (w_varint w (of_nat (length v))) v
               | CStr v \<Rightarrow> foldl w_str (w_varint w (of_nat (length v))) v)
      in case col_nulls c of
           Some n \<Rightarrow> w_u64_slice (w_u8 w 1) (words n)
         | None \<Rightarrow> w_u8 w 0)"

definition put_block :: "bytes \<Rightarrow> block \<Rightarrow> bytes" where
  "put_block w b =
     foldl put_column (w_varint (w_varint w (of_nat (block_width b))) (of_nat (blk_rows b))) (blk_columns b)"

fun strings_loop :: "nat \<Rightarrow> reader \<Rightarrow> bytes list read" where
  "strings_loop 0 r = Inr ([], r)"
| "strings_loop (Suc n) r = rbind (r_str r) (\<lambda>(s, r). rbind (strings_loop n r) (\<lambda>(v, r). Inr (s # v, r)))"

definition get_data :: "physical_type \<Rightarrow> reader \<Rightarrow> column_data read" where
  "get_data p r = (case p of
     U64 \<Rightarrow> rbind (r_u64_slice r) (\<lambda>(v, r). Inr (CU64 v, r))
   | I64 \<Rightarrow> rbind (r_u64_slice r) (\<lambda>(v, r). Inr (CI64 v, r))
   | F64 \<Rightarrow> rbind (r_u64_slice r) (\<lambda>(v, r). Inr (CF64 v, r))
   | Str \<Rightarrow> rbind (r_varint r) (\<lambda>(n, r). rbind (row_count n) (\<lambda>n. rbind (strings_loop n r) (\<lambda>(v, r). Inr (CStr v, r)))))"

definition get_nulls :: "reader \<Rightarrow> bitset option read" where
  "get_nulls r = rbind (r_u8 r) (\<lambda>(t, r).
     if t = 0 then Inr (None, r)
     else if t = 1 then rbind (r_u64_slice r) (\<lambda>(ws, r). Inr (Some (from_words ws), r))
     else Inl (Corruption ''unknown null-mask tag''))"

text \<open>One turn of the loop of \<open>get_block\<close>, for a column the table declares as \<open>want\<close>.\<close>

definition get_column :: "nat \<Rightarrow> data_type \<Rightarrow> reader \<Rightarrow> column read" where
  "get_column rows want r =
     rbind (r_str r) (\<lambda>(text, r).
     rbind (case parse_type text of Inl e \<Rightarrow> Inl (as_corrupt ''bad column type'' e) | Inr ty \<Rightarrow> Inr ty) (\<lambda>ty.
       if physical ty \<noteq> physical want then Inl (Corruption ''record column is not what the table declares'')
       else rbind (get_data (physical ty) r) (\<lambda>(d, r).
         if cd_len d \<noteq> rows then Inl (Corruption ''record column holds another number of values than the record has rows'')
         else rbind (get_nulls r) (\<lambda>(nulls, r).
           Inr (case nulls of Some n \<Rightarrow> with_nulls ty d n | None \<Rightarrow> col_new ty d, r)))))"

fun get_columns :: "nat \<Rightarrow> data_type list \<Rightarrow> reader \<Rightarrow> column list read" where
  "get_columns rows [] r = Inr ([], r)"
| "get_columns rows (want # wants) r =
     rbind (get_column rows want r) (\<lambda>(c, r). rbind (get_columns rows wants r) (\<lambda>(cs, r). Inr (c # cs, r)))"

definition get_block :: "schema \<Rightarrow> reader \<Rightarrow> block read" where
  "get_block sch r =
     rbind (r_varint r) (\<lambda>(width, r). rbind (read_count width) (\<lambda>width.
     rbind (r_varint r) (\<lambda>(rows, r). rbind (row_count rows) (\<lambda>rows.
       if width \<noteq> schema_len sch then Inl (Corruption ''record has another number of columns than the table'')
       else rbind (get_columns rows (map f_ty (s_fields sch)) r) (\<lambda>(cols, r).
         case block_new cols of Inl e \<Rightarrow> Inl (as_corrupt ''ragged record'' e) | Inr b \<Rightarrow> Inr (b, r))))))"

definition block_from_bytes :: "bytes \<Rightarrow> schema \<Rightarrow> block result" where
  "block_from_bytes bs sch = rbind (get_block sch (reader_new bs)) (\<lambda>(b, r).
     if remaining r = 0 then Inr b else Inl (Corruption ''trailing bytes after a block''))"

subsection \<open>Records\<close>

definition TAG_INSERT :: u8 where "TAG_INSERT = 1"
definition TAG_DELETE :: u8 where "TAG_DELETE = 2"
definition TAG_COMMIT :: u8 where "TAG_COMMIT = 3"
definition TAG_PREPARE :: u8 where "TAG_PREPARE = 4"
definition TAG_DECIDE :: u8 where "TAG_DECIDE = 5"
definition TAG_DELETE_RUN :: u8 where "TAG_DELETE_RUN = 6"
definition TAG_TICK :: u8 where "TAG_TICK = 7"
definition TAG_MASK_RUN :: u8 where "TAG_MASK_RUN = 9"
definition STAGED :: u8 where "STAGED = 0x80"
definition DELETE_BATCH :: nat where "DELETE_BATCH = 8192"
definition MAX_FRAME :: nat where "MAX_FRAME = 2 ^ 31"

datatype wal_record = RInsert block | RDelete u64 | RMask u64 "u64 list"

datatype entry =
    Record "u64 option" wal_record
  | Deletes "u64 option" bytes
  | Masks "u64 option" u64 u64 bytes
  | Commit u64
  | Prepare u64 bytes u64
  | Tick u64

definition put_tag :: "bytes \<Rightarrow> u8 \<Rightarrow> u64 option \<Rightarrow> bytes" where
  "put_tag w tag seq = (case seq of
     Some s \<Rightarrow> w_varint (w_u8 w (tag OR STAGED)) s
   | None \<Rightarrow> w_u8 w tag)"

text \<open>The bodies the appenders build.\<close>

definition insert_body :: "u64 option \<Rightarrow> block \<Rightarrow> bytes" where
  "insert_body seq b = put_block (put_tag [] TAG_INSERT seq) b"

definition delete_body :: "u64 option \<Rightarrow> u64 \<Rightarrow> bytes" where
  "delete_body seq lane = w_u64 (put_tag [] TAG_DELETE seq) lane"

definition delete_run_body :: "u64 option \<Rightarrow> u64 list \<Rightarrow> bytes" where
  "delete_run_body seq chunk =
     foldl w_u64 (w_varint (put_tag [] TAG_DELETE_RUN seq) (of_nat (length chunk))) chunk"

definition mask_body :: "u64 option \<Rightarrow> u64 \<Rightarrow> u64 \<Rightarrow> bytes \<Rightarrow> bytes" where
  "mask_body seq pid n deltas = w_raw (w_varint (w_varint (put_tag [] TAG_MASK_RUN seq) pid) n) deltas"

definition marker_body :: "u8 \<Rightarrow> u64 \<Rightarrow> bytes" where
  "marker_body tag seq = w_varint (w_u8 [] tag) seq"

definition prepare_body :: "u64 \<Rightarrow> u64 \<Rightarrow> bytes \<Rightarrow> bytes" where
  "prepare_body seq coord_seq rel = w_str (w_varint (w_varint (w_u8 [] TAG_PREPARE) seq) coord_seq) rel"

definition tick_body :: "u64 \<Rightarrow> u64 \<Rightarrow> bytes" where
  "tick_body seq ms = w_varint (w_varint (w_u8 [] TAG_TICK) seq) ms"

definition decode_payload :: "schema \<Rightarrow> u8 \<Rightarrow> u64 option \<Rightarrow> reader \<Rightarrow> entry read" where
  "decode_payload sch bare seq br =
     (if bare = TAG_INSERT then rbind (get_block sch br) (\<lambda>(b, br). Inr (Record seq (RInsert b), br))
      else if bare = TAG_DELETE then rbind (r_u64 br) (\<lambda>(l, br). Inr (Record seq (RDelete l), br))
      else if bare = TAG_DELETE_RUN
      then rbind (r_varint br) (\<lambda>(n, br).
             case checked_mul (unat n) 8 of
               None \<Rightarrow> Inl (Corruption ''a delete run needs more than the bytes in its frame'')
             | Some want \<Rightarrow>
                 if want > remaining br then Inl (Corruption ''a delete run needs more than the bytes in its frame'')
                 else rbind (r_take br want) (\<lambda>(ls, br). Inr (Deletes seq ls, br)))
      else if bare = TAG_MASK_RUN
      then rbind (r_varint br) (\<lambda>(pid, br). rbind (r_varint br) (\<lambda>(n, br).
             if n > of_nat (remaining br) then Inl (Corruption ''a mask run needs more than the bytes in its frame'')
             else rbind (r_take br (remaining br)) (\<lambda>(ds, br). Inr (Masks seq pid n ds, br))))
      else Inl (Corruption ''unknown log record tag''))"

definition decode_entry :: "bytes \<Rightarrow> schema \<Rightarrow> entry result" where
  "decode_entry body sch =
     rbind (r_u8 (reader_new body)) (\<lambda>(tag, br).
     rbind (if tag = TAG_COMMIT \<or> tag = TAG_DECIDE then rbind (r_varint br) (\<lambda>(s, br). Inr (Commit s, br))
            else if tag = TAG_PREPARE
            then rbind (r_varint br) (\<lambda>(seq, br). rbind (r_varint br) (\<lambda>(coord, br).
                   rbind (r_str br) (\<lambda>(rel, br). Inr (Prepare seq rel coord, br))))
            else if tag = TAG_TICK
            then rbind (r_varint br) (\<lambda>(seq, br). rbind (r_varint br) (\<lambda>(ms, br). Inr (Tick seq, br)))
            else rbind (if tag AND STAGED \<noteq> 0 then rbind (r_varint br) (\<lambda>(s, br). Inr (Some s, br)) else Inr (None, br))
                   (\<lambda>(seq, br). decode_payload sch (tag AND NOT STAGED) seq br))
       (\<lambda>(e, br). if remaining br = 0 then Inr e else Inl (Corruption ''trailing bytes in a log record'')))"

subsection \<open>Framing-level readers\<close>

definition is_mutation :: "u8 \<Rightarrow> bool" where
  "is_mutation tag = (tag AND NOT STAGED \<in> {TAG_INSERT, TAG_DELETE, TAG_DELETE_RUN, TAG_MASK_RUN})"

definition count_of :: "bytes \<Rightarrow> u64" where
  "count_of body = (case r_u8 (reader_new body) of
     Inl _ \<Rightarrow> 1
   | Inr (tag, r) \<Rightarrow>
       let bare = tag AND NOT STAGED
       in if bare \<noteq> TAG_DELETE_RUN \<and> bare \<noteq> TAG_MASK_RUN then 1
          else case (if tag AND STAGED \<noteq> 0 then rbind (r_varint r) (\<lambda>(_, r). Inr r) else Inr r) of
                 Inl _ \<Rightarrow> 1
               | Inr r \<Rightarrow>
                   (case (if bare = TAG_MASK_RUN then rbind (r_varint r) (\<lambda>(_, r). Inr r) else Inr r) of
                      Inl _ \<Rightarrow> 1
                    | Inr r \<Rightarrow> (case r_varint r of Inl _ \<Rightarrow> 1 | Inr (n, _) \<Rightarrow> n)))"

definition tick_of :: "bytes \<Rightarrow> (u64 \<times> u64) option" where
  "tick_of body = (case r_u8 (reader_new body) of
     Inl _ \<Rightarrow> None
   | Inr (tag, r) \<Rightarrow>
       if tag \<noteq> TAG_TICK then None
       else case rbind (r_varint r) (\<lambda>(seq, r). rbind (r_varint r) (\<lambda>(ms, _). Inr (seq, ms))) of
              Inl _ \<Rightarrow> None | Inr p \<Rightarrow> Some p)"

definition saturating_inc :: "u64 \<Rightarrow> u64" where
  "saturating_inc s = (if s = - 1 then s else s + 1)"

definition body_next_seq :: "bytes \<Rightarrow> u64" where
  "body_next_seq body = (case r_u8 (reader_new body) of
     Inl _ \<Rightarrow> 0
   | Inr (tag, r) \<Rightarrow>
       if tag = TAG_COMMIT \<or> tag = TAG_DECIDE \<or> tag = TAG_PREPARE \<or> tag AND STAGED \<noteq> 0
       then (case r_varint r of Inl _ \<Rightarrow> 0 | Inr (s, _) \<Rightarrow> saturating_inc s)
       else 0)"

definition tagged :: "bytes \<Rightarrow> u8 \<Rightarrow> u64 option" where
  "tagged body tag = (case r_u8 (reader_new body) of
     Inl _ \<Rightarrow> None
   | Inr (t, r) \<Rightarrow> if t = tag then (case r_varint r of Inl _ \<Rightarrow> None | Inr (s, _) \<Rightarrow> Some s) else None)"

subsection \<open>The frame built in place\<close>

definition FRAME_MAX_HEAD :: nat where "FRAME_MAX_HEAD = 10 + 8"

text \<open>\<open>Body::new\<close>: the buffer with room for the frame header in front; the body is appended to it.\<close>

definition body_new :: bytes where
  "body_new = w_raw [] (replicate FRAME_MAX_HEAD 0)"

function head_loop :: "bytes \<Rightarrow> nat \<Rightarrow> u64 \<Rightarrow> bytes \<times> nat" where
  "head_loop head n v =
     (if v \<ge> 0x80 then head_loop (head[n := ucast v OR 0x80]) (n + 1) (drop_bit 7 v) else (head[n := ucast v], n + 1))"
  by pat_completeness auto
termination
proof (relation "measure (\<lambda>(head, n, v). unat v)", simp)
  fix head :: bytes and n :: nat and v :: u64
  assume "0x80 \<le> v"
  then show "((head[n := ucast v OR 0x80], n + 1, drop_bit 7 v), head, n, v) \<in> measure (\<lambda>(head, n, v). unat v)"
    by (simp add: unat_drop_7 word_le_nat_alt)
qed

declare head_loop.simps [simp del]

definition body_finish :: "bytes \<Rightarrow> bytes" where
  "body_finish w =
     (let sum = checksum (drop FRAME_MAX_HEAD w);
          (head, n) = head_loop (replicate FRAME_MAX_HEAD 0) 0 (of_nat (length w - FRAME_MAX_HEAD));
          head = put_range head n (le_bytes sum);
          at = FRAME_MAX_HEAD - (n + 8)
      in drop at (put_range w at (take (n + 8) head)))"

definition frame_len :: "bytes \<Rightarrow> nat" where
  "frame_len body = length (w_varint [] (of_nat (length body))) + 8 + length body"

section \<open>Reading what was written\<close>

text \<open>The reader \<open>rd\<close> takes the bytes \<open>e\<close>, wherever they stand, for the value \<open>x\<close>.\<close>

definition reads :: "(reader \<Rightarrow> 'a read) \<Rightarrow> bytes \<Rightarrow> 'a \<Rightarrow> bool" where
  "reads rd e x \<longleftrightarrow> (\<forall>w z. length (w @ e @ z) \<le> usize_max \<longrightarrow>
     rd (behind w (w @ e @ z)) = Inr (x, behind (w @ e) (w @ e @ z)))"

lemma reads_at:
  "reads rd e x \<Longrightarrow> length (w @ e @ z) \<le> usize_max \<Longrightarrow> rd (behind w (w @ e @ z)) = Inr (x, behind (w @ e) (w @ e @ z))"
  by (simp add: reads_def)

lemma reads_bind:
  assumes "reads rd e x" "reads (f x) e' y"
  shows "reads (\<lambda>r. rbind (rd r) (\<lambda>(x, r). f x r)) (e @ e') y"
  unfolding reads_def
proof (intro allI impI)
  fix w z assume len: "length (w @ (e @ e') @ z) \<le> usize_max"
  have "rd (behind w (w @ (e @ e') @ z)) = Inr (x, behind (w @ e) (w @ (e @ e') @ z))"
    using reads_at [OF assms(1), of w "e' @ z"] len by simp
  moreover have "f x (behind (w @ e) (w @ (e @ e') @ z)) = Inr (y, behind (w @ e @ e') (w @ (e @ e') @ z))"
    using reads_at [OF assms(2), of "w @ e" z] len by simp
  ultimately show "rbind (rd (behind w (w @ (e @ e') @ z))) (\<lambda>(x, r). f x r)
      = Inr (y, behind (w @ e @ e') (w @ (e @ e') @ z))" by simp
qed

lemma reads_return: "reads (\<lambda>r. Inr (x, r)) [] x"
  by (simp add: reads_def)

lemma reads_map:
  assumes "reads rd e x"
  shows "reads (\<lambda>r. rbind (rd r) (\<lambda>(x, r). Inr (g x, r))) e (g x)"
  using reads_bind [of rd e x "\<lambda>x r. Inr (g x, r)" "[]" "g x"] assms reads_return [of "g x"] by simp

context byte_codec
begin

lemma reads_run: "(\<And>w. wr w x = w @ e) \<Longrightarrow> ok x \<Longrightarrow> reads rd e x"
  unfolding reads_def using rd_wr by (metis append.assoc)

end

lemma w_str_eq: "w_str w s = w @ varint_bytes (of_nat (length s)) @ s"
  by (simp add: w_str_def w_bytes_def w_varint_eq [of w])

lemma w_u64_slice_eq: "w_u64_slice w v = w @ varint_bytes (of_nat (length v)) @ concat (map le_bytes v)"
  by (simp add: w_u64_slice_def w_words_eq w_varint_eq [of w])

lemma foldl_w_u64: "foldl w_u64 w v = w @ concat (map le_bytes v)"
  by (induction v arbitrary: w) (simp_all add: w_u64_def)

lemma foldl_w_str: "foldl w_str w v = w @ foldl w_str [] v"
proof (induction v arbitrary: w)
  case (Cons s v)
  show ?case using Cons [of "w_str w s"] Cons [of "w_str [] s"] by (simp add: w_str_eq)
qed simp

lemma reads_varint: "reads r_varint (varint_bytes v) v"
  by (rule varint_codec.reads_run [OF w_varint_eq TrueI])

lemma reads_u8: "reads r_u8 [x] x"
  by (rule u8_codec.reads_run) (simp_all add: w_u8_def)

lemma reads_u64: "reads r_u64 (le_bytes v) v"
  by (rule u64_codec.reads_run) (simp_all add: w_u64_def)

lemma reads_str: "utf8_valid s \<Longrightarrow> reads r_str (varint_bytes (of_nat (length s)) @ s) s"
  by (rule str_codec.reads_run) (simp_all add: w_str_eq)

lemma reads_u64_slice: "reads r_u64_slice (varint_bytes (of_nat (length v)) @ concat (map le_bytes v)) v"
  by (rule u64s_codec.reads_run) (simp_all add: w_u64_slice_eq)

lemmas reads_basic = reads_varint reads_u8 reads_u64 reads_str reads_u64_slice

text \<open>Reading a whole buffer.\<close>

lemma reads_new:
  assumes "reads rd e x" "length (e @ z) \<le> usize_max"
  shows "rd (reader_new (e @ z)) = Inr (x, behind e (e @ z))"
  using reads_at [OF assms(1), of "[]" z] assms(2) by (simp add: reader_new_def)

section \<open>Blocks round-trip\<close>

lemma strings_loop_reads:
  "\<forall>s \<in> set v. utf8_valid s \<Longrightarrow> reads (strings_loop (length v)) (foldl w_str [] v) v"
proof (induction v)
  case (Cons s v)
  have "reads (\<lambda>r. rbind (r_str r) (\<lambda>(s, r). rbind (strings_loop (length v) r) (\<lambda>(v, r). Inr (s # v, r))))
      ((varint_bytes (of_nat (length s)) @ s) @ foldl w_str [] v) (s # v)"
    using Cons by (intro reads_bind [OF reads_str] reads_map) auto
  moreover have "foldl w_str [] (s # v) = (varint_bytes (of_nat (length s)) @ s) @ foldl w_str [] v"
    using foldl_w_str [of "w_str [] s" v] w_str_eq [of "[]" s] by simp
  ultimately show ?case by (simp only: list.size(4) strings_loop.simps add_0_right Nat.add_Suc_right One_nat_def)
qed (simp add: reads_def)

lemma row_count_ok: "n \<le> 2 ^ 40 \<Longrightarrow> row_count (of_nat n) = Inr n"
  by (simp add: row_count_def bounded_def MAX_PART_ROWS_def push_bit_eq_mult not_less word_le_nat_alt unat_of_nat_u64 usize_max_def)

lemma read_count_ok: "n \<le> 2 ^ 24 \<Longrightarrow> read_count (of_nat n) = Inr n"
  by (simp add: read_count_def bounded_def MAX_COUNT_def push_bit_eq_mult not_less word_le_nat_alt unat_of_nat_u64 usize_max_def)

definition data_bytes :: "column_data \<Rightarrow> bytes" where
  "data_bytes d = (case d of
     CU64 v \<Rightarrow> varint_bytes (of_nat (length v)) @ concat (map le_bytes v)
   | CI64 v \<Rightarrow> varint_bytes (of_nat (length v)) @ concat (map le_bytes v)
   | CF64 v \<Rightarrow> varint_bytes (of_nat (length v)) @ concat (map le_bytes v)
   | CStr v \<Rightarrow> varint_bytes (of_nat (length v)) @ foldl w_str [] v)"

definition nulls_bytes :: "bitset option \<Rightarrow> bytes" where
  "nulls_bytes m = (case m of
     Some n \<Rightarrow> [1] @ varint_bytes (of_nat (length (words n))) @ concat (map le_bytes (words n))
   | None \<Rightarrow> [0])"

definition column_bytes :: "column \<Rightarrow> bytes" where
  "column_bytes c = (varint_bytes (of_nat (length (show_type (col_ty c)))) @ show_type (col_ty c))
     @ data_bytes (col_data c) @ nulls_bytes (col_nulls c)"

lemma put_column_eq: "put_column w c = w @ column_bytes c"
  by (simp add: put_column_def Let_def w_display_eq w_bytes_def column_bytes_def data_bytes_def nulls_bytes_def w_u8_def
      w_u64_slice_eq foldl_w_u64 foldl_w_str [of "_ @ _"] w_varint_eq [of "_ @ _"] w_varint_eq [of w]
      split: column_data.split option.split)

lemma put_block_eq:
  "put_block w b = w @ varint_bytes (of_nat (block_width b)) @ varint_bytes (of_nat (blk_rows b)) @ concat (map column_bytes (blk_columns b))"
proof -
  have "foldl put_column w cs = w @ concat (map column_bytes cs)" for w cs
    by (induction cs arbitrary: w) (simp_all add: put_column_eq)
  then show ?thesis by (simp add: put_block_def w_varint_eq [of "_ @ _"] w_varint_eq [of w])
qed

text \<open>What the log can hold of a column: a value of the catalog's types, of the declared kind, whose texts are UTF-8.\<close>

definition column_fits :: "nat \<Rightarrow> data_type \<Rightarrow> column \<Rightarrow> bool" where
  "column_fits rows want c \<longleftrightarrow> type_ok (col_ty c) \<and> physical (col_ty c) = physical want
     \<and> cd_physical (col_data c) = physical (col_ty c) \<and> col_len c = rows
     \<and> (case col_data c of CStr v \<Rightarrow> \<forall>s \<in> set v. utf8_valid s | _ \<Rightarrow> True)"

definition block_fits :: "schema \<Rightarrow> block \<Rightarrow> bool" where
  "block_fits sch b \<longleftrightarrow> list_all2 (column_fits (blk_rows b)) (map f_ty (s_fields sch)) (blk_columns b)
     \<and> (blk_columns b = [] \<longrightarrow> blk_rows b = 0) \<and> block_width b \<le> 2 ^ 24 \<and> blk_rows b \<le> 2 ^ 40"

text \<open>The block as it is read back: a null mask without a bit is not kept.\<close>

definition kept :: "column \<Rightarrow> column" where
  "kept c = c\<lparr>col_nulls := keep_nulls (col_nulls c)\<rparr>"

definition kept_block :: "block \<Rightarrow> block" where
  "kept_block b = b\<lparr>blk_columns := map kept (blk_columns b)\<rparr>"

lemma get_data_reads:
  assumes "col_len c \<le> 2 ^ 40" "case col_data c of CStr v \<Rightarrow> \<forall>s \<in> set v. utf8_valid s | _ \<Rightarrow> True"
  shows "reads (get_data (cd_physical (col_data c))) (data_bytes (col_data c)) (col_data c)"
proof (cases "col_data c")
  case (CStr v)
  have n: "row_count (of_nat (length v)) = Inr (length v)" using assms(1) CStr by (intro row_count_ok) (simp add: col_len_def cd_len_def)
  have "reads (\<lambda>r. rbind (row_count (of_nat (length v))) (\<lambda>n. rbind (strings_loop n r) (\<lambda>(v, r). Inr (CStr v, r)))) (foldl w_str [] v) (CStr v)"
    unfolding n rbind_simps using assms(2) CStr by (intro reads_map strings_loop_reads) simp
  then have "reads (get_data Str) (varint_bytes (of_nat (length v)) @ foldl w_str [] v) (CStr v)"
    unfolding get_data_def physical_type.case by (rule reads_bind [OF reads_varint])
  then show ?thesis using CStr by (simp add: cd_physical_def data_bytes_def)
qed (use reads_map [OF reads_u64_slice] in \<open>simp_all add: get_data_def [abs_def] cd_physical_def data_bytes_def\<close>)

lemma get_nulls_reads: "reads get_nulls (nulls_bytes m) m"
proof (cases m)
  case None
  have "reads get_nulls ([0] @ []) None" unfolding get_nulls_def by (rule reads_bind [OF reads_u8]) (simp add: reads_return)
  then show ?thesis using None by (simp add: nulls_bytes_def)
next
  case (Some n)
  have "from_words (words n) = n" by (simp add: from_words_def)
  then have "reads (\<lambda>r. rbind (r_u64_slice r) (\<lambda>(ws, r). Inr (Some (from_words ws), r)))
      (varint_bytes (of_nat (length (words n))) @ concat (map le_bytes (words n))) (Some n)"
    using reads_map [OF reads_u64_slice, of "\<lambda>ws. Some (from_words ws)" "words n"] by simp
  then have "reads get_nulls ([1] @ varint_bytes (of_nat (length (words n))) @ concat (map le_bytes (words n))) (Some n)"
    unfolding get_nulls_def by (intro reads_bind [OF reads_u8]) simp
  then show ?thesis using Some by (simp add: nulls_bytes_def)
qed

lemma ascii_utf8: "\<forall>b \<in> set bs. b < 128 \<Longrightarrow> utf8_valid bs"
  by (induction bs) (simp_all add: utf8_valid.simps)

lemma show_type_utf8: "utf8_valid (show_type ty)"
proof (rule ascii_utf8)
  have d: "b < 128" if "b \<in> set (show_nat n)" for b n
    using show_nat_digits [OF that] by (auto simp: is_digit_def word_less_nat_alt word_le_nat_alt)
  show "\<forall>b \<in> set (show_type ty). b < 128"
    by (induction ty) (auto simp: ascii_def d)
qed

lemma get_column_reads:
  assumes "column_fits rows want c" "rows \<le> 2 ^ 40"
  shows "reads (get_column rows want) (column_bytes c) (kept c)"
proof -
  have k: "(case col_nulls c of Some n \<Rightarrow> with_nulls (col_ty c) (col_data c) n | None \<Rightarrow> col_new (col_ty c) (col_data c)) = kept c"
    by (cases c) (simp add: kept_def keep_nulls_def with_nulls_def col_new_def split: option.split)
  have ty: "parse_type (show_type (col_ty c)) = Inr (col_ty c)" "physical (col_ty c) = physical want"
    "cd_physical (col_data c) = physical want" "cd_len (col_data c) = rows"
    using assms(1) by (auto simp: column_fits_def col_len_def parse_show)
  have d: "reads (get_data (physical want)) (data_bytes (col_data c)) (col_data c)"
    using get_data_reads [of c] assms(1,2) ty by (simp add: column_fits_def)
  have "reads (\<lambda>r. rbind (get_nulls r) (\<lambda>(nulls, r). Inr (case nulls of Some n \<Rightarrow> with_nulls (col_ty c) (col_data c) n
      | None \<Rightarrow> col_new (col_ty c) (col_data c), r))) (nulls_bytes (col_nulls c)) (kept c)"
    using reads_map [OF get_nulls_reads [of "col_nulls c"], of "\<lambda>nulls. case nulls of Some n \<Rightarrow> with_nulls (col_ty c) (col_data c) n
      | None \<Rightarrow> col_new (col_ty c) (col_data c)"] by (simp only: k)
  then show ?thesis
    unfolding get_column_def column_bytes_def
    by (intro reads_bind [OF reads_str [OF show_type_utf8]]) (simp add: ty reads_bind [OF d])
qed

lemma get_columns_reads:
  assumes "list_all2 (column_fits rows) wants cs" "rows \<le> 2 ^ 40"
  shows "reads (get_columns rows wants) (concat (map column_bytes cs)) (map kept cs)"
  using assms
proof (induction wants cs rule: list_all2_induct)
  case (Cons want wants c cs)
  have "reads (\<lambda>r. rbind (get_column rows want r) (\<lambda>(c, r). rbind (get_columns rows wants r) (\<lambda>(cs, r). Inr (c # cs, r))))
      (column_bytes c @ concat (map column_bytes cs)) (kept c # map kept cs)"
    using Cons by (intro reads_bind [OF get_column_reads] reads_map) auto
  then show ?case by simp
qed (simp add: reads_def)

lemma get_block_reads:
  assumes "block_fits sch b"
  shows "reads (get_block sch) (put_block [] b) (kept_block b)"
proof -
  let ?cs = "blk_columns b" and ?rows = "blk_rows b"
  have fit: "list_all2 (column_fits ?rows) (map f_ty (s_fields sch)) ?cs" "block_width b \<le> 2 ^ 24" "?rows \<le> 2 ^ 40"
    "?cs = [] \<longrightarrow> ?rows = 0" using assms by (auto simp: block_fits_def)
  have len: "block_width b = schema_len sch" using list_all2_lengthD [OF fit(1)] by (simp add: block_width_def schema_len_def)
  have "\<forall>c \<in> set ?cs. col_len c = ?rows" using fit(1) by (force simp: list_all2_conv_all_nth in_set_conv_nth column_fits_def)
  then have new: "block_new (map kept ?cs) = Inr (kept_block b)"
    using fit(4) by (cases b; cases ?cs) (auto simp: block_new_def kept_block_def kept_def col_len_def list_all_iff Let_def)
  have cols: "reads (\<lambda>r. rbind (get_columns ?rows (map f_ty (s_fields sch)) r) (\<lambda>(cols, r).
      case block_new cols of Inl e \<Rightarrow> Inl (as_corrupt ''ragged record'' e) | Inr b \<Rightarrow> Inr (b, r)))
      (concat (map column_bytes ?cs) @ []) (kept_block b)"
    by (rule reads_bind [OF get_columns_reads [OF fit(1,3)]]) (simp add: new reads_return)
  have rows: "reads (\<lambda>r. rbind (r_varint r) (\<lambda>(rows, r). rbind (row_count rows) (\<lambda>rows.
       if block_width b \<noteq> schema_len sch then Inl (Corruption ''record has another number of columns than the table'')
       else rbind (get_columns rows (map f_ty (s_fields sch)) r) (\<lambda>(cols, r).
         case block_new cols of Inl e \<Rightarrow> Inl (as_corrupt ''ragged record'' e) | Inr b \<Rightarrow> Inr (b, r)))))
      (varint_bytes (of_nat ?rows) @ concat (map column_bytes ?cs)) (kept_block b)"
    by (rule reads_bind [OF reads_varint]) (use cols in \<open>simp add: row_count_ok [OF fit(3)] len\<close>)
  show ?thesis unfolding get_block_def [abs_def] put_block_eq append.left_neutral
    by (rule reads_bind [OF reads_varint]) (use rows in \<open>simp add: read_count_ok [OF fit(2)]\<close>)
qed

section \<open>Records round-trip\<close>

abbreviation mutation_tags :: "u8 set" where
  "mutation_tags \<equiv> {TAG_INSERT, TAG_DELETE, TAG_DELETE_RUN, TAG_MASK_RUN}"

lemmas tag_defs = TAG_INSERT_def TAG_DELETE_def TAG_COMMIT_def TAG_PREPARE_def TAG_DECIDE_def TAG_DELETE_RUN_def TAG_TICK_def
  TAG_MASK_RUN_def STAGED_def

lemma tag_bits:
  assumes "t \<in> mutation_tags"
  shows "(t OR STAGED) AND STAGED \<noteq> 0" "t AND STAGED = 0" "(t OR STAGED) AND NOT STAGED = t" "t AND NOT STAGED = t"
    "t \<notin> {TAG_COMMIT, TAG_DECIDE, TAG_PREPARE, TAG_TICK}" "t OR STAGED \<notin> {TAG_COMMIT, TAG_DECIDE, TAG_PREPARE, TAG_TICK}"
  using assms by (auto simp: tag_defs)

lemma put_tag_eq: "put_tag w tag seq = w @ put_tag [] tag seq"
  by (simp add: put_tag_def w_u8_def w_varint_eq [of "_ @ _"] w_varint_eq [of "[_]"] split: option.split)

text \<open>The tag and the sequence number in front of a payload are taken off again.\<close>

lemma decode_mutation:
  assumes "tag \<in> mutation_tags" "length (put_tag [] tag seq @ e) \<le> usize_max"
    "decode_payload sch tag seq (behind (put_tag [] tag seq) (put_tag [] tag seq @ e))
       = Inr (x, behind (put_tag [] tag seq @ e) (put_tag [] tag seq @ e))"
  shows "decode_entry (put_tag [] tag seq @ e) sch = Inr x"
proof (cases seq)
  case None
  have "r_u8 (reader_new (put_tag [] tag seq @ e)) = Inr (tag, behind [tag] (put_tag [] tag seq @ e))"
    using reads_new [OF reads_u8, of tag e] assms(2) None by (simp add: put_tag_def w_u8_def)
  then show ?thesis
    using assms(3) tag_bits [OF assms(1)] None by (simp add: decode_entry_def remaining_def put_tag_def w_u8_def)
next
  case (Some s)
  have b: "put_tag [] tag seq @ e = [tag OR STAGED] @ varint_bytes s @ e"
    using Some by (simp add: put_tag_def w_u8_def w_varint_eq [of "[_]"])
  have "r_u8 (reader_new (put_tag [] tag seq @ e)) = Inr (tag OR STAGED, behind [tag OR STAGED] (put_tag [] tag seq @ e))"
    using reads_new [OF reads_u8, of "tag OR STAGED" "varint_bytes s @ e"] assms(2) unfolding b by simp
  moreover have "r_varint (behind [tag OR STAGED] (put_tag [] tag seq @ e)) = Inr (s, behind (put_tag [] tag seq) (put_tag [] tag seq @ e))"
    using reads_at [OF reads_varint, of "[tag OR STAGED]" s e] assms(2) Some
    by (simp add: put_tag_def w_u8_def w_varint_eq [of "[_]"])
  ultimately show ?thesis
    using assms(3) tag_bits [OF assms(1)] Some by (simp add: decode_entry_def remaining_def)
qed

lemma decode_insert:
  assumes "block_fits sch b" "length (insert_body seq b) \<le> usize_max"
  shows "decode_entry (insert_body seq b) sch = Inr (Record seq (RInsert (kept_block b)))"
proof -
  let ?t = "put_tag [] TAG_INSERT seq"
  have b: "insert_body seq b = ?t @ put_block [] b" by (simp add: insert_body_def put_block_eq)
  show ?thesis using assms(2) reads_at [OF get_block_reads [OF assms(1)], of ?t "[]"] unfolding b
    by (intro decode_mutation) (simp_all add: decode_payload_def)
qed

lemma decode_delete:
  assumes "length (delete_body seq l) \<le> usize_max"
  shows "decode_entry (delete_body seq l) sch = Inr (Record seq (RDelete l))"
proof -
  let ?t = "put_tag [] TAG_DELETE seq"
  have b: "delete_body seq l = ?t @ le_bytes l" by (simp add: delete_body_def w_u64_def)
  show ?thesis using assms reads_at [OF reads_u64, of ?t l "[]"] unfolding b
    by (intro decode_mutation) (simp_all add: decode_payload_def tag_defs)
qed

lemma decode_delete_run:
  assumes "length (delete_run_body seq ls) \<le> usize_max"
  shows "decode_entry (delete_run_body seq ls) sch = Inr (Deletes seq (concat (map le_bytes ls)))"
proof -
  let ?t = "put_tag [] TAG_DELETE_RUN seq" and ?n = "varint_bytes (of_nat (length ls))" and ?e = "concat (map le_bytes ls)"
  have b: "delete_run_body seq ls = ?t @ ?n @ ?e"
    by (simp add: delete_run_body_def foldl_w_u64 w_varint_eq [of "put_tag [] TAG_DELETE_RUN seq"])
  have l: "length ?e = length ls * 8" by (simp add: length_concat_words)
  have small: "length ls * 8 \<le> usize_max" "length ls < 2 ^ 64" using assms unfolding b by (auto simp: l usize_max_def)
  have "r_varint (behind ?t (?t @ ?n @ ?e)) = Inr (of_nat (length ls), behind (?t @ ?n) (?t @ ?n @ ?e))"
    using reads_at [OF reads_varint, of ?t "of_nat (length ls)" ?e] assms unfolding b by simp
  moreover have "r_take (behind (?t @ ?n) (?t @ ?n @ ?e)) (length ls * 8) = Inr (?e, behind (?t @ ?n @ ?e) (?t @ ?n @ ?e))"
    using take_run [of "?t @ ?n" ?e "[]"] assms l unfolding b by simp
  ultimately have "decode_payload sch TAG_DELETE_RUN seq (behind ?t (?t @ ?n @ ?e)) = Inr (Deletes seq ?e, behind (?t @ ?n @ ?e) (?t @ ?n @ ?e))"
    using small l by (simp add: decode_payload_def checked_mul_def remaining_def unat_of_nat_u64 tag_defs)
  with assms show ?thesis unfolding b by (intro decode_mutation) simp_all
qed

lemma decode_mask:
  assumes "length (mask_body seq pid n ds) \<le> usize_max" "unat n \<le> length ds"
  shows "decode_entry (mask_body seq pid n ds) sch = Inr (Masks seq pid n ds)"
proof -
  let ?t = "put_tag [] TAG_MASK_RUN seq" and ?p = "varint_bytes pid" and ?n = "varint_bytes n"
  have b: "mask_body seq pid n ds = ?t @ ?p @ ?n @ ds"
    by (simp add: mask_body_def w_raw_def w_varint_eq [of "_ @ _"] w_varint_eq [of ?t])
  have "r_varint (behind ?t (?t @ ?p @ ?n @ ds)) = Inr (pid, behind (?t @ ?p) (?t @ ?p @ ?n @ ds))"
    using reads_at [OF reads_varint, of ?t pid "?n @ ds"] assms unfolding b by simp
  moreover have "r_varint (behind (?t @ ?p) (?t @ ?p @ ?n @ ds)) = Inr (n, behind (?t @ ?p @ ?n) (?t @ ?p @ ?n @ ds))"
    using reads_at [OF reads_varint, of "?t @ ?p" n ds] assms unfolding b by simp
  moreover have "r_take (behind (?t @ ?p @ ?n) (?t @ ?p @ ?n @ ds)) (length ds) = Inr (ds, behind (?t @ ?p @ ?n @ ds) (?t @ ?p @ ?n @ ds))"
    using take_run [of "?t @ ?p @ ?n" ds "[]"] assms unfolding b by simp
  moreover have "\<not> of_nat (length ds) < n"
    using assms unfolding b by (simp add: not_less word_le_nat_alt unat_of_nat_u64 usize_max_def)
  ultimately have "decode_payload sch TAG_MASK_RUN seq (behind ?t (?t @ ?p @ ?n @ ds))
      = Inr (Masks seq pid n ds, behind (?t @ ?p @ ?n @ ds) (?t @ ?p @ ?n @ ds))"
    by (simp add: decode_payload_def remaining_def tag_defs)
  with assms show ?thesis unfolding b by (intro decode_mutation) simp_all
qed

text \<open>The markers.\<close>

lemma decode_marker:
  assumes "tag \<in> {TAG_COMMIT, TAG_DECIDE}" "length (marker_body tag s) \<le> usize_max"
  shows "decode_entry (marker_body tag s) sch = Inr (Commit s)"
proof -
  have b: "marker_body tag s = [tag] @ varint_bytes s" by (simp add: marker_body_def w_u8_def w_varint_eq [of "[tag]"])
  show ?thesis using reads_new [OF reads_u8, of tag "varint_bytes s"] reads_at [OF reads_varint, of "[tag]" s "[]"] assms
    unfolding b by (auto simp: decode_entry_def remaining_def)
qed

lemma decode_prepare:
  assumes "utf8_valid rel" "length (prepare_body s c rel) \<le> usize_max"
  shows "decode_entry (prepare_body s c rel) sch = Inr (Prepare s rel c)"
proof -
  let ?t = "[TAG_PREPARE]" and ?s = "varint_bytes s" and ?c = "varint_bytes c" and ?r = "varint_bytes (of_nat (length rel)) @ rel"
  have b: "prepare_body s c rel = ?t @ ?s @ ?c @ ?r"
    by (simp add: prepare_body_def w_str_eq w_u8_def w_varint_eq [of "_ @ _"] w_varint_eq [of "_ # _"])
  show ?thesis
    using reads_new [OF reads_u8, of TAG_PREPARE "?s @ ?c @ ?r"] reads_at [OF reads_varint, of ?t s "?c @ ?r"]
      reads_at [OF reads_varint, of "?t @ ?s" c ?r] reads_at [OF reads_str [OF assms(1)], of "?t @ ?s @ ?c" "[]"] assms(2)
    unfolding b by (simp add: decode_entry_def remaining_def tag_defs)
qed

lemma decode_tick:
  assumes "length (tick_body s ms) \<le> usize_max"
  shows "decode_entry (tick_body s ms) sch = Inr (Tick s)" "tick_of (tick_body s ms) = Some (s, ms)"
proof -
  let ?t = "[TAG_TICK]" and ?s = "varint_bytes s" and ?m = "varint_bytes ms"
  have b: "tick_body s ms = ?t @ ?s @ ?m"
    by (simp add: tick_body_def w_u8_def w_varint_eq [of "_ @ _"] w_varint_eq [of "_ # _"])
  note r = reads_new [OF reads_u8, of TAG_TICK "?s @ ?m"] reads_at [OF reads_varint, of ?t s ?m]
    reads_at [OF reads_varint, of "?t @ ?s" ms "[]"]
  show "decode_entry (tick_body s ms) sch = Inr (Tick s)"
    using r assms unfolding b by (simp add: decode_entry_def remaining_def tag_defs)
  show "tick_of (tick_body s ms) = Some (s, ms)"
    using r assms unfolding b by (simp add: tick_of_def)
qed

text \<open>The readers that look at a frame without decoding it.\<close>

lemma tagged_marker:
  assumes "length (marker_body tag s) \<le> usize_max"
  shows "tagged (marker_body tag s) t = (if t = tag then Some s else None)"
proof -
  have b: "marker_body tag s = [tag] @ varint_bytes s" by (simp add: marker_body_def w_u8_def w_varint_eq [of "[tag]"])
  show ?thesis using reads_new [OF reads_u8, of tag "varint_bytes s"] reads_at [OF reads_varint, of "[tag]" s "[]"] assms
    unfolding b by (auto simp: tagged_def)
qed

text \<open>A record staged under \<open>s\<close> keeps \<open>s\<close> from being handed out again.\<close>

lemma next_seq_staged:
  assumes "tag \<in> mutation_tags" "length (put_tag [] tag (Some s) @ e) \<le> usize_max"
  shows "body_next_seq (put_tag [] tag (Some s) @ e) = saturating_inc s"
proof -
  let ?t = "tag OR STAGED"
  have b: "put_tag [] tag (Some s) @ e = [?t] @ varint_bytes s @ e"
    by (simp add: put_tag_def w_u8_def w_varint_eq [of "[_]"])
  show ?thesis
    using reads_new [OF reads_u8, of ?t "varint_bytes s @ e"] reads_at [OF reads_varint, of "[?t]" s e] assms(2) tag_bits [OF assms(1)]
    unfolding b by (simp add: body_next_seq_def)
qed

section \<open>The frame built in place\<close>

lemma varint_length: "0 < k \<Longrightarrow> unat v < 2 ^ (7 * k) \<Longrightarrow> length (varint_bytes v) \<le> k"
proof (induction k arbitrary: v)
  case (Suc k)
  show ?case
  proof (cases "v < 0x80")
    case True
    then show ?thesis by (simp add: varint_bytes_small)
  next
    case False
    then have "k \<noteq> 0" using Suc.prems by (cases k) (auto simp: not_less word_le_nat_alt)
    moreover have "unat (drop_bit 7 v) < 2 ^ (7 * k)" using Suc.prems(2) by (simp add: unat_drop_7 power_add less_mult_imp_div_less)
    ultimately show ?thesis using Suc.IH [of "drop_bit 7 v"] False by (simp add: varint_bytes_big not_less)
  qed
qed simp

lemma varint_length_10: "length (varint_bytes v) \<le> 10"
proof -
  have "unat v < 2 ^ LENGTH(64)" by (rule unsigned_less)
  then show ?thesis by (intro varint_length) simp_all
qed

lemma head_loop_run:
  "n + length (varint_bytes v) \<le> length head \<Longrightarrow>
     head_loop head n v = (put_range head n (varint_bytes v), n + length (varint_bytes v))"
proof (induction head n v rule: head_loop.induct)
  case (1 head n v)
  show ?case
  proof (cases "0x80 \<le> v")
    case True
    have b: "varint_bytes v = (ucast v OR 0x80) # varint_bytes (drop_bit 7 v)" using True by (rule varint_bytes_big)
    have "n < length head" using 1(2) by (simp add: b)
    then have "put_range (head[n := ucast v OR 0x80]) (n + 1) (varint_bytes (drop_bit 7 v)) = put_range head n (varint_bytes v)"
      by (simp add: put_range_def b take_Suc_conv_app_nth)
    then show ?thesis using 1(1) [OF True] 1(2) True by (subst head_loop.simps) (simp add: b)
  next
    case False
    then have "varint_bytes v = [ucast v]" by (simp add: varint_bytes_small)
    with False show ?thesis using 1(2)
      by (subst head_loop.simps) (simp add: put_range_def upd_conv_take_nth_drop)
  qed
qed

text \<open>Writing the header so that it ends where the body starts gives the frame of the format.\<close>

lemma body_finish_eq: "body_finish (body_new @ e) = write_framed [] e"
proof -
  let ?v = "varint_bytes (of_nat (length e))" and ?s = "le_bytes (checksum e)" and ?z = "replicate FRAME_MAX_HEAD 0 :: bytes"
  have l: "length ?v \<le> 10" by (rule varint_length_10)
  have h: "head_loop ?z 0 (of_nat (length e)) = (?v @ drop (length ?v) ?z, length ?v)"
    using head_loop_run [of 0 "of_nat (length e)" ?z] l by (simp add: FRAME_MAX_HEAD_def put_range_def)
  have "take (length ?v + 8) (put_range (?v @ drop (length ?v) ?z) (length ?v) ?s) = ?v @ ?s" by (simp add: put_range_def)
  moreover have "drop (18 - (length ?v + 8)) (put_range (?z @ e) (18 - (length ?v + 8)) (?v @ ?s)) = ?v @ ?s @ e"
    using l by (simp add: put_range_def FRAME_MAX_HEAD_def)
  ultimately show ?thesis
    by (simp add: body_finish_def body_new_def w_raw_def Let_def write_framed_def w_u64_def h)
      (simp add: FRAME_MAX_HEAD_def)
qed

lemma frame_len_eq: "frame_len e = length (write_framed [] e)"
  by (simp add: frame_len_def write_framed_def w_raw_def w_u64_def)

section \<open>Properties\<close>

text \<open>C14: Every record of the log decodes as what was logged, staged under a sequence number or not: an insert as its block
  (a null mask without a bit is dropped), deletes as their lanes, hidden positions as the part and its runs, the markers with
  their numbers, a citation with its path and a tick with its stamp; and the frame that is built in place around a
  record is the frame of the format.\<close>

theorem record_roundtrip:
  assumes "block_fits sch b" "utf8_valid rel" "unat n \<le> length ds"
    "length (insert_body seq b) \<le> usize_max" "length (delete_run_body seq ls) \<le> usize_max"
    "length (mask_body seq pid n ds) \<le> usize_max" "length (prepare_body s c rel) \<le> usize_max"
  shows "decode_entry (insert_body seq b) sch = Inr (Record seq (RInsert (kept_block b)))
    \<and> decode_entry (delete_body seq l) sch = Inr (Record seq (RDelete l))
    \<and> decode_entry (delete_run_body seq ls) sch = Inr (Deletes seq (concat (map le_bytes ls)))
    \<and> to_u64_vec (concat (map le_bytes ls)) = ls
    \<and> decode_entry (mask_body seq pid n ds) sch = Inr (Masks seq pid n ds)
    \<and> decode_entry (marker_body TAG_COMMIT s) sch = Inr (Commit s)
    \<and> decode_entry (marker_body TAG_DECIDE s) sch = Inr (Commit s)
    \<and> decode_entry (prepare_body s c rel) sch = Inr (Prepare s rel c)
    \<and> decode_entry (tick_body s ms) sch = Inr (Tick s) \<and> tick_of (tick_body s ms) = Some (s, ms)
    \<and> body_finish (body_new @ e) = write_framed [] e"
proof -
  have m: "length (marker_body t s) \<le> usize_max" for t
    using varint_length_10 [of s] by (simp add: marker_body_def w_u8_def w_varint_eq [of "[t]"] usize_max_def)
  have "length (tick_body s ms) \<le> usize_max"
    using varint_length_10 [of s] varint_length_10 [of ms]
    by (simp add: tick_body_def w_u8_def w_varint_eq [of "_ @ _"] w_varint_eq [of "_ # _"] usize_max_def)
  moreover have "length (delete_body seq l) \<le> usize_max"
    using varint_length_10 [of "the seq"]
    by (cases seq) (simp_all add: delete_body_def w_u64_def put_tag_def w_u8_def w_varint_eq [of "[_]"] usize_max_def)
  ultimately show ?thesis
    using assms decode_insert decode_delete decode_delete_run decode_mask decode_marker [OF _ m] decode_prepare decode_tick body_finish_eq
    by simp
qed

theorem record_roundtrip_witness:
  "decode_entry (insert_body (Some 7) \<lparr>blk_columns = [col_new UInt64 (CU64 [5, 6])], blk_rows = 2\<rparr>)
     \<lparr>s_fields = [field_new [107] UInt64], s_index = Map.empty\<rparr>
   = Inr (Record (Some 7) (RInsert \<lparr>blk_columns = [col_new UInt64 (CU64 [5, 6])], blk_rows = 2\<rparr>))"
proof -
  let ?b = "\<lparr>blk_columns = [col_new UInt64 (CU64 [5, 6])], blk_rows = 2\<rparr>" and ?sch = "\<lparr>s_fields = [field_new [107] UInt64], s_index = Map.empty\<rparr>"
  have "block_fits ?sch ?b"
    by (simp add: block_fits_def column_fits_def field_new_def col_new_def cd_physical_def col_len_def cd_len_def block_width_def)
  moreover have "length (insert_body (Some 7) ?b) \<le> usize_max" "kept_block ?b = ?b"
    by (simp_all add: insert_body_def put_block_eq put_tag_def w_u8_def column_bytes_def col_new_def data_bytes_def nulls_bytes_def ascii_def
        block_width_def w_varint.simps usize_max_def kept_block_def kept_def keep_nulls_def)
  moreover have "length (prepare_body 1 1 []) \<le> usize_max" "length (mask_body None 1 0 []) \<le> usize_max" "length (delete_run_body (Some 7) []) \<le> usize_max"
    "length (mask_body (Some 7) 1 0 []) \<le> usize_max"
    by (simp_all add: prepare_body_def mask_body_def delete_run_body_def put_tag_def w_u8_def w_varint.simps w_raw_def w_str_eq usize_max_def)
  ultimately show ?thesis
    using record_roundtrip [of ?sch ?b "[]" 0 "[]" "Some 7" "[]" 1 1 1] by (simp add: utf8_valid.simps)
qed

end
