(* ===== verification/Wal_Segment.thy ===== *)
theory Wal_Segment
  imports Wal_Record Text
begin

text \<open>
  A segment of the write-ahead log, \<^verbatim>\<open>src/persist/wal.rs\<close>: its file name, the fixed header with the watermark, and the walk over
  its records that tells an interrupted append from damage. A directory is the association list of its file names and contents.
  Shown: the header reads back and is bound to its position in the stream; what an interrupted append leaves behind replays
  as the intact records in front of it; and a walk that succeeds, on any bytes whatever, has decoded at
  least everything an \<open>fsync\<close> acknowledged, the whole file in a sealed segment.
\<close>

section \<open>Definitions\<close>

type_synonym wal_dir = "(bytes \<times> bytes) list"

definition SEG_HEADER_LEN :: nat where "SEG_HEADER_LEN = 64"
definition STAMP_AT :: nat where "STAMP_AT = 40"
definition SEG_EXT :: bytes where "SEG_EXT = ascii ''gwal''"

subsection \<open>The header\<close>

record head =
  h_carry_len :: u32
  h_next_seq :: u64
  h_prev_seq :: u64
  h_prev_ms :: u64
  h_durable :: u64
  h_acked :: u64

definition head_default :: head where
  "head_default = \<lparr>h_carry_len = 0, h_next_seq = 0, h_prev_seq = 0, h_prev_ms = 0, h_durable = 0, h_acked = 0\<rparr>"

definition head_check :: "bytes \<Rightarrow> u64 \<Rightarrow> u64" where
  "head_check b origin = mum (checksum (slice b 8 56 @ le_bytes origin)) (origin OR 1)"

definition head_encode :: "head \<Rightarrow> u64 \<Rightarrow> bytes" where
  "head_encode h origin =
     (let b = MAGIC @ le_bytes FORMAT_VERSION @ le_bytes (h_carry_len h) @ le_bytes (h_next_seq h) @ le_bytes (h_prev_seq h)
            @ le_bytes (h_prev_ms h) @ le_bytes (h_durable h) @ le_bytes (h_acked h) @ replicate 8 0
      in put_range b 56 (le_bytes (head_check b origin)))"

definition head_stamp :: "head \<Rightarrow> u64 \<Rightarrow> bytes" where
  "head_stamp h origin = drop STAMP_AT (head_encode h origin)"

definition read_head :: "bytes \<Rightarrow> u64 \<Rightarrow> (head \<times> bool) result" where
  "read_head b origin =
     (if length b < SEG_HEADER_LEN then Inl (Corruption ''a log segment is shorter than its header'')
      else rbind (read_header (reader_new b)) (\<lambda>(_, r).
        rbind (r_u32 r) (\<lambda>(carry, r). rbind (r_u64 r) (\<lambda>(next, r). rbind (r_u64 r) (\<lambda>(prev, r). rbind (r_u64 r) (\<lambda>(ms, r).
        rbind (r_u64 r) (\<lambda>(durable, r). rbind (r_u64 r) (\<lambda>(acked, r). rbind (r_u64 r) (\<lambda>(want, r).
          Inr (\<lparr>h_carry_len = carry, h_next_seq = next, h_prev_seq = prev, h_prev_ms = ms, h_durable = durable, h_acked = acked\<rparr>,
               head_check (take SEG_HEADER_LEN b) origin = want))))))))))"

subsection \<open>File names\<close>

definition seg_name :: "u64 \<Rightarrow> bytes" where
  "seg_name origin = ascii ''seg_'' @ pad_nat 20 (unat origin) @ ascii ''.'' @ SEG_EXT"

definition strip_prefix :: "bytes \<Rightarrow> bytes \<Rightarrow> bytes option" where
  "strip_prefix p s = (if take (length p) s = p then Some (drop (length p) s) else None)"

definition strip_suffix :: "bytes \<Rightarrow> bytes \<Rightarrow> bytes option" where
  "strip_suffix p s = (if length p \<le> length s \<and> drop (length s - length p) s = p then Some (take (length s - length p) s) else None)"

definition parse_seg_origin :: "bytes \<Rightarrow> u64 option" where
  "parse_seg_origin nm =
     Option.bind (strip_prefix (ascii ''seg_'') nm) (\<lambda>s. Option.bind (strip_suffix SEG_EXT s) (\<lambda>s.
       Option.bind (strip_suffix (ascii ''.'') s) (\<lambda>digits.
         if length digits = 20 \<and> list_all is_digit digits then map_option of_nat (parse_uint (2 ^ 64 - 1) digits) else None)))"

definition seg_list :: "wal_dir \<Rightarrow> u64 list" where
  "seg_list dir = sort (List.map_filter parse_seg_origin (map fst dir))"

definition read_file :: "wal_dir \<Rightarrow> bytes \<Rightarrow> bytes result" where
  "read_file dir nm = (case map_of dir nm of Some b \<Rightarrow> Inr b | None \<Rightarrow> Inl (Io ''read''))"

subsection \<open>A loaded segment\<close>

record seg =
  sg_origin :: u64
  sg_head :: head
  sg_trusted :: bool
  sg_sealed :: bool
  sg_buf :: bytes

definition seg_of :: "bytes \<Rightarrow> u64 \<Rightarrow> bool \<Rightarrow> seg result" where
  "seg_of b origin sealed =
     rbind (read_head b origin) (\<lambda>(h, trusted).
       if unat (h_carry_len h) > length b - SEG_HEADER_LEN then Inl (Corruption ''a segment declares more carried decisions than it holds'')
       else Inr \<lparr>sg_origin = origin, sg_head = h, sg_trusted = trusted, sg_sealed = sealed, sg_buf = b\<rparr>)"

definition seg_load :: "wal_dir \<Rightarrow> u64 \<Rightarrow> bool \<Rightarrow> seg result" where
  "seg_load dir origin sealed = rbind (read_file dir (seg_name origin)) (\<lambda>b. seg_of b origin sealed)"

definition data_end :: "bytes \<Rightarrow> nat" where
  "data_end b = length (dropWhile (\<lambda>x. x = 0) (rev b))"

text \<open>Positions are computed at 64 bits.\<close>

definition seg_at :: "seg \<Rightarrow> u64 \<Rightarrow> nat" where
  "seg_at s lsn = unat ((if lsn < sg_origin s then 0 else lsn - sg_origin s) + of_nat SEG_HEADER_LEN)"

definition effective :: "seg \<Rightarrow> nat" where
  "effective s =
     (if \<not> sg_trusted s then usize_max
      else let declared = seg_at s (h_durable (sg_head s))
           in if sg_sealed s then declared else min declared (data_end (sg_buf s)))"

definition seg_floor :: "seg \<Rightarrow> nat" where
  "seg_floor s = (if \<not> sg_trusted s then SEG_HEADER_LEN
     else if sg_sealed s then seg_at s (h_durable (sg_head s)) else seg_at s (h_acked (sg_head s)))"

definition tear :: "seg \<Rightarrow> nat \<Rightarrow> bool" where
  "tear s p =
     (if p \<ge> effective s then True
      else if sg_sealed s \<or> \<not> sg_trusted s then False
      else case seek (reader_new (sg_buf s)) p of
             Inl _ \<Rightarrow> True
           | Inr r \<Rightarrow> (case r_varint r of
               Inl _ \<Rightarrow> True
             | Inr (len, r) \<Rightarrow> (case r_u64 r of
                 Inl _ \<Rightarrow> True
               | Inr (_, r) \<Rightarrow> (case checked_add (pos r) (unat len) of
                   None \<Rightarrow> True
                 | Some e \<Rightarrow> e > data_end (sg_buf s) \<and> e \<le> seg_at s (h_durable (sg_head s))))))"

definition seg_stream_end :: "seg \<Rightarrow> u64" where
  "seg_stream_end s = sg_origin s + of_nat (length (sg_buf s)) - of_nat SEG_HEADER_LEN"

subsection \<open>The walk\<close>

definition rot :: error where
  "rot = Corruption ''damage in a log segment''"

lemma read_framed_advances:
  assumes "read_framed r = Inr (b, r')"
  shows "buf r' = buf r" "slice (buf r) (pos r) (pos r') = write_framed [] b" "pos r' = pos r + length (write_framed [] b)"
    "pos r' \<le> length (buf r)"
proof -
  obtain len r1 want r2 where 1: "r_varint r = Inr (len, r1)" "r_u64 r1 = Inr (want, r2)" "finish_frame r2 len want = Inr (b, r')"
    using assms by (auto simp: read_framed_def)
  note v = r_varint_canonical [OF 1(1)]
  have 2: "pos r1 + 8 \<le> length (buf r1)" "want = le_word (slice (buf r1) (pos r1) (pos r1 + 8))" "r2 = r1\<lparr>pos := pos r1 + 8\<rparr>"
    using 1(2) by (auto simp: r_u64_def r_word_def r_take_Inr split: if_splits)
  have 3: "pos r2 + unat len \<le> length (buf r2)" "b = slice (buf r2) (pos r2) (pos r2 + unat len)"
    "r' = r2\<lparr>pos := pos r2 + unat len\<rparr>" "checksum b = want"
    using 1(3) by (auto simp: finish_frame_def r_take_Inr split: if_splits)
  have len: "length b = unat len" using 3 by simp
  have ck: "le_bytes (checksum b) = slice (buf r) (pos r1) (pos r1 + 8)"
    using 2 3(4) v(1) by (simp add: le_bytes_le_word)
  have fr: "write_framed [] b = varint_bytes len @ le_bytes (checksum b) @ b"
    using len by (simp add: write_framed_def w_raw_def w_u64_def)
  then have "length (write_framed [] b) = length (varint_bytes len) + 8 + unat len" using len by simp
  then show p: "pos r' = pos r + length (write_framed [] b)" using 2(3) 3(3) v(3) by simp
  show "buf r' = buf r" "pos r' \<le> length (buf r)" using 2 3 v by simp_all
  have "slice (buf r) (pos r) (pos r') = slice (buf r) (pos r) (pos r1) @ slice (buf r) (pos r1) (pos r1 + 8) @ slice (buf r) (pos r1 + 8) (pos r')"
    using slice_append [of "pos r" "pos r1" "pos r'" "buf r"] slice_append [of "pos r1" "pos r1 + 8" "pos r'" "buf r"] 2 3 v by simp
  moreover have "slice (buf r) (pos r1 + 8) (pos r') = b" using 2 3 v(1) by simp
  ultimately show "slice (buf r) (pos r) (pos r') = write_framed [] b" by (simp only: v(2) ck [symmetric] fr)
qed

function walk_loop :: "seg \<Rightarrow> (nat \<Rightarrow> bytes \<Rightarrow> 's \<Rightarrow> 's result) \<Rightarrow> reader \<Rightarrow> 's \<Rightarrow> nat \<Rightarrow> (nat \<times> 's) result" where
  "walk_loop s f r st fin =
     (if remaining r = 0 then Inr (fin, st)
      else case read_framed r of
             Inr (body, r') \<Rightarrow> (case f (pos r) body st of Inl e \<Rightarrow> Inl e | Inr st \<Rightarrow> walk_loop s f r' st (pos r'))
           | Inl e \<Rightarrow> if tear s (pos r) then Inr (pos r, st) else Inl rot)"
  by pat_completeness auto
termination
proof (relation "measure (\<lambda>(s, f, r, st, fin). length (buf r) - pos r)", simp)
  fix s f r st fin y st' body r'
  assume "remaining r \<noteq> 0" "read_framed r = Inr y" "(body, r') = y"
  then have "read_framed r = Inr (body, r')" "pos r < length (buf r)" by (auto simp: remaining_def)
  moreover have "0 < length (write_framed [] body)" by (simp add: write_framed_def w_raw_def w_u64_def)
  ultimately show "((s, f, r', st', pos r'), s, f, r, st, fin) \<in> measure (\<lambda>(s, f, r, st, fin). length (buf r) - pos r)"
    using read_framed_advances [of r body r'] by (simp del: length_greater_0_conv)
qed

declare walk_loop.simps [simp del]

definition walk_seg :: "seg \<Rightarrow> nat \<Rightarrow> (nat \<Rightarrow> bytes \<Rightarrow> 's \<Rightarrow> 's result) \<Rightarrow> 's \<Rightarrow> (nat \<times> 's) result" where
  "walk_seg s from f st =
     (let start = min (max from SEG_HEADER_LEN) (length (sg_buf s))
      in rbind (seek (reader_new (sg_buf s)) start) (\<lambda>r. rbind (walk_loop s f r st start) (\<lambda>(fin, st).
           if fin < seg_floor s then Inl (Corruption ''bytes of committed records are unaccounted for'') else Inr (fin, st))))"

section \<open>The header reads back\<close>

definition head_fields :: "head \<Rightarrow> bytes" where
  "head_fields h = le_bytes (h_carry_len h) @ le_bytes (h_next_seq h) @ le_bytes (h_prev_seq h)
     @ le_bytes (h_prev_ms h) @ le_bytes (h_durable h) @ le_bytes (h_acked h)"

definition head_sum :: "head \<Rightarrow> u64 \<Rightarrow> u64" where
  "head_sum h origin = mum (checksum (le_bytes FORMAT_VERSION @ head_fields h @ le_bytes origin)) (origin OR 1)"

lemma head_encode_eq: "head_encode h origin = MAGIC @ le_bytes FORMAT_VERSION @ head_fields h @ le_bytes (head_sum h origin)"
  by (simp add: head_encode_def head_check_def head_sum_def head_fields_def put_range_def slice_def Let_def)

lemma length_head_encode [simp]: "length (head_encode h origin) = SEG_HEADER_LEN"
  by (simp add: head_encode_eq head_fields_def SEG_HEADER_LEN_def)

lemma head_check_eq: "head_check (MAGIC @ le_bytes FORMAT_VERSION @ head_fields h @ s @ z) origin = head_sum h origin"
  by (simp add: head_check_def head_sum_def head_fields_def slice_def)

lemma read_head_run:
  assumes "length (MAGIC @ le_bytes FORMAT_VERSION @ head_fields h @ le_bytes want @ z) \<le> usize_max"
  shows "read_head (MAGIC @ le_bytes FORMAT_VERSION @ head_fields h @ le_bytes want @ z) origin = Inr (h, head_sum h origin = want)"
proof -
  let ?a = "MAGIC @ le_bytes FORMAT_VERSION" and ?b = "MAGIC @ le_bytes FORMAT_VERSION @ head_fields h @ le_bytes want @ z"
  have hd: "read_header (reader_new ?b) = Inr (FORMAT_VERSION, behind ?a ?b)"
    using read_header_run [of "[]" FORMAT_VERSION "head_fields h @ le_bytes want @ z" Database] assms
    by (simp add: read_header_def reader_new_def)
  have c: "r_u32 (behind ?a ?b) = Inr (h_carry_len h, behind (?a @ le_bytes (h_carry_len h)) ?b)"
    using u32_codec.rd_wr [of ?a "h_carry_len h" "drop 4 (head_fields h) @ le_bytes want @ z"] assms
    by (simp add: w_u32_def head_fields_def)
  have u: "r_u64 (behind w (w @ le_bytes x @ y)) = Inr (x, behind (w @ le_bytes x) (w @ le_bytes x @ y))"
    if "length (w @ le_bytes x @ y) \<le> usize_max" for w y :: bytes and x :: u64
    using reads_at [OF reads_u64 that] .
  define b where "b = ?b"
  have l: "length b \<le> usize_max" "\<not> length b < SEG_HEADER_LEN" using assms by (simp_all add: b_def head_fields_def SEG_HEADER_LEN_def)
  let ?w1 = "?a @ le_bytes (h_carry_len h)" let ?w2 = "?w1 @ le_bytes (h_next_seq h)" let ?w3 = "?w2 @ le_bytes (h_prev_seq h)"
  let ?w4 = "?w3 @ le_bytes (h_prev_ms h)" let ?w5 = "?w4 @ le_bytes (h_durable h)" let ?w6 = "?w5 @ le_bytes (h_acked h)"
  have b: "b = ?w6 @ le_bytes want @ z" by (simp add: b_def head_fields_def)
  have r: "r_u64 (behind ?w1 b) = Inr (h_next_seq h, behind ?w2 b)" "r_u64 (behind ?w2 b) = Inr (h_prev_seq h, behind ?w3 b)"
    "r_u64 (behind ?w3 b) = Inr (h_prev_ms h, behind ?w4 b)" "r_u64 (behind ?w4 b) = Inr (h_durable h, behind ?w5 b)"
    "r_u64 (behind ?w5 b) = Inr (h_acked h, behind ?w6 b)" "r_u64 (behind ?w6 b) = Inr (want, behind (?w6 @ le_bytes want) b)"
    using l u [of ?w1 "h_next_seq h"] u [of ?w2 "h_prev_seq h"] u [of ?w3 "h_prev_ms h"] u [of ?w4 "h_durable h"] u [of ?w5 "h_acked h"] u [of ?w6 want]
    unfolding b append_assoc by blast+
  have ck: "head_check (take SEG_HEADER_LEN b) origin = head_sum h origin"
    using head_check_eq [of h "le_bytes want" "[]" origin] by (simp add: b_def SEG_HEADER_LEN_def head_fields_def)
  show ?thesis
    unfolding read_head_def b_def [symmetric] if_not_P [OF l(2)] ck
    by (simp only: hd [folded b_def] c [folded b_def] r rbind_simps prod.case) simp
qed

text \<open>Bound to the origin: a stamp is trusted exactly when the check stored in the file is the one of these fields at this origin.\<close>

lemma read_head_encode:
  assumes "length (head_encode h origin @ z) \<le> usize_max"
  shows "read_head (head_encode h origin @ z) o' = Inr (h, head_sum h o' = head_sum h origin)"
  using read_head_run [of h "head_sum h origin" z o'] assms by (simp add: head_encode_eq)

section \<open>File names\<close>

lemma parse_seg_name: "parse_seg_origin (seg_name origin) = Some origin"
proof -
  have u: "unat origin < 2 ^ LENGTH(64)" by (rule unsigned_less)
  then have "unat origin < 10 ^ 20" by simp
  then have l: "length (pad_nat 20 (unat origin)) = 20" by (intro length_pad_nat) simp_all
  have "parse_uint (2 ^ 64 - 1) (pad_nat 20 (unat origin)) = Some (unat origin)"
    using u by (intro parse_uint_digits) (auto simp: digits_val_pad pad_nat_digits)
  with l show ?thesis
    by (simp add: parse_seg_origin_def seg_name_def strip_prefix_def strip_suffix_def ascii_def SEG_EXT_def list_all_iff pad_nat_digits)
qed

lemma seg_name_inj: "seg_name a = seg_name b \<longleftrightarrow> a = b"
  using parse_seg_name by (metis option.inject)

section \<open>Frames in a row\<close>

abbreviation frame :: "bytes \<Rightarrow> bytes" where "frame \<equiv> write_framed []"

definition frames :: "bytes list \<Rightarrow> bytes" where
  "frames bs = concat (map frame bs)"

lemma frames_simps [simp]: "frames [] = []" "frames (b # bs) = frame b @ frames bs" "frames (xs @ ys) = frames xs @ frames ys"
  by (simp_all add: frames_def)

text \<open>The visitor along the records, with the file offset of each.\<close>

fun run_frames :: "(nat \<Rightarrow> bytes \<Rightarrow> 's \<Rightarrow> 's result) \<Rightarrow> nat \<Rightarrow> bytes list \<Rightarrow> 's \<Rightarrow> 's result" where
  "run_frames f p [] st = Inr st"
| "run_frames f p (b # bs) st = rbind (f p b st) (run_frames f (p + length (frame b)) bs)"

lemma write_framed_eq: "write_framed w b = w @ frame b"
  by (simp add: write_framed_def w_raw_def w_u64_def w_varint_eq [of w])

lemma frame_pos: "0 < length (frame b)"
  by (simp add: write_framed_def w_raw_def w_u64_def)

lemma read_framed_frame:
  "length (w @ frame b @ z) \<le> usize_max \<Longrightarrow> read_framed (behind w (w @ frame b @ z)) = Inr (b, behind (w @ frame b) (w @ frame b @ z))"
  using frame_codec.rd_wr [of w b z] by (simp add: write_framed_eq [of w])

lemma walk_loop_frames:
  assumes "length (w @ frames bs @ z) \<le> usize_max"
  shows "walk_loop s f (behind w (w @ frames bs @ z)) st (length w)
    = rbind (run_frames f (length w) bs st) (\<lambda>st. walk_loop s f (behind (w @ frames bs) (w @ frames bs @ z)) st (length (w @ frames bs)))"
  using assms
proof (induction bs arbitrary: w st)
  case (Cons b bs)
  define B where "B = w @ frames (b # bs) @ z"
  have r: "read_framed (behind w B) = Inr (b, behind (w @ frame b) B)"
    using read_framed_frame [of w b "frames bs @ z"] Cons.prems by (simp add: B_def)
  have "remaining (behind w B) \<noteq> 0" using frame_pos [of b] by (simp add: remaining_def B_def)
  then have "walk_loop s f (behind w B) st (length w)
      = (case f (length w) b st of Inl e \<Rightarrow> Inl e | Inr st \<Rightarrow> walk_loop s f (behind (w @ frame b) B) st (length (w @ frame b)))"
    by (subst walk_loop.simps) (simp add: r cong: sum.case_cong)
  moreover have "B = (w @ frame b) @ frames bs @ z" by (simp add: B_def)
  ultimately show ?case
    using Cons.IH [of "w @ frame b"] Cons.prems unfolding B_def [symmetric] by (simp add: rbind_def split: sum.split)
qed simp

lemma walk_loop_sound:
  assumes "walk_loop s f r st (pos r) = Inr (fin, st')" "pos r \<le> length (buf r)"
  shows "\<exists>bs. slice (buf r) (pos r) fin = frames bs \<and> pos r \<le> fin \<and> fin \<le> length (buf r)
    \<and> run_frames f (pos r) bs st = Inr st' \<and> (fin = length (buf r) \<or> tear s fin)"
  using assms
proof (induction "length (buf r) - pos r" arbitrary: r st rule: less_induct)
  case less
  show ?case
  proof (cases "remaining r = 0")
    case True
    then have "fin = pos r" "st' = st" "pos r = length (buf r)"
      using less.prems by (auto simp: remaining_def walk_loop.simps [of s f r])
    then show ?thesis by (intro exI [of _ "[]"]) (simp add: slice_def)
  next
    case more: False
    show ?thesis
    proof (cases "read_framed r")
      case (Inl e)
      then have "fin = pos r" "st' = st" "tear s fin"
        using less.prems more by (auto simp: walk_loop.simps [of s f r] split: if_splits)
      then show ?thesis using less.prems by (intro exI [of _ "[]"]) (simp add: slice_def)
    next
      case (Inr y)
      then obtain b r' where r: "read_framed r = Inr (b, r')" by (cases y) auto
      note a = read_framed_advances [OF r]
      obtain st1 where 1: "f (pos r) b st = Inr st1" "walk_loop s f r' st1 (pos r') = Inr (fin, st')"
        using less.prems(1) more r by (auto simp: walk_loop.simps [of s f r] split: sum.splits)
      have "length (buf r') - pos r' < length (buf r) - pos r" using a frame_pos [of b] more by (simp add: remaining_def del: length_greater_0_conv)
      from less.hyps [OF this 1(2)] a obtain bs where bs: "slice (buf r) (pos r') fin = frames bs" "pos r' \<le> fin" "fin \<le> length (buf r)"
        "run_frames f (pos r') bs st1 = Inr st'" "fin = length (buf r) \<or> tear s fin" by auto
      then show ?thesis using a 1(1) slice_append [of "pos r" "pos r'" fin "buf r"] by (intro exI [of _ "b # bs"]) auto
    qed
  qed
qed

section \<open>What an interrupted append leaves behind\<close>

text \<open>All bytes of a varint but the last carry the continuation bit; the last does not, and is not zero after another.\<close>

lemma varint_shape:
  "varint_bytes v \<noteq> [] \<and> (\<forall>b \<in> set (butlast (varint_bytes v)). bit b 7) \<and> \<not> bit (last (varint_bytes v)) 7
    \<and> (length (varint_bytes v) \<noteq> 1 \<longrightarrow> last (varint_bytes v) \<noteq> 0)"
proof (induction "unat v" arbitrary: v rule: less_induct)
  case less
  show ?case
  proof (cases "v < 0x80")
    case True
    have "\<not> bit v 7" using True bit_width [of v 7 7] by (auto simp: word_less_nat_alt)
    then show ?thesis using True by (simp add: varint_bytes_small bit_unsigned_iff)
  next
    case False
    let ?d = "drop_bit 7 v"
    have b: "varint_bytes v = (ucast v OR 0x80) # varint_bytes ?d" using False by (intro varint_bytes_big) simp
    have d: "unat ?d = unat v div 128" by (rule unat_drop_7)
    then have "unat ?d < unat v" using False by (simp add: not_less word_le_nat_alt)
    from less.hyps [OF this] have IH: "varint_bytes ?d \<noteq> []" "\<forall>b \<in> set (butlast (varint_bytes ?d)). bit b 7"
      "\<not> bit (last (varint_bytes ?d)) 7" "length (varint_bytes ?d) \<noteq> 1 \<longrightarrow> last (varint_bytes ?d) \<noteq> 0" by auto
    have "last (varint_bytes ?d) \<noteq> 0"
    proof (cases "?d < 0x80")
      case True
      have "?d \<noteq> 0" using d False by (auto simp: not_less word_le_nat_alt simp flip: unat_0_iff)
      moreover have "unat (ucast ?d :: u8) = unat ?d" using True by (simp add: unsigned_ucast_eq word_less_nat_alt take_bit_nat_eq_self)
      ultimately show ?thesis using True by (simp add: varint_bytes_small flip: unat_0_iff)
    next
      case F: False
      then have "length (varint_bytes ?d) = Suc (length (varint_bytes (drop_bit 7 ?d)))" using varint_bytes_big [of ?d] by simp
      moreover have "varint_bytes (drop_bit 7 ?d) \<noteq> []" by (subst w_varint.simps) (simp add: w_varint_eq [of "[_]"])
      ultimately have "length (varint_bytes ?d) \<noteq> 1" by simp
      with IH show ?thesis by simp
    qed
    with IH show ?thesis by (simp add: b bit_or_iff bit_128)
  qed
qed

lemma torn_varint:
  assumes "0 < j" "j < length (varint_bytes n)"
  shows "\<exists>e. r_varint (behind w (w @ take j (varint_bytes n) @ replicate m 0)) = Inl e"
proof (rule ccontr)
  let ?t = "take j (varint_bytes n) @ replicate m 0"
  assume "\<not> ?thesis"
  then obtain v r where "r_varint (behind w (w @ ?t)) = Inr (v, r)" by (cases "r_varint (behind w (w @ ?t))") auto
  from r_varint_canonical [OF this] have v: "take (length (varint_bytes v)) ?t = varint_bytes v" "length (varint_bytes v) \<le> length ?t"
    by (simp_all add: slice_def)
  let ?l = "length (varint_bytes v)"
  have ne: "0 < ?l" using varint_shape [of v] by simp
  then have last: "last (varint_bytes v) = ?t ! (?l - 1)"
    using v by (metis One_nat_def Suc_pred last_conv_nth length_greater_0_conv lessI nth_take)
  show False
  proof (cases "?l \<le> j")
    case True
    then have "?l - 1 < j" "?l - 1 < length (butlast (varint_bytes n))"
      using assms ne by (simp_all del: length_greater_0_conv)
    then have "?t ! (?l - 1) = butlast (varint_bytes n) ! (?l - 1)" "?l - 1 < length (butlast (varint_bytes n))"
      using assms by (simp_all add: nth_append nth_butlast)
    then have "bit (last (varint_bytes v)) 7" using varint_shape [of n] last nth_mem by metis
    then show False using varint_shape [of v] by blast
  next
    case False
    then have "last (varint_bytes v) = 0" "?l \<noteq> 1" using last v(2) assms by (auto simp: nth_append)
    then show False using varint_shape [of v] by blast
  qed
qed

lemma data_end_le: "data_end (w @ replicate m 0) \<le> length w"
proof -
  have "dropWhile (\<lambda>x. x = 0) (replicate m 0 @ rev w) = dropWhile (\<lambda>x. x = (0 :: u8)) (rev w)" by (induction m) auto
  then show ?thesis unfolding data_end_def using length_dropWhile_le [of "\<lambda>x. x = 0" "rev w"] by simp
qed

text \<open>A frame that was cut, with the lost bytes missing or zero, is recognised as an interrupted append.\<close>

lemma torn_frame_tears:
  assumes s: "sg_trusted s" "\<not> sg_sealed s" "sg_buf s = w @ take j (frame b) @ replicate m 0"
    and j: "j < length (frame b)" and len: "length (w @ frame b) + m \<le> usize_max"
    and d: "length w < seg_at s (h_durable (sg_head s)) \<Longrightarrow> length w + length (frame b) \<le> seg_at s (h_durable (sg_head s))"
  shows "tear s (length w)"
proof (cases "effective s \<le> length w")
  case False
  let ?v = "varint_bytes (of_nat (length b))" and ?B = "w @ take j (frame b) @ replicate m 0"
  have de: "data_end (sg_buf s) \<le> length w + j"
    using data_end_le [of "w @ take j (frame b)" m] j by (simp add: s(3) min_def)
  have eff: "length w < seg_at s (h_durable (sg_head s))" "length w < data_end (sg_buf s)"
    using False s by (auto simp: effective_def Let_def split: if_splits)
  then have "0 < j" using de by simp
  have fr: "frame b = ?v @ le_bytes (checksum b) @ b" by (simp add: write_framed_def w_raw_def w_u64_def)
  have sk: "seek (reader_new (sg_buf s)) (length w) = Inr (behind w ?B)" by (simp add: seek_def reader_new_def s(3))
  show ?thesis
  proof (cases "j < length ?v")
    case True
    then have "?B = w @ take j ?v @ replicate m 0" by (simp add: fr)
    with torn_varint [OF \<open>0 < j\<close> True, of w m] have "\<exists>e. r_varint (behind w ?B) = Inl e" by simp
    then show ?thesis using sk by (auto simp: tear_def s)
  next
    case F: False
    let ?z = "take (j - length ?v) (le_bytes (checksum b) @ b) @ replicate m 0"
    have B: "?B = w @ ?v @ ?z" using F by (simp add: fr)
    have v: "r_varint (behind w ?B) = Inr (of_nat (length b), behind (w @ ?v) ?B)"
      using reads_at [OF reads_varint, of w "of_nat (length b)" ?z] len j unfolding B by (simp add: fr)
    have small: "unat (of_nat (length b) :: u64) = length b" using len by (simp add: unat_of_nat_u64 usize_max_def fr)
    show ?thesis
    proof (cases "r_u64 (behind (w @ ?v) ?B)")
      case (Inl e)
      then show ?thesis using sk v by (simp add: tear_def s)
    next
      case (Inr y)
      then obtain x r where y: "r_u64 (behind (w @ ?v) ?B) = Inr (x, r)" "pos r = length w + length ?v + 8"
        by (cases y) (auto simp: r_u64_def r_word_def r_take_Inr split: if_splits)
      have "checked_add (pos r) (length b) = Some (length w + length (frame b))"
        using len y(2) by (simp add: checked_add_def fr)
      then show ?thesis using sk v y(1) small d [OF eff(1)] de j by (simp add: tear_def s)
    qed
  qed
qed (simp add: tear_def)

text \<open>A strict prefix of a frame is not a frame.\<close>

lemma short_frame:
  assumes "j < length (frame b)" "length (w @ frame b) \<le> usize_max"
  shows "\<exists>e. read_framed (behind w (w @ take j (frame b))) = Inl e"
proof (rule ccontr)
  assume "\<not> ?thesis"
  then obtain b' r where "read_framed (behind w (w @ take j (frame b))) = Inr (b', r)"
    by (cases "read_framed (behind w (w @ take j (frame b)))") auto
  from read_framed_advances [OF this] have "take (length (frame b')) (take j (frame b)) = frame b'" "length (frame b') \<le> j"
    using assms(1) by (auto simp: slice_def)
  then have "frame b' @ drop (length (frame b')) (frame b) = frame b @ []"
    by (metis append.right_neutral append_take_drop_id min.absorb1 take_take)
  from frame_codec.prefix_free(1) [OF this] have "b' = b" using assms \<open>length (frame b') \<le> j\<close> by simp
  with assms(1) \<open>length (frame b') \<le> j\<close> show False by simp
qed

text \<open>How many records fit into the first \<open>k\<close> bytes.\<close>

fun intact :: "nat \<Rightarrow> bytes list \<Rightarrow> nat" where
  "intact k [] = 0"
| "intact k (b # bs) = (if length (frame b) \<le> k then Suc (intact (k - length (frame b)) bs) else 0)"

abbreviation extent :: "nat \<Rightarrow> bytes list \<Rightarrow> nat" where
  "extent n bs \<equiv> length (frames (take n bs))"

lemma intact_le: "intact k bs \<le> length bs" "extent (intact k bs) bs \<le> k"
  by (induction k bs rule: intact.induct) auto

lemma intact_cut:
  "take k (frames bs) = frames (take (intact k bs) bs) @
     (if intact k bs < length bs then take (k - extent (intact k bs) bs) (frame (bs ! intact k bs)) else [])"
  "intact k bs < length bs \<Longrightarrow> k - extent (intact k bs) bs < length (frame (bs ! intact k bs))"
  by (induction k bs rule: intact.induct) auto

lemma extent_mono: "i \<le> j \<Longrightarrow> extent i bs \<le> extent j bs"
proof -
  assume "i \<le> j"
  then have "take j bs = take i bs @ take (j - i) (drop i bs)" by (metis le_add_diff_inverse take_add)
  then show ?thesis by simp
qed

lemma extent_Suc: "n < length bs \<Longrightarrow> extent (Suc n) bs = extent n bs + length (frame (bs ! n))"
  by (simp add: take_Suc_conv_app_nth)

lemma extent_intact: "extent i bs \<le> k \<Longrightarrow> extent i bs \<le> extent (intact k bs) bs"
proof (induction k bs arbitrary: i rule: intact.induct)
  case (2 k b bs)
  then show ?case by (cases i) auto
qed simp

lemma walk_cut:
  assumes s: "sg_trusted s" "\<not> sg_sealed s" "sg_buf s = hb @ take k (frames bs) @ replicate m 0"
    and len: "length (hb @ frames bs) + m \<le> usize_max"
    and d: "seg_at s (h_durable (sg_head s)) = length hb + extent j bs"
    and torn: "m = 0 \<or> (\<forall>x. read_framed (behind (hb @ frames (take (intact k bs) bs)) (sg_buf s)) \<noteq> Inr x)"
  shows "walk_loop s f (behind hb (sg_buf s)) st (length hb)
    = rbind (run_frames f (length hb) (take (intact k bs) bs) st) (\<lambda>st. Inr (length hb + extent (intact k bs) bs, st))"
proof -
  let ?n = "intact k bs" let ?w = "hb @ frames (take ?n bs)" let ?j = "k - extent ?n bs"
  define z where "z = (if ?n < length bs then take ?j (frame (bs ! ?n)) else []) @ replicate m 0"
  have B: "sg_buf s = hb @ frames (take ?n bs) @ z" using intact_cut(1) [of k bs] by (simp add: s(3) z_def)
  have l: "length (take k (frames bs)) \<le> length (frames bs)" by simp
  have lB: "length (sg_buf s) \<le> usize_max" using len l unfolding s(3) length_append length_replicate by linarith
  have "tear s (length ?w)"
  proof (cases "?n < length bs")
    case True
    have e: "extent (Suc ?n) bs \<le> length (frames bs)" using extent_mono [of "Suc ?n" "length bs" bs] True by simp
    show ?thesis
    proof (rule torn_frame_tears [OF s(1,2) _ intact_cut(2) [OF True], of ?w m])
      show "sg_buf s = ?w @ take ?j (frame (bs ! ?n)) @ replicate m 0" using B True by (simp add: z_def)
      show "length (?w @ frame (bs ! ?n)) + m \<le> usize_max" using len e extent_Suc [OF True] by simp
      show "length ?w + length (frame (bs ! ?n)) \<le> seg_at s (h_durable (sg_head s))" if "length ?w < seg_at s (h_durable (sg_head s))"
      proof -
        have "\<not> j \<le> ?n" using that extent_mono [of j ?n bs] by (auto simp: d)
        then show ?thesis using extent_mono [of "Suc ?n" j bs] extent_Suc [OF True] by (simp add: d)
      qed
    qed
  next
    case False
    then have "effective s \<le> length ?w" using data_end_le [of ?w m] B s by (auto simp: z_def effective_def Let_def)
    then show ?thesis by (simp add: tear_def)
  qed
  moreover have "\<forall>x. read_framed (behind ?w (sg_buf s)) \<noteq> Inr x" if "z \<noteq> []"
  proof (cases "m = 0")
    case True
    then have n: "?n < length bs" using that by (auto simp: z_def split: if_splits)
    have e: "extent (Suc ?n) bs \<le> length (frames bs)" using extent_mono [of "Suc ?n" "length bs" bs] n by simp
    have "\<exists>e. read_framed (behind ?w (?w @ take ?j (frame (bs ! ?n)))) = Inl e"
      using intact_cut(2) [OF n] len e extent_Suc [OF n] by (intro short_frame) simp_all
    then show ?thesis using B n True by (auto simp: z_def)
  qed (use torn in blast)
  then have "z = [] \<or> (\<exists>e. read_framed (behind ?w (sg_buf s)) = Inl e)" by (metis old.sum.exhaust)
  ultimately have "walk_loop s f (behind ?w (sg_buf s)) st (length ?w) = Inr (length ?w, st)" for st
    by (subst walk_loop.simps) (auto simp: remaining_def B)
  then show ?thesis
    using walk_loop_frames [of hb "take ?n bs" z s f st] lB unfolding B by simp
qed

lemma walk_seg_cut:
  assumes "sg_trusted s" "\<not> sg_sealed s" "sg_buf s = hb @ take k (frames bs) @ replicate m 0" "length hb = SEG_HEADER_LEN"
    "length (hb @ frames bs) + m \<le> usize_max"
    "seg_at s (h_durable (sg_head s)) = SEG_HEADER_LEN + extent j bs"
    "seg_at s (h_acked (sg_head s)) = SEG_HEADER_LEN + extent i bs" "extent i bs \<le> k"
    "m = 0 \<or> (\<forall>x. read_framed (behind (hb @ frames (take (intact k bs) bs)) (sg_buf s)) \<noteq> Inr x)"
  shows "walk_seg s 0 f st = rbind (run_frames f SEG_HEADER_LEN (take (intact k bs) bs) st)
    (\<lambda>st. Inr (SEG_HEADER_LEN + extent (intact k bs) bs, st))"
proof -
  have "seek (reader_new (sg_buf s)) (length hb) = Inr (behind hb (sg_buf s))" by (simp add: seek_def reader_new_def assms(3))
  moreover have "min (max 0 SEG_HEADER_LEN) (length (sg_buf s)) = length hb" using assms(4) by (simp add: assms(3))
  moreover have "\<not> SEG_HEADER_LEN + extent (intact k bs) bs < seg_floor s"
    using extent_intact [OF assms(8)] assms by (simp add: seg_floor_def)
  ultimately show ?thesis
    using walk_cut [OF assms(1-3,5), of j f st] assms(4,6,9)
    by (simp add: walk_seg_def Let_def) (cases "run_frames f SEG_HEADER_LEN (take (intact k bs) bs) st", simp_all)
qed

section \<open>Properties\<close>

text \<open>C5: What an interrupted append leaves behind replays: in the active segment, cut at any byte past the last acknowledged one,
  with the lost tail missing or filled with zeros, the walk visits exactly the records that are whole, ends behind
  the last of them and reports no damage, whether the watermark of the unfinished \<open>fsync\<close> reached the disk or not. (A tail of zeros
  must not itself pass for a frame.)\<close>

theorem torn_tail_replays:
  assumes "sg_trusted s" "\<not> sg_sealed s" "sg_buf s = hb @ take k (frames bs) @ replicate m 0" "length hb = SEG_HEADER_LEN"
    "length (hb @ frames bs) + m \<le> usize_max"
    "seg_at s (h_durable (sg_head s)) = SEG_HEADER_LEN + extent j bs"
    "seg_at s (h_acked (sg_head s)) = SEG_HEADER_LEN + extent i bs" "extent i bs \<le> k"
    "m = 0 \<or> (\<forall>x. read_framed (behind (hb @ frames (take (intact k bs) bs)) (sg_buf s)) \<noteq> Inr x)"
  shows "walk_seg s 0 f st = rbind (run_frames f SEG_HEADER_LEN (take (intact k bs) bs) st)
    (\<lambda>st. Inr (SEG_HEADER_LEN + extent (intact k bs) bs, st))"
  using assms by (rule walk_seg_cut)


text \<open>A segment's header reads back with its fields and a trusted stamp under the origin its name declares; its name leads back to
  that origin and to no other. Read under another origin, the stamp is trusted only if the check over that origin happens to
  be the stored one.\<close>

theorem head_bound_to_origin:
  assumes "length (head_encode h origin @ z) \<le> usize_max"
  shows "read_head (head_encode h origin @ z) origin = Inr (h, True)
    \<and> read_head (head_encode h origin @ z) other = Inr (h, head_sum h other = head_sum h origin)
    \<and> parse_seg_origin (seg_name origin) = Some origin \<and> (seg_name other = seg_name origin \<longrightarrow> other = origin)
    \<and> read_head (take n (head_encode h origin)) origin = (if n < SEG_HEADER_LEN
         then Inl (Corruption ''a log segment is shorter than its header'') else Inr (h, True))"
proof -
  have "read_head (take n (head_encode h origin)) origin = (if n < SEG_HEADER_LEN
         then Inl (Corruption ''a log segment is shorter than its header'') else Inr (h, True))"
    using read_head_encode [of h origin "[]" origin] assms by (cases "n < SEG_HEADER_LEN") (simp_all add: read_head_def [of "take n _"])
  then show ?thesis
    using read_head_encode [OF assms] by (simp add: parse_seg_name seg_name_inj)
qed

theorem head_bound_to_origin_witness:
  "read_head (head_encode head_default 9 @ [1, 2]) 9 = Inr (head_default, True) \<and> parse_seg_origin (seg_name 9) = Some 9"
  using head_bound_to_origin [of head_default 9 "[1, 2]" 9 0] by (simp add: SEG_HEADER_LEN_def usize_max_def)

theorem torn_tail_replays_witness:
  "walk_seg \<lparr>sg_origin = 0, sg_head = head_default, sg_trusted = True, sg_sealed = False,
      sg_buf = replicate 64 1 @ take 12 (frames [[7], [8]])\<rparr> 0 (\<lambda>p b st. Inr (st @ [b])) [] = Inr (74, [[7]])"
proof -
  let ?s = "\<lparr>sg_origin = 0, sg_head = head_default, sg_trusted = True, sg_sealed = False,
      sg_buf = replicate 64 1 @ take 12 (frames [[7], [8]])\<rparr>"
  have l: "length (frame [b]) = 10" for b by (simp add: write_framed_def w_raw_def w_u64_def varint_bytes_small word_less_nat_alt)
  have at0: "seg_at ?s 0 = SEG_HEADER_LEN" by (simp add: seg_at_def SEG_HEADER_LEN_def)
  have n: "intact 12 [[7], [8]] = 1" by (simp add: l)
  have "walk_seg ?s 0 (\<lambda>p b st. Inr (st @ [b])) [] = rbind (run_frames (\<lambda>p b st. Inr (st @ [b])) SEG_HEADER_LEN (take (intact 12 [[7], [8]]) [[7], [8]]) [])
      (\<lambda>st. Inr (SEG_HEADER_LEN + extent (intact 12 [[7], [8]]) [[7], [8]], st))"
    by (rule torn_tail_replays [of ?s "replicate 64 1" 12 "[[7], [8]]" 0 0 0])
      (simp_all add: SEG_HEADER_LEN_def l usize_max_def at0 head_default_def del: intact.simps, simp_all add: seg_at_def SEG_HEADER_LEN_def)
  then show ?thesis unfolding n by (simp add: SEG_HEADER_LEN_def l)
qed


end
