(* ===== verification/Wal_Log.thy ===== *)
theory Wal_Log
  imports Wal_Segment Part "HOL-Library.AList"
begin

text \<open>
  The write-ahead log of one table, \<^verbatim>\<open>src/persist/wal.rs\<close>: the handle with its active segment, appending, staging groups, syncing,
  rewinding, opening after a crash, and rolling into a new segment with retention. The files are part of the state. A device may be short of
  space (\<open>wl_space\<close>): then a write fails after the bytes that fit; the other calls of the file system succeed. The counter of
  recovery positions, global to the process, and the clock are arguments.
\<close>

section \<open>Definitions\<close>

definition MAX_SEGMENTS :: nat where "MAX_SEGMENTS = 256"

record wal_span =
  sp_first_seq :: u64
  sp_last_seq :: u64
  sp_first_ms :: u64
  sp_last_ms :: u64

definition span_default :: wal_span where
  "span_default = \<lparr>sp_first_seq = 0, sp_last_seq = 0, sp_first_ms = 0, sp_last_ms = 0\<rparr>"

definition span_observe :: "wal_span \<Rightarrow> u64 \<Rightarrow> u64 \<Rightarrow> wal_span" where
  "span_observe sp seq ms =
     (let sp = (if sp_last_seq sp = 0 then sp\<lparr>sp_first_seq := seq, sp_first_ms := ms\<rparr> else sp)
      in sp\<lparr>sp_last_seq := seq, sp_last_ms := ms\<rparr>)"

definition span_is_empty :: "wal_span \<Rightarrow> bool" where
  "span_is_empty sp = (sp_last_seq sp = 0)"

datatype target = Latest | Lsn u64 | Time u64

definition keeps :: "target \<Rightarrow> u64 \<Rightarrow> u64 \<Rightarrow> bool" where
  "keeps t seq ms = (case t of Latest \<Rightarrow> True | Lsn n \<Rightarrow> seq \<le> n | Time x \<Rightarrow> ms \<le> x)"

text \<open>The counter after some segment has used \<open>seq\<close>.\<close>

definition observe_commit :: "u64 \<Rightarrow> u64 \<Rightarrow> u64" where
  "observe_commit nc seq = (if seq \<noteq> 0 then max nc (seq + 1) else nc)"

record scanned =
  sc_good :: nat
  sc_next_seq :: u64
  sc_decides :: bool
  sc_dirty :: bool
  sc_span :: wal_span

definition scan_visit :: "nat \<Rightarrow> bytes \<Rightarrow> scanned \<Rightarrow> scanned result" where
  "scan_visit p body sc =
     (let sc = sc\<lparr>sc_next_seq := max (sc_next_seq sc) (body_next_seq body), sc_decides := sc_decides sc \<or> tagged body TAG_DECIDE \<noteq> None,
                  sc_dirty := True\<rparr>
      in Inr (if body \<noteq> [] \<and> hd body = TAG_TICK
              then (case tick_of body of Some (seq, ms) \<Rightarrow> sc\<lparr>sc_dirty := False, sc_span := span_observe (sc_span sc) seq ms\<rparr>
                    | None \<Rightarrow> sc\<lparr>sc_dirty := False\<rparr>)
              else sc))"

definition scan :: "seg \<Rightarrow> scanned result" where
  "scan s = rbind (walk_seg s 0 scan_visit
       \<lparr>sc_good = SEG_HEADER_LEN, sc_next_seq = 0, sc_decides = False, sc_dirty = False, sc_span = span_default\<rparr>)
     (\<lambda>(good, sc). Inr (sc\<lparr>sc_good := good\<rparr>))"

record wal =
  wl_dir :: wal_dir
  wl_origin :: u64
  wl_len :: u64
  wl_head :: head
  wl_folded :: u64
  wl_next_seq :: u64
  wl_open_groups :: u32
  wl_decides :: bool
  wl_span :: wal_span
  wl_dirty :: bool
  wl_sealed :: "u64 list"
  wl_space :: "nat option"

subsection \<open>The active file\<close>

definition active :: "wal \<Rightarrow> bytes" where
  "active w = (case map_of (wl_dir w) (seg_name (wl_origin w)) of Some b \<Rightarrow> b | None \<Rightarrow> [])"

definition set_active :: "bytes \<Rightarrow> wal \<Rightarrow> wal" where
  "set_active b w = w\<lparr>wl_dir := AList.update (seg_name (wl_origin w)) b (wl_dir w)\<rparr>"

text \<open>\<open>write_all\<close> on a file opened for appending: whether it succeeded, and what it wrote.\<close>

definition write_all :: "bytes \<Rightarrow> wal \<Rightarrow> bool \<times> wal" where
  "write_all bs w = (case wl_space w of
     None \<Rightarrow> (True, set_active (active w @ bs) w)
   | Some k \<Rightarrow>
       if length bs \<le> k then (True, set_active (active w @ bs) (w\<lparr>wl_space := Some (k - length bs)\<rparr>))
       else (False, set_active (active w @ take k bs) (w\<lparr>wl_space := Some 0\<rparr>)))"

definition append_framed :: "bytes \<Rightarrow> wal \<Rightarrow> u64 result \<times> wal" where
  "append_framed bs w =
     (case write_all bs w of
        (False, w') \<Rightarrow> (Inl (Io ''append to''), w'\<lparr>wl_len := wl_origin w' + of_nat (length (active w')) - of_nat SEG_HEADER_LEN\<rparr>)
      | (True, w') \<Rightarrow> (Inr (wl_len w), w'\<lparr>wl_len := wl_len w' + of_nat (length bs), wl_dirty := True\<rparr>))"

text \<open>The record is built behind room for the frame header and framed in place.\<close>

definition wal_append :: "bytes \<Rightarrow> wal \<Rightarrow> u64 result \<times> wal" where
  "wal_append body w = append_framed (body_finish (body_new @ body)) w"

text \<open>Several records in a row; the first error returns.\<close>

fun append_each :: "bytes list \<Rightarrow> wal \<Rightarrow> unit result \<times> wal" where
  "append_each [] w = (Inr (), w)"
| "append_each (b # bs) w = (case wal_append b w of (Inl e, w) \<Rightarrow> (Inl e, w) | (Inr _, w) \<Rightarrow> append_each bs w)"

definition put_insert :: "u64 option \<Rightarrow> block \<Rightarrow> wal \<Rightarrow> u64 result \<times> wal" where
  "put_insert seq b w =
     (if of_nat (blk_rows b) > MAX_PART_ROWS then (Inl (Storage ''a log record of so many rows cannot be written''), w)
      else let body = insert_body seq b
           in if length body > MAX_FRAME then (Inl (Storage ''a log record of so many bytes cannot be written''), w)
              else wal_append body w)"

definition put_deletes :: "u64 option \<Rightarrow> u64 list \<Rightarrow> wal \<Rightarrow> u64 result \<times> wal" where
  "put_deletes seq lanes w = (case lanes of
     [] \<Rightarrow> (Inr (wl_len w), w)
   | [l] \<Rightarrow> wal_append (delete_body seq l) w
   | _ \<Rightarrow> (case append_each (map (delete_run_body seq) (chunks DELETE_BATCH lanes)) w of
             (Inl e, w') \<Rightarrow> (Inl e, w') | (Inr _, w') \<Rightarrow> (Inr (wl_len w), w')))"

definition append_masks :: "u64 option \<Rightarrow> mask_runs \<Rightarrow> wal \<Rightarrow> u64 result \<times> wal" where
  "append_masks seq masks w =
     (case append_each (map (\<lambda>(pid, n, deltas). mask_body seq pid n deltas) (runs_of masks)) w of
        (Inl e, w') \<Rightarrow> (Inl e, w') | (Inr _, w') \<Rightarrow> (Inr (wl_len w), w'))"

definition append_insert :: "block \<Rightarrow> wal \<Rightarrow> u64 result \<times> wal" where
  "append_insert b w = put_insert None b w"
definition append_delete :: "u64 \<Rightarrow> wal \<Rightarrow> u64 result \<times> wal" where
  "append_delete l w = put_deletes None [l] w"
definition append_deletes :: "u64 list \<Rightarrow> wal \<Rightarrow> u64 result \<times> wal" where
  "append_deletes ls w = put_deletes None ls w"
definition append_insert_staged :: "u64 \<Rightarrow> block \<Rightarrow> wal \<Rightarrow> u64 result \<times> wal" where
  "append_insert_staged seq b w = put_insert (Some seq) b w"
definition append_delete_staged :: "u64 \<Rightarrow> u64 \<Rightarrow> wal \<Rightarrow> u64 result \<times> wal" where
  "append_delete_staged seq l w = put_deletes (Some seq) [l] w"
definition append_deletes_staged :: "u64 \<Rightarrow> u64 list \<Rightarrow> wal \<Rightarrow> u64 result \<times> wal" where
  "append_deletes_staged seq ls w = put_deletes (Some seq) ls w"

subsection \<open>Groups and durability\<close>

definition wal_begin :: "wal \<Rightarrow> u64 \<times> wal" where
  "wal_begin w = (wl_next_seq w, w\<lparr>wl_next_seq := wl_next_seq w + 1, wl_open_groups := wl_open_groups w + 1\<rparr>)"

definition close_group :: "wal \<Rightarrow> wal" where
  "close_group w = w\<lparr>wl_open_groups := (if wl_open_groups w = 0 then 0 else wl_open_groups w - 1)\<rparr>"

definition drop_group :: "wal \<Rightarrow> wal" where "drop_group w = close_group w"

definition marker :: "u8 \<Rightarrow> u64 \<Rightarrow> wal \<Rightarrow> u64 result \<times> wal" where
  "marker tag seq w = wal_append (marker_body tag seq) w"

definition wal_commit :: "u64 \<Rightarrow> wal \<Rightarrow> u64 result \<times> wal" where
  "wal_commit seq w = (case marker TAG_COMMIT seq w of (r, w) \<Rightarrow> (r, close_group w))"

text \<open>\<open>rel\<close> is the path to the coordinator's directory, or the error of computing it.\<close>

definition wal_prepare :: "u64 \<Rightarrow> bytes result \<Rightarrow> u64 \<Rightarrow> wal \<Rightarrow> u64 result \<times> wal" where
  "wal_prepare seq rel coord_seq w = (case rel of
     Inl e \<Rightarrow> (Inl e, w)
   | Inr rel \<Rightarrow> (case wal_append (prepare_body seq coord_seq rel) w of (r, w) \<Rightarrow> (r, close_group w)))"

definition wal_decide :: "u64 \<Rightarrow> wal \<Rightarrow> u64 result \<times> wal" where
  "wal_decide seq w = (case marker TAG_DECIDE seq w of
     (Inl e, w) \<Rightarrow> (Inl e, w)
   | (Inr p, w) \<Rightarrow> (Inr p, close_group (w\<lparr>wl_decides := True\<rparr>)))"

definition put_stamp :: "u64 \<Rightarrow> wal \<Rightarrow> wal" where
  "put_stamp to w =
     (let h = wl_head w
      in if to = h_durable h then w
         else let h = h\<lparr>h_acked := (if to > h_durable h then h_durable h else min (h_acked h) to), h_durable := to\<rparr>
              in set_active (put_range (active w) STAMP_AT (head_stamp h (wl_origin w))) (w\<lparr>wl_head := h\<rparr>))"

definition wal_tick :: "u64 \<Rightarrow> u64 \<Rightarrow> wal \<Rightarrow> unit result \<times> wal \<times> u64" where
  "wal_tick now nc w =
     (let ms = max (max now (sp_last_ms (wl_span w))) (h_prev_ms (wl_head w))
      in case wal_append (tick_body nc ms) w of
           (Inl e, w) \<Rightarrow> (Inl e, w, nc + 1)
         | (Inr _, w) \<Rightarrow> (Inr (), w\<lparr>wl_span := span_observe (wl_span w) nc ms, wl_dirty := False\<rparr>, nc + 1))"

definition stage_sync :: "u64 \<Rightarrow> u64 \<Rightarrow> wal \<Rightarrow> unit result \<times> wal \<times> u64" where
  "stage_sync now nc w =
     (if wl_dirty w
      then (case wal_tick now nc w of (Inl e, w, nc) \<Rightarrow> (Inl e, w, nc) | (Inr _, w, nc) \<Rightarrow> (Inr (), put_stamp (wl_len w) w, nc))
      else (Inr (), put_stamp (wl_len w) w, nc))"

text \<open>The barrier is an \<open>fsync\<close>: it changes what survives a crash, not the log.\<close>

definition wal_sync :: "u64 \<Rightarrow> u64 \<Rightarrow> wal \<Rightarrow> unit result \<times> wal \<times> u64" where
  "wal_sync now nc w = stage_sync now nc w"

definition rewind_to :: "u64 \<Rightarrow> wal \<Rightarrow> unit result \<times> wal" where
  "rewind_to lsn w =
     (let w = close_group w
      in if lsn \<ge> wl_len w then (Inr (), w)
         else if lsn < wl_origin w + ucast (h_carry_len (wl_head w)) then (Inl (Storage ''cannot rewind the log''), w)
         else let w = set_active (take (unat (lsn - wl_origin w + of_nat SEG_HEADER_LEN)) (active w)) w;
                  w = w\<lparr>wl_len := lsn\<rparr>
              in (Inr (), put_stamp (min (h_durable (wl_head w)) lsn) w))"

definition wal_pending :: "wal \<Rightarrow> u64" where "wal_pending w = wl_len w - wl_folded w"

definition wal_is_empty :: "wal \<Rightarrow> bool" where
  "wal_is_empty w = (wl_len w = wl_origin w + ucast (h_carry_len (wl_head w)))"

subsection \<open>Opening\<close>

definition wal_open :: "wal_dir \<Rightarrow> u64 \<Rightarrow> (wal \<times> u64) result" where
  "wal_open dir nc =
     (let origins = seg_list dir;
          dir = (if origins = [] then AList.update (seg_name 0) (head_encode head_default 0) dir else dir);
          origins = (if origins = [] then [0] else origins);
          origin = last origins
      in rbind (seg_load dir origin False) (\<lambda>s. rbind (scan s) (\<lambda>sc.
           let w = \<lparr>wl_dir = dir, wl_origin = origin, wl_len = seg_stream_end s, wl_head = sg_head s, wl_folded = origin,
                    wl_next_seq = max (h_next_seq (sg_head s)) (sc_next_seq sc), wl_open_groups = 0, wl_decides = sc_decides sc,
                    wl_span = sc_span sc, wl_dirty = sc_dirty sc, wl_sealed = butlast origins, wl_space = None\<rparr>;
               w = (if sc_good sc < length (sg_buf s)
                    then let keep = origin + of_nat (sc_good sc) - of_nat SEG_HEADER_LEN;
                             w = (set_active (take (sc_good sc) (active w)) w)\<lparr>wl_len := keep\<rparr>
                         in put_stamp (min keep (h_durable (wl_head w))) w
                    else w)
           in Inr (w, observe_commit nc (max (sp_last_seq (wl_span w)) (h_prev_seq (wl_head w)))))))"

subsection \<open>Rolling\<close>

text \<open>The decisions of the newest segment of a directory, ascending.\<close>

definition decide_visit :: "nat \<Rightarrow> bytes \<Rightarrow> u64 list \<Rightarrow> u64 list result" where
  "decide_visit p body out = Inr (case tagged body TAG_DECIDE of Some s \<Rightarrow> out @ [s] | None \<Rightarrow> out)"

definition walk_dir_newest :: "wal_dir \<Rightarrow> u64 list result" where
  "walk_dir_newest dir = (case seg_list dir of
     [] \<Rightarrow> Inr []
   | os \<Rightarrow> rbind (seg_load dir (last os) False) (\<lambda>s. rbind (walk_seg s 0 decide_visit []) (\<lambda>(_, out). Inr (remdups_adj (sort out)))))"

definition sealed_bytes :: "wal \<Rightarrow> u64" where
  "sealed_bytes w = (case wl_sealed w of
     [] \<Rightarrow> 0
   | first # _ \<Rightarrow> of_nat SEG_HEADER_LEN * of_nat (length (wl_sealed w)) + (wl_origin w - first))"

fun prune_loop :: "u64 \<Rightarrow> u64 \<Rightarrow> u64 \<Rightarrow> u64 \<Rightarrow> u64 list \<Rightarrow> wal_dir \<Rightarrow> u64 list \<times> wal_dir" where
  "prune_loop budget tot origin folded [] dir = ([], dir)"
| "prune_loop budget tot origin folded (o1 # os) dir =
     (let fin = (case os of o2 # _ \<Rightarrow> o2 | [] \<Rightarrow> origin)
      in if \<not> (tot > budget \<or> length (o1 # os) > MAX_SEGMENTS) then (o1 # os, dir)
         else if fin > folded then (o1 # os, dir)
         else if map_of dir (seg_name o1) = None then (o1 # os, dir)
         else prune_loop budget (tot - (of_nat SEG_HEADER_LEN + (fin - o1))) origin folded os (AList.delete (seg_name o1) dir))"

definition prune :: "u64 \<Rightarrow> wal \<Rightarrow> wal" where
  "prune budget w = (case prune_loop budget (sealed_bytes w) (wl_origin w) (wl_folded w) (wl_sealed w) (wl_dir w) of
     (sealed, dir) \<Rightarrow> w\<lparr>wl_sealed := sealed, wl_dir := dir\<rparr>)"

text \<open>\<open>cited\<close>: whether another table's log may still cite a decision of this one.\<close>

definition roll :: "bool \<Rightarrow> u64 \<Rightarrow> u64 \<Rightarrow> u64 \<Rightarrow> wal \<Rightarrow> unit result \<times> wal \<times> u64" where
  "roll cited budget now nc w =
     (if wl_open_groups w \<noteq> 0 then (Inl (Storage ''cannot roll the log: staging groups are still open''), w, nc)
      else if wal_is_empty w \<and> h_carry_len (wl_head w) = 0 then (Inr (), w, nc)
      else case (if wl_decides w \<and> cited then walk_dir_newest (wl_dir w) else Inr []) of
        Inl e \<Rightarrow> (Inl e, w, nc)
      | Inr carry \<Rightarrow>
          if wal_is_empty w \<and> carry \<noteq> [] then (Inr (), w, nc)
          else case (if wl_dirty w
                     then (case wal_tick now nc w of (Inl e, w, nc) \<Rightarrow> (Inl e, w, nc) | (Inr _, w, nc) \<Rightarrow> (Inr (), put_stamp (wl_len w) w, nc))
                     else (Inr (), w, nc)) of
            (Inl e, w, nc) \<Rightarrow> (Inl e, w, nc)
          | (Inr _, w, nc) \<Rightarrow>
              let origin = wl_len w;
                  carried = foldl write_framed [] (map (marker_body TAG_DECIDE) carry);
                  h = \<lparr>h_carry_len = of_nat (length carried), h_next_seq = wl_next_seq w,
                       h_prev_seq = max (sp_last_seq (wl_span w)) (h_prev_seq (wl_head w)),
                       h_prev_ms = max (sp_last_ms (wl_span w)) (h_prev_ms (wl_head w)),
                       h_durable = origin + of_nat (length carried), h_acked = origin + of_nat (length carried)\<rparr>
              in (Inr (), prune budget (w\<lparr>wl_dir := AList.update (seg_name origin) (head_encode h origin @ carried) (wl_dir w),
                    wl_sealed := wl_sealed w @ [wl_origin w], wl_origin := origin, wl_folded := origin, wl_head := h,
                    wl_len := h_durable h, wl_decides := carry \<noteq> [], wl_dirty := False, wl_span := span_default\<rparr>), nc))"

declare prune_loop.simps [simp del]

section \<open>Files and names\<close>

lemma active_set [simp]: "active (set_active b w) = b"
  by (simp add: active_def set_active_def update_conv')

lemma set_active_fields [simp]:
  "wl_origin (set_active b w) = wl_origin w" "wl_len (set_active b w) = wl_len w" "wl_head (set_active b w) = wl_head w"
  "wl_next_seq (set_active b w) = wl_next_seq w" "wl_span (set_active b w) = wl_span w" "wl_space (set_active b w) = wl_space w" "wl_dirty (set_active b w) = wl_dirty w" "wl_sealed (set_active b w) = wl_sealed w"
  by (simp_all add: set_active_def)

lemma seg_list_update:
  "seg_name o1 \<in> fst ` set dir \<Longrightarrow> seg_list (AList.update (seg_name o1) b dir) = seg_list dir"
  by (simp add: seg_list_def update_keys)

lemma seg_list_mem: "seg_name o1 \<in> fst ` set dir \<Longrightarrow> o1 \<in> set (seg_list dir)"
proof -
  assume m: "seg_name o1 \<in> fst ` set dir"
  define F where "F = filter (\<lambda>x. parse_seg_origin x \<noteq> None) (map fst dir)"
  have "seg_name o1 \<in> set F" using m by (simp add: F_def parse_seg_name)
  then have "(the \<circ> parse_seg_origin) (seg_name o1) \<in> set (map (the \<circ> parse_seg_origin) F)" unfolding list.set_map by (rule imageI)
  then show ?thesis by (simp add: seg_list_def List.map_filter_def parse_seg_name F_def)
qed

text \<open>The directory of a log: the names of its segments, the active one the greatest.\<close>

definition dir_ok :: "wal \<Rightarrow> bool" where
  "dir_ok w \<longleftrightarrow> seg_name (wl_origin w) \<in> fst ` set (wl_dir w) \<and> last (seg_list (wl_dir w)) = wl_origin w"

lemma dir_ok_set [simp]: "dir_ok w \<Longrightarrow> dir_ok (set_active b w)"
  by (simp add: dir_ok_def set_active_def seg_list_update dom_update)

lemma active_len [simp]: "active (w\<lparr>wl_len := l\<rparr>) = active w" "dir_ok (w\<lparr>wl_len := l\<rparr>) = dir_ok w"
  by (simp_all add: active_def dir_ok_def)

section \<open>The invariant\<close>

text \<open>The stamp of a header: both its positions are ends of records, and the acknowledged one lies within the first \<open>syn\<close> bytes.\<close>

definition stamp_ok :: "u64 \<Rightarrow> head \<Rightarrow> bytes list \<Rightarrow> nat \<Rightarrow> bool" where
  "stamp_ok origin h bs syn \<longleftrightarrow> (\<exists>i j. i \<le> j \<and> j \<le> length bs \<and> h_durable h = origin + of_nat (extent j bs)
     \<and> h_acked h = origin + of_nat (extent i bs) \<and> extent i bs \<le> syn \<and> unat (h_carry_len h) \<le> extent i bs)"

text \<open>The active file is its header and whole records, and the positions fit.\<close>

definition log_ok :: "wal \<Rightarrow> bytes list \<Rightarrow> bool" where
  "log_ok w bs \<longleftrightarrow> dir_ok w \<and> active w = head_encode (wl_head w) (wl_origin w) @ frames bs
     \<and> wl_len w = wl_origin w + of_nat (length (frames bs)) \<and> unat (wl_origin w) + length (frames bs) + SEG_HEADER_LEN \<le> usize_max"

lemma stamp_ok_extend: "stamp_ok o1 h bs syn \<Longrightarrow> stamp_ok o1 h (bs @ cs) syn"
proof -
  assume "stamp_ok o1 h bs syn"
  then obtain i j where "i \<le> j" "j \<le> length bs" "h_durable h = o1 + of_nat (extent j bs)"
     "h_acked h = o1 + of_nat (extent i bs)" "extent i bs \<le> syn" "unat (h_carry_len h) \<le> extent i bs" by (auto simp: stamp_ok_def)
  then show ?thesis unfolding stamp_ok_def by (intro exI [of _ i] exI [of _ j]) simp
qed

lemma stamp_ok_weaken: "stamp_ok o1 h bs syn \<Longrightarrow> syn \<le> syn' \<Longrightarrow> stamp_ok o1 h bs syn'"
  unfolding stamp_ok_def by (meson le_trans)

subsection \<open>Appending\<close>

text \<open>What a call appended, whatever else it kept in the handle.\<close>

definition appended :: "wal \<Rightarrow> bytes list \<Rightarrow> wal \<Rightarrow> bool" where
  "appended w bs w' \<longleftrightarrow> wl_origin w' = wl_origin w \<and> wl_head w' = wl_head w \<and> (dir_ok w \<longrightarrow> dir_ok w')
     \<and> active w' = active w @ frames bs \<and> wl_len w' = wl_len w + of_nat (length (frames bs))"

lemma appended_trans: "appended w bs w1 \<Longrightarrow> appended w1 cs w2 \<Longrightarrow> appended w (bs @ cs) w2"
  by (simp add: appended_def add.assoc)

lemma appended_close: "appended w bs (close_group w') \<longleftrightarrow> appended w bs w'"
  by (simp add: appended_def close_group_def active_def dir_ok_def)

lemma appended_fields:
  "appended w bs (w'\<lparr>wl_decides := d\<rparr>) \<longleftrightarrow> appended w bs w'" "appended w bs (w'\<lparr>wl_span := sp, wl_dirty := t\<rparr>) \<longleftrightarrow> appended w bs w'"
  by (simp_all add: appended_def active_def dir_ok_def)

lemma wal_append_ok: "wal_append b w = (Inr l, w') \<Longrightarrow> l = wl_len w \<and> appended w [b] w'"
  by (auto simp: wal_append_def body_finish_eq append_framed_def write_all_def appended_def split: option.splits if_splits)
    (auto simp: active_def set_active_def update_conv' dir_ok_def seg_list_update dom_update)

lemma append_each_ok: "append_each bs w = (Inr (), w') \<Longrightarrow> appended w bs w'"
proof (induction bs arbitrary: w)
  case (Cons b bs)
  then obtain l w1 where 1: "wal_append b w = (Inr l, w1)" "append_each bs w1 = (Inr (), w')"
    by (auto split: prod.splits sum.splits)
  from appended_trans [of w "[b]" w1 bs w'] wal_append_ok [OF 1(1)] Cons.IH [OF 1(2)] show ?case by simp
qed (simp add: appended_def)

lemma appended_refl: "appended w [] w"
  by (simp add: appended_def)

text \<open>The records a call logs.\<close>

definition delete_bodies :: "u64 option \<Rightarrow> u64 list \<Rightarrow> bytes list" where
  "delete_bodies seq ls = (case ls of [] \<Rightarrow> [] | [l] \<Rightarrow> [delete_body seq l] | _ \<Rightarrow> map (delete_run_body seq) (chunks DELETE_BATCH ls))"

definition mask_bodies :: "u64 option \<Rightarrow> mask_runs \<Rightarrow> bytes list" where
  "mask_bodies seq m = map (\<lambda>(pid, n, ds). mask_body seq pid n ds) (runs_of m)"

lemma put_insert_ok: "put_insert seq b w = (Inr l, w') \<Longrightarrow> l = wl_len w \<and> appended w [insert_body seq b] w'"
  by (auto simp: put_insert_def Let_def split: if_splits dest: wal_append_ok)

lemma put_deletes_ok: "put_deletes seq ls w = (Inr l, w') \<Longrightarrow> l = wl_len w \<and> appended w (delete_bodies seq ls) w'"
  by (auto simp: put_deletes_def delete_bodies_def split: list.splits prod.splits sum.splits dest: wal_append_ok append_each_ok intro: appended_refl)

lemma append_masks_ok: "append_masks seq m w = (Inr l, w') \<Longrightarrow> l = wl_len w \<and> appended w (mask_bodies seq m) w'"
  by (auto simp: append_masks_def mask_bodies_def split: prod.splits sum.splits dest: append_each_ok)

lemma marker_ok:
  "wal_commit s w = (Inr l, w') \<Longrightarrow> appended w [marker_body TAG_COMMIT s] w'"
  "wal_decide s w = (Inr l, w') \<Longrightarrow> appended w [marker_body TAG_DECIDE s] w'"
  "wal_prepare s (Inr rel) c w = (Inr l, w') \<Longrightarrow> appended w [prepare_body s c rel] w'"
  by (auto simp: wal_commit_def wal_decide_def wal_prepare_def marker_def appended_close appended_fields
      split: prod.splits sum.splits dest: wal_append_ok)

lemma wal_tick_ok: "wal_tick now nc w = (Inr (), w', nc') \<Longrightarrow> \<exists>ms. appended w [tick_body nc ms] w' \<and> \<not> wl_dirty w'"
  by (auto simp: wal_tick_def Let_def appended_fields split: prod.splits sum.splits dest!: wal_append_ok)

lemma log_ok_appended:
  assumes "log_ok w bs" "appended w cs w'" "unat (wl_origin w) + length (frames (bs @ cs)) + SEG_HEADER_LEN \<le> usize_max"
  shows "log_ok w' (bs @ cs)"
  using assms by (simp add: log_ok_def appended_def)

subsection \<open>Stamping\<close>

lemma length_head_stamp: "length (head_stamp h o1) = 24"
  by (simp add: head_stamp_def STAMP_AT_def SEG_HEADER_LEN_def)

text \<open>Rewriting the last 24 bytes of the header changes just the watermark fields.\<close>

lemma stamp_rewrites:
  assumes "h_carry_len h' = h_carry_len h" "h_next_seq h' = h_next_seq h" "h_prev_seq h' = h_prev_seq h" "h_prev_ms h' = h_prev_ms h"
  shows "put_range (head_encode h o1 @ z) STAMP_AT (head_stamp h' o1) = head_encode h' o1 @ z"
proof -
  have "take STAMP_AT (head_encode h o1) = take STAMP_AT (head_encode h' o1)"
    using assms by (simp add: head_encode_eq head_fields_def STAMP_AT_def)
  then have "take STAMP_AT (head_encode h o1 @ z) @ head_stamp h' o1 = head_encode h' o1"
    by (simp add: head_stamp_def STAMP_AT_def SEG_HEADER_LEN_def)
  then show ?thesis by (simp add: put_range_def length_head_stamp STAMP_AT_def SEG_HEADER_LEN_def flip: append_assoc)
qed

definition stamped :: "u64 \<Rightarrow> head \<Rightarrow> head" where
  "stamped to h = (if to = h_durable h then h
     else h\<lparr>h_acked := (if to > h_durable h then h_durable h else min (h_acked h) to), h_durable := to\<rparr>)"

lemma put_stamp_active:
  assumes "active w = head_encode (wl_head w) (wl_origin w) @ z"
  shows "active (put_stamp to w) = head_encode (stamped to (wl_head w)) (wl_origin w) @ z"
    "wl_head (put_stamp to w) = stamped to (wl_head w)"
  using assms stamp_rewrites by (auto simp: put_stamp_def stamped_def Let_def)

lemma put_stamp_fields [simp]:
  "wl_origin (put_stamp to w) = wl_origin w" "wl_len (put_stamp to w) = wl_len w" "wl_space (put_stamp to w) = wl_space w" "dir_ok w \<Longrightarrow> dir_ok (put_stamp to w)"
  by (auto simp: put_stamp_def Let_def dir_ok_def set_active_def seg_list_update dom_update)

lemma put_stamp_ok: "log_ok w bs \<Longrightarrow> log_ok (put_stamp to w) bs"
  using put_stamp_active [of w "frames bs" to] by (simp add: log_ok_def)

section \<open>Opening after a crash\<close>

lemma unat_pos: "unat (o1 :: u64) + a \<le> usize_max \<Longrightarrow> unat (o1 + of_nat a) = unat o1 + a"
  by (simp add: unat_word_ariths(1) unat_of_nat_u64 usize_max_def)

lemma seg_at_pos:
  assumes "unat (sg_origin s) + a + SEG_HEADER_LEN \<le> usize_max"
  shows "seg_at s (sg_origin s + of_nat a) = SEG_HEADER_LEN + a"
proof -
  have "unat (sg_origin s + of_nat a) = unat (sg_origin s) + a" using assms by (intro unat_pos) simp
  then have "\<not> sg_origin s + of_nat a < sg_origin s" by (simp add: word_less_nat_alt)
  then have "seg_at s (sg_origin s + of_nat a) = unat (of_nat (a + SEG_HEADER_LEN) :: u64)" by (simp add: seg_at_def)
  also have "\<dots> = a + SEG_HEADER_LEN" using assms by (intro unat_of_nat_u64) (simp add: usize_max_def)
  finally show ?thesis by simp
qed

lemma extent_less: "n < j \<Longrightarrow> j \<le> length bs \<Longrightarrow> extent n bs < extent j bs"
  using extent_mono [of "Suc n" j bs] extent_Suc [of n bs] frame_pos [of "bs ! n"] by (simp del: length_greater_0_conv)

lemma run_scan: "\<exists>sc. run_frames scan_visit p bs sc0 = Inr sc"
proof (induction bs arbitrary: p sc0)
  case (Cons b bs)
  have "\<exists>sc. scan_visit p b sc0 = Inr sc" by (simp add: scan_visit_def Let_def)
  then show ?case using Cons by (auto simp: rbind_def)
qed simp

text \<open>The stamp that opening writes is one of the records that are left.\<close>

lemma stamp_ok_cut:
  assumes st: "stamp_ok o1 h bs syn" and syn: "syn \<le> k" and size: "unat o1 + length (frames bs) \<le> usize_max"
  defines "n \<equiv> intact k bs"
  shows "stamp_ok o1 (stamped (min (o1 + of_nat (extent n bs)) (h_durable h)) h) (take n bs) (extent n bs)"
proof -
  from st obtain i j where ij: "i \<le> j" "j \<le> length bs" "h_durable h = o1 + of_nat (extent j bs)" "h_acked h = o1 + of_nat (extent i bs)"
    "extent i bs \<le> syn" "unat (h_carry_len h) \<le> extent i bs" by (auto simp: stamp_ok_def)
  have len: "extent m bs \<le> length (frames bs)" for m using extent_mono [of m "max m (length bs)" bs] by simp
  have p: "unat (o1 + of_nat (extent m bs)) = unat o1 + extent m bs" for m using size len [of m] by (intro unat_pos) simp
  have i: "extent i bs \<le> extent n bs" unfolding n_def using ij(5) syn by (intro extent_intact) simp
  have within: "m \<le> n" if "extent m bs \<le> extent n bs" "m \<le> length bs" for m using that extent_less [of n m bs] by (meson leD leI)
  have n: "n \<le> length bs" unfolding n_def by (rule intact_le)
  have "i \<le> n" using within [OF i] ij(1,2) by simp
  have cut: "m \<le> n \<Longrightarrow> extent m (take n bs) = extent m bs" for m by (simp add: min_def)
  show ?thesis
  proof (cases "extent j bs \<le> extent n bs")
    case True
    then have "min (o1 + of_nat (extent n bs)) (h_durable h) = h_durable h" using p by (simp add: ij(3) min_def word_le_nat_alt)
    then show ?thesis using True ij i n \<open>i \<le> n\<close> within cut unfolding stamp_ok_def stamped_def
      by (intro exI [of _ i] exI [of _ j]) auto
  next
    case False
    then have lt: "o1 + of_nat (extent n bs) < h_durable h" using p by (simp add: ij(3) word_less_nat_alt)
    moreover have "min (h_acked h) (o1 + of_nat (extent n bs)) = h_acked h" using i p by (simp add: ij(4) min_def word_le_nat_alt)
    ultimately have "stamped (min (o1 + of_nat (extent n bs)) (h_durable h)) h = h\<lparr>h_acked := h_acked h, h_durable := o1 + of_nat (extent n bs)\<rparr>"
      by (simp add: stamped_def min_def)
    then show ?thesis using ij i n \<open>i \<le> n\<close> cut unfolding stamp_ok_def
      by (intro exI [of _ i] exI [of _ n]) auto
  qed
qed

lemma open_image:
  assumes img: "map_of img (seg_name o1) = Some b" "b = head_encode h o1 @ take k (frames bs) @ replicate m 0"
    "seg_list img \<noteq> []" "last (seg_list img) = o1"
    and st: "stamp_ok o1 h bs syn" "syn \<le> k" "k \<le> length (frames bs)"
    and size: "unat o1 + length (frames bs) + m + SEG_HEADER_LEN \<le> usize_max"
    and torn: "m = 0 \<or> (\<forall>x. read_framed (behind (head_encode h o1 @ frames (take (intact k bs) bs)) b) \<noteq> Inr x)"
  defines "n \<equiv> intact k bs"
  shows "\<exists>w nc'. wal_open img nc = Inr (w, nc') \<and> log_ok w (take n bs) \<and> wl_origin w = o1
    \<and> (h_durable (wl_head w) \<le> wl_len w \<longrightarrow> stamp_ok o1 (wl_head w) (take n bs) (extent n bs))
    \<and> (length b = SEG_HEADER_LEN + extent n bs \<longrightarrow> wl_head w = h) \<and> wl_space w = None"
proof -
  from st(1) obtain i j where ij: "j \<le> length bs" "h_durable h = o1 + of_nat (extent j bs)" "h_acked h = o1 + of_nat (extent i bs)"
    "extent i bs \<le> syn" "unat (h_carry_len h) \<le> extent i bs" by (auto simp: stamp_ok_def)
  have len: "extent m bs \<le> length (frames bs)" for m using extent_mono [of m "max m (length bs)" bs] by simp
  let ?s = "\<lparr>sg_origin = o1, sg_head = h, sg_trusted = True, sg_sealed = False, sg_buf = b\<rparr>"
  have lb: "length b \<le> usize_max" using size st(3) by (simp add: img(2))
  have "read_head b o1 = Inr (h, True)" using read_head_encode [of h o1 "take k (frames bs) @ replicate m 0" o1] lb by (simp add: img(2))
  moreover have "\<not> unat (h_carry_len h) > length b - SEG_HEADER_LEN" using ij(4,5) st(2,3) by (simp add: img(2))
  ultimately have load: "seg_load img o1 False = Inr ?s" using img(1) by (simp add: seg_load_def read_file_def seg_of_def)
  have at: "seg_at ?s (o1 + of_nat (extent m bs)) = SEG_HEADER_LEN + extent m bs" for m
    using seg_at_pos [of ?s "extent m bs"] size len [of m] by simp
  have walk: "walk_seg ?s 0 scan_visit sc = rbind (run_frames scan_visit SEG_HEADER_LEN (take n bs) sc) (\<lambda>st. Inr (SEG_HEADER_LEN + extent n bs, st))" for sc
    unfolding n_def
    by (rule walk_seg_cut [where hb = "head_encode h o1" and m = m and j = j and i = i])
      (use size at ij st(2) torn in \<open>simp_all add: img(2)\<close>)
  obtain sc where sc: "scan ?s = Inr sc" "sc_good sc = SEG_HEADER_LEN + extent n bs"
    using run_scan [of SEG_HEADER_LEN "take n bs" "\<lparr>sc_good = SEG_HEADER_LEN, sc_next_seq = 0, sc_decides = False, sc_dirty = False, sc_span = span_default\<rparr>"]
    by (auto simp: scan_def walk)
  define w0 where "w0 = \<lparr>wl_dir = img, wl_origin = o1, wl_len = seg_stream_end ?s, wl_head = h, wl_folded = o1,
      wl_next_seq = max (h_next_seq h) (sc_next_seq sc), wl_open_groups = 0, wl_decides = sc_decides sc,
      wl_span = sc_span sc, wl_dirty = sc_dirty sc, wl_sealed = butlast (seg_list img), wl_space = None\<rparr>"
  let ?keep = "o1 + of_nat (extent n bs)"
  define w1 where "w1 = (set_active (take (sc_good sc) b) w0)\<lparr>wl_len := ?keep\<rparr>"
  have keep: "o1 + of_nat (sc_good sc) - of_nat SEG_HEADER_LEN = ?keep" by (simp add: sc(2))
  have d0: "dir_ok w0" using map_of_SomeD [OF img(1)] img(4) by (force simp: w0_def dir_ok_def)
  have a0: "active w0 = b" by (simp add: w0_def active_def img(1))
  have cut: "take (sc_good sc) b = head_encode h o1 @ frames (take n bs)"
    using intact_cut(1) [of k bs] by (simp add: img(2) sc(2) n_def)
  have op: "\<exists>nc'. wal_open img nc = Inr (if sc_good sc < length b then put_stamp (min ?keep (h_durable h)) w1 else w0, nc')"
    using img(3,4) load sc(1) unfolding wal_open_def Let_def
    by (simp add: keep flip: w0_def) (simp add: w1_def w0_def active_def img(1) set_active_def)
  have l1: "log_ok w1 (take n bs)" "wl_head w1 = h"
    using dir_ok_set [OF d0, of "take (sc_good sc) b"] cut size len [of n] by (simp_all add: log_ok_def w1_def) (simp_all add: w0_def)
  show ?thesis
  proof (cases "sc_good sc < length b")
    case True
    have "wl_head (put_stamp (min ?keep (h_durable h)) w1) = stamped (min ?keep (h_durable h)) h"
      using put_stamp_active(2) [of w1 "frames (take n bs)"] l1 by (simp add: log_ok_def)
    moreover have "stamp_ok o1 (stamped (min ?keep (h_durable h)) h) (take n bs) (extent n bs)"
      unfolding n_def using size by (intro stamp_ok_cut [OF st(1,2)]) simp
    moreover have "wl_origin w1 = o1" "wl_space w1 = None" by (simp_all add: w1_def w0_def)
    ultimately show ?thesis using op True put_stamp_ok [OF l1(1), of "min ?keep (h_durable h)"] sc(2) by auto
  next
    case False
    then have b: "b = head_encode h o1 @ frames (take n bs)" using cut by simp
    then have "log_ok w0 (take n bs)" using d0 a0 size len [of n] by (simp add: log_ok_def w0_def seg_stream_end_def)
    moreover have "stamp_ok o1 h (take n bs) (extent n bs)" if "h_durable h \<le> ?keep"
      using stamp_ok_cut [OF st(1,2)] size that by (simp add: n_def min_def stamped_def split: if_splits)
    moreover have "wl_len w0 = ?keep" "wl_origin w0 = o1" "wl_head w0 = h" "wl_space w0 = None" using b by (simp_all add: w0_def seg_stream_end_def)
    ultimately show ?thesis using op False by auto
  qed
qed

section \<open>What a session does to a log\<close>

text \<open>
  The state is the handle, the header that is on the disk for certain, and the number of bytes behind the header that are. A crash leaves
  one of the two headers, at least those bytes, any more of what was appended, and perhaps a run of zeros behind it; no frame reaches into the zeros.
\<close>

definition crash_image :: "wal \<Rightarrow> head \<Rightarrow> nat \<Rightarrow> wal_dir \<Rightarrow> bool" where
  "crash_image w h0 syn img \<longleftrightarrow> (\<exists>h k m b. h \<in> {h0, wl_head w} \<and> syn \<le> k \<and> k \<le> length (active w) - SEG_HEADER_LEN
     \<and> b = head_encode h (wl_origin w) @ take k (drop SEG_HEADER_LEN (active w)) @ replicate m 0
     \<and> img = AList.update (seg_name (wl_origin w)) b (wl_dir w) \<and> unat (wl_origin w) + length (active w) + m \<le> usize_max
     \<and> (\<forall>p body r. read_framed \<lparr>buf = b, pos = p\<rparr> = Inr (body, r) \<longrightarrow> pos r \<le> SEG_HEADER_LEN + k))"

definition has_room :: "wal \<Rightarrow> bool" where
  "has_room w \<longleftrightarrow> unat (wl_origin w) + length (active w) \<le> usize_max"

inductive log_step :: "wal \<times> head \<times> nat \<Rightarrow> wal \<times> head \<times> nat \<Rightarrow> bool" where
  log_insert: "put_insert seq b w = (Inr l, w') \<Longrightarrow> has_room w' \<Longrightarrow> log_step (w, h, n) (w', h, n)"
| log_deletes: "put_deletes seq ls w = (Inr l, w') \<Longrightarrow> has_room w' \<Longrightarrow> log_step (w, h, n) (w', h, n)"
| log_masks: "append_masks seq m w = (Inr l, w') \<Longrightarrow> has_room w' \<Longrightarrow> log_step (w, h, n) (w', h, n)"
| log_commit: "wal_commit s w = (Inr l, w') \<Longrightarrow> has_room w' \<Longrightarrow> log_step (w, h, n) (w', h, n)"
| log_prepare: "wal_prepare s (Inr rel) c w = (Inr l, w') \<Longrightarrow> has_room w' \<Longrightarrow> log_step (w, h, n) (w', h, n)"
| log_decide: "wal_decide s w = (Inr l, w') \<Longrightarrow> has_room w' \<Longrightarrow> log_step (w, h, n) (w', h, n)"
| log_begin: "wal_begin w = (s, w') \<Longrightarrow> log_step (w, h, n) (w', h, n)"
| log_drop: "log_step (w, h, n) (drop_group w, h, n)"
| log_sync: "wal_sync now nc w = (Inr (), w', nc') \<Longrightarrow> has_room w' \<Longrightarrow> log_step (w, h, n) (w', wl_head w', length (active w') - SEG_HEADER_LEN)"
| log_crash: "crash_image w h n img \<Longrightarrow> wal_open img nc = Inr (w', nc') \<Longrightarrow> h_durable (wl_head w') \<le> wl_len w' \<Longrightarrow>
    log_step (w, h, n) (w', wl_head w', length (active w') - SEG_HEADER_LEN)"

definition log_inv :: "wal \<times> head \<times> nat \<Rightarrow> bytes list \<Rightarrow> bool" where
  "log_inv st bs \<longleftrightarrow> (case st of (w, h, syn) \<Rightarrow> log_ok w bs \<and> stamp_ok (wl_origin w) (wl_head w) bs syn \<and> stamp_ok (wl_origin w) h bs syn
     \<and> (\<exists>q \<le> length bs. syn = extent q bs))"

lemma torn_read:
  assumes "j < length (frame b)" "length (w @ frame b) \<le> usize_max" "read_framed (behind w (w @ take j (frame b) @ z)) = Inr (b', r)"
  shows "length w + j < pos r"
proof (rule ccontr)
  assume "\<not> ?thesis"
  with read_framed_advances [OF assms(3)] have "take (length (frame b')) (take j (frame b)) = frame b'" "length (frame b') \<le> j"
    using assms(1) by (auto simp: slice_def)
  then have "frame b' @ drop (length (frame b')) (frame b) = frame b @ []"
    by (metis append.right_neutral append_take_drop_id min.absorb1 take_take)
  from frame_codec.prefix_free(1) [OF this] have "b' = b" using assms \<open>length (frame b') \<le> j\<close> by simp
  with assms(1) \<open>length (frame b') \<le> j\<close> show False by simp
qed

text \<open>A crash of a sound log opens as the records that are whole.\<close>

lemma crash_opens:
  assumes inv: "log_inv (w, h0, syn) bs" and img: "crash_image w h0 syn img"
  shows "\<exists>w' nc' n. wal_open img nc = Inr (w', nc') \<and> n \<le> length bs \<and> syn \<le> extent n bs \<and> log_ok w' (take n bs) \<and> wl_origin w' = wl_origin w
    \<and> (h_durable (wl_head w') \<le> wl_len w' \<longrightarrow> stamp_ok (wl_origin w) (wl_head w') (take n bs) (extent n bs))"
proof -
  let ?o = "wl_origin w"
  have ok: "dir_ok w" "active w = head_encode (wl_head w) ?o @ frames bs" "unat ?o + length (frames bs) + SEG_HEADER_LEN \<le> usize_max"
    and st: "stamp_ok ?o (wl_head w) bs syn" "stamp_ok ?o h0 bs syn" and q: "\<exists>q \<le> length bs. syn = extent q bs"
    using inv by (auto simp: log_inv_def log_ok_def)
  from img obtain h k m b where h: "h \<in> {h0, wl_head w}" and k0: "syn \<le> k" "k \<le> length (active w) - SEG_HEADER_LEN"
    and b0: "b = head_encode h ?o @ take k (drop SEG_HEADER_LEN (active w)) @ replicate m 0"
    and im: "img = AList.update (seg_name ?o) b (wl_dir w)" and size0: "unat ?o + length (active w) + m \<le> usize_max"
    and z: "\<forall>p body r. read_framed \<lparr>buf = b, pos = p\<rparr> = Inr (body, r) \<longrightarrow> pos r \<le> SEG_HEADER_LEN + k"
    unfolding crash_image_def by blast
  have k: "syn \<le> k" "k \<le> length (frames bs)" and b: "b = head_encode h ?o @ take k (frames bs) @ replicate m 0"
    and size: "unat ?o + length (frames bs) + m + SEG_HEADER_LEN \<le> usize_max"
    using k0 b0 size0 by (simp_all add: ok(2))
  let ?n = "intact k bs" let ?w = "head_encode h ?o @ frames (take ?n bs)"
  have len: "extent m bs \<le> length (frames bs)" for m using extent_mono [of m "max m (length bs)" bs] by simp
  have "read_framed (behind ?w b) \<noteq> Inr x" for x
  proof
    assume "read_framed (behind ?w b) = Inr x"
    then obtain body r where r: "read_framed (behind ?w b) = Inr (body, r)" "pos r \<le> SEG_HEADER_LEN + k" using z by (cases x) auto
    show False
    proof (cases "?n < length bs")
      case True
      let ?j = "k - extent ?n bs"
      have "b = ?w @ take ?j (frame (bs ! ?n)) @ replicate m 0" using intact_cut(1) [of k bs] True by (simp add: b)
      moreover have "length (?w @ frame (bs ! ?n)) \<le> usize_max" using extent_Suc [OF True] len [of "Suc ?n"] ok(3) by simp
      ultimately have "length ?w + ?j < pos r" using torn_read [OF intact_cut(2) [OF True]] r(1) by metis
      then show False using r(2) intact_le(2) [of k bs] by simp
    next
      case False
      then have "k = extent ?n bs" using k(2) intact_le [of k bs] by simp
      then show False using read_framed_advances(3) [OF r(1)] r(2) frame_pos [of body] by (simp del: length_greater_0_conv)
    qed
  qed
  then have torn: "m = 0 \<or> (\<forall>x. read_framed (behind ?w b) \<noteq> Inr x)" by blast
  have o1: "map_of img (seg_name ?o) = Some b" "seg_list img = seg_list (wl_dir w)" using ok(1) by (simp_all add: im update_conv' seg_list_update dir_ok_def)
  have "seg_list (wl_dir w) \<noteq> []" using ok(1) seg_list_mem [of ?o "wl_dir w"] by (auto simp: dir_ok_def)
  with o1 ok(1) have sl: "seg_list img \<noteq> []" "last (seg_list img) = ?o" by (simp_all add: dir_ok_def)
  have "stamp_ok ?o h bs syn" using h st by auto
  from open_image [OF o1(1) b sl this k size torn] obtain w' nc' where "wal_open img nc = Inr (w', nc')" "log_ok w' (take ?n bs)" "wl_origin w' = ?o"
    "h_durable (wl_head w') \<le> wl_len w' \<longrightarrow> stamp_ok ?o (wl_head w') (take ?n bs) (extent ?n bs)" by blast
  moreover have "syn \<le> extent ?n bs" using q k(1) by (auto intro: extent_intact)
  ultimately show ?thesis using intact_le(1) by blast
qed

lemma log_inv_appended:
  assumes "log_inv (w, h, n) bs" "appended w cs w'" "has_room w'"
  shows "log_inv (w', h, n) (bs @ cs)"
proof -
  have "log_ok w' (bs @ cs)"
    using assms by (intro log_ok_appended [of w]) (auto simp: log_inv_def has_room_def appended_def log_ok_def)
  moreover obtain q where "q \<le> length bs" "n = extent q bs" using assms(1) by (auto simp: log_inv_def)
  then have "\<exists>q \<le> length (bs @ cs). n = extent q (bs @ cs)" by (intro exI [of _ q]) simp
  ultimately show ?thesis using assms(1,2) by (auto simp: log_inv_def appended_def intro: stamp_ok_extend)
qed

lemma log_inv_group: "log_inv (w, h, n) bs \<Longrightarrow> log_inv (close_group w, h, n) bs"
  "log_inv (w, h, n) bs \<Longrightarrow> log_inv (w\<lparr>wl_next_seq := s, wl_open_groups := g\<rparr>, h, n) bs"
  by (simp_all add: log_inv_def log_ok_def close_group_def active_def dir_ok_def)

lemma log_inv_stamped:
  assumes "log_inv (w, h, n) bs"
  shows "log_inv (put_stamp (wl_len w) w, wl_head (put_stamp (wl_len w) w), length (frames bs)) bs"
proof -
  let ?o = "wl_origin w" and ?h = "wl_head w" and ?l = "length (frames bs)"
  have ok: "log_ok w bs" "wl_len w = ?o + of_nat ?l" "unat ?o + ?l \<le> usize_max" using assms by (auto simp: log_inv_def log_ok_def)
  obtain i j where ij: "i \<le> j" "j \<le> length bs" "h_durable ?h = ?o + of_nat (extent j bs)" "h_acked ?h = ?o + of_nat (extent i bs)"
    "unat (h_carry_len ?h) \<le> extent i bs" using assms by (auto simp: log_inv_def stamp_ok_def)
  have e: "extent i bs \<le> extent j bs" "extent j bs \<le> ?l" using extent_mono [OF ij(1), of bs] extent_mono [OF ij(2), of bs] by auto
  have "unat (?o + of_nat (extent j bs)) = unat ?o + extent j bs" "unat (?o + of_nat ?l) = unat ?o + ?l" using ok(3) e by (auto intro!: unat_pos)
  then have "\<not> wl_len w < h_durable ?h" using e by (simp add: ok(2) ij(3) word_less_nat_alt)
  then have hd: "wl_head (put_stamp (wl_len w) w) = (if wl_len w = h_durable ?h then ?h else ?h\<lparr>h_acked := h_durable ?h, h_durable := wl_len w\<rparr>)"
    using put_stamp_active(2) [of w "frames bs" "wl_len w"] ok(1) by (auto simp: log_ok_def stamped_def)
  have "stamp_ok ?o (wl_head (put_stamp (wl_len w) w)) bs ?l"
  proof (cases "wl_len w = h_durable ?h")
    case True
    then show ?thesis using ij e unfolding hd stamp_ok_def by (intro exI [of _ i] exI [of _ j]) simp
  next
    case False
    then show ?thesis using ij e ok(2) unfolding hd stamp_ok_def by (intro exI [of _ j] exI [of _ "length bs"]) simp
  qed
  moreover have "\<exists>q \<le> length bs. ?l = extent q bs" by (intro exI [of _ "length bs"]) simp
  ultimately show ?thesis using put_stamp_ok [OF ok(1)] by (simp add: log_inv_def)
qed

lemma sync_inv:
  assumes "log_inv (w, h, n) bs" "wal_sync now nc w = (Inr (), w', nc')" "has_room w'"
  shows "\<exists>cs. log_inv (w', wl_head w', length (active w') - SEG_HEADER_LEN) (bs @ cs)"
proof (cases "wl_dirty w")
  case True
  then obtain w1 where w1: "wal_tick now nc w = (Inr (), w1, nc')" "w' = put_stamp (wl_len w1) w1"
    using assms(2) by (auto simp: wal_sync_def stage_sync_def split: prod.splits sum.splits)
  obtain ms where ap: "appended w [tick_body nc ms] w1" using wal_tick_ok [OF w1(1)] by blast
  have "active w1 = head_encode (wl_head w1) (wl_origin w1) @ frames (bs @ [tick_body nc ms])" using ap assms(1) by (simp add: appended_def log_inv_def log_ok_def)
  then have a: "active w' = head_encode (wl_head w') (wl_origin w1) @ frames (bs @ [tick_body nc ms])" using put_stamp_active w1(2) by simp
  have "has_room w1" using assms(3) w1(2) a \<open>active w1 = _\<close> by (simp add: has_room_def)
  from log_inv_stamped [OF log_inv_appended [OF assms(1) ap this]] a w1(2) show ?thesis by auto
next
  case False
  then have w': "w' = put_stamp (wl_len w) w" using assms(2) by (simp add: wal_sync_def stage_sync_def)
  have "active w = head_encode (wl_head w) (wl_origin w) @ frames bs" using assms(1) by (simp add: log_inv_def log_ok_def)
  from put_stamp_active [OF this] log_inv_stamped [OF assms(1)] w' show ?thesis by (intro exI [of _ "[]"]) simp
qed

text \<open>One step keeps the invariant and every record behind a completed sync.\<close>

lemma log_step_inv:
  assumes "log_step s s'" "log_inv s bs"
  shows "\<exists>bs'. log_inv s' bs' \<and> (\<forall>q. extent q bs = snd (snd s) \<and> q \<le> length bs \<longrightarrow> q \<le> length bs' \<and> take q bs' = take q bs \<and> extent q bs \<le> snd (snd s'))"
proof -
  have grow: "\<exists>bs'. log_inv (w', h, n) bs' \<and> (\<forall>q. extent q bs = n \<and> q \<le> length bs \<longrightarrow> q \<le> length bs' \<and> take q bs' = take q bs \<and> extent q bs \<le> n)"
    if "log_inv (w, h, n) bs" "appended w cs w'" "has_room w'" for w h n w' cs
    using log_inv_appended [OF that] by (intro exI [of _ "bs @ cs"]) simp
  show ?thesis using assms
  proof cases
    case (log_sync now nc w w' nc' h n)
    from sync_inv [of w h n bs now nc w' nc'] log_sync assms(2) obtain cs where cs: "log_inv s' (bs @ cs)" by auto
    moreover have "length (active w') - SEG_HEADER_LEN = length (frames (bs @ cs))" using cs log_sync(2) by (simp add: log_inv_def log_ok_def)
    moreover have "extent q bs \<le> length (frames bs)" for q using extent_mono [of q "max q (length bs)" bs] by simp
    ultimately show ?thesis using log_sync(2) by (intro exI [of _ "bs @ cs"]) (simp, metis trans_le_add1)
  next
    case (log_crash w h n img nc w' nc')
    from crash_opens [of w h n bs img nc] log_crash assms(2) obtain m where m: "m \<le> length bs" "n \<le> extent m bs" "log_ok w' (take m bs)"
      "wl_origin w' = wl_origin w" "stamp_ok (wl_origin w) (wl_head w') (take m bs) (extent m bs)" by auto
    have l: "length (active w') - SEG_HEADER_LEN = extent m bs" using m(3) by (simp add: log_ok_def)
    have "log_inv s' (take m bs)" using m l log_crash(2) by (auto simp: log_inv_def intro!: exI [of _ m])
    moreover have "q \<le> m" if "extent q bs = n" "q \<le> length bs" for q using that m(2) extent_less [of m q bs] by (meson leD leI)
    ultimately show ?thesis using log_crash(1,2) l m(1,2) by (intro exI [of _ "take m bs"]) (auto simp: min_def)
  next
    case (log_insert seq b w l w' h n)
    then show ?thesis using grow [of w h n "[insert_body seq b]" w'] put_insert_ok [of seq b w l w'] assms(2) by auto
  next
    case (log_deletes seq ls w l w' h n)
    then show ?thesis using grow [of w h n "delete_bodies seq ls" w'] put_deletes_ok [of seq ls w l w'] assms(2) by auto
  next
    case (log_masks seq m w l w' h n)
    then show ?thesis using grow [of w h n "mask_bodies seq m" w'] append_masks_ok [of seq m w l w'] assms(2) by auto
  next
    case (log_commit c w l w' h n)
    then show ?thesis using grow [of w h n "[marker_body TAG_COMMIT c]" w'] marker_ok(1) [of c w l w'] assms(2) by auto
  next
    case (log_prepare q rel c w l w' h n)
    then show ?thesis using grow [of w h n "[prepare_body q c rel]" w'] marker_ok(3) [of q rel c w l w'] assms(2) by auto
  next
    case (log_decide c w l w' h n)
    then show ?thesis using grow [of w h n "[marker_body TAG_DECIDE c]" w'] marker_ok(2) [of c w l w'] assms(2) by auto
  qed (use assms(2) log_inv_group in \<open>auto simp: wal_begin_def drop_group_def intro!: exI [of _ bs]\<close>)
qed

lemma log_steps_inv:
  assumes "log_step\<^sup>*\<^sup>* s s'" "log_inv s bs" "extent q bs \<le> snd (snd s)" "q \<le> length bs"
  shows "\<exists>bs'. log_inv s' bs' \<and> q \<le> length bs' \<and> take q bs' = take q bs \<and> extent q bs \<le> snd (snd s')"
  using assms
proof (induction rule: rtranclp_induct)
  case (step s1 s2)
  then obtain b1 where b1: "log_inv s1 b1" "q \<le> length b1" "take q b1 = take q bs" "extent q bs \<le> snd (snd s1)" by auto
  from log_step_inv [OF step(2) b1(1)] obtain b2 where b2: "log_inv s2 b2"
    "\<forall>p. extent p b1 = snd (snd s1) \<and> p \<le> length b1 \<longrightarrow> p \<le> length b2 \<and> take p b2 = take p b1 \<and> extent p b1 \<le> snd (snd s2)" by blast
  obtain p where p: "p \<le> length b1" "snd (snd s1) = extent p b1" using b1(1) by (auto simp: log_inv_def split: prod.splits)
  have "q \<le> p" using p b1 extent_less [of p q b1] by (metis leD leI)
  have p2: "p \<le> length b2" "take p b2 = take p b1" "extent p b1 \<le> snd (snd s2)" using b2(2) p by auto
  then have "take q b2 = take q b1" using \<open>q \<le> p\<close> by (metis min.absorb1 take_take)
  moreover have "extent q bs \<le> snd (snd s2)" using extent_mono [OF \<open>q \<le> p\<close>, of b1] b1(3) p2(3) by simp
  ultimately show ?case using b1(3) b2(1) p2(1) \<open>q \<le> p\<close> by (intro exI [of _ b2]) simp
qed auto

text \<open>A log created in an empty directory.\<close>

lemma open_empty:
  assumes "wal_open [] nc = Inr (w, nc')"
  shows "log_inv (w, wl_head w, 0) []"
proof -
  let ?b = "head_encode head_default 0" let ?d = "[(seg_name 0, ?b)]"
  have sl: "seg_list [(seg_name 0, b)] = [0]" "seg_list [] = []" for b by (simp_all add: seg_list_def List.map_filter_def parse_seg_name)
  have st: "stamp_ok 0 head_default [] 0" by (simp add: stamp_ok_def head_default_def)
  have "\<exists>w nc'. wal_open ?d nc = Inr (w, nc') \<and> log_ok w (take (intact 0 []) []) \<and> wl_origin w = 0
    \<and> (h_durable (wl_head w) \<le> wl_len w \<longrightarrow> stamp_ok 0 (wl_head w) (take (intact 0 []) []) (extent (intact 0 []) []))
    \<and> (length ?b = SEG_HEADER_LEN + extent (intact 0 []) [] \<longrightarrow> wl_head w = head_default) \<and> wl_space w = None"
    by (rule open_image [OF _ _ _ _ st, where m = 0]) (simp_all add: sl SEG_HEADER_LEN_def usize_max_def)
  moreover have "wal_open [] nc = wal_open ?d nc" by (simp only: wal_open_def sl Let_def AList.update.simps list.distinct if_True if_False simp_thms)
  ultimately have "log_ok w []" "wl_head w = head_default" "wl_origin w = 0" using assms by auto
  then show ?thesis using st by (simp add: log_inv_def)
qed

section \<open>Rewinding and rolling\<close>

text \<open>A rewind to the start of a record keeps exactly the records before it.\<close>

lemma rewind_keeps_prefix:
  assumes ok: "log_ok w bs" and q: "q \<le> length bs" and floor: "unat (h_carry_len (wl_head w)) \<le> extent q bs"
  shows "\<exists>w'. rewind_to (wl_origin w + of_nat (extent q bs)) w = (Inr (), w') \<and> log_ok w' (take q bs) \<and> wl_origin w' = wl_origin w"
proof -
  let ?o = "wl_origin w" and ?x = "extent q bs" and ?c = "close_group w"
  have c: "log_ok ?c bs" "wl_origin ?c = ?o" "wl_head ?c = wl_head w" "active ?c = active w"
    using ok by (simp_all add: log_ok_def close_group_def active_def dir_ok_def)
  have x: "?x \<le> length (frames bs)" using extent_mono [of q "length bs" bs] q by simp
  have room: "unat ?o + length (frames bs) + SEG_HEADER_LEN \<le> usize_max" using ok by (simp add: log_ok_def)
  have at: "unat (?o + of_nat ?x) = unat ?o + ?x" using room x by (intro unat_pos) simp
  have len: "unat (wl_len w) = unat ?o + length (frames bs)" using ok room by (simp add: log_ok_def unat_pos)
  have up: "\<not> ?o + of_nat ?x < ?o + ucast (h_carry_len (wl_head w))"
  proof -
    have "ucast (h_carry_len (wl_head w)) = (of_nat (unat (h_carry_len (wl_head w))) :: u64)" by (rule of_nat_unat [symmetric])
    then have "unat (?o + ucast (h_carry_len (wl_head w))) = unat ?o + unat (h_carry_len (wl_head w))"
      using unat_pos [of ?o "unat (h_carry_len (wl_head w))"] room x floor by simp
    then show ?thesis using at floor by (simp add: word_less_nat_alt)
  qed
  show ?thesis
  proof (cases "?o + of_nat ?x \<ge> wl_len w")
    case True
    then have "?x = length (frames bs)" using at len x by (simp add: word_le_nat_alt)
    then have "take q bs = bs" using extent_less [of q "length bs" bs] q by (cases "q < length bs") auto
    then show ?thesis using True c by (simp add: rewind_to_def Let_def close_group_def)
  next
    case False
    let ?w = "(set_active (take (SEG_HEADER_LEN + ?x) (active ?c)) ?c)\<lparr>wl_len := ?o + of_nat ?x\<rparr>"
    have "unat (of_nat ?x + of_nat SEG_HEADER_LEN :: u64) = SEG_HEADER_LEN + ?x"
      using unat_of_nat_u64 [of "?x + SEG_HEADER_LEN"] room x by (simp add: usize_max_def)
    then have "rewind_to (?o + of_nat ?x) w = (Inr (), put_stamp (min (h_durable (wl_head w)) (?o + of_nat ?x)) ?w)"
      using False up c by (simp add: rewind_to_def Let_def close_group_def)
    moreover have "take (SEG_HEADER_LEN + ?x) (active ?c) = head_encode (wl_head w) ?o @ frames (take q bs)"
      using ok c(4) by (simp add: log_ok_def) (metis append_take_drop_id append_eq_conv_conj frames_simps(3))
    then have "log_ok ?w (take q bs)"
      using c ok x by (simp add: log_ok_def)
    ultimately show ?thesis using put_stamp_ok [of ?w "take q bs"] c by auto
  qed
qed

text \<open>Retention drops the oldest sealed segments only, each of them ending at or before what is folded into parts, and leaves every other file alone.\<close>

lemma prune_loop_drops:
  "\<exists>k. fst (prune_loop budget tot o1 folded os dir) = drop k os
     \<and> (\<forall>nm. nm \<notin> seg_name ` set (take k os) \<longrightarrow> map_of (snd (prune_loop budget tot o1 folded os dir)) nm = map_of dir nm)
     \<and> (\<forall>i < k. i < length os \<longrightarrow> (if Suc i < length os then os ! Suc i else o1) \<le> folded)"
proof (induction budget tot o1 folded os dir rule: prune_loop.induct)
  case (2 budget tot o1 folded o2 os dir)
  let ?fin = "case os of o3 # _ \<Rightarrow> o3 | [] \<Rightarrow> o1"
  show ?case
  proof (cases "(tot > budget \<or> length (o2 # os) > MAX_SEGMENTS) \<and> \<not> ?fin > folded \<and> map_of dir (seg_name o2) \<noteq> None")
    case True
    let ?r = "prune_loop budget (tot - (of_nat SEG_HEADER_LEN + (?fin - o2))) o1 folded os (AList.delete (seg_name o2) dir)"
    have eq: "prune_loop budget tot o1 folded (o2 # os) dir = ?r" using True by (subst prune_loop.simps(2)) (auto simp: Let_def)
    have "\<exists>k. fst ?r = drop k os \<and> (\<forall>nm. nm \<notin> seg_name ` set (take k os) \<longrightarrow> map_of (snd ?r) nm = map_of (AList.delete (seg_name o2) dir) nm)
        \<and> (\<forall>i < k. i < length os \<longrightarrow> (if Suc i < length os then os ! Suc i else o1) \<le> folded)"
      using True by (intro 2) auto
    then obtain k where k: "fst ?r = drop k os" "\<And>nm. nm \<notin> seg_name ` set (take k os) \<Longrightarrow> map_of (snd ?r) nm = map_of (AList.delete (seg_name o2) dir) nm"
        "\<And>i. i < k \<Longrightarrow> i < length os \<Longrightarrow> (if Suc i < length os then os ! Suc i else o1) \<le> folded" by blast
    have "(if Suc i < length (o2 # os) then (o2 # os) ! Suc i else o1) \<le> folded" if "i < Suc k" "i < length (o2 # os)" for i
      using that k(3) [of "i - 1"] True by (cases i) (auto split: list.splits)
    then show ?thesis unfolding eq using k(1,2) by (intro exI [of _ "Suc k"]) (auto simp: delete_conv')
  next
    case False
    then have "prune_loop budget tot o1 folded (o2 # os) dir = (o2 # os, dir)" by (subst prune_loop.simps(2)) (auto simp: Let_def)
    then show ?thesis by (intro exI [of _ 0]) simp
  qed
qed (simp add: prune_loop.simps)

lemma prune_active: "wl_origin w \<notin> set (wl_sealed w) \<Longrightarrow> active (prune budget w) = active w"
proof -
  assume "wl_origin w \<notin> set (wl_sealed w)"
  then have "seg_name (wl_origin w) \<notin> seg_name ` set (take k (wl_sealed w))" for k
    using seg_name_inj by (auto dest!: in_set_takeD)
  then show ?thesis using prune_loop_drops [of budget "sealed_bytes w" "wl_origin w" "wl_folded w" "wl_sealed w" "wl_dir w"]
    by (auto simp: prune_def active_def split: prod.splits)
qed

lemma prune_loop_keys: "fst ` set (snd (prune_loop budget tot o1 folded os dir)) \<subseteq> fst ` set dir"
proof (induction budget tot o1 folded os dir rule: prune_loop.induct)
  case (2 budget tot o1 folded o2 os dir)
  have "fst ` set (AList.delete (seg_name o2) dir) \<subseteq> fst ` set dir" by (auto simp: AList.delete_eq)
  then show ?case using 2 by (subst prune_loop.simps(2)) (auto simp: Let_def)
qed (simp add: prune_loop.simps)

lemma set_seg_list: "set (seg_list dir) = {o1. \<exists>nm \<in> fst ` set dir. parse_seg_origin nm = Some o1}"
  by (force simp: seg_list_def List.map_filter_def)

lemma seg_list_le_last: "o1 \<in> set (seg_list dir) \<Longrightarrow> o1 \<le> last (seg_list dir)"
proof -
  have "sorted xs \<Longrightarrow> x \<in> set xs \<Longrightarrow> x \<le> last xs" for x :: u64 and xs
    by (cases xs rule: rev_cases) (auto simp: sorted_append)
  then show "o1 \<in> set (seg_list dir) \<Longrightarrow> o1 \<le> last (seg_list dir)" by (simp add: seg_list_def)
qed

lemma seg_list_greatest:
  assumes "seg_name o1 \<in> fst ` set dir" "\<forall>o2 \<in> set (seg_list dir). o2 \<le> o1"
  shows "last (seg_list dir) = o1"
proof -
  have m: "o1 \<in> set (seg_list dir)" using assms(1) by (rule seg_list_mem)
  then have ne: "seg_list dir \<noteq> []" by auto
  have "o1 \<le> last (seg_list dir)" using m by (rule seg_list_le_last)
  then show ?thesis using assms(2) last_in_set [OF ne] by (auto intro: antisym)
qed

text \<open>The decisions a run of records holds.\<close>

definition decided :: "bytes list \<Rightarrow> u64 list" where
  "decided bs = List.map_filter (\<lambda>b. tagged b TAG_DECIDE) bs"

lemma decided_simps [simp]:
  "decided [] = []" "decided (b # bs) = (case tagged b TAG_DECIDE of Some s \<Rightarrow> s # decided bs | None \<Rightarrow> decided bs)"
  by (simp_all add: decided_def List.map_filter_def split: option.split)

lemma run_decide: "run_frames decide_visit p bs out = Inr (out @ decided bs)"
  by (induction bs arbitrary: p out) (simp_all add: decide_visit_def split: option.split)

lemma intact_all: "intact (length (frames bs)) bs = length bs"
  by (induction bs) simp_all

lemma tagged_decide: "tagged (marker_body TAG_DECIDE s) TAG_DECIDE = Some s"
  by (subst tagged_marker) (use varint_length_10 [of s] in \<open>simp_all add: marker_body_def w_u8_def w_varint_eq [of "[_]"] usize_max_def\<close>)

lemma decided_markers: "decided (map (marker_body TAG_DECIDE) ss) = ss"
  by (induction ss) (simp_all add: tagged_decide)

lemma newest_decisions:
  assumes ok: "log_ok w bs" and st: "stamp_ok (wl_origin w) (wl_head w) bs syn" "syn \<le> length (frames bs)"
  shows "walk_dir_newest (wl_dir w) = Inr (remdups_adj (sort (decided bs)))"
proof -
  let ?o = "wl_origin w" and ?h = "wl_head w" and ?b = "active w"
  let ?s = "\<lparr>sg_origin = ?o, sg_head = ?h, sg_trusted = True, sg_sealed = False, sg_buf = ?b\<rparr>"
  have b: "?b = head_encode ?h ?o @ frames bs" and d: "dir_ok w" and size: "unat ?o + length (frames bs) + SEG_HEADER_LEN \<le> usize_max"
    using ok by (simp_all add: log_ok_def)
  obtain i j where ij: "i \<le> j" "j \<le> length bs" "h_durable ?h = ?o + of_nat (extent j bs)" "h_acked ?h = ?o + of_nat (extent i bs)"
    "extent i bs \<le> syn" "unat (h_carry_len ?h) \<le> extent i bs" using st(1) by (auto simp: stamp_ok_def)
  have len: "extent n bs \<le> length (frames bs)" for n using extent_mono [of n "max n (length bs)" bs] by simp
  have "read_head ?b ?o = Inr (?h, True)" using read_head_encode [of ?h ?o "frames bs" ?o] size by (simp add: b)
  moreover have "map_of (wl_dir w) (seg_name ?o) = Some ?b"
    using d by (auto simp: active_def dir_ok_def map_of_eq_None_iff split: option.split)
  ultimately have load: "seg_load (wl_dir w) ?o False = Inr ?s"
    using ij(5,6) st(2) by (simp add: seg_load_def read_file_def seg_of_def b)
  have at: "seg_at ?s (?o + of_nat (extent n bs)) = SEG_HEADER_LEN + extent n bs" for n
    using seg_at_pos [of ?s "extent n bs"] size len [of n] by simp
  have "walk_seg ?s 0 decide_visit [] = rbind (run_frames decide_visit SEG_HEADER_LEN (take (intact (length (frames bs)) bs) bs) [])
      (\<lambda>st. Inr (SEG_HEADER_LEN + extent (intact (length (frames bs)) bs) bs, st))"
    by (rule walk_seg_cut [where hb = "head_encode ?h ?o" and m = 0 and j = j and i = i]) (use size at ij st(2) in \<open>simp_all add: b\<close>)
  then have "walk_seg ?s 0 decide_visit [] = Inr (SEG_HEADER_LEN + length (frames bs), decided bs)"
    by (simp add: intact_all run_decide)
  moreover obtain x xs where "seg_list (wl_dir w) = x # xs" "last (x # xs) = ?o"
    using d seg_list_mem [of ?o "wl_dir w"] by (cases "seg_list (wl_dir w)") (auto simp: dir_ok_def)
  ultimately show ?thesis using load by (simp add: walk_dir_newest_def)
qed

lemma prune_fields [simp]:
  "wl_origin (prune budget w) = wl_origin w" "wl_len (prune budget w) = wl_len w" "wl_head (prune budget w) = wl_head w"
  by (simp_all add: prune_def split: prod.split)

text \<open>Starting a segment: the new file becomes the greatest, and retention leaves it alone.\<close>

lemma new_segment_ok:
  assumes d: "dir_ok w" and o1: "wl_origin w < o1" and sealed: "\<forall>o2 \<in> set (wl_sealed w). o2 \<le> wl_origin w"
    and room: "unat o1 + length (frames bs) + SEG_HEADER_LEN \<le> usize_max"
    and w': "wl_dir w' = AList.update (seg_name o1) (head_encode h o1 @ frames bs) (wl_dir w)" "wl_origin w' = o1"
      "wl_sealed w' = wl_sealed w @ [wl_origin w]" "wl_head w' = h" "wl_len w' = o1 + of_nat (length (frames bs))"
  shows "log_ok (prune budget w') bs"
proof -
  have "o1 \<notin> set (wl_sealed w')" using sealed o1 w'(3) by auto
  then have a: "active (prune budget w') = head_encode h o1 @ frames bs"
    using prune_active [of w' budget] w'(1,2) by (simp add: active_def update_conv')
  let ?d = "wl_dir (prune budget w')"
  have dd: "?d = snd (prune_loop budget (sealed_bytes w') o1 (wl_folded w') (wl_sealed w') (wl_dir w'))"
    using w'(2) by (simp add: prune_def split: prod.split)
  have "fst ` set ?d \<subseteq> fst ` set (wl_dir w')" unfolding dd by (rule prune_loop_keys)
  then have keys: "fst ` set ?d \<subseteq> insert (seg_name o1) (fst ` set (wl_dir w))" by (simp add: w'(1) dom_update)
  have mem: "seg_name o1 \<in> fst ` set ?d"
  proof (rule ccontr)
    assume "seg_name o1 \<notin> fst ` set ?d"
    then have "active (prune budget w') = []" using w'(2) by (simp add: active_def map_of_eq_None_iff [THEN iffD2])
    with a show False by (simp add: SEG_HEADER_LEN_def flip: length_0_conv)
  qed
  have "o2 \<le> wl_origin w" if "o2 \<in> set (seg_list (wl_dir w))" for o2 using seg_list_le_last [OF that] d by (simp add: dir_ok_def)
  then have "\<forall>o2 \<in> set (seg_list ?d). o2 \<le> o1"
    using keys o1 parse_seg_name [of o1] unfolding set_seg_list by (fastforce dest: less_imp_le)
  then have "dir_ok (prune budget w')" using seg_list_greatest [OF mem] mem w'(2) by (simp add: dir_ok_def)
  then show ?thesis using a w' room by (simp add: log_ok_def)
qed

lemma frame_small: "length b < 128 \<Longrightarrow> length (frame b) = 9 + length b"
proof -
  assume "length b < 128"
  then have "(of_nat (length b) :: u64) < 0x80" by (simp add: word_less_nat_alt unat_of_nat_u64)
  then show ?thesis by (simp add: write_framed_def w_raw_def w_u64_def varint_bytes_small)
qed

lemma tick_sealed: "wal_tick now nc w = (Inr (), w1, nc1) \<Longrightarrow> wl_sealed w1 = wl_sealed w"
  by (auto simp: wal_tick_def Let_def wal_append_def append_framed_def write_all_def split: prod.splits sum.splits option.splits if_splits)

lemma put_stamp_sealed [simp]: "wl_sealed (put_stamp to w) = wl_sealed w"
  by (simp add: put_stamp_def Let_def)

text \<open>Before the new segment is written, the old one is closed by a tick if it needs one.\<close>

lemma roll_closes:
  assumes "(if wl_dirty w then (case wal_tick now nc w of (Inl e, w, nc) \<Rightarrow> (Inl e, w, nc) | (Inr _, w, nc) \<Rightarrow> (Inr (), put_stamp (wl_len w) w, nc))
       else (Inr (), w, nc)) = (Inr (), w1, nc1)" "log_ok w bs"
  shows "\<exists>ts. dir_ok w1 \<and> wl_origin w1 = wl_origin w \<and> wl_sealed w1 = wl_sealed w \<and> wl_len w1 = wl_origin w + of_nat (length (frames (bs @ ts)))
    \<and> length (frames ts) \<le> SEG_HEADER_LEN"
proof (cases "wl_dirty w")
  case True
  then obtain w2 nc2 where t: "wal_tick now nc w = (Inr (), w2, nc2)" "w1 = put_stamp (wl_len w2) w2"
    using assms(1) by (auto split: prod.splits sum.splits)
  obtain ms where ap: "appended w [tick_body nc ms] w2" using wal_tick_ok [OF t(1)] by blast
  have "length (tick_body nc ms) \<le> 21"
    using varint_length_10 [of nc] varint_length_10 [of ms] by (simp add: tick_body_def w_u8_def w_varint_eq [of "_ @ _"] w_varint_eq [of "_ # _"])
  then have "length (frames [tick_body nc ms]) \<le> SEG_HEADER_LEN" using frame_small [of "tick_body nc ms"] by (simp add: SEG_HEADER_LEN_def)
  then show ?thesis using ap t assms(2) tick_sealed [OF t(1)]
    by (intro exI [of _ "[tick_body nc ms]"]) (simp add: appended_def log_ok_def)
next
  case False
  then show ?thesis using assms by (intro exI [of _ "[]"]) (simp add: log_ok_def)
qed

text \<open>The records a new segment starts with.\<close>

definition carried_over :: "bool \<Rightarrow> wal \<Rightarrow> bytes list \<Rightarrow> bytes list" where
  "carried_over cited w bs = map (marker_body TAG_DECIDE) (if wl_decides w \<and> cited then remdups_adj (sort (decided bs)) else [])"

lemma frames_markers: "foldl write_framed [] bs = frames bs"
proof -
  have "foldl write_framed w bs = w @ frames bs" for w
  proof (induction bs arbitrary: w)
    case (Cons b bs)
    show ?case using Cons [of "write_framed w b"] write_framed_eq [of w b] by simp
  qed simp
  then show ?thesis by simp
qed

lemma roll_new_segment:
  assumes "roll cited budget now nc w = (Inr (), w', nc')" "wl_origin w' \<noteq> wl_origin w" "log_ok w bs"
    "stamp_ok (wl_origin w) (wl_head w) bs syn" "syn \<le> length (frames bs)"
  shows "\<exists>w1 w2 ts. w' = prune budget w2 \<and> dir_ok w1 \<and> wl_origin w1 = wl_origin w \<and> wl_sealed w1 = wl_sealed w
    \<and> wl_origin w2 = wl_origin w + of_nat (length (frames (bs @ ts))) \<and> length (frames ts) \<le> SEG_HEADER_LEN
    \<and> wl_dir w2 = AList.update (seg_name (wl_origin w2)) (head_encode (wl_head w2) (wl_origin w2) @ frames (carried_over cited w bs)) (wl_dir w1)
    \<and> wl_sealed w2 = wl_sealed w1 @ [wl_origin w1] \<and> wl_len w2 = wl_origin w2 + of_nat (length (frames (carried_over cited w bs)))
    \<and> wl_folded w2 = wl_origin w2 \<and> h_durable (wl_head w2) = wl_len w2 \<and> h_acked (wl_head w2) = wl_len w2
    \<and> h_carry_len (wl_head w2) = of_nat (length (frames (carried_over cited w bs)))"
proof -
  let ?carry = "if wl_decides w \<and> cited then remdups_adj (sort (decided bs)) else []"
  let ?close = "if wl_dirty w then (case wal_tick now nc w of (Inl e, w, nc) \<Rightarrow> (Inl e, w, nc) | (Inr _, w, nc) \<Rightarrow> (Inr (), put_stamp (wl_len w) w, nc))
       else (Inr (), w, nc)"
  have c: "(if wl_decides w \<and> cited then walk_dir_newest (wl_dir w) else Inr []) = Inr ?carry"
    using newest_decisions [OF assms(3-5)] by simp
  have early: "wl_open_groups w = 0" "\<not> (wal_is_empty w \<and> h_carry_len (wl_head w) = 0)" "\<not> (wal_is_empty w \<and> ?carry \<noteq> [])"
    using assms(1,2) unfolding roll_def c by (auto split: if_splits)
  obtain r w1 nc1 where cl: "?close = (r, w1, nc1)" by (rule prod_cases3)
  have "r = Inr ()" using assms(1) early unfolding roll_def c by (cases r) (auto simp: cl)
  note cl = cl [unfolded this]
  obtain ts where ts: "dir_ok w1" "wl_origin w1 = wl_origin w" "wl_sealed w1 = wl_sealed w"
    "wl_len w1 = wl_origin w + of_nat (length (frames (bs @ ts)))" "length (frames ts) \<le> SEG_HEADER_LEN" using roll_closes [OF cl assms(3)] by blast
  define f where "f = frames (carried_over cited w bs)"
  have f: "foldl write_framed [] (map (marker_body TAG_DECIDE) ?carry) = f" by (simp add: f_def carried_over_def frames_markers)
  define h where "h = \<lparr>h_carry_len = of_nat (length f), h_next_seq = wl_next_seq w1, h_prev_seq = max (sp_last_seq (wl_span w1)) (h_prev_seq (wl_head w1)),
      h_prev_ms = max (sp_last_ms (wl_span w1)) (h_prev_ms (wl_head w1)), h_durable = wl_len w1 + of_nat (length f), h_acked = wl_len w1 + of_nat (length f)\<rparr>"
  have h: "h_durable h = wl_len w1 + of_nat (length f)" "h_acked h = wl_len w1 + of_nat (length f)" "h_carry_len h = of_nat (length f)"
    by (simp_all add: h_def)
  have w': "w' = prune budget (w1\<lparr>wl_dir := AList.update (seg_name (wl_len w1)) (head_encode h (wl_len w1) @ f) (wl_dir w1),
      wl_sealed := wl_sealed w1 @ [wl_origin w1], wl_origin := wl_len w1, wl_folded := wl_len w1, wl_head := h,
      wl_len := h_durable h, wl_decides := ?carry \<noteq> [], wl_dirty := False, wl_span := span_default\<rparr>)"
    using assms(1) early unfolding roll_def c by (simp add: cl Let_def f h_def)
  show ?thesis unfolding f_def [symmetric] w' using ts h by (intro exI conjI) (rule refl | simp)+
qed

section \<open>A stamp that was not brought down\<close>

lemma data_end_full: "b \<noteq> [] \<Longrightarrow> last b \<noteq> 0 \<Longrightarrow> data_end b = length b"
  by (cases b rule: rev_cases) (simp_all add: data_end_def)

lemma seg_at_above:
  assumes "unat (sg_origin s) \<le> unat d" "unat d + SEG_HEADER_LEN \<le> usize_max"
  shows "seg_at s d = SEG_HEADER_LEN + (unat d - unat (sg_origin s))"
proof -
  have "d = sg_origin s + of_nat (unat d - unat (sg_origin s))" using assms(1) by (simp add: of_nat_diff word_unat_eq_iff [symmetric])
  then show ?thesis using seg_at_pos [of s "unat d - unat (sg_origin s)"] assms by simp
qed

text \<open>The second clause of \<open>tear\<close> believes a frame only up to the stamp: a record that reaches past it is taken for damage.\<close>

lemma overclaim_rot:
  assumes s: "sg_trusted s" "\<not> sg_sealed s" "sg_buf s = w @ take k (frame b)"
    and k: "length (frame b) - length b \<le> k" "k < length (frame b)" "frame b ! (k - 1) \<noteq> 0"
    and size: "length (w @ frame b) \<le> usize_max"
    and d: "length w < seg_at s (h_durable (sg_head s))" "seg_at s (h_durable (sg_head s)) < length w + length (frame b)"
  shows "\<not> tear s (length w)"
proof -
  let ?v = "varint_bytes (of_nat (length b))" and ?B = "w @ take k (frame b)"
  have fr: "frame b = ?v @ le_bytes (checksum b) @ b" by (simp add: write_framed_def w_raw_def w_u64_def)
  have lf: "length (frame b) = length ?v + 8 + length b" by (simp add: fr)
  have B: "?B = w @ ?v @ le_bytes (checksum b) @ take (k - (length ?v + 8)) b" using k(1) by (simp add: fr)
  have lB: "length ?B \<le> usize_max" using size by simp
  have "last ?B = frame b ! (k - 1)" "?B \<noteq> []" using k lf by (auto simp: last_append last_conv_nth)
  then have de: "data_end ?B = length w + k" using data_end_full [of ?B] k by simp
  have v: "r_varint (behind w ?B) = Inr (of_nat (length b), behind (w @ ?v) ?B)"
    using reads_at [OF reads_varint, of w "of_nat (length b)" "le_bytes (checksum b) @ take (k - (length ?v + 8)) b"] lB unfolding B by simp
  have c: "r_u64 (behind (w @ ?v) ?B) = Inr (checksum b, behind (w @ ?v @ le_bytes (checksum b)) ?B)"
    using reads_at [OF reads_u64, of "w @ ?v" "checksum b" "take (k - (length ?v + 8)) b"] lB unfolding B by simp
  have n: "unat (of_nat (length b) :: u64) = length b" using size lf by (simp add: unat_of_nat_u64 usize_max_def)
  have ca: "checked_add (length w + length ?v + 8) (length b) = Some (length w + length (frame b))" using size by (simp add: checked_add_def lf)
  have "\<not> effective s \<le> length w" using d(1) de k lf s by (auto simp: effective_def Let_def)
  moreover have "seek (reader_new ?B) (length w) = Inr (behind w ?B)" by (simp add: seek_def reader_new_def)
  ultimately show ?thesis using s v c n ca d(2) by (simp add: tear_def add.assoc)
qed

lemma overclaimed_open:
  assumes img: "map_of img (seg_name o1) = Some (head_encode h o1 @ frames bs @ take k (frame b))" "seg_list img \<noteq> []" "last (seg_list img) = o1"
    and k: "length (frame b) - length b \<le> k" "k < length (frame b)" "frame b ! (k - 1) \<noteq> 0"
    and size: "unat o1 + length (frames (bs @ [b])) + SEG_HEADER_LEN \<le> usize_max"
    and d: "unat o1 + length (frames bs) < unat (h_durable h)" "unat (h_durable h) < unat o1 + length (frames (bs @ [b]))"
    and carry: "unat (h_carry_len h) \<le> length (frames bs)"
  shows "wal_open img nc = Inl rot"
proof -
  let ?z = "frames bs @ take k (frame b)" let ?w = "head_encode h o1 @ frames bs"
  let ?s = "\<lparr>sg_origin = o1, sg_head = h, sg_trusted = True, sg_sealed = False, sg_buf = head_encode h o1 @ ?z\<rparr>"
  have lz: "length (head_encode h o1 @ ?z) \<le> usize_max" using size by simp
  have "read_head (head_encode h o1 @ ?z) o1 = Inr (h, True)" using read_head_encode [OF lz, of o1] by simp
  then have load: "seg_load img o1 False = Inr ?s" using img(1) carry by (simp add: seg_load_def read_file_def seg_of_def)
  have at: "seg_at ?s (h_durable h) = SEG_HEADER_LEN + (unat (h_durable h) - unat o1)" using seg_at_above [of ?s "h_durable h"] d size by simp
  have nt: "\<not> tear ?s (length ?w)"
    by (rule overclaim_rot [where k = k and b = b]) (use k d size at in simp_all)
  have "\<exists>e. read_framed (behind ?w (?w @ take k (frame b))) = Inl e" using k size by (intro short_frame) simp_all
  moreover have "0 < k" using k(1) by (simp add: write_framed_def w_raw_def w_u64_def)
  ultimately have "walk_loop ?s scan_visit (behind ?w (head_encode h o1 @ ?z)) sc (length ?w) = Inl rot" for sc
    using nt k by (subst walk_loop.simps) (auto simp: remaining_def)
  then have "walk_loop ?s scan_visit (behind (head_encode h o1) (head_encode h o1 @ ?z)) sc SEG_HEADER_LEN = Inl rot" for sc
    using walk_loop_frames [of "head_encode h o1" bs "take k (frame b)" ?s scan_visit sc] lz run_scan [of SEG_HEADER_LEN bs sc] by auto
  then have "scan ?s = Inl rot" by (simp add: scan_def walk_seg_def seek_def reader_new_def Let_def)
  then show ?thesis using img load by (simp add: wal_open_def Let_def)
qed

section \<open>Properties\<close>


text \<open>C40: Opening keeps a stamp that claims more than the file holds when the file ends exactly at a record, which is what a
  crash leaves when the header reached the disk and nothing of the appended bytes did. A later record that was never acknowledged and
  reaches past that stamp, cut by the next crash, is then reported as damage: the log does not open, though nothing acknowledged is lost.\<close>

theorem overclaimed_stamp_refuses:
  assumes "wal_open img1 nc = Inr (w, nc1)" "log_ok w bs" "wl_len w < h_durable (wl_head w)" "unat (h_carry_len (wl_head w)) \<le> length (frames bs)"
    "wal_append b w = (Inr l, w')" "has_room w'" "unat (h_durable (wl_head w)) < unat (wl_len w) + length (frame b)"
    "length (frame b) - length b \<le> k" "k < length (frame b)" "frame b ! (k - 1) \<noteq> 0"
  shows "wal_open (AList.update (seg_name (wl_origin w)) (take (length (active w) + k) (active w')) (wl_dir w)) nc2 = Inl rot"
proof -
  let ?o = "wl_origin w" let ?img = "AList.update (seg_name ?o) (take (length (active w) + k) (active w')) (wl_dir w)"
  have ok: "dir_ok w" "active w = head_encode (wl_head w) ?o @ frames bs" "wl_len w = ?o + of_nat (length (frames bs))"
    "unat ?o + length (frames bs) + SEG_HEADER_LEN \<le> usize_max" using assms(2) by (auto simp: log_ok_def)
  have ap: "active w' = active w @ frame b" "wl_origin w' = ?o" using wal_append_ok [OF assms(5)] by (auto simp: appended_def)
  have l: "unat (wl_len w) = unat ?o + length (frames bs)" unfolding ok(3) using ok(4) by (intro unat_pos) simp
  have sl: "seg_list ?img = seg_list (wl_dir w)" using ok(1) by (simp add: seg_list_update dir_ok_def)
  have "seg_list (wl_dir w) \<noteq> []" using ok(1) seg_list_mem [of ?o "wl_dir w"] by (auto simp: dir_ok_def)
  then show ?thesis
    using assms(4,6-10) ok ap l sl assms(3)
    by (intro overclaimed_open [where k = k and b = b and bs = bs and h = "wl_head w"])
      (auto simp: update_conv' dir_ok_def has_room_def word_less_nat_alt)
qed


lemma open_empty_state:
  "wal_open [] nc = Inr (\<lparr>wl_dir = [(seg_name 0, head_encode head_default 0)], wl_origin = 0, wl_len = 0, wl_head = head_default, wl_folded = 0,
     wl_next_seq = 0, wl_open_groups = 0, wl_decides = False, wl_span = span_default, wl_dirty = False, wl_sealed = [], wl_space = None\<rparr>, nc)"
proof -
  let ?b = "head_encode head_default 0" let ?s = "\<lparr>sg_origin = 0, sg_head = head_default, sg_trusted = True, sg_sealed = False, sg_buf = ?b\<rparr>"
  have "read_head ?b 0 = Inr (head_default, True)" using read_head_encode [of head_default 0 "[]" 0] by (simp add: SEG_HEADER_LEN_def usize_max_def)
  then have load: "seg_load [(seg_name 0, ?b)] 0 False = Inr ?s" by (simp add: seg_load_def read_file_def seg_of_def head_default_def)
  have "seg_floor ?s = SEG_HEADER_LEN" by (simp add: seg_floor_def seg_at_def head_default_def SEG_HEADER_LEN_def)
  then have "walk_seg ?s 0 scan_visit sc = Inr (SEG_HEADER_LEN, sc)" for sc
    by (simp add: walk_seg_def Let_def seek_def reader_new_def walk_loop.simps [of ?s scan_visit "\<lparr>buf = ?b, pos = SEG_HEADER_LEN\<rparr>"] remaining_def)
  then have "scan ?s = Inr \<lparr>sc_good = SEG_HEADER_LEN, sc_next_seq = 0, sc_decides = False, sc_dirty = False, sc_span = span_default\<rparr>" by (simp add: scan_def)
  then show ?thesis using load
    by (simp add: wal_open_def seg_list_def List.map_filter_def Let_def seg_stream_end_def observe_commit_def span_default_def head_default_def SEG_HEADER_LEN_def)
qed

lemma wal_append_space:
  "wl_space w = None \<Longrightarrow> wal_append b w = (Inr (wl_len w),
     (set_active (active w @ frame b) w)\<lparr>wl_len := wl_len w + of_nat (length (frame b)), wl_dirty := True\<rparr>)"
  by (simp add: wal_append_def body_finish_eq append_framed_def write_all_def)

lemma demo_frames: "length (frame (delete_body None 5)) = 18" "length (frame (tick_body 1 7)) = 12"
proof -
  have "varint_bytes 1 = [1]" "varint_bytes 7 = [7]" by (subst varint_bytes_small, simp_all add: word_less_nat_alt)+
  then show "length (frame (tick_body 1 7)) = 12"
    by (subst frame_small) (simp_all add: tick_body_def w_u8_def w_varint_eq [of "_ @ _"] w_varint_eq [of "_ # _"])
  show "length (frame (delete_body None 5)) = 18"
    by (subst frame_small) (simp_all add: delete_body_def put_tag_def w_u8_def w_u64_def)
qed

definition fresh_log :: wal where
  "fresh_log = \<lparr>wl_dir = [(seg_name 0, head_encode head_default 0)], wl_origin = 0, wl_len = 0, wl_head = head_default, wl_folded = 0,
     wl_next_seq = 0, wl_open_groups = 0, wl_decides = False, wl_span = span_default, wl_dirty = False, wl_sealed = [], wl_space = None\<rparr>"

text \<open>A log with one delete, synced.\<close>

lemma one_delete:
  "\<exists>w1 w2. put_deletes None [5] fresh_log = (Inr 0, w1) \<and> wal_sync 7 1 w1 = (Inr (), w2, 2) \<and> wl_origin w2 = 0 \<and> has_room w1 \<and> has_room w2 \<and> dir_ok w2
     \<and> wl_head w2 = head_default\<lparr>h_durable := 30\<rparr> \<and> active w2 = head_encode (wl_head w2) 0 @ frames [delete_body None 5, tick_body 1 7]"
proof -
  let ?d = "delete_body None 5" and ?t = "tick_body 1 7"
  note ld = demo_frames(1) and lt = demo_frames(2)
  define w1 where "w1 = (set_active (active fresh_log @ frame ?d) fresh_log)\<lparr>wl_len := 18, wl_dirty := True\<rparr>"
  have 1: "put_deletes None [5] fresh_log = (Inr 0, w1)"
    using wal_append_space [of fresh_log ?d] ld by (simp add: put_deletes_def w1_def fresh_log_def)
  have a0: "active fresh_log = head_encode head_default 0" by (simp add: active_def fresh_log_def)
  have f1: "active w1 = head_encode head_default 0 @ frame ?d" "wl_origin w1 = 0" "wl_len w1 = 18" "wl_head w1 = head_default" "wl_space w1 = None"
    "wl_dirty w1" "wl_span w1 = span_default"
    by (simp_all add: w1_def a0) (simp_all add: set_active_def active_def fresh_log_def update_conv')
  define w2 where "w2 = (set_active (active w1 @ frame ?t) w1)\<lparr>wl_len := 30, wl_span := span_observe span_default 1 7, wl_dirty := False\<rparr>"
  have "wal_tick 7 1 w1 = (Inr (), w2, 2)"
    using wal_append_space [OF f1(5), of ?t] lt f1 by (simp add: wal_tick_def w2_def span_default_def head_default_def max_def)
  then have 2: "wal_sync 7 1 w1 = (Inr (), put_stamp 30 w2, 2)" by (simp add: wal_sync_def stage_sync_def f1 w2_def)
  have f2: "active w2 = head_encode (wl_head w2) (wl_origin w2) @ frames [?d, ?t]" "wl_head w2 = head_default" "wl_origin w2 = 0"
    using f1 by (simp_all add: w2_def) (simp_all add: active_def set_active_def update_conv')
  have "dir_ok fresh_log" by (simp add: dir_ok_def fresh_log_def seg_list_def List.map_filter_def parse_seg_name)
  then have "dir_ok w2" by (simp add: w2_def w1_def dir_ok_def set_active_def seg_list_update dom_update)
  moreover have "stamped 30 head_default = head_default\<lparr>h_durable := 30\<rparr>" by (simp add: stamped_def head_default_def word_less_nat_alt)
  ultimately show ?thesis
    using put_stamp_active [OF f2(1), of 30] f2 1 2 f1 ld lt by (intro exI [of _ w1] exI [of _ "put_stamp 30 w2"]) (simp add: has_room_def SEG_HEADER_LEN_def usize_max_def)
qed


theorem overclaimed_stamp_refuses_witness:
  "\<exists>w1 w2 img1 w w' nc1. put_deletes None [5] fresh_log = (Inr 0, w1) \<and> wal_sync 7 1 w1 = (Inr (), w2, 2)
     \<and> crash_image w2 (wl_head fresh_log) 0 img1 \<and> wal_open img1 1 = Inr (w, nc1) \<and> put_deletes None [1, 2, 3, 4] w = (Inr 0, w')
     \<and> wal_open (AList.update (seg_name 0) (take (length (active w) + 10) (active w')) (wl_dir w)) 1 = Inl rot"
proof -
  let ?b = "delete_run_body None [1, 2, 3, 4]"
  obtain w1 w2 where 1: "put_deletes None [5] fresh_log = (Inr 0, w1)" "wal_sync 7 1 w1 = (Inr (), w2, 2)" "has_room w1" "has_room w2"
    and a: "active w2 = head_encode (wl_head w2) 0 @ frames [delete_body None 5, tick_body 1 7]" "wl_origin w2 = 0"
    and h: "wl_head w2 = head_default\<lparr>h_durable := 30\<rparr>" and d: "dir_ok w2"
    using one_delete by blast
  let ?img = "AList.update (seg_name 0) (head_encode (wl_head w2) 0) (wl_dir w2)"
  have img: "crash_image w2 (wl_head fresh_log) 0 ?img"
    unfolding crash_image_def using a 1(4) read_framed_advances(4)
    by (intro exI [of _ "wl_head w2"] exI [of _ 0] exI [of _ 0] exI [of _ "head_encode (wl_head w2) 0"]) (fastforce simp: has_room_def)
  note ld = demo_frames(1) and lt = demo_frames(2)
  have v: "varint_bytes 4 = [4]" by (subst varint_bytes_small) (simp_all add: word_less_nat_alt)
  have b: "?b = [TAG_DELETE_RUN, 4] @ concat (map le_bytes [1, 2, 3, 4 :: u64])"
    by (simp add: delete_run_body_def w_u64_def put_tag_def w_u8_def w_varint_eq [of "[_]"] v)
  then have lb: "length ?b = 34" "length (frame ?b) = 43" using frame_small [of ?b] by simp_all
  have "frame ?b = varint_bytes 34 @ le_bytes (checksum ?b) @ ?b" using lb(1) by (simp add: write_framed_def w_raw_def w_u64_def)
  moreover have "varint_bytes 34 = [34]" by (subst varint_bytes_small) (simp_all add: word_less_nat_alt)
  ultimately have f9: "frame ?b ! 9 \<noteq> 0" using b by (simp add: nth_append tag_defs)
  let ?bs = "[delete_body None 5, tick_body 1 7]"
  have n0: "intact 0 ?bs = 0" by (simp add: ld)
  have sl: "seg_list ?img = seg_list (wl_dir w2)" using d a(2) by (simp add: seg_list_update dir_ok_def)
  have "\<exists>w nc'. wal_open ?img 1 = Inr (w, nc') \<and> log_ok w (take (intact 0 ?bs) ?bs) \<and> wl_origin w = 0
    \<and> (h_durable (wl_head w) \<le> wl_len w \<longrightarrow> stamp_ok 0 (wl_head w) (take (intact 0 ?bs) ?bs) (extent (intact 0 ?bs) ?bs))
    \<and> (length (head_encode (wl_head w2) 0) = SEG_HEADER_LEN + extent (intact 0 ?bs) ?bs \<longrightarrow> wl_head w = wl_head w2) \<and> wl_space w = None"
  proof (rule open_image [where m = 0 and syn = 0])
    show "stamp_ok 0 (wl_head w2) ?bs 0"
      unfolding stamp_ok_def by (intro exI [of _ 0] exI [of _ 2]) (simp add: h head_default_def ld lt)
    show "seg_list ?img \<noteq> []" "last (seg_list ?img) = 0" using sl d a(2) seg_list_mem [of 0 "wl_dir w2"] by (auto simp: dir_ok_def)
  qed (simp_all add: update_conv' ld lt SEG_HEADER_LEN_def usize_max_def)
  then obtain w nc1 where w: "wal_open ?img 1 = Inr (w, nc1)" "log_ok w []" "wl_origin w = 0" "wl_head w = wl_head w2" "wl_space w = None"
    unfolding n0 by auto
  have len: "wl_len w = 0" using w(2,3) by (simp add: log_ok_def)
  obtain w' where w': "wal_append ?b w = (Inr 0, w')" using wal_append_space [OF w(5), of ?b] len by simp
  then have del: "put_deletes None [1, 2, 3, 4] w = (Inr 0, w')"
    using len by (simp add: put_deletes_def chunks.simps DELETE_BATCH_def)
  have room: "has_room w'" using wal_append_ok [OF w'] w(2,3) lb by (auto simp: has_room_def appended_def log_ok_def SEG_HEADER_LEN_def usize_max_def)
  have "wal_open (AList.update (seg_name (wl_origin w)) (take (length (active w) + 10) (active w')) (wl_dir w)) 1 = Inl rot"
    by (rule overclaimed_stamp_refuses [OF w(1,2) _ _ w' room])
      (use lb f9 in \<open>simp_all add: w(4) h head_default_def len word_less_nat_alt\<close>)
  then show ?thesis using 1 img w del by (metis w(3))
qed


end
