(* ===== verification/Spec2Isabelle.thy ===== *)
theory Spec2Isabelle
  imports Granular_Prelude Hashing Lane_Codec Bit_Set Bitpack Utf8 Lz4 Format String_Dict
    Counting_Sort Radix_Sort Part_Filter Mph Text Data_Types Calendar Decimals Float64 Cell_Value
    Column_Block Packed_Column Granule Delta_Buffer Delete_Mask Part Part_Set Table_Schema
    Block_Sort Table_Store Table_Reads Table_Txn Table_Merge Wal_Record Wal_Segment Wal_Log
begin

text \<open>
  Verification of the storage core of the \<^verbatim>\<open>granular\<close> column store (\<^verbatim>\<open>src/src\<close>).

  \<^bold>\<open>The program.\<close> An embedded SQL database in Rust. A table is a write buffer in front of immutable sorted parts; a
  part is a run of granules; a granule holds some rows of every column, each column compressed by itself, with
  an optional index for point lookups. Under the tables lie the codecs (bit packing, string dictionaries, LZ4),
  the byte format of the files, the scalar values and types, and the vectorized columns and blocks that the
  query operators pass around. Above them are the SQL front end, the planner, the operators and the session. This
  development models the layers from the bottom up; the query side is outside it (see the end).

  \<^bold>\<open>The theories\<close>, in the order of the layers; paths are under \<^verbatim>\<open>src/src\<close>.

  \<^item> \<open>Granular_Prelude\<close>: machine integers, the error type of \<^verbatim>\<open>common/error.rs\<close>, results and the early return \<open>?\<close>, the
    integer and slice operations of the standard library the sources call, shared lemmas.
  \<^item> \<open>Hashing\<close> (\<^verbatim>\<open>common/hash.rs\<close>), \<open>Lane_Codec\<close> (\<^verbatim>\<open>common/lane.rs\<close>, \<^verbatim>\<open>common/zigzag.rs\<close>), \<open>Bit_Set\<close> (\<^verbatim>\<open>common/bitset.rs\<close>): the hash
    functions, the order-preserving coding of integers and doubles as \<open>u64\<close> lanes (interface \<open>lane_codec\<close>,
    interpreted on both codecs), and the bitmap refined to a set of indices (interface \<open>index_set\<close>).
  \<^item> \<open>Bitpack\<close> (\<^verbatim>\<open>encoding/bitpack.rs\<close>): frame-of-reference packing in its three layouts; every read returns what was
    packed, the bulk decoder agrees with single reads, the interpolation search ends at the lower bound
    (interface \<open>packed_array\<close>).
  \<^item> \<open>Utf8\<close>, \<open>Text\<close>: the standard library's view of UTF-8 and of ASCII text (trimming, splitting, digits).
  \<^item> \<open>Lz4\<close> (\<^verbatim>\<open>encoding/lz4.rs\<close>): the block compressor with its hash table and the checking decompressor; decompression
    undoes compression, and the size check before allocation refuses nothing that decodes.
  \<^item> \<open>Format\<close> (\<^verbatim>\<open>persist/format.rs\<close>): writer and reader primitives, canonical varints, framed sections with checksums,
    header and footer (interface \<open>byte_codec\<close>, one interpretation per kind of field).
  \<^item> \<open>String_Dict\<close> (\<^verbatim>\<open>encoding/dict.rs\<close>): the order-preserving dictionary, its searches, and the validation of a stored one.
  \<^item> \<open>Counting_Sort\<close>, \<open>Radix_Sort\<close> (\<^verbatim>\<open>sort.rs\<close>): the LSD radix sort equals the stable sort by key (interface
    \<open>stable_sorter\<close>), also over several columns.
  \<^item> \<open>Part_Filter\<close> (\<^verbatim>\<open>index/filter.rs\<close>) and \<open>Mph\<close> (\<^verbatim>\<open>index/mph.rs\<close>): the bloom filter has no false negatives (interface
    \<open>membership_filter\<close>); the perfect hash maps its keys one to one onto the slots.
  \<^item> \<open>Data_Types\<close> (\<^verbatim>\<open>types/datatype.rs\<close>), \<open>Calendar\<close>, \<open>Decimals\<close>, \<open>Float64\<close>, \<open>Cell_Value\<close> (\<^verbatim>\<open>types/value.rs\<close>): types with their
    parsing and promotion, civil dates, decimals, doubles as bit patterns, and the scalar values with casts,
    lanes, ordering and hash.
  \<^item> \<open>Column_Block\<close> (\<^verbatim>\<open>types/block.rs\<close>): columns refine lists of cells, blocks work row by row (interface \<open>cell_column\<close>).
  \<^item> \<open>Packed_Column\<close> (\<^verbatim>\<open>storage/column.rs\<close>): the compressed column of a granule; it composes lanes, bit packing, dictionary
    and null mask. Decoding returns the cells that were packed, the zone bounds enclose every live row under
    the ordering of values, and a literal turned into a lane selects the equal rows.
  \<^item> \<open>Granule\<close> (\<^verbatim>\<open>storage/granule.rs\<close>): the columns of some rows with the learned-rank index (perfect hash, fingerprint,
    predicted row). A point lookup is exact on both of its paths (interface \<open>point_lookup\<close>), and a granule holds the rows
    it was built from.
  \<^item> \<open>Delta_Buffer\<close> (\<^verbatim>\<open>storage/delta.rs\<close>): the write buffer, its arena of lanes, key index, tombstones and frozen image. The
    invariant holds in every state the step relation \<open>buffer_step\<close> reaches, refused writes included; the keyed buffer
    refines a map from keys to rows or deletions (interface \<open>keyed_buffer\<close>); what is drained or frozen is what the map holds.
  \<^item> \<open>Delete_Mask\<close> (\<^verbatim>\<open>storage/part.rs\<close>): the delete mask of a part with its count per granule, and the runs a sweep writes for the log;
    the log's decoder (\<^verbatim>\<open>persist/wal.rs\<close>, \<^verbatim>\<open>mask_positions\<close>) returns the positions that were hidden.
  \<^item> \<open>Part\<close> (\<^verbatim>\<open>storage/part.rs\<close>): a sorted run of granules. The build is the same for every number of threads, the router leads to
    the granule a full search finds, a point lookup is exact, the bloom filter of a part denies no key it holds, and the walks over live rows agree.
  \<^item> \<open>Part_Set\<close> (\<^verbatim>\<open>storage/part.rs\<close>): the published parts of a table. The invariant holds along the step relation \<open>set_step\<close>; an identity
    the log cites keeps naming the same rows; rows gathered from several parts are their cells.
  \<^item> \<open>Table_Schema\<close> (\<^verbatim>\<open>types/schema.rs\<close>): fields with their defaults, name lookup, engines and the key columns of a table. A default printed for
    the catalog reloads as the same value (the negative zero excepted), and the name index stays right through every operation.
  \<^item> \<open>Block_Sort\<close> (\<^verbatim>\<open>storage/table.rs\<close>): the order in which a batch becomes a part. The sort permutation is the stable sort (interface \<open>total_preorder\<close>
    for the comparison sort); a keyed batch ends strictly ascending with the last written row of every key. For sort keys of several columns this fails, and the counterexamples are theorems.
  \<^item> \<open>Table_Store\<close> (\<^verbatim>\<open>storage/table.rs\<close>): the operations of a table, from the part set and the buffer up: transactions, flush, bulk and single-row writes,
    point lookups and tombstones, merges and compaction, scans and sweeps. The next three theories are about them.
  \<^item> \<open>Table_Reads\<close>: in a keyed set (\<open>keyed_set\<close>) a key is live in at most one place; point lookups, single and batched, return exactly that place, a tombstone hides
    exactly that row, and publishing a part of other keys or filling filters keeps the set keyed.
  \<^item> \<open>Table_Txn\<close>: what a session does is the step relation \<open>table_step\<close>, refused statements included. A transaction isolates and is atomic; a failed flush, merge
    or bulk insert leaves the rows as they were.
  \<^item> \<open>Table_Merge\<close>: the heap merge ends and visits the live rows in key order; the compaction loop ends below the limit.
  \<^item> \<open>Wal_Record\<close> (\<^verbatim>\<open>persist/wal.rs\<close>, with \<^verbatim>\<open>put_block\<close> of \<^verbatim>\<open>persist/writer.rs\<close> and \<^verbatim>\<open>get_block\<close> of \<^verbatim>\<open>persist/reader.rs\<close>): the records of the write-ahead log. Every record
    decodes as what was logged, and the frame built in place is the frame of the format.
  \<^item> \<open>Wal_Segment\<close> (\<^verbatim>\<open>persist/wal.rs\<close>): one file of the log, its header, name and the walk over its frames. What an interrupted append leaves behind replays;
    a walk that succeeds has accounted for every acknowledged byte.
  \<^item> \<open>Wal_Log\<close> (\<^verbatim>\<open>persist/wal.rs\<close>): the handle of a log, from appending to rolling. What a session and a crash do is the step relation \<open>log_step\<close>; a crash keeps
    what the last completed sync covered, and of the later bytes a prefix, possibly padded with zeros, under the old or the new stamp (\<open>crash_image\<close>). Acknowledged records survive
    every such history, and every crash image opens. The history goes on behind a crash when the opened log's
    stamp is not past the end of the file: open does not bring such a stamp down, and a second crash can then make the log refuse to open, which is a theorem too. A rewind keeps
    exactly the records before it; a roll carries the decisions other logs may cite into a sound new segment, which retention leaves alone.

  \<^bold>\<open>Conventions.\<close> A \<open>usize\<close> that is a length or an index is a \<open>nat\<close>; an integer the code shifts, masks or lets wrap is a
  word of its width. An error is the left of a sum, with the fixed part of its message. A panic (an index out of
  range) is \<open>None\<close>. Text is its UTF-8 bytes. A double is its bit pattern; comparing, truncating and converting
  from integers are computed on it, while printing a double with the shortest digits and parsing one are
  parameters (the record \<open>float_text\<close>), since that code is not in the sources. Loops are recursive functions with
  a termination proof; none of them needs fuel.

  \<^bold>\<open>Bounds.\<close> Reads of a packed chunk are exact below \<open>2 ^ 26\<close> rows, the bound the source states for its reciprocal
  multiplication; granules are far smaller. A dictionary holds less than \<open>2 ^ 32\<close> bytes, the range of its offsets.
  The lane order of unsigned integers agrees with the ordering of values up to \<open>2 ^ 63 - 1\<close>; the ordering itself is
  inexact above.

  \<^bold>\<open>Not modelled.\<close> The worker pool, memory mapping and the file system side of the store (effects of the operating system). Of the log: replay across
  segments with the decisions logs cite of each other, the archive and point-in-time recovery; its file system calls succeed, except that an append may run out of
  space. The catalog; the SQL front end, planner, operators, functions, session and shell. Of a table, the compression report is left out; that a flush or a merge
  keeps the map from keys to rows is shown for its pieces (buffer contents, sort order, build, tombstones, merge order) and not composed.
\<close>

end
